(* ===== verification/Lt_Prelude.thy ===== *)
theory Lt_Prelude
  imports Main "HOL-Library.Word"
begin

text \<open>
  The prelude of the LuaTier development: the machine types of the C++ sources, the error
  results every fallible operation returns, the collections of rewrite rules the component
  theories fill, and the facts on lists, words and circular probing they share.
\<close>

unbundle bit_operations_syntax

section \<open>Machine types\<close>

type_synonym u8 = "8 word"
type_synonym u16 = "16 word"
type_synonym u32 = "32 word"
type_synonym u64 = "64 word"

text \<open>A pointer is its 64-bit value, as \<open>TValue::payload\<close> stores it; 0 is the null pointer.\<close>

type_synonym ptr = "64 word"

section \<open>Errors\<close>

text \<open>\<open>panic\<close> of \<open>common.hpp\<close> throws a \<open>LuatierError\<close> that carries a message.\<close>

datatype lua_error = LuatierError string

type_synonym 'a result = "lua_error + 'a"

definition panic :: "string \<Rightarrow> 'a result" where
  "panic msg = Inl (LuatierError msg)"

text \<open>The limit on nested C calls, which also bounds the nesting of the parser.\<close>

definition LUAI_MAXCCALLS :: int where "LUAI_MAXCCALLS = 200"

definition rbind :: "'a result \<Rightarrow> ('a \<Rightarrow> 'b result) \<Rightarrow> 'b result" where
  "rbind r f = (case r of Inl e \<Rightarrow> Inl e | Inr x \<Rightarrow> f x)"

named_theorems result_simps \<open>unfolding of error results\<close>

lemma panic_not_Inr [simp]: "panic m \<noteq> Inr x" "Inr x \<noteq> panic m"
  by (simp_all add: panic_def)

lemma panic_eq_iff [simp]: "panic m = panic n \<longleftrightarrow> m = n"
  by (simp add: panic_def)

lemma rbind_simps [simp]:
  "rbind (Inl e) f = Inl e" "rbind (Inr x) f = f x" "rbind (panic m) f = panic m"
  by (simp_all add: rbind_def panic_def)

lemma rbind_eq_Inr: "rbind r f = Inr y \<longleftrightarrow> (\<exists>x. r = Inr x \<and> f x = Inr y)"
  by (cases r) auto

lemma rbind_assoc: "rbind (rbind r f) g = rbind r (\<lambda>x. rbind (f x) g)"
  by (cases r) auto

lemmas [result_simps] = rbind_eq_Inr panic_def

section \<open>Lists\<close>

lemma nth_list_update_if:
  "i < length xs \<Longrightarrow> j < length xs \<Longrightarrow> xs[i := x] ! j = (if i = j then x else xs ! j)"
  by auto

lemma length_filter_list_update:
  assumes "i < length xs"
  shows "length (filter P (xs[i := y])) \<le> Suc (length (filter P xs))"
proof -
  have "length (filter P (xs[i := y]))
      = length (filter P (take i xs)) + length (filter P (y # drop (Suc i) xs))"
    using assms by (simp add: upd_conv_take_nth_drop)
  moreover have "length (filter P xs)
      = length (filter P (take i xs)) + length (filter P (xs ! i # drop (Suc i) xs))"
    using assms by (metis append_take_drop_id Cons_nth_drop_Suc filter_append length_append)
  ultimately show ?thesis by simp
qed

lemma distinct_map_filter_nth:
  "(\<And>i j. i < length xs \<Longrightarrow> j < length xs \<Longrightarrow> P (xs ! i) \<Longrightarrow> P (xs ! j) \<Longrightarrow> f (xs ! i) = f (xs ! j) \<Longrightarrow> i = j) \<Longrightarrow>
    distinct (map f (filter P xs))"
proof (induction xs)
  case (Cons x xs)
  have "distinct (map f (filter P xs))"
  proof (rule Cons.IH)
    fix i j assume "i < length xs" "j < length xs" "P (xs ! i)" "P (xs ! j)" "f (xs ! i) = f (xs ! j)"
    then show "i = j" using Cons.prems [of "Suc i" "Suc j"] by simp
  qed
  moreover have "f x \<notin> f ` {y \<in> set xs. P y}" if "P x"
  proof
    assume "f x \<in> f ` {y \<in> set xs. P y}"
    then obtain j where "j < length xs" "P (xs ! j)" "f x = f (xs ! j)" by (auto simp: in_set_conv_nth)
    with Cons.prems [of 0 "Suc j"] that show False by simp
  qed
  ultimately show ?case by auto
qed simp

section \<open>Division\<close>

lemma int_div_less_iff: "0 < d \<Longrightarrow> x div d < c \<longleftrightarrow> x < c * (d :: int)"
proof
  assume d: "0 < d" and "x < c * d"
  have "d * (x div d) \<le> x" using d by (metis add_0_right add_left_mono mod_mult_div_eq mult.commute pos_mod_sign add.commute)
  with \<open>x < c * d\<close> have "d * (x div d) < d * c" by (simp add: mult.commute)
  with d show "x div d < c" by simp
next
  assume d: "0 < d" and "x div d < c"
  then have "d * (x div d + 1) \<le> d * c" by simp
  moreover have "x < d * (x div d + 1)"
    unfolding distrib_left mult_1_right
    using pos_mod_bound [OF d, of x] mult_div_mod_eq [of d x] by linarith
  ultimately show "x < c * d" by (simp add: mult.commute)
qed

lemma int_le_div_iff: "0 < d \<Longrightarrow> c \<le> x div d \<longleftrightarrow> c * (d :: int) \<le> x"
  using int_div_less_iff [of d x c] by linarith

section \<open>Words\<close>

lemma sint_bounds_64: "- (2 ^ 63) \<le> sint (x :: 64 word)" "sint (x :: 64 word) < 2 ^ 63"
  using sint_range_size [of x] by (simp_all add: word_size)

lemma sint_of_int_64: "- (2 ^ 63) \<le> i \<Longrightarrow> i < 2 ^ 63 \<Longrightarrow> sint (word_of_int i :: 64 word) = i"
  by (simp add: signed_of_int signed_take_bit_int_eq_self_iff)

lemma sint_inject_64: "sint x = sint y \<longleftrightarrow> x = (y :: 64 word)"
  by (auto intro: signed_word_eqI)

section \<open>Characters, in the C locale of \<open>ctype.h\<close>\<close>

abbreviation code :: "char \<Rightarrow> nat" where
  "code c \<equiv> of_char c"

definition isdigit :: "char \<Rightarrow> bool" where
  "isdigit c \<longleftrightarrow> 48 \<le> code c \<and> code c \<le> 57"

definition isupper :: "char \<Rightarrow> bool" where
  "isupper c \<longleftrightarrow> 65 \<le> code c \<and> code c \<le> 90"

definition islower :: "char \<Rightarrow> bool" where
  "islower c \<longleftrightarrow> 97 \<le> code c \<and> code c \<le> 122"

definition isalpha :: "char \<Rightarrow> bool" where
  "isalpha c \<longleftrightarrow> isupper c \<or> islower c"

definition isalnum :: "char \<Rightarrow> bool" where
  "isalnum c \<longleftrightarrow> isalpha c \<or> isdigit c"

definition isxdigit :: "char \<Rightarrow> bool" where
  "isxdigit c \<longleftrightarrow> isdigit c \<or> (65 \<le> code c \<and> code c \<le> 70) \<or> (97 \<le> code c \<and> code c \<le> 102)"

definition isspace :: "char \<Rightarrow> bool" where
  "isspace c \<longleftrightarrow> code c = 32 \<or> (9 \<le> code c \<and> code c \<le> 13)"

definition isprint :: "char \<Rightarrow> bool" where
  "isprint c \<longleftrightarrow> 32 \<le> code c \<and> code c \<le> 126"

definition tolower :: "char \<Rightarrow> char" where
  "tolower c = (if isupper c then char_of (code c + 32) else c)"

lemmas ctype_defs = isdigit_def isupper_def islower_def isalpha_def isalnum_def isxdigit_def
  isspace_def isprint_def tolower_def

text \<open>The value of a hexadecimal digit, as \<open>value.cpp\<close> and \<open>lexer.cpp\<close> compute it.\<close>

definition hexval :: "char \<Rightarrow> nat" where
  "hexval c = (if isdigit c then code c - 48
               else if 97 \<le> code c \<and> code c \<le> 102 then code c - 97 + 10
               else code c - 65 + 10)"

section \<open>Decimal integers\<close>

definition digit_char :: "nat \<Rightarrow> char" where
  "digit_char d = char_of (48 + d)"

definition dec_val :: "string \<Rightarrow> nat" where
  "dec_val ds = foldl (\<lambda>a c. 10 * a + (code c - 48)) 0 ds"

fun dec_nat :: "nat \<Rightarrow> string" where
  "dec_nat n = (if n < 10 then [digit_char n] else dec_nat (n div 10) @ [digit_char (n mod 10)])"

declare dec_nat.simps [simp del]

text \<open>\<open>std::to_string\<close> on a signed integer.\<close>

definition dec_int :: "int \<Rightarrow> string" where
  "dec_int i = (if i < 0 then CHR ''-'' # dec_nat (nat (- i)) else dec_nat (nat i))"

text \<open>
  \<open>std::stoll(s, &idx, 10)\<close>: leading white space, a sign, digits; \<open>None\<close> where it throws
  (no digits, or a value outside \<open>long long\<close>), else the value and \<open>idx\<close>.
\<close>

definition stoll :: "string \<Rightarrow> (int \<times> nat) option" where
  "stoll s =
     (let s1 = dropWhile isspace s;
          neg = (s1 \<noteq> [] \<and> hd s1 = CHR ''-'');
          s2 = (if s1 \<noteq> [] \<and> (hd s1 = CHR ''-'' \<or> hd s1 = CHR ''+'') then tl s1 else s1);
          ds = takeWhile isdigit s2;
          v = (if neg then - int (dec_val ds) else int (dec_val ds))
      in if ds = [] \<or> v < - (2 ^ 63) \<or> v \<ge> 2 ^ 63 then None
         else Some (v, length s - length (drop (length ds) s2)))"

lemma code_digit_char: "d < 10 \<Longrightarrow> code (digit_char d) = 48 + d"
  by (simp add: digit_char_def)

lemma isdigit_digit_char [simp]: "d < 10 \<Longrightarrow> isdigit (digit_char d)"
  by (simp add: isdigit_def code_digit_char)

lemma dec_nat_digits: "\<forall>c \<in> set (dec_nat n). isdigit c"
proof (induction n rule: dec_nat.induct)
  case (1 n)
  then show ?case by (cases "n < 10") (auto simp: dec_nat.simps [of n])
qed

lemma dec_nat_nonempty [simp]: "dec_nat n \<noteq> []"
  by (subst dec_nat.simps) simp

lemma dec_val_snoc: "dec_val (ds @ [c]) = 10 * dec_val ds + (code c - 48)"
  by (simp add: dec_val_def)

lemma dec_val_dec_nat: "dec_val (dec_nat n) = n"
proof (induction n rule: dec_nat.induct)
  case (1 n)
  show ?case
  proof (cases "n < 10")
    case True
    then show ?thesis by (simp add: dec_nat.simps [of n] dec_val_def code_digit_char)
  next
    case False
    with "1" show ?thesis by (simp add: dec_nat.simps [of n] dec_val_snoc code_digit_char)
  qed
qed

lemma takeWhile_dec_nat [simp]: "takeWhile isdigit (dec_nat n) = dec_nat n"
  using dec_nat_digits by (simp add: takeWhile_eq_all_conv)

lemma isdigit_not: "isdigit c \<Longrightarrow> \<not> isspace c \<and> c \<noteq> CHR ''-'' \<and> c \<noteq> CHR ''+''"
  by (auto simp: isdigit_def isspace_def)

lemma hd_dec_nat: "isdigit (hd (dec_nat n))" "\<not> isspace (hd (dec_nat n))"
    "hd (dec_nat n) \<noteq> CHR ''-''" "hd (dec_nat n) \<noteq> CHR ''+''"
proof -
  show d: "isdigit (hd (dec_nat n))" using dec_nat_digits [of n] by simp
  show "\<not> isspace (hd (dec_nat n))" "hd (dec_nat n) \<noteq> CHR ''-''" "hd (dec_nat n) \<noteq> CHR ''+''"
    using isdigit_not [OF d] by blast+
qed

lemma dropWhile_hd: "xs \<noteq> [] \<Longrightarrow> \<not> P (hd xs) \<Longrightarrow> dropWhile P xs = xs"
  by (cases xs) simp_all

lemma stoll_dec_int:
  assumes "- (2 ^ 63) \<le> i" "i < 2 ^ 63"
  shows "stoll (dec_int i) = Some (i, length (dec_int i))"
proof (cases "i < 0")
  case True
  then have "dec_int i = CHR ''-'' # dec_nat (nat (- i))" by (simp add: dec_int_def)
  then show ?thesis using assms True by (simp add: stoll_def Let_def dec_val_dec_nat isspace_def)
next
  case False
  then have "dec_int i = dec_nat (nat i)" by (simp add: dec_int_def)
  then show ?thesis using assms False
    by (simp add: stoll_def Let_def dec_val_dec_nat dropWhile_hd hd_dec_nat)
qed

end
