(* ===== verification/Lt_Float.thy ===== *)
theory Lt_Float
  imports Lt_Prelude
begin

text \<open>
  The C++ \<open>double\<close>: IEEE-754 binary64 bit patterns, as \<open>TValue\<close> stores them in its payload.
  A pattern that is no NaN denotes an integer multiple of \<open>2 ^ -1074\<close>; \<^term>\<open>f_num\<close>-style
  arithmetic works on that integer, so comparison, truncation, flooring and rounding to nearest
  (ties to even) are exact and executable. The infinities come out of the same formula as
  \<open>\<plusminus>2 ^ 2098\<close>, above every finite double.
\<close>

type_synonym f64 = "64 word"

definition f_sign :: "f64 \<Rightarrow> bool" where
  "f_sign w \<longleftrightarrow> uint w \<ge> 2 ^ 63"

definition f_exp :: "f64 \<Rightarrow> nat" where
  "f_exp w = nat (uint w div 2 ^ 52 mod 2 ^ 11)"

definition f_man :: "f64 \<Rightarrow> int" where
  "f_man w = uint w mod 2 ^ 52"

text \<open>The magnitude in units of \<open>2 ^ -1074\<close>.\<close>

definition f_mag :: "f64 \<Rightarrow> int" where
  "f_mag w = (if f_exp w = 0 then f_man w else (2 ^ 52 + f_man w) * 2 ^ (f_exp w - 1))"

definition f_num :: "f64 \<Rightarrow> int" where
  "f_num w = (if f_sign w then - f_mag w else f_mag w)"

definition isnan :: "f64 \<Rightarrow> bool" where
  "isnan w \<longleftrightarrow> f_exp w = 2047 \<and> f_man w \<noteq> 0"

definition isinf :: "f64 \<Rightarrow> bool" where
  "isinf w \<longleftrightarrow> f_exp w = 2047 \<and> f_man w = 0"

text \<open>The unit of the fixed-point view: \<open>1.0\<close> is \<open>f_one\<close> units.\<close>

definition f_one :: int where
  "f_one = 2 ^ 1074"

lemma f_one_pos [simp]: "0 < f_one" "f_one \<noteq> 0"
  by (simp_all add: f_one_def)

subsection \<open>Comparison\<close>

definition f_eq :: "f64 \<Rightarrow> f64 \<Rightarrow> bool" where
  "f_eq a b \<longleftrightarrow> \<not> isnan a \<and> \<not> isnan b \<and> f_num a = f_num b"

definition f_lt :: "f64 \<Rightarrow> f64 \<Rightarrow> bool" where
  "f_lt a b \<longleftrightarrow> \<not> isnan a \<and> \<not> isnan b \<and> f_num a < f_num b"

definition f_le :: "f64 \<Rightarrow> f64 \<Rightarrow> bool" where
  "f_le a b \<longleftrightarrow> \<not> isnan a \<and> \<not> isnan b \<and> f_num a \<le> f_num b"

subsection \<open>Rounding to nearest, ties to even\<close>

text \<open>The bit length of a positive integer.\<close>

fun bitlen :: "nat \<Rightarrow> nat" where
  "bitlen n = (if n = 0 then 0 else Suc (bitlen (n div 2)))"

declare bitlen.simps [simp del]

definition f_make :: "bool \<Rightarrow> int \<Rightarrow> int \<Rightarrow> f64" where
  "f_make s e m = word_of_int ((if s then 2 ^ 63 else 0) + e * 2 ^ 52 + m)"

definition f_inf :: "bool \<Rightarrow> f64" where
  "f_inf s = f_make s 2047 0"

definition f_nan :: f64 where
  "f_nan = f_make False 2047 (2 ^ 51)"

text \<open>
  \<open>f_round s num den\<close> is the double nearest to \<open>\<plusminus>num / den\<close> units (\<open>0 \<le> num\<close>, \<open>0 < den\<close>):
  the quotient is cut to 53 bits, the remainder decides the rounding, and a quotient that
  rounds up to \<open>2 ^ 53\<close> carries into the exponent, as does the overflow to infinity.
\<close>

definition f_pack :: "bool \<Rightarrow> nat \<Rightarrow> int \<Rightarrow> f64" where
  "f_pack s sh q =
     (let w = (if q < 2 ^ 52 then q else (int sh + 1) * 2 ^ 52 + (q - 2 ^ 52))
      in if w \<ge> 2047 * 2 ^ 52 then f_inf s else f_make s 0 w)"

definition f_round :: "bool \<Rightarrow> int \<Rightarrow> int \<Rightarrow> f64" where
  "f_round s num den =
     (let sh = bitlen (nat (num div den)) - 53;
          d = den * 2 ^ sh;
          q = num div d;
          r = num mod d
      in f_pack s sh (if 2 * r > d \<or> (2 * r = d \<and> odd q) then q + 1 else q))"

subsection \<open>Arithmetic\<close>

definition f_neg :: "f64 \<Rightarrow> f64" where
  "f_neg a = f_make (\<not> f_sign a) 0 (uint a mod 2 ^ 63)"

definition f_add :: "f64 \<Rightarrow> f64 \<Rightarrow> f64" where
  "f_add a b =
     (if isnan a \<or> isnan b then f_nan
      else if isinf a then (if isinf b \<and> f_sign a \<noteq> f_sign b then f_nan else a)
      else if isinf b then b
      else let k = f_num a + f_num b in
        if k = 0 then f_make (f_sign a \<and> f_sign b) 0 0
        else f_round (k < 0) \<bar>k\<bar> 1)"

definition f_sub :: "f64 \<Rightarrow> f64 \<Rightarrow> f64" where
  "f_sub a b = (if isnan b then f_nan else f_add a (f_neg b))"

definition f_mul :: "f64 \<Rightarrow> f64 \<Rightarrow> f64" where
  "f_mul a b =
     (let s = (f_sign a \<noteq> f_sign b) in
      if isnan a \<or> isnan b then f_nan
      else if isinf a then (if f_mag b = 0 then f_nan else f_inf s)
      else if isinf b then (if f_mag a = 0 then f_nan else f_inf s)
      else f_round s (f_mag a * f_mag b) f_one)"

definition f_div :: "f64 \<Rightarrow> f64 \<Rightarrow> f64" where
  "f_div a b =
     (let s = (f_sign a \<noteq> f_sign b) in
      if isnan a \<or> isnan b then f_nan
      else if isinf a then (if isinf b then f_nan else f_inf s)
      else if isinf b then f_make s 0 0
      else if f_mag b = 0 then (if f_mag a = 0 then f_nan else f_inf s)
      else f_round s (f_mag a * f_one) (f_mag b))"

definition f_floor :: "f64 \<Rightarrow> f64" where
  "f_floor a =
     (if isnan a \<or> f_one dvd f_num a then a
      else let k = f_num a div f_one in
        if k = 0 then f_make (f_sign a) 0 0 else f_round (k < 0) (\<bar>k\<bar> * f_one) 1)"

definition f_fmod :: "f64 \<Rightarrow> f64 \<Rightarrow> f64" where
  "f_fmod a b =
     (if isnan a \<or> isnan b \<or> isinf a \<or> f_mag b = 0 then f_nan
      else if isinf b then a
      else f_round (f_sign a) (f_mag a mod f_mag b) 1)"

subsection \<open>Conversions\<close>

text \<open>\<open>static_cast<double>(int64_t)\<close>\<close>

definition f_of_int :: "int \<Rightarrow> f64" where
  "f_of_int i = f_round (i < 0) (\<bar>i\<bar> * f_one) 1"

definition i64_to_f64 :: "64 word \<Rightarrow> f64" where
  "i64_to_f64 n = f_of_int (sint n)"

text \<open>
  \<open>static_cast<int64_t>(double)\<close> truncates toward zero. Outside the range of \<open>int64_t\<close> the C++
  cast is undefined; the model takes the value the x86-64 instruction \<open>cvttsd2si\<close> delivers.
\<close>

definition f_trunc :: "f64 \<Rightarrow> int" where
  "f_trunc a = (if f_sign a then - (f_mag a div f_one) else f_mag a div f_one)"

definition f64_to_i64 :: "f64 \<Rightarrow> 64 word" where
  "f64_to_i64 a =
     (if \<not> isnan a \<and> - (2 ^ 63) \<le> f_trunc a \<and> f_trunc a < 2 ^ 63 then word_of_int (f_trunc a)
      else word_of_int (- (2 ^ 63)))"

text \<open>\<open>std::floor(d) == d\<close>, which also holds of the infinities.\<close>

definition f_integral :: "f64 \<Rightarrow> bool" where
  "f_integral a \<longleftrightarrow> f_eq (f_floor a) a"

definition kMin :: f64 where
  "kMin = f_of_int (- (2 ^ 63))"

definition kSup :: f64 where
  "kSup = f_neg kMin"

section \<open>Facts\<close>

named_theorems float_defs \<open>definitions of the double operations\<close>

lemmas [float_defs] = f_eq_def f_lt_def f_le_def

lemma f_man_bounds [simp]: "0 \<le> f_man w" "f_man w < 2 ^ 52"
  by (simp_all add: f_man_def)

lemma f_exp_bound: "f_exp w < 2048"
  by (simp add: f_exp_def nat_less_iff)

lemma f_mag_nonneg [simp]: "0 \<le> f_mag w"
  by (simp add: f_mag_def)

lemma f_mag_small_exp: "f_exp w \<le> e \<Longrightarrow> 1 \<le> e \<Longrightarrow> f_mag w < 2 ^ (52 + e)"
proof (cases "f_exp w = 0")
  case True
  assume "1 \<le> e"
  have "(2::int) ^ 52 \<le> 2 ^ (52 + e)" by (rule power_increasing) simp_all
  with f_man_bounds(2) [of w] True show ?thesis by (simp add: f_mag_def)
next
  case False
  assume le: "f_exp w \<le> e"
  have "f_mag w = (2 ^ 52 + f_man w) * 2 ^ (f_exp w - 1)" using False by (simp add: f_mag_def)
  also have "\<dots> < 2 ^ 53 * 2 ^ (f_exp w - 1)"
    using f_man_bounds(2) [of w] by (intro mult_strict_right_mono) simp_all
  also have "\<dots> \<le> 2 ^ 53 * 2 ^ (e - 1)"
    using le by (intro mult_left_mono power_increasing) simp_all
  also have "\<dots> = 2 ^ (53 + (e - 1))" by (rule power_add [symmetric])
  also have "53 + (e - 1) = 52 + e" using False le by simp
  finally show ?thesis .
qed

text \<open>A double whose magnitude reaches \<open>2 ^ 53\<close> is an integer.\<close>

lemma f_one_dvd_power: "1074 \<le> k \<Longrightarrow> f_one dvd 2 ^ k"
  unfolding f_one_def by (rule le_imp_power_dvd)

lemma f_mag_large_integral: "2 ^ 53 * f_one \<le> f_mag w \<Longrightarrow> f_one dvd f_mag w"
proof -
  assume big: "2 ^ 53 * f_one \<le> f_mag w"
  have split: "(2::int) ^ (52 + 1075) = 2 ^ 53 * f_one"
    unfolding f_one_def power_add [symmetric] by simp
  have "1075 \<le> f_exp w"
  proof (rule ccontr)
    assume "\<not> 1075 \<le> f_exp w"
    then have "f_mag w < 2 ^ (52 + 1075)" by (intro f_mag_small_exp) simp_all
    with big split show False by linarith
  qed
  then have "f_exp w \<noteq> 0" "1074 \<le> f_exp w - 1" by simp_all
  then show ?thesis
    unfolding f_mag_def by (simp only: if_False) (rule dvd_mult, rule f_one_dvd_power)
qed

lemma abs_f_num [simp]: "\<bar>f_num w\<bar> = f_mag w"
  by (simp add: f_num_def)

lemma dvd_f_num: "d dvd f_num w \<longleftrightarrow> d dvd f_mag w"
  by (simp add: f_num_def)

subsection \<open>Bit length\<close>

lemma bitlen_0 [simp]: "bitlen 0 = 0"
  by (simp add: bitlen.simps)

lemma less_2p_bitlen: "n < 2 ^ bitlen n"
proof (induction n rule: bitlen.induct)
  case (1 n)
  show ?case
  proof (cases "n = 0")
    case False
    with "1" have "n div 2 < 2 ^ bitlen (n div 2)" by simp
    then have "n < 2 * 2 ^ bitlen (n div 2)" by linarith
    with False show ?thesis by (simp add: bitlen.simps [of n])
  qed simp
qed

lemma bitlen_le: "n < 2 ^ k \<Longrightarrow> bitlen n \<le> k"
proof (induction n arbitrary: k rule: bitlen.induct)
  case (1 n)
  show ?case
  proof (cases "n = 0")
    case False
    with "1.prems" obtain j where k: "k = Suc j" by (cases k) auto
    with "1.prems" have "n div 2 < 2 ^ j" by simp
    with "1.IH" False have "bitlen (n div 2) \<le> j" by blast
    with False k show ?thesis by (simp add: bitlen.simps [of n])
  qed simp
qed

lemma two_pow_bitlen_le: "0 < n \<Longrightarrow> 2 ^ (bitlen n - 1) \<le> n"
proof (rule ccontr)
  assume "0 < n" "\<not> 2 ^ (bitlen n - 1) \<le> n"
  then have "bitlen n \<le> bitlen n - 1" by (intro bitlen_le) simp
  moreover have "0 < bitlen n" using \<open>0 < n\<close> by (subst bitlen.simps) simp
  ultimately show False by simp
qed

subsection \<open>Exact rounding\<close>

lemma f_make_low:
  assumes "0 \<le> w" "w < 2 ^ 63"
  shows "f_sign (f_make s 0 w) = s" "f_exp (f_make s 0 w) = nat (w div 2 ^ 52)"
    "f_man (f_make s 0 w) = w mod 2 ^ 52"
proof -
  have "uint (f_make s 0 w) = ((if s then 2 ^ 63 else 0) + 0 * 2 ^ 52 + w) mod 2 ^ 64"
    unfolding f_make_def by (simp only: uint_word_of_int) simp
  then have u: "uint (f_make s 0 w) = (if s then 2 ^ 63 else 0) + w"
    using assms by simp
  have d: "w div 2 ^ 52 < 2 ^ 11" using assms by simp
  have t: "(2 ^ 63 + w) div 2 ^ 52 = 2 ^ 11 + w div 2 ^ 52" "(2 ^ 63 + w) mod 2 ^ 52 = w mod 2 ^ 52"
    using div_mult_self3 [of "2 ^ 52 :: int" "2 ^ 11" w] mod_mult_self3 [of "2 ^ 11 :: int" "2 ^ 52" w]
    by simp_all
  show "f_sign (f_make s 0 w) = s" using u assms by (simp add: f_sign_def)
  show "f_exp (f_make s 0 w) = nat (w div 2 ^ 52)"
    using u t d assms by (cases s) (simp_all add: f_exp_def)
  show "f_man (f_make s 0 w) = w mod 2 ^ 52"
    using u t by (cases s) (simp_all add: f_man_def)
qed

lemma f_mag_make:
  assumes q: "0 \<le> q" "q \<le> 2 ^ 53" and e: "sh < 2046"
    and w: "w = (if q < 2 ^ 52 then q else (int sh + 1) * 2 ^ 52 + (q - 2 ^ 52))"
  shows "q < 2 ^ 52 \<Longrightarrow> f_mag (f_make s 0 w) = q"
    and "2 ^ 52 \<le> q \<Longrightarrow> f_mag (f_make s 0 w) = q * 2 ^ sh"
    and "w < 2048 * 2 ^ 52" and "0 \<le> w"
proof -
  have bound: "0 \<le> w" "w < 2048 * 2 ^ 52" using q e by (simp_all add: w split: if_split)
  show "w < 2048 * 2 ^ 52" "0 \<le> w" by (rule bound)+
  note low = f_make_low [of w s]
  have two52: "(2::int) ^ 52 \<noteq> 0" by simp
  { assume "q < 2 ^ 52"
    with q have "w div 2 ^ 52 = 0" "w mod 2 ^ 52 = q" by (simp_all add: w)
    with low bound show "f_mag (f_make s 0 w) = q" by (simp add: f_mag_def) }
  { assume ge: "2 ^ 52 \<le> q"
    show "f_mag (f_make s 0 w) = q * 2 ^ sh"
    proof (cases "q = 2 ^ 53")
      case True
      then have "w = (int sh + 2) * 2 ^ 52" by (simp add: w algebra_simps)
      then have "w div 2 ^ 52 = int sh + 2" "w mod 2 ^ 52 = 0" by simp_all
      with low bound have "f_exp (f_make s 0 w) = sh + 2" "f_man (f_make s 0 w) = 0" by simp_all
      with True show ?thesis by (simp add: f_mag_def)
    next
      case False
      with q ge have r: "0 \<le> q - 2 ^ 52" "q - 2 ^ 52 < 2 ^ 52" by simp_all
      have weq: "w = (q - 2 ^ 52) + (int sh + 1) * 2 ^ 52" using ge by (simp add: w)
      have "w div 2 ^ 52 = int sh + 1" "w mod 2 ^ 52 = q - 2 ^ 52"
        unfolding weq div_mult_self1 [OF two52] mod_mult_self1
        using r by (simp only: div_pos_pos_trivial mod_pos_pos_trivial add_0)+
      with low bound have "f_exp (f_make s 0 w) = sh + 1" "f_man (f_make s 0 w) = q - 2 ^ 52"
        by simp_all
      then show ?thesis by (simp add: f_mag_def)
    qed }
qed

text \<open>A magnitude with at most 53 significant bits and no overflow is rounded to itself.\<close>

lemma f_round_exact:
  assumes n: "n = m * 2 ^ k" and m: "0 \<le> m" "m < 2 ^ 53" and k: "k < 2045"
  shows "f_mag (f_round s n 1) = n" and "f_sign (f_round s n 1) = s"
    and "\<not> isnan (f_round s n 1)"
proof -
  define sh where "sh = bitlen (nat n) - 53"
  define q where "q = n div 2 ^ sh"
  define w where "w = (if q < 2 ^ 52 then q else (int sh + 1) * 2 ^ 52 + (q - 2 ^ 52))"
  have n0: "0 \<le> n" using n m by simp
  have "n < 2 ^ 53 * 2 ^ k" using n m by simp
  then have lt: "n < 2 ^ (53 + k)" by (simp only: power_add)
  then have "nat n < 2 ^ (53 + k)" using n0 by (metis nat_less_iff nat_power_eq of_nat_numeral nat_int zero_le_numeral of_nat_power)
  then have "bitlen (nat n) \<le> 53 + k" by (rule bitlen_le)
  then have shk: "sh \<le> k" by (simp add: sh_def)
  then have dvd: "2 ^ sh dvd n" unfolding n by (intro dvd_mult le_imp_power_dvd)
  then have qn: "q * 2 ^ sh = n" and r0: "n mod 2 ^ sh = 0" by (simp_all add: q_def)
  have "nat n < 2 ^ bitlen (nat n)" by (rule less_2p_bitlen)
  also have "\<dots> \<le> 2 ^ (53 + sh)" by (rule power_increasing) (simp_all add: sh_def)
  finally have "n < 2 ^ (53 + sh)" using n0 by (metis nat_less_iff of_nat_power of_nat_numeral zless_nat_eq_int_zless nat_int int_nat_eq of_nat_less_iff)
  then have qlt: "q < 2 ^ 53" using qn by (metis power_add mult_less_cancel_right zero_less_power zero_less_numeral less_le_not_le)
  have q0: "0 \<le> q" using n0 by (simp add: q_def pos_imp_zdiv_nonneg_iff)
  have big: "2 ^ 52 \<le> q \<or> sh = 0"
  proof (cases "sh = 0")
    case False
    then have pos: "0 < nat n" by (cases "nat n = 0") (simp_all add: sh_def)
    have "bitlen (nat n) - 1 = 52 + sh" using False by (simp add: sh_def)
    with two_pow_bitlen_le [OF pos] have "2 ^ (52 + sh) \<le> nat n" by simp
    then have "(2::int) ^ (52 + sh) \<le> n" using n0 by (metis int_nat_eq of_nat_le_iff of_nat_power of_nat_numeral)
    then have "2 ^ 52 * 2 ^ sh \<le> q * 2 ^ sh" by (simp add: qn power_add)
    then show ?thesis by simp
  qed simp
  have sh': "sh < 2046" using shk k by simp
  note mk = f_mag_make [OF q0 less_imp_le [OF qlt] sh' w_def]
  have wlt: "w < 2047 * 2 ^ 52" "0 \<le> w"
    using qlt q0 shk k by (simp_all add: w_def split: if_split)
  have "f_round s n 1 = f_pack s sh q"
    using r0 unfolding f_round_def Let_def sh_def [symmetric] q_def [symmetric]
    by (simp add: sh_def [symmetric] q_def [symmetric])
  also have "\<dots> = f_make s 0 w"
    using wlt unfolding f_pack_def Let_def w_def [symmetric] by simp
  finally have eq: "f_round s n 1 = f_make s 0 w" .
  show "f_mag (f_round s n 1) = n"
  proof (cases "q < 2 ^ 52")
    case True
    with big have "sh = 0" by simp
    with mk(1) True qlt qn show ?thesis by (simp add: eq)
  next
    case False
    with mk(2) qlt qn show ?thesis by (simp add: eq)
  qed
  have l: "w < 2 ^ 63" using wlt by simp
  show "f_sign (f_round s n 1) = s" using f_make_low [OF wlt(2) l] by (simp add: eq)
  have "w div 2 ^ 52 < 2047" using wlt by simp
  then have "f_exp (f_make s 0 w) < 2047" using f_make_low(2) [OF wlt(2) l] by simp
  then show "\<not> isnan (f_round s n 1)" by (simp add: eq isnan_def)
qed

subsection \<open>Conversions are exact where the code relies on it\<close>

lemma f_of_int_exact:
  assumes "\<bar>i\<bar> = m * 2 ^ k" "0 \<le> m" "m < 2 ^ 53" "k \<le> 64"
  shows "f_num (f_of_int i) = i * f_one" "\<not> isnan (f_of_int i)"
proof -
  have e: "\<bar>i\<bar> * f_one = m * 2 ^ (k + 1074)"
    unfolding f_one_def assms(1) by (simp only: power_add mult.assoc)
  note ex = f_round_exact [OF e assms(2,3)]
  show "f_num (f_of_int i) = i * f_one"
    using ex(1,2) [of "i < 0"] assms(4) unfolding f_of_int_def f_num_def by (cases "i < 0") simp_all
  show "\<not> isnan (f_of_int i)"
    using ex(3) assms(4) by (simp add: f_of_int_def)
qed

lemma f_of_int_small:
  assumes "\<bar>i\<bar> \<le> 2 ^ 53"
  shows "f_num (f_of_int i) = i * f_one" "\<not> isnan (f_of_int i)"
proof -
  have "\<exists>m k. \<bar>i\<bar> = m * 2 ^ k \<and> 0 \<le> m \<and> m < 2 ^ 53 \<and> k \<le> 64"
  proof (cases "\<bar>i\<bar> = 2 ^ 53")
    case True
    then show ?thesis by (intro exI [of _ 1] exI [of _ 53]) simp
  next
    case False
    with assms show ?thesis by (intro exI [of _ "\<bar>i\<bar>"] exI [of _ 0]) simp
  qed
  then show "f_num (f_of_int i) = i * f_one" "\<not> isnan (f_of_int i)"
    using f_of_int_exact by blast+
qed

lemma f_neg_parts: "f_sign (f_neg a) = (\<not> f_sign a)" "f_exp (f_neg a) = f_exp a" "f_man (f_neg a) = f_man a"
proof -
  have w: "0 \<le> uint a mod 2 ^ 63" "uint a mod 2 ^ 63 < 2 ^ 63" by simp_all
  have "uint a mod (2 ^ 52 * 2 ^ 11) div 2 ^ 52 = uint a div 2 ^ 52 mod 2 ^ 11"
    by (simp only: zmod_zmult2_eq zero_le_power zero_le_numeral) simp
  then show "f_exp (f_neg a) = f_exp a"
    using f_make_low(2) [OF w] by (simp add: f_neg_def f_exp_def)
  have "uint a mod 2 ^ 63 mod 2 ^ 52 = uint a mod 2 ^ 52"
    by (rule mod_mod_cancel) simp
  then show "f_man (f_neg a) = f_man a"
    using f_make_low(3) [OF w] by (simp add: f_neg_def f_man_def)
  show "f_sign (f_neg a) = (\<not> f_sign a)"
    using f_make_low(1) [OF w] by (simp add: f_neg_def)
qed

lemma f_num_neg [simp]: "f_num (f_neg a) = - f_num a"
  by (simp add: f_num_def f_mag_def f_neg_parts)

lemma isnan_neg [simp]: "isnan (f_neg a) = isnan a"
  by (simp add: isnan_def f_neg_parts)

text \<open>\<open>2 ^ 63\<close> in units, the first magnitude beyond \<open>int64_t\<close>.\<close>

definition f_lim :: int where
  "f_lim = 2 ^ 63 * f_one"

lemma f_lim_pos [simp]: "0 < f_lim"
  by (simp add: f_lim_def)

lemma kMin_num: "f_num kMin = - f_lim" "\<not> isnan kMin"
  using f_of_int_exact [of "- (2 ^ 63)" 1 63] by (simp_all add: kMin_def f_lim_def)

lemma kSup_num: "f_num kSup = f_lim" "\<not> isnan kSup"
  using kMin_num by (simp_all add: kSup_def)

text \<open>\<open>std::floor(d) == d\<close> says that the exact value is an integer.\<close>

lemma f_integral_iff: "f_integral a \<longleftrightarrow> \<not> isnan a \<and> f_one dvd f_num a"
proof (cases "isnan a \<or> f_one dvd f_num a")
  case True
  then show ?thesis by (auto simp: f_integral_def f_eq_def f_floor_def)
next
  case False
  then have nd: "\<not> f_one dvd f_num a" by simp
  then have "f_mag a < 2 ^ 53 * f_one"
    using f_mag_large_integral [of a] by (meson dvd_f_num not_le)
  then have b: "f_num a < 2 ^ 53 * f_one" "- (2 ^ 53) * f_one < f_num a"
    using abs_f_num [of a] by linarith+
  define k where "k = f_num a div f_one"
  have "k < 2 ^ 53" "- (2 ^ 53) \<le> k"
    unfolding k_def using b by (simp_all only: int_div_less_iff int_le_div_iff f_one_pos(1) less_imp_le)
  then have k: "\<bar>k\<bar> \<le> 2 ^ 53" by linarith
  have z: "f_num (f_make s 0 0) = 0" for s
    using f_make_low [of 0 s] by (cases s) (simp_all add: f_num_def f_mag_def)
  have "f_floor a = (if k = 0 then f_make (f_sign a) 0 0 else f_of_int k)"
    using False by (simp add: f_floor_def k_def Let_def f_of_int_def)
  then have "f_num (f_floor a) = k * f_one"
    using z f_of_int_small(1) [OF k] by simp
  then have "f_num (f_floor a) \<noteq> f_num a" using nd by (metis dvd_triv_right)
  with False show ?thesis by (simp add: f_integral_def f_eq_def)
qed

lemma f_trunc_num: "f_one dvd f_num a \<Longrightarrow> f_trunc a * f_one = f_num a"
  by (auto simp: f_trunc_def f_num_def split: if_splits)

lemma f64_to_i64_integral:
  assumes "f_one dvd f_num a" "\<not> isnan a" "- f_lim \<le> f_num a" "f_num a < f_lim"
  shows "sint (f64_to_i64 a) * f_one = f_num a"
proof -
  note t = f_trunc_num [OF assms(1)]
  have "- (2 ^ 63) * f_one \<le> f_trunc a * f_one" "f_trunc a * f_one < 2 ^ 63 * f_one"
    using assms t by (simp_all add: f_lim_def)
  then have r: "- (2 ^ 63) \<le> f_trunc a" "f_trunc a < 2 ^ 63"
    using f_one_pos(1) by (simp_all only: mult_le_cancel_right_pos mult_less_cancel_right_pos)
  then have "sint (f64_to_i64 a) = f_trunc a"
    using assms(2) sint_of_int_64 by (simp add: f64_to_i64_def)
  with t show ?thesis by simp
qed

subsection \<open>A nonzero value determines the bit pattern\<close>

lemma uint_parts: "uint w = (if f_sign w then 2 ^ 63 else 0) + int (f_exp w) * 2 ^ 52 + f_man w"
proof -
  define u where "u = uint w"
  have b: "0 \<le> u" "u < 2 ^ 64" using uint_lt2p [of w] by (simp_all add: u_def)
  define v where "v = u div 2 ^ 52"
  have u: "u = v * 2 ^ 52 + u mod 2 ^ 52" by (simp add: v_def)
  have v: "0 \<le> v" "v < 2 ^ 12" using b by (simp_all add: v_def pos_imp_zdiv_nonneg_iff)
  have s: "u \<ge> 2 ^ 63 \<longleftrightarrow> v \<ge> 2 ^ 11" using b by (simp add: v_def) linarith
  have "(v - 2 ^ 11) mod 2 ^ 11 = v mod 2 ^ 11" by (rule minus_mod_self2)
  moreover have "(v - 2 ^ 11) mod 2 ^ 11 = v - 2 ^ 11" if "v \<ge> 2 ^ 11"
    by (rule mod_pos_pos_trivial) (use that v in simp_all)
  moreover have "v mod 2 ^ 11 = v" if "\<not> v \<ge> 2 ^ 11"
    by (rule mod_pos_pos_trivial) (use that v in simp_all)
  ultimately have "v = (if v \<ge> 2 ^ 11 then 2 ^ 11 else 0) + v mod 2 ^ 11" by (cases "v \<ge> 2 ^ 11") (simp_all only: if_True if_False, simp_all)
  then show ?thesis using u s v unfolding f_sign_def f_exp_def f_man_def u_def [symmetric] v_def [symmetric]
    by (cases "v \<ge> 2 ^ 11") simp_all
qed

lemma f_mag_exp_bounds: "f_exp w \<noteq> 0 \<Longrightarrow> 2 ^ (51 + f_exp w) \<le> f_mag w \<and> f_mag w < 2 ^ (52 + f_exp w)"
proof
  assume e: "f_exp w \<noteq> 0"
  then have "51 + f_exp w = 52 + (f_exp w - 1)" by simp
  then have "(2::int) ^ (51 + f_exp w) = 2 ^ 52 * 2 ^ (f_exp w - 1)" by (simp only: power_add)
  also have "\<dots> \<le> f_mag w" using e by (simp add: f_mag_def)
  finally show "2 ^ (51 + f_exp w) \<le> f_mag w" .
  show "f_mag w < 2 ^ (52 + f_exp w)" using e by (intro f_mag_small_exp) simp_all
qed

lemma f_exp_le_of_mag:
  assumes "f_mag a \<le> f_mag b" shows "f_exp a \<le> f_exp b"
proof (rule ccontr)
  assume "\<not> f_exp a \<le> f_exp b"
  then have lt: "f_exp b < f_exp a" by simp
  then have "2 ^ (51 + f_exp a) \<le> f_mag a" using f_mag_exp_bounds [of a] by simp
  moreover have "f_mag b < 2 ^ (51 + f_exp a)"
  proof (cases "f_exp b = 0")
    case True
    then have "f_mag b < 2 ^ 52" using f_man_bounds(2) [of b] by (simp add: f_mag_def)
    moreover have "(2::int) ^ 52 \<le> 2 ^ (51 + f_exp a)" using lt by (intro power_increasing) simp_all
    ultimately show ?thesis by linarith
  next
    case False
    then have "f_mag b < 2 ^ (52 + f_exp b)" using f_mag_exp_bounds [of b] by simp
    moreover have "(2::int) ^ (52 + f_exp b) \<le> 2 ^ (51 + f_exp a)" using lt by (intro power_increasing) simp_all
    ultimately show ?thesis by linarith
  qed
  ultimately show False using assms by linarith
qed

lemma f_num_inj:
  assumes "f_num a = f_num b" "f_num a \<noteq> 0"
  shows "a = b"
proof -
  have m: "f_mag a = f_mag b" using assms(1) abs_f_num by metis
  have s: "f_sign a = f_sign b"
    using assms m f_mag_nonneg [of b] by (auto simp: f_num_def split: if_splits)
  have e: "f_exp a = f_exp b" using f_exp_le_of_mag [of a b] f_exp_le_of_mag [of b a] m by simp
  have "f_man a = f_man b" using m e by (simp add: f_mag_def split: if_splits)
  with s e have "uint a = uint b" by (simp add: uint_parts)
  then show ?thesis by (rule unsigned_word_eqI)
qed

text \<open>An integral double within \<open>int64_t\<close> is a 53-bit integer times a power of two, so converting
  it to an integer and back is exact.\<close>

lemma f_mag_integral_repr:
  assumes "f_one dvd f_mag w" "f_mag w \<le> f_lim"
  shows "\<exists>m k. f_mag w = m * 2 ^ k * f_one \<and> 0 \<le> m \<and> m < 2 ^ 53 \<and> k \<le> 64"
proof (cases "f_mag w < 2 ^ 53 * f_one")
  case True
  from assms(1) obtain m where m: "f_mag w = m * f_one" by (metis dvdE mult.commute)
  have "0 \<le> m" using m f_mag_nonneg [of w] f_one_pos(1) by (metis zero_le_mult_iff not_less)
  moreover have "m < 2 ^ 53" using True m f_one_pos(1) by (simp only: mult_less_cancel_right_pos)
  ultimately show ?thesis using m by (intro exI [of _ m] exI [of _ 0]) simp
next
  case False
  have p: "(2::int) ^ (52 + 1075) = 2 ^ 53 * f_one"
    unfolding f_one_def power_add [symmetric] by simp
  have "1075 \<le> f_exp w"
  proof (rule ccontr)
    assume "\<not> 1075 \<le> f_exp w"
    then have "f_mag w < 2 ^ (52 + 1075)" by (intro f_mag_small_exp) simp_all
    with False p show False by linarith
  qed
  then have e: "f_exp w - 1 = (f_exp w - 1075) + 1074" and nz: "f_exp w \<noteq> 0" by simp_all
  then have mg: "f_mag w = (2 ^ 52 + f_man w) * 2 ^ (f_exp w - 1075) * f_one"
    unfolding f_mag_def f_one_def by (simp only: if_False e power_add mult.assoc)
  have "f_exp w - 1075 \<le> 64"
  proof (rule ccontr)
    assume "\<not> f_exp w - 1075 \<le> 64"
    then have le: "64 + 1074 \<le> 51 + f_exp w" by simp
    have "2 ^ 64 * f_one = 2 ^ (64 + 1074)" unfolding f_one_def by (rule power_add [symmetric])
    also have "\<dots> \<le> 2 ^ (51 + f_exp w)" using le by (rule power_increasing) simp
    also have "\<dots> \<le> f_mag w" using f_mag_exp_bounds [OF nz] by simp
    finally show False using assms(2) f_one_pos(1) unfolding f_lim_def by simp
  qed
  then show ?thesis
    using mg f_man_bounds [of w] by (intro exI [of _ "2 ^ 52 + f_man w"] exI [of _ "f_exp w - 1075"]) simp
qed

text \<open>\<open>static_cast<double>(INT64_MAX)\<close> rounds up to \<open>2 ^ 63\<close>.\<close>

lemma f_of_int_max: "f_num (f_of_int (2 ^ 63 - 1)) = f_lim" "\<not> isnan (f_of_int (2 ^ 63 - 1))"
proof -
  define n :: int where "n = (2 ^ 63 - 1) * f_one"
  have lt: "n < 2 ^ 1137" and ge: "2 ^ 1136 \<le> n" and n0: "0 \<le> n"
    by (simp_all add: n_def f_one_def)
  have "nat n < 2 ^ 1137" using lt by (simp add: nat_less_iff n0)
  then have "bitlen (nat n) \<le> 1137" by (rule bitlen_le)
  moreover have "\<not> bitlen (nat n) \<le> 1136"
  proof
    assume "bitlen (nat n) \<le> 1136"
    then have "(2::nat) ^ bitlen (nat n) \<le> 2 ^ 1136" by (rule power_increasing) simp
    then have "nat n < 2 ^ 1136" using less_2p_bitlen [of "nat n"] by linarith
    with ge show False by (simp add: nat_less_iff n0)
  qed
  ultimately have b: "bitlen (nat n) = 1137" by simp
  have q: "n div 2 ^ 1084 = 2 ^ 53 - 1" "n mod 2 ^ 1084 = 2 ^ 1084 - 2 ^ 1074"
    by (simp_all add: n_def f_one_def)
  have "f_of_int (2 ^ 63 - 1) = f_round False n 1"
    by (simp add: f_of_int_def n_def)
  also have "\<dots> = f_pack False 1084 (2 ^ 53)"
    unfolding f_round_def Let_def div_by_1 b using q by simp
  also have "\<dots> = f_make False 0 (1086 * 2 ^ 52)"
    by (simp add: f_pack_def)
  finally have eq: "f_of_int (2 ^ 63 - 1) = f_make False 0 (1086 * 2 ^ 52)" .
  have p: "f_sign (f_make False 0 (1086 * 2 ^ 52)) = False" "f_exp (f_make False 0 (1086 * 2 ^ 52)) = 1086"
     "f_man (f_make False 0 (1086 * 2 ^ 52)) = 0"
    using f_make_low [of "1086 * 2 ^ 52" False] by simp_all
  show "f_num (f_of_int (2 ^ 63 - 1)) = f_lim"
    unfolding eq f_num_def f_mag_def p f_lim_def f_one_def by simp
  show "\<not> isnan (f_of_int (2 ^ 63 - 1))"
    unfolding eq isnan_def p by simp
qed

end
