(* ===== verification/Lt_Value.thy ===== *)
theory Lt_Value
  imports Lt_Float
begin

text \<open>
  Tagged values: \<open>src/runtime/value.hpp\<close> and \<open>src/runtime/value.cpp\<close>. A \<open>TValue\<close> is a tag and
  a 64-bit payload; the datatype below has one constructor per \<open>ValueTag\<close>, and
  \<open>payload_of\<close>/\<open>tag_of\<close> give back the two words. A string value is the address of its interned
  \<open>LjString\<close>; operations that read the object's immutable fields take the string heap.
\<close>

section \<open>Values\<close>

record lj_string =
  ls_hash :: u32
  ls_data :: string

type_synonym str_heap = "ptr \<Rightarrow> lj_string"

text \<open>A heap of empty strings, for concrete runs.\<close>

definition H0 :: str_heap where
  "H0 = (\<lambda>_. \<lparr>ls_hash = 0, ls_data = []\<rparr>)"

datatype value_tag =
  TagNil | TagBool | TagInt | TagFloat | TagString | TagTable | TagFunction | TagUserdata
  | TagThread | TagLightUserdata | TagInternal

datatype tvalue =
  VNil
  | VBool bool
  | VInt u64
  | VFloat f64
  | VString ptr
  | VTable ptr
  | VFunction ptr
  | VUserdata ptr
  | VThread ptr
  | VLightUserdata ptr
  | VInternal ptr

fun tag_of :: "tvalue \<Rightarrow> value_tag" where
  "tag_of VNil = TagNil"
| "tag_of (VBool _) = TagBool"
| "tag_of (VInt _) = TagInt"
| "tag_of (VFloat _) = TagFloat"
| "tag_of (VString _) = TagString"
| "tag_of (VTable _) = TagTable"
| "tag_of (VFunction _) = TagFunction"
| "tag_of (VUserdata _) = TagUserdata"
| "tag_of (VThread _) = TagThread"
| "tag_of (VLightUserdata _) = TagLightUserdata"
| "tag_of (VInternal _) = TagInternal"

text \<open>The enumerators of \<open>ValueTag\<close> in declaration order.\<close>

fun tag_code :: "value_tag \<Rightarrow> u32" where
  "tag_code TagNil = 0"
| "tag_code TagBool = 1"
| "tag_code TagInt = 2"
| "tag_code TagFloat = 3"
| "tag_code TagString = 4"
| "tag_code TagTable = 5"
| "tag_code TagFunction = 6"
| "tag_code TagUserdata = 7"
| "tag_code TagThread = 8"
| "tag_code TagLightUserdata = 9"
| "tag_code TagInternal = 10"

fun payload_of :: "tvalue \<Rightarrow> u64" where
  "payload_of VNil = 0"
| "payload_of (VBool b) = (if b then 1 else 0)"
| "payload_of (VInt n) = n"
| "payload_of (VFloat d) = d"
| "payload_of (VString p) = p"
| "payload_of (VTable p) = p"
| "payload_of (VFunction p) = p"
| "payload_of (VUserdata p) = p"
| "payload_of (VThread p) = p"
| "payload_of (VLightUserdata p) = p"
| "payload_of (VInternal p) = p"

fun is_int :: "tvalue \<Rightarrow> bool" where
  "is_int (VInt _) = True" | "is_int _ = False"

fun is_float :: "tvalue \<Rightarrow> bool" where
  "is_float (VFloat _) = True" | "is_float _ = False"

definition is_number :: "tvalue \<Rightarrow> bool" where
  "is_number v \<longleftrightarrow> is_int v \<or> is_float v"

definition is_nil :: "tvalue \<Rightarrow> bool" where
  "is_nil v \<longleftrightarrow> v = VNil"

fun is_string :: "tvalue \<Rightarrow> bool" where
  "is_string (VString _) = True" | "is_string _ = False"

fun is_truthy :: "tvalue \<Rightarrow> bool" where
  "is_truthy VNil = False"
| "is_truthy (VBool b) = b"
| "is_truthy _ = True"

fun to_number :: "tvalue \<Rightarrow> f64 result" where
  "to_number (VInt n) = Inr (i64_to_f64 n)"
| "to_number (VFloat d) = Inr d"
| "to_number _ = panic ''value is not a number''"

section \<open>Conversion, equality and order\<close>

definition float_to_integer :: "f64 \<Rightarrow> u64 option" where
  "float_to_integer d =
     (if f_le kMin d \<and> f_lt d kSup \<and> f_integral d then Some (f64_to_i64 d) else None)"

fun number_as_int :: "tvalue \<Rightarrow> u64 option" where
  "number_as_int (VInt n) = Some n"
| "number_as_int (VFloat d) = float_to_integer d"
| "number_as_int _ = None"

definition values_equal :: "tvalue \<Rightarrow> tvalue \<Rightarrow> bool" where
  "values_equal a b =
     (if tag_of a \<noteq> tag_of b then
        (if is_number a \<and> is_number b then
           (case (number_as_int a, number_as_int b) of
              (Some i1, Some i2) \<Rightarrow> i1 = i2
            | _ \<Rightarrow> False)
         else False)
      else (case (a, b) of
              (VNil, _) \<Rightarrow> True
            | (VFloat x, VFloat y) \<Rightarrow> f_eq x y
            | _ \<Rightarrow> payload_of a = payload_of b))"

definition int_fits_float :: "u64 \<Rightarrow> bool" where
  "int_fits_float i \<longleftrightarrow> - (2 ^ 53) \<le> sint i \<and> sint i \<le> 2 ^ 53"

definition lt_int_float :: "u64 \<Rightarrow> f64 \<Rightarrow> bool" where
  "lt_int_float i f =
     (if isnan f then False
      else if \<not> int_fits_float i then
        (if f_le kSup f then True
         else if f_lt kMin f then sint i < sint (f64_to_i64 f)
         else False)
      else f_lt (i64_to_f64 i) f)"

definition le_int_float :: "u64 \<Rightarrow> f64 \<Rightarrow> bool" where
  "le_int_float i f =
     (if isnan f then False
      else if \<not> int_fits_float i then
        (if f_le kSup f then True
         else if f_le kMin f then sint i \<le> sint (f64_to_i64 f)
         else False)
      else f_le (i64_to_f64 i) f)"

fun number_lt :: "tvalue \<Rightarrow> tvalue \<Rightarrow> bool" where
  "number_lt (VInt x) (VInt y) = (sint x < sint y)"
| "number_lt (VInt x) (VFloat y) = lt_int_float x y"
| "number_lt (VFloat x) (VFloat y) = f_lt x y"
| "number_lt (VFloat x) (VInt y) = (if isnan x then False else \<not> le_int_float y x)"
| "number_lt _ _ = False"

fun number_le :: "tvalue \<Rightarrow> tvalue \<Rightarrow> bool" where
  "number_le (VInt x) (VInt y) = (sint x \<le> sint y)"
| "number_le (VInt x) (VFloat y) = le_int_float x y"
| "number_le (VFloat x) (VFloat y) = f_le x y"
| "number_le (VFloat x) (VInt y) = (if isnan x then False else \<not> lt_int_float y x)"
| "number_le _ _ = False"

section \<open>The exact value of a number\<close>

text \<open>
  The specification side: every number that is not a NaN has an exact value, an integer count
  of units of \<open>2 ^ -1074\<close> (infinities included). Order and equality of numbers are order and
  equality of these values, whatever mixture of tags is compared.
\<close>

fun num_exact :: "tvalue \<Rightarrow> int option" where
  "num_exact (VInt n) = Some (sint n * f_one)"
| "num_exact (VFloat d) = (if isnan d then None else Some (f_num d))"
| "num_exact _ = None"

lemma f_one_cancel [simp]:
  "a * f_one < b * f_one \<longleftrightarrow> a < b" "a * f_one \<le> b * f_one \<longleftrightarrow> a \<le> b"
  "a * f_one = b * f_one \<longleftrightarrow> a = b"
  by (simp_all add: mult_less_cancel_right_pos mult_le_cancel_right_pos)

lemma int_fits_float_abs: "int_fits_float i \<longleftrightarrow> \<bar>sint i\<bar> \<le> 2 ^ 53"
  by (auto simp: int_fits_float_def abs_le_iff)

lemma i64_to_f64_exact:
  "int_fits_float i \<Longrightarrow> f_num (i64_to_f64 i) = sint i * f_one"
  "int_fits_float i \<Longrightarrow> \<not> isnan (i64_to_f64 i)"
  unfolding int_fits_float_abs i64_to_f64_def by (simp_all only: f_of_int_small not_False_eq_True)

lemma f_trunc_range:
  assumes "\<not> isnan f" "- f_lim \<le> f_num f" "f_num f < f_lim"
  shows "sint (f64_to_i64 f) = f_trunc f"
proof -
  have m: "f_num f = (if f_sign f then - f_mag f else f_mag f)" by (rule f_num_def)
  have "- (2 ^ 63) \<le> f_trunc f"
  proof (cases "f_sign f")
    case True
    then have "f_mag f \<le> 2 ^ 63 * f_one" using m assms by (simp add: f_lim_def)
    then have "f_mag f < (2 ^ 63 + 1) * f_one"
      using f_one_pos(1) unfolding distrib_right mult_1 by linarith
    then have "f_mag f div f_one < 2 ^ 63 + 1" by (simp only: int_div_less_iff f_one_pos(1))
    with True show ?thesis by (simp add: f_trunc_def)
  next
    case False
    then have "0 \<le> f_trunc f" by (simp add: f_trunc_def pos_imp_zdiv_nonneg_iff)
    then show ?thesis by simp
  qed
  moreover have "f_trunc f < 2 ^ 63"
  proof (cases "f_sign f")
    case True
    then have "f_trunc f \<le> 0" by (simp add: f_trunc_def pos_imp_zdiv_nonneg_iff)
    then show ?thesis by simp
  next
    case False
    then have "f_mag f < 2 ^ 63 * f_one" using m assms by (simp add: f_lim_def)
    then have "f_mag f div f_one < 2 ^ 63" by (simp only: int_div_less_iff f_one_pos(1))
    with False show ?thesis by (simp add: f_trunc_def)
  qed
  ultimately show ?thesis
    using assms(1) sint_of_int_64 by (simp add: f64_to_i64_def)
qed

text \<open>An integer that does not fit the mantissa compares with a truncated double as with the double.\<close>

lemma trunc_compare:
  assumes fits: "\<not> int_fits_float i" and f: "\<not> isnan f"
    and r: "- f_lim \<le> f_num f" "f_num f < f_lim"
  shows "sint i < sint (f64_to_i64 f) \<longleftrightarrow> sint i * f_one < f_num f"
    and "sint i \<le> sint (f64_to_i64 f) \<longleftrightarrow> sint i * f_one \<le> f_num f"
proof -
  note t = f_trunc_range [OF f r]
  have "(sint i < f_trunc f \<longleftrightarrow> sint i * f_one < f_num f) \<and>
        (sint i \<le> f_trunc f \<longleftrightarrow> sint i * f_one \<le> f_num f)"
  proof (cases "f_one dvd f_num f")
    case True
    then show ?thesis by (metis f_trunc_num f_one_cancel(1,2))
  next
    case False
    then have m: "f_mag f < 2 ^ 53 * f_one"
      using f_mag_large_integral [of f] by (meson dvd_f_num not_le)
    then have "f_mag f div f_one < 2 ^ 53" by (simp only: int_div_less_iff f_one_pos(1))
    moreover have "0 \<le> f_mag f div f_one" by (simp add: pos_imp_zdiv_nonneg_iff)
    ultimately have tr: "f_trunc f < 2 ^ 53" "- (2 ^ 53) < f_trunc f"
      by (simp_all add: f_trunc_def)
    have n: "f_num f < 2 ^ 53 * f_one" "- (2 ^ 53) * f_one < f_num f"
      using m abs_f_num [of f] by linarith+
    from fits consider "sint i < - (2 ^ 53)" | "2 ^ 53 < sint i"
      by (auto simp: int_fits_float_def)
    then show ?thesis
    proof cases
      case 1
      then have "sint i * f_one < - (2 ^ 53) * f_one" by (simp only: f_one_cancel)
      with 1 tr n show ?thesis by (intro conjI iffI) linarith+
    next
      case 2
      then have "2 ^ 53 * f_one < sint i * f_one" by (simp only: f_one_cancel)
      with 2 tr n show ?thesis by (intro conjI iffI) linarith+
    qed
  qed
  with t show "sint i < sint (f64_to_i64 f) \<longleftrightarrow> sint i * f_one < f_num f"
    and "sint i \<le> sint (f64_to_i64 f) \<longleftrightarrow> sint i * f_one \<le> f_num f" by simp_all
qed

lemma sint_scaled_bounds: "- f_lim \<le> sint (i :: u64) * f_one" "sint i * f_one < f_lim"
proof -
  have "- (2 ^ 63) * f_one \<le> sint i * f_one" "sint i * f_one < 2 ^ 63 * f_one"
    using sint_bounds_64 [of i] by (simp_all only: f_one_cancel)
  then show "- f_lim \<le> sint i * f_one" "sint i * f_one < f_lim"
    unfolding f_lim_def by linarith+
qed

lemma lt_int_float_exact: "lt_int_float i f \<longleftrightarrow> \<not> isnan f \<and> sint i * f_one < f_num f"
  using trunc_compare(1) [of i f] sint_scaled_bounds [of i] f_lim_pos i64_to_f64_exact [of i]
  by (auto simp: lt_int_float_def f_lt_def f_le_def kMin_num kSup_num)

lemma le_int_float_exact: "le_int_float i f \<longleftrightarrow> \<not> isnan f \<and> sint i * f_one \<le> f_num f"
  using trunc_compare(2) [of i f] sint_scaled_bounds [of i] f_lim_pos i64_to_f64_exact [of i]
  by (auto simp: le_int_float_def f_lt_def f_le_def kMin_num kSup_num)

lemma float_to_integer_exact:
  "float_to_integer d = Some n \<longleftrightarrow> \<not> isnan d \<and> f_num d = sint n * f_one"
proof
  assume "float_to_integer d = Some n"
  then have r: "\<not> isnan d" "- f_lim \<le> f_num d" "f_num d < f_lim" "f_one dvd f_num d"
    and n: "n = f64_to_i64 d"
    by (auto simp: float_to_integer_def f_le_def f_lt_def kMin_num kSup_num f_integral_iff split: if_splits)
  from f64_to_i64_integral [OF r(4,1,2,3)] r(1) n
  show "\<not> isnan d \<and> f_num d = sint n * f_one" by simp
next
  assume a: "\<not> isnan d \<and> f_num d = sint n * f_one"
  then have r: "\<not> isnan d" "- f_lim \<le> f_num d" "f_num d < f_lim" "f_one dvd f_num d"
    using sint_scaled_bounds [of n] by simp_all
  from f64_to_i64_integral [OF r(4,1,2,3)] a have "f64_to_i64 d = n"
    by (simp add: sint_inject_64)
  with r show "float_to_integer d = Some n"
    by (simp add: float_to_integer_def f_le_def f_lt_def kMin_num kSup_num f_integral_iff)
qed

lemmas float_to_integerI = float_to_integer_exact [THEN iffD2, OF conjI]

section \<open>Order and equality are exact\<close>

lemma number_le_num:
  "number_le a b = (case (num_exact a, num_exact b) of (Some x, Some y) \<Rightarrow> x \<le> y | _ \<Rightarrow> False)"
  by (cases a; cases b) (auto simp: f_le_def lt_int_float_exact le_int_float_exact)

text \<open>C1: \<open>number_lt\<close> and \<open>number_le\<close> order every pair of numbers by their exact mathematical values,
  mixed integer/float comparisons beyond \<open>2 ^ 53\<close>, infinities and NaN operands included.\<close>

theorem number_lt_exact:
  "number_lt a b = (case (num_exact a, num_exact b) of (Some x, Some y) \<Rightarrow> x < y | _ \<Rightarrow> False) \<and>
   number_le a b = (case (num_exact a, num_exact b) of (Some x, Some y) \<Rightarrow> x \<le> y | _ \<Rightarrow> False)"
  by (intro conjI number_le_num, cases a; cases b)
    (auto simp: f_lt_def lt_int_float_exact le_int_float_exact)

lemma values_equal_numbers_iff:
  "is_number a \<Longrightarrow> is_number b \<Longrightarrow>
    values_equal a b \<longleftrightarrow> (\<exists>x. num_exact a = Some x \<and> num_exact b = Some x)"
  by (cases a; cases b)
    (auto simp: values_equal_def is_number_def f_eq_def sint_inject_64 float_to_integer_exact
      split: option.splits dest: float_to_integerI)

text \<open>On numbers, raw equality is equality of the exact values, so that it agrees with the
  order: two numbers are equal exactly when each is at most the other.\<close>

theorem values_equal_antisym:
  assumes "is_number a" "is_number b"
  shows "values_equal a b \<longleftrightarrow> number_le a b \<and> number_le b a"
  unfolding values_equal_numbers_iff [OF assms] number_le_num
  by (auto split: option.splits)

text \<open>At \<open>2^53 + 1\<close>, where conversion to double would lose the difference.\<close>

theorem values_equal_antisym_witness:
  "values_equal (VInt 9007199254740993) (VFloat 0x4340000000000000) \<longleftrightarrow>
    number_le (VInt 9007199254740993) (VFloat 0x4340000000000000) \<and>
    number_le (VFloat 0x4340000000000000) (VInt 9007199254740993)"
  using values_equal_antisym [of "VInt 9007199254740993" "VFloat 0x4340000000000000"]
  by (simp add: is_number_def)

end
