(* ===== verification/Lt_Table.thy ===== *)
theory Lt_Table
  imports Lt_Value
begin

text \<open>
  Tables: \<open>src/runtime/table.hpp\<close> and \<open>src/runtime/table.cpp\<close>. A table has an array part for
  small positive integer keys and an open-addressing hash part with linear probing; a deleted
  entry keeps its slot as a tombstone so that probe chains stay intact, and a full hash part is
  rebuilt at twice its size. Every write reports the values it passes to \<open>GC::barrier\<close>, in order.
\<close>

section \<open>Data\<close>

record table_node =
  tn_key :: tvalue
  tn_value :: tvalue
  tn_used :: bool

record table =
  t_array :: "tvalue list"
  t_hash :: "table_node list"
  t_metatable :: "ptr option"
  t_version :: u32
  t_flags :: u32
  t_weak :: u8

definition empty_node :: table_node where
  "empty_node = \<lparr>tn_key = VNil, tn_value = VNil, tn_used = False\<rparr>"

definition clear_tm_cache :: "table \<Rightarrow> table" where
  "clear_tm_cache t = t\<lparr>t_flags := 0\<rparr>"

definition no_tm :: "table \<Rightarrow> nat \<Rightarrow> bool" where
  "no_tm t e \<longleftrightarrow> t_flags t AND push_bit e 1 \<noteq> 0"

definition mark_no_tm :: "table \<Rightarrow> nat \<Rightarrow> table" where
  "mark_no_tm t e = t\<lparr>t_flags := t_flags t OR push_bit e 1\<rparr>"

section \<open>Keys\<close>

fun is_gc_key :: "tvalue \<Rightarrow> bool" where
  "is_gc_key (VString _) = True"
| "is_gc_key (VTable _) = True"
| "is_gc_key (VFunction _) = True"
| "is_gc_key (VUserdata _) = True"
| "is_gc_key (VThread _) = True"
| "is_gc_key _ = False"

definition hash_key :: "str_heap \<Rightarrow> tvalue \<Rightarrow> nat \<Rightarrow> nat" where
  "hash_key H k m =
     (if m = 0 then 0
      else case k of
        VString s \<Rightarrow> unat (ls_hash (H s)) mod m
      | _ \<Rightarrow> unat (payload_of k XOR push_bit 32 (ucast (tag_code (tag_of k)))) mod m)"

fun key_as_integer :: "tvalue \<Rightarrow> u64 option" where
  "key_as_integer (VInt n) = Some n"
| "key_as_integer (VFloat d) =
     (if isnan d then None
      else if f_le kMin d \<and> f_le d (i64_to_f64 (word_of_int (2 ^ 63 - 1))) \<and> f_eq d (f_floor d) then
        (let out = f64_to_i64 d in if f_eq (i64_to_f64 out) d then Some out else None)
      else None)"
| "key_as_integer _ = None"

definition lookup_key :: "tvalue \<Rightarrow> tvalue" where
  "lookup_key key = (case key_as_integer key of Some i \<Rightarrow> VInt i | None \<Rightarrow> key)"

text \<open>The slot of an integer key in the array part.\<close>

definition array_slot :: "tvalue list \<Rightarrow> u64 \<Rightarrow> nat option" where
  "array_slot arr i = (if 1 \<le> sint i \<and> nat (sint i) \<le> length arr then Some (nat (sint i) - 1) else None)"

section \<open>Reading\<close>

text \<open>The slots a probe visits: \<open>(idx + probe) % hash.size()\<close>.\<close>

definition probe_seq :: "nat \<Rightarrow> nat \<Rightarrow> nat list" where
  "probe_seq n idx = map (\<lambda>p. (idx + p) mod n) [0..<n]"

fun get_loop :: "table_node list \<Rightarrow> tvalue \<Rightarrow> nat list \<Rightarrow> tvalue" where
  "get_loop h k [] = VNil"
| "get_loop h k (s # ss) =
     (if \<not> tn_used (h ! s) then VNil
      else if values_equal (tn_key (h ! s)) k then tn_value (h ! s)
      else get_loop h k ss)"

definition hash_get :: "str_heap \<Rightarrow> table_node list \<Rightarrow> tvalue \<Rightarrow> tvalue" where
  "hash_get H h k = (if h = [] then VNil else get_loop h k (probe_seq (length h) (hash_key H k (length h))))"

definition table_get :: "str_heap \<Rightarrow> table \<Rightarrow> tvalue \<Rightarrow> tvalue" where
  "table_get H t key =
     (case key_as_integer key of
        Some i \<Rightarrow>
          (case array_slot (t_array t) i of
             Some s \<Rightarrow> t_array t ! s
           | None \<Rightarrow> hash_get H (t_hash t) (VInt i))
      | None \<Rightarrow> hash_get H (t_hash t) key)"

definition table_get_int :: "str_heap \<Rightarrow> table \<Rightarrow> u64 \<Rightarrow> tvalue" where
  "table_get_int H t i =
     (case array_slot (t_array t) i of
        Some s \<Rightarrow> t_array t ! s
      | None \<Rightarrow> table_get H t (VInt i))"

section \<open>Writing\<close>

datatype probe = PUnused nat | PFound nat | PFull

fun raw_probe :: "table_node list \<Rightarrow> tvalue \<Rightarrow> nat list \<Rightarrow> probe" where
  "raw_probe h k [] = PFull"
| "raw_probe h k (s # ss) =
     (if \<not> tn_used (h ! s) then PUnused s
      else if values_equal (tn_key (h ! s)) k then PFound s
      else raw_probe h k ss)"

text \<open>The loop of \<open>set\<close> also remembers the first tombstone it passes.\<close>

fun set_probe :: "table_node list \<Rightarrow> tvalue \<Rightarrow> nat option \<Rightarrow> nat list \<Rightarrow> probe \<times> nat option" where
  "set_probe h k tomb [] = (PFull, tomb)"
| "set_probe h k tomb (s # ss) =
     (if \<not> tn_used (h ! s) then (PUnused s, tomb)
      else if values_equal (tn_key (h ! s)) k then (PFound s, tomb)
      else set_probe h k (if tomb = None \<and> is_nil (tn_value (h ! s)) then Some s else tomb) ss)"

definition put_node :: "table \<Rightarrow> nat \<Rightarrow> tvalue \<Rightarrow> tvalue \<Rightarrow> table" where
  "put_node t s k v = t\<lparr>t_hash := (t_hash t)[s := \<lparr>tn_key = k, tn_value = v, tn_used = True\<rparr>]\<rparr>"

definition put_value :: "table \<Rightarrow> nat \<Rightarrow> tvalue \<Rightarrow> table" where
  "put_value t s v = t\<lparr>t_hash := (t_hash t)[s := (t_hash t ! s)\<lparr>tn_value := v\<rparr>]\<rparr>"

definition put_array :: "table \<Rightarrow> nat \<Rightarrow> tvalue \<Rightarrow> table" where
  "put_array t s v = t\<lparr>t_array := (t_array t)[s := v]\<rparr>"

definition bump_version :: "table \<Rightarrow> table" where
  "bump_version t = t\<lparr>t_version := t_version t + 1\<rparr>"

type_synonym write_result = "table \<times> tvalue list"

definition raw_insert_hash :: "str_heap \<Rightarrow> tvalue \<Rightarrow> tvalue \<Rightarrow> table \<Rightarrow> write_result result" where
  "raw_insert_hash H k v t =
     (case raw_probe (t_hash t) k (probe_seq (length (t_hash t)) (hash_key H k (length (t_hash t)))) of
        PUnused s \<Rightarrow> Inr (put_node t s k v, [k, v])
      | PFound s \<Rightarrow> Inr (put_value t s v, [v])
      | PFull \<Rightarrow> panic ''rehash: hash full'')"

definition raw_insert :: "str_heap \<Rightarrow> tvalue \<times> tvalue \<Rightarrow> table \<Rightarrow> write_result result" where
  "raw_insert H kv t =
     (if is_nil (snd kv) then Inr (t, [])
      else case key_as_integer (fst kv) of
        Some i \<Rightarrow>
          (case array_slot (t_array t) i of
             Some s \<Rightarrow> Inr (put_array t s (snd kv), [snd kv])
           | None \<Rightarrow> raw_insert_hash H (VInt i) (snd kv) t)
      | None \<Rightarrow> raw_insert_hash H (fst kv) (snd kv) t)"

fun raw_insert_all :: "str_heap \<Rightarrow> (tvalue \<times> tvalue) list \<Rightarrow> table \<Rightarrow> write_result result" where
  "raw_insert_all H [] t = Inr (t, [])"
| "raw_insert_all H (kv # kvs) t =
     rbind (raw_insert H kv t)
       (\<lambda>(t', b). rbind (raw_insert_all H kvs t') (\<lambda>(t'', b'). Inr (t'', b @ b')))"

definition array_items :: "tvalue list \<Rightarrow> (tvalue \<times> tvalue) list" where
  "array_items arr =
     [(VInt (word_of_int (int i + 1)), arr ! i). i \<leftarrow> [0..<length arr], \<not> is_nil (arr ! i)]"

definition hash_items :: "table_node list \<Rightarrow> (tvalue \<times> tvalue) list" where
  "hash_items h = [(tn_key n, tn_value n). n \<leftarrow> h, tn_used n \<and> \<not> is_nil (tn_value n)]"

text \<open>\<open>while (n < limit) n <<= 1\<close>\<close>

function grow_pow2 :: "nat \<Rightarrow> nat \<Rightarrow> nat" where
  "grow_pow2 n limit = (if 0 < n \<and> n < limit then grow_pow2 (2 * n) limit else n)"
  by pat_completeness auto
termination
  by (relation "measure (\<lambda>(n, limit). limit - n)") auto

declare grow_pow2.simps [simp del]

definition rehash :: "str_heap \<Rightarrow> table \<Rightarrow> nat \<Rightarrow> nat \<Rightarrow> write_result result" where
  "rehash H t array_hint hash_hint =
     (let items = array_items (t_array t) @ hash_items (t_hash t);
          hs = grow_pow2 8 (max hash_hint (length items + 1));
          t0 = bump_version (t\<lparr>t_array := replicate array_hint VNil, t_hash := replicate hs empty_node\<rparr>)
      in raw_insert_all H items t0)"

text \<open>The two array branches of \<open>set_int\<close>; the second one grows the array part.\<close>

definition set_int_array :: "table \<Rightarrow> u64 \<Rightarrow> tvalue \<Rightarrow> write_result" where
  "set_int_array t i v =
     (case array_slot (t_array t) i of
        Some s \<Rightarrow> (put_array t s v, [v])
      | None \<Rightarrow>
          (let n = nat (sint i);
               t1 = (if length (t_array t) < n
                     then t\<lparr>t_array := t_array t @ replicate (n - length (t_array t)) VNil\<rparr> else t)
           in (bump_version (put_array t1 (n - 1) v), [v])))"

definition is_meta_name :: "string \<Rightarrow> bool" where
  "is_meta_name s \<longleftrightarrow> 2 \<le> length s \<and> s ! 0 = CHR ''_'' \<and> s ! 1 = CHR ''_''"

fun invalidate_tm :: "str_heap \<Rightarrow> tvalue \<Rightarrow> table \<Rightarrow> table" where
  "invalidate_tm H (VString s) t = (if is_meta_name (ls_data (H s)) then clear_tm_cache t else t)"
| "invalidate_tm H _ t = t"

definition bad_key :: "tvalue \<Rightarrow> string option" where
  "bad_key k =
     (case k of
        VNil \<Rightarrow> Some ''table index is nil''
      | VFloat d \<Rightarrow> (if isnan d then Some ''table index is NaN'' else None)
      | _ \<Rightarrow> None)"

datatype set_outcome = Written write_result | NeedRehash table

text \<open>The hash part of \<open>set\<close>: everything after the array shortcuts, up to the rehash.\<close>

definition set_hash :: "str_heap \<Rightarrow> tvalue \<Rightarrow> tvalue \<Rightarrow> table \<Rightarrow> set_outcome" where
  "set_hash H k v t =
     (case set_probe (t_hash t) k None (probe_seq (length (t_hash t)) (hash_key H k (length (t_hash t)))) of
        (PUnused s, tomb) \<Rightarrow>
          (if is_nil v then Written (t, [])
           else Written (bump_version (put_node t (case tomb of Some d \<Rightarrow> d | None \<Rightarrow> s) k v), [k, v]))
      | (PFound s, _) \<Rightarrow> Written (put_value t s v, if is_nil v then [] else [v])
      | (PFull, tomb) \<Rightarrow>
          (if is_nil v then Written (t, [])
           else case tomb of
             Some d \<Rightarrow> Written (bump_version (put_node t d k v), [k, v])
           | None \<Rightarrow> NeedRehash t))"

definition ensure_hash :: "table \<Rightarrow> table" where
  "ensure_hash t = (if t_hash t = [] then t\<lparr>t_hash := replicate 8 empty_node\<rparr> else t)"

text \<open>One pass of \<open>set\<close>, without the recursive call after the rehash.\<close>

definition set_pass :: "str_heap \<Rightarrow> tvalue \<Rightarrow> tvalue \<Rightarrow> table \<Rightarrow> set_outcome" where
  "set_pass H key v t0 =
     (let t = invalidate_tm H key t0 in
      case key_as_integer key of
        Some i \<Rightarrow>
          (if 1 \<le> sint i \<and> sint i \<le> 64 then Written (set_int_array t i v)
           else case array_slot (t_array t) i of
             Some s \<Rightarrow> Written (put_array t s v, [v])
           | None \<Rightarrow> set_hash H (VInt i) v (ensure_hash t))
      | None \<Rightarrow> set_hash H key v (ensure_hash t))"

subsection \<open>Termination of \<open>set\<close>: a rehash always leaves a free slot\<close>

definition count_used :: "table_node list \<Rightarrow> nat" where
  "count_used h = length (filter tn_used h)"

lemma set_probe_seq: "0 < n \<Longrightarrow> set (probe_seq n idx) = {..<n}"
proof -
  assume n: "0 < n"
  have "\<exists>p. p < n \<and> s = (idx + p) mod n" if s: "s < n" for s
  proof (cases "idx mod n \<le> s")
    case True
    then have "(idx + (s - idx mod n)) mod n = s"
      using s by (metis add_diff_inverse_nat mod_add_left_eq mod_less not_le)
    with s show ?thesis by (intro exI [of _ "s - idx mod n"]) simp
  next
    case False
    have "idx mod n < n" using n by simp
    with False have e: "idx mod n + (n + s - idx mod n) = s + n" and l: "n + s - idx mod n < n" by simp_all
    have "(idx + (n + s - idx mod n)) mod n = (s + n) mod n"
      using e by (metis mod_add_left_eq)
    with s l show ?thesis by (intro exI [of _ "n + s - idx mod n"]) simp
  qed
  with n show ?thesis by (fastforce simp: probe_seq_def)
qed

lemma length_probe_seq [simp]: "length (probe_seq n idx) = n"
  by (simp add: probe_seq_def)

lemma fst_set_probe: "fst (set_probe h k tomb ss) = raw_probe h k ss"
  by (induction ss arbitrary: tomb) auto

lemma raw_probe_full: "raw_probe h k ss = PFull \<longleftrightarrow> (\<forall>s \<in> set ss. tn_used (h ! s) \<and> \<not> values_equal (tn_key (h ! s)) k)"
  by (induction ss) auto

lemma raw_probe_slot:
  "raw_probe h k ss = PUnused s \<Longrightarrow> s \<in> set ss \<and> \<not> tn_used (h ! s)"
  "raw_probe h k ss = PFound s \<Longrightarrow> s \<in> set ss \<and> tn_used (h ! s) \<and> values_equal (tn_key (h ! s)) k"
  by (induction ss) (auto split: if_splits)

lemma probe_seq_bound: "s \<in> set (probe_seq n idx) \<Longrightarrow> s < n"
  by (cases "n = 0") (auto simp: probe_seq_def)

lemma count_used_less: "count_used h < length h \<longleftrightarrow> (\<exists>n \<in> set h. \<not> tn_used n)"
  unfolding count_used_def
  by (metis filter_True length_filter_le length_filter_less nat_less_le)

lemma raw_probe_not_full:
  "count_used h < length h \<Longrightarrow> raw_probe h k (probe_seq (length h) idx) \<noteq> PFull"
proof -
  assume "count_used h < length h"
  then obtain i where i: "i < length h" "\<not> tn_used (h ! i)"
    by (auto simp: count_used_less in_set_conv_nth)
  then have "0 < length h" by auto
  with i have "i \<in> set (probe_seq (length h) idx)" by (simp only: set_probe_seq lessThan_iff)
  with i(2) show ?thesis by (auto simp: raw_probe_full)
qed

lemma count_used_replicate [simp]: "count_used (replicate n empty_node) = 0"
  by (simp add: count_used_def empty_node_def)

lemma count_used_put_node:
  "s < length (t_hash t) \<Longrightarrow> count_used (t_hash (put_node t s k v)) \<le> Suc (count_used (t_hash t))"
  by (simp add: count_used_def put_node_def length_filter_list_update)

lemma count_used_put_value [simp]:
  "count_used (t_hash (put_value t s v)) = count_used (t_hash t)"
proof (cases "s < length (t_hash t)")
  case True
  have "map tn_used ((t_hash t)[s := (t_hash t ! s)\<lparr>tn_value := v\<rparr>]) = map tn_used (t_hash t)"
    using True by (simp add: map_update list_update_same_conv)
  then have "length (filter id (map tn_used ((t_hash t)[s := (t_hash t ! s)\<lparr>tn_value := v\<rparr>])))
     = length (filter id (map tn_used (t_hash t)))" by simp
  then show ?thesis by (simp add: count_used_def put_value_def filter_map comp_def)
qed (simp add: put_value_def list_update_beyond)

lemma hash_updates [simp]:
  "t_hash (put_array t s v) = t_hash t" "t_array (put_array t s v) = (t_array t)[s := v]"
  "t_array (put_node t s k v) = t_array t" "t_array (put_value t s v) = t_array t"
  "length (t_hash (put_node t s k v)) = length (t_hash t)"
  "length (t_hash (put_value t s v)) = length (t_hash t)"
  "t_hash (bump_version t) = t_hash t" "t_array (bump_version t) = t_array t"
  by (simp_all add: put_array_def put_node_def put_value_def bump_version_def)

lemma raw_insert_count:
  assumes "raw_insert H kv t = Inr (t', b)"
  shows "length (t_hash t') = length (t_hash t)" "count_used (t_hash t') \<le> Suc (count_used (t_hash t))"
proof -
  have *: "length (t_hash t') = length (t_hash t) \<and> count_used (t_hash t') \<le> Suc (count_used (t_hash t))"
    if "raw_insert_hash H k v t = Inr (t', b)" for k v
    using that
    by (auto simp: raw_insert_hash_def split: probe.splits
        intro!: count_used_put_node dest!: raw_probe_slot(1) probe_seq_bound)
  from assms have "length (t_hash t') = length (t_hash t) \<and> count_used (t_hash t') \<le> Suc (count_used (t_hash t))"
    by (auto simp: raw_insert_def split: if_splits option.splits dest: *)
  then show "length (t_hash t') = length (t_hash t)" "count_used (t_hash t') \<le> Suc (count_used (t_hash t))"
    by simp_all
qed

lemma raw_insert_all_count:
  "raw_insert_all H kvs t = Inr (t', b) \<Longrightarrow>
    length (t_hash t') = length (t_hash t) \<and> count_used (t_hash t') \<le> length kvs + count_used (t_hash t)"
proof (induction kvs arbitrary: t b)
  case (Cons kv kvs)
  then obtain t1 b1 b2 where "raw_insert H kv t = Inr (t1, b1)" "raw_insert_all H kvs t1 = Inr (t', b2)"
    by (auto simp: rbind_eq_Inr)
  with Cons.IH [of t1 b2] raw_insert_count [of H kv t t1 b1] show ?case by simp
qed simp

lemma grow_pow2_ge: "0 < n \<Longrightarrow> limit \<le> grow_pow2 n limit"
proof (induction n limit rule: grow_pow2.induct)
  case (1 n limit)
  then show ?case by (cases "n < limit") (auto simp: grow_pow2.simps [of n limit])
qed

lemma rehash_free:
  assumes "rehash H t a hh = Inr (t', b)"
  shows "count_used (t_hash t') < length (t_hash t')"
proof -
  define items where "items = array_items (t_array t) @ hash_items (t_hash t)"
  have "length items < grow_pow2 8 (max hh (length items + 1))"
    using grow_pow2_ge [of 8 "max hh (length items + 1)"] by simp
  moreover obtain t0 where "raw_insert_all H items t0 = Inr (t', b)"
    "t_hash t0 = replicate (grow_pow2 8 (max hh (length items + 1))) empty_node"
    using assms by (auto simp: rehash_def items_def [symmetric] Let_def)
  ultimately show ?thesis using raw_insert_all_count [of H items t0 t' b] by simp
qed

lemma set_hash_need_rehash:
  assumes "set_hash H k v t = NeedRehash t1" "t_hash t \<noteq> []"
  shows "t1 = t" "count_used (t_hash t) = length (t_hash t)"
proof -
  let ?ss = "probe_seq (length (t_hash t)) (hash_key H k (length (t_hash t)))"
  obtain p tomb where sp: "set_probe (t_hash t) k None ?ss = (p, tomb)" by (cases "set_probe (t_hash t) k None ?ss")
  with assms have "p = PFull" and "t1 = t" by (auto simp: set_hash_def split: probe.splits if_splits option.splits)
  then show "t1 = t" by simp
  have "raw_probe (t_hash t) k ?ss = PFull" using sp \<open>p = PFull\<close> fst_set_probe [of "t_hash t" k None ?ss] by simp
  then have "\<not> count_used (t_hash t) < length (t_hash t)" using raw_probe_not_full by blast
  then show "count_used (t_hash t) = length (t_hash t)" by (simp add: count_used_def nat_less_le)
qed

lemma ensure_hash_nonempty [simp]: "t_hash (ensure_hash t) \<noteq> []"
  by (simp add: ensure_hash_def)

lemma invalidate_tm_fields [simp]:
  "t_hash (invalidate_tm H k t) = t_hash t" "t_array (invalidate_tm H k t) = t_array t"
  by (cases k; simp add: clear_tm_cache_def)+

lemma set_pass_need_rehash:
  assumes "set_pass H k v t = NeedRehash t1"
  shows "count_used (t_hash t) = length (t_hash t)"
proof -
  from assms obtain k' where "set_hash H k' v (ensure_hash (invalidate_tm H k t)) = NeedRehash t1"
    by (auto simp: set_pass_def Let_def split: option.splits if_splits)
  from set_hash_need_rehash(2) [OF this] show ?thesis
    by (cases "t_hash t = []") (simp_all add: ensure_hash_def)
qed

function table_set :: "str_heap \<Rightarrow> table \<Rightarrow> tvalue \<Rightarrow> tvalue \<Rightarrow> write_result result" where
  "table_set H t key v =
     (case bad_key key of
        Some msg \<Rightarrow> panic msg
      | None \<Rightarrow>
          (case set_pass H key v t of
             Written r \<Rightarrow> Inr r
           | NeedRehash t1 \<Rightarrow>
               (case rehash H t1 (length (t_array t1)) (2 * length (t_hash t1)) of
                  Inl e \<Rightarrow> Inl e
                | Inr (t2, b) \<Rightarrow>
                    (case table_set H t2 key v of
                       Inl e \<Rightarrow> Inl e
                     | Inr (t3, b') \<Rightarrow> Inr (t3, b @ b')))))"
  by pat_completeness auto
termination
  by (relation "measure (\<lambda>(H, t, k, v). if count_used (t_hash t) < length (t_hash t) then 0 else 1)")
    (auto dest: rehash_free set_pass_need_rehash)

declare table_set.simps [simp del]

definition table_set_int :: "str_heap \<Rightarrow> table \<Rightarrow> u64 \<Rightarrow> tvalue \<Rightarrow> write_result result" where
  "table_set_int H t i v =
     (if array_slot (t_array t) i \<noteq> None \<or> (1 \<le> sint i \<and> sint i \<le> 64) then Inr (set_int_array t i v)
      else table_set H t (VInt i) v)"

text \<open>\<open>table_new\<close>: the object \<open>gc.create<Table>\<close> makes, with its parts sized.\<close>

definition table_new :: "nat \<Rightarrow> nat \<Rightarrow> table" where
  "table_new array_hint hash_hint =
     \<lparr>t_array = replicate array_hint VNil,
      t_hash = replicate (if hash_hint = 0 then 8 else grow_pow2 1 hash_hint) empty_node,
      t_metatable = None, t_version = 1, t_flags = 0, t_weak = 0\<rparr>"

section \<open>Keys are normalised consistently\<close>

lemma i64_max_num:
  "f_num (i64_to_f64 (word_of_int (2 ^ 63 - 1))) = f_lim" "\<not> isnan (i64_to_f64 (word_of_int (2 ^ 63 - 1)))"
  using f_of_int_max sint_of_int_64 [of "2 ^ 63 - 1"] by (simp_all add: i64_to_f64_def)

lemma i64_roundtrip:
  assumes "f_num d = sint n * f_one" "\<not> isnan d"
  shows "f_eq (i64_to_f64 n) d"
proof -
  have m: "f_mag d = \<bar>sint n\<bar> * f_one"
    using assms(1) abs_f_num [of d] f_one_pos(1) by (simp add: abs_mult abs_of_pos del: f_one_pos)
  then have "f_one dvd f_mag d" by simp
  moreover have "f_mag d \<le> f_lim" using sint_scaled_bounds [of n] assms(1) abs_f_num [of d] by linarith
  ultimately obtain m k where mk: "f_mag d = m * 2 ^ k * f_one" "0 \<le> m" "m < 2 ^ 53" "k \<le> 64"
    using f_mag_integral_repr by blast
  then have "\<bar>sint n\<bar> * f_one = (m * 2 ^ k) * f_one" using m by simp
  then have "\<bar>sint n\<bar> = m * 2 ^ k" by (simp only: f_one_cancel)
  from f_of_int_exact [OF this mk(2,3,4)] assms show ?thesis
    by (simp add: f_eq_def i64_to_f64_def)
qed

lemma key_as_integer_float: "key_as_integer (VFloat d) = float_to_integer d"
proof (cases "float_to_integer d")
  case (Some n)
  then have n: "\<not> isnan d" "f_num d = sint n * f_one" by (simp_all add: float_to_integer_exact)
  then have r: "- f_lim \<le> f_num d" "f_num d < f_lim" using sint_scaled_bounds [of n] by simp_all
  have int: "f_eq d (f_floor d)"
    using n f_integral_iff [of d] by (simp add: f_integral_def f_eq_def)
  have "f64_to_i64 d = n"
    using f64_to_i64_integral [of d] n r by (simp add: sint_inject_64)
  then show ?thesis using Some n r int i64_max_num kMin_num i64_roundtrip [OF n(2,1)]
    by (simp add: f_le_def)
next
  case None
  have "key_as_integer (VFloat d) \<noteq> Some n" for n
  proof
    assume a: "key_as_integer (VFloat d) = Some n"
    then have "f_eq (i64_to_f64 n) d" "\<not> isnan d" "f_eq d (f_floor d)"
      by (auto simp: Let_def split: if_splits)
    then have d: "f_num (i64_to_f64 n) = f_num d" "\<not> isnan d" "f_one dvd f_num d" "n = f64_to_i64 d"
      "- f_lim \<le> f_num d" "f_num d \<le> f_lim"
      using a f_integral_iff [of d] i64_max_num kMin_num
      by (auto simp: f_eq_def f_integral_def f_le_def Let_def split: if_splits)
    show False
    proof (cases "f_num d = f_lim")
      case True
      then have "f_trunc d * f_one = 2 ^ 63 * f_one" using f_trunc_num [OF d(3)] by (simp add: f_lim_def)
      then have "f_trunc d = 2 ^ 63" by (simp only: f_one_cancel)
      then have "n = word_of_int (- (2 ^ 63))" using d(4) by (simp add: f64_to_i64_def)
      then have "i64_to_f64 n = kMin" using sint_of_int_64 [of "- (2 ^ 63)"]
        by (simp add: i64_to_f64_def kMin_def)
      then show False using d(1) True kMin_num f_lim_pos by simp
    next
      case False
      then have "sint n * f_one = f_num d" using f64_to_i64_integral [of d] d by simp
      then have "float_to_integer d = Some n" using d(2) by (simp add: float_to_integer_exact)
      with None show False by simp
    qed
  qed
  then show ?thesis using None by (cases "key_as_integer (VFloat d)") auto
qed

end
