(* ===== verification/Lt_Intern.thy ===== *)
theory Lt_Intern
  imports Lt_Table "HOL-Library.Multiset"
begin

text \<open>
  The string table: \<open>src/runtime/string.cpp\<close>. Every string object is reached through one hash
  table with chained buckets, and equality of string values is equality of pointers
  (\<open>values_equal\<close>, \<open>hash_key\<close>): that is sound only because \<open>intern\<close> never makes two objects with
  the same bytes. The chains \<open>hnext\<close> are lists of pointers; the memory \<open>malloc\<close> returns is the
  argument \<open>new\<close>, whose only assumed property is that no live entry has that address.
\<close>

record string_table =
  st_hash :: "ptr list list"
  st_nuse :: nat

definition hash_bytes :: "string \<Rightarrow> u32" where
  "hash_bytes s = foldl (\<lambda>h c. (h XOR of_nat (code c)) * 16777619) 2166136261 s"

text \<open>\<open>h & (n - 1)\<close> in \<open>size_t\<close>\<close>

definition bucket :: "nat \<Rightarrow> u32 \<Rightarrow> nat" where
  "bucket n h = unat ((ucast h :: u64) AND of_nat (n - 1))"

definition push_chain :: "str_heap \<Rightarrow> ptr list list \<Rightarrow> ptr \<Rightarrow> ptr list list" where
  "push_chain H nh p = (let i = bucket (length nh) (ls_hash (H p)) in nh[i := p # nh ! i])"

definition st_resize :: "str_heap \<Rightarrow> nat \<Rightarrow> string_table \<Rightarrow> string_table" where
  "st_resize H new_size st =
     (let n = grow_pow2 1 (if new_size < 32 then 32 else new_size)
      in st\<lparr>st_hash := foldl (push_chain H) (replicate n []) (concat (st_hash st))\<rparr>)"

definition st_remove :: "str_heap \<Rightarrow> ptr \<Rightarrow> string_table \<Rightarrow> string_table" where
  "st_remove H s st =
     (if st_hash st = [] then st
      else let i = bucket (length (st_hash st)) (ls_hash (H s)) in
        if s \<in> set (st_hash st ! i)
        then st\<lparr>st_hash := (st_hash st)[i := remove1 s (st_hash st ! i)],
                st_nuse := st_nuse st - 1\<rparr>
        else st)"

definition st_find :: "str_heap \<Rightarrow> u32 \<Rightarrow> string \<Rightarrow> ptr list \<Rightarrow> ptr option" where
  "st_find H h s chain =
     find (\<lambda>p. ls_hash (H p) = h \<and> length (ls_data (H p)) = length s \<and> (s = [] \<or> ls_data (H p) = s)) chain"

definition st_intern :: "ptr \<Rightarrow> string \<Rightarrow> str_heap \<times> string_table \<Rightarrow> ptr \<times> str_heap \<times> string_table" where
  "st_intern new s HS =
     (let (H, st0) = HS;
          h = hash_bytes s;
          st1 = (if st_hash st0 = [] then st_resize H 128 st0 else st0)
      in case st_find H h s (st_hash st1 ! bucket (length (st_hash st1)) h) of
           Some p \<Rightarrow> (p, H, st1)
         | None \<Rightarrow>
             (let st2 = (if length (st_hash st1) \<le> st_nuse st1
                         then st_resize H (2 * length (st_hash st1)) st1 else st1);
                  i = bucket (length (st_hash st2)) h
              in (new, H(new := \<lparr>ls_hash = h, ls_data = s\<rparr>),
                  st2\<lparr>st_hash := (st_hash st2)[i := new # st_hash st2 ! i], st_nuse := st_nuse st2 + 1\<rparr>)))"

section \<open>The invariant\<close>

definition st_entries :: "string_table \<Rightarrow> ptr set" where
  "st_entries st = set (concat (st_hash st))"

definition chains_ok :: "str_heap \<Rightarrow> ptr list list \<Rightarrow> bool" where
  "chains_ok H nh \<longleftrightarrow> (\<forall>i < length nh. \<forall>p \<in> set (nh ! i). bucket (length nh) (ls_hash (H p)) = i)"

definition strtab_inv :: "str_heap \<times> string_table \<Rightarrow> bool" where
  "strtab_inv HS \<longleftrightarrow>
     (let (H, st) = HS in
       chains_ok H (st_hash st) \<and> distinct (concat (st_hash st)) \<and>
       st_nuse st = length (concat (st_hash st)) \<and>
       (\<forall>p \<in> st_entries st. ls_hash (H p) = hash_bytes (ls_data (H p))) \<and>
       inj_on (\<lambda>p. ls_data (H p)) (st_entries st))"

lemma bucket_less: "0 < n \<Longrightarrow> bucket n h < n"
proof -
  assume n: "0 < n"
  have "(ucast h :: u64) AND of_nat (n - 1) \<le> of_nat (n - 1)" by (rule word_and_le1)
  then have "bucket n h \<le> unat (of_nat (n - 1) :: u64)" by (simp add: bucket_def word_le_nat_alt)
  also have "\<dots> \<le> n - 1" by (simp add: unat_of_nat)
  finally show ?thesis using n by simp
qed

lemma mset_concat_push:
  "i < length nh \<Longrightarrow> mset (concat (nh[i := p # nh ! i])) = add_mset p (mset (concat nh))"
proof (induction nh arbitrary: i)
  case (Cons c nh)
  then show ?case by (cases i) auto
qed simp

lemma length_push_chain [simp]: "length (push_chain H nh p) = length nh"
  by (simp add: push_chain_def Let_def)

lemma push_chain_nonempty [simp]: "push_chain H nh p = [] \<longleftrightarrow> nh = []"
  by (simp add: push_chain_def Let_def)

lemma push_chain_ok: "nh \<noteq> [] \<Longrightarrow> chains_ok H nh \<Longrightarrow> chains_ok H (push_chain H nh p)"
  using bucket_less [of "length nh" "ls_hash (H p)"]
  by (auto simp: chains_ok_def push_chain_def Let_def nth_list_update split: if_splits)

lemma mset_push_chain: "nh \<noteq> [] \<Longrightarrow> mset (concat (push_chain H nh p)) = add_mset p (mset (concat nh))"
  by (simp add: push_chain_def Let_def mset_concat_push bucket_less del: mset_concat)

lemma foldl_push_chain:
  "nh \<noteq> [] \<Longrightarrow> chains_ok H nh \<Longrightarrow>
    chains_ok H (foldl (push_chain H) nh ps) \<and> length (foldl (push_chain H) nh ps) = length nh \<and>
    mset (concat (foldl (push_chain H) nh ps)) = mset ps + mset (concat nh)"
  by (induction ps arbitrary: nh) (simp_all add: push_chain_ok mset_push_chain del: mset_concat)

lemma st_resize_correct:
  assumes "chains_ok H (st_hash st)"
  shows "chains_ok H (st_hash (st_resize H n st))" "32 \<le> length (st_hash (st_resize H n st))"
    "mset (concat (st_hash (st_resize H n st))) = mset (concat (st_hash st))"
    "st_nuse (st_resize H n st) = st_nuse st" "n \<le> length (st_hash (st_resize H n st))"
proof -
  define k where "k = grow_pow2 1 (if n < 32 then 32 else n)"
  have k: "32 \<le> k" "n \<le> k" using grow_pow2_ge [of 1 "if n < 32 then 32 else n"] by (auto simp: k_def split: if_splits)
  have e: "st_hash (st_resize H n st) = foldl (push_chain H) (replicate k []) (concat (st_hash st))"
    "st_nuse (st_resize H n st) = st_nuse st"
    by (simp_all add: st_resize_def k_def Let_def)
  have "chains_ok H (replicate k [])" by (simp add: chains_ok_def)
  moreover have "replicate k ([] :: ptr list) \<noteq> []" using k by auto
  moreover have "concat (replicate k ([] :: ptr list)) = []" by simp
  ultimately have "chains_ok H (st_hash (st_resize H n st)) \<and> length (st_hash (st_resize H n st)) = k \<and>
    mset (concat (st_hash (st_resize H n st))) = mset (concat (st_hash st))"
    using foldl_push_chain [of "replicate k []" H "concat (st_hash st)"] unfolding e
    by (metis length_replicate add.right_neutral mset.simps(1))
  then show "chains_ok H (st_hash (st_resize H n st))" "32 \<le> length (st_hash (st_resize H n st))"
    "mset (concat (st_hash (st_resize H n st))) = mset (concat (st_hash st))"
    "st_nuse (st_resize H n st) = st_nuse st" "n \<le> length (st_hash (st_resize H n st))"
    using k e(2) by blast+
qed

lemma st_resize_inv:
  assumes "strtab_inv (H, st)"
  shows "strtab_inv (H, st_resize H n st)" "st_entries (st_resize H n st) = st_entries st"
proof -
  have c: "chains_ok H (st_hash st)" using assms by (simp add: strtab_inv_def)
  note r = st_resize_correct [OF c, of n]
  from r(3) have "set (concat (st_hash (st_resize H n st))) = set (concat (st_hash st))"
    "distinct (concat (st_hash (st_resize H n st))) = distinct (concat (st_hash st))"
    "length (concat (st_hash (st_resize H n st))) = length (concat (st_hash st))"
    by (metis mset_eq_setD, metis mset_eq_imp_distinct_iff, metis mset_eq_length)
  then show "st_entries (st_resize H n st) = st_entries st" "strtab_inv (H, st_resize H n st)"
    using assms r(1,4) unfolding strtab_inv_def st_entries_def by (auto simp only: Let_def prod.case)
qed

lemma st_find_Some:
  "st_find H h s c = Some p \<Longrightarrow> p \<in> set c \<and> ls_data (H p) = s"
  by (auto simp: st_find_def find_Some_iff)

lemma st_find_None:
  "st_find H h s c = None \<Longrightarrow> p \<in> set c \<Longrightarrow> ls_hash (H p) = h \<Longrightarrow> ls_data (H p) \<noteq> s"
  by (auto simp: st_find_def find_None_iff)

lemma in_bucket:
  assumes "chains_ok H nh" "p \<in> set (concat nh)"
  shows "p \<in> set (nh ! bucket (length nh) (ls_hash (H p)))"
  using assms by (auto simp: chains_ok_def in_set_conv_nth [of _ nh])

text \<open>A string that the bucket of its hash does not have is nowhere in the table.\<close>

lemma st_find_absent:
  assumes "strtab_inv (H, st)" "st_find H (hash_bytes s) s (st_hash st ! bucket (length (st_hash st)) (hash_bytes s)) = None"
    and "p \<in> st_entries st"
  shows "ls_data (H p) \<noteq> s"
proof
  assume d: "ls_data (H p) = s"
  with assms(1,3) have h: "ls_hash (H p) = hash_bytes s" by (auto simp: strtab_inv_def)
  have "p \<in> set (st_hash st ! bucket (length (st_hash st)) (hash_bytes s))"
    using in_bucket [of H "st_hash st" p] assms(1,3) h by (simp add: strtab_inv_def st_entries_def)
  with st_find_None [OF assms(2) this h] d show False by simp
qed

lemma strtab_insert:
  assumes inv: "strtab_inv (H, st)" and ne: "st_hash st \<noteq> []" and new: "new \<notin> st_entries st"
    and ab: "\<And>p. p \<in> st_entries st \<Longrightarrow> ls_data (H p) \<noteq> s"
    and i: "i = bucket (length (st_hash st)) (hash_bytes s)"
  shows "strtab_inv (H(new := \<lparr>ls_hash = hash_bytes s, ls_data = s\<rparr>),
      st\<lparr>st_hash := (st_hash st)[i := new # st_hash st ! i], st_nuse := st_nuse st + 1\<rparr>)"
    and "st_entries (st\<lparr>st_hash := (st_hash st)[i := new # st_hash st ! i], st_nuse := n\<rparr>) = insert new (st_entries st)"
proof -
  have il: "i < length (st_hash st)" using ne i bucket_less by simp
  note ms = mset_concat_push [OF il, of new]
  let ?c = "concat ((st_hash st)[i := new # st_hash st ! i])"
  have st: "set ?c = insert new (st_entries st)"
    using arg_cong [OF ms, of set_mset] by (simp add: st_entries_def del: mset_concat)
  have ds: "distinct ?c" "length ?c = Suc (length (concat (st_hash st)))"
  proof -
    have "mset ?c = mset (new # concat (st_hash st))" using ms by simp
    then show "distinct ?c" "length ?c = Suc (length (concat (st_hash st)))"
      using mset_eq_imp_distinct_iff [of ?c "new # concat (st_hash st)"] mset_eq_length [of ?c "new # concat (st_hash st)"]
        inv new by (auto simp: strtab_inv_def st_entries_def)
  qed
  show "st_entries (st\<lparr>st_hash := (st_hash st)[i := new # st_hash st ! i], st_nuse := n\<rparr>) = insert new (st_entries st)"
    using st by (simp add: st_entries_def)
  then have en: "st_entries (st\<lparr>st_hash := (st_hash st)[i := new # st_hash st ! i], st_nuse := st_nuse st + 1\<rparr>) = insert new (st_entries st)"
    by (simp add: st_entries_def)
  have cin: "q \<noteq> new" if "q \<in> set (st_hash st ! j)" "j < length (st_hash st)" for q j
    using new that by (auto simp: st_entries_def)
  have ch: "chains_ok (H(new := \<lparr>ls_hash = hash_bytes s, ls_data = s\<rparr>)) ((st_hash st)[i := new # st_hash st ! i])"
    using inv il cin by (auto simp: strtab_inv_def chains_ok_def nth_list_update i split: if_splits)
  show "strtab_inv (H(new := \<lparr>ls_hash = hash_bytes s, ls_data = s\<rparr>),
      st\<lparr>st_hash := (st_hash st)[i := new # st_hash st ! i], st_nuse := st_nuse st + 1\<rparr>)"
    unfolding strtab_inv_def Let_def prod.case en
  proof (intro conjI)
    show "inj_on (\<lambda>p. ls_data ((H(new := \<lparr>ls_hash = hash_bytes s, ls_data = s\<rparr>)) p)) (insert new (st_entries st))"
      using inv new ab by (auto simp: strtab_inv_def inj_on_def)
    show "\<forall>p\<in>insert new (st_entries st). ls_hash ((H(new := \<lparr>ls_hash = hash_bytes s, ls_data = s\<rparr>)) p) =
        hash_bytes (ls_data ((H(new := \<lparr>ls_hash = hash_bytes s, ls_data = s\<rparr>)) p))"
      using inv by (auto simp: strtab_inv_def)
  qed (use ch ds inv in \<open>simp_all add: strtab_inv_def del: length_concat\<close>)
qed

section \<open>The interface of an interner\<close>

text \<open>What \<open>values_equal\<close> relies on when it compares string pointers.\<close>

locale interner =
  fixes inv :: "'st \<Rightarrow> bool"
    and entries :: "'st \<Rightarrow> 'p set"
    and content :: "'st \<Rightarrow> 'p \<Rightarrow> 's"
    and intern :: "'p \<Rightarrow> 's \<Rightarrow> 'st \<Rightarrow> 'p \<times> 'st"
  assumes content_inj: "inv st \<Longrightarrow> p \<in> entries st \<Longrightarrow> q \<in> entries st \<Longrightarrow> content st p = content st q \<Longrightarrow> p = q"
    and intern_ok: "inv st \<Longrightarrow> new \<notin> entries st \<Longrightarrow> intern new s st = (p, st') \<Longrightarrow>
      inv st' \<and> p \<in> entries st' \<and> content st' p = s \<and> entries st \<subseteq> entries st' \<and>
      (\<forall>q \<in> entries st. content st' q = content st q)"
begin

text \<open>Any number of later calls: each takes memory that is not yet an entry.\<close>

fun interns :: "('p \<times> 's) list \<Rightarrow> 'st \<Rightarrow> 'st" where
  "interns [] st = st"
| "interns (ns # nss) st = interns nss (snd (intern (fst ns) (snd ns) st))"

fun fresh_run :: "('p \<times> 's) list \<Rightarrow> 'st \<Rightarrow> bool" where
  "fresh_run [] st \<longleftrightarrow> True"
| "fresh_run (ns # nss) st \<longleftrightarrow> fst ns \<notin> entries st \<and> fresh_run nss (snd (intern (fst ns) (snd ns) st))"

lemma interns_ok:
  "inv st \<Longrightarrow> fresh_run nss st \<Longrightarrow>
    inv (interns nss st) \<and> entries st \<subseteq> entries (interns nss st) \<and>
    (\<forall>q \<in> entries st. content (interns nss st) q = content st q)"
proof (induction nss arbitrary: st)
  case (Cons ns nss)
  obtain p st' where i: "intern (fst ns) (snd ns) st = (p, st')" by (cases "intern (fst ns) (snd ns) st")
  with Cons.prems intern_ok [of st "fst ns" "snd ns" p st'] Cons.IH [of st'] show ?case by auto
qed simp

lemma intern_ptr_eq:
  assumes "inv st" "n1 \<notin> entries st" "intern n1 s1 st = (p1, st1)" "fresh_run nss st1"
    and "n2 \<notin> entries (interns nss st1)" "intern n2 s2 (interns nss st1) = (p2, st2)"
  shows "p1 = p2 \<longleftrightarrow> s1 = s2"
proof -
  note a = intern_ok [OF assms(1-3)]
  note b = interns_ok [OF conjunct1 [OF a] assms(4)]
  note c = intern_ok [OF conjunct1 [OF b] assms(5,6)]
  have "p1 \<in> entries st2" "content st2 p1 = s1" using a b c by auto
  then show ?thesis using c content_inj [of st2 p1 p2] by auto
qed

end

text \<open>The table \<open>intern\<close> searches, and the one it inserts into.\<close>

definition st_ready :: "str_heap \<Rightarrow> string_table \<Rightarrow> string_table" where
  "st_ready H st = (if st_hash st = [] then st_resize H 128 st else st)"

definition st_grown :: "str_heap \<Rightarrow> string_table \<Rightarrow> string_table" where
  "st_grown H st = (if length (st_hash st) \<le> st_nuse st then st_resize H (2 * length (st_hash st)) st else st)"

lemma st_ready_ok:
  assumes "strtab_inv (H, st)"
  shows "strtab_inv (H, st_ready H st)" "st_entries (st_ready H st) = st_entries st" "st_hash (st_ready H st) \<noteq> []"
proof -
  have "chains_ok H (st_hash st)" using assms by (simp add: strtab_inv_def)
  then show "strtab_inv (H, st_ready H st)" "st_entries (st_ready H st) = st_entries st" "st_hash (st_ready H st) \<noteq> []"
    using assms st_resize_inv [OF assms, of 128] st_resize_correct(2) [of H st 128] by (auto simp: st_ready_def)
qed

lemma st_grown_ok:
  assumes "strtab_inv (H, st)" "st_hash st \<noteq> []"
  shows "strtab_inv (H, st_grown H st)" "st_entries (st_grown H st) = st_entries st" "st_hash (st_grown H st) \<noteq> []"
proof -
  have "chains_ok H (st_hash st)" using assms by (simp add: strtab_inv_def)
  then show "strtab_inv (H, st_grown H st)" "st_entries (st_grown H st) = st_entries st" "st_hash (st_grown H st) \<noteq> []"
    using assms st_resize_inv [OF assms(1), of "2 * length (st_hash st)"]
      st_resize_correct(2) [of H st "2 * length (st_hash st)"] by (auto simp: st_grown_def)
qed

lemma st_intern_cases:
  assumes "st_intern new s (H, st) = (p, H', st')"
  obtains "st_find H (hash_bytes s) s (st_hash (st_ready H st) ! bucket (length (st_hash (st_ready H st))) (hash_bytes s)) = Some p"
      "H' = H" "st' = st_ready H st"
  | st2 i where "st_find H (hash_bytes s) s (st_hash (st_ready H st) ! bucket (length (st_hash (st_ready H st))) (hash_bytes s)) = None"
      "st2 = st_grown H (st_ready H st)" "i = bucket (length (st_hash st2)) (hash_bytes s)" "p = new"
      "H' = H(new := \<lparr>ls_hash = hash_bytes s, ls_data = s\<rparr>)"
      "st' = st2\<lparr>st_hash := (st_hash st2)[i := new # st_hash st2 ! i], st_nuse := st_nuse st2 + 1\<rparr>"
  using assms
  unfolding st_intern_def Let_def prod.case st_ready_def [symmetric] st_grown_def [symmetric]
  by (auto split: option.splits)

lemma st_intern_ok:
  assumes inv: "strtab_inv (H, st)" and new: "new \<notin> st_entries st" and r: "st_intern new s (H, st) = (p, H', st')"
  shows "strtab_inv (H', st') \<and> p \<in> st_entries st' \<and> ls_data (H' p) = s \<and> st_entries st \<subseteq> st_entries st' \<and>
    (\<forall>q \<in> st_entries st. H' q = H q) \<and> st_entries st' \<subseteq> insert new (st_entries st)"
proof -
  note rd = st_ready_ok [OF inv] and gr = st_grown_ok [OF st_ready_ok(1,3) [OF inv]]
  from r show ?thesis
  proof (cases rule: st_intern_cases)
    case 1
    have "p \<in> st_entries (st_ready H st)" "ls_data (H p) = s"
      using st_find_Some [OF 1(1)] bucket_less [of "length (st_hash (st_ready H st))"] rd(3)
      by (auto simp: st_entries_def)
    then show ?thesis using 1 rd by auto
  next
    case (2 st2 i)
    have ab: "ls_data (H q) \<noteq> s" if "q \<in> st_entries st2" for q
      using st_find_absent [OF rd(1) 2(1)] that gr(2) by (simp add: 2(2))
    note ins = strtab_insert [OF gr(1,3) [folded 2(2)] _ ab 2(3), of new]
    have "new \<notin> st_entries st2" "st_entries st2 = st_entries st" using new gr(2) rd(2) by (simp_all add: 2(2))
    with ins show ?thesis by (auto simp: 2(4-6))
  qed
qed

interpretation strs: interner strtab_inv "\<lambda>HS. st_entries (snd HS)" "\<lambda>HS p. ls_data (fst HS p)" st_intern
proof
  fix st :: "str_heap \<times> string_table" and p q
  assume "strtab_inv st" "p \<in> st_entries (snd st)" "q \<in> st_entries (snd st)"
    "ls_data (fst st p) = ls_data (fst st q)"
  then show "p = q" by (cases st) (auto simp: strtab_inv_def inj_on_def)
next
  fix st st' :: "str_heap \<times> string_table" and new s p
  assume "strtab_inv st" "new \<notin> st_entries (snd st)" "st_intern new s st = (p, st')"
  then show "strtab_inv st' \<and> p \<in> st_entries (snd st') \<and> ls_data (fst st' p) = s \<and>
      st_entries (snd st) \<subseteq> st_entries (snd st') \<and>
      (\<forall>q\<in>st_entries (snd st). ls_data (fst st' q) = ls_data (fst st q))"
    using st_intern_ok [of "fst st" "snd st" new s p "fst st'" "snd st'"] by auto
qed

text \<open>C7: interning is sound for pointer comparison: two calls of \<open>intern\<close>, any number of other
  calls apart and across every resize of the table, return the same object exactly when the two
  strings have the same bytes.\<close>

theorem intern_same_pointer_iff:
  assumes "strtab_inv (H, st)" "n1 \<notin> st_entries st" "st_intern n1 s1 (H, st) = (p1, HS1)"
    and "strs.fresh_run nss HS1" "n2 \<notin> st_entries (snd (strs.interns nss HS1))"
    and "st_intern n2 s2 (strs.interns nss HS1) = (p2, HS2)"
  shows "p1 = p2 \<longleftrightarrow> s1 = s2"
  using strs.intern_ptr_eq [of "(H, st)" n1 s1 p1 HS1 nss n2 s2 p2 HS2] assms by simp

text \<open>The empty table of a new state, and three calls on it.\<close>

definition no_strings :: string_table where
  "no_strings = \<lparr>st_hash = [], st_nuse = 0\<rparr>"

lemma no_strings_inv: "strtab_inv (H, no_strings)" "st_entries no_strings = {}"
  by (simp_all add: strtab_inv_def no_strings_def chains_ok_def st_entries_def)

text \<open>Two calls on the same bytes and one in between.\<close>

theorem intern_same_pointer_iff_witness:
  "let (p1, HS1) = st_intern 1 ''ab'' (H0, no_strings); HS2 = strs.interns [(2, ''b'')] HS1;
       (p2, HS3) = st_intern 3 ''ab'' HS2
   in p1 = p2"
proof -
  obtain p1 H1 st1 where a: "st_intern 1 ''ab'' (H0, no_strings) = (p1, H1, st1)" by (metis prod_cases3)
  obtain q H2 st2 where b: "st_intern 2 ''b'' (H1, st1) = (q, H2, st2)" by (metis prod_cases3)
  obtain p2 HS3 where c: "st_intern 3 ''ab'' (H2, st2) = (p2, HS3)" by (metis surj_pair)
  note ok1 = st_intern_ok [OF no_strings_inv(1) _ a]
  then have s1: "strtab_inv (H1, st1)" "st_entries st1 \<subseteq> {1}" by (simp_all add: no_strings_inv)
  then have n2: "2 \<notin> st_entries st1" by auto
  have "st_entries st2 \<subseteq> {2, 1}" using st_intern_ok [OF s1(1) n2 b] s1(2) by blast
  then have n3: "3 \<notin> st_entries st2" by auto
  have "p1 = p2 \<longleftrightarrow> ''ab'' = ''ab''"
    by (rule intern_same_pointer_iff [OF no_strings_inv(1) _ a, of "[(2, ''b'')]" 3 "''ab''" p2 HS3])
      (use b c n2 n3 in \<open>simp_all add: no_strings_inv\<close>)
  then show ?thesis using a b c by simp
qed

section \<open>Removal\<close>

lemma mset_concat_remove:
  "i < length nh \<Longrightarrow> p \<in> set (nh ! i) \<Longrightarrow>
    mset (concat nh) = add_mset p (mset (concat (nh[i := remove1 p (nh ! i)])))"
proof (induction nh arbitrary: i)
  case (Cons c nh)
  then show ?case by (cases i) (auto simp: multiset_eq_iff in_multiset_in_set)
qed simp

text \<open>When the sweep removes a dead string, the table stays well formed, loses exactly that
  entry, and its count of entries stays exact, so that later interning is still sound.\<close>

theorem st_remove_exact:
  assumes inv: "strtab_inv (H, st)"
  shows "strtab_inv (H, st_remove H s st) \<and> st_entries (st_remove H s st) = st_entries st - {s}"
proof (cases "s \<in> st_entries st")
  case True
  define i where "i = bucket (length (st_hash st)) (ls_hash (H s))"
  let ?c = "(st_hash st)[i := remove1 s (st_hash st ! i)]"
  have ch: "chains_ok H (st_hash st)" and d: "distinct (concat (st_hash st))"
    and n: "st_nuse st = length (concat (st_hash st))" using inv by (auto simp: strtab_inv_def)
  have ne: "st_hash st \<noteq> []" and mem: "s \<in> set (st_hash st ! i)"
    using True in_bucket [OF ch] by (auto simp: st_entries_def i_def)
  have il: "i < length (st_hash st)" using ne bucket_less by (simp add: i_def)
  have ms: "mset (concat (st_hash st)) = mset (s # concat ?c)" using mset_concat_remove [OF il mem] by simp
  have d': "distinct (s # concat ?c)" using mset_eq_imp_distinct_iff [OF ms] d by blast
  have st': "st_remove H s st = st\<lparr>st_hash := ?c, st_nuse := st_nuse st - 1\<rparr>"
    using ne mem by (simp add: st_remove_def i_def Let_def)
  have e: "st_entries (st_remove H s st) = st_entries st - {s}"
    using mset_eq_setD [OF ms] d' by (auto simp: st_entries_def st' simp del: set_concat)
  have sub: "set (?c ! j) \<subseteq> set (st_hash st ! j)" for j
    using set_remove1_subset [of s "st_hash st ! i"] il by (cases "j = i") auto
  have "chains_ok H ?c" using ch sub unfolding chains_ok_def length_list_update by blast
  moreover have "st_nuse st - 1 = length (concat ?c)" using mset_eq_length [OF ms] n by simp
  moreover have "inj_on (\<lambda>p. ls_data (H p)) (st_entries st - {s})"
    using inv by (auto simp: strtab_inv_def intro: inj_on_subset)
  ultimately have "strtab_inv (H, st_remove H s st)"
    using d' inv e unfolding strtab_inv_def by (simp add: st' del: length_concat set_concat)
  with e show ?thesis by blast
next
  case False
  then have "s \<notin> set (st_hash st ! bucket (length (st_hash st)) (ls_hash (H s))) \<or> st_hash st = []"
    using bucket_less [of "length (st_hash st)"] by (force simp: st_entries_def)
  then have "st_remove H s st = st" by (auto simp: st_remove_def Let_def)
  with False inv show ?thesis by simp
qed

theorem st_remove_exact_witness:
  "let (p, H, st) = st_intern 1 ''ab'' (H0, no_strings) in
    p \<in> st_entries st \<and> p \<notin> st_entries (st_remove H p st) \<and> strtab_inv (H, st_remove H p st)"
proof -
  obtain p H st where a: "st_intern 1 ''ab'' (H0, no_strings) = (p, H, st)" by (metis prod_cases3)
  have "strtab_inv (H, st)" "p \<in> st_entries st"
    using st_intern_ok [OF no_strings_inv(1) _ a] by (simp_all add: no_strings_inv)
  with st_remove_exact [of H st p] a show ?thesis by simp
qed

end
