(* ===== verification/Lt_Jit.thy ===== *)
theory Lt_Jit
  imports Lt_Value
begin

text \<open>
  The tiering machinery of \<open>src/jit\<close>: inline-cache slots (\<open>ic.cpp\<close>), the hotness counters
  (\<open>hotness.cpp\<close>, with \<open>LUATIER_ENABLE_HOTNESS\<close>), the registry of baseline code (\<open>baseline.cpp\<close>) and
  the one of optimised modules (\<open>opt.cpp\<close>). The logging to \<open>cerr\<close> is left out.
\<close>

section \<open>Inline caches\<close>

datatype ic_state = Uninitialized | Monomorphic | Polymorphic | Megamorphic

record ic_slot =
  ic_st :: ic_state
  ic_seen :: value_tag
  ic_shape :: u32
  ic_hits :: u32
  ic_misses :: u32

definition ic_new :: ic_slot where
  "ic_new =
     \<lparr>ic_st = Uninitialized, ic_seen = TagNil, ic_shape = 0, ic_hits = 0, ic_misses = 0\<rparr>"

definition ic_invalidate :: "ic_slot \<Rightarrow> ic_slot" where
  "ic_invalidate s = ic_new"

definition ic_observe_type :: "ic_slot \<Rightarrow> value_tag \<Rightarrow> ic_slot" where
  "ic_observe_type s0 tag =
     (let s = s0\<lparr>ic_hits := ic_hits s0 + 1\<rparr> in
      case ic_st s of
        Uninitialized \<Rightarrow> s\<lparr>ic_seen := tag, ic_st := Monomorphic\<rparr>
      | Monomorphic \<Rightarrow>
          (if ic_seen s \<noteq> tag then s\<lparr>ic_st := Polymorphic, ic_misses := ic_misses s + 1\<rparr> else s)
      | Polymorphic \<Rightarrow>
          (let s' = s\<lparr>ic_misses := ic_misses s + 1\<rparr>
           in if 32 < ic_misses s' then s'\<lparr>ic_st := Megamorphic\<rparr> else s')
      | Megamorphic \<Rightarrow> s)"

section \<open>Tiers and the baseline registry\<close>

datatype tier = Interpreter | Baseline | Optimizing

fun tier_num :: "tier \<Rightarrow> nat" where
  "tier_num Interpreter = 0"
| "tier_num Baseline = 1"
| "tier_num Optimizing = 2"

instantiation tier :: linorder
begin

definition less_eq_tier :: "tier \<Rightarrow> tier \<Rightarrow> bool" where
  "a \<le> b \<longleftrightarrow> tier_num a \<le> tier_num b"

definition less_tier :: "tier \<Rightarrow> tier \<Rightarrow> bool" where
  "a < b \<longleftrightarrow> tier_num a < tier_num b"

instance
proof
  fix x y :: tier
  show "x \<le> y \<Longrightarrow> y \<le> x \<Longrightarrow> x = y" by (cases x; cases y) (simp_all add: less_eq_tier_def)
qed (auto simp: less_eq_tier_def less_tier_def)

end

record jit_code =
  jc_tier :: tier
  jc_entry :: ptr
  jc_blacklisted :: bool

definition new_code :: jit_code where
  "new_code = \<lparr>jc_tier = Interpreter, jc_entry = 0, jc_blacklisted = False\<rparr>"

type_synonym codes = "ptr \<rightharpoonup> jit_code"

definition code_at :: "codes \<Rightarrow> ptr \<Rightarrow> jit_code" where
  "code_at m p = (case m p of Some jc \<Rightarrow> jc | None \<Rightarrow> new_code)"

definition baseline_request_compile :: "ptr \<Rightarrow> codes \<Rightarrow> codes" where
  "baseline_request_compile p m =
     (if p = 0 then m
      else let jc = code_at m p in
        m(p \<mapsto> if jc_blacklisted jc \<or> Baseline \<le> jc_tier jc then jc
               else jc\<lparr>jc_tier := Baseline, jc_entry := 0\<rparr>))"

definition baseline_lookup :: "ptr \<Rightarrow> codes \<Rightarrow> jit_code option" where
  "baseline_lookup p m = m p"

text \<open>\<open>baseline_try_enter\<close>: the result, and the program counters it deoptimises to.\<close>

definition baseline_try_enter :: "ptr \<Rightarrow> codes \<Rightarrow> bool \<times> int list" where
  "baseline_try_enter p m =
     (case baseline_lookup p m of
        None \<Rightarrow> (False, [])
      | Some jc \<Rightarrow> if jc_tier jc < Baseline \<or> jc_blacklisted jc then (False, []) else (False, [0]))"

record mir_module =
  mir_proto :: ptr
  mir_valid :: bool

definition opt_request_compile :: "ptr \<Rightarrow> (ptr \<rightharpoonup> mir_module) \<Rightarrow> ptr \<rightharpoonup> mir_module" where
  "opt_request_compile p m = (if p = 0 then m else m(p \<mapsto> \<lparr>mir_proto = p, mir_valid = False\<rparr>))"

definition opt_lookup :: "ptr \<Rightarrow> (ptr \<rightharpoonup> mir_module) \<Rightarrow> mir_module option" where
  "opt_lookup p m = m p"

section \<open>Hotness\<close>

record jit_state =
  js_entries :: "ptr \<Rightarrow> u64"
  js_loops :: "ptr \<Rightarrow> u64"
  js_codes :: codes

definition kBaselineEntryThreshold :: u64 where "kBaselineEntryThreshold = 100"
definition kBaselineLoopThreshold :: u64 where "kBaselineLoopThreshold = 50"

definition hotness_on_entry :: "ptr \<Rightarrow> jit_state \<Rightarrow> jit_state" where
  "hotness_on_entry p s =
     (if p = 0 then s
      else let n = js_entries s p + 1; s' = s\<lparr>js_entries := (js_entries s)(p := n)\<rparr>
        in if n = kBaselineEntryThreshold
           then s'\<lparr>js_codes := baseline_request_compile p (js_codes s')\<rparr> else s')"

definition hotness_on_loop :: "ptr \<Rightarrow> jit_state \<Rightarrow> jit_state" where
  "hotness_on_loop p s =
     (if p = 0 then s
      else let n = js_loops s p + 1; s' = s\<lparr>js_loops := (js_loops s)(p := n)\<rparr>
        in if n = kBaselineLoopThreshold
           then s'\<lparr>js_codes := baseline_request_compile p (js_codes s')\<rparr> else s')"

definition hotness_entry_count :: "ptr \<Rightarrow> jit_state \<Rightarrow> u64" where
  "hotness_entry_count p s = js_entries s p"

definition hotness_loop_count :: "ptr \<Rightarrow> jit_state \<Rightarrow> u64" where
  "hotness_loop_count p s = js_loops s p"

section \<open>What an inline cache records\<close>

definition ic_run :: "value_tag list \<Rightarrow> ic_slot" where
  "ic_run ts = foldl ic_observe_type ic_new ts"

definition off_type :: "value_tag list \<Rightarrow> value_tag list" where
  "off_type ts = dropWhile (\<lambda>t. t = hd ts) ts"

lemma ic_run_snoc: "ic_run (ts @ [t]) = ic_observe_type (ic_run ts) t"
  by (simp add: ic_run_def)

lemma off_type_snoc:
  "ts \<noteq> [] \<Longrightarrow> off_type (ts @ [t]) = (if off_type ts = [] \<and> t = hd ts then [] else off_type ts @ [t])"
  by (auto simp: off_type_def dropWhile_append dropWhile_eq_Nil_conv)

lemma ic_run_inv:
  "ic_hits (ic_run ts) = of_nat (length ts) \<and>
   (if ts = [] then ic_run ts = ic_new
    else ic_seen (ic_run ts) = hd ts \<and>
      ic_misses (ic_run ts) = of_nat (min 33 (length (off_type ts))) \<and>
      ic_st (ic_run ts) =
        (if off_type ts = [] then Monomorphic
         else if length (off_type ts) \<le> 32 then Polymorphic else Megamorphic))"
proof (induction ts rule: rev_induct)
  case Nil
  show ?case by (simp add: ic_run_def ic_new_def)
next
  case (snoc t ts)
  show ?case
  proof (cases "ts = []")
    case True
    then show ?thesis by (simp add: ic_run_def ic_new_def ic_observe_type_def off_type_def)
  next
    case False
    let ?n = "length (off_type ts)"
    have m: "(32 :: u32) < of_nat ?n + 1 \<longleftrightarrow> 32 \<le> ?n" if "?n \<le> 32"
    proof -
      have "unat (of_nat ?n + 1 :: u32) = ?n + 1" using that by (simp add: unat_word_ariths unat_of_nat)
      then show ?thesis by (auto simp: word_less_nat_alt)
    qed
    note e = off_type_snoc [OF False, of t]
    consider "off_type ts = []" | "off_type ts \<noteq> []" "?n \<le> 32" | "32 < ?n" by force
    then show ?thesis
    proof cases
      case 1
      then show ?thesis using snoc False e by (auto simp: ic_run_snoc ic_observe_type_def)
    next
      case 2
      then show ?thesis using snoc False e m by (auto simp: ic_run_snoc ic_observe_type_def Let_def min_def)
    next
      case 3
      then show ?thesis using snoc False e by (auto simp: ic_run_snoc ic_observe_type_def min_def)
    qed
  qed
qed

text \<open>C8: the state of an inline cache is a function of what it saw: monomorphic exactly while every
  observed tag equals the first, polymorphic for the first 32 observations from the first
  different tag on, megamorphic after that.\<close>

theorem ic_state_of_history:
  "ic_st (ic_run ts) =
     (if ts = [] then Uninitialized
      else if off_type ts = [] then Monomorphic
      else if length (off_type ts) \<le> 32 then Polymorphic else Megamorphic)"
  using ic_run_inv [of ts] by (auto simp: ic_new_def)

section \<open>When code is compiled\<close>

datatype hot_event = Entry ptr | Loop ptr

fun hot_step :: "jit_state \<Rightarrow> hot_event \<Rightarrow> jit_state" where
  "hot_step s (Entry p) = hotness_on_entry p s"
| "hot_step s (Loop p) = hotness_on_loop p s"

definition jit_start :: jit_state where
  "jit_start = \<lparr>js_entries = (\<lambda>_. 0), js_loops = (\<lambda>_. 0), js_codes = Map.empty\<rparr>"

definition hot_run :: "hot_event list \<Rightarrow> jit_state" where
  "hot_run es = foldl hot_step jit_start es"

lemma request_compile_tier:
  "jc_tier (code_at (baseline_request_compile p m) q) =
     (if q = p \<and> p \<noteq> 0 \<and> \<not> jc_blacklisted (code_at m p) \<and> jc_tier (code_at m p) = Interpreter
      then Baseline else jc_tier (code_at m q))"
  by (cases "jc_tier (code_at m p)")
    (auto simp: baseline_request_compile_def Let_def code_at_def less_eq_tier_def)

lemma request_compile_blacklist:
  "jc_blacklisted (code_at (baseline_request_compile p m) q) = jc_blacklisted (code_at m q)"
  by (auto simp: baseline_request_compile_def Let_def code_at_def)

lemma code_at_empty [simp]: "code_at Map.empty p = new_code"
  by (simp add: code_at_def)

lemma of_nat_Suc_eq_threshold:
  assumes "n < 2 ^ 64 - 1" "k < 2 ^ 64 - 1"
  shows "(of_nat n + 1 :: u64) = of_nat k \<longleftrightarrow> Suc n = k"
proof -
  have "unat (of_nat n + 1 :: u64) = Suc n" "unat (of_nat k :: u64) = k"
    using assms by (simp_all add: unat_word_ariths unat_of_nat)
  then show ?thesis by (metis of_nat_Suc add.commute)
qed

lemma hot_run_inv:
  assumes "length es < 2 ^ 64 - 1" "p \<noteq> 0"
  shows "js_entries (hot_run es) p = of_nat (count_list es (Entry p)) \<and>
    js_loops (hot_run es) p = of_nat (count_list es (Loop p)) \<and>
    \<not> jc_blacklisted (code_at (js_codes (hot_run es)) p) \<and>
    jc_tier (code_at (js_codes (hot_run es)) p) =
      (if 100 \<le> count_list es (Entry p) \<or> 50 \<le> count_list es (Loop p) then Baseline else Interpreter)"
  using assms(1)
proof (induction es rule: rev_induct)
  case Nil
  show ?case by (simp add: hot_run_def jit_start_def new_code_def)
next
  case (snoc e es)
  have c: "count_list es x < 2 ^ 64 - 1" for x
    using count_le_length [of es x] snoc.prems by simp
  have r: "hot_run (es @ [e]) = hot_step (hot_run es) e" by (simp add: hot_run_def)
  note th = of_nat_Suc_eq_threshold [OF c, of 100] of_nat_Suc_eq_threshold [OF c, of 50]
  note IH = snoc.IH
  show ?case
  proof (cases e)
    case (Entry q)
    then show ?thesis using IH snoc.prems th(1) [of "Entry p"] assms(2) unfolding r
      by (auto simp: hotness_on_entry_def Let_def kBaselineEntryThreshold_def request_compile_tier
          request_compile_blacklist add.commute)
  next
    case (Loop q)
    then show ?thesis using IH snoc.prems th(2) [of "Loop p"] assms(2) unfolding r
      by (auto simp: hotness_on_loop_def Let_def kBaselineLoopThreshold_def request_compile_tier
          request_compile_blacklist add.commute)
  qed
qed

text \<open>A function is handed to the baseline compiler exactly when it has been entered 100 times or
  one of its loops has run 50 times, whatever happened to other functions in between, and entering
  it deoptimises to the interpreter at its first instruction until there is native code.\<close>

theorem hotness_compiles_at_threshold:
  assumes "length es < 2 ^ 64 - 1" "p \<noteq> 0"
  shows "baseline_try_enter p (js_codes (hot_run es)) =
    (False, if 100 \<le> count_list es (Entry p) \<or> 50 \<le> count_list es (Loop p) then [0] else [])"
  using hot_run_inv [OF assms]
  by (auto simp: baseline_try_enter_def baseline_lookup_def code_at_def less_tier_def new_code_def
      split: option.splits if_splits)

lemma count_list_replicate_self: "count_list (replicate n x) x = n"
  by (induction n) simp_all

theorem hotness_compiles_at_threshold_witness:
  "baseline_try_enter 7 (js_codes (hot_run (replicate 50 (Loop 7)))) = (False, [0])"
  using hotness_compiles_at_threshold [of "replicate 50 (Loop 7)" 7] by (simp add: count_list_replicate_self)

end
