(* ===== verification/Lt_Convert.thy ===== *)
theory Lt_Convert
  imports Lt_Value
begin

text \<open>
  Conversions between numbers and strings of \<open>src/runtime/value.cpp\<close>: \<open>try_to_number\<close> (the
  common part of \<open>tonumber\<close> and of arithmetic on strings) and \<open>value_to_string\<close>. The C library's
  locale-dependent \<open>strtod\<close>, the locale's decimal point and the \<open>printf\<close> formats \<open>%.14g\<close> and
  \<open>%p\<close> are parameters: \<open>strtod s\<close> is the value and the number of bytes consumed.
\<close>

definition is_nan_or_inf_token :: "string \<Rightarrow> bool" where
  "is_nan_or_inf_token s =
     (let t = (if s \<noteq> [] \<and> (hd s = CHR ''+'' \<or> hd s = CHR ''-'') then tl s else s)
      in length t = 3 \<and> (map tolower t = ''nan'' \<or> map tolower t = ''inf''))"

type_synonym strtod_fun = "string \<Rightarrow> f64 \<times> nat"

definition str2d :: "strtod_fun \<Rightarrow> char \<Rightarrow> string \<Rightarrow> f64 option" where
  "str2d strtod dec s =
     (if s = [] \<or> is_nan_or_inf_token s then None
      else let (d, n) = strtod s in
        if n = length s then Some d
        else if dec \<noteq> CHR ''.'' \<and> CHR ''.'' \<in> set s then
          (let t = map (\<lambda>c. if c = CHR ''.'' then dec else c) s;
               (d', n') = strtod t
           in if n' = length t then Some d' else None)
        else None)"

definition trim :: "string \<Rightarrow> string" where
  "trim s = rev (dropWhile isspace (rev (dropWhile isspace s)))"

definition sign_skip :: "string \<Rightarrow> nat" where
  "sign_skip s = (if s \<noteq> [] \<and> (hd s = CHR ''+'' \<or> hd s = CHR ''-'') then 1 else 0)"

definition looks_hex :: "string \<Rightarrow> bool" where
  "looks_hex s =
     (let hs = sign_skip s
      in length s > hs + 2 \<and> s ! hs = CHR ''0'' \<and> (s ! (hs + 1) = CHR ''x'' \<or> s ! (hs + 1) = CHR ''X''))"

definition has_frac :: "char \<Rightarrow> string \<Rightarrow> bool" where
  "has_frac dec s \<longleftrightarrow>
     CHR ''.'' \<in> set s \<or> dec \<in> set s \<or>
     (\<not> looks_hex s \<and> (CHR ''e'' \<in> set s \<or> CHR ''E'' \<in> set s)) \<or>
     CHR ''p'' \<in> set s \<or> CHR ''P'' \<in> set s"

text \<open>The accumulation \<open>u = (u << 4) + d\<close>, which wraps modulo \<open>2 ^ 64\<close>.\<close>

fun hex_accum :: "u64 \<Rightarrow> string \<Rightarrow> u64 \<times> string" where
  "hex_accum u [] = (u, [])"
| "hex_accum u (c # cs) =
     (if isxdigit c then hex_accum (push_bit 4 u + of_nat (hexval c)) cs else (u, c # cs))"

definition str_to_int :: "string \<Rightarrow> u64 option" where
  "str_to_int s =
     (if looks_hex s then
        (let (u, rest) = hex_accum 0 (drop (sign_skip s + 2) s)
         in if rest = [] then Some (if s \<noteq> [] \<and> hd s = CHR ''-'' then 0 - u else u) else None)
      else
        (case stoll s of
           None \<Rightarrow> None
         | Some (n, idx) \<Rightarrow> if idx = length s then Some (word_of_int n) else None))"

definition hex_float :: "strtod_fun \<Rightarrow> char \<Rightarrow> string \<Rightarrow> f64 option" where
  "hex_float strtod dec s =
     (if looks_hex s then
        (let hs = sign_skip s;
             t = (if dec \<noteq> CHR ''.''
                  then take (hs + 2) s @ map (\<lambda>c. if c = dec then CHR ''.'' else c) (drop (hs + 2) s)
                  else s);
             (d, n) = strtod t
         in if n = length t then Some d else None)
      else None)"

definition str_to_number :: "strtod_fun \<Rightarrow> char \<Rightarrow> string \<Rightarrow> tvalue option" where
  "str_to_number strtod dec s0 =
     (let s = trim s0 in
      if s = [] \<or> is_nan_or_inf_token s then None
      else case (if \<not> has_frac dec s then str_to_int s else None) of
        Some n \<Rightarrow> Some (VInt n)
      | None \<Rightarrow>
          (case str2d strtod dec s of
             Some d \<Rightarrow> Some (VFloat d)
           | None \<Rightarrow> map_option VFloat (hex_float strtod dec s)))"

fun try_to_number :: "str_heap \<Rightarrow> strtod_fun \<Rightarrow> char \<Rightarrow> tvalue \<Rightarrow> tvalue option" where
  "try_to_number H strtod dec (VInt n) = Some (VInt n)"
| "try_to_number H strtod dec (VFloat d) = Some (VFloat d)"
| "try_to_number H strtod dec (VString s) = str_to_number strtod dec (ls_data (H s))"
| "try_to_number H strtod dec _ = None"

fun value_to_string :: "str_heap \<Rightarrow> (f64 \<Rightarrow> string) \<Rightarrow> (ptr \<Rightarrow> string) \<Rightarrow> tvalue \<Rightarrow> string" where
  "value_to_string H fmt_g fmt_p VNil = ''nil''"
| "value_to_string H fmt_g fmt_p (VBool b) = (if b then ''true'' else ''false'')"
| "value_to_string H fmt_g fmt_p (VInt n) = dec_int (sint n)"
| "value_to_string H fmt_g fmt_p (VFloat d) = fmt_g d"
| "value_to_string H fmt_g fmt_p (VString s) = ls_data (H s)"
| "value_to_string H fmt_g fmt_p (VTable p) = ''table: '' @ fmt_p p"
| "value_to_string H fmt_g fmt_p (VFunction p) = ''function: '' @ fmt_p p"
| "value_to_string H fmt_g fmt_p (VThread p) = ''thread: '' @ fmt_p p"
| "value_to_string H fmt_g fmt_p (VUserdata p) = ''userdata: '' @ fmt_p p"
| "value_to_string H fmt_g fmt_p (VLightUserdata p) = ''userdata: '' @ fmt_p p"
| "value_to_string H fmt_g fmt_p (VInternal p) = ''value''"

section \<open>Printing an integer and reading it back\<close>

lemma nan_or_inf_has_n: "is_nan_or_inf_token s \<Longrightarrow> CHR ''n'' \<in> tolower ` set s"
proof -
  assume "is_nan_or_inf_token s"
  moreover define t where "t = (if s \<noteq> [] \<and> (hd s = CHR ''+'' \<or> hd s = CHR ''-'') then tl s else s)"
  ultimately have t: "set t \<subseteq> set s" "map tolower t = ''nan'' \<or> map tolower t = ''inf''"
    by (auto simp: is_nan_or_inf_token_def Let_def dest: list.set_sel(2))
  from t(2) have "CHR ''n'' \<in> set (map tolower t)" by (elim disjE) simp_all
  with t(1) show ?thesis by auto
qed

lemma looks_hex_has_x: "looks_hex s \<Longrightarrow> CHR ''x'' \<in> set s \<or> CHR ''X'' \<in> set s"
  unfolding looks_hex_def Let_def by (metis Suc_eq_plus1 Suc_lessD add_2_eq_Suc' nth_mem)

lemma dec_int_chars: "c \<in> set (dec_int i) \<Longrightarrow> isdigit c \<or> c = CHR ''-''"
  using dec_nat_digits by (auto simp: dec_int_def split: if_splits)

lemma dec_int_nonempty [simp]: "dec_int i \<noteq> []"
  by (simp add: dec_int_def)

lemma trim_no_space: "\<forall>c \<in> set s. \<not> isspace c \<Longrightarrow> trim s = s"
  by (simp add: trim_def dropWhile_eq_self_iff)
     (metis dropWhile_eq_self_iff hd_in_set rev_rev_ident set_rev)

lemma dec_int_not_space: "c \<in> set (dec_int i) \<Longrightarrow> \<not> isspace c"
  using dec_int_chars [of c i] by (auto simp: isdigit_def isspace_def)

lemma dec_int_not_letter: "c \<in> set (dec_int i) \<Longrightarrow> code c < 58"
  using dec_int_chars [of c i] by (auto simp: isdigit_def)

text \<open>C2: printing an integer and converting the text back gives the same integer, for every
  64-bit value including the smallest, whatever \<open>strtod\<close> does. The decimal point of the locale
  is a punctuation character: no digit and no minus sign.\<close>

theorem tonumber_tostring_int:
  assumes "\<not> isdigit dec" "dec \<noteq> CHR ''-''"
  shows "str_to_number strtod dec (value_to_string H fmt_g fmt_p (VInt n)) = Some (VInt n)"
proof -
  let ?s = "dec_int (sint n)"
  have notin: "58 \<le> code c \<Longrightarrow> c \<notin> set ?s" for c using dec_int_not_letter [of c] by force
  have t: "trim ?s = ?s" using dec_int_not_space by (intro trim_no_space) blast
  have "CHR ''n'' \<notin> tolower ` set ?s"
    using dec_int_not_letter by (force simp: tolower_def isupper_def)
  then have nan: "\<not> is_nan_or_inf_token ?s" using nan_or_inf_has_n by blast
  have hex: "\<not> looks_hex ?s"
    using notin [of "CHR ''x''"] notin [of "CHR ''X''"] looks_hex_has_x [of ?s] by auto
  have "CHR ''.'' \<notin> set ?s" using dec_int_chars [of "CHR ''.''"] by (auto simp: isdigit_def)
  moreover have "dec \<notin> set ?s" using dec_int_chars [of dec] assms by blast
  ultimately have frac: "\<not> has_frac dec ?s"
    using notin [of "CHR ''e''"] notin [of "CHR ''E''"] notin [of "CHR ''p''"] notin [of "CHR ''P''"]
    by (simp add: has_frac_def)
  have "str_to_int ?s = Some n"
    using hex stoll_dec_int [OF sint_bounds_64] by (simp add: str_to_int_def)
  then show ?thesis using t nan frac by (simp add: str_to_number_def)
qed

theorem tonumber_tostring_int_witness:
  "str_to_number (\<lambda>s. (0, 0)) CHR ''.'' (value_to_string (\<lambda>_. \<lparr>ls_hash = 0, ls_data = []\<rparr>) (\<lambda>_. []) (\<lambda>_. []) (VInt (- 9223372036854775808)))
    = Some (VInt (- 9223372036854775808))"
  by (rule tonumber_tostring_int) (simp_all add: isdigit_def)

end
