(* ===== verification/Lt_Lib.thy ===== *)
theory Lt_Lib
  imports Lt_Convert
begin

text \<open>
  Argument checking for the C functions of the standard library: \<open>src/lib/lib_util.hpp\<close>. A C
  function sees its arguments as the stack window \<open>at(1) .. at(gettop())\<close>, here the list of them,
  and leaves its results in the same window; a result is a value or the bytes of a string that
  \<open>push_string\<close> interns. \<open>lib_env\<close> collects what the checks read from outside the window: the
  string heap, \<open>strtod\<close> and the locale's decimal point, the name under which the debug
  information knows the running function, and the names of types.
\<close>

record lib_env =
  le_heap :: str_heap
  le_strtod :: strtod_fun
  le_dec :: char
  le_fname :: string
  le_is_method :: bool
  le_type_name :: "tvalue \<Rightarrow> string"

datatype lval = LVal tvalue | LStr string

type_synonym args = "tvalue list"
type_synonym lresult = "lval list result"

definition at_arg :: "args \<Rightarrow> nat \<Rightarrow> tvalue result" where
  "at_arg as idx = (if 1 \<le> idx \<and> idx \<le> length as then Inr (as ! (idx - 1)) else panic ''invalid stack index'')"

definition check_any :: "args \<Rightarrow> nat \<Rightarrow> string \<Rightarrow> unit result" where
  "check_any as idx what =
     (if idx < 1 \<or> length as < idx then panic (what @ '': bad argument #'' @ dec_nat idx) else Inr ())"

definition check_string :: "lib_env \<Rightarrow> args \<Rightarrow> nat \<Rightarrow> ptr result" where
  "check_string E as idx =
     rbind (check_any as idx ''check_string'') (\<lambda>_.
     rbind (at_arg as idx) (\<lambda>v. case v of VString p \<Rightarrow> Inr p | _ \<Rightarrow> panic ''string expected''))"

definition check_string_self :: "lib_env \<Rightarrow> args \<Rightarrow> nat \<Rightarrow> ptr result" where
  "check_string_self E as idx =
     (if length as < idx then panic ''bad self''
      else rbind (at_arg as idx) (\<lambda>v. case v of VString p \<Rightarrow> Inr p | _ \<Rightarrow> panic ''bad self''))"

definition check_table :: "lib_env \<Rightarrow> args \<Rightarrow> nat \<Rightarrow> ptr result" where
  "check_table E as idx =
     rbind (check_any as idx ''check_table'') (\<lambda>_.
     rbind (at_arg as idx) (\<lambda>v. case v of VTable p \<Rightarrow> Inr p | _ \<Rightarrow> panic ''table expected''))"

text \<open>The message of \<open>arg_type_error\<close>, from the name it has resolved.\<close>

definition arg_type_error :: "lib_env \<Rightarrow> args \<Rightarrow> nat \<Rightarrow> string \<Rightarrow> 'a result" where
  "arg_type_error E as idx expected =
     rbind (at_arg as idx) (\<lambda>v.
       let got = le_type_name E v; arg = (if le_is_method E then idx - 1 else idx) in
       if le_is_method E \<and> arg = 0
       then panic (''calling '' @ [CHR 0x27] @ le_fname E @ [CHR 0x27] @ '' on bad self ('' @ expected @
                   '' expected, got '' @ got @ '')'')
       else panic (''bad argument #'' @ dec_nat arg @ '' to '' @ [CHR 0x27] @ le_fname E @ [CHR 0x27] @ '' ('' @
                   expected @ '' expected, got '' @ got @ '')''))"

fun from_number :: "lib_env \<Rightarrow> args \<Rightarrow> nat \<Rightarrow> tvalue \<Rightarrow> u64 result" where
  "from_number E as idx (VInt n) = Inr n"
| "from_number E as idx (VFloat d) =
     (if f_eq (f_floor d) d \<and> f_le kMin d \<and> f_le d (i64_to_f64 (word_of_int (2 ^ 63 - 1)))
      then Inr (f64_to_i64 d) else panic ''number has no integer representation'')"
| "from_number E as idx _ = arg_type_error E as idx ''integer''"

definition check_int :: "lib_env \<Rightarrow> args \<Rightarrow> nat \<Rightarrow> u64 result" where
  "check_int E as idx =
     rbind (check_any as idx ''check_int'') (\<lambda>_.
     rbind (at_arg as idx) (\<lambda>v.
       if is_number v then from_number E as idx v
       else case try_to_number (le_heap E) (le_strtod E) (le_dec E) v of
         Some n \<Rightarrow> from_number E as idx n
       | None \<Rightarrow> arg_type_error E as idx ''integer''))"

definition opt_int :: "lib_env \<Rightarrow> args \<Rightarrow> nat \<Rightarrow> u64 \<Rightarrow> u64 result" where
  "opt_int E as idx d =
     (if length as < idx then Inr d
      else rbind (at_arg as idx) (\<lambda>v. if is_nil v then Inr d else check_int E as idx))"

definition check_number :: "lib_env \<Rightarrow> args \<Rightarrow> nat \<Rightarrow> f64 result" where
  "check_number E as idx =
     rbind (check_any as idx ''check_number'') (\<lambda>_.
     rbind (at_arg as idx) (\<lambda>v.
       if is_number v then to_number v
       else case try_to_number (le_heap E) (le_strtod E) (le_dec E) v of
         Some n \<Rightarrow> if is_number n then to_number n else arg_type_error E as idx ''number''
       | None \<Rightarrow> arg_type_error E as idx ''number''))"

definition opt_bool :: "args \<Rightarrow> nat \<Rightarrow> bool \<Rightarrow> bool result" where
  "opt_bool as idx d =
     (if length as < idx then Inr d
      else rbind (at_arg as idx) (\<lambda>v. if is_nil v then Inr d else Inr (is_truthy v)))"

definition opt_string :: "lib_env \<Rightarrow> args \<Rightarrow> nat \<Rightarrow> string \<Rightarrow> string result" where
  "opt_string E as idx d =
     (if length as < idx then Inr d
      else rbind (at_arg as idx) (\<lambda>v.
        if is_nil v then Inr d
        else case v of VString p \<Rightarrow> Inr (ls_data (le_heap E p)) | _ \<Rightarrow> panic ''string expected''))"

fun to_int :: "tvalue \<Rightarrow> u64 result" where
  "to_int (VInt n) = Inr n"
| "to_int (VFloat d) = Inr (f64_to_i64 d)"
| "to_int _ = panic ''integer expected''"

section \<open>Well-typed arguments\<close>

lemma at_arg_ok [result_simps]: "1 \<le> idx \<Longrightarrow> idx \<le> length as \<Longrightarrow> at_arg as idx = Inr (as ! (idx - 1))"
  by (simp add: at_arg_def)

lemma check_string_ok [result_simps]:
  "1 \<le> idx \<Longrightarrow> idx \<le> length as \<Longrightarrow> as ! (idx - 1) = VString p \<Longrightarrow> check_string E as idx = Inr p"
  by (simp add: check_string_def check_any_def at_arg_def)

lemma check_table_ok [result_simps]:
  "1 \<le> idx \<Longrightarrow> idx \<le> length as \<Longrightarrow> as ! (idx - 1) = VTable p \<Longrightarrow> check_table E as idx = Inr p"
  by (simp add: check_table_def check_any_def at_arg_def)

lemma check_int_ok [result_simps]:
  "1 \<le> idx \<Longrightarrow> idx \<le> length as \<Longrightarrow> as ! (idx - 1) = VInt n \<Longrightarrow> check_int E as idx = Inr n"
  by (simp add: check_int_def check_any_def at_arg_def is_number_def)

text \<open>C9: an integer argument check that succeeds on a number returns the number's exact value,
  except for the float \<open>2^63\<close>: the bound \<open>d <= (double)INT64_MAX\<close> lets it through, and the
  conversion yields the smallest integer.\<close>

theorem check_int_exact:
  assumes "check_int E as idx = Inr n" "is_number (as ! (idx - 1))"
  shows "num_exact (as ! (idx - 1)) = Some (sint n * f_one) \<or>
    (num_exact (as ! (idx - 1)) = Some f_lim \<and> sint n = - (2 ^ 63))"
proof -
  let ?v = "as ! (idx - 1)"
  have fn: "from_number E as idx ?v = Inr n"
    using assms by (auto simp: check_int_def rbind_eq_Inr at_arg_def panic_def split: if_splits)
  show ?thesis
  proof (cases ?v)
    case (VFloat d)
    with fn have d: "f_eq (f_floor d) d" "f_le kMin d" "f_le d (i64_to_f64 (word_of_int (2 ^ 63 - 1)))" "n = f64_to_i64 d"
      by (auto simp: panic_def split: if_splits)
    have mx: "f_num (i64_to_f64 (word_of_int (2 ^ 63 - 1))) = f_lim"
      using f_of_int_max sint_of_int_64 [of "2 ^ 63 - 1"] by (simp add: i64_to_f64_def)
    have i: "\<not> isnan d" "f_one dvd f_num d" "- f_lim \<le> f_num d" "f_num d \<le> f_lim"
      using d f_integral_iff [of d] mx kMin_num by (auto simp: f_eq_def f_integral_def f_le_def)
    show ?thesis
    proof (cases "f_num d = f_lim")
      case True
      then have "f_trunc d * f_one = 2 ^ 63 * f_one" using f_trunc_num [OF i(2)] by (simp add: f_lim_def)
      then have "f_trunc d = 2 ^ 63" by (simp only: f_one_cancel)
      then have "n = word_of_int (- (2 ^ 63))" using d(4) by (simp add: f64_to_i64_def)
      then show ?thesis using VFloat True i(1) sint_of_int_64 [of "- (2 ^ 63)"] by simp
    next
      case False
      then show ?thesis using f64_to_i64_integral [of d] i d(4) VFloat by simp
    qed
  qed (use fn assms(2) in \<open>auto simp: is_number_def\<close>)
qed

text \<open>An environment whose \<open>strtod\<close> accepts nothing, for concrete runs.\<close>

definition E0 :: lib_env where
  "E0 = \<lparr>le_heap = H0, le_strtod = (\<lambda>_. (0, 0)), le_dec = CHR ''.'', le_fname = ''f'',
         le_is_method = False, le_type_name = (\<lambda>_. ''value'')\<rparr>"

text \<open>The float \<open>2^63\<close> as an argument.\<close>

lemma check_int_two_63: "\<exists>n. check_int E0 [VFloat kSup] 1 = Inr n"
proof -
  have "f_eq (f_floor kSup) kSup" using f_integral_iff [of kSup] kSup_num
    by (simp add: f_integral_def f_eq_def f_lim_def)
  moreover have "f_le kMin kSup" "f_le kSup (i64_to_f64 (word_of_int (2 ^ 63 - 1)))"
    using kSup_num kMin_num f_of_int_max sint_of_int_64 [of "2 ^ 63 - 1"] less_imp_le [OF f_lim_pos]
    by (auto simp: f_le_def i64_to_f64_def)
  ultimately show ?thesis by (simp add: check_int_def check_any_def at_arg_def is_number_def)
qed

theorem check_int_exact_witness:
  "\<exists>n. check_int E0 [VFloat kSup] 1 = Inr n \<and> sint n = - (2 ^ 63)"
proof -
  obtain n where n: "check_int E0 [VFloat kSup] 1 = Inr n" using check_int_two_63 by blast
  have "num_exact (VFloat kSup) = Some f_lim" using kSup_num by simp
  then have "sint n = - (2 ^ 63)"
    using check_int_exact [OF n] sint_scaled_bounds [of n] by (auto simp: is_number_def)
  with n show ?thesis by blast
qed

end
