(* ===== verification/Lt_Utf8.thy ===== *)
theory Lt_Utf8
  imports Lt_Lib
begin

text \<open>
  The \<open>utf8\<close> library: \<open>src/lib/lutf8lib.cpp\<close>. The decoder and the encoder, and the five functions
  over them. The loops that walk a string recurse on what is left of it.
\<close>

section \<open>Encoding and decoding\<close>

definition byte :: "char \<Rightarrow> u32" where
  "byte c = of_nat (code c)"

text \<open>\<open>static_cast<char>\<close> of an unsigned int\<close>

definition to_char :: "u32 \<Rightarrow> char" where
  "to_char w = char_of (unat w)"

definition kMaxUnicode :: u32 where
  "kMaxUnicode = 0x10FFFF"

definition iscont :: "char \<Rightarrow> bool" where
  "iscont c \<longleftrightarrow> byte c AND 0xC0 = 0x80"

definition u_posrelat :: "int \<Rightarrow> nat \<Rightarrow> int" where
  "u_posrelat pos len = (if 0 \<le> pos then pos else if int len < - pos then 0 else int len + pos + 1)"

function decode_loop :: "string \<Rightarrow> nat \<Rightarrow> u32 \<Rightarrow> u32 \<Rightarrow> nat \<Rightarrow> (u32 \<times> u32 \<times> nat) option" where
  "decode_loop s i c res count =
     (if c AND 0x40 = 0 then Some (c, res, count)
      else if length s \<le> i + 1 + count then None
      else let cc = byte (s ! (i + 1 + count)) in
        if cc AND 0xC0 \<noteq> 0x80 then None
        else decode_loop s i (push_bit 1 c) (push_bit 6 res OR (cc AND 0x3F)) (count + 1))"
  by pat_completeness auto
termination
  by (relation "measure (\<lambda>(s, i, c, res, count). length s - (i + count))") auto

declare decode_loop.simps [simp del]

definition utf8_limits :: "u32 list" where
  "utf8_limits = [0xFF, 0x7F, 0x7FF, 0xFFFF]"

text \<open>The code point and the number of bytes, or None where the source returns 0.\<close>

definition utf8_decode :: "string \<Rightarrow> nat \<Rightarrow> (u32 \<times> nat) option" where
  "utf8_decode s i =
     (if length s \<le> i then None
      else let c = byte (s ! i) in
        if c < 0x80 then Some (c, 1)
        else case decode_loop s i c 0 0 of
          None \<Rightarrow> None
        | Some (c', r, count) \<Rightarrow>
            (let res = r OR push_bit (count * 5) (c' AND 0x7F) in
             if 3 < count \<or> kMaxUnicode < res \<or> res \<le> utf8_limits ! count then None
             else Some (res, count + 1)))"

definition utf8_encode :: "u32 \<Rightarrow> string" where
  "utf8_encode cp =
     (if cp < 0x80 then [to_char cp]
      else if cp < 0x800 then [to_char (0xC0 OR drop_bit 6 cp), to_char (0x80 OR (cp AND 0x3F))]
      else if cp < 0x10000 then
        [to_char (0xE0 OR drop_bit 12 cp), to_char (0x80 OR (drop_bit 6 cp AND 0x3F)),
         to_char (0x80 OR (cp AND 0x3F))]
      else
        [to_char (0xF0 OR drop_bit 18 cp), to_char (0x80 OR (drop_bit 12 cp AND 0x3F)),
         to_char (0x80 OR (drop_bit 6 cp AND 0x3F)), to_char (0x80 OR (cp AND 0x3F))])"

section \<open>The library functions\<close>

text \<open>The optional position arguments: \<open>gettop() >= idx ? check_int(idx) : d\<close>.\<close>

definition pos_arg :: "lib_env \<Rightarrow> args \<Rightarrow> nat \<Rightarrow> int \<Rightarrow> int result" where
  "pos_arg E as idx d = (if idx \<le> length as then rbind (check_int E as idx) (\<lambda>n. Inr (sint n)) else Inr d)"

text \<open>The loop of \<open>utf8.len\<close>: the count, or the position of the first invalid byte. Positions
  are those of the source, from 0; a decoded sequence has at least one byte.\<close>

function len_loop :: "string \<Rightarrow> nat \<Rightarrow> int \<Rightarrow> nat \<Rightarrow> nat + nat" where
  "len_loop s posi posj n =
     (if int posi \<le> posj then
        (case utf8_decode s posi of
           None \<Rightarrow> Inl (posi + 1)
         | Some (_, sz) \<Rightarrow> if sz = 0 then Inl (posi + 1) else len_loop s (posi + sz) posj (n + 1))
      else Inr n)"
  by pat_completeness auto
termination
  by (relation "measure (\<lambda>(s, posi, posj, n). nat (posj + 1 - int posi))") auto

declare len_loop.simps [simp del]

definition utf8_len :: "lib_env \<Rightarrow> args \<Rightarrow> lresult" where
  "utf8_len E as =
     rbind (check_string E as 1) (\<lambda>p.
       let s = ls_data (le_heap E p) in
       rbind (pos_arg E as 2 1) (\<lambda>i.
       rbind (pos_arg E as 3 (- 1)) (\<lambda>j.
         let posi = u_posrelat i (length s); posj = u_posrelat j (length s) in
         if \<not> (1 \<le> posi \<and> posi - 1 \<le> int (length s)) then panic ''initial position out of string''
         else if \<not> (posj - 1 < int (length s)) then panic ''final position out of string''
         else case len_loop s (nat (posi - 1)) (posj - 1) 0 of
           Inl bad \<Rightarrow> Inr [LVal VNil, LVal (VInt (of_nat bad))]
         | Inr n \<Rightarrow> Inr [LVal (VInt (of_nat n))])))"

fun char_loop :: "lib_env \<Rightarrow> args \<Rightarrow> nat \<Rightarrow> nat \<Rightarrow> string result" where
  "char_loop E as i 0 = Inr []"
| "char_loop E as i (Suc k) =
     rbind (check_int E as i) (\<lambda>n.
       if sint n < 0 \<or> kMaxUnicode < (ucast n :: u32) then panic ''value out of range''
       else rbind (char_loop E as (i + 1) k) (\<lambda>out. Inr (utf8_encode (ucast n) @ out)))"

definition utf8_char :: "lib_env \<Rightarrow> args \<Rightarrow> lresult" where
  "utf8_char E as = rbind (char_loop E as 1 (length as)) (\<lambda>out. Inr [LStr out])"

text \<open>\<open>while (n < size && iscont(s[n])) ++n\<close>\<close>

function skip_cont :: "string \<Rightarrow> nat \<Rightarrow> nat" where
  "skip_cont s n = (if n < length s \<and> iscont (s ! n) then skip_cont s (n + 1) else n)"
  by pat_completeness auto
termination
  by (relation "measure (\<lambda>(s, n). length s - n)") auto

declare skip_cont.simps [simp del]

definition codes_start :: "tvalue \<Rightarrow> int result" where
  "codes_start v =
     (case v of
        VInt n \<Rightarrow> rbind (to_number v) (\<lambda>d. Inr (sint (f64_to_i64 d) - 1))
      | VFloat d \<Rightarrow> rbind (to_number v) (\<lambda>d. Inr (sint (f64_to_i64 d) - 1))
      | _ \<Rightarrow> Inr (- 1))"

definition utf8_codes_iter :: "lib_env \<Rightarrow> args \<Rightarrow> lresult" where
  "utf8_codes_iter E as =
     rbind (check_string E as 1) (\<lambda>p.
     rbind (rbind (at_arg as 2) codes_start) (\<lambda>n0.
       let s = ls_data (le_heap E p);
           n = (if n0 < 0 then 0
                else if n0 < int (length s) then skip_cont s (nat n0 + 1) else nat n0)
       in if length s \<le> n then Inr []
          else case utf8_decode s n of
            None \<Rightarrow> panic ''invalid UTF-8 code''
          | Some (cp, _) \<Rightarrow> Inr [LVal (VInt (of_nat (n + 1))), LVal (VInt (ucast cp))]))"

text \<open>\<open>utf8.codes\<close>: the iterator, a closure object the collector makes, is the argument.\<close>

definition utf8_codes :: "lib_env \<Rightarrow> ptr \<Rightarrow> args \<Rightarrow> lresult" where
  "utf8_codes E iter as =
     rbind (check_string E as 1) (\<lambda>_.
     rbind (at_arg as 1) (\<lambda>v. Inr [LVal (VFunction iter), LVal v, LVal (VInt 0)]))"

function codepoint_loop :: "string \<Rightarrow> nat \<Rightarrow> nat \<Rightarrow> u32 list result" where
  "codepoint_loop s p e =
     (if p < e then
        (case utf8_decode s p of
           None \<Rightarrow> panic ''invalid UTF-8 code''
         | Some (cp, sz) \<Rightarrow>
             (if sz = 0 then panic ''invalid UTF-8 code''
              else rbind (codepoint_loop s (p + sz) e) (\<lambda>cps. Inr (cp # cps))))
      else Inr [])"
  by pat_completeness auto
termination
  by (relation "measure (\<lambda>(s, p, e). e - p)") auto

declare codepoint_loop.simps [simp del]

definition utf8_codepoint :: "lib_env \<Rightarrow> args \<Rightarrow> lresult" where
  "utf8_codepoint E as =
     rbind (check_string E as 1) (\<lambda>q.
       let s = ls_data (le_heap E q) in
       rbind (pos_arg E as 2 1) (\<lambda>i.
         let posi = u_posrelat i (length s) in
         rbind (pos_arg E as 3 posi) (\<lambda>j.
           let pose = u_posrelat j (length s) in
           if posi < 1 then panic ''out of range''
           else if int (length s) < pose then panic ''out of range''
           else if pose < posi then Inr []
           else if 2147483647 \<le> pose - posi then panic ''string slice too long''
           else rbind (codepoint_loop s (nat (posi - 1)) (nat pose)) (\<lambda>cps.
             Inr (map (\<lambda>cp. LVal (VInt (ucast cp))) cps)))))"

text \<open>The moves of \<open>utf8.offset\<close>: back to the start of the character, and one character back or
  forth.\<close>

fun back_start :: "string \<Rightarrow> nat \<Rightarrow> nat" where
  "back_start s 0 = 0"
| "back_start s (Suc n) =
     (if (if Suc n < length s then iscont (s ! Suc n) else False) then back_start s n else Suc n)"

text \<open>\<open>do --posi while (posi > 0 && iscont(s[posi]))\<close>, at a position above 0.\<close>

definition step_back :: "string \<Rightarrow> nat \<Rightarrow> nat" where
  "step_back s posi = back_start s (posi - 1)"

definition step_forward :: "string \<Rightarrow> nat \<Rightarrow> nat" where
  "step_forward s posi = skip_cont s (posi + 1)"

function offset_back :: "string \<Rightarrow> nat \<Rightarrow> nat \<Rightarrow> nat \<times> nat" where
  "offset_back s n posi = (if 0 < n \<and> 0 < posi then offset_back s (n - 1) (step_back s posi) else (n, posi))"
  by pat_completeness auto
termination
  by (relation "measure (\<lambda>(s, n, posi). n)") auto

function offset_forward :: "string \<Rightarrow> nat \<Rightarrow> nat \<Rightarrow> nat \<times> nat" where
  "offset_forward s n posi =
     (if 0 < n \<and> posi < length s then offset_forward s (n - 1) (step_forward s posi) else (n, posi))"
  by pat_completeness auto
termination
  by (relation "measure (\<lambda>(s, n, posi). n)") auto

declare offset_back.simps [simp del] offset_forward.simps [simp del]

definition utf8_offset :: "lib_env \<Rightarrow> args \<Rightarrow> lresult" where
  "utf8_offset E as =
     rbind (check_string E as 1) (\<lambda>p.
       let s = ls_data (le_heap E p) in
       rbind (check_int E as 2) (\<lambda>n0.
         let n = sint n0 in
         rbind (pos_arg E as 3 (if 0 \<le> n then 1 else int (length s) + 1)) (\<lambda>i.
           let pos1 = u_posrelat i (length s) in
           if \<not> (1 \<le> pos1 \<and> pos1 - 1 \<le> int (length s)) then panic ''position out of range''
           else let posi = nat (pos1 - 1) in
             if n = 0 then Inr [LVal (VInt (of_nat (back_start s posi + 1)))]
             else if posi < length s \<and> iscont (s ! posi) then panic ''initial position is a continuation byte''
             else let (left, q) = (if n < 0 then offset_back s (nat (- n)) posi
                                   else offset_forward s (nat (n - 1)) posi)
                  in Inr [LVal (if left = 0 then VInt (of_nat (q + 1)) else VNil)])))"

section \<open>Bytes\<close>

lemma byte_to_char: "byte (to_char w) = w AND 0xFF"
proof -
  have "byte (to_char w) = of_nat (unat w mod 256)"
    by (simp add: byte_def to_char_def)
  also have "\<dots> = take_bit 8 w"
    by (simp add: take_bit_eq_mod word_arith_nat_mod)
  also have "\<dots> = w AND mask 8" by (simp add: take_bit_eq_mask)
  finally show ?thesis by (simp add: mask_eq_exp_minus_1)
qed

lemma code_bound: "code c < 256"
  by (metis of_char_mod_256 mod_less_divisor zero_less_numeral)

lemma unat_byte: "unat (byte c) = code c"
proof -
  have "code c < 2 ^ 32" by (rule less_trans [OF code_bound]) simp
  then show ?thesis by (simp only: byte_def unat_of_nat) simp
qed

lemma to_char_byte: "to_char (byte c) = c"
  by (simp add: to_char_def unat_byte)

lemma byte_inject: "byte c = byte d \<longleftrightarrow> c = d"
  by (metis to_char_byte)

lemma bit_byte: "bit (byte c) n \<Longrightarrow> n < 8"
proof -
  assume b: "bit (byte c) n"
  have "byte c = byte c AND 0xFF" using byte_to_char [of "byte c"] to_char_byte by simp
  then have "byte c = take_bit 8 (byte c)" by (simp add: take_bit_eq_mask mask_eq_exp_minus_1)
  with b show ?thesis by (metis bit_take_bit_iff)
qed

section \<open>The bit patterns\<close>

text \<open>The bits of the decoder's constants, so that words compare by linear arithmetic.\<close>

lemma bit_consts:
  "bit (0x80 :: u32) n \<longleftrightarrow> n = 7" "bit (0x40 :: u32) n \<longleftrightarrow> n = 6"
  "bit (0xC0 :: u32) n \<longleftrightarrow> n = 6 \<or> n = 7" "bit (0xE0 :: u32) n \<longleftrightarrow> n = 5 \<or> n = 6 \<or> n = 7"
  "bit (0xF0 :: u32) n \<longleftrightarrow> n = 4 \<or> n = 5 \<or> n = 6 \<or> n = 7"
  "bit (0x3F :: u32) n \<longleftrightarrow> n < 6" "bit (0x7F :: u32) n \<longleftrightarrow> n < 7" "bit (0xFF :: u32) n \<longleftrightarrow> n < 8"
proof -
  have p: "bit (2 ^ k :: u32) n \<longleftrightarrow> n = k" if "k < 32" for k using that by (auto simp: bit_exp_iff)
  have m: "bit (mask k :: u32) n \<longleftrightarrow> n < k" if "k < 32" for k using that by (auto simp: bit_mask_iff)
  have q: "bit (push_bit j (mask k) :: u32) n \<longleftrightarrow> j \<le> n \<and> n < j + k" if "j + k < 32" for j k
    using that by (auto simp: bit_push_bit_iff bit_mask_iff)
  show "bit (0x80 :: u32) n \<longleftrightarrow> n = 7" using p [of 7] by simp
  show "bit (0x40 :: u32) n \<longleftrightarrow> n = 6" using p [of 6] by simp
  have c: "(0xC0 :: u32) = push_bit 6 (mask 2)" "(0xE0 :: u32) = push_bit 5 (mask 3)" "(0xF0 :: u32) = push_bit 4 (mask 4)"
    "(0x3F :: u32) = mask 6" "(0x7F :: u32) = mask 7" "(0xFF :: u32) = mask 8"
    by (simp_all add: mask_eq_exp_minus_1 push_bit_eq_mult)
  show "bit (0xC0 :: u32) n \<longleftrightarrow> n = 6 \<or> n = 7" unfolding c(1) using q [of 6 2] by auto
  show "bit (0xE0 :: u32) n \<longleftrightarrow> n = 5 \<or> n = 6 \<or> n = 7" unfolding c(2) using q [of 5 3] by auto
  show "bit (0xF0 :: u32) n \<longleftrightarrow> n = 4 \<or> n = 5 \<or> n = 6 \<or> n = 7" unfolding c(3) using q [of 4 4] by auto
  show "bit (0x3F :: u32) n \<longleftrightarrow> n < 6" "bit (0x7F :: u32) n \<longleftrightarrow> n < 7" "bit (0xFF :: u32) n \<longleftrightarrow> n < 8"
    unfolding c using m [of 6] m [of 7] m [of 8] by auto
qed

lemma word_eq_bits: "(v :: u32) = w \<longleftrightarrow> (\<forall>n. bit v n = bit w n)"
  by (rule iffI, simp, rule bit_word_eqI, simp)

lemma less_exp_bits: "(w :: u32) < 2 ^ k \<longleftrightarrow> (\<forall>n \<ge> k. \<not> bit w n)" if "k < 32"
proof -
  have "w < 2 ^ k \<longleftrightarrow> take_bit k w = w"
  proof -
    have u: "unat (take_bit k w) = unat w mod 2 ^ k" by (simp only: unsigned_take_bit_eq) (simp add: take_bit_eq_mod)
    have "(2 :: nat) ^ k < 2 ^ 32" using that by (simp only: power_strict_increasing_iff)
    then have "unat (of_nat (2 ^ k) :: u32) = 2 ^ k" by (simp only: unat_of_nat) simp
    then have "unat (2 ^ k :: u32) = 2 ^ k" by simp
    then have "w < 2 ^ k \<longleftrightarrow> unat w < 2 ^ k" by (simp add: word_less_nat_alt)
    also have "\<dots> \<longleftrightarrow> unat w mod 2 ^ k = unat w" by (metis mod_less mod_less_divisor zero_less_power zero_less_numeral)
    finally show ?thesis using u by (metis word_unat_eq_iff)
  qed
  also have "\<dots> \<longleftrightarrow> (\<forall>n \<ge> k. \<not> bit w n)"
    unfolding word_eq_bits bit_take_bit_iff by (metis linorder_not_le)
  finally show ?thesis .
qed

lemma and_40: "(w :: u32) AND 0x40 = 0 \<longleftrightarrow> \<not> bit w 6"
  using and_exp_eq_0_iff_not_bit [of w 6] by simp

lemma iscont_bits: "(w :: u32) AND 0xC0 = 0x80 \<longleftrightarrow> bit w 7 \<and> \<not> bit w 6"
proof -
  have "w AND 0xC0 = 0x80 \<longleftrightarrow> (\<forall>n. bit (w AND 0xC0) n \<longleftrightarrow> bit (0x80 :: u32) n)"
    by (rule word_eq_bits)
  also have "\<dots> \<longleftrightarrow> (\<forall>n. bit w n \<and> (n = 6 \<or> n = 7) \<longleftrightarrow> n = 7)"
    unfolding bit_and_iff bit_consts ..
  also have "\<dots> \<longleftrightarrow> bit w 7 \<and> \<not> bit w 6"
  proof
    assume a: "\<forall>n. (bit w n \<and> (n = 6 \<or> n = 7)) = (n = 7)"
    from a [rule_format, of 7] a [rule_format, of 6] show "bit w 7 \<and> \<not> bit w 6" by simp
  qed auto
  finally show ?thesis .
qed

lemma less_80: "(w :: u32) < 0x80 \<longleftrightarrow> (\<forall>n \<ge> 7. \<not> bit w n)"
  and less_800: "(w :: u32) < 0x800 \<longleftrightarrow> (\<forall>n \<ge> 11. \<not> bit w n)"
  and less_10000: "(w :: u32) < 0x10000 \<longleftrightarrow> (\<forall>n \<ge> 16. \<not> bit w n)"
  using less_exp_bits [of 7 w] less_exp_bits [of 11 w] less_exp_bits [of 16 w] by simp_all

lemma less_chain: "(w :: u32) < 0x80 \<Longrightarrow> w < 0x800" "(w :: u32) < 0x800 \<Longrightarrow> w < 0x10000"
  by (simp_all add: word_less_nat_alt)

lemma byte_less_80: "byte c < 0x80 \<longleftrightarrow> \<not> bit (byte c) 7"
proof
  assume "\<not> bit (byte c) 7"
  then have "\<forall>n \<ge> 7. \<not> bit (byte c) n"
  proof (intro allI impI notI)
    fix n assume n: "7 \<le> n" "bit (byte c) n"
    then have "n < 8" using bit_byte by blast
    with n(1) have "n = 7" by simp
    with n(2) \<open>\<not> bit (byte c) 7\<close> show False by simp
  qed
  then show "byte c < 0x80" by (simp only: less_80)
qed (simp add: less_80)

lemma limits_ge: "(w :: u32) \<le> 0x7F \<longleftrightarrow> w < 0x80" "(w :: u32) \<le> 0x7FF \<longleftrightarrow> w < 0x800"
  "(w :: u32) \<le> 0xFFFF \<longleftrightarrow> w < 0x10000"
  by (auto simp: word_le_nat_alt word_less_nat_alt)

lemma bit_to_char: "bit (byte (to_char w)) n \<longleftrightarrow> n < 8 \<and> bit w n"
  by (simp only: byte_to_char bit_and_iff bit_consts) auto

section \<open>One step of the decoder\<close>

lemma decode_stop: "\<not> bit c 6 \<Longrightarrow> decode_loop s i c r n = Some (c, r, n)"
  by (simp add: decode_loop.simps and_40)

lemma decode_next:
  assumes "bit c 6" "i + 1 + n < length s" "byte (s ! (i + 1 + n)) = b" "bit b 7" "\<not> bit b 6" "n' = n + 1"
  shows "decode_loop s i c r n = decode_loop s i (push_bit 1 c) (push_bit 6 r OR (b AND 0x3F)) n'"
proof -
  have "b AND 0xC0 = 0x80" using assms(4,5) iscont_bits by blast
  moreover have "c AND 0x40 \<noteq> 0" using assms(1) and_40 by blast
  ultimately show ?thesis using assms(2,3,6) by (subst decode_loop.simps) (simp add: not_le)
qed

lemma decode_next_Some:
  assumes "decode_loop s i c r n = Some x" "bit c 6"
  obtains b where "i + 1 + n < length s" "byte (s ! (i + 1 + n)) = b" "bit b 7" "\<not> bit b 6"
    "decode_loop s i (push_bit 1 c) (push_bit 6 r OR (b AND 0x3F)) (n + 1) = Some x"
proof -
  have "c AND 0x40 \<noteq> 0" using assms(2) and_40 by blast
  then have "\<not> length s \<le> i + 1 + n \<and> byte (s ! (i + 1 + n)) AND 0xC0 = 0x80"
    using assms(1) unfolding decode_loop.simps [of s i c r n] Let_def by (metis option.distinct(1))
  then have l: "i + 1 + n < length s" "byte (s ! (i + 1 + n)) AND 0xC0 = 0x80" by simp_all
  then have b: "bit (byte (s ! (i + 1 + n))) 7" "\<not> bit (byte (s ! (i + 1 + n))) 6" using iscont_bits by blast+
  from that [OF l(1) refl b] decode_next [OF assms(2) l(1) refl b refl] assms(1) show thesis by simp
qed

section \<open>Decoding what was encoded\<close>

lemmas enc_bits = bit_to_char bit_or_iff bit_and_iff bit_drop_bit_eq bit_consts

lemma cp_bits_21: "cp \<le> kMaxUnicode \<Longrightarrow> 21 \<le> n \<Longrightarrow> \<not> bit cp n"
  using less_exp_bits [of 21 cp] by (auto simp: kMaxUnicode_def word_le_nat_alt word_less_nat_alt)

lemma nth_enc: "k < length enc \<Longrightarrow> (pre @ enc @ post) ! (length pre + k) = enc ! k"
  by (simp add: nth_append)

lemma decode_finish:
  assumes "i < length s" "bit (byte (s ! i)) 7" "decode_loop s i (byte (s ! i)) 0 0 = Some (c', r, n)"
    and "r OR push_bit (n * 5) (c' AND 0x7F) = cp" "n \<le> 3" "cp \<le> kMaxUnicode" "\<not> cp \<le> utf8_limits ! n"
  shows "utf8_decode s i = Some (cp, n + 1)"
proof -
  have "\<not> byte (s ! i) < 0x80" using assms(2) byte_less_80 by blast
  then show ?thesis using assms unfolding utf8_decode_def Let_def by (simp add: not_le)
qed

lemma cont_bits: "bit (byte (to_char (0x80 OR (w AND 0x3F)))) 7" "\<not> bit (byte (to_char (0x80 OR (w AND 0x3F)))) 6"
  by (simp_all only: enc_bits) simp_all

lemma decode_encode:
  assumes "cp \<le> kMaxUnicode"
  shows "utf8_decode (pre @ utf8_encode cp @ post) (length pre) = Some (cp, length (utf8_encode cp))"
proof -
  let ?s = "pre @ utf8_encode cp @ post" and ?i = "length pre"
  note hi = cp_bits_21 [OF assms]
  have at0: "?s ! ?i = utf8_encode cp ! 0" using nth_enc [of 0 "utf8_encode cp"] by (simp add: utf8_encode_def)
  have at: "?s ! (?i + 1 + k) = utf8_encode cp ! (k + 1)" if "k + 1 < length (utf8_encode cp)" for k
    using nth_enc [OF that, of pre post] by (simp add: add.assoc add.commute)
  have len: "?i + 1 + k < length ?s" if "k + 1 < length (utf8_encode cp)" for k using that by simp
  have il: "?i < length ?s" by (simp add: utf8_encode_def)
  consider "cp < 0x80" | "\<not> cp < 0x80" "cp < 0x800" | "\<not> cp < 0x800" "cp < 0x10000" | "\<not> cp < 0x10000" by blast
  then show ?thesis
  proof cases
    case 1
    have "n < 8" if "bit cp n" for n
    proof (rule ccontr)
      assume "\<not> n < 8"
      then have "7 \<le> n" by simp
      with that 1 less_80 show False by blast
    qed
    then have "byte (?s ! ?i) = cp"
      using 1 unfolding at0 by (intro bit_word_eqI) (auto simp: utf8_encode_def enc_bits)
    then show ?thesis using 1 by (simp add: utf8_decode_def utf8_encode_def)
  next
    case 2
    then have e: "utf8_encode cp = [to_char (0xC0 OR drop_bit 6 cp), to_char (0x80 OR (cp AND 0x3F))]"
      by (simp add: utf8_encode_def)
    let ?c = "byte (to_char (0xC0 OR drop_bit 6 cp))" and ?b = "byte (to_char (0x80 OR (cp AND 0x3F)))"
    have "decode_loop ?s ?i ?c 0 0 = decode_loop ?s ?i (push_bit 1 ?c) (push_bit 6 0 OR (?b AND 0x3F)) 1"
      by (rule decode_next [OF _ len _ cont_bits]) (use at [of 0] e in \<open>simp_all add: enc_bits\<close>)
    also have "\<dots> = Some (push_bit 1 ?c, push_bit 6 0 OR (?b AND 0x3F), 1)"
      using 2 by (intro decode_stop) (simp only: bit_push_bit_iff enc_bits less_800, simp)
    finally have "decode_loop ?s ?i ?c 0 0 = Some (push_bit 1 ?c, push_bit 6 0 OR (?b AND 0x3F), 1)" .
    moreover have "(push_bit 6 0 OR (?b AND 0x3F)) OR push_bit (1 * 5) (push_bit 1 ?c AND 0x7F) = cp"
    proof (rule bit_word_eqI)
      fix n assume n: "n < LENGTH(32)"
      consider "n < 6" | "6 \<le> n" "n < 11" | "11 \<le> n" by linarith
      then show "bit ((push_bit 6 0 OR (?b AND 0x3F)) OR push_bit (1 * 5) (push_bit 1 ?c AND 0x7F)) n = bit cp n"
        using 2 n by cases (simp_all only: bit_push_bit_iff enc_bits less_800 bit_0_eq bot_apply, auto)
    qed
    moreover have "byte (?s ! ?i) = ?c" by (simp only: at0) (simp add: e)
    ultimately show ?thesis using decode_finish [OF il, of _ _ 1 cp] assms 2 e
      by (simp add: enc_bits utf8_limits_def limits_ge)
  next
    case 3
    then have e: "utf8_encode cp = [to_char (0xE0 OR drop_bit 12 cp), to_char (0x80 OR (drop_bit 6 cp AND 0x3F)),
         to_char (0x80 OR (cp AND 0x3F))]"
      using less_chain [of cp] by (auto simp: utf8_encode_def)
    let ?c = "byte (to_char (0xE0 OR drop_bit 12 cp))" and ?b = "byte (to_char (0x80 OR (drop_bit 6 cp AND 0x3F)))"
      and ?d = "byte (to_char (0x80 OR (cp AND 0x3F)))"
    have c1: "bit (push_bit 1 ?c) 6" by (simp only: bit_push_bit_iff enc_bits) simp
    let ?r = "push_bit 6 (push_bit 6 0 OR (?b AND 0x3F)) OR (?d AND 0x3F)"
    have "decode_loop ?s ?i ?c 0 0 = decode_loop ?s ?i (push_bit 1 ?c) (push_bit 6 0 OR (?b AND 0x3F)) 1"
      by (rule decode_next [OF _ len _ cont_bits]) (use at [of 0] e in \<open>simp_all add: enc_bits\<close>)
    also have "\<dots> = decode_loop ?s ?i (push_bit 1 (push_bit 1 ?c)) ?r 2"
      by (rule decode_next [OF c1 len _ cont_bits]) (use at [of 1] e in simp_all)
    also have "\<dots> = Some (push_bit 1 (push_bit 1 ?c), ?r, 2)"
      using 3 by (intro decode_stop) (simp only: bit_push_bit_iff enc_bits less_10000, simp)
    finally have l: "decode_loop ?s ?i ?c 0 0 = Some (push_bit 1 (push_bit 1 ?c), ?r, 2)" .
    moreover have "?r OR push_bit (2 * 5) (push_bit 1 (push_bit 1 ?c) AND 0x7F) = cp"
    proof (rule bit_word_eqI)
      fix n assume n: "n < LENGTH(32)"
      consider "n < 6" | "6 \<le> n" "n < 12" | "12 \<le> n" "n < 16" | "16 \<le> n" by linarith
      then show "bit (?r OR push_bit (2 * 5) (push_bit 1 (push_bit 1 ?c) AND 0x7F)) n = bit cp n"
        using 3 n by cases (simp_all only: bit_push_bit_iff enc_bits less_10000 bit_0_eq bot_apply, auto)
    qed
    moreover have "byte (?s ! ?i) = ?c" by (simp only: at0) (simp add: e)
    ultimately show ?thesis using decode_finish [OF il, of _ _ 2 cp] assms 3 e
      by (simp add: enc_bits utf8_limits_def limits_ge)
  next
    case 4
    then have e: "utf8_encode cp = [to_char (0xF0 OR drop_bit 18 cp), to_char (0x80 OR (drop_bit 12 cp AND 0x3F)),
         to_char (0x80 OR (drop_bit 6 cp AND 0x3F)), to_char (0x80 OR (cp AND 0x3F))]"
      using less_chain [of cp] by (auto simp: utf8_encode_def)
    let ?c = "byte (to_char (0xF0 OR drop_bit 18 cp))" and ?b = "byte (to_char (0x80 OR (drop_bit 12 cp AND 0x3F)))"
      and ?d = "byte (to_char (0x80 OR (drop_bit 6 cp AND 0x3F)))" and ?e = "byte (to_char (0x80 OR (cp AND 0x3F)))"
    have c1: "bit (push_bit 1 ?c) 6" by (simp only: bit_push_bit_iff enc_bits) simp
    have c2: "bit (push_bit 1 (push_bit 1 ?c)) 6" by (simp only: bit_push_bit_iff enc_bits) simp
    let ?r1 = "push_bit 6 0 OR (?b AND 0x3F)"
    let ?r2 = "push_bit 6 ?r1 OR (?d AND 0x3F)"
    let ?r = "push_bit 6 ?r2 OR (?e AND 0x3F)"
    have "decode_loop ?s ?i ?c 0 0 = decode_loop ?s ?i (push_bit 1 ?c) ?r1 1"
      by (rule decode_next [OF _ len _ cont_bits]) (use at [of 0] e in \<open>simp_all add: enc_bits\<close>)
    also have "\<dots> = decode_loop ?s ?i (push_bit 1 (push_bit 1 ?c)) ?r2 2"
      by (rule decode_next [OF c1 len _ cont_bits]) (use at [of 1] e in simp_all)
    also have "\<dots> = decode_loop ?s ?i (push_bit 1 (push_bit 1 (push_bit 1 ?c))) ?r 3"
      by (rule decode_next [OF c2 len _ cont_bits]) (use at [of 2] e in simp_all)
    also have "\<dots> = Some (push_bit 1 (push_bit 1 (push_bit 1 ?c)), ?r, 3)"
      using hi by (intro decode_stop) (simp only: bit_push_bit_iff enc_bits, simp)
    finally have "decode_loop ?s ?i ?c 0 0 = Some (push_bit 1 (push_bit 1 (push_bit 1 ?c)), ?r, 3)" .
    moreover have "?r OR push_bit (3 * 5) (push_bit 1 (push_bit 1 (push_bit 1 ?c)) AND 0x7F) = cp"
    proof (rule bit_word_eqI)
      fix n assume n: "n < LENGTH(32)"
      consider "n < 6" | "6 \<le> n" "n < 12" | "12 \<le> n" "n < 18" | "18 \<le> n" "n < 21" | "21 \<le> n" by linarith
      then show "bit (?r OR push_bit (3 * 5) (push_bit 1 (push_bit 1 (push_bit 1 ?c)) AND 0x7F)) n = bit cp n"
        using hi n by cases (simp_all only: bit_push_bit_iff enc_bits  bit_0_eq bot_apply, auto)
    qed
    moreover have "byte (?s ! ?i) = ?c" by (simp only: at0) (simp add: e)
    ultimately show ?thesis using decode_finish [OF il, of _ _ 3 cp] assms 4 e
      by (simp add: enc_bits utf8_limits_def limits_ge)
  qed
qed

section \<open>Only canonical sequences decode\<close>

lemma decode_loop_count: "decode_loop s i c r n = Some (c', r', m) \<Longrightarrow> n \<le> m"
proof (induction s i c r n rule: decode_loop.induct)
  case (1 s i c r n)
  show ?case
  proof (cases "bit c 6")
    case True
    with "1.prems" obtain b where b: "i + 1 + n < length s" "byte (s ! (i + 1 + n)) = b" "bit b 7" "\<not> bit b 6"
        "decode_loop s i (push_bit 1 c) (push_bit 6 r OR (b AND 0x3F)) (n + 1) = Some (c', r', m)"
      by (rule decode_next_Some)
    have "n + 1 \<le> m"
      by (rule "1.IH" [OF _ _ b(2) [symmetric]]) (use True b in \<open>simp_all add: and_40 iscont_bits\<close>)
    then show ?thesis by simp
  next
    case False
    with "1.prems" show ?thesis by (simp add: decode_stop)
  qed
qed

lemma bit_byte_hi [simp]: "8 \<le> n \<Longrightarrow> \<not> bit (byte c) n"
  using bit_byte [of c n] by auto

lemma byte_eqI: "(\<And>n. n < 8 \<Longrightarrow> bit (byte c) n = bit w n) \<Longrightarrow> to_char w = c"
proof -
  assume a: "\<And>n. n < 8 \<Longrightarrow> bit (byte c) n = bit w n"
  have "byte (to_char w) = byte c"
    by (rule bit_word_eqI) (use a bit_byte in \<open>auto simp: bit_to_char\<close>)
  then show ?thesis by (simp add: byte_inject)
qed

lemma byte_eqI8:
  assumes "\<And>n. n < 3 \<Longrightarrow> bit (byte c) n = bit w n"
    "bit (byte c) 3 = bit w 3" "bit (byte c) 4 = bit w 4" "bit (byte c) 5 = bit w 5" "bit (byte c) 6 = bit w 6" "bit (byte c) 7 = bit w 7"
  shows "to_char w = c"
proof (rule byte_eqI)
  fix n :: nat assume "n < 8"
  then consider "n < 3" | "n = 3" | "n = 4" | "n = 5" | "n = 6" | "n = 7" by linarith
  then show "bit (byte c) n = bit w n" by cases (use assms in simp_all)
qed

lemma cont_eqI:
  assumes "bit (byte b) 7" "\<not> bit (byte b) 6" "\<And>n. n < 6 \<Longrightarrow> bit (byte b) n = bit w n"
  shows "to_char (0x80 OR (w AND 0x3F)) = b"
proof (rule byte_eqI)
  fix n :: nat assume "n < 8"
  then consider "n < 6" | "n = 6" | "n = 7" by linarith
  then show "bit (byte b) n = bit (0x80 OR (w AND 0x3F)) n"
    by cases (simp_all only: bit_or_iff bit_and_iff bit_consts, use assms in auto)
qed

lemma canonical2:
  assumes c: "bit (byte c) 7" "bit (byte c) 6" "\<not> bit (byte c) 5" and b: "bit (byte b) 7" "\<not> bit (byte b) 6"
    and cp: "cp = (push_bit 6 0 OR (byte b AND 0x3F)) OR push_bit (1 * 5) (push_bit 1 (byte c) AND 0x7F)"
    and lim: "\<not> cp \<le> 0x7F"
  shows "utf8_encode cp = [c, b]"
proof -
  have bits: "bit cp n \<longleftrightarrow> (if n < 6 then bit (byte b) n else n < 11 \<and> bit (byte c) (n - 6))" for n
  proof -
    consider "n < 6" | "6 \<le> n" "n < 11" | "n = 11" | "12 \<le> n" by linarith
    then show ?thesis using c(3)
      by cases (simp_all only: cp bit_push_bit_iff bit_or_iff bit_and_iff bit_consts bit_0_eq bot_apply, auto)
  qed
  have "cp < 0x800" by (simp add: less_800 bits)
  moreover have "\<not> cp < 0x80" using lim by (simp add: limits_ge)
  moreover have "to_char (0xC0 OR drop_bit 6 cp) = c"
    by (rule byte_eqI8) (simp_all only: enc_bits comp_apply bits, use c in auto)
  moreover have "to_char (0x80 OR (cp AND 0x3F)) = b"
    by (rule cont_eqI) (use b bits in auto)
  ultimately show ?thesis by (simp add: utf8_encode_def)
qed

lemma canonical3:
  assumes c: "bit (byte c) 7" "bit (byte c) 6" "bit (byte c) 5" "\<not> bit (byte c) 4"
    and b: "bit (byte b) 7" "\<not> bit (byte b) 6" and d: "bit (byte d) 7" "\<not> bit (byte d) 6"
    and cp: "cp = (push_bit 6 (push_bit 6 0 OR (byte b AND 0x3F)) OR (byte d AND 0x3F)) OR
      push_bit (2 * 5) (push_bit 1 (push_bit 1 (byte c)) AND 0x7F)"
    and lim: "\<not> cp \<le> 0x7FF"
  shows "utf8_encode cp = [c, b, d]"
proof -
  have bits: "bit cp n \<longleftrightarrow> (if n < 6 then bit (byte d) n else if n < 12 then bit (byte b) (n - 6)
      else n < 16 \<and> bit (byte c) (n - 12))" for n
  proof -
    consider "n < 6" | "6 \<le> n" "n < 12" | "12 \<le> n" "n < 16" | "n = 16" | "17 \<le> n" by linarith
    then show ?thesis using c(4)
      by cases (simp_all only: cp bit_push_bit_iff bit_or_iff bit_and_iff bit_consts bit_0_eq bot_apply, auto)
  qed
  have "cp < 0x10000" by (simp add: less_10000 bits)
  moreover have "\<not> cp < 0x800" "\<not> cp < 0x80" using lim less_chain [of cp] by (auto simp: limits_ge)
  moreover have "to_char (0xE0 OR drop_bit 12 cp) = c"
    by (rule byte_eqI8) (simp_all only: enc_bits comp_apply bits, use c in auto)
  moreover have "to_char (0x80 OR (drop_bit 6 cp AND 0x3F)) = b"
    by (rule cont_eqI) (use b bits in \<open>auto simp: bit_drop_bit_eq\<close>)
  moreover have "to_char (0x80 OR (cp AND 0x3F)) = d"
    by (rule cont_eqI) (use d bits in auto)
  ultimately show ?thesis by (simp add: utf8_encode_def)
qed

lemma canonical4:
  assumes c: "bit (byte c) 7" "bit (byte c) 6" "bit (byte c) 5" "bit (byte c) 4" "\<not> bit (byte c) 3"
    and b: "bit (byte b) 7" "\<not> bit (byte b) 6" and d: "bit (byte d) 7" "\<not> bit (byte d) 6"
    and e: "bit (byte e) 7" "\<not> bit (byte e) 6"
    and cp: "cp = (push_bit 6 (push_bit 6 (push_bit 6 0 OR (byte b AND 0x3F)) OR (byte d AND 0x3F)) OR (byte e AND 0x3F)) OR
      push_bit (3 * 5) (push_bit 1 (push_bit 1 (push_bit 1 (byte c))) AND 0x7F)"
    and lim: "\<not> cp \<le> 0xFFFF"
  shows "utf8_encode cp = [c, b, d, e]"
proof -
  have bits: "bit cp n \<longleftrightarrow> (if n < 6 then bit (byte e) n else if n < 12 then bit (byte d) (n - 6)
      else if n < 18 then bit (byte b) (n - 12) else n < 21 \<and> bit (byte c) (n - 18))" for n
  proof -
    consider "n < 6" | "6 \<le> n" "n < 12" | "12 \<le> n" "n < 18" | "18 \<le> n" "n < 21" | "n = 21" | "22 \<le> n" by linarith
    then show ?thesis using c(5)
      by cases (simp_all only: cp bit_push_bit_iff bit_or_iff bit_and_iff bit_consts bit_0_eq bot_apply, auto)
  qed
  have "\<not> cp < 0x10000" "\<not> cp < 0x800" "\<not> cp < 0x80" using lim less_chain [of cp] by (auto simp: limits_ge)
  moreover have "to_char (0xF0 OR drop_bit 18 cp) = c"
    by (rule byte_eqI8) (simp_all only: enc_bits comp_apply bits, use c in auto)
  moreover have "to_char (0x80 OR (drop_bit 12 cp AND 0x3F)) = b"
    by (rule cont_eqI) (use b bits in \<open>auto simp: bit_drop_bit_eq\<close>)
  moreover have "to_char (0x80 OR (drop_bit 6 cp AND 0x3F)) = d"
    by (rule cont_eqI) (use d bits in \<open>auto simp: bit_drop_bit_eq\<close>)
  moreover have "to_char (0x80 OR (cp AND 0x3F)) = e"
    by (rule cont_eqI) (use e bits in auto)
  ultimately show ?thesis by (simp add: utf8_encode_def)
qed

lemma bit_shl: "bit (push_bit 1 (w :: u32)) 6 = bit w 5" "bit (push_bit 1 (push_bit 1 (w :: u32))) 6 = bit w 4"
  "bit (push_bit 1 (push_bit 1 (push_bit 1 (w :: u32)))) 6 = bit w 3"
  by (simp_all only: bit_push_bit_iff) simp_all

lemma decode_Some_cases:
  assumes "utf8_decode s i = Some (cp, n)"
  obtains "i < length s" "byte (s ! i) < 0x80" "cp = byte (s ! i)" "n = 1"
  | c' r where "i < length s" "bit (byte (s ! i)) 7" "decode_loop s i (byte (s ! i)) 0 0 = Some (c', r, n - 1)"
    "0 < n" "n - 1 \<le> 3" "cp = r OR push_bit ((n - 1) * 5) (c' AND 0x7F)" "cp \<le> kMaxUnicode" "\<not> cp \<le> utf8_limits ! (n - 1)"
  using assms byte_less_80 [of "s ! i"]
  by (auto simp: utf8_decode_def Let_def not_le not_less split: if_splits option.splits prod.splits)

lemma take_drop_nth:
  "i + n < length s \<Longrightarrow> take (Suc n) (drop i s) = take n (drop i s) @ [s ! (i + n)]"
  by (simp add: take_Suc_conv_app_nth)

lemma decode_canonical:
  assumes "utf8_decode s i = Some (cp, n)"
  shows "cp \<le> kMaxUnicode \<and> 0 < n \<and> i + n \<le> length s \<and> take n (drop i s) = utf8_encode cp"
  using assms
proof (cases rule: decode_Some_cases)
  case 1
  then have "cp \<le> kMaxUnicode" by (simp add: kMaxUnicode_def word_le_nat_alt word_less_nat_alt)
  moreover have "utf8_encode cp = [s ! i]" using 1 by (simp add: utf8_encode_def to_char_byte)
  ultimately show ?thesis using 1 take_drop_nth [of i 0 s] by simp
next
  case (2 c' r)
  let ?c = "byte (s ! i)" and ?b = "byte (s ! (i + 1))" and ?d = "byte (s ! (i + 2))" and ?e = "byte (s ! (i + 3))"
  have t: "i + 1 < length s \<Longrightarrow> take 2 (drop i s) = [s ! i, s ! (i + 1)]"
    "i + 2 < length s \<Longrightarrow> take 3 (drop i s) = [s ! i, s ! (i + 1), s ! (i + 2)]"
    "i + 3 < length s \<Longrightarrow> take 4 (drop i s) = [s ! i, s ! (i + 1), s ! (i + 2), s ! (i + 3)]"
    using take_drop_nth [of i 0 s] take_drop_nth [of i 1 s] take_drop_nth [of i 2 s] take_drop_nth [of i 3 s] 2(1)
    by (simp_all add: numeral_eq_Suc)
  show ?thesis
  proof (cases "bit ?c 6")
    case False
    with 2(3) have "n - 1 = 0" "c' = ?c" "r = 0" by (simp_all add: decode_stop)
    then have "cp = ?c AND 0x7F" using 2(6) by simp
    then have "cp \<le> 0x7F" by (simp only: word_and_le1)
    then have "cp \<le> utf8_limits ! (n - 1)" using \<open>n - 1 = 0\<close> by (auto simp: utf8_limits_def word_le_nat_alt)
    with 2(8) show ?thesis by blast
  next
    case c6: True
    from 2(3) c6 obtain b where b: "i + 1 + 0 < length s" "byte (s ! (i + 1 + 0)) = b" "bit b 7" "\<not> bit b 6"
      "decode_loop s i (push_bit 1 ?c) (push_bit 6 0 OR (b AND 0x3F)) (0 + 1) = Some (c', r, n - 1)"
      by (rule decode_next_Some)
    then have b': "i + 1 < length s" "?b = b" by simp_all
    show ?thesis
    proof (cases "bit ?c 5")
      case False
      then have n: "n - 1 = 1" "c' = push_bit 1 ?c" "r = push_bit 6 0 OR (b AND 0x3F)"
        using b(5) decode_stop [of "push_bit 1 ?c"] bit_shl(1) [of ?c] by simp_all
      then have n2: "n = 2" by simp
      have "utf8_encode cp = [s ! i, s ! (i + 1)]"
        by (rule canonical2) (use 2 c6 False b b' n in \<open>simp_all add: utf8_limits_def del: push_bit_of_Suc_0\<close>)
      then show ?thesis using 2(7) t(1) b' by (simp add: n2)
    next
      case c5: True
      with b(5) bit_shl(1) obtain d where d: "i + 1 + (0 + 1) < length s" "byte (s ! (i + 1 + (0 + 1))) = d" "bit d 7" "\<not> bit d 6"
        "decode_loop s i (push_bit 1 (push_bit 1 ?c)) (push_bit 6 (push_bit 6 0 OR (b AND 0x3F)) OR (d AND 0x3F)) (0 + 1 + 1) = Some (c', r, n - 1)"
        by (metis decode_next_Some)
      then have d': "i + 2 < length s" "?d = d" by simp_all
      show ?thesis
      proof (cases "bit ?c 4")
        case False
        then have n: "n - 1 = 2" "c' = push_bit 1 (push_bit 1 ?c)"
            "r = push_bit 6 (push_bit 6 0 OR (b AND 0x3F)) OR (d AND 0x3F)"
          using d(5) decode_stop [of "push_bit 1 (push_bit 1 ?c)"] bit_shl(2) [of ?c] by simp_all
        then have n3: "n = 3" by simp
        have "utf8_encode cp = [s ! i, s ! (i + 1), s ! (i + 2)]"
          by (rule canonical3)
            (use 2 c6 c5 False b b' d d' n in \<open>simp_all only: utf8_limits_def, simp_all add: numeral_2_eq_2 del: push_bit_of_Suc_0\<close>)
        then show ?thesis using 2(7) t(2) d' by (simp add: n3)
      next
        case c4: True
        with d(5) bit_shl(2) obtain e where e: "i + 1 + (0 + 1 + 1) < length s" "byte (s ! (i + 1 + (0 + 1 + 1))) = e" "bit e 7" "\<not> bit e 6"
          "decode_loop s i (push_bit 1 (push_bit 1 (push_bit 1 ?c)))
             (push_bit 6 (push_bit 6 (push_bit 6 0 OR (b AND 0x3F)) OR (d AND 0x3F)) OR (e AND 0x3F)) (0 + 1 + 1 + 1) = Some (c', r, n - 1)"
          by (metis decode_next_Some)
        then have e': "i + 3 < length s" "?e = e" by (simp_all add: numeral_3_eq_3)
        have c3: "\<not> bit ?c 3"
        proof
          assume "bit ?c 3"
          with e(5) bit_shl(3) obtain f where
            "decode_loop s i (push_bit 1 (push_bit 1 (push_bit 1 (push_bit 1 ?c)))) f (0 + 1 + 1 + 1 + 1) = Some (c', r, n - 1)"
            by (metis decode_next_Some)
          from decode_loop_count [OF this] 2(5) show False by simp
        qed
        then have n: "n - 1 = 3" "c' = push_bit 1 (push_bit 1 (push_bit 1 ?c))"
            "r = push_bit 6 (push_bit 6 (push_bit 6 0 OR (b AND 0x3F)) OR (d AND 0x3F)) OR (e AND 0x3F)"
          using e(5) decode_stop [of "push_bit 1 (push_bit 1 (push_bit 1 ?c))"] bit_shl(3) [of ?c] by simp_all
        then have n4: "n = 4" by simp
        have "utf8_encode cp = [s ! i, s ! (i + 1), s ! (i + 2), s ! (i + 3)]"
          by (rule canonical4)
            (use 2 c6 c5 c4 c3 b b' d d' e e' n in \<open>simp_all only: utf8_limits_def, simp_all add: numeral_3_eq_3 del: push_bit_of_Suc_0\<close>)
        then show ?thesis using 2(7) t(3) e' by (simp add: n4)
      qed
    qed
  qed
qed

lemma utf8_encode_length: "0 < length (utf8_encode cp)" "length (utf8_encode cp) \<le> 4"
  by (simp_all add: utf8_encode_def)

text \<open>C10: the decoder accepts exactly the encoder's output: a code point of at most \<open>10FFFF\<close> is decoded
  at a position, with a byte count, exactly when the bytes there are its encoding. So overlong
  forms, stray continuation bytes, truncated sequences and sequences of five or more bytes are
  all refused, and encoding followed by decoding is the identity.\<close>

theorem utf8_decode_inverts_encode:
  "utf8_decode s i = Some (cp, n) \<longleftrightarrow>
     cp \<le> kMaxUnicode \<and> n = length (utf8_encode cp) \<and> take n (drop i s) = utf8_encode cp"
proof
  assume d: "utf8_decode s i = Some (cp, n)"
  note c = decode_canonical [OF d]
  have "length (take n (drop i s)) = min (length s - i) n" by simp
  moreover have "n \<le> length s - i" using c by linarith
  ultimately have "length (take n (drop i s)) = n" by simp
  with c show "cp \<le> kMaxUnicode \<and> n = length (utf8_encode cp) \<and> take n (drop i s) = utf8_encode cp" by simp
next
  assume a: "cp \<le> kMaxUnicode \<and> n = length (utf8_encode cp) \<and> take n (drop i s) = utf8_encode cp"
  then have "drop i s \<noteq> []" using utf8_encode_length(1) [of cp] by (metis take_Nil list.size(3) less_irrefl)
  then have i: "length (take i s) = i" by simp
  have "s = take i s @ utf8_encode cp @ drop n (drop i s)" using a by (metis append_take_drop_id)
  with decode_encode [of cp "take i s" "drop n (drop i s)"] a i show "utf8_decode s i = Some (cp, n)" by metis
qed

section \<open>Strings of characters\<close>

definition utf8_text :: "u32 list \<Rightarrow> string" where
  "utf8_text cps = concat (map utf8_encode cps)"

lemma utf8_text_simps [simp]: "utf8_text [] = []" "utf8_text (cp # cps) = utf8_encode cp @ utf8_text cps"
  by (simp_all add: utf8_text_def)

lemma codepoint_loop_text:
  "\<forall>cp \<in> set cps. cp \<le> kMaxUnicode \<Longrightarrow>
    codepoint_loop (pre @ utf8_text cps) (length pre) (length pre + length (utf8_text cps)) = Inr cps"
proof (induction cps arbitrary: pre)
  case (Cons cp cps)
  let ?s = "pre @ utf8_text (cp # cps)"
  have d: "utf8_decode ?s (length pre) = Some (cp, length (utf8_encode cp))"
    using decode_encode [of cp pre "utf8_text cps"] Cons.prems by simp
  have "codepoint_loop ?s (length pre + length (utf8_encode cp)) (length pre + length (utf8_text (cp # cps))) = Inr cps"
    using Cons.IH [of "pre @ utf8_encode cp"] Cons.prems by (simp add: add.assoc)
  with d utf8_encode_length [of cp] show ?case by (subst codepoint_loop.simps) simp
qed (simp add: codepoint_loop.simps)

lemma len_loop_text:
  "\<forall>cp \<in> set cps. cp \<le> kMaxUnicode \<Longrightarrow>
    len_loop (pre @ utf8_text cps) (length pre) (int (length pre + length (utf8_text cps)) - 1) n = Inr (n + length cps)"
proof (induction cps arbitrary: pre n)
  case (Cons cp cps)
  let ?s = "pre @ utf8_text (cp # cps)"
  have d: "utf8_decode ?s (length pre) = Some (cp, length (utf8_encode cp))"
    using decode_encode [of cp pre "utf8_text cps"] Cons.prems by simp
  have "len_loop ?s (length pre + length (utf8_encode cp)) (int (length pre + length (utf8_text (cp # cps))) - 1) (n + 1)
      = Inr (n + 1 + length cps)"
    using Cons.IH [of "pre @ utf8_encode cp" "n + 1"] Cons.prems by (simp add: algebra_simps)
  moreover have "int (length pre) \<le> int (length pre + length (utf8_text (cp # cps))) - 1"
    using utf8_encode_length(1) [of cp] by (simp only: utf8_text_simps length_append)
  ultimately show ?case using d utf8_encode_length(1) [of cp]
    unfolding len_loop.simps [of ?s "length pre"] by (simp only: if_True option.case prod.case) simp
qed (simp add: len_loop.simps)

lemma ucast_cp:
  assumes "cp \<le> kMaxUnicode"
  shows "0 \<le> sint (ucast cp :: u64)" "(ucast (ucast cp :: u64) :: u32) = cp"
proof -
  have "uint cp < 2 ^ 63" using assms by (simp add: kMaxUnicode_def word_le_def)
  then have "signed_take_bit 63 (uint cp) = uint cp"
    by (intro signed_take_bit_int_eq_self) (simp_all add: order_trans [OF _ uint_ge_0])
  then have "sint (ucast cp :: u64) = uint cp" by (simp add: signed_ucast_eq)
  then show "0 \<le> sint (ucast cp :: u64)" by simp
  show "(ucast (ucast cp :: u64) :: u32) = cp" by (rule bit_word_eqI) (simp add: bit_simps)
qed

lemma char_loop_text:
  "\<forall>cp \<in> set cps. cp \<le> kMaxUnicode \<Longrightarrow>
    char_loop E (pre @ map (\<lambda>cp. VInt (ucast cp)) cps) (length pre + 1) (length cps) = Inr (utf8_text cps)"
proof (induction cps arbitrary: pre)
  case (Cons cp cps)
  let ?as = "pre @ map (\<lambda>cp. VInt (ucast cp)) (cp # cps)"
  have "check_int E ?as (length pre + 1) = Inr (ucast cp)"
    by (rule check_int_ok) simp_all
  moreover have "char_loop E ?as (length pre + 1 + 1) (length cps) = Inr (utf8_text cps)"
    using Cons.IH [of "pre @ [VInt (ucast cp)]"] Cons.prems by simp
  ultimately show ?case using Cons.prems ucast_cp [of cp] by (simp add: not_less)
qed simp

text \<open>The library functions invert each other on text: \<open>utf8.char\<close> applied to valid code points
  yields their encoding, \<open>utf8.len\<close> of that string is their number and \<open>utf8.codepoint\<close> from its
  first to its last byte returns them in order.\<close>

theorem utf8_char_codepoint_len:
  assumes v: "\<forall>cp \<in> set cps. cp \<le> kMaxUnicode" and s: "ls_data (le_heap E p) = utf8_text cps"
    and l: "length (utf8_text cps) < 2147483647"
  shows "utf8_char E (map (\<lambda>cp. VInt (ucast cp)) cps) = Inr [LStr (utf8_text cps)] \<and>
    utf8_len E [VString p] = Inr [LVal (VInt (of_nat (length cps)))] \<and>
    utf8_codepoint E [VString p, VInt 1, VInt (- 1)] = Inr (map (\<lambda>cp. LVal (VInt (ucast cp))) cps)"
proof (intro conjI)
  show "utf8_char E (map (\<lambda>cp. VInt (ucast cp)) cps) = Inr [LStr (utf8_text cps)]"
    using char_loop_text [OF v, of E "[]"] by (simp add: utf8_char_def)
  have r: "u_posrelat (- 1) n = int n" for n by (simp add: u_posrelat_def)
  show "utf8_len E [VString p] = Inr [LVal (VInt (of_nat (length cps)))]"
    using len_loop_text [OF v, of "[]" 0] s r
    by (auto simp: utf8_len_def check_string_ok pos_arg_def Let_def u_posrelat_def)
  have sint1: "sint (1 :: u64) = 1" "sint (- 1 :: u64) = - 1" by simp_all
  have cs: "check_string E [VString p, VInt 1, VInt (- 1)] 1 = Inr p"
    "check_int E [VString p, VInt 1, VInt (- 1)] 2 = Inr 1" "check_int E [VString p, VInt 1, VInt (- 1)] 3 = Inr (- 1)"
    by (simp_all add: check_string_ok check_int_ok)
  show "utf8_codepoint E [VString p, VInt 1, VInt (- 1)] = Inr (map (\<lambda>cp. LVal (VInt (ucast cp))) cps)"
  proof (cases "cps = []")
    case True
    then show ?thesis using s cs by (simp add: utf8_codepoint_def pos_arg_def Let_def u_posrelat_def)
  next
    case False
    then have "0 < length (utf8_text cps)" using utf8_encode_length by (cases cps) (simp_all add: trans_less_add1)
    with codepoint_loop_text [OF v, of "[]"] s cs l show ?thesis
      by (simp add: utf8_codepoint_def pos_arg_def Let_def u_posrelat_def)
  qed
qed

text \<open>Two characters, one of two bytes.\<close>

definition E_text :: "string \<Rightarrow> lib_env" where
  "E_text s = E0\<lparr>le_heap := (\<lambda>_. \<lparr>ls_hash = 0, ls_data = s\<rparr>)\<rparr>"

theorem utf8_char_codepoint_len_witness:
  "utf8_codepoint (E_text (utf8_text [0x41, 0xE9])) [VString 0, VInt 1, VInt (- 1)] = Inr [LVal (VInt 0x41), LVal (VInt 0xE9)]"
  using utf8_char_codepoint_len [of "[0x41, 0xE9]" "E_text (utf8_text [0x41, 0xE9])" 0]
  by (simp add: E_text_def kMaxUnicode_def utf8_encode_def)

text \<open>\<open>utf8.char\<close> truncates its argument to 32 bits before it checks the range: the code
  \<open>2^32\<close> is not refused but encoded as the zero byte.\<close>

theorem utf8_char_truncates: "utf8_char E [VInt 0x100000000] = Inr [LStr [CHR 0x00]]"
proof -
  have "check_int E [VInt 0x100000000] 1 = Inr 0x100000000" by (rule check_int_ok) simp_all
  moreover have "(0x100000000 :: u32) = 0" by simp
  moreover have "to_char 0x100000000 = CHR 0x00" by (simp add: to_char_def char_of_def)
  ultimately show ?thesis by (simp add: utf8_char_def utf8_encode_def kMaxUnicode_def)
qed

end
