(* ===== verification/Lt_TableInv.thy ===== *)
theory Lt_TableInv
  imports Lt_Table
begin

text \<open>
  Correctness of the tables of \<open>Lt_Table\<close>: the invariant of the open-addressing hash part
  (every key sits on an unbroken probe chain, no key twice, keys in normal form, no key that
  belongs to the array part), its preservation by every write, and the refinement: a table is a
  finite map from normalised keys to values.
\<close>

section \<open>Normal keys\<close>

definition norm_key :: "tvalue \<Rightarrow> bool" where
  "norm_key k \<longleftrightarrow> k \<noteq> VNil \<and>
     (case k of VFloat d \<Rightarrow> \<not> isnan d \<and> float_to_integer d = None | _ \<Rightarrow> True)"

lemma norm_key_simps [simp]:
  "\<not> norm_key VNil" "norm_key (VInt n)" "norm_key (VString s)" "norm_key (VBool b)"
  "norm_key (VFloat d) \<longleftrightarrow> \<not> isnan d \<and> float_to_integer d = None"
  by (simp_all add: norm_key_def)

lemma float_no_int_nonzero: "\<not> isnan d \<Longrightarrow> float_to_integer d = None \<Longrightarrow> f_num d \<noteq> 0"
  using float_to_integerI [of d 0] by auto

lemma values_equal_norm: "norm_key k \<Longrightarrow> norm_key k' \<Longrightarrow> values_equal k k' \<longleftrightarrow> k = k'"
proof (cases k; cases k')
  fix d d' assume "norm_key k" "norm_key k'" and k: "k = VFloat d" "k' = VFloat d'"
  then have "f_num d = f_num d' \<Longrightarrow> d = d'" using float_no_int_nonzero f_num_inj by auto
  with \<open>norm_key k\<close> \<open>norm_key k'\<close> k show ?thesis by (auto simp: values_equal_def f_eq_def)
qed (auto simp: values_equal_def is_number_def split: option.splits)

lemma values_equal_nil: "norm_key k \<Longrightarrow> \<not> values_equal VNil k"
  by (cases k) (auto simp: values_equal_def is_number_def)

lemma values_equal_nan: "isnan d \<Longrightarrow> \<not> values_equal k (VFloat d)"
  by (cases k) (auto simp: values_equal_def is_number_def f_eq_def float_to_integer_exact split: option.splits)

lemma lookup_key_norm: "bad_key k = None \<Longrightarrow> norm_key (lookup_key k)"
  by (cases k)
    (auto simp: lookup_key_def bad_key_def norm_key_def key_as_integer_float
      simp del: key_as_integer.simps(2) split: option.splits if_splits)

section \<open>The invariant of the hash part\<close>

definition holds :: "table_node list \<Rightarrow> nat \<Rightarrow> tvalue \<Rightarrow> bool" where
  "holds h s k \<longleftrightarrow> s < length h \<and> tn_used (h ! s) \<and> tn_key (h ! s) = k"

definition before :: "str_heap \<Rightarrow> table_node list \<Rightarrow> tvalue \<Rightarrow> nat \<Rightarrow> nat list" where
  "before H h k s = takeWhile (\<lambda>x. x \<noteq> s) (probe_seq (length h) (hash_key H k (length h)))"

definition node_ok :: "table_node \<Rightarrow> bool" where
  "node_ok n \<longleftrightarrow> norm_key (tn_key n) \<or> tn_key n = VNil \<and> tn_value n = VNil"

definition hash_inv :: "str_heap \<Rightarrow> table_node list \<Rightarrow> bool" where
  "hash_inv H h \<longleftrightarrow>
     (\<forall>n \<in> set h. tn_used n \<longrightarrow> node_ok n) \<and>
     (\<forall>s k. holds h s k \<longrightarrow> norm_key k \<longrightarrow> (\<forall>x \<in> set (before H h k s). tn_used (h ! x))) \<and>
     (\<forall>s s' k. holds h s k \<longrightarrow> holds h s' k \<longrightarrow> norm_key k \<longrightarrow> s = s')"

lemma hash_invD:
  assumes "hash_inv H h"
  shows "holds h s k \<Longrightarrow> norm_key k \<or> k = VNil \<and> tn_value (h ! s) = VNil"
    and "holds h s k \<Longrightarrow> norm_key k \<Longrightarrow> x \<in> set (before H h k s) \<Longrightarrow> tn_used (h ! x)"
    and "holds h s k \<Longrightarrow> holds h s' k \<Longrightarrow> norm_key k \<Longrightarrow> s = s'"
  using assms by (auto simp: hash_inv_def node_ok_def holds_def)

lemma get_loop_probe:
  "get_loop h k ss = (case raw_probe h k ss of PFound s \<Rightarrow> tn_value (h ! s) | _ \<Rightarrow> VNil)"
  by (induction ss) auto

lemma raw_probe_append:
  "\<forall>x \<in> set xs. tn_used (h ! x) \<and> \<not> values_equal (tn_key (h ! x)) k \<Longrightarrow>
    raw_probe h k (xs @ ys) = raw_probe h k ys"
  by (induction xs) auto

lemma takeWhile_split: "s \<in> set ss \<Longrightarrow> \<exists>ys. ss = takeWhile (\<lambda>x. x \<noteq> s) ss @ s # ys"
  by (induction ss) auto

lemma raw_probe_before:
  "raw_probe h k ss = PUnused s \<Longrightarrow> \<forall>x \<in> set (takeWhile (\<lambda>x. x \<noteq> s) ss). tn_used (h ! x)"
  by (induction ss) (auto split: if_splits)

abbreviation key_seq :: "str_heap \<Rightarrow> table_node list \<Rightarrow> tvalue \<Rightarrow> nat list" where
  "key_seq H h k \<equiv> probe_seq (length h) (hash_key H k (length h))"

lemma used_key_eq:
  assumes "hash_inv H h" "norm_key k" "x < length h" "tn_used (h ! x)"
  shows "values_equal (tn_key (h ! x)) k \<longleftrightarrow> holds h x k"
proof -
  have "holds h x (tn_key (h ! x))" using assms by (simp add: holds_def)
  from hash_invD(1) [OF assms(1) this] show ?thesis
    using assms values_equal_norm [of "tn_key (h ! x)" k] values_equal_nil [of k]
    by (auto simp: holds_def)
qed

lemma raw_probe_holds:
  assumes inv: "hash_inv H h" and k: "norm_key k" and s: "holds h s k"
  shows "raw_probe h k (key_seq H h k) = PFound s"
proof -
  let ?ss = "key_seq H h k"
  have len: "s < length h" "0 < length h" using s by (auto simp: holds_def)
  then have "s \<in> set ?ss" by (simp only: set_probe_seq lessThan_iff)
  from takeWhile_split [OF this] obtain ys where split: "?ss = before H h k s @ s # ys"
    unfolding before_def by (rule exE)
  have bf: "x \<noteq> s \<and> x < length h" if "x \<in> set (before H h k s)" for x
    using set_takeWhileD [OF that [unfolded before_def]] probe_seq_bound by blast
  have "\<forall>x \<in> set (before H h k s). tn_used (h ! x) \<and> \<not> values_equal (tn_key (h ! x)) k"
  proof
    fix x assume x: "x \<in> set (before H h k s)"
    with hash_invD(2) [OF inv s k] have u: "tn_used (h ! x)" by blast
    have "\<not> holds h x k" using hash_invD(3) [OF inv _ s k] bf [OF x] by blast
    with used_key_eq [OF inv k _ u] bf [OF x] u
    show "tn_used (h ! x) \<and> \<not> values_equal (tn_key (h ! x)) k" by blast
  qed
  then have "raw_probe h k ?ss = raw_probe h k (s # ys)"
    unfolding split by (rule raw_probe_append)
  moreover have "values_equal (tn_key (h ! s)) k"
    using used_key_eq [OF inv k len(1)] s by (simp add: holds_def)
  ultimately show ?thesis using s by (simp add: holds_def)
qed

lemma raw_probe_found:
  assumes inv: "hash_inv H h" and k: "norm_key k" and p: "raw_probe h k (key_seq H h k) = PFound s"
  shows "holds h s k"
  using raw_probe_slot(2) [OF p] probe_seq_bound used_key_eq [OF inv k] by blast

section \<open>Reading the hash part\<close>

lemma hash_get_holds:
  "hash_inv H h \<Longrightarrow> norm_key k \<Longrightarrow> holds h s k \<Longrightarrow> hash_get H h k = tn_value (h ! s)"
  using raw_probe_holds [of H h k s] by (auto simp: hash_get_def get_loop_probe holds_def)

lemma hash_get_absent:
  assumes "hash_inv H h" "norm_key k" "\<And>s. \<not> holds h s k"
  shows "hash_get H h k = VNil"
  using raw_probe_found [OF assms(1,2)] assms(3)
  by (auto simp: hash_get_def get_loop_probe split: probe.splits)

lemma hash_get_not_norm:
  assumes inv: "hash_inv H h" and k: "\<not> norm_key k" "key_as_integer k = None"
  shows "hash_get H h k = VNil"
proof -
  have "tn_value (h ! s) = VNil" if "raw_probe h k (key_seq H h k) = PFound s" for s
  proof -
    from raw_probe_slot(2) [OF that] probe_seq_bound
    have s: "holds h s (tn_key (h ! s))" "values_equal (tn_key (h ! s)) k" by (auto simp: holds_def)
    show ?thesis
    proof (cases k)
      case (VFloat d)
      with k have "isnan d" by (auto simp: key_as_integer_float simp del: key_as_integer.simps(2))
      with s VFloat show ?thesis using values_equal_nan by blast
    next
      case VNil
      with s have "tn_key (h ! s) = VNil"
        by (cases "tn_key (h ! s)") (auto simp: values_equal_def is_number_def)
      with hash_invD(1) [OF inv s(1)] show ?thesis by auto
    qed (use k in \<open>auto simp: norm_key_def\<close>)
  qed
  then show ?thesis by (auto simp: hash_get_def get_loop_probe split: probe.splits)
qed

section \<open>Writing a slot\<close>

lemma before_update [simp]: "before H (h[d := n]) k s = before H h k s"
  by (simp add: before_def)

lemma holds_update:
  "d < length h \<Longrightarrow> holds (h[d := n]) s k \<longleftrightarrow> (if s = d then tn_used n \<and> tn_key n = k else holds h s k)"
  by (auto simp: holds_def)

lemma hash_inv_put:
  assumes inv: "hash_inv H h" and k: "norm_key k" and d: "d < length h"
    and absent: "\<And>s. \<not> holds h s k" and chain: "\<forall>x \<in> set (before H h k d). tn_used (h ! x)"
  shows "hash_inv H (h[d := \<lparr>tn_key = k, tn_value = v, tn_used = True\<rparr>])" (is "hash_inv H ?h")
proof -
  have "node_ok n" if "n \<in> set ?h" "tn_used n" for n
  proof -
    from set_update_subset_insert that(1)
    have "n = \<lparr>tn_key = k, tn_value = v, tn_used = True\<rparr> \<or> n \<in> set h" by fast
    with inv that(2) k show ?thesis by (auto simp: hash_inv_def node_ok_def)
  qed
  moreover have "tn_used (?h ! x)" if "holds ?h s k'" "norm_key k'" "x \<in> set (before H ?h k' s)" for s k' x
  proof -
    have "tn_used (h ! x)"
      using that chain hash_invD(2) [OF inv] by (auto simp: holds_update [OF d] split: if_splits)
    then show ?thesis by (cases "x = d") (use d in \<open>simp_all add: nth_list_update\<close>)
  qed
  moreover have "s = s'" if "holds ?h s k'" "holds ?h s' k'" "norm_key k'" for s s' k'
    using that absent hash_invD(3) [OF inv] by (auto simp: holds_update [OF d] split: if_splits)
  ultimately show ?thesis unfolding hash_inv_def by blast
qed

lemma hash_get_put:
  assumes inv: "hash_inv H h" and k: "norm_key k" and d: "d < length h"
    and absent: "\<And>s. \<not> holds h s k" and chain: "\<forall>x \<in> set (before H h k d). tn_used (h ! x)"
    and old: "\<not> tn_used (h ! d) \<or> tn_value (h ! d) = VNil" and k': "norm_key k'"
  shows "hash_get H (h[d := \<lparr>tn_key = k, tn_value = v, tn_used = True\<rparr>]) k'
    = (if k' = k then v else hash_get H h k')" (is "hash_get H ?h k' = _")
proof -
  note inv' = hash_inv_put [OF inv k d absent chain, of v]
  note upd = holds_update [OF d]
  show ?thesis
  proof (cases "k' = k")
    case True
    then have "holds ?h d k'" by (simp add: upd)
    with hash_get_holds [OF inv' k'] True d show ?thesis by simp
  next
    case False
    show ?thesis
    proof (cases "\<exists>s. s \<noteq> d \<and> holds h s k'")
      case True
      then obtain s where s: "s \<noteq> d" "holds h s k'" by blast
      then have "holds ?h s k'" by (simp add: upd)
      with hash_get_holds [OF inv' k'] hash_get_holds [OF inv k' s(2)] s \<open>k' \<noteq> k\<close> show ?thesis by simp
    next
      case no: False
      then have "\<not> holds ?h s k'" for s using False by (auto simp: upd)
      then have "hash_get H ?h k' = VNil" using hash_get_absent [OF inv' k'] by blast
      moreover have "hash_get H h k' = VNil"
      proof (cases "holds h d k'")
        case True
        with old have "tn_value (h ! d) = VNil" by (auto simp: holds_def)
        with hash_get_holds [OF inv k' True] show ?thesis by simp
      next
        case False
        with no have "\<not> holds h s k'" for s by auto
        then show ?thesis using hash_get_absent [OF inv k'] by blast
      qed
      ultimately show ?thesis using \<open>k' \<noteq> k\<close> by simp
    qed
  qed
qed

lemma hash_put_value:
  assumes inv: "hash_inv H h" and k: "norm_key k" and s: "holds h s k"
  shows "hash_inv H (h[s := (h ! s)\<lparr>tn_value := v\<rparr>])"
    and "norm_key k' \<Longrightarrow>
      hash_get H (h[s := (h ! s)\<lparr>tn_value := v\<rparr>]) k' = (if k' = k then v else hash_get H h k')"
proof -
  let ?h = "h[s := (h ! s)\<lparr>tn_value := v\<rparr>]"
  have d: "s < length h" using s by (simp add: holds_def)
  have hs: "holds ?h x k'' \<longleftrightarrow> holds h x k''" for x k''
    using s by (cases "x = s") (auto simp: holds_def)
  have us: "tn_used (?h ! x) = tn_used (h ! x)" for x
    by (cases "x = s") (use d in \<open>simp_all add: nth_list_update\<close>)
  have nd: "node_ok n" if "n \<in> set ?h" "tn_used n" for n
  proof -
    from that(1) set_update_subset_insert have "n = (h ! s)\<lparr>tn_value := v\<rparr> \<or> n \<in> set h" by fast
    with inv that(2) s k show ?thesis by (auto simp: hash_inv_def node_ok_def holds_def)
  qed
  show inv': "hash_inv H ?h"
    using inv nd unfolding hash_inv_def by (simp add: hs us)
  assume k': "norm_key k'"
  show "hash_get H ?h k' = (if k' = k then v else hash_get H h k')"
  proof (cases "\<exists>x. holds h x k'")
    case True
    then obtain x where x: "holds h x k'" by blast
    then have "holds ?h x k'" by (simp add: hs)
    with hash_get_holds [OF inv' k'] have e: "hash_get H ?h k' = tn_value (?h ! x)" by simp
    have "x = s" if "k' = k" using hash_invD(3) [OF inv x _ k'] s that by blast
    moreover have "k' = k" if "x = s" using x s that by (simp add: holds_def)
    ultimately have "x = s \<longleftrightarrow> k' = k" by blast
    with e hash_get_holds [OF inv k' x] d show ?thesis by (auto simp: nth_list_update)
  next
    case False
    then have "k' \<noteq> k" using s by blast
    moreover have "hash_get H ?h k' = VNil" using hash_get_absent [OF inv' k'] False hs by simp
    moreover have "hash_get H h k' = VNil" using hash_get_absent [OF inv k'] False by simp
    ultimately show ?thesis by simp
  qed
qed

section \<open>The write loop\<close>

lemma set_probe_tomb:
  "set_probe h k tomb ss = (p, Some d) \<Longrightarrow>
    tomb = Some d \<or> (d \<in> set ss \<and> tn_value (h ! d) = VNil \<and>
      (\<forall>x \<in> set (takeWhile (\<lambda>x. x \<noteq> d) ss). tn_used (h ! x)))"
proof (induction ss arbitrary: tomb)
  case (Cons s ss)
  show ?case
  proof (cases "\<not> tn_used (h ! s) \<or> values_equal (tn_key (h ! s)) k")
    case True
    with Cons.prems show ?thesis by (auto split: if_splits)
  next
    case False
    with Cons.prems have "set_probe h k (if tomb = None \<and> is_nil (tn_value (h ! s)) then Some s else tomb) ss = (p, Some d)"
      by simp
    from Cons.IH [OF this] False show ?thesis
      by (auto simp: is_nil_def split: if_splits)
  qed
qed simp

text \<open>A key the probe does not find is nowhere in the hash part.\<close>

lemma raw_probe_absent:
  assumes "hash_inv H h" "norm_key k" "\<And>s. raw_probe h k (key_seq H h k) \<noteq> PFound s"
  shows "\<not> holds h s k"
  using raw_probe_holds [OF assms(1,2)] assms(3) by blast

lemma set_hash_correct:
  assumes inv: "hash_inv H (t_hash t)" and k: "norm_key k"
    and w: "set_hash H k v t = Written (t', b)"
  shows "hash_inv H (t_hash t')" "t_array t' = t_array t" "length (t_hash t') = length (t_hash t)"
    and "norm_key k' \<Longrightarrow> hash_get H (t_hash t') k' = (if k' = k then v else hash_get H (t_hash t) k')"
    and "holds (t_hash t') s k' \<Longrightarrow> k' = k \<or> holds (t_hash t) s k'"
proof -
  let ?h = "t_hash t"
  let ?ss = "key_seq H ?h k"
  obtain p tomb where sp: "set_probe ?h k None ?ss = (p, tomb)" by (cases "set_probe ?h k None ?ss")
  then have rp: "raw_probe ?h k ?ss = p" using fst_set_probe [of ?h k None ?ss] by simp
  let ?goal = "hash_inv H (t_hash t') \<and> t_array t' = t_array t \<and> length (t_hash t') = length (t_hash t) \<and>
    (\<forall>k'. norm_key k' \<longrightarrow> hash_get H (t_hash t') k' = (if k' = k then v else hash_get H ?h k')) \<and>
    (\<forall>s k'. holds (t_hash t') s k' \<longrightarrow> k' = k \<or> holds ?h s k')"
  have put: ?goal
    if d: "d < length ?h" and ab: "\<And>s. \<not> holds ?h s k" and ch: "\<forall>x \<in> set (before H ?h k d). tn_used (?h ! x)"
      and old: "\<not> tn_used (?h ! d) \<or> tn_value (?h ! d) = VNil"
      and t': "t' = bump_version (put_node t d k v)" for d
    using hash_inv_put [OF inv k d ab ch, of v] hash_get_put [OF inv k d ab ch old] holds_update [OF d]
    by (auto simp: t' put_node_def bump_version_def)
  have keep: ?goal if ab: "\<And>s. \<not> holds ?h s k" and "v = VNil" "t' = t"
    using that inv hash_get_absent [OF inv k ab] by auto
  have tombs: "d < length ?h \<and> (\<forall>x \<in> set (before H ?h k d). tn_used (?h ! x)) \<and> tn_value (?h ! d) = VNil"
    if "tomb = Some d" for d
  proof -
    have "set_probe ?h k None ?ss = (p, Some d)" using sp that by simp
    from set_probe_tomb [OF this] show ?thesis
      using probe_seq_bound [of d] unfolding before_def by blast
  qed
  have ?goal
  proof (cases p)
    case (PFound s)
    with rp have s: "holds ?h s k" using raw_probe_found [OF inv k] by blast
    have t': "t' = put_value t s v" using w sp PFound by (simp add: set_hash_def)
    have "holds (t_hash t') x k' \<longleftrightarrow> holds ?h x k'" for x k'
      using s by (cases "x = s") (auto simp: t' put_value_def holds_def)
    with hash_put_value(1) [OF inv k s, of v] hash_put_value(2) [OF inv k s, where v = v]
    show ?thesis by (auto simp: t' put_value_def)
  next
    case (PUnused s)
    have ab: "\<And>s. \<not> holds ?h s k" using raw_probe_absent [OF inv k] rp PUnused by simp
    note slot = raw_probe_slot(1) [OF rp [unfolded PUnused]]
    have s: "s < length ?h" "\<not> tn_used (?h ! s)"
      using slot probe_seq_bound [OF conjunct1 [OF slot]] by blast+
    have ch: "\<forall>x \<in> set (before H ?h k s). tn_used (?h ! x)"
      using raw_probe_before [of ?h k ?ss s] rp PUnused by (simp add: before_def)
    show ?thesis
    proof (cases "is_nil v")
      case True
      then have "t' = t" using w sp PUnused by (simp add: set_hash_def)
      from keep [OF ab True [unfolded is_nil_def] this] show ?thesis .
    next
      case False
      then have "t' = bump_version (put_node t (case tomb of Some d \<Rightarrow> d | None \<Rightarrow> s) k v)"
        using w sp PUnused by (simp add: set_hash_def)
      then have t': "tomb = None \<Longrightarrow> t' = bump_version (put_node t s k v)"
        "\<And>d. tomb = Some d \<Longrightarrow> t' = bump_version (put_node t d k v)" by simp_all
      show ?thesis
      proof (cases tomb)
        case None
        from put [OF s(1) ab ch disjI1 [OF s(2)] t'(1) [OF None]] show ?thesis .
      next
        case (Some d)
        note tb = tombs [OF Some]
        from tb have d: "d < length ?h" "\<forall>x \<in> set (before H ?h k d). tn_used (?h ! x)" "tn_value (?h ! d) = VNil"
          by blast+
        from put [OF d(1) ab d(2) disjI2 [OF d(3)] t'(2) [OF Some]] show ?thesis .
      qed
    qed
  next
    case PFull
    have ab: "\<And>s. \<not> holds ?h s k" using raw_probe_absent [OF inv k] rp PFull by simp
    show ?thesis
    proof (cases "is_nil v")
      case True
      then have "t' = t" using w sp PFull by (simp add: set_hash_def)
      from keep [OF ab True [unfolded is_nil_def] this] show ?thesis .
    next
      case False
      then obtain d where "tomb = Some d" "t' = bump_version (put_node t d k v)"
        using w sp PFull by (auto simp: set_hash_def split: option.splits)
      then have d: "d < length ?h" "\<forall>x \<in> set (before H ?h k d). tn_used (?h ! x)" "tn_value (?h ! d) = VNil"
          "t' = bump_version (put_node t d k v)"
        using tombs [of d] by blast+
      from put [OF d(1) ab d(2) disjI2 [OF d(3)] d(4)] show ?thesis .
    qed
  qed
  then show "hash_inv H (t_hash t')" "t_array t' = t_array t" "length (t_hash t') = length (t_hash t)"
    and "norm_key k' \<Longrightarrow> hash_get H (t_hash t') k' = (if k' = k then v else hash_get H (t_hash t) k')"
    and "holds (t_hash t') s k' \<Longrightarrow> k' = k \<or> holds (t_hash t) s k'"
    by blast+
qed

section \<open>Rebuilding the hash part\<close>

lemma raw_insert_hash_fresh:
  assumes inv: "hash_inv H (t_hash t)" and k: "norm_key k" and ab: "\<And>s. \<not> holds (t_hash t) s k"
    and free: "count_used (t_hash t) < length (t_hash t)"
  obtains s where "s < length (t_hash t)" "raw_insert_hash H k v t = Inr (put_node t s k v, [k, v])"
    "hash_inv H (t_hash (put_node t s k v))"
    "\<And>k'. norm_key k' \<Longrightarrow> hash_get H (t_hash (put_node t s k v)) k' = (if k' = k then v else hash_get H (t_hash t) k')"
    "\<And>s' k'. holds (t_hash (put_node t s k v)) s' k' \<Longrightarrow> k' = k \<or> holds (t_hash t) s' k'"
proof -
  let ?h = "t_hash t"
  let ?ss = "key_seq H ?h k"
  have "raw_probe ?h k ?ss \<noteq> PFull" using raw_probe_not_full [OF free] .
  moreover have "raw_probe ?h k ?ss \<noteq> PFound s" for s using raw_probe_found [OF inv k] ab by blast
  ultimately obtain s where p: "raw_probe ?h k ?ss = PUnused s" by (cases "raw_probe ?h k ?ss") auto
  have s: "s < length ?h" "\<not> tn_used (?h ! s)"
    using raw_probe_slot(1) [OF p] probe_seq_bound by blast+
  have ch: "\<forall>x \<in> set (before H ?h k s). tn_used (?h ! x)"
    using raw_probe_before [OF p] by (simp add: before_def)
  have "k' = k \<or> holds ?h s' k'" if "holds (t_hash (put_node t s k v)) s' k'" for s' k'
    using that by (auto simp: put_node_def holds_update [OF s(1)] split: if_splits)
  moreover have "raw_insert_hash H k v t = Inr (put_node t s k v, [k, v])"
    using p by (simp add: raw_insert_hash_def)
  moreover have "hash_inv H (t_hash (put_node t s k v))"
    using hash_inv_put [OF inv k s(1) ab ch, of v] by (simp add: put_node_def)
  moreover have "hash_get H (t_hash (put_node t s k v)) k' = (if k' = k then v else hash_get H ?h k')"
    if "norm_key k'" for k'
    using hash_get_put [OF inv k s(1) ab ch disjI1 [OF s(2)] that, of v] by (simp add: put_node_def)
  ultimately show thesis using that [OF s(1)] by blast
qed

lemma raw_insert_all_hash:
  assumes "distinct (map fst kvs)" "\<forall>kv \<in> set kvs. norm_key (fst kv) \<and> snd kv \<noteq> VNil \<and>
      (\<forall>i. fst kv = VInt i \<longrightarrow> array_slot (t_array t) i = None)"
    and "hash_inv H (t_hash t)" "\<forall>kv \<in> set kvs. \<forall>s. \<not> holds (t_hash t) s (fst kv)"
    and "count_used (t_hash t) + length kvs < length (t_hash t)"
  shows "\<exists>t' b. raw_insert_all H kvs t = Inr (t', b) \<and> hash_inv H (t_hash t') \<and> t_array t' = t_array t \<and>
    (\<forall>k. norm_key k \<longrightarrow> hash_get H (t_hash t') k = (case map_of kvs k of Some v \<Rightarrow> v | None \<Rightarrow> hash_get H (t_hash t) k)) \<and>
    (\<forall>s k. holds (t_hash t') s k \<longrightarrow> k \<in> fst ` set kvs \<or> holds (t_hash t) s k)"
  using assms
proof (induction kvs arbitrary: t)
  case Nil
  then show ?case by simp
next
  case (Cons kv kvs)
  obtain k v where kv: "kv = (k, v)" by (cases kv)
  have k: "norm_key k" "v \<noteq> VNil" using Cons.prems(2) kv by auto
  have "key_as_integer k = (case k of VInt i \<Rightarrow> Some i | _ \<Rightarrow> None)"
    using k(1) by (cases k) (simp_all add: key_as_integer_float del: key_as_integer.simps(2))
  then have ins: "raw_insert H kv t = raw_insert_hash H k v t"
    using Cons.prems(2) kv k by (cases k) (auto simp: raw_insert_def is_nil_def)
  have ab: "\<And>s. \<not> holds (t_hash t) s k" using Cons.prems(4) kv by auto
  have free: "count_used (t_hash t) < length (t_hash t)" using Cons.prems(5) by simp
  obtain s where s: "s < length (t_hash t)" "raw_insert_hash H k v t = Inr (put_node t s k v, [k, v])"
      "hash_inv H (t_hash (put_node t s k v))"
      "\<And>k'. norm_key k' \<Longrightarrow> hash_get H (t_hash (put_node t s k v)) k' = (if k' = k then v else hash_get H (t_hash t) k')"
      "\<And>s' k'. holds (t_hash (put_node t s k v)) s' k' \<Longrightarrow> k' = k \<or> holds (t_hash t) s' k'"
    using raw_insert_hash_fresh [OF Cons.prems(3) k(1) ab free, of v] by metis
  let ?t = "put_node t s k v"
  have "\<exists>t' b. raw_insert_all H kvs ?t = Inr (t', b) \<and> hash_inv H (t_hash t') \<and> t_array t' = t_array ?t \<and>
    (\<forall>k. norm_key k \<longrightarrow> hash_get H (t_hash t') k = (case map_of kvs k of Some v \<Rightarrow> v | None \<Rightarrow> hash_get H (t_hash ?t) k)) \<and>
    (\<forall>s k. holds (t_hash t') s k \<longrightarrow> k \<in> fst ` set kvs \<or> holds (t_hash ?t) s k)"
  proof (rule Cons.IH)
    show "distinct (map fst kvs)" using Cons.prems(1) by simp
    show "\<forall>kv \<in> set kvs. norm_key (fst kv) \<and> snd kv \<noteq> VNil \<and> (\<forall>i. fst kv = VInt i \<longrightarrow> array_slot (t_array ?t) i = None)"
      using Cons.prems(2) by simp
    show "hash_inv H (t_hash ?t)" by (rule s(3))
    show "\<forall>kv \<in> set kvs. \<forall>s'. \<not> holds (t_hash ?t) s' (fst kv)"
    proof (intro ballI allI notI)
      fix p s' assume p: "p \<in> set kvs" "holds (t_hash ?t) s' (fst p)"
      from s(5) [OF p(2)] Cons.prems(4) p(1) have "fst p = k" by auto
      with Cons.prems(1) kv p(1) show False by (auto simp: image_iff)
    qed
    show "count_used (t_hash ?t) + length kvs < length (t_hash ?t)"
      using Cons.prems(5) count_used_put_node [OF s(1), of k v] by simp
  qed
  then obtain t' b where r: "raw_insert_all H kvs ?t = Inr (t', b)" "hash_inv H (t_hash t')" "t_array t' = t_array t"
      "\<And>k. norm_key k \<Longrightarrow> hash_get H (t_hash t') k = (case map_of kvs k of Some v \<Rightarrow> v | None \<Rightarrow> hash_get H (t_hash ?t) k)"
      "\<And>s k. holds (t_hash t') s k \<Longrightarrow> k \<in> fst ` set kvs \<or> holds (t_hash ?t) s k"
    by auto
  have "k \<notin> fst ` set kvs" using Cons.prems(1) kv by auto
  then have "map_of kvs k = None" by (simp add: map_of_eq_None_iff)
  then have "hash_get H (t_hash t') k'' = (case map_of (kv # kvs) k'' of Some v \<Rightarrow> v | None \<Rightarrow> hash_get H (t_hash t) k'')"
    if "norm_key k''" for k''
    using r(4) [OF that] s(4) [OF that] kv by (auto split: option.splits)
  moreover have "raw_insert_all H (kv # kvs) t = Inr (t', [k, v] @ b)" using ins s(2) r(1) by simp
  moreover have "k'' \<in> fst ` set (kv # kvs) \<or> holds (t_hash t) s' k''" if "holds (t_hash t') s' k''" for s' k''
    using r(5) [OF that] s(5) kv by auto
  ultimately show ?case using r(2,3) by blast
qed

section \<open>The invariant of a table\<close>

definition in_array_range :: "tvalue list \<Rightarrow> u64 \<Rightarrow> bool" where
  "in_array_range arr i \<longleftrightarrow> 1 \<le> sint i \<and> (sint i \<le> 64 \<or> nat (sint i) \<le> length arr)"

definition table_inv :: "str_heap \<Rightarrow> table \<Rightarrow> bool" where
  "table_inv H t \<longleftrightarrow>
     hash_inv H (t_hash t) \<and>
     (\<forall>s i. holds (t_hash t) s (VInt i) \<longrightarrow> \<not> in_array_range (t_array t) i) \<and>
     length (t_array t) < 2 ^ 63"

lemma array_slot_range: "array_slot arr i = Some s \<Longrightarrow> in_array_range arr i \<and> s < length arr"
  by (auto simp: array_slot_def in_array_range_def split: if_splits)

lemma hash_items_alt:
  "hash_items h = map (\<lambda>n. (tn_key n, tn_value n)) (filter (\<lambda>n. tn_used n \<and> \<not> is_nil (tn_value n)) h)"
  by (induction h) (auto simp: hash_items_def)

lemma hash_items_mem:
  "(k, v) \<in> set (hash_items h) \<longleftrightarrow> v \<noteq> VNil \<and> (\<exists>s. holds h s k \<and> tn_value (h ! s) = v)"
proof
  assume "(k, v) \<in> set (hash_items h)"
  then obtain n where n: "n \<in> set h" "tn_used n" "tn_key n = k" "tn_value n = v" "v \<noteq> VNil"
    by (auto simp: hash_items_alt is_nil_def)
  then obtain s where "s < length h" "h ! s = n" by (meson in_set_conv_nth)
  with n show "v \<noteq> VNil \<and> (\<exists>s. holds h s k \<and> tn_value (h ! s) = v)" by (auto simp: holds_def)
next
  assume "v \<noteq> VNil \<and> (\<exists>s. holds h s k \<and> tn_value (h ! s) = v)"
  then obtain s where "s < length h" "tn_used (h ! s)" "tn_key (h ! s) = k" "tn_value (h ! s) = v" "v \<noteq> VNil"
    by (auto simp: holds_def)
  then show "(k, v) \<in> set (hash_items h)"
    by (auto simp: hash_items_alt is_nil_def intro!: image_eqI [of _ _ "h ! s"])
qed

lemma hash_items_map:
  assumes inv: "hash_inv H h" and k: "norm_key k"
  shows "hash_get H h k = (case map_of (hash_items h) k of Some v \<Rightarrow> v | None \<Rightarrow> VNil)"
proof -
  note mem = hash_items_mem [of _ _ h]
  show ?thesis
  proof (cases "map_of (hash_items h) k")
    case None
    then have "k \<notin> fst ` set (hash_items h)" by (simp add: map_of_eq_None_iff)
    then have nil: "tn_value (h ! s) = VNil" if "holds h s k" for s
      using that mem [of k "tn_value (h ! s)"] by (force simp: image_iff)
    show ?thesis
    proof (cases "\<exists>s. holds h s k")
      case True
      then show ?thesis using None nil hash_get_holds [OF inv k] by auto
    next
      case False
      then show ?thesis using None hash_get_absent [OF inv k] by auto
    qed
  next
    case (Some v)
    then have "(k, v) \<in> set (hash_items h)" by (rule map_of_SomeD)
    then obtain s where "holds h s k" "tn_value (h ! s) = v" using mem by blast
    with Some hash_get_holds [OF inv k] show ?thesis by auto
  qed
qed

lemma distinct_hash_items:
  assumes inv: "hash_inv H h"
  shows "distinct (map fst (hash_items h))"
proof -
  have *: "norm_key (tn_key n)" if "n \<in> set h" "tn_used n" "\<not> is_nil (tn_value n)" for n
    using that inv by (auto simp: hash_inv_def node_ok_def is_nil_def)
  have "map fst (hash_items h) = map tn_key (filter (\<lambda>n. tn_used n \<and> \<not> is_nil (tn_value n)) h)"
    by (simp add: hash_items_alt comp_def)
  also have "distinct \<dots>"
  proof (rule distinct_map_filter_nth)
    fix i j assume ij: "i < length h" "j < length h" "tn_used (h ! i) \<and> \<not> is_nil (tn_value (h ! i))"
      "tn_used (h ! j) \<and> \<not> is_nil (tn_value (h ! j))" "tn_key (h ! i) = tn_key (h ! j)"
    then have "holds h i (tn_key (h ! i))" "holds h j (tn_key (h ! i))" by (auto simp: holds_def)
    moreover have "norm_key (tn_key (h ! i))" using * [of "h ! i"] ij by simp
    ultimately show "i = j" using hash_invD(3) [OF inv] by blast
  qed
  finally show ?thesis .
qed

lemma raw_insert_all_append:
  "raw_insert_all H (xs @ ys) t =
    rbind (raw_insert_all H xs t)
      (\<lambda>(t', b). rbind (raw_insert_all H ys t') (\<lambda>(t'', b'). Inr (t'', b @ b')))"
proof (induction xs arbitrary: t)
  case Nil
  show ?case by (cases "raw_insert_all H ys t") (auto split: prod.splits)
next
  case (Cons x xs)
  then show ?case
    by (cases "raw_insert H x t") (auto simp: rbind_def split: sum.splits prod.splits)
qed

definition array_prefix_items :: "tvalue list \<Rightarrow> nat \<Rightarrow> (tvalue \<times> tvalue) list" where
  "array_prefix_items arr n =
     [(VInt (word_of_int (int i + 1)), arr ! i). i \<leftarrow> [0..<n], \<not> is_nil (arr ! i)]"

lemma array_prefix_items_Suc:
  "array_prefix_items arr (Suc n) = array_prefix_items arr n @
     (if is_nil (arr ! n) then [] else [(VInt (word_of_int (int n + 1)), arr ! n)])"
  by (simp add: array_prefix_items_def)

lemma array_slot_index:
  assumes "n < length arr" "length arr < 2 ^ 63"
  shows "array_slot arr (word_of_int (int n + 1)) = Some n"
proof -
  have "sint (word_of_int (int n + 1) :: u64) = int n + 1"
  proof (rule sint_of_int_64)
    have "n < 2 ^ 63 - 1" using assms by linarith
    then have "int n < int (2 ^ 63 - 1)" by (simp only: of_nat_less_iff)
    then show "int n + 1 < 2 ^ 63" by simp
    show "- (2 ^ 63) \<le> int n + 1" by simp
  qed
  moreover have "nat (int n + 1) = Suc n" by simp
  ultimately show ?thesis using assms(1) by (simp only: array_slot_def) simp
qed

lemma raw_insert_array_prefix:
  assumes "n \<le> length arr" "length arr < 2 ^ 63" "t_array t = replicate (length arr) VNil"
  shows "\<exists>t' b. raw_insert_all H (array_prefix_items arr n) t = Inr (t', b) \<and> t_hash t' = t_hash t \<and>
    t_array t' = take n arr @ replicate (length arr - n) VNil"
  using assms(1)
proof (induction n)
  case 0
  then show ?case using assms(3) by (simp add: array_prefix_items_def)
next
  case (Suc n)
  then obtain t' b where IH: "raw_insert_all H (array_prefix_items arr n) t = Inr (t', b)" "t_hash t' = t_hash t"
      "t_array t' = take n arr @ replicate (length arr - n) VNil" by auto
  have len: "length (t_array t') = length arr" using IH(3) Suc.prems by simp
  have rep: "replicate (length arr - n) VNil = VNil # replicate (length arr - Suc n) VNil"
    using Suc.prems by (simp add: Suc_diff_Suc flip: replicate_Suc)
  have tk: "take (Suc n) arr = take n arr @ [arr ! n]" using Suc.prems by (simp add: take_Suc_conv_app_nth)
  show ?case
  proof (cases "is_nil (arr ! n)")
    case True
    then show ?thesis using IH rep tk by (simp add: array_prefix_items_Suc is_nil_def)
  next
    case False
    have "array_slot (t_array t') (word_of_int (int n + 1)) = Some n"
      using array_slot_index [of n "t_array t'"] len Suc.prems assms(2) by simp
    then have "raw_insert H (VInt (word_of_int (int n + 1)), arr ! n) t' = Inr (put_array t' n (arr ! n), [arr ! n])"
      using False by (simp add: raw_insert_def)
    moreover have "(t_array t')[n := arr ! n] = take (Suc n) arr @ replicate (length arr - Suc n) VNil"
      using IH(3) rep tk Suc.prems by (simp add: list_update_append)
    ultimately show ?thesis using IH False
      by (simp add: array_prefix_items_Suc raw_insert_all_append)
  qed
qed

lemma raw_insert_array_items:
  assumes "length arr < 2 ^ 63" "t_array t = replicate (length arr) VNil"
  shows "\<exists>t' b. raw_insert_all H (array_items arr) t = Inr (t', b) \<and> t_hash t' = t_hash t \<and> t_array t' = arr"
  using raw_insert_array_prefix [OF order_refl assms] by (simp add: array_items_def array_prefix_items_def)

lemma hash_inv_fresh: "hash_inv H (replicate n empty_node)"
  by (auto simp: hash_inv_def holds_def empty_node_def)

lemma not_holds_fresh [simp]: "\<not> holds (replicate n empty_node) s k"
  by (auto simp: holds_def empty_node_def)

text \<open>A rehash that keeps the array part's size never runs out of slots and changes no entry.\<close>

lemma rehash_correct:
  assumes inv: "table_inv H t"
  obtains t' b where "rehash H t (length (t_array t)) hh = Inr (t', b)" "table_inv H t'"
    "t_array t' = t_array t" "\<And>k. norm_key k \<Longrightarrow> hash_get H (t_hash t') k = hash_get H (t_hash t) k"
    "count_used (t_hash t') < length (t_hash t')"
proof -
  let ?items = "array_items (t_array t) @ hash_items (t_hash t)"
  define hs where "hs = grow_pow2 8 (max hh (length ?items + 1))"
  define t0 where "t0 = bump_version (t\<lparr>t_array := replicate (length (t_array t)) VNil, t_hash := replicate hs empty_node\<rparr>)"
  have hinv: "hash_inv H (t_hash t)" and alen: "length (t_array t) < 2 ^ 63"
    and rng: "\<And>s i. holds (t_hash t) s (VInt i) \<Longrightarrow> \<not> in_array_range (t_array t) i"
    using inv by (auto simp: table_inv_def)
  have hs: "length ?items < hs" using grow_pow2_ge [of 8 "max hh (length ?items + 1)"] by (simp add: hs_def)
  have t0: "t_array t0 = replicate (length (t_array t)) VNil" "t_hash t0 = replicate hs empty_node"
    by (simp_all add: t0_def)
  obtain t1 b1 where t1: "raw_insert_all H (array_items (t_array t)) t0 = Inr (t1, b1)"
      "t_hash t1 = replicate hs empty_node" "t_array t1 = t_array t"
    using raw_insert_array_items [OF alen t0(1), of H] t0(2) by auto
  have items: "norm_key (fst kv) \<and> snd kv \<noteq> VNil \<and> (\<exists>s. holds (t_hash t) s (fst kv))"
    if "kv \<in> set (hash_items (t_hash t))" for kv
  proof -
    obtain k v where kv: "kv = (k, v)" by (cases kv)
    with that hash_items_mem obtain s where "v \<noteq> VNil" "holds (t_hash t) s k" "tn_value (t_hash t ! s) = v" by blast
    with kv hash_invD(1) [OF hinv] show ?thesis by auto
  qed
  have "\<exists>t' b. raw_insert_all H (hash_items (t_hash t)) t1 = Inr (t', b) \<and> hash_inv H (t_hash t') \<and> t_array t' = t_array t1 \<and>
    (\<forall>k. norm_key k \<longrightarrow> hash_get H (t_hash t') k = (case map_of (hash_items (t_hash t)) k of Some v \<Rightarrow> v | None \<Rightarrow> hash_get H (t_hash t1) k)) \<and>
    (\<forall>s k. holds (t_hash t') s k \<longrightarrow> k \<in> fst ` set (hash_items (t_hash t)) \<or> holds (t_hash t1) s k)"
  proof (rule raw_insert_all_hash)
    show "distinct (map fst (hash_items (t_hash t)))" by (rule distinct_hash_items [OF hinv])
    show "\<forall>kv \<in> set (hash_items (t_hash t)). norm_key (fst kv) \<and> snd kv \<noteq> VNil \<and>
      (\<forall>i. fst kv = VInt i \<longrightarrow> array_slot (t_array t1) i = None)"
      using items rng array_slot_range t1(3) by (metis not_None_eq)
    show "hash_inv H (t_hash t1)" "\<forall>kv \<in> set (hash_items (t_hash t)). \<forall>s. \<not> holds (t_hash t1) s (fst kv)"
      by (simp_all add: t1(2) hash_inv_fresh)
    show "count_used (t_hash t1) + length (hash_items (t_hash t)) < length (t_hash t1)"
      using hs by (simp add: t1(2))
  qed
  then obtain t' b where r: "raw_insert_all H (hash_items (t_hash t)) t1 = Inr (t', b)" "hash_inv H (t_hash t')"
      "t_array t' = t_array t"
      "\<And>k. norm_key k \<Longrightarrow> hash_get H (t_hash t') k = (case map_of (hash_items (t_hash t)) k of Some v \<Rightarrow> v | None \<Rightarrow> hash_get H (t_hash t1) k)"
      "\<And>s k. holds (t_hash t') s k \<Longrightarrow> k \<in> fst ` set (hash_items (t_hash t))"
    by (auto simp: t1)
  have get0: "hash_get H (t_hash t1) k = VNil" if "norm_key k" for k
    using hash_get_absent [OF _ that] hash_inv_fresh by (simp add: t1(2))
  have re: "rehash H t (length (t_array t)) hh = Inr (t', b1 @ b)"
    using t1(1) r(1) unfolding rehash_def Let_def hs_def [symmetric] t0_def [symmetric]
    by (simp add: raw_insert_all_append)
  have "table_inv H t'"
    using r items rng alen by (fastforce simp: table_inv_def)
  moreover have "hash_get H (t_hash t') k = hash_get H (t_hash t) k" if "norm_key k" for k
    using r(4) [OF that] get0 [OF that] hash_items_map [OF hinv that] by (simp split: option.splits)
  ultimately show thesis using that [OF re _ r(3) _ rehash_free [OF re]] by blast
qed

section \<open>A table is a map\<close>

text \<open>Reading through normalised keys.\<close>

definition norm_get :: "str_heap \<Rightarrow> table \<Rightarrow> tvalue \<Rightarrow> tvalue" where
  "norm_get H t k =
     (case k of
        VInt i \<Rightarrow> (case array_slot (t_array t) i of Some s \<Rightarrow> t_array t ! s | None \<Rightarrow> hash_get H (t_hash t) k)
      | _ \<Rightarrow> hash_get H (t_hash t) k)"

lemma key_as_integer_cases:
  obtains i where "key_as_integer k = Some i" "lookup_key k = VInt i"
  | "key_as_integer k = None" "lookup_key k = k" "\<And>i. k \<noteq> VInt i"
proof (cases "key_as_integer k")
  case None
  then have "lookup_key k = k" "\<And>i. k \<noteq> VInt i" by (auto simp: lookup_key_def)
  with None that(2) show thesis by blast
qed (use that(1) in \<open>auto simp: lookup_key_def\<close>)

lemma table_get_norm: "table_get H t k = norm_get H t (lookup_key k)"
  by (rule key_as_integer_cases [of k])
    (auto simp: table_get_def norm_get_def split: tvalue.splits)

lemma table_get_bad_key:
  "table_inv H t \<Longrightarrow> bad_key k \<noteq> None \<Longrightarrow> table_get H t k = VNil"
  using hash_get_not_norm [of H "t_hash t" k]
  by (cases k) (auto simp: table_inv_def table_get_def bad_key_def split: if_splits)

text \<open>Array writes: the array part may grow over absent integer keys only.\<close>

lemma norm_get_put_array:
  assumes "array_slot (t_array t) i = Some s"
  shows "norm_get H (put_array t s v) k = (if k = VInt i then v else norm_get H t k)"
proof -
  have "sint j = int s + 1" if "array_slot (t_array t) j = Some s" for j
    using that by (auto simp: array_slot_def split: if_splits)
  then have other: "j = i" if "array_slot (t_array t) j = Some s" for j
    using that assms sint_inject_64 [of j i] by simp
  have sl: "array_slot ((t_array t)[s := v]) j = array_slot (t_array t) j" for j by (simp add: array_slot_def)
  have "s < length (t_array t)" using array_slot_range [OF assms] by simp
  then have upd: "(t_array t)[s := v] ! s = v" by simp
  show ?thesis
  proof (cases "\<exists>j. k = VInt j")
    case True
    then obtain j where j: "k = VInt j" by blast
    show ?thesis
    proof (cases "j = i")
      case True
      then show ?thesis using assms upd by (simp add: j norm_get_def sl)
    next
      case False
      then have "array_slot (t_array t) j \<noteq> Some s" using other by blast
      then show ?thesis using False
        by (cases "array_slot (t_array t) j") (simp_all add: j norm_get_def sl)
    qed
  next
    case False
    then show ?thesis by (cases k) (simp_all add: norm_get_def)
  qed
qed

lemma table_inv_put_array: "table_inv H t \<Longrightarrow> table_inv H (put_array t s v)"
  by (simp add: table_inv_def in_array_range_def)

lemma norm_get_extend:
  assumes inv: "table_inv H t" and n: "n \<le> 64" and k: "norm_key k"
  shows "norm_get H (t\<lparr>t_array := t_array t @ replicate (n - length (t_array t)) VNil\<rparr>) k = norm_get H t k"
proof (cases "\<exists>i. k = VInt i")
  case True
  then obtain i where i: "k = VInt i" by blast
  show ?thesis
  proof (cases "array_slot (t_array t) i")
    case (Some s)
    then show ?thesis using array_slot_range [OF Some]
      by (auto simp: i norm_get_def array_slot_def nth_append split: if_splits)
  next
    case None
    show ?thesis
    proof (cases "array_slot (t_array t @ replicate (n - length (t_array t)) VNil) i")
      case (Some s)
      then have "in_array_range (t_array t) i" using n None
        by (auto simp: array_slot_def in_array_range_def split: if_splits)
      then have "\<not> holds (t_hash t) x (VInt i)" for x using inv by (auto simp: table_inv_def)
      then have "hash_get H (t_hash t) k = VNil"
        using hash_get_absent [OF _ k] inv i by (simp add: table_inv_def)
      moreover have "(t_array t @ replicate (n - length (t_array t)) VNil) ! s = VNil"
        using Some None by (auto simp: array_slot_def nth_append split: if_splits)
      ultimately show ?thesis using Some None by (simp add: i norm_get_def)
    qed (use None in \<open>simp add: i norm_get_def\<close>)
  qed
next
  case False
  then show ?thesis by (cases k) (simp_all add: norm_get_def)
qed

lemma norm_get_bump [simp]: "norm_get H (bump_version t) k = norm_get H t k"
  by (cases k) (simp_all add: norm_get_def split: option.splits)

lemma table_inv_bump [simp]: "table_inv H (bump_version t) = table_inv H t"
  by (simp add: table_inv_def)

lemma norm_get_invalidate [simp]: "norm_get H (invalidate_tm H' k' t) k = norm_get H t k"
  by (cases k) (simp_all add: norm_get_def split: option.splits)

lemma table_inv_invalidate [simp]: "table_inv H (invalidate_tm H' k' t) = table_inv H t"
  by (simp add: table_inv_def)

lemma set_int_array_correct:
  assumes inv: "table_inv H t" and i: "array_slot (t_array t) i \<noteq> None \<or> (1 \<le> sint i \<and> sint i \<le> 64)"
    and w: "set_int_array t i v = (t', b)"
  shows "table_inv H t'" "norm_key k \<Longrightarrow> norm_get H t' k = (if k = VInt i then v else norm_get H t k)"
proof -
  have "table_inv H t' \<and> (\<forall>k. norm_key k \<longrightarrow> norm_get H t' k = (if k = VInt i then v else norm_get H t k))"
  proof (cases "array_slot (t_array t) i")
    case (Some s)
    then show ?thesis using w inv norm_get_put_array [OF Some] by (auto simp: set_int_array_def table_inv_put_array)
  next
    case None
    let ?n = "nat (sint i)"
    let ?t1 = "t\<lparr>t_array := t_array t @ replicate (?n - length (t_array t)) VNil\<rparr>"
    have r: "1 \<le> sint i" "sint i \<le> 64" and lt: "length (t_array t) < ?n"
      using i None by (auto simp: array_slot_def split: if_splits)
    then have t': "t' = bump_version (put_array ?t1 (?n - 1) v)"
      using w None by (simp add: set_int_array_def Let_def)
    have sl: "array_slot (t_array ?t1) i = Some (?n - 1)" using r lt by (simp add: array_slot_def)
    have n64: "?n \<le> 64" using r by simp
    have "in_array_range (t_array t) j" if "in_array_range (t_array ?t1) j" for j
      using that n64 lt by (auto simp: in_array_range_def)
    then have inv1: "table_inv H ?t1" using inv n64 lt by (auto simp: table_inv_def)
    show ?thesis
      using norm_get_put_array [OF sl] norm_get_extend [OF inv n64] table_inv_put_array [OF inv1]
      by (simp add: t')
  qed
  then show "table_inv H t'" "norm_key k \<Longrightarrow> norm_get H t' k = (if k = VInt i then v else norm_get H t k)"
    by blast+
qed

lemma norm_get_hash_cong:
  assumes "t_array t' = t_array t" "\<And>k. norm_key k \<Longrightarrow> hash_get H (t_hash t') k = hash_get H (t_hash t) k"
  shows "norm_key k \<Longrightarrow> norm_get H t' k = norm_get H t k"
  using assms by (cases k) (auto simp: norm_get_def split: option.splits)

lemma ensure_hash_correct:
  assumes "table_inv H t"
  shows "table_inv H (ensure_hash t)" "norm_key k \<Longrightarrow> norm_get H (ensure_hash t) k = norm_get H t k"
    "t_array (ensure_hash t) = t_array t"
proof -
  show a: "t_array (ensure_hash t) = t_array t" by (simp add: ensure_hash_def)
  show "table_inv H (ensure_hash t)"
    using assms by (auto simp: ensure_hash_def table_inv_def hash_inv_fresh)
  have "hash_get H (t_hash (ensure_hash t)) k' = hash_get H (t_hash t) k'" if "norm_key k'" for k'
    using hash_get_absent [OF hash_inv_fresh that]
    by (auto simp: ensure_hash_def hash_get_def [of H "[]"])
  then show "norm_key k \<Longrightarrow> norm_get H (ensure_hash t) k = norm_get H t k"
    using norm_get_hash_cong [OF a] by blast
qed

text \<open>The hash branch of \<open>set\<close>, for a key outside the array part.\<close>

lemma set_hash_table:
  assumes inv: "table_inv H t" and k: "norm_key k"
    and rng: "\<And>i. k = VInt i \<Longrightarrow> \<not> in_array_range (t_array t) i"
    and w: "set_hash H k v t = Written (t', b)"
  shows "table_inv H t'" "norm_key k' \<Longrightarrow> norm_get H t' k' = (if k' = k then v else norm_get H t k')"
proof -
  have hinv: "hash_inv H (t_hash t)" using inv by (simp add: table_inv_def)
  note c = set_hash_correct [OF hinv k w]
  have "\<not> in_array_range (t_array t) i" if "holds (t_hash t') s (VInt i)" for s i
    using c(5) [OF that] rng [of i] inv by (auto simp: table_inv_def)
  then show "table_inv H t'" using inv c(1,2) by (simp add: table_inv_def)
  assume k': "norm_key k'"
  have "array_slot (t_array t) i = None" if "k = VInt i" for i
    using rng [OF that] array_slot_range [of "t_array t" i] by (cases "array_slot (t_array t) i") auto
  then show "norm_get H t' k' = (if k' = k then v else norm_get H t k')"
    using c(2) c(4) [OF k'] by (cases k') (auto simp: norm_get_def split: option.splits)
qed

lemma set_pass_correct:
  assumes inv: "table_inv H t" and ok: "bad_key key = None"
  shows "set_pass H key v t = Written (t', b) \<Longrightarrow> table_inv H t' \<and>
      (\<forall>k. norm_key k \<longrightarrow> norm_get H t' k = (if k = lookup_key key then v else norm_get H t k))"
    and "set_pass H key v t = NeedRehash t1 \<Longrightarrow> table_inv H t1 \<and> (\<forall>k. norm_key k \<longrightarrow> norm_get H t1 k = norm_get H t k)"
proof -
  let ?t = "invalidate_tm H key t"
  have inv': "table_inv H ?t" using inv by simp
  note e = ensure_hash_correct [OF inv']
  note nk = lookup_key_norm [OF ok]
  have hash: "set_hash H (lookup_key key) v (ensure_hash ?t) = Written (t', b) \<Longrightarrow> table_inv H t' \<and>
      (\<forall>k. norm_key k \<longrightarrow> norm_get H t' k = (if k = lookup_key key then v else norm_get H t k))"
    if "\<And>i. lookup_key key = VInt i \<Longrightarrow> \<not> in_array_range (t_array t) i"
    using set_hash_table [OF e(1) nk] that e(2,3) by (auto simp: norm_get_invalidate)
  have need: "set_hash H k' v (ensure_hash ?t) = NeedRehash t1 \<Longrightarrow>
      table_inv H t1 \<and> (\<forall>k. norm_key k \<longrightarrow> norm_get H t1 k = norm_get H t k)" for k'
    using set_hash_need_rehash(1) [of H k' v "ensure_hash ?t" t1] e by simp
  { assume w: "set_pass H key v t = Written (t', b)"
    show "table_inv H t' \<and> (\<forall>k. norm_key k \<longrightarrow> norm_get H t' k = (if k = lookup_key key then v else norm_get H t k))"
    proof (rule key_as_integer_cases [of key])
      fix i assume i: "key_as_integer key = Some i" "lookup_key key = VInt i"
      show ?thesis
      proof (cases "array_slot (t_array t) i \<noteq> None \<or> (1 \<le> sint i \<and> sint i \<le> 64)")
        case True
        then have "set_int_array ?t i v = (t', b)"
          using w i by (auto simp: set_pass_def set_int_array_def Let_def split: if_splits)
        with set_int_array_correct [OF inv' _ this] True i show ?thesis by simp
      next
        case False
        then have "set_hash H (VInt i) v (ensure_hash ?t) = Written (t', b)"
          using w i by (auto simp: set_pass_def Let_def split: if_splits option.splits)
        moreover have "\<not> in_array_range (t_array t) i"
          using False by (auto simp: in_array_range_def array_slot_def)
        ultimately show ?thesis using hash i by simp
      qed
    next
      assume n: "key_as_integer key = None" "lookup_key key = key" "\<And>i. key \<noteq> VInt i"
      then have "set_hash H key v (ensure_hash ?t) = Written (t', b)"
        using w by (simp add: set_pass_def Let_def)
      then show ?thesis using hash n by simp
    qed }
  { assume "set_pass H key v t = NeedRehash t1"
    then show "table_inv H t1 \<and> (\<forall>k. norm_key k \<longrightarrow> norm_get H t1 k = norm_get H t k)"
      using need by (auto simp: set_pass_def Let_def split: option.splits if_splits) }
qed

lemma table_set_norm:
  assumes "table_inv H t" "bad_key key = None"
  shows "\<exists>t' b. table_set H t key v = Inr (t', b) \<and> table_inv H t' \<and>
    (\<forall>k. norm_key k \<longrightarrow> norm_get H t' k = (if k = lookup_key key then v else norm_get H t k))"
  using assms
proof (induction H t key v rule: table_set.induct)
  case (1 H t key v)
  show ?case
  proof (cases "set_pass H key v t")
    case (Written r)
    then obtain t' b where w: "set_pass H key v t = Written (t', b)" by (cases r) simp
    then have "table_set H t key v = Inr (t', b)" using "1.prems" by (simp add: table_set.simps [of H t])
    with set_pass_correct(1) [OF "1.prems" w] show ?thesis by blast
  next
    case (NeedRehash t1)
    note n = set_pass_correct(2) [OF "1.prems" NeedRehash]
    obtain t2 b where r: "rehash H t1 (length (t_array t1)) (2 * length (t_hash t1)) = Inr (t2, b)"
        "table_inv H t2" "t_array t2 = t_array t1" "\<And>k. norm_key k \<Longrightarrow> hash_get H (t_hash t2) k = hash_get H (t_hash t1) k"
      using rehash_correct [OF conjunct1 [OF n]] by metis
    from "1.IH" [OF "1.prems"(2) NeedRehash r(1) refl r(2) "1.prems"(2)]
    obtain t3 b' where t3: "table_set H t2 key v = Inr (t3, b')" "table_inv H t3"
        "\<And>k. norm_key k \<Longrightarrow> norm_get H t3 k = (if k = lookup_key key then v else norm_get H t2 k)" by blast
    have "table_set H t key v = Inr (t3, b @ b')"
      using "1.prems" NeedRehash r(1) t3(1) by (simp add: table_set.simps [of H t])
    moreover have "norm_get H t2 k = norm_get H t k" if "norm_key k" for k
      using norm_get_hash_cong [OF r(3,4) that] n that by simp
    ultimately show ?thesis using t3(2,3) by auto
  qed
qed

section \<open>The interface of a Lua map\<close>

text \<open>
  What the interpreter and the libraries rely on: writes at valid keys succeed, keep the
  invariant and change exactly one entry; writes at invalid keys are errors; an invalid key
  reads as nil.
\<close>

locale lua_map =
  fixes inv :: "'m \<Rightarrow> bool"
    and get :: "'m \<Rightarrow> 'k \<Rightarrow> 'v"
    and set :: "'m \<Rightarrow> 'k \<Rightarrow> 'v \<Rightarrow> 'm result"
    and valid :: "'k \<Rightarrow> bool"
    and norm :: "'k \<Rightarrow> 'k"
    and nil :: 'v
  assumes set_valid: "inv m \<Longrightarrow> valid k \<Longrightarrow>
      \<exists>m'. set m k v = Inr m' \<and> inv m' \<and> (\<forall>k'. get m' k' = (if norm k' = norm k then v else get m k'))"
    and set_invalid: "\<not> valid k \<Longrightarrow> \<exists>e. set m k v = Inl e"
    and get_invalid: "inv m \<Longrightarrow> \<not> valid k \<Longrightarrow> get m k = nil"
begin

lemma set_inv: "inv m \<Longrightarrow> set m k v = Inr m' \<Longrightarrow> inv m'"
  using set_valid [of m k v] set_invalid [of k m v] by (cases "valid k") auto

lemma get_set: "inv m \<Longrightarrow> set m k v = Inr m' \<Longrightarrow> get m' k' = (if norm k' = norm k then v else get m k')"
  using set_valid [of m k v] set_invalid [of k m v] by (cases "valid k") auto

definition writes :: "('k \<times> 'v) list \<Rightarrow> 'm \<Rightarrow> 'm result" where
  "writes kvs m = foldl (\<lambda>r kv. rbind r (\<lambda>m. set m (fst kv) (snd kv))) (Inr m) kvs"

lemma writes_snoc: "writes (kvs @ [kv]) m = rbind (writes kvs m) (\<lambda>m. set m (fst kv) (snd kv))"
  by (simp add: writes_def)

lemma writes_last_wins:
  assumes "inv m" "\<forall>kv \<in> List.set kvs. valid (fst kv)"
  shows "\<exists>m'. writes kvs m = Inr m' \<and> inv m' \<and>
    (\<forall>k. get m' k = (case map_of (rev (map (\<lambda>kv. (norm (fst kv), snd kv)) kvs)) (norm k) of
        Some v \<Rightarrow> v | None \<Rightarrow> get m k))"
  using assms(2)
proof (induction kvs rule: rev_induct)
  case Nil
  then show ?case using assms(1) by (simp add: writes_def)
next
  case (snoc kv kvs)
  then obtain m1 where m1: "writes kvs m = Inr m1" "inv m1"
      "\<And>k. get m1 k = (case map_of (rev (map (\<lambda>kv. (norm (fst kv), snd kv)) kvs)) (norm k) of
        Some v \<Rightarrow> v | None \<Rightarrow> get m k)" by auto
  obtain m2 where m2: "set m1 (fst kv) (snd kv) = Inr m2" "inv m2"
      "\<And>k'. get m2 k' = (if norm k' = norm (fst kv) then snd kv else get m1 k')"
    using set_valid [OF m1(2), of "fst kv" "snd kv"] snoc.prems by auto
  then show ?case using m1 by (auto simp: writes_snoc)
qed

end

definition table_write :: "str_heap \<Rightarrow> table \<Rightarrow> tvalue \<Rightarrow> tvalue \<Rightarrow> table result" where
  "table_write H t k v = rbind (table_set H t k v) (\<lambda>(t', _). Inr t')"

lemma table_set_get:
  assumes inv: "table_inv H t" and ok: "bad_key k = None"
  shows "\<exists>t' b. table_set H t k v = Inr (t', b) \<and> table_inv H t' \<and>
    (\<forall>k'. table_get H t' k' = (if lookup_key k' = lookup_key k then v else table_get H t k'))"
proof -
  obtain t' b where s: "table_set H t k v = Inr (t', b)" "table_inv H t'"
      "\<And>k'. norm_key k' \<Longrightarrow> norm_get H t' k' = (if k' = lookup_key k then v else norm_get H t k')"
    using table_set_norm [OF assms, of v] by auto
  have "table_get H t' k' = (if lookup_key k' = lookup_key k then v else table_get H t k')" for k'
  proof (cases "bad_key k' = None")
    case True
    then show ?thesis using s(3) lookup_key_norm by (simp add: table_get_norm)
  next
    case False
    have "lookup_key k' \<noteq> lookup_key k"
      using False lookup_key_norm [OF ok]
      by (cases k') (auto simp: bad_key_def lookup_key_def key_as_integer_float float_to_integer_exact
          simp del: key_as_integer.simps(2) split: if_splits option.splits)
    with False s(2) inv show ?thesis by (simp add: table_get_bad_key)
  qed
  with s show ?thesis by blast
qed

lemma table_set_bad: "bad_key k = Some m \<Longrightarrow> table_set H t k v = panic m"
  by (simp add: table_set.simps)

interpretation tbl: lua_map "table_inv H" "table_get H" "table_write H" "\<lambda>k. bad_key k = None" lookup_key VNil
  for H :: str_heap
proof
  fix m k v assume "table_inv H m" "bad_key k = None"
  then obtain t' b where "table_set H m k v = Inr (t', b)" "table_inv H t'"
    "\<forall>k'. table_get H t' k' = (if lookup_key k' = lookup_key k then v else table_get H m k')"
    using table_set_get by blast
  then show "\<exists>m'. table_write H m k v = Inr m' \<and> table_inv H m' \<and>
      (\<forall>k'. table_get H m' k' = (if lookup_key k' = lookup_key k then v else table_get H m k'))"
    by (simp add: table_write_def)
next
  fix m k v assume "bad_key k \<noteq> None"
  then show "\<exists>e. table_write H m k v = Inl e"
    by (auto simp: table_write_def table_set_bad panic_def)
next
  fix m k assume "table_inv H m" "bad_key k \<noteq> None"
  then show "table_get H m k = VNil" by (rule table_get_bad_key)
qed

end
