(* ===== verification/Lt_TableSpec.thy ===== *)
theory Lt_TableSpec
  imports Lt_TableInv
begin

text \<open>
  The remaining operations on tables, and what a table promises to its clients: the weak-table
  operations of \<open>src/runtime/table.cpp\<close> (\<open>update_weak_mode\<close>, \<open>clear_weak_entries\<close>), the border
  search \<open>table_length\<close> of \<open>src/vm/meta.cpp\<close>, and the refinement of the two-part representation
  by a partial map from normalised keys to non-nil values.
\<close>

section \<open>Weak tables\<close>

fun gc_ptr :: "tvalue \<Rightarrow> ptr option" where
  "gc_ptr (VString p) = Some p"
| "gc_ptr (VTable p) = Some p"
| "gc_ptr (VFunction p) = Some p"
| "gc_ptr (VUserdata p) = Some p"
| "gc_ptr (VThread p) = Some p"
| "gc_ptr _ = None"

definition weak_bits :: "string \<Rightarrow> u8" where
  "weak_bits s = (if CHR ''k'' \<in> set s then 1 else 0) OR (if CHR ''v'' \<in> set s then 2 else 0)"

text \<open>\<open>T\<close> gives the contents of the table objects and \<open>mode_name\<close> the interned \<open>__mode\<close>.\<close>

definition update_weak_mode :: "str_heap \<Rightarrow> (ptr \<Rightarrow> table) \<Rightarrow> ptr \<Rightarrow> table \<Rightarrow> table" where
  "update_weak_mode H T mode_name t =
     (case t_metatable t of
        None \<Rightarrow> t\<lparr>t_weak := 0\<rparr>
      | Some mt \<Rightarrow>
          (case table_get H (T mt) (VString mode_name) of
             VString s \<Rightarrow> t\<lparr>t_weak := weak_bits (ls_data (H s))\<rparr>
           | _ \<Rightarrow> t\<lparr>t_weak := 0\<rparr>))"

text \<open>The predicate \<open>dead\<close> of \<open>clear_weak_entries\<close>: \<open>M\<close> reads the mark byte of an object.\<close>

definition dead :: "(ptr \<Rightarrow> u8) \<Rightarrow> u8 \<Rightarrow> tvalue \<Rightarrow> bool" where
  "dead M white v = (case gc_ptr v of None \<Rightarrow> False | Some p \<Rightarrow> M p = white)"

definition clear_weak_node :: "(ptr \<Rightarrow> u8) \<Rightarrow> u8 \<Rightarrow> u8 \<Rightarrow> table_node \<Rightarrow> table_node" where
  "clear_weak_node M white mode n =
     (if \<not> tn_used n then n
      else if mode AND 1 \<noteq> 0 \<and> dead M white (tn_key n) then n\<lparr>tn_key := VNil, tn_value := VNil\<rparr>
      else if mode AND 2 \<noteq> 0 \<and> dead M white (tn_value n) then n\<lparr>tn_value := VNil\<rparr>
      else n)"

definition clear_weak_entries :: "(ptr \<Rightarrow> u8) \<Rightarrow> u8 \<Rightarrow> u8 \<Rightarrow> table \<Rightarrow> table" where
  "clear_weak_entries M white msk t =
     (let mode = t_weak t AND msk in
      if mode = 0 then t
      else t\<lparr>t_array := (if mode AND 2 \<noteq> 0
                         then map (\<lambda>v. if dead M white v then VNil else v) (t_array t) else t_array t),
             t_hash := map (clear_weak_node M white mode) (t_hash t)\<rparr>)"

lemma clear_weak_node_used [simp]: "tn_used (clear_weak_node M w m n) = tn_used n"
  by (simp add: clear_weak_node_def)

lemma holds_clear_weak:
  "k \<noteq> VNil \<Longrightarrow> holds (map (clear_weak_node M w m) h) s k \<longleftrightarrow> holds h s k \<and> \<not> (m AND 1 \<noteq> 0 \<and> dead M w k)"
  by (cases "s < length h") (auto simp: holds_def clear_weak_node_def split: if_splits)

lemma before_map: "before H (map f h) k s = before H h k s"
  by (simp add: before_def)

lemma hash_inv_clear_weak:
  assumes "hash_inv H h"
  shows "hash_inv H (map (clear_weak_node M w m) h)"
  unfolding hash_inv_def
proof (intro conjI allI impI ballI)
  fix n assume "n \<in> set (map (clear_weak_node M w m) h)" "tn_used n"
  then show "node_ok n"
    using assms by (auto simp: hash_inv_def node_ok_def clear_weak_node_def)
next
  fix s k x
  assume "holds (map (clear_weak_node M w m) h) s k" "norm_key k"
    "x \<in> set (before H (map (clear_weak_node M w m) h) k s)"
  moreover from this have "k \<noteq> VNil" by auto
  moreover have "x < length h"
    using calculation(3) by (auto simp: before_map before_def dest!: set_takeWhileD probe_seq_bound)
  ultimately have "tn_used (h ! x)" "x < length h"
    using hash_invD(2) [OF assms] holds_clear_weak [of k] by (auto simp: before_map)
  then show "tn_used (map (clear_weak_node M w m) h ! x)" by simp
next
  fix s s' k
  assume "holds (map (clear_weak_node M w m) h) s k" "holds (map (clear_weak_node M w m) h) s' k" "norm_key k"
  moreover from this have "k \<noteq> VNil" by auto
  ultimately show "s = s'" using hash_invD(3) [OF assms] holds_clear_weak [of k M w m h] by blast
qed

lemma hash_get_clear_weak:
  assumes inv: "hash_inv H h" and k: "norm_key k"
  shows "hash_get H (map (clear_weak_node M w m) h) k =
    (if m AND 1 \<noteq> 0 \<and> dead M w k \<or> m AND 2 \<noteq> 0 \<and> dead M w (hash_get H h k) then VNil else hash_get H h k)"
proof -
  let ?h = "map (clear_weak_node M w m) h"
  note inv' = hash_inv_clear_weak [OF inv, of M w m]
  have nil: "k \<noteq> VNil" using k by auto
  show ?thesis
  proof (cases "\<exists>s. holds ?h s k")
    case True
    then obtain s where s: "holds ?h s k" by blast
    then have h: "holds h s k" "\<not> (m AND 1 \<noteq> 0 \<and> dead M w k)" using holds_clear_weak [OF nil] by blast+
    have "hash_get H ?h k = tn_value (?h ! s)" by (rule hash_get_holds [OF inv' k s])
    with h hash_get_holds [OF inv k h(1)] show ?thesis
      by (auto simp: holds_def clear_weak_node_def)
  next
    case False
    then have n: "hash_get H ?h k = VNil" using hash_get_absent [OF inv' k] by blast
    show ?thesis
    proof (cases "m AND 1 \<noteq> 0 \<and> dead M w k")
      case False
      with \<open>\<nexists>s. holds ?h s k\<close> have "\<And>s. \<not> holds h s k" using holds_clear_weak [OF nil] by blast
      then have "hash_get H h k = VNil" by (rule hash_get_absent [OF inv k])
      with n show ?thesis by simp
    qed (simp add: n)
  qed
qed

lemma table_inv_clear_weak:
  assumes "table_inv H t"
  shows "table_inv H (clear_weak_entries M w msk t)"
proof (cases "t_weak t AND msk = 0")
  case False
  let ?t = "clear_weak_entries M w msk t"
  have "length (t_array ?t) = length (t_array t)" by (simp add: clear_weak_entries_def Let_def)
  moreover have "in_array_range (t_array ?t) = in_array_range (t_array t)"
    using calculation by (auto simp: in_array_range_def)
  moreover have "t_hash ?t = map (clear_weak_node M w (t_weak t AND msk)) (t_hash t)"
    using False by (simp add: clear_weak_entries_def Let_def)
  ultimately show ?thesis
    using assms by (simp add: table_inv_def hash_inv_clear_weak holds_clear_weak) blast
qed (use assms in \<open>simp add: clear_weak_entries_def\<close>)

text \<open>C5: clearing a weak table keeps the table well formed (probe chains included) and removes
  exactly the entries whose key is dead under weak keys or whose value is dead under weak values;
  every other key still reads as before.\<close>

theorem clear_weak_entries_exact:
  assumes inv: "table_inv H t"
  shows "let mode = t_weak t AND msk in
    table_inv H (clear_weak_entries M w msk t) \<and>
    table_get H (clear_weak_entries M w msk t) k =
      (if mode AND 1 \<noteq> 0 \<and> dead M w (lookup_key k) \<or> mode AND 2 \<noteq> 0 \<and> dead M w (table_get H t k)
       then VNil else table_get H t k)"
proof -
  define mode where "mode = t_weak t AND msk"
  have inv': "table_inv H (clear_weak_entries M w msk t)" by (rule table_inv_clear_weak [OF inv])
  have "table_get H (clear_weak_entries M w msk t) k =
      (if mode AND 1 \<noteq> 0 \<and> dead M w (lookup_key k) \<or> mode AND 2 \<noteq> 0 \<and> dead M w (table_get H t k)
       then VNil else table_get H t k)"
  proof (cases "bad_key k = None \<and> mode \<noteq> 0")
    case True
    then have nk: "norm_key (lookup_key k)" and m: "mode \<noteq> 0" using lookup_key_norm by auto
    have "hash_inv H (t_hash t)" using inv by (simp add: table_inv_def)
    note hg = hash_get_clear_weak [OF this nk, of M w mode]
    have h: "t_hash (clear_weak_entries M w msk t) = map (clear_weak_node M w mode) (t_hash t)"
      using m by (simp add: clear_weak_entries_def mode_def Let_def)
    have a: "t_array (clear_weak_entries M w msk t) =
        (if mode AND 2 \<noteq> 0 then map (\<lambda>v. if dead M w v then VNil else v) (t_array t) else t_array t)"
      using m by (simp add: clear_weak_entries_def mode_def Let_def)
    then have l: "array_slot (t_array (clear_weak_entries M w msk t)) = array_slot (t_array t)"
      by (auto simp: array_slot_def)
    show ?thesis
    proof (cases "lookup_key k")
      case (VInt i)
      have nd: "\<not> dead M w (VInt i)" by (simp add: dead_def)
      have el: "t_array (clear_weak_entries M w msk t) ! x =
          (if mode AND 2 \<noteq> 0 \<and> dead M w (t_array t ! x) then VNil else t_array t ! x)"
        if "array_slot (t_array t) i = Some x" for x
        using array_slot_range [OF that] by (simp add: a)
      show ?thesis
      proof (cases "array_slot (t_array t) i")
        case None
        then show ?thesis using hg h by (simp only: table_get_norm VInt norm_get_def l tvalue.case option.case)
      next
        case (Some x)
        then show ?thesis using el [OF Some] nd
          by (simp only: table_get_norm VInt norm_get_def l tvalue.case option.case) simp
      qed
    qed (use hg h in \<open>simp_all add: table_get_norm norm_get_def\<close>)
  next
    case False
    then show ?thesis
    proof (cases "mode = 0")
      case True
      then show ?thesis by (simp add: clear_weak_entries_def mode_def)
    next
      case False
      with \<open>\<not> (bad_key k = None \<and> mode \<noteq> 0)\<close> have "bad_key k \<noteq> None" by simp
      then show ?thesis using table_get_bad_key inv inv' by auto
    qed
  qed
  with inv' show ?thesis unfolding Let_def mode_def [symmetric] by blast
qed

section \<open>The border search\<close>

text \<open>The two loops of \<open>table_length\<close>: down through the array part, then up through the hash part
  until the first absent index or the cut-off at ten million.\<close>

fun length_down :: "str_heap \<Rightarrow> table \<Rightarrow> nat \<Rightarrow> nat" where
  "length_down H t 0 = 0"
| "length_down H t (Suc n) =
     (if is_nil (table_get_int H t (of_nat (Suc n))) then length_down H t n else Suc n)"

function length_up :: "str_heap \<Rightarrow> table \<Rightarrow> nat \<Rightarrow> nat" where
  "length_up H t n =
     (if is_nil (table_get_int H t (of_nat (n + 1))) then n
      else if n + 1 > 10000000 then n + 1
      else length_up H t (n + 1))"
  by pat_completeness auto
termination
  by (relation "measure (\<lambda>(H, t, n). 10000001 - n)") auto

declare length_up.simps [simp del]

definition table_length :: "str_heap \<Rightarrow> table \<Rightarrow> nat" where
  "table_length H t =
     (let n = length_down H t (length (t_array t)) in
      if n < length (t_array t) then n else length_up H t n)"

lemma length_down_border:
  "(length_down H t n = 0 \<or> \<not> is_nil (table_get_int H t (of_nat (length_down H t n)))) \<and>
    length_down H t n \<le> n \<and>
    (length_down H t n < n \<longrightarrow> is_nil (table_get_int H t (of_nat (length_down H t n + 1))))"
  by (induction n) (auto simp: le_Suc_eq less_Suc_eq)

lemma length_up_border:
  "n = 0 \<or> \<not> is_nil (table_get_int H t (of_nat n)) \<Longrightarrow>
    (length_up H t n = 0 \<or> \<not> is_nil (table_get_int H t (of_nat (length_up H t n)))) \<and>
    (10000000 < length_up H t n \<or> is_nil (table_get_int H t (of_nat (length_up H t n + 1))))"
proof (induction H t n rule: length_up.induct)
  case (1 H t n)
  show ?case
  proof (cases "is_nil (table_get_int H t (of_nat (n + 1))) \<or> n + 1 > 10000000")
    case True
    then show ?thesis using "1.prems" by (subst (1 2 3 4) length_up.simps) auto
  next
    case False
    then have "length_up H t n = length_up H t (n + 1)" by (subst length_up.simps) simp
    with "1.IH" False show ?thesis by simp
  qed
qed

text \<open>C6: the length operator returns a border: index n is absent only if n is 0, and index n+1 is
  absent, unless the search was cut off above ten million.\<close>

theorem table_length_border:
  "let n = table_length H t in
    (n = 0 \<or> table_get H t (VInt (of_nat n)) \<noteq> VNil) \<and>
    (table_get H t (VInt (of_nat (n + 1))) = VNil \<or> 10000000 < n)"
proof -
  have gi: "is_nil (table_get_int H t i) \<longleftrightarrow> table_get H t (VInt i) = VNil" for i
    by (auto simp: table_get_int_def table_get_def is_nil_def split: option.splits)
  let ?d = "length_down H t (length (t_array t))"
  note d = length_down_border [of H t "length (t_array t)"]
  show ?thesis
  proof (cases "?d < length (t_array t)")
    case True
    then show ?thesis using d by (simp add: table_length_def gi)
  next
    case False
    then show ?thesis using d length_up_border [of ?d H t] by (auto simp: table_length_def gi Let_def)
  qed
qed

text \<open>Two elements and an empty third slot.\<close>

definition two_items :: table where
  "two_items = (table_new 3 0)\<lparr>t_array := [VInt 5, VInt 6, VNil]\<rparr>"

theorem table_length_border_witness:
  "table_length H0 two_items = 2 \<and> table_get H0 two_items (VInt 2) \<noteq> VNil \<and> table_get H0 two_items (VInt 3) = VNil"
proof -
  have "table_length H0 two_items = 2"
    by (simp add: table_length_def two_items_def eval_nat_numeral table_get_int_def array_slot_def is_nil_def)
  with table_length_border [of H0 two_items] show ?thesis by (simp add: Let_def)
qed

section \<open>A table refines a partial map\<close>

text \<open>What a table stands for: the non-nil values, by normalised key.\<close>

definition table_abs :: "str_heap \<Rightarrow> table \<Rightarrow> tvalue \<rightharpoonup> tvalue" where
  "table_abs H t k = (if norm_key k \<and> norm_get H t k \<noteq> VNil then Some (norm_get H t k) else None)"

definition map_put :: "(tvalue \<rightharpoonup> tvalue) \<Rightarrow> tvalue \<Rightarrow> tvalue \<Rightarrow> tvalue \<rightharpoonup> tvalue" where
  "map_put m k v = m(k := if is_nil v then None else Some v)"

lemma table_new_inv:
  assumes "a < 2 ^ 63"
  shows "table_inv H (table_new a h)"
  using assms by (auto simp: table_inv_def table_new_def hash_inv_fresh)

lemma table_new_get: "table_get H (table_new a h) k = VNil"
proof -
  have z: "get_loop (replicate n empty_node) k' ss = VNil" if "set ss \<subseteq> {..<n}" for n k' ss
    using that by (cases ss) (auto simp: empty_node_def)
  have "hash_get H (replicate n empty_node) k' = VNil" for n k'
    using z [of "key_seq H (replicate n empty_node) k'" n k'] probe_seq_bound
    by (fastforce simp: hash_get_def)
  then show ?thesis
    by (auto simp: table_get_def table_new_def array_slot_def split: option.splits)
qed

text \<open>C3: storing refines updating a map. On a well-formed table \<open>set\<close> succeeds at every key that is
  neither nil nor NaN, whatever rehashes it needs; the table stays well formed and stands for the
  map with exactly that key changed (removed when the value is nil), and \<open>get\<close> reads that map.\<close>

theorem table_set_refines_map:
  assumes inv: "table_inv H t" and ok: "bad_key k = None"
  shows "\<exists>t' b. table_set H t k v = Inr (t', b) \<and> table_inv H t' \<and>
    table_abs H t' = map_put (table_abs H t) (lookup_key k) v \<and>
    (\<forall>q. table_get H t' q = (case table_abs H t' (lookup_key q) of None \<Rightarrow> VNil | Some w \<Rightarrow> w))"
proof -
  obtain t' b where t': "table_set H t k v = Inr (t', b)" "table_inv H t'"
      "\<And>k'. norm_key k' \<Longrightarrow> norm_get H t' k' = (if k' = lookup_key k then v else norm_get H t k')"
    using table_set_norm [OF assms, of v] by auto
  have "table_abs H t' = map_put (table_abs H t) (lookup_key k) v"
    using t'(3) lookup_key_norm [OF ok] 
    by (intro ext) (auto simp: table_abs_def map_put_def is_nil_def split: if_splits)
  moreover have "table_get H t' q = (case table_abs H t' (lookup_key q) of None \<Rightarrow> VNil | Some w \<Rightarrow> w)" for q
    using table_get_bad_key [OF t'(2), of q] lookup_key_norm [of q]
    by (auto simp: table_abs_def table_get_norm)
  ultimately show ?thesis using t'(1,2) by blast
qed

text \<open>A table with one free hash slot and a string key.\<close>

theorem table_set_refines_map_witness:
  "\<exists>t' b. table_set H0 (table_new 0 1) (VBool True) (VInt 7) = Inr (t', b) \<and>
    table_abs H0 t' = map_put (table_abs H0 (table_new 0 1)) (VBool True) (VInt 7)"
proof -
  have "bad_key (VBool True) = None" "lookup_key (VBool True) = VBool True"
    by (simp_all add: bad_key_def lookup_key_def)
  with table_set_refines_map [OF table_new_inv [of 0 H0 1], of "VBool True" "VInt 7"] show ?thesis by auto
qed

text \<open>a table built from a new one by any sequence of stores at valid keys reads, at every key,
  as the last value stored under the same normalised key, and as nil where nothing was stored.\<close>

theorem table_fill_last_wins:
  assumes "a < 2 ^ 63" "\<forall>kv \<in> set kvs. bad_key (fst kv) = None"
  shows "\<exists>t. tbl.writes H kvs (table_new a h) = Inr t \<and> table_inv H t \<and>
    (\<forall>k. table_get H t k =
      (case map_of (rev (map (\<lambda>kv. (lookup_key (fst kv), snd kv)) kvs)) (lookup_key k) of
         Some v \<Rightarrow> v | None \<Rightarrow> VNil))"
  using tbl.writes_last_wins [OF table_new_inv [OF assms(1)] assms(2), of H h] unfolding table_new_get .

theorem table_fill_last_wins_witness:
  "\<exists>t. tbl.writes H0 [(VInt 3, VBool True), (VInt 100, VInt 5), (VInt 3, VInt 9)] (table_new 2 0) = Inr t \<and>
    table_get H0 t (VInt 3) = VInt 9 \<and> table_get H0 t (VInt 100) = VInt 5 \<and> table_get H0 t (VInt 4) = VNil"
proof -
  have "\<forall>kv \<in> set [(VInt 3, VBool True), (VInt 100, VInt 5), (VInt 3, VInt 9)]. bad_key (fst kv) = None"
    by (simp add: bad_key_def)
  from table_fill_last_wins [OF _ this, of 2 H0 0] obtain t where
    t: "tbl.writes H0 [(VInt 3, VBool True), (VInt 100, VInt 5), (VInt 3, VInt 9)] (table_new 2 0) = Inr t"
    "\<And>k. table_get H0 t k =
      (case map_of (rev (map (\<lambda>kv. (lookup_key (fst kv), snd kv))
          [(VInt 3, VBool True), (VInt 100, VInt 5), (VInt 3, VInt 9)])) (lookup_key k) of
         Some v \<Rightarrow> v | None \<Rightarrow> VNil)" by auto
  show ?thesis using t(1) by (auto simp: t(2) lookup_key_def)
qed

text \<open>Rebuilding the hash part at the size \<open>set\<close> asks for never runs into \<open>rehash: hash full\<close>,
  keeps every entry, and leaves at least one slot free, so that the retried \<open>set\<close> ends.\<close>

theorem rehash_keeps_entries:
  assumes "table_inv H t"
  shows "\<exists>t' b. rehash H t (length (t_array t)) hh = Inr (t', b) \<and> table_inv H t' \<and>
    count_used (t_hash t') < length (t_hash t') \<and> (\<forall>k. table_get H t' k = table_get H t k)"
proof -
  obtain t' b where r: "rehash H t (length (t_array t)) hh = Inr (t', b)" "table_inv H t'"
    "t_array t' = t_array t" "\<And>k. norm_key k \<Longrightarrow> hash_get H (t_hash t') k = hash_get H (t_hash t) k"
    "count_used (t_hash t') < length (t_hash t')" by (rule rehash_correct [OF assms, of hh]) (rule that)
  have "table_get H t' k = table_get H t k" for k
  proof (cases "bad_key k = None")
    case True
    then show ?thesis using norm_get_hash_cong [OF r(3,4)] lookup_key_norm by (simp add: table_get_norm)
  qed (simp add: table_get_bad_key r(2) assms)
  with r show ?thesis by blast
qed

theorem rehash_keeps_entries_witness:
  "\<exists>t' b. rehash H0 (table_new 1 2) 1 4 = Inr (t', b) \<and> table_inv H0 t' \<and>
    count_used (t_hash t') < length (t_hash t')"
  using rehash_keeps_entries [OF table_new_inv [of 1 H0 2], of 4] by (auto simp: table_new_def)

lemma lookup_key_bad: "bad_key q \<noteq> None \<Longrightarrow> lookup_key q \<noteq> VInt i"
  by (cases q) (auto simp: bad_key_def lookup_key_def key_as_integer_float float_to_integer_exact
      simp del: key_as_integer.simps(2) split: if_splits option.splits)

text \<open>\<open>set_int\<close> and \<open>get_int\<close> are the integer-key fast paths of \<open>set\<close> and \<open>get\<close>: the same
  reads, and a write through \<open>set_int\<close> is visible through every spelling of the key, the float
  with the same value included.\<close>

theorem table_set_int_agrees:
  assumes inv: "table_inv H t"
  shows "\<exists>t' b. table_set_int H t i v = Inr (t', b) \<and> table_inv H t' \<and>
    (\<forall>q. table_get H t' q = (if lookup_key q = VInt i then v else table_get H t q)) \<and>
    (\<forall>j. table_get_int H t' j = table_get H t' (VInt j))"
proof -
  have gi: "table_get_int H t' j = table_get H t' (VInt j)" for t' j
    by (auto simp: table_get_int_def table_get_def split: option.splits)
  show ?thesis
  proof (cases "array_slot (t_array t) i \<noteq> None \<or> (1 \<le> sint i \<and> sint i \<le> 64)")
    case True
    obtain t' b where t': "set_int_array t i v = (t', b)" by (cases "set_int_array t i v")
    note c = set_int_array_correct [OF inv True t']
    have "table_get H t' q = (if lookup_key q = VInt i then v else table_get H t q)" for q
    proof (cases "bad_key q = None")
      case True
      then show ?thesis using c(2) lookup_key_norm by (simp add: table_get_norm)
    next
      case False
      then have "lookup_key q \<noteq> VInt i" by (rule lookup_key_bad)
      then show ?thesis using False table_get_bad_key inv c(1) by simp
    qed
    with c(1) gi t' True show ?thesis by (auto simp: table_set_int_def)
  next
    case False
    then show ?thesis using table_set_get [OF inv, of "VInt i" v] gi
      by (auto simp: table_set_int_def bad_key_def lookup_key_def)
  qed
qed

theorem table_set_int_agrees_witness:
  "\<exists>t' b. table_set_int H0 (table_new 0 0) 5 (VBool True) = Inr (t', b) \<and> table_get_int H0 t' 5 = VBool True"
proof -
  obtain t' b where "table_set_int H0 (table_new 0 0) 5 (VBool True) = Inr (t', b)"
    "\<forall>q. table_get H0 t' q = (if lookup_key q = VInt 5 then VBool True else table_get H0 (table_new 0 0) q)"
    "\<forall>j. table_get_int H0 t' j = table_get H0 t' (VInt j)"
    using table_set_int_agrees [OF table_new_inv [of 0 H0 0], of 5 "VBool True"] by auto
  then show ?thesis by (auto simp: lookup_key_def)
qed

text \<open>C4: on a well-formed table \<open>set\<close> fails exactly on the keys nil and NaN, with the message the
  source raises for each.\<close>

theorem table_set_errors:
  assumes "table_inv H t"
  shows "table_set H t k v = Inl e \<longleftrightarrow>
    (k = VNil \<and> e = LuatierError ''table index is nil'') \<or>
    (\<exists>d. k = VFloat d \<and> isnan d \<and> e = LuatierError ''table index is NaN'')"
proof (cases "bad_key k")
  case None
  then obtain r where "table_set H t k v = Inr r" using table_set_get [OF assms None, of v] by auto
  with None show ?thesis by (auto simp: bad_key_def)
next
  case (Some m)
  then have "table_set H t k v = Inl (LuatierError m)" using table_set_bad by (simp add: panic_def)
  with Some show ?thesis by (auto simp: bad_key_def split: tvalue.splits if_splits)
qed

theorem table_set_errors_witness:
  "table_set H0 (table_new 0 0) VNil VNil = Inl (LuatierError ''table index is nil'')"
  using table_set_errors [OF table_new_inv [of 0 H0 0], of VNil VNil "LuatierError ''table index is nil''"] by simp

theorem clear_weak_entries_exact_witness:
  "table_inv H0 (clear_weak_entries (\<lambda>_. 1) 1 3 (table_new 1 0)) \<and>
   table_get H0 (clear_weak_entries (\<lambda>_. 1) 1 3 (table_new 1 0)) (VInt 1) = VNil"
  using clear_weak_entries_exact [OF table_new_inv [of 1 H0 0], of 3 "\<lambda>_. 1" 1 "VInt 1"]
  by (auto simp: Let_def table_new_get)

end
