(* ===== verification/Lt_Bytecode.thy ===== *)
theory Lt_Bytecode
  imports Lt_Prelude
begin

text \<open>
  The instruction format: \<open>src/vm/bytecode.hpp\<close> and \<open>src/vm/bytecode.cpp\<close>. An instruction is a
  32-bit word with an 8-bit opcode and either three 8-bit operands, or an 8-bit and a 16-bit one
  (unsigned, or signed in excess-32768), or one 24-bit operand.
\<close>

type_synonym instruction = u32

datatype opcode =
    OP_MOVE | OP_LOADNIL | OP_LOADBOOL | OP_LOADINT | OP_LOADFLOAT | OP_LOADK |
    OP_LOADKX | OP_EXTRAARG | OP_ADD | OP_SUB | OP_MUL | OP_DIV |
    OP_IDIV | OP_MOD | OP_POW | OP_BAND | OP_BOR | OP_BXOR |
    OP_SHL | OP_SHR | OP_UNM | OP_BNOT | OP_NOT | OP_LEN |
    OP_CONCAT | OP_EQ | OP_LT | OP_LE | OP_TEST | OP_TESTSET |
    OP_NEWTABLE | OP_GETTABLE | OP_SETTABLE | OP_GETFIELD | OP_SETFIELD | OP_GETI |
    OP_SETI | OP_GETTABUP | OP_SETTABUP | OP_SETLIST | OP_CLOSURE | OP_GETUPVAL |
    OP_SETUPVAL | OP_CALL | OP_TAILCALL | OP_RETURN | OP_VARARG | OP_SELF |
    OP_JMP | OP_FORPREP | OP_FORLOOP | OP_TFORCALL | OP_TFORLOOP | OP_CHECKGC |
    OP_SAFEPOINT

text \<open>The enumerators in the order of their values.\<close>

definition opcodes :: "opcode list" where
  "opcodes =
     [OP_MOVE, OP_LOADNIL, OP_LOADBOOL, OP_LOADINT, OP_LOADFLOAT, OP_LOADK,
      OP_LOADKX, OP_EXTRAARG, OP_ADD, OP_SUB, OP_MUL, OP_DIV,
      OP_IDIV, OP_MOD, OP_POW, OP_BAND, OP_BOR, OP_BXOR,
      OP_SHL, OP_SHR, OP_UNM, OP_BNOT, OP_NOT, OP_LEN,
      OP_CONCAT, OP_EQ, OP_LT, OP_LE, OP_TEST, OP_TESTSET,
      OP_NEWTABLE, OP_GETTABLE, OP_SETTABLE, OP_GETFIELD, OP_SETFIELD, OP_GETI,
      OP_SETI, OP_GETTABUP, OP_SETTABUP, OP_SETLIST, OP_CLOSURE, OP_GETUPVAL,
      OP_SETUPVAL, OP_CALL, OP_TAILCALL, OP_RETURN, OP_VARARG, OP_SELF,
      OP_JMP, OP_FORPREP, OP_FORLOOP, OP_TFORCALL, OP_TFORLOOP, OP_CHECKGC,
      OP_SAFEPOINT]"

definition opcode_num :: "opcode \<Rightarrow> u8" where
  "opcode_num op = of_nat (length (takeWhile (\<lambda>o'. o' \<noteq> op) opcodes))"

text \<open>\<open>static_cast<OpCode>\<close>: a byte that is no enumerator is no opcode of the model.\<close>

definition opcode_of :: "u8 \<Rightarrow> opcode option" where
  "opcode_of n = (if unat n < length opcodes then Some (opcodes ! unat n) else None)"

definition op_get :: "instruction \<Rightarrow> u8" where
  "op_get i = ucast (i AND 0xFF)"

definition op_a :: "instruction \<Rightarrow> u8" where
  "op_a i = ucast (drop_bit 8 i AND 0xFF)"

definition op_b :: "instruction \<Rightarrow> u8" where
  "op_b i = ucast (drop_bit 16 i AND 0xFF)"

definition op_c :: "instruction \<Rightarrow> u8" where
  "op_c i = ucast (drop_bit 24 i AND 0xFF)"

definition op_bx :: "instruction \<Rightarrow> u16" where
  "op_bx i = ucast (drop_bit 16 i AND 0xFFFF)"

definition op_sbx :: "instruction \<Rightarrow> int" where
  "op_sbx i = uint (op_bx i) - 32768"

definition op_ax :: "instruction \<Rightarrow> u32" where
  "op_ax i = drop_bit 8 i"

definition encode_abc :: "opcode \<Rightarrow> u8 \<Rightarrow> u8 \<Rightarrow> u8 \<Rightarrow> instruction" where
  "encode_abc op a b c =
     ucast (opcode_num op) OR push_bit 8 (ucast a) OR push_bit 16 (ucast b) OR push_bit 24 (ucast c)"

definition encode_abx :: "opcode \<Rightarrow> u8 \<Rightarrow> u16 \<Rightarrow> instruction" where
  "encode_abx op a bx = ucast (opcode_num op) OR push_bit 8 (ucast a) OR push_bit 16 (ucast bx)"

definition encode_asbx :: "opcode \<Rightarrow> u8 \<Rightarrow> int \<Rightarrow> instruction" where
  "encode_asbx op a sbx = encode_abx op a (word_of_int (sbx + 32768))"

definition encode_ax :: "opcode \<Rightarrow> u32 \<Rightarrow> instruction" where
  "encode_ax op ax = ucast (opcode_num op) OR push_bit 8 (ax AND 0xFFFFFF)"

definition opcode_name :: "opcode \<Rightarrow> string" where
  "opcode_name op =
     (case op of
        OP_MOVE \<Rightarrow> ''MOVE''
      | OP_LOADNIL \<Rightarrow> ''LOADNIL''
      | OP_LOADBOOL \<Rightarrow> ''LOADBOOL''
      | OP_LOADINT \<Rightarrow> ''LOADINT''
      | OP_LOADFLOAT \<Rightarrow> ''LOADFLOAT''
      | OP_LOADK \<Rightarrow> ''LOADK''
      | OP_ADD \<Rightarrow> ''ADD''
      | OP_SUB \<Rightarrow> ''SUB''
      | OP_MUL \<Rightarrow> ''MUL''
      | OP_DIV \<Rightarrow> ''DIV''
      | OP_IDIV \<Rightarrow> ''IDIV''
      | OP_MOD \<Rightarrow> ''MOD''
      | OP_POW \<Rightarrow> ''POW''
      | OP_UNM \<Rightarrow> ''UNM''
      | OP_NOT \<Rightarrow> ''NOT''
      | OP_LEN \<Rightarrow> ''LEN''
      | OP_CONCAT \<Rightarrow> ''CONCAT''
      | OP_EQ \<Rightarrow> ''EQ''
      | OP_LT \<Rightarrow> ''LT''
      | OP_LE \<Rightarrow> ''LE''
      | OP_TEST \<Rightarrow> ''TEST''
      | OP_JMP \<Rightarrow> ''JMP''
      | OP_TESTSET \<Rightarrow> ''TESTSET''
      | OP_CALL \<Rightarrow> ''CALL''
      | OP_TAILCALL \<Rightarrow> ''TAILCALL''
      | OP_RETURN \<Rightarrow> ''RETURN''
      | OP_SELF \<Rightarrow> ''SELF''
      | OP_CLOSURE \<Rightarrow> ''CLOSURE''
      | OP_GETUPVAL \<Rightarrow> ''GETUPVAL''
      | OP_SETUPVAL \<Rightarrow> ''SETUPVAL''
      | OP_GETTABUP \<Rightarrow> ''GETTABUP''
      | OP_SETTABUP \<Rightarrow> ''SETTABUP''
      | OP_GETTABLE \<Rightarrow> ''GETTABLE''
      | OP_SETTABLE \<Rightarrow> ''SETTABLE''
      | OP_NEWTABLE \<Rightarrow> ''NEWTABLE''
      | OP_FORPREP \<Rightarrow> ''FORPREP''
      | OP_FORLOOP \<Rightarrow> ''FORLOOP''
      | OP_TFORCALL \<Rightarrow> ''TFORCALL''
      | OP_TFORLOOP \<Rightarrow> ''TFORLOOP''
      | OP_VARARG \<Rightarrow> ''VARARG''
      | OP_SETLIST \<Rightarrow> ''SETLIST''
      | OP_GETFIELD \<Rightarrow> ''GETFIELD''
      | OP_SETFIELD \<Rightarrow> ''SETFIELD''
      | OP_GETI \<Rightarrow> ''GETI''
      | OP_SETI \<Rightarrow> ''SETI''
      | _ \<Rightarrow> ''OP'')"

definition disassemble_ins :: "instruction \<Rightarrow> string" where
  "disassemble_ins i =
     (case opcode_of (op_get i) of Some op \<Rightarrow> opcode_name op | None \<Rightarrow> ''OP'') @ '' '' @
     dec_nat (unat (op_a i)) @ '' '' @ dec_nat (unat (op_b i)) @ '' '' @ dec_nat (unat (op_c i))"

section \<open>Fields\<close>

lemma opcodes_props: "distinct opcodes" "set opcodes = UNIV" "length opcodes = 55"
proof -
  show "distinct opcodes" by (simp add: opcodes_def)
  show "length opcodes = 55" by (simp add: opcodes_def)
  show "set opcodes = UNIV"
    by (rule UNIV_eq_I [symmetric]) (case_tac x; simp add: opcodes_def)
qed

lemma opcode_of_num: "opcode_of (opcode_num op) = Some op"
proof -
  have "op \<in> set opcodes" by (simp add: opcodes_props)
  then have n: "length (takeWhile (\<lambda>o'. o' \<noteq> op) opcodes) < length opcodes"
    using takeWhile_eq_all_conv [of "\<lambda>o'. o' \<noteq> op" opcodes] length_takeWhile_le [of _ opcodes]
    by (metis le_neq_implies_less takeWhile_eq_take take_all_iff linorder_le_less_linear)
  then have "opcodes ! length (takeWhile (\<lambda>o'. o' \<noteq> op) opcodes) = op"
    using nth_length_takeWhile [of "\<lambda>o'. o' \<noteq> op" opcodes] by blast
  moreover have "unat (opcode_num op) = length (takeWhile (\<lambda>o'. o' \<noteq> op) opcodes)"
    using n by (simp add: opcode_num_def unat_of_nat opcodes_props)
  ultimately show ?thesis using n by (simp add: opcode_of_def)
qed

lemmas field_defs = op_get_def op_a_def op_b_def op_c_def op_bx_def op_ax_def
  encode_abc_def encode_abx_def encode_asbx_def encode_ax_def

lemma mask8: "(0xFF :: u32) = mask 8" "(0xFFFF :: u32) = mask 16" "(0xFFFFFF :: u32) = mask 24"
  by (simp_all add: mask_eq_exp_minus_1)

lemma encode_abc_fields:
  "op_get (encode_abc op a b c) = opcode_num op" "op_a (encode_abc op a b c) = a"
  "op_b (encode_abc op a b c) = b" "op_c (encode_abc op a b c) = c"
  unfolding field_defs mask8 by (rule bit_word_eqI; auto simp: bit_simps dest: bit_imp_le_length; fail)+

lemma encode_abx_fields:
  "op_get (encode_abx op a bx) = opcode_num op" "op_a (encode_abx op a bx) = a" "op_bx (encode_abx op a bx) = bx"
  unfolding field_defs mask8 by (rule bit_word_eqI; auto simp: bit_simps dest: bit_imp_le_length; fail)+

lemma encode_ax_fields:
  "op_get (encode_ax op ax) = opcode_num op" "op_ax (encode_ax op ax) = ax AND 0xFFFFFF"
  unfolding field_defs mask8 by (rule bit_word_eqI; auto simp: bit_simps dest: bit_imp_le_length; fail)+

text \<open>Every operand of an instruction decodes to what was encoded: the opcode always, the three
  8-bit operands, the 16-bit operand, signed operands over the whole excess-32768 range, and the
  low 24 bits of a long operand.\<close>

theorem instruction_roundtrip:
  assumes "- 32768 \<le> sbx" "sbx \<le> 32767"
  shows "opcode_of (op_get (encode_abc op a b c)) = Some op \<and>
    op_a (encode_abc op a b c) = a \<and> op_b (encode_abc op a b c) = b \<and> op_c (encode_abc op a b c) = c \<and>
    opcode_of (op_get (encode_abx op a bx)) = Some op \<and> op_a (encode_abx op a bx) = a \<and> op_bx (encode_abx op a bx) = bx \<and>
    opcode_of (op_get (encode_asbx op a sbx)) = Some op \<and> op_a (encode_asbx op a sbx) = a \<and> op_sbx (encode_asbx op a sbx) = sbx \<and>
    opcode_of (op_get (encode_ax op ax)) = Some op \<and> op_ax (encode_ax op ax) = ax AND 0xFFFFFF"
proof -
  have "uint (word_of_int (sbx + 32768) :: u16) = sbx + 32768"
    using assms by (simp only: uint_word_of_int) simp
  then have "op_sbx (encode_asbx op a sbx) = sbx"
    by (simp add: op_sbx_def encode_asbx_def encode_abx_fields)
  then show ?thesis
    by (simp add: encode_abc_fields encode_abx_fields encode_ax_fields encode_asbx_def opcode_of_num)
qed

theorem instruction_roundtrip_witness: "op_sbx (encode_asbx OP_JMP 0 (- 5)) = - 5"
  using instruction_roundtrip [of "- 5" OP_JMP 0] by simp

text \<open>An instruction is determined by its fields, so the two views of it (three operands, or one
  16-bit operand) agree: re-encoding what the decoders read gives the same word.\<close>

theorem instruction_fields_complete:
  "opcode_of (op_get i) = Some op \<Longrightarrow>
    encode_abc op (op_a i) (op_b i) (op_c i) = i \<and> encode_abx op (op_a i) (op_bx i) = i \<and>
    encode_asbx op (op_a i) (op_sbx i) = i \<and> encode_ax op (op_ax i) = i"
proof -
  assume "opcode_of (op_get i) = Some op"
  then have n: "opcode_num op = op_get i"
    using opcode_of_num [of op] opcodes_props(1)
    by (auto simp: opcode_of_def nth_eq_iff_index_eq word_unat_eq_iff split: if_splits)
  have "encode_abc op (op_a i) (op_b i) (op_c i) = i"
    unfolding field_defs n mask8
  proof (rule bit_word_eqI)
    fix m assume "m < LENGTH(32)"
    then consider "m < 8" | "8 \<le> m" "m < 16" | "16 \<le> m" "m < 24" | "24 \<le> m" "m < 32" by fastforce
    then show "bit ((ucast (ucast (i AND mask 8) :: u8) :: u32) OR
         push_bit 8 (ucast (ucast (drop_bit 8 i AND mask 8) :: u8)) OR
         push_bit 16 (ucast (ucast (drop_bit 16 i AND mask 8) :: u8)) OR
         push_bit 24 (ucast (ucast (drop_bit 24 i AND mask 8) :: u8))) m = bit i m"
      by cases (auto simp: bit_simps)
  qed
  moreover have "encode_abx op (op_a i) (op_bx i) = i"
    unfolding field_defs n mask8
  proof (rule bit_word_eqI)
    fix m assume "m < LENGTH(32)"
    then consider "m < 8" | "8 \<le> m" "m < 16" | "16 \<le> m" "m < 32" by fastforce
    then show "bit ((ucast (ucast (i AND mask 8) :: u8) :: u32) OR
         push_bit 8 (ucast (ucast (drop_bit 8 i AND mask 8) :: u8)) OR
         push_bit 16 (ucast (ucast (drop_bit 16 i AND mask 16) :: u16))) m = bit i m"
      by cases (auto simp: bit_simps)
  qed
  moreover have "encode_ax op (op_ax i) = i"
    unfolding field_defs n mask8
    by (rule bit_word_eqI) (auto simp: bit_simps not_le not_less, metis le_add_diff_inverse not_less)
  moreover have "(word_of_int (op_sbx i + 32768) :: u16) = op_bx i" by (simp add: op_sbx_def)
  ultimately show ?thesis by (simp add: encode_asbx_def)
qed

theorem instruction_fields_complete_witness: "encode_ax OP_LOADNIL (op_ax 0x0A0B0C01) = 0x0A0B0C01"
proof -
  have "opcode_of (op_get 0x0A0B0C01) = Some OP_LOADNIL" by (simp add: op_get_def opcode_of_def opcodes_def)
  from instruction_fields_complete [OF this] show ?thesis by blast
qed

end
