(* ===== verification/Lt_Heap.thy ===== *)
theory Lt_Heap
  imports Lt_Intern Lt_TableSpec Lt_Bytecode
begin

text \<open>
  The object heap: the collected structures of \<open>src/runtime\<close> and \<open>src/vm/state.hpp\<close>, and the state
  of the collector (\<open>src/gc/gc.hpp\<close>). The intrusive list \<open>all_\<close> is an association list from
  addresses to cells, newest first; the intrusive gray list is a list of addresses. The bytes of
  strings are in the string heap of \<open>Lt_Intern\<close>. Of \<open>CallFrame\<close> and \<open>Thread\<close> the fields are kept
  that the collector, the stack operations and the upvalues read.
\<close>

section \<open>Objects\<close>

record upval_desc =
  ud_instack :: bool
  ud_idx :: u8
  ud_name :: string

record loc_var =
  lv_name :: string
  lv_reg :: int
  lv_startpc :: int
  lv_endpc :: int

record proto =
  p_code :: "instruction list"
  p_constants :: "tvalue list"
  p_protos :: "ptr list"
  p_upvalues :: "upval_desc list"
  p_lineinfo :: "int list"
  p_locvars :: "loc_var list"
  p_source :: string
  p_linedefined :: int
  p_lastlinedefined :: int
  p_maxstack :: int
  p_numparams :: int
  p_is_vararg :: bool

record closure =
  cl_is_c :: bool
  cl_proto :: "ptr option"
  cl_cfunc :: ptr
  cl_upvals :: "ptr option list"

record upval =
  uv_thread :: "ptr option"
  uv_index :: int
  uv_closed :: tvalue
  uv_open :: bool

record call_frame =
  fr_cl :: "ptr option"
  fr_proto :: "ptr option"
  fr_base :: int
  fr_varargs :: "tvalue list"
  fr_finalizer :: bool

record thread =
  th_stack :: "tvalue list"
  th_frames :: "call_frame list"
  th_hook :: "ptr option"
  th_open :: "ptr list"
  th_top :: int
  th_version :: u32
  th_base :: int
  th_err_set :: bool

record userdata =
  u_metatable :: "ptr option"
  u_uservalue :: tvalue
  u_data :: string

datatype gc_obj =
  OString
  | OTable table
  | OProto proto
  | OClosure closure
  | OUpVal upval
  | OThread thread
  | OUserdata userdata

text \<open>The header of an object, with the closure cache of a prototype beside it.\<close>

record cell =
  c_mark :: u8
  c_flags :: u16
  c_cache :: "ptr option"
  c_obj :: gc_obj

definition White0 :: u8 where "White0 = 0"
definition White1 :: u8 where "White1 = 1"
definition Gray :: u8 where "Gray = 2"
definition Black :: u8 where "Black = 3"

definition GcFlagFinalized :: u16 where "GcFlagFinalized = 1"

datatype gc_phase = Pause | Propagate | Sweep

record gstate =
  g_all :: "(ptr \<times> cell) list"
  g_gray :: "ptr list"
  g_white :: u8
  g_phase :: gc_phase
  g_finalize :: "ptr list"
  g_debt :: int
  g_threshold :: int
  g_collecting :: bool
  g_running_finalizer :: bool
  g_isrunning :: bool
  g_stress :: bool
  g_strs :: str_heap
  g_strtab :: string_table
  g_globals :: "ptr option"
  g_registry :: "ptr option"
  g_type_mt :: "ptr option list"
  g_main :: "ptr option"
  g_current :: "ptr option"
  g_tm_names :: "ptr option list"

section \<open>Access\<close>

definition cell_at :: "gstate \<Rightarrow> ptr \<Rightarrow> cell option" where
  "cell_at g p = map_of (g_all g) p"

definition obj_at :: "gstate \<Rightarrow> ptr \<Rightarrow> gc_obj option" where
  "obj_at g p = map_option c_obj (cell_at g p)"

definition live :: "gstate \<Rightarrow> ptr \<Rightarrow> bool" where
  "live g p \<longleftrightarrow> cell_at g p \<noteq> None"

definition mark_at :: "gstate \<Rightarrow> ptr \<Rightarrow> u8" where
  "mark_at g p = (case cell_at g p of Some c \<Rightarrow> c_mark c | None \<Rightarrow> Black)"

definition upd_cells :: "ptr \<Rightarrow> (cell \<Rightarrow> cell) \<Rightarrow> (ptr \<times> cell) list \<Rightarrow> (ptr \<times> cell) list" where
  "upd_cells p f cs = map (\<lambda>(q, c). (q, if q = p then f c else c)) cs"

definition upd_cell :: "ptr \<Rightarrow> (cell \<Rightarrow> cell) \<Rightarrow> gstate \<Rightarrow> gstate" where
  "upd_cell p f g = g\<lparr>g_all := upd_cells p f (g_all g)\<rparr>"

definition table_at :: "gstate \<Rightarrow> ptr \<Rightarrow> table option" where
  "table_at g p = (case obj_at g p of Some (OTable t) \<Rightarrow> Some t | _ \<Rightarrow> None)"

definition thread_at :: "gstate \<Rightarrow> ptr \<Rightarrow> thread option" where
  "thread_at g p = (case obj_at g p of Some (OThread t) \<Rightarrow> Some t | _ \<Rightarrow> None)"

definition set_obj :: "ptr \<Rightarrow> gc_obj \<Rightarrow> gstate \<Rightarrow> gstate" where
  "set_obj p ob g = upd_cell p (\<lambda>c. c\<lparr>c_obj := ob\<rparr>) g"

lemma map_of_upd_cells:
  "map_of (upd_cells p f cs) q = (if q = p then map_option f (map_of cs p) else map_of cs q)"
  by (induction cs) (auto simp: upd_cells_def)

lemma cell_at_upd [simp]:
  "cell_at (upd_cell p f g) q = (if q = p then map_option f (cell_at g p) else cell_at g q)"
  by (simp add: cell_at_def upd_cell_def map_of_upd_cells)

lemma map_fst_upd_cells [simp]: "map fst (upd_cells p f cs) = map fst cs"
  by (simp add: upd_cells_def case_prod_unfold comp_def)

lemma upd_cell_fields [simp]:
  "g_gray (upd_cell p f g) = g_gray g" "g_white (upd_cell p f g) = g_white g"
  "map fst (g_all (upd_cell p f g)) = map fst (g_all g)"
  "g_current (upd_cell p f g) = g_current g" "g_main (upd_cell p f g) = g_main g"
  by (simp_all add: upd_cell_def)

lemma cell_at_gray [simp]: "cell_at (g\<lparr>g_gray := x\<rparr>) p = cell_at g p"
  by (simp add: cell_at_def)

section \<open>Creating objects\<close>

text \<open>\<open>GC::link\<close>: the new object is white and at the head of \<open>all_\<close>.\<close>

definition gc_link :: "ptr \<Rightarrow> gc_obj \<Rightarrow> int \<Rightarrow> gstate \<Rightarrow> gstate" where
  "gc_link p ob bytes g =
     g\<lparr>g_all := (p, \<lparr>c_mark = g_white g, c_flags = 0, c_cache = None, c_obj = ob\<rparr>) # g_all g,
       g_debt := g_debt g + bytes\<rparr>"

section \<open>Metatables and metamethod names\<close>

definition TM_GC :: nat where "TM_GC = 2"
definition TM_MODE :: nat where "TM_MODE = 3"

definition tm_names_list :: "string list" where
  "tm_names_list =
     [''__index'', ''__newindex'', ''__gc'', ''__mode'', ''__len'', ''__eq'', ''__add'',
      ''__sub'', ''__mul'', ''__mod'', ''__pow'', ''__div'', ''__idiv'', ''__band'',
      ''__bor'', ''__bxor'', ''__shl'', ''__shr'', ''__unm'', ''__bnot'', ''__lt'',
      ''__le'', ''__concat'', ''__call'']"

definition get_metatable :: "gstate \<Rightarrow> tvalue \<Rightarrow> ptr option" where
  "get_metatable g v =
     (case v of
        VTable p \<Rightarrow> (case obj_at g p of Some (OTable t) \<Rightarrow> t_metatable t | _ \<Rightarrow> None)
      | VUserdata p \<Rightarrow> (case obj_at g p of Some (OUserdata u) \<Rightarrow> u_metatable u | _ \<Rightarrow> None)
      | _ \<Rightarrow>
          (let i = unat (tag_code (if tag_of v = TagInt then TagFloat else tag_of v))
           in if i < length (g_type_mt g) then g_type_mt g ! i else None))"

text \<open>\<open>get_tm\<close> on a metatable: the absence cache is read first and filled on a miss.\<close>

definition get_tm_table :: "str_heap \<Rightarrow> ptr option list \<Rightarrow> table \<Rightarrow> nat \<Rightarrow> tvalue \<times> table" where
  "get_tm_table H names mt e =
     (if no_tm mt e then (VNil, mt)
      else case names ! e of
        None \<Rightarrow> (VNil, mt)
      | Some name \<Rightarrow>
          (let tm = table_get H mt (VString name) in (tm, if is_nil tm then mark_no_tm mt e else mt)))"

definition get_tm :: "gstate \<Rightarrow> ptr option \<Rightarrow> nat \<Rightarrow> tvalue \<times> gstate" where
  "get_tm g mt e =
     (case mt of
        None \<Rightarrow> (VNil, g)
      | Some p \<Rightarrow>
          (case table_at g p of
             None \<Rightarrow> (VNil, g)
           | Some t \<Rightarrow>
               (let (tm, t') = get_tm_table (g_strs g) (g_tm_names g) t e in (tm, set_obj p (OTable t') g))))"

definition get_metamethod :: "gstate \<Rightarrow> tvalue \<Rightarrow> nat \<Rightarrow> tvalue \<times> gstate" where
  "get_metamethod g v e = get_tm g (get_metatable g v) e"

section \<open>The absence cache is coherent\<close>

text \<open>The cache of a metatable is right when a set bit means that the metamethod is absent.\<close>

definition tm_cache_ok :: "str_heap \<Rightarrow> ptr option list \<Rightarrow> table \<Rightarrow> bool" where
  "tm_cache_ok H names t \<longleftrightarrow>
     (\<forall>e < length names. \<forall>p. names ! e = Some p \<longrightarrow> no_tm t e \<longrightarrow> table_get H t (VString p) = VNil)"

text \<open>The names are interned strings that start with two underscores (\<open>init_tm_names\<close>).\<close>

definition names_ok :: "str_heap \<Rightarrow> ptr option list \<Rightarrow> bool" where
  "names_ok H names \<longleftrightarrow> length names \<le> 32 \<and> (\<forall>p. Some p \<in> set names \<longrightarrow> is_meta_name (ls_data (H p)))"

lemma raw_insert_flags: "raw_insert H kv t = Inr (t', b) \<Longrightarrow> t_flags t' = t_flags t"
  by (auto simp: raw_insert_def raw_insert_hash_def put_node_def put_value_def put_array_def panic_def
      split: if_splits option.splits probe.splits)

lemma raw_insert_all_flags: "raw_insert_all H kvs t = Inr (t', b) \<Longrightarrow> t_flags t' = t_flags t"
  by (induction kvs arbitrary: t b) (auto simp: rbind_eq_Inr dest: raw_insert_flags)

lemma rehash_flags: "rehash H t a h = Inr (t', b) \<Longrightarrow> t_flags t' = t_flags t"
  by (auto simp: rehash_def Let_def bump_version_def dest!: raw_insert_all_flags)

lemma set_hash_flags:
  "set_hash H k v t = Written (t', b) \<Longrightarrow> t_flags t' = t_flags t"
  "set_hash H k v t = NeedRehash t' \<Longrightarrow> t_flags t' = t_flags t"
  by (auto simp: set_hash_def bump_version_def put_node_def put_value_def
      split: prod.splits probe.splits if_splits option.splits)

lemma set_pass_flags:
  "set_pass H k v t = Written (t', b) \<Longrightarrow> t_flags t' = t_flags (invalidate_tm H k t)"
  "set_pass H k v t = NeedRehash t' \<Longrightarrow> t_flags t' = t_flags (invalidate_tm H k t)"
  by (auto simp: set_pass_def Let_def set_int_array_def put_array_def bump_version_def ensure_hash_def
      split: option.splits if_splits dest!: set_hash_flags)

lemma table_set_flags:
  "table_set H t k v = Inr (t', b) \<Longrightarrow> t_flags t' = t_flags (invalidate_tm H k t)"
proof (induction H t k v arbitrary: t' b rule: table_set.induct)
  case (1 H t k v)
  show ?case
  proof (cases "set_pass H k v t")
    case (Written r)
    then show ?thesis using "1.prems" set_pass_flags(1) [of H k v t t' b]
      by (cases "bad_key k") (auto simp: table_set.simps [of H t] panic_def)
  next
    case (NeedRehash t1)
    then obtain t2 b2 b3 where r: "bad_key k = None" "rehash H t1 (length (t_array t1)) (2 * length (t_hash t1)) = Inr (t2, b2)"
        "table_set H t2 k v = Inr (t', b3)"
      using "1.prems" by (cases "bad_key k") (auto simp: table_set.simps [of H t] panic_def split: sum.splits)
    have "t_flags t' = t_flags (invalidate_tm H k t2)" by (rule "1.IH" [OF r(1) NeedRehash r(2) refl r(3)])
    moreover have "t_flags t2 = t_flags (invalidate_tm H k t)"
      using rehash_flags [OF r(2)] set_pass_flags(2) [OF NeedRehash] by simp
    ultimately show ?thesis by (cases k) (auto simp: clear_tm_cache_def)
  qed
qed

text \<open>C11: the metamethod cache never hides a metamethod. Storing into a metatable keeps the cache
  coherent (a store under a name with two underscores drops it, any other store cannot touch a
  metamethod), and a cached lookup returns what an uncached one would, leaving the cache coherent.\<close>

theorem fasttm_cache_coherent:
  assumes inv: "table_inv H t" and names: "names_ok H names" and ok: "tm_cache_ok H names t"
    and w: "table_set H t k v = Inr (t', b)" and e: "e < length names" "names ! e = Some p"
  shows "tm_cache_ok H names t' \<and>
    fst (get_tm_table H names t' e) = table_get H t' (VString p) \<and>
    tm_cache_ok H names (snd (get_tm_table H names t' e))"
proof -
  have bk: "bad_key k = None" using w table_set_bad [of k _ H t v] by (cases "bad_key k") (auto simp: panic_def)
  obtain t1 b1 where "table_set H t k v = Inr (t1, b1)"
      "\<forall>k'. table_get H t1 k' = (if lookup_key k' = lookup_key k then v else table_get H t k')"
    using table_set_get [OF inv bk, of v] by blast
  with w have get: "\<And>k'. table_get H t' k' = (if lookup_key k' = lookup_key k then v else table_get H t k')" by auto
  have fl: "t_flags t' = t_flags (invalidate_tm H k t)" by (rule table_set_flags [OF w])
  have ok': "tm_cache_ok H names t'"
    unfolding tm_cache_ok_def
  proof (intro allI impI)
    fix e p assume e: "e < length names" "names ! e = Some p" and n: "no_tm t' e"
    have mp: "is_meta_name (ls_data (H p))" using names e nth_mem [of e names] by (auto simp: names_ok_def)
    have nk: "lookup_key (VString p) \<noteq> lookup_key k"
    proof
      assume "lookup_key (VString p) = lookup_key k"
      then have "k = VString p"
        by (cases k) (auto simp: lookup_key_def split: option.splits if_splits)
      with fl mp n show False by (simp add: clear_tm_cache_def no_tm_def)
    qed
    have "no_tm t e" using n fl by (cases k) (auto simp: no_tm_def clear_tm_cache_def split: if_splits)
    with ok e nk get show "table_get H t' (VString p) = VNil" by (auto simp: tm_cache_ok_def)
  qed
  have mark: "tm_cache_ok H names (mark_no_tm t' e)" if "table_get H t' (VString p) = VNil"
    unfolding tm_cache_ok_def
  proof (intro allI impI)
    fix e' q assume q: "e' < length names" "names ! e' = Some q" "no_tm (mark_no_tm t' e) e'"
    have tg: "table_get H (mark_no_tm t' e) = table_get H t'" by (intro ext) (auto simp: table_get_def mark_no_tm_def split: option.splits)
    have l: "e < 32" "e' < 32" using e q names by (auto simp: names_ok_def)
    have "e' = e \<or> no_tm t' e'"
    proof -
      have "no_tm x e' \<longleftrightarrow> bit (t_flags x) e'" for x :: table
        using l(2) and_exp_eq_0_iff_not_bit [of "t_flags x" e'] by (simp add: no_tm_def push_bit_eq_mult)
      moreover have "bit (push_bit e (1 :: u32)) e' \<longleftrightarrow> e' = e"
        using l by (auto simp: bit_exp_iff)
      ultimately show ?thesis using q(3) by (auto simp: mark_no_tm_def bit_or_iff)
    qed
    then show "table_get H (mark_no_tm t' e) (VString q) = VNil"
      using q(1,2) ok' e(2) that by (auto simp: tg tm_cache_ok_def)
  qed
  show ?thesis
    using ok' mark e by (auto simp: get_tm_table_def Let_def is_nil_def tm_cache_ok_def)
qed

text \<open>A new metatable, a store of a plain key, and the lookup of \<open>__gc\<close>.\<close>

definition meta_heap :: str_heap where
  "meta_heap p = \<lparr>ls_hash = 0, ls_data = ''__gc''\<rparr>"

theorem fasttm_cache_coherent_witness:
  "\<exists>t b. table_set meta_heap (table_new 0 0) (VInt 1) (VInt 2) = Inr (t, b) \<and>
    fst (get_tm_table meta_heap [Some 9] t 0) = table_get meta_heap t (VString 9)"
proof -
  have i: "table_inv meta_heap (table_new 0 0)" by (rule table_new_inv) simp
  obtain t b where w: "table_set meta_heap (table_new 0 0) (VInt 1) (VInt 2) = Inr (t, b)"
    using table_set_get [OF i, of "VInt 1" "VInt 2"] by (auto simp: bad_key_def)
  have "names_ok meta_heap [Some 9]" by (simp add: names_ok_def meta_heap_def is_meta_name_def)
  moreover have "tm_cache_ok meta_heap [Some 9] (table_new 0 0)" by (simp add: tm_cache_ok_def table_new_get)
  ultimately show ?thesis using fasttm_cache_coherent [OF i _ _ w, of "[Some 9]" 0 9] w by auto
qed

end
