(* ===== verification/Lt_Stack.thy ===== *)
theory Lt_Stack
  imports Lt_Heap
begin

text \<open>
  The value stack of a thread: the stack operations of \<open>src/vm/state.cpp\<close>. A thread has one vector
  of slots; a C function sees the window from \<open>stack_base\<close> to \<open>top\<close>, indexed from 1, or from -1
  backwards. Indices are the \<open>int\<close>s of the source.
\<close>

definition ensure_stack :: "int \<Rightarrow> thread \<Rightarrow> thread" where
  "ensure_stack n th =
     (if int (length (th_stack th)) < n
      then th\<lparr>th_stack := th_stack th @ replicate (nat n + 64 - length (th_stack th)) VNil,
              th_version := th_version th + 1\<rparr>
      else th)"

definition gettop :: "thread \<Rightarrow> int" where
  "gettop th = th_top th - th_base th"

text \<open>\<open>for (i = a; i < b; ++i) stack[i] = nil\<close>\<close>

definition nil_range :: "nat \<Rightarrow> nat \<Rightarrow> tvalue list \<Rightarrow> tvalue list" where
  "nil_range a b xs = map (\<lambda>i. if a \<le> i \<and> i < b then VNil else xs ! i) [0..<length xs]"

definition set_abs_top :: "int \<Rightarrow> thread \<Rightarrow> thread" where
  "set_abs_top abs_idx th =
     (let n = (if abs_idx < 0 then 0 else abs_idx); th1 = ensure_stack n th in
      (if n < th_top th1 then th1\<lparr>th_stack := nil_range (nat n) (nat (th_top th1)) (th_stack th1)\<rparr> else th1)
        \<lparr>th_top := n\<rparr>)"

definition settop :: "int \<Rightarrow> thread \<Rightarrow> thread" where
  "settop idx th =
     (let i1 = (if idx < 0 then gettop th + idx + 1 else idx); i2 = (if i1 < 0 then 0 else i1)
      in set_abs_top (th_base th + i2) th)"

definition push :: "tvalue \<Rightarrow> thread \<Rightarrow> thread" where
  "push v th =
     (let th1 = ensure_stack (th_top th + 1) th
      in th1\<lparr>th_stack := (th_stack th1)[nat (th_top th1) := v], th_top := th_top th1 + 1\<rparr>)"

definition pop :: "thread \<Rightarrow> tvalue \<times> thread" where
  "pop th =
     (if th_top th \<le> th_base th then (VNil, th)
      else (th_stack th ! nat (th_top th - 1), th\<lparr>th_top := th_top th - 1\<rparr>))"

definition top_ref :: "thread \<Rightarrow> (tvalue \<times> thread) result" where
  "top_ref th =
     (let th1 = ensure_stack (th_base th + 1) th in
      if th_top th1 \<le> th_base th1 then panic ''top_ref on empty stack''
      else Inr (th_stack th1 ! nat (th_top th1 - 1), th1))"

definition absindex :: "thread \<Rightarrow> int \<Rightarrow> int" where
  "absindex th idx = (if 0 < idx then idx else if idx = 0 then 0 else gettop th + idx + 1)"

definition at :: "thread \<Rightarrow> int \<Rightarrow> tvalue result" where
  "at th idx0 =
     (let idx = absindex th idx0 in
      if idx \<le> 0 \<or> gettop th < idx then panic ''invalid stack index''
      else Inr (th_stack th ! nat (th_base th + idx - 1)))"

section \<open>The window\<close>

definition stack_ok :: "thread \<Rightarrow> bool" where
  "stack_ok th \<longleftrightarrow> 0 \<le> th_base th \<and> th_base th \<le> th_top th \<and> th_top th \<le> int (length (th_stack th))"

definition window :: "thread \<Rightarrow> tvalue list" where
  "window th = take (nat (gettop th)) (drop (nat (th_base th)) (th_stack th))"

lemma length_window: "stack_ok th \<Longrightarrow> int (length (window th)) = gettop th"
  by (auto simp: stack_ok_def window_def gettop_def)

lemma ensure_stack_fields [simp]:
  "th_top (ensure_stack n th) = th_top th" "th_base (ensure_stack n th) = th_base th"
  by (simp_all add: ensure_stack_def)

lemma ensure_stack_take:
  "k \<le> length (th_stack th) \<Longrightarrow> take k (th_stack (ensure_stack n th)) = take k (th_stack th)"
  "n \<le> int (length (th_stack (ensure_stack n th)))"
  "length (th_stack th) \<le> length (th_stack (ensure_stack n th))"
  by (auto simp: ensure_stack_def)

lemma window_alt: "window th = drop (nat (th_base th)) (take (nat (th_top th)) (th_stack th))"
  if "stack_ok th"
proof -
  have "nat (gettop th) = nat (th_top th) - nat (th_base th)" using that by (auto simp: stack_ok_def gettop_def)
  then show ?thesis by (simp add: window_def drop_take)
qed

lemma push_window:
  assumes "stack_ok th"
  shows "stack_ok (push v th)" "window (push v th) = window th @ [v]"
proof -
  define s where "s = th_stack (ensure_stack (th_top th + 1) th)"
  let ?t = "nat (th_top th)"
  have l: "?t < length s" "?t \<le> length (th_stack th)"
    using assms ensure_stack_take(2) [of "th_top th + 1" th] by (auto simp: stack_ok_def s_def)
  have st: "th_stack (push v th) = s[?t := v]" "th_top (push v th) = th_top th + 1" "th_base (push v th) = th_base th"
    by (simp_all add: push_def s_def Let_def)
  show ok: "stack_ok (push v th)" using assms l st by (auto simp: stack_ok_def)
  have "take (nat (th_top th + 1)) (s[?t := v]) = take ?t s @ [v]"
    using assms l by (simp add: stack_ok_def nat_add_distrib take_Suc_conv_app_nth)
  moreover have "take ?t s = take ?t (th_stack th)" using l by (simp add: s_def ensure_stack_take)
  moreover have "nat (th_base th) \<le> length (take ?t (th_stack th))" using assms l by (auto simp: stack_ok_def)
  ultimately show "window (push v th) = window th @ [v]"
    by (simp add: window_alt [OF ok] window_alt [OF assms] st)
qed

lemma pop_window:
  assumes "stack_ok th" "window th = xs @ [x]"
  shows "fst (pop th) = x" "stack_ok (snd (pop th))" "window (snd (pop th)) = xs"
proof -
  let ?n = "nat (th_top th) - nat (th_base th)"
  have g: "0 < gettop th" using length_window [OF assms(1)] assms(2) by simp
  then have t: "th_base th < th_top th" by (simp add: gettop_def)
  have p: "pop th = (th_stack th ! nat (th_top th - 1), th\<lparr>th_top := th_top th - 1\<rparr>)"
    using t by (simp add: pop_def)
  show ok: "stack_ok (snd (pop th))" using assms(1) t by (simp add: p stack_ok_def)
  have k: "nat (th_top th) = Suc (nat (th_top th - 1))" "nat (th_top th - 1) < length (th_stack th)"
    "nat (th_base th) \<le> nat (th_top th - 1)"
    using assms(1) t by (auto simp: stack_ok_def)
  have w: "window th = drop (nat (th_base th)) (take (nat (th_top th - 1)) (th_stack th)) @ [th_stack th ! nat (th_top th - 1)]"
    using k by (simp add: window_alt [OF assms(1)] take_Suc_conv_app_nth del: nat_diff_distrib')
  then show "fst (pop th) = x" "window (snd (pop th)) = xs"
    using assms(2) window_alt [OF ok] by (simp_all add: p)
qed

lemma settop_shrink:
  assumes ok: "stack_ok th" and n: "0 \<le> n" "n \<le> gettop th"
  shows "stack_ok (settop n th)" "window (settop n th) = take (nat n) (window th)"
proof -
  let ?a = "th_base th + n"
  have a: "0 \<le> ?a" "?a \<le> th_top th" "?a \<le> int (length (th_stack th))" using assms by (auto simp: stack_ok_def gettop_def)
  then have e: "ensure_stack ?a th = th" by (simp add: ensure_stack_def)
  define s where "s = (if ?a < th_top th then nil_range (nat ?a) (nat (th_top th)) (th_stack th) else th_stack th)"
  have st: "th_stack (settop n th) = s" "th_top (settop n th) = ?a" "th_base (settop n th) = th_base th"
    using n a e by (auto simp: settop_def set_abs_top_def s_def Let_def)
  have ls: "length s = length (th_stack th)" by (simp add: s_def nil_range_def)
  show ok': "stack_ok (settop n th)" using assms(1) n a by (simp add: stack_ok_def st ls)
  have "take (nat ?a) s = take (nat ?a) (th_stack th)"
    by (rule nth_equalityI) (auto simp: s_def nil_range_def)
  moreover have "nat ?a - nat (th_base th) = nat n" using n ok by (auto simp: stack_ok_def)
  ultimately show "window (settop n th) = take (nat n) (window th)"
    using n ok by (simp add: window_alt [OF ok'] st drop_take)
      (simp add: window_def gettop_def stack_ok_def min_def)
qed

section \<open>The interface of a stack\<close>

locale lifo =
  fixes inv :: "'t \<Rightarrow> bool" and view :: "'t \<Rightarrow> 'v list"
    and psh :: "'v \<Rightarrow> 't \<Rightarrow> 't" and pp :: "'t \<Rightarrow> 'v \<times> 't"
  assumes push_ok: "inv t \<Longrightarrow> inv (psh v t) \<and> view (psh v t) = view t @ [v]"
    and pop_ok: "inv t \<Longrightarrow> view t = xs @ [x] \<Longrightarrow> fst (pp t) = x \<and> inv (snd (pp t)) \<and> view (snd (pp t)) = xs"
begin

definition push_all :: "'v list \<Rightarrow> 't \<Rightarrow> 't" where
  "push_all vs t = foldl (\<lambda>t v. psh v t) t vs"

fun pop_n :: "nat \<Rightarrow> 't \<Rightarrow> 'v list \<times> 't" where
  "pop_n 0 t = ([], t)"
| "pop_n (Suc n) t = (let (v, t1) = pp t; (vs, t2) = pop_n n t1 in (v # vs, t2))"

lemma push_all_ok: "inv t \<Longrightarrow> inv (push_all vs t) \<and> view (push_all vs t) = view t @ vs"
  by (induction vs arbitrary: t) (auto simp: push_all_def push_ok)

lemma pop_n_ok:
  "inv t \<Longrightarrow> view t = xs @ vs \<Longrightarrow> fst (pop_n (length vs) t) = rev vs \<and> inv (snd (pop_n (length vs) t)) \<and>
    view (snd (pop_n (length vs) t)) = xs"
proof (induction vs arbitrary: t rule: rev_induct)
  case (snoc v vs)
  obtain w t1 where p: "pp t = (w, t1)" by (cases "pp t")
  have "w = v" "inv t1" "view t1 = xs @ vs" using pop_ok [of t "xs @ vs" v] snoc.prems p by auto
  with snoc.IH [of t1] show ?case by (simp add: p case_prod_beta)
qed simp

lemma push_pop_n: "inv t \<Longrightarrow> fst (pop_n (length vs) (push_all vs t)) = rev vs \<and>
    view (snd (pop_n (length vs) (push_all vs t))) = view t"
  using push_all_ok [of t vs] pop_n_ok [of "push_all vs t" "view t" vs] by blast

end

interpretation stk: lifo stack_ok window push pop
  by unfold_locales (use push_window pop_window in blast)+

text \<open>the stack is a stack: on a well-formed thread, whatever the reallocations, pushing values and
  popping as many returns them in reverse and leaves the window as it was.\<close>

theorem stack_push_pop:
  assumes "stack_ok th"
  shows "fst (stk.pop_n (length vs) (stk.push_all vs th)) = rev vs \<and>
    window (snd (stk.pop_n (length vs) (stk.push_all vs th))) = window th"
  by (rule stk.push_pop_n [OF assms])

text \<open>A thread with one slot and two pushes: the second one reallocates.\<close>

definition tiny_thread :: thread where
  "tiny_thread = \<lparr>th_stack = [VNil], th_frames = [], th_hook = None, th_open = [], th_top = 0,
                  th_version = 0, th_base = 0, th_err_set = False\<rparr>"

theorem stack_push_pop_witness:
  "fst (stk.pop_n 2 (stk.push_all [VInt 1, VInt 2] tiny_thread)) = [VInt 2, VInt 1]"
  using stack_push_pop [of tiny_thread "[VInt 1, VInt 2]"] by (simp add: stack_ok_def tiny_thread_def numeral_2_eq_2)

text \<open>Indexing reads the window: positive indices from its start, negative ones from its end, and
  every index outside it is an error.\<close>

theorem stack_at_window:
  assumes "stack_ok th"
  shows "at th idx =
    (if 1 \<le> idx \<and> idx \<le> int (length (window th)) then Inr (window th ! nat (idx - 1))
     else if - int (length (window th)) \<le> idx \<and> idx \<le> - 1 then Inr (window th ! nat (int (length (window th)) + idx))
     else Inl (LuatierError ''invalid stack index''))"
proof -
  note l = length_window [OF assms]
  have nth: "th_stack th ! nat (th_base th + i - 1) = window th ! nat (i - 1)" if "1 \<le> i" "i \<le> gettop th" for i
  proof -
    have "nat (i - 1) < nat (gettop th)" "nat (th_base th) + nat (i - 1) = nat (th_base th + i - 1)"
      using that assms by (auto simp: stack_ok_def)
    moreover have "nat (th_base th) + nat (i - 1) \<le> length (th_stack th)"
      using that assms by (auto simp: stack_ok_def gettop_def)
    ultimately show ?thesis using assms by (simp add: window_def stack_ok_def)
  qed
  show ?thesis
    using nth [of idx] nth [of "gettop th + idx + 1"] l
    by (auto simp: at_def absindex_def Let_def panic_def algebra_simps)
qed

theorem stack_at_window_witness: "at (push (VInt 7) tiny_thread) (- 1) = Inr (VInt 7)"
proof -
  have t: "stack_ok tiny_thread" "window tiny_thread = []" by (simp_all add: stack_ok_def tiny_thread_def window_def gettop_def)
  have "stack_ok (push (VInt 7) tiny_thread)" "window (push (VInt 7) tiny_thread) = [VInt 7]"
    using push_window [OF t(1), of "VInt 7"] t(2) by simp_all
  with stack_at_window [of "push (VInt 7) tiny_thread" "- 1"] show ?thesis by simp
qed

text \<open>Raising the top does not clear the slots it uncovers: a value that was popped is visible
  again after \<open>settop\<close> to the old height, where the Lua manual (lua_settop) promises nil.\<close>

theorem settop_uncovers_popped:
  "window (settop 1 (snd (pop (push (VInt 7) tiny_thread)))) = [VInt 7]"
  by (simp add: settop_def set_abs_top_def ensure_stack_def pop_def push_def tiny_thread_def window_def gettop_def)

end
