(* ===== verification/Lt_Gc.thy ===== *)
theory Lt_Gc
  imports Lt_Stack
begin

text \<open>
  The mark-sweep collector: \<open>src/gc/gc.cpp\<close>. Marking pushes white objects on the gray list and
  \<open>propagate_one\<close> blackens the first of them after marking what it refers to; the atomic part of
  \<open>sweep\<close> settles weak tables, ephemerons and finalizers, then every object that is still white is
  freed. The call of a finalizer (\<open>call_closure\<close>, which may run any Lua code) is an argument of
  \<open>run_finalizers\<close>.
\<close>

section \<open>What an object refers to\<close>

text \<open>\<open>obs\<close> gives the contents of the objects and \<open>cur\<close> is the running thread.\<close>

definition opt_list :: "'a option \<Rightarrow> 'a list" where
  "opt_list x = (case x of None \<Rightarrow> [] | Some a \<Rightarrow> [a])"

definition value_ptrs :: "tvalue list \<Rightarrow> ptr list" where
  "value_ptrs vs = concat (map (\<lambda>v. opt_list (gc_ptr v)) vs)"

definition proto_maxstack :: "(ptr \<Rightarrow> gc_obj option) \<Rightarrow> ptr \<Rightarrow> int" where
  "proto_maxstack obs p = (case obs p of Some (OProto pr) \<Rightarrow> p_maxstack pr | _ \<Rightarrow> 0)"

definition frame_extent :: "(ptr \<Rightarrow> gc_obj option) \<Rightarrow> call_frame \<Rightarrow> int option" where
  "frame_extent obs fr =
     (case fr_proto fr of
        Some p \<Rightarrow> Some (fr_base fr + proto_maxstack obs p)
      | None \<Rightarrow>
          (case fr_cl fr of
             Some c \<Rightarrow>
               (case obs c of
                  Some (OClosure cl) \<Rightarrow>
                    (case cl_proto cl of Some p \<Rightarrow> Some (fr_base fr + proto_maxstack obs p) | None \<Rightarrow> None)
                | _ \<Rightarrow> None)
           | None \<Rightarrow> None))"

definition lua_frame_high_water :: "(ptr \<Rightarrow> gc_obj option) \<Rightarrow> thread \<Rightarrow> int" where
  "lua_frame_high_water obs th =
     foldl (\<lambda>limit fr. case frame_extent obs fr of Some e \<Rightarrow> max limit e | None \<Rightarrow> limit) 0 (th_frames th)"

definition stack_limit :: "(ptr \<Rightarrow> gc_obj option) \<Rightarrow> bool \<Rightarrow> thread \<Rightarrow> int" where
  "stack_limit obs strict th =
     (if strict \<and> th_base th \<noteq> 0 then th_top th else max (th_top th) (lua_frame_high_water obs th))"

definition thread_stack_ptrs :: "(ptr \<Rightarrow> gc_obj option) \<Rightarrow> bool \<Rightarrow> thread \<Rightarrow> ptr list" where
  "thread_stack_ptrs obs strict th =
     value_ptrs (take (nat (min (stack_limit obs strict th) (int (length (th_stack th))))) (th_stack th))"

definition frame_ptrs :: "call_frame \<Rightarrow> ptr list" where
  "frame_ptrs fr = opt_list (fr_cl fr) @ opt_list (fr_proto fr) @ value_ptrs (fr_varargs fr)"

definition thread_ptrs :: "(ptr \<Rightarrow> gc_obj option) \<Rightarrow> bool \<Rightarrow> thread \<Rightarrow> ptr list" where
  "thread_ptrs obs strict th =
     thread_stack_ptrs obs strict th @ opt_list (th_hook th) @ concat (map frame_ptrs (th_frames th))"

definition node_ptrs :: "u8 \<Rightarrow> table_node \<Rightarrow> ptr list" where
  "node_ptrs weak n =
     (if \<not> tn_used n then []
      else (if weak AND 1 = 0 then opt_list (gc_ptr (tn_key n)) else []) @
           (if weak AND 2 = 0 \<and> weak AND 1 = 0 then opt_list (gc_ptr (tn_value n)) else []))"

definition table_ptrs :: "table \<Rightarrow> ptr list" where
  "table_ptrs t =
     opt_list (t_metatable t) @
     (if t_weak t AND 2 = 0 then value_ptrs (t_array t) else []) @
     concat (map (node_ptrs (t_weak t)) (t_hash t))"

definition uv_get :: "(ptr \<Rightarrow> gc_obj option) \<Rightarrow> upval \<Rightarrow> tvalue" where
  "uv_get obs uv =
     (if \<not> uv_open uv then uv_closed uv
      else case uv_thread uv of
        None \<Rightarrow> VNil
      | Some t \<Rightarrow>
          (case obs t of
             Some (OThread th) \<Rightarrow>
               (if 0 \<le> uv_index uv \<and> uv_index uv < int (length (th_stack th))
                then th_stack th ! nat (uv_index uv) else VNil)
           | _ \<Rightarrow> VNil))"

fun children :: "(ptr \<Rightarrow> gc_obj option) \<Rightarrow> ptr option \<Rightarrow> ptr \<Rightarrow> gc_obj \<Rightarrow> ptr list" where
  "children obs cur p OString = []"
| "children obs cur p (OTable t) = table_ptrs t"
| "children obs cur p (OProto pr) = value_ptrs (p_constants pr) @ p_protos pr"
| "children obs cur p (OClosure cl) = opt_list (cl_proto cl) @ concat (map opt_list (cl_upvals cl))"
| "children obs cur p (OUpVal uv) =
     opt_list (gc_ptr (uv_get obs uv)) @ (if uv_open uv then opt_list (uv_thread uv) else [])"
| "children obs cur p (OThread th) = thread_ptrs obs (cur = Some p) th"
| "children obs cur p (OUserdata u) = opt_list (u_metatable u) @ opt_list (gc_ptr (u_uservalue u))"

section \<open>Marking\<close>

definition marked :: "u8 \<Rightarrow> bool" where
  "marked m \<longleftrightarrow> m = Black \<or> m = Gray"

definition mark_object :: "ptr \<Rightarrow> gstate \<Rightarrow> gstate" where
  "mark_object p g =
     (case cell_at g p of
        None \<Rightarrow> g
      | Some c \<Rightarrow>
          if marked (c_mark c) then g
          else (upd_cell p (\<lambda>c. c\<lparr>c_mark := Gray\<rparr>) g)\<lparr>g_gray := p # g_gray g\<rparr>)"

definition mark_value :: "tvalue \<Rightarrow> gstate \<Rightarrow> gstate" where
  "mark_value v g = (case gc_ptr v of Some p \<Rightarrow> mark_object p g | None \<Rightarrow> g)"

definition mark_all :: "ptr list \<Rightarrow> gstate \<Rightarrow> gstate" where
  "mark_all ps g = foldl (\<lambda>g p. mark_object p g) g ps"

definition barrier :: "ptr \<Rightarrow> tvalue \<Rightarrow> gstate \<Rightarrow> gstate" where
  "barrier parent child g =
     (case cell_at g parent of
        None \<Rightarrow> g
      | Some c \<Rightarrow> if c_mark c = Black then mark_value child g else g)"

text \<open>The roots, in the order they are marked.\<close>

definition thread_roots :: "gstate \<Rightarrow> ptr \<Rightarrow> ptr list" where
  "thread_roots g p =
     p # (case thread_at g p of
            None \<Rightarrow> []
          | Some th \<Rightarrow> thread_ptrs (obj_at g) (g_current g = Some p) th @ th_open th)"

definition gc_roots :: "gstate \<Rightarrow> ptr list" where
  "gc_roots g =
     opt_list (g_globals g) @ opt_list (g_registry g) @ concat (map opt_list (g_type_mt g)) @
     concat (map (thread_roots g) (opt_list (g_main g) @ opt_list (g_current g))) @
     concat (st_hash (g_strtab g)) @ concat (map opt_list (g_tm_names g))"

definition mark_roots :: "gstate \<Rightarrow> gstate" where
  "mark_roots g = mark_all (gc_roots g) g"

text \<open>A prototype also drops a cached closure that is still white.\<close>

definition blacken :: "gstate \<Rightarrow> cell \<Rightarrow> cell" where
  "blacken g c =
     c\<lparr>c_mark := Black,
       c_cache := (case c_cache c of
                     Some q \<Rightarrow> (case c_obj c of OProto _ \<Rightarrow> if mark_at g q = g_white g then None else Some q | _ \<Rightarrow> Some q)
                   | None \<Rightarrow> None)\<rparr>"

definition propagate_one :: "gstate \<Rightarrow> gstate" where
  "propagate_one g =
     (case g_gray g of
        [] \<Rightarrow> g
      | p # ps \<Rightarrow>
          (case cell_at g p of
             None \<Rightarrow> g\<lparr>g_gray := ps\<rparr>
           | Some c \<Rightarrow>
               mark_all (children (obj_at g) (g_current g) p (c_obj c))
                 (upd_cell p (blacken g) (g\<lparr>g_gray := ps\<rparr>))))"

subsection \<open>Termination of marking\<close>

definition white_count :: "gstate \<Rightarrow> nat" where
  "white_count g = length (filter (\<lambda>(p, c). \<not> marked (c_mark c)) (g_all g))"

definition gc_work :: "gstate \<Rightarrow> nat" where
  "gc_work g = 2 * white_count g + length (g_gray g)"

lemma marked_simps [simp]: "marked Gray" "marked Black"
  by (simp_all add: marked_def)

lemma filter_upd_le:
  "(\<And>c. marked (c_mark c) \<Longrightarrow> marked (c_mark (f c))) \<Longrightarrow>
    length (filter (\<lambda>(p, c). \<not> marked (c_mark c)) (upd_cells p f cs)) \<le> length (filter (\<lambda>(p, c). \<not> marked (c_mark c)) cs)"
  by (induction cs) (auto simp: upd_cells_def split: if_splits)

lemma filter_upd_less:
  "map_of cs p = Some c \<Longrightarrow> \<not> marked (c_mark c) \<Longrightarrow> (\<And>c. marked (c_mark (f c))) \<Longrightarrow>
    length (filter (\<lambda>(p, c). \<not> marked (c_mark c)) (upd_cells p f cs)) < length (filter (\<lambda>(p, c). \<not> marked (c_mark c)) cs)"
proof (induction cs)
  case (Cons x cs)
  obtain q d where x: "x = (q, d)" by (cases x)
  show ?case
  proof (cases "q = p")
    case True
    with Cons.prems x have "d = c" by simp
    then show ?thesis using Cons.prems True x filter_upd_le [of f p cs] by (simp add: upd_cells_def)
  next
    case False
    then show ?thesis using Cons.IH Cons.prems x by (auto simp: upd_cells_def)
  qed
qed simp

lemma white_count_gray [simp]: "white_count (g\<lparr>g_gray := x\<rparr>) = white_count g"
  by (simp add: white_count_def)

lemma mark_object_count:
  "g_gray (mark_object p g) = g_gray g \<and> white_count (mark_object p g) = white_count g \<or>
   g_gray (mark_object p g) = p # g_gray g \<and> white_count (mark_object p g) < white_count g"
  by (auto simp: mark_object_def white_count_def upd_cell_def cell_at_def split: option.splits
      intro!: filter_upd_less)

lemma mark_object_work: "gc_work (mark_object p g) \<le> gc_work g" "white_count (mark_object p g) \<le> white_count g"
  using mark_object_count [of p g] by (auto simp: gc_work_def)

lemma mark_all_work: "gc_work (mark_all ps g) \<le> gc_work g" "white_count (mark_all ps g) \<le> white_count g"
proof (induction ps arbitrary: g)
  case (Cons p ps)
  { case 1 show ?case using Cons.IH(1) [of "mark_object p g"] mark_object_work(1) [of p g] by (simp add: mark_all_def) }
  { case 2 show ?case using Cons.IH(2) [of "mark_object p g"] mark_object_work(2) [of p g] by (simp add: mark_all_def) }
qed (simp_all add: mark_all_def)

lemma blacken_count: "white_count (upd_cell p (blacken g) g') \<le> white_count g'"
  unfolding white_count_def upd_cell_def by (simp add: filter_upd_le blacken_def)

lemma propagate_one_white: "white_count (propagate_one g) \<le> white_count g"
proof (cases "g_gray g")
  case (Cons p ps)
  then show ?thesis
    using mark_all_work(2) blacken_count [of p g "g\<lparr>g_gray := ps\<rparr>"]
    by (auto simp: propagate_one_def split: option.splits intro: le_trans)
qed (simp add: propagate_one_def)

lemma propagate_one_work: "g_gray g \<noteq> [] \<Longrightarrow> gc_work (propagate_one g) < gc_work g"
proof -
  assume "g_gray g \<noteq> []"
  then obtain p ps where g: "g_gray g = p # ps" by (cases "g_gray g") auto
  have *: "gc_work (upd_cell p (blacken g) (g\<lparr>g_gray := ps\<rparr>)) < gc_work g"
    using blacken_count [of p g "g\<lparr>g_gray := ps\<rparr>"] g by (simp add: gc_work_def)
  have "gc_work (mark_all qs (upd_cell p (blacken g) (g\<lparr>g_gray := ps\<rparr>))) < gc_work g" for qs
    using le_less_trans [OF mark_all_work(1) *] .
  with g show ?thesis by (auto simp: propagate_one_def gc_work_def split: option.splits)
qed

function propagate_all :: "gstate \<Rightarrow> gstate" where
  "propagate_all g = (if g_gray g = [] then g else propagate_all (propagate_one g))"
  by pat_completeness auto
termination
  by (relation "measure gc_work") (simp_all add: propagate_one_work)

declare propagate_all.simps [simp del]

lemma propagate_all_white: "white_count (propagate_all g) \<le> white_count g"
proof (induction g rule: propagate_all.induct)
  case (1 g)
  then show ?case using propagate_one_white [of g] by (subst propagate_all.simps) (auto intro: le_trans)
qed

section \<open>Weak tables and ephemerons\<close>

definition clear_weak_cell :: "gstate \<Rightarrow> u8 \<Rightarrow> cell \<Rightarrow> cell" where
  "clear_weak_cell g msk c =
     (case c_obj c of
        OTable t \<Rightarrow>
          if t_weak t \<noteq> 0 then c\<lparr>c_obj := OTable (clear_weak_entries (mark_at g) (g_white g) msk t)\<rparr> else c
      | _ \<Rightarrow> c)"

definition clear_weak_tables :: "u8 \<Rightarrow> gstate \<Rightarrow> gstate" where
  "clear_weak_tables msk g = g\<lparr>g_all := map (\<lambda>(p, c). (p, clear_weak_cell g msk c)) (g_all g)\<rparr>"

text \<open>One entry of an ephemeron table: its value is marked when its key is a marked object. The
  flag says whether the gray list grew.\<close>

definition eph_node :: "table_node \<Rightarrow> gstate \<times> bool \<Rightarrow> gstate \<times> bool" where
  "eph_node n gb =
     (let (g, changed) = gb in
      if \<not> tn_used n \<or> is_nil (tn_key n) then (g, changed)
      else case gc_ptr (tn_key n) of
        None \<Rightarrow> (g, changed)
      | Some k \<Rightarrow>
          if mark_at g k = g_white g \<or> is_nil (tn_value n) then (g, changed)
          else (let g' = mark_value (tn_value n) g in (g', changed \<or> g_gray g' \<noteq> g_gray g)))"

definition eph_object :: "gstate \<times> bool \<Rightarrow> ptr \<Rightarrow> gstate \<times> bool" where
  "eph_object gb p =
     (case table_at (fst gb) p of
        None \<Rightarrow> gb
      | Some t \<Rightarrow>
          if t_weak t AND 1 = 0 \<or> t_weak t AND 2 \<noteq> 0 \<or> mark_at (fst gb) p = g_white (fst gb) then gb
          else foldl (\<lambda>gb n. eph_node n gb) gb (t_hash t))"

definition eph_pass :: "gstate \<Rightarrow> gstate \<times> bool" where
  "eph_pass g = foldl eph_object (g, False) (map fst (g_all g))"

definition eph_ok :: "gstate \<Rightarrow> gstate \<times> bool \<Rightarrow> bool" where
  "eph_ok g0 gb \<longleftrightarrow> white_count (fst gb) \<le> white_count g0 \<and> (snd gb \<longrightarrow> white_count (fst gb) < white_count g0)"

lemma eph_node_ok: "eph_ok g0 gb \<Longrightarrow> eph_ok g0 (eph_node n gb)"
proof -
  assume ok: "eph_ok g0 gb"
  obtain g b where gb: "gb = (g, b)" by (cases gb)
  show ?thesis
  proof (cases "gc_ptr (tn_value n)")
    case None
    then show ?thesis using ok by (auto simp: eph_ok_def eph_node_def gb mark_value_def Let_def split: option.splits)
  next
    case (Some q)
    then show ?thesis using ok mark_object_count [of q g]
      by (auto simp: eph_ok_def eph_node_def gb mark_value_def Let_def split: option.splits)
  qed
qed

lemma foldl_pres: "P s \<Longrightarrow> (\<And>s x. x \<in> set xs \<Longrightarrow> P s \<Longrightarrow> P (f s x)) \<Longrightarrow> P (foldl f s xs)"
  by (induction xs arbitrary: s) auto

lemma eph_object_ok: "eph_ok g0 gb \<Longrightarrow> eph_ok g0 (eph_object gb p)"
  unfolding eph_object_def
  by (auto split: option.splits intro!: foldl_pres [where P = "eph_ok g0"] eph_node_ok)

lemma eph_pass_ok: "eph_ok g (eph_pass g)"
  unfolding eph_pass_def by (rule foldl_pres) (auto simp: eph_ok_def [of g "(g, False)"] eph_object_ok)

function converge_ephemerons :: "gstate \<Rightarrow> gstate" where
  "converge_ephemerons g =
     (let (g1, changed) = eph_pass g; g2 = propagate_all g1 in if changed then converge_ephemerons g2 else g2)"
  by pat_completeness auto
termination
proof (relation "measure white_count")
  fix g x g1 changed g2
  assume a: "x = eph_pass g" "(g1, changed) = x" "g2 = propagate_all g1" changed
  have "white_count g1 < white_count g" using eph_pass_ok [of g] a(2) [symmetric] a by (simp add: eph_ok_def)
  then show "(g2, g) \<in> measure white_count" using propagate_all_white [of g1] a(3) by simp
qed simp

declare converge_ephemerons.simps [simp del]

section \<open>Sweeping\<close>

definition clear_dead_stack :: "(ptr \<Rightarrow> gc_obj option) \<Rightarrow> bool \<Rightarrow> thread \<Rightarrow> thread" where
  "clear_dead_stack obs strict th =
     th\<lparr>th_stack := nil_range (nat (stack_limit obs strict th)) (length (th_stack th)) (th_stack th)\<rparr>"

definition clear_dead_at :: "gstate \<Rightarrow> ptr \<Rightarrow> gstate" where
  "clear_dead_at g p =
     (case thread_at g p of
        None \<Rightarrow> g
      | Some th \<Rightarrow> set_obj p (OThread (clear_dead_stack (obj_at g) (g_current g = Some p) th)) g)"

definition clear_dead_stacks :: "gstate \<Rightarrow> gstate" where
  "clear_dead_stacks g = foldl clear_dead_at g (opt_list (g_main g) @ opt_list (g_current g))"

fun gc_object_value :: "ptr \<Rightarrow> gc_obj \<Rightarrow> tvalue" where
  "gc_object_value p (OTable _) = VTable p"
| "gc_object_value p (OUserdata _) = VUserdata p"
| "gc_object_value p _ = VNil"

fun finalizable_kind :: "gc_obj \<Rightarrow> bool" where
  "finalizable_kind (OTable _) = True"
| "finalizable_kind (OUserdata _) = True"
| "finalizable_kind _ = False"

fun is_function :: "tvalue \<Rightarrow> bool" where
  "is_function (VFunction _) = True"
| "is_function _ = False"

definition object_has_gc :: "gstate \<Rightarrow> ptr \<Rightarrow> cell \<Rightarrow> bool \<times> gstate" where
  "object_has_gc g p c =
     (if c_flags c AND GcFlagFinalized \<noteq> 0 \<or> \<not> finalizable_kind (c_obj c) then (False, g)
      else let (mm, g') = get_metamethod g (gc_object_value p (c_obj c)) TM_GC
           in (is_function mm \<or> is_truthy mm, g'))"

definition collect_finalizable :: "gstate \<Rightarrow> gstate \<times> ptr list" where
  "collect_finalizable g =
     foldl (\<lambda>(g, fs) p.
        case cell_at g p of
          None \<Rightarrow> (g, fs)
        | Some c \<Rightarrow>
            if c_mark c \<noteq> g_white g then (g, fs)
            else (let (has, g') = object_has_gc g p c in (g', if has then fs @ [p] else fs)))
       (g, []) (map fst (g_all g))"

definition resurrect :: "gstate \<Rightarrow> ptr \<Rightarrow> gstate" where
  "resurrect g p =
     (if mark_at g p = g_white g
      then (upd_cell p (\<lambda>c. c\<lparr>c_mark := Gray\<rparr>) g)\<lparr>g_gray := p # g_gray g\<rparr> else g)"

definition set_mark :: "u8 \<Rightarrow> gstate \<Rightarrow> ptr \<Rightarrow> gstate" where
  "set_mark m g p = upd_cell p (\<lambda>c. c\<lparr>c_mark := m\<rparr>) g"

text \<open>Everything of \<open>sweep\<close> up to the loop that frees.\<close>

definition sweep_settle :: "gstate \<Rightarrow> gstate" where
  "sweep_settle g0 =
     (let g1 = clear_dead_stacks g0;
          (g2, fin) = collect_finalizable g1;
          g3 = converge_ephemerons (clear_weak_tables 2 g2);
          g4 = propagate_all (foldl resurrect g3 fin);
          g5 = converge_ephemerons g4;
          g6 = clear_weak_tables 1 (clear_weak_tables 2 g5);
          g7 = foldl (set_mark (g_white g6 XOR 1)) g6 fin
      in g7\<lparr>g_finalize := g_finalize g7 @ fin\<rparr>)"

text \<open>The loop that frees: strings leave the string table, survivors take the other white.\<close>

definition freed :: "gstate \<Rightarrow> (ptr \<times> cell) list" where
  "freed g = filter (\<lambda>(p, c). c_mark c = g_white g) (g_all g)"

definition sweep_free :: "gstate \<Rightarrow> gstate" where
  "sweep_free g =
     (let other = g_white g XOR 1;
          strs = map fst (filter (\<lambda>(p, c). c_obj c = OString) (freed g))
      in g\<lparr>g_all := map (\<lambda>(p, c). (p, c\<lparr>c_mark := other\<rparr>)) (filter (\<lambda>(p, c). c_mark c \<noteq> g_white g) (g_all g)),
           g_strtab := foldl (\<lambda>st s. st_remove (g_strs g) s st) (g_strtab g) strs,
           g_white := other\<rparr>)"

definition sweep_atomic :: "gstate \<Rightarrow> gstate" where
  "sweep_atomic g = sweep_free (sweep_settle g)"

end
