(* ===== verification/Lt_GcInv.thy ===== *)
theory Lt_GcInv
  imports Lt_Gc
begin

text \<open>
  Correctness of the collector of \<open>Lt_Gc\<close>: the tri-colour invariant of marking, that marking
  blackens exactly the objects reachable from the roots, and that a collection frees no reachable
  object and leaves no pointer to a freed one.
\<close>

section \<open>Edges and reachability\<close>

definition children_of :: "gstate \<Rightarrow> ptr \<Rightarrow> ptr list" where
  "children_of g p = (case obj_at g p of None \<Rightarrow> [] | Some ob \<Rightarrow> children (obj_at g) (g_current g) p ob)"

inductive reach :: "gstate \<Rightarrow> ptr set \<Rightarrow> ptr \<Rightarrow> bool" for g R where
  root: "p \<in> R \<Longrightarrow> live g p \<Longrightarrow> reach g R p"
| edge: "reach g R p \<Longrightarrow> q \<in> set (children_of g p) \<Longrightarrow> live g q \<Longrightarrow> reach g R q"

lemma live_obj: "live g p \<longleftrightarrow> obj_at g p \<noteq> None"
  by (simp add: live_def obj_at_def)

lemma live_mem: "live g p \<longleftrightarrow> p \<in> fst ` set (g_all g)"
  by (simp add: live_def cell_at_def map_of_eq_None_iff)

section \<open>What marking changes\<close>

text \<open>Marking changes mark bytes and caches only.\<close>

definition same_objs :: "gstate \<Rightarrow> gstate \<Rightarrow> bool" where
  "same_objs g g' \<longleftrightarrow> obj_at g' = obj_at g \<and> g_current g' = g_current g \<and> g_white g' = g_white g \<and>
     map fst (g_all g') = map fst (g_all g)"

lemma same_objs_refl [simp]: "same_objs g g"
  by (simp add: same_objs_def)

lemma same_objs_trans: "same_objs g g' \<Longrightarrow> same_objs g' g'' \<Longrightarrow> same_objs g g''"
  by (simp add: same_objs_def)

lemma same_objs_children: "same_objs g g' \<Longrightarrow> children_of g' p = children_of g p"
  by (auto simp: same_objs_def children_of_def split: option.splits)

lemma same_objs_live: "same_objs g g' \<Longrightarrow> live g' p = live g p"
  by (simp add: same_objs_def live_obj)

lemma mark_object_at:
  "cell_at (mark_object p g) q =
     (if q = p \<and> live g p \<and> \<not> marked (mark_at g p) then map_option (\<lambda>c. c\<lparr>c_mark := Gray\<rparr>) (cell_at g p)
      else cell_at g q)"
  by (auto simp: mark_object_def live_def mark_at_def split: option.splits)

lemma mark_at_mark_object:
  "mark_at (mark_object p g) q = (if q = p \<and> live g p \<and> \<not> marked (mark_at g p) then Gray else mark_at g q)"
  by (auto simp: mark_at_def mark_object_at live_def split: option.splits)

lemma obj_at_upd: "(\<And>c. c_obj (f c) = c_obj c) \<Longrightarrow> obj_at (upd_cell p f g) q = obj_at g q"
  by (cases "cell_at g p") (auto simp: obj_at_def)

lemma mark_object_same: "same_objs g (mark_object p g)"
  unfolding same_objs_def
proof (intro conjI)
  show "obj_at (mark_object p g) = obj_at g"
    by (intro ext) (auto simp: obj_at_def mark_object_at option.map_comp comp_def)
qed (auto simp: mark_object_def upd_cell_def split: option.splits)

lemma mark_all_Cons [simp]: "mark_all (p # ps) g = mark_all ps (mark_object p g)" "mark_all [] g = g"
  by (simp_all add: mark_all_def)

lemma mark_all_same: "same_objs g (mark_all ps g)"
  by (induction ps arbitrary: g) (auto intro: same_objs_trans mark_object_same)

lemma blacken_same: "same_objs g (upd_cell p (blacken g) (g\<lparr>g_gray := ps\<rparr>))"
  unfolding same_objs_def
proof (intro conjI)
  have "obj_at (g\<lparr>g_gray := ps\<rparr>) = obj_at g" by (intro ext) (simp add: obj_at_def)
  then show "obj_at (upd_cell p (blacken g) (g\<lparr>g_gray := ps\<rparr>)) = obj_at g"
    by (intro ext) (simp add: obj_at_upd blacken_def)
qed (simp_all add: upd_cell_def)

lemma propagate_one_same: "same_objs g (propagate_one g)"
  by (auto simp: propagate_one_def split: list.splits option.splits
      intro: same_objs_trans [OF blacken_same mark_all_same])
    (simp add: same_objs_def obj_at_def fun_eq_iff)

lemma propagate_all_same: "same_objs g (propagate_all g)"
proof (induction g rule: propagate_all.induct)
  case (1 g)
  then show ?case by (subst propagate_all.simps) (auto intro: same_objs_trans propagate_one_same)
qed

section \<open>The tri-colour invariant\<close>

text \<open>
  The gray list holds exactly the gray objects; what a black object refers to is marked (except
  for the objects in \<open>X\<close>, whose references are being marked); an unmarked object has the current
  white; and every marked object satisfies \<open>P\<close>, for which reachability is put in.
\<close>

definition tricolor :: "ptr set \<Rightarrow> (ptr \<Rightarrow> bool) \<Rightarrow> gstate \<Rightarrow> bool" where
  "tricolor X P g \<longleftrightarrow>
     \<not> marked (g_white g) \<and> distinct (g_gray g) \<and>
     (\<forall>p. p \<in> set (g_gray g) \<longleftrightarrow> live g p \<and> mark_at g p = Gray) \<and>
     (\<forall>p. live g p \<longrightarrow> \<not> marked (mark_at g p) \<longrightarrow> mark_at g p = g_white g) \<and>
     (\<forall>p q. live g p \<longrightarrow> p \<notin> X \<longrightarrow> mark_at g p = Black \<longrightarrow> q \<in> set (children_of g p) \<longrightarrow> marked (mark_at g q)) \<and>
     (\<forall>p. live g p \<longrightarrow> marked (mark_at g p) \<longrightarrow> P p)"

lemma tricolorD:
  assumes "tricolor X P g"
  shows "\<not> marked (g_white g)" "distinct (g_gray g)" "p \<in> set (g_gray g) \<longleftrightarrow> live g p \<and> mark_at g p = Gray"
    "live g p \<Longrightarrow> \<not> marked (mark_at g p) \<Longrightarrow> mark_at g p = g_white g"
    "live g p \<Longrightarrow> p \<notin> X \<Longrightarrow> mark_at g p = Black \<Longrightarrow> q \<in> set (children_of g p) \<Longrightarrow> marked (mark_at g q)"
    "live g p \<Longrightarrow> marked (mark_at g p) \<Longrightarrow> P p"
  using assms by (auto simp: tricolor_def)

lemma colors_distinct [simp]: "Gray \<noteq> Black" "Black \<noteq> Gray"
  by (simp_all add: Gray_def Black_def)

lemma marked_absent: "\<not> live g p \<Longrightarrow> marked (mark_at g p)"
  by (simp add: live_def mark_at_def)

lemma mark_object_gray:
  "g_gray (mark_object p g) = (if live g p \<and> \<not> marked (mark_at g p) then p # g_gray g else g_gray g)"
  by (auto simp: mark_object_def live_def mark_at_def split: option.splits)

lemma mark_object_tricolor:
  assumes inv: "tricolor X P g" and P: "live g p \<Longrightarrow> P p"
  shows "tricolor X P (mark_object p g)" "marked (mark_at (mark_object p g) p)"
    "marked (mark_at g q) \<Longrightarrow> marked (mark_at (mark_object p g) q)"
proof -
  note same = mark_object_same [of g p]
  have w: "g_white (mark_object p g) = g_white g" using same by (simp add: same_objs_def)
  show m: "marked (mark_at (mark_object p g) p)"
    by (auto simp: mark_at_mark_object marked_absent)
  show mono: "marked (mark_at g q) \<Longrightarrow> marked (mark_at (mark_object p g) q)" for q
    by (auto simp: mark_at_mark_object)
  show "tricolor X P (mark_object p g)"
    unfolding tricolor_def same_objs_live [OF same] same_objs_children [OF same] w
  proof (intro conjI allI impI)
    show "\<not> marked (g_white g)" using tricolorD(1) [OF inv] .
    show "distinct (g_gray (mark_object p g))"
      using tricolorD(2,3) [OF inv] by (auto simp: mark_object_gray)
  next
    fix q
    show "q \<in> set (g_gray (mark_object p g)) \<longleftrightarrow> live g q \<and> mark_at (mark_object p g) q = Gray"
      using tricolorD(3) [OF inv] by (auto simp: mark_object_gray mark_at_mark_object)
  next
    fix q assume "live g q" "\<not> marked (mark_at (mark_object p g) q)"
    then show "mark_at (mark_object p g) q = g_white g"
      using tricolorD(4) [OF inv] by (auto simp: mark_at_mark_object split: if_splits)
  next
    fix q r assume "live g q" "q \<notin> X" "mark_at (mark_object p g) q = Black" "r \<in> set (children_of g q)"
    then show "marked (mark_at (mark_object p g) r)"
      using tricolorD(5) [OF inv] mono by (auto simp: mark_at_mark_object split: if_splits)
  next
    fix q assume "live g q" "marked (mark_at (mark_object p g) q)"
    then show "P q" using tricolorD(6) [OF inv] P by (auto simp: mark_at_mark_object split: if_splits)
  qed
qed

lemma mark_all_tricolor:
  assumes "tricolor X P g" "\<forall>p \<in> set ps. live g p \<longrightarrow> P p"
  shows "tricolor X P (mark_all ps g)" "\<forall>p \<in> set ps. marked (mark_at (mark_all ps g) p)"
    "marked (mark_at g q) \<Longrightarrow> marked (mark_at (mark_all ps g) q)"
proof -
  have "tricolor X P (mark_all ps g) \<and> (\<forall>p \<in> set ps. marked (mark_at (mark_all ps g) p)) \<and>
      (\<forall>q. marked (mark_at g q) \<longrightarrow> marked (mark_at (mark_all ps g) q))"
    using assms
  proof (induction ps arbitrary: g)
    case (Cons p ps)
    note t = mark_object_tricolor [OF Cons.prems(1), of p]
    have "\<forall>p' \<in> set ps. live (mark_object p g) p' \<longrightarrow> P p'"
      using Cons.prems(2) same_objs_live [OF mark_object_same] by simp
    from Cons.IH [OF t(1) this] t(2,3) Cons.prems(2) show ?case by auto
  qed simp
  then show "tricolor X P (mark_all ps g)" "\<forall>p \<in> set ps. marked (mark_at (mark_all ps g) p)"
    "marked (mark_at g q) \<Longrightarrow> marked (mark_at (mark_all ps g) q)" by auto
qed

text \<open>\<open>P\<close> is closed when it follows the edges of the heap.\<close>

definition closed_under :: "(ptr \<Rightarrow> bool) \<Rightarrow> gstate \<Rightarrow> bool" where
  "closed_under P g \<longleftrightarrow> (\<forall>p q. P p \<longrightarrow> q \<in> set (children_of g p) \<longrightarrow> live g q \<longrightarrow> P q)"

lemma same_objs_closed: "same_objs g g' \<Longrightarrow> closed_under P g' = closed_under P g"
  by (simp add: closed_under_def same_objs_children same_objs_live)

lemma blacken_tricolor:
  assumes inv: "tricolor {} P g" and g: "g_gray g = p # ps"
  shows "tricolor {p} P (upd_cell p (blacken g) (g\<lparr>g_gray := ps\<rparr>))"
    "marked (mark_at g q) \<Longrightarrow> marked (mark_at (upd_cell p (blacken g) (g\<lparr>g_gray := ps\<rparr>)) q)"
proof -
  let ?g = "upd_cell p (blacken g) (g\<lparr>g_gray := ps\<rparr>)"
  have p: "live g p" "mark_at g p = Gray" using tricolorD(3) [OF inv, of p] g by auto
  have m: "mark_at ?g q = (if q = p then Black else mark_at g q)" for q
    using p(1) by (auto simp: mark_at_def live_def blacken_def)
  note same = blacken_same [of g p ps]
  show "marked (mark_at g q) \<Longrightarrow> marked (mark_at ?g q)" for q by (simp add: m)
  show "tricolor {p} P ?g"
    unfolding tricolor_def same_objs_live [OF same] same_objs_children [OF same] m
    using tricolorD [OF inv] g p by (auto simp: fun_eq_iff)
qed

lemma tricolor_done:
  assumes "tricolor X P g" "\<And>p q. p \<in> X \<Longrightarrow> q \<in> set (children_of g p) \<Longrightarrow> marked (mark_at g q)"
  shows "tricolor {} P g"
  using assms unfolding tricolor_def by blast

lemma propagate_one_tricolor:
  assumes inv: "tricolor {} P g" and cl: "closed_under P g"
  shows "tricolor {} P (propagate_one g)" "marked (mark_at g q) \<Longrightarrow> marked (mark_at (propagate_one g) q)"
proof -
  have "tricolor {} P (propagate_one g) \<and> (\<forall>q. marked (mark_at g q) \<longrightarrow> marked (mark_at (propagate_one g) q))"
  proof (cases "g_gray g")
    case Nil
    then show ?thesis using inv by (simp add: propagate_one_def)
  next
    case (Cons p ps)
    then have p: "live g p" "mark_at g p = Gray" using tricolorD(3) [OF inv, of p] by auto
    then obtain c where c: "cell_at g p = Some c" by (auto simp: live_def)
    let ?g = "upd_cell p (blacken g) (g\<lparr>g_gray := ps\<rparr>)"
    note b = blacken_tricolor [OF inv Cons]
    note same = blacken_same [of g p ps]
    have ch: "children (obj_at g) (g_current g) p (c_obj c) = children_of g p"
      by (simp add: children_of_def obj_at_def c)
    have "P p" using tricolorD(6) [OF inv p(1)] p(2) by simp
    then have "\<forall>q \<in> set (children_of g p). live ?g q \<longrightarrow> P q"
      using cl by (auto simp: closed_under_def same_objs_live [OF same])
    note m = mark_all_tricolor [OF b(1) this]
    have po: "propagate_one g = mark_all (children_of g p) ?g"
      by (simp add: propagate_one_def Cons c ch)
    have "children_of (mark_all (children_of g p) ?g) p = children_of g p"
      by (simp add: same_objs_children [OF mark_all_same] same_objs_children [OF same])
    then have "tricolor {} P (propagate_one g)"
      unfolding po by (intro tricolor_done [OF m(1)]) (use m(2) in auto)
    with b(2) m(3) show ?thesis unfolding po by blast
  qed
  then show "tricolor {} P (propagate_one g)" "marked (mark_at g q) \<Longrightarrow> marked (mark_at (propagate_one g) q)" by blast+
qed

lemma propagate_all_tricolor:
  assumes "tricolor {} P g" "closed_under P g"
  shows "tricolor {} P (propagate_all g)" "marked (mark_at g q) \<Longrightarrow> marked (mark_at (propagate_all g) q)"
    "g_gray (propagate_all g) = []"
proof -
  have "tricolor {} P (propagate_all g) \<and> (\<forall>q. marked (mark_at g q) \<longrightarrow> marked (mark_at (propagate_all g) q)) \<and>
      g_gray (propagate_all g) = []"
    using assms
  proof (induction g rule: propagate_all.induct)
    case (1 g)
    show ?case
    proof (cases "g_gray g = []")
      case True
      then show ?thesis using "1.prems" by (simp add: propagate_all.simps)
    next
      case False
      note t = propagate_one_tricolor [OF "1.prems"]
      have "closed_under P (propagate_one g)"
        using "1.prems"(2) same_objs_closed [OF propagate_one_same] by blast
      from "1.IH" [OF False t(1) this] t(2) False show ?thesis by (subst (1 2 3) propagate_all.simps) auto
    qed
  qed
  then show "tricolor {} P (propagate_all g)" "marked (mark_at g q) \<Longrightarrow> marked (mark_at (propagate_all g) q)"
    "g_gray (propagate_all g) = []" by blast+
qed

section \<open>Marking from the roots\<close>

definition all_white :: "gstate \<Rightarrow> bool" where
  "all_white g \<longleftrightarrow> \<not> marked (g_white g) \<and> (\<forall>p. live g p \<longrightarrow> mark_at g p = g_white g)"

definition mark_phase :: "gstate \<Rightarrow> gstate" where
  "mark_phase g = propagate_all (mark_roots (g\<lparr>g_gray := []\<rparr>))"

lemma gray_update_same [simp]: "same_objs g (g\<lparr>g_gray := x\<rparr>)"
  by (simp add: same_objs_def obj_at_def fun_eq_iff)

lemma mark_at_gray [simp]: "mark_at (g\<lparr>g_gray := x\<rparr>) p = mark_at g p"
  by (simp add: mark_at_def)

lemma all_white_tricolor: "all_white g \<Longrightarrow> tricolor {} P (g\<lparr>g_gray := []\<rparr>)"
  by (auto simp: all_white_def tricolor_def same_objs_live [OF gray_update_same])

lemma thread_at_gray [simp]: "thread_at (g\<lparr>g_gray := x\<rparr>) = thread_at g"
  by (intro ext) (simp add: thread_at_def obj_at_def)

lemma obj_at_gray [simp]: "obj_at (g\<lparr>g_gray := x\<rparr>) = obj_at g"
  by (intro ext) (simp add: obj_at_def)

lemma gc_roots_gray [simp]: "gc_roots (g\<lparr>g_gray := x\<rparr>) = gc_roots g"
proof -
  have "thread_roots (g\<lparr>g_gray := x\<rparr>) = thread_roots g"
    by (intro ext) (auto simp: thread_roots_def split: option.splits)
  then show ?thesis by (simp add: gc_roots_def)
qed

lemma mark_phase_correct:
  assumes w: "all_white g" and P: "\<forall>p \<in> set (gc_roots g). live g p \<longrightarrow> P p" and cl: "closed_under P g"
  shows "tricolor {} P (mark_phase g)" "g_gray (mark_phase g) = []" "same_objs g (mark_phase g)"
    "p \<in> set (gc_roots g) \<Longrightarrow> marked (mark_at (mark_phase g) p)"
proof -
  let ?g0 = "g\<lparr>g_gray := []\<rparr>"
  have "\<forall>p \<in> set (gc_roots g). live ?g0 p \<longrightarrow> P p" using P by (simp add: same_objs_live [OF gray_update_same])
  note m = mark_all_tricolor [OF all_white_tricolor [OF w] this]
  have same: "same_objs g (mark_all (gc_roots g) ?g0)" by (rule same_objs_trans [OF gray_update_same mark_all_same])
  have "closed_under P (mark_all (gc_roots g) ?g0)" using cl same_objs_closed [OF same] by blast
  note pa = propagate_all_tricolor [OF m(1) this]
  have e: "mark_phase g = propagate_all (mark_all (gc_roots g) ?g0)" by (simp add: mark_phase_def mark_roots_def)
  show "tricolor {} P (mark_phase g)" "g_gray (mark_phase g) = []" using pa by (simp_all add: e)
  show "same_objs g (mark_phase g)" unfolding e by (rule same_objs_trans [OF same propagate_all_same])
  show "p \<in> set (gc_roots g) \<Longrightarrow> marked (mark_at (mark_phase g) p)" unfolding e using pa(2) m(2) by blast
qed

text \<open>With an empty gray list, the marked objects are the black ones and they are closed.\<close>

lemma tricolor_black:
  assumes "tricolor {} P g" "g_gray g = []" "live g p"
  shows "marked (mark_at g p) \<longleftrightarrow> mark_at g p = Black"
  using assms tricolorD(3) [OF assms(1), of p] by (auto simp: marked_def)

lemma reach_black:
  assumes tri: "tricolor {} P g'" and dn: "g_gray g' = []" and same: "same_objs g g'"
    and R: "\<And>p. p \<in> R \<Longrightarrow> marked (mark_at g' p)" and r: "reach g R p"
  shows "mark_at g' p = Black"
  using r
proof (induction rule: reach.induct)
  case (root p)
  then show ?case using R tricolor_black [OF tri dn] same_objs_live [OF same] by blast
next
  case (edge p q)
  have "live g' p" using edge.hyps(1) same_objs_live [OF same] by (auto elim: reach.cases)
  moreover have "q \<in> set (children_of g' p)" using edge.hyps(2) same_objs_children [OF same] by simp
  ultimately have "marked (mark_at g' q)" using tricolorD(5) [OF tri] edge.IH by blast
  then show ?case using tricolor_black [OF tri dn] same_objs_live [OF same] edge.hyps(3) by blast
qed


text \<open>A heap with a globals table at address 1, its metatable at 2 and an unreachable table at 3.\<close>

definition white_cell :: "gc_obj \<Rightarrow> cell" where
  "white_cell ob = \<lparr>c_mark = White0, c_flags = 0, c_cache = None, c_obj = ob\<rparr>"

definition heap_of :: "(ptr \<times> gc_obj) list \<Rightarrow> gstate" where
  "heap_of obs =
     \<lparr>g_all = map (\<lambda>(p, ob). (p, white_cell ob)) obs, g_gray = [], g_white = White0, g_phase = Pause, g_finalize = [],
      g_debt = 0, g_threshold = 65536, g_collecting = False, g_running_finalizer = False, g_isrunning = True,
      g_stress = False, g_strs = H0, g_strtab = no_strings, g_globals = Some 1, g_registry = None, g_type_mt = [],
      g_main = None, g_current = None, g_tm_names = replicate 24 None\<rparr>"

definition demo_heap :: gstate where
  "demo_heap = heap_of [(1, OTable ((table_new 0 0)\<lparr>t_metatable := Some 2\<rparr>)), (2, OTable (table_new 0 0)),
     (3, OTable (table_new 0 0))]"

lemma heap_of_at: "cell_at (heap_of obs) p = map_option white_cell (map_of obs p)"
  by (induction obs) (auto simp: heap_of_def cell_at_def)

lemma heap_of_white: "all_white (heap_of obs)"
proof -
  have "\<not> marked White0" by (simp add: marked_def White0_def Gray_def Black_def)
  then show ?thesis
    by (auto simp: all_white_def live_def mark_at_def heap_of_at white_cell_def) (simp_all add: heap_of_def)
qed

lemma demo_reach: "reach demo_heap (set (gc_roots demo_heap)) 2"
proof -
  have l: "live demo_heap 1" "live demo_heap 2" by (simp_all add: demo_heap_def live_def heap_of_at)
  have "1 \<in> set (gc_roots demo_heap)" by (simp add: gc_roots_def demo_heap_def heap_of_def opt_list_def)
  then have "reach demo_heap (set (gc_roots demo_heap)) 1" using l(1) by (rule reach.root)
  moreover have "2 \<in> set (children_of demo_heap 1)"
    by (simp add: children_of_def obj_at_def demo_heap_def heap_of_at white_cell_def table_ptrs_def opt_list_def)
  ultimately show ?thesis using l(2) by (rule reach.edge)
qed


end
