(* ===== verification/Lt_GcSweep.thy ===== *)
theory Lt_GcSweep
  imports Lt_GcInv
begin

text \<open>
  The sweep: what settling weak tables, ephemerons and finalizers does to the heap, and the safety
  of a whole collection.
\<close>

section \<open>Shrinking references\<close>

text \<open>Between marking and freeing, objects only lose references: dead stack slots are cleared, weak
  entries are dropped, and the absence cache of metatables changes.\<close>

definition node_shrinks :: "table_node \<Rightarrow> table_node \<Rightarrow> bool" where
  "node_shrinks n n' \<longleftrightarrow>
     tn_used n' = tn_used n \<and>
     (tn_key n' = VNil \<and> tn_value n' = VNil \<or> tn_key n' = tn_key n \<and> (tn_value n' = tn_value n \<or> tn_value n' = VNil))"

definition table_shrinks :: "table \<Rightarrow> table \<Rightarrow> bool" where
  "table_shrinks t t' \<longleftrightarrow>
     t_weak t' = t_weak t \<and> t_metatable t' = t_metatable t \<and>
     list_all2 (\<lambda>v v'. v' = v \<or> v' = VNil) (t_array t) (t_array t') \<and>
     list_all2 node_shrinks (t_hash t) (t_hash t')"

fun obj_shrinks :: "gc_obj \<Rightarrow> gc_obj \<Rightarrow> bool" where
  "obj_shrinks (OTable t) (OTable t') \<longleftrightarrow> table_shrinks t t'"
| "obj_shrinks (OThread t) (OThread t') \<longleftrightarrow>
     th_frames t' = th_frames t \<and> th_top t' = th_top t \<and> th_base t' = th_base t \<and> th_hook t' = th_hook t \<and>
     list_all2 (\<lambda>v v'. v' = v \<or> v' = VNil) (th_stack t) (th_stack t')"
| "obj_shrinks a b \<longleftrightarrow> a = b"

definition obs_shrinks :: "(ptr \<Rightarrow> gc_obj option) \<Rightarrow> (ptr \<Rightarrow> gc_obj option) \<Rightarrow> bool" where
  "obs_shrinks obs obs' \<longleftrightarrow> (\<forall>p. rel_option obj_shrinks (obs p) (obs' p))"

lemma node_shrinks_refl: "node_shrinks n n"
  by (simp add: node_shrinks_def)

lemma node_shrinks_trans: "node_shrinks a b \<Longrightarrow> node_shrinks b c \<Longrightarrow> node_shrinks a c"
  by (auto simp: node_shrinks_def)

lemma table_shrinks_refl: "table_shrinks t t"
  by (simp add: table_shrinks_def list_all2_refl node_shrinks_refl)

lemma table_shrinks_trans: "table_shrinks a b \<Longrightarrow> table_shrinks b c \<Longrightarrow> table_shrinks a c"
  unfolding table_shrinks_def
  using list_all2_trans [of node_shrinks node_shrinks node_shrinks, OF node_shrinks_trans]
  by (auto elim: list_all2_trans [rotated 1])

lemma obj_shrinks_refl [simp]: "obj_shrinks a a"
  by (cases a) (auto simp: list_all2_refl table_shrinks_refl)

lemma obj_shrinks_trans: "obj_shrinks a b \<Longrightarrow> obj_shrinks b c \<Longrightarrow> obj_shrinks a c"
proof (cases a; cases b; cases c)
  fix x y z assume "obj_shrinks a b" "obj_shrinks b c" "a = OThread x" "b = OThread y" "c = OThread z"
  then show "obj_shrinks a c" by (auto elim: list_all2_trans [rotated 1])
qed (auto intro: table_shrinks_trans)

lemma obs_shrinks_refl [simp]: "obs_shrinks obs obs"
  by (simp add: obs_shrinks_def option.rel_refl)

lemma obs_shrinks_trans: "obs_shrinks a b \<Longrightarrow> obs_shrinks b c \<Longrightarrow> obs_shrinks a c"
  unfolding obs_shrinks_def
proof
  fix p assume a: "\<forall>p. rel_option obj_shrinks (a p) (b p)" "\<forall>p. rel_option obj_shrinks (b p) (c p)"
  from a(1) [rule_format, of p] a(2) [rule_format, of p] show "rel_option obj_shrinks (a p) (c p)"
    by (cases "a p"; cases "b p"; cases "c p") (auto intro: obj_shrinks_trans)
qed

lemma obj_shrinks_cases:
  assumes "obj_shrinks a b"
  obtains t t' where "a = OTable t" "b = OTable t'" | t t' where "a = OThread t" "b = OThread t'" | "a = b"
  using assms by (cases a; cases b) auto

lemma obs_shrinks_at:
  assumes "obs_shrinks obs obs'"
  obtains "obs p = None" "obs' p = None" | a b where "obs p = Some a" "obs' p = Some b" "obj_shrinks a b"
  using assms unfolding obs_shrinks_def by (metis option.rel_cases)

lemma proto_maxstack_shrinks: "obs_shrinks obs obs' \<Longrightarrow> proto_maxstack obs' p = proto_maxstack obs p"
  by (rule obs_shrinks_at [of obs obs' p]) (auto simp: proto_maxstack_def elim!: obj_shrinks_cases)

lemma frame_extent_shrinks: "obs_shrinks obs obs' \<Longrightarrow> frame_extent obs' fr = frame_extent obs fr"
proof (cases "fr_cl fr")
  case (Some c)
  assume s: "obs_shrinks obs obs'"
  then show ?thesis
    by (rule obs_shrinks_at [of obs obs' c])
      (auto simp: frame_extent_def proto_maxstack_shrinks [OF s] Some elim!: obj_shrinks_cases
        split: option.splits gc_obj.splits)
qed (auto simp: frame_extent_def proto_maxstack_shrinks split: option.splits)

lemma stack_limit_shrinks:
  "obs_shrinks obs obs' \<Longrightarrow> obj_shrinks (OThread th) (OThread th') \<Longrightarrow> stack_limit obs' s th' = stack_limit obs s th"
  by (simp add: stack_limit_def lua_frame_high_water_def frame_extent_shrinks)

lemma value_ptrs_mem: "q \<in> set (value_ptrs vs) \<longleftrightarrow> (\<exists>v \<in> set vs. gc_ptr v = Some q)"
  by (force simp: value_ptrs_def opt_list_def split: option.splits)

lemma value_ptrs_shrinks:
  assumes "list_all2 (\<lambda>v v'. v' = v \<or> v' = VNil) vs vs'"
  shows "set (value_ptrs (take n vs')) \<subseteq> set (value_ptrs (take n vs))"
proof
  fix q assume "q \<in> set (value_ptrs (take n vs'))"
  then obtain v where "v \<in> set (take n vs')" "gc_ptr v = Some q" by (auto simp: value_ptrs_mem)
  then obtain i where i: "i < length vs'" "i < n" "gc_ptr (vs' ! i) = Some q"
    by (auto simp: in_set_conv_nth)
  then have "vs' ! i = vs ! i" "i < length vs" using list_all2_nthD2 [OF assms i(1)] list_all2_lengthD [OF assms] by auto
  with i have "vs ! i \<in> set (take n vs)" "gc_ptr (vs ! i) = Some q"
    by (auto simp: in_set_conv_nth intro!: exI [of _ i])
  then show "q \<in> set (value_ptrs (take n vs))" by (auto simp: value_ptrs_mem)
qed

lemma thread_ptrs_shrinks:
  assumes s: "obs_shrinks obs obs'" and t: "obj_shrinks (OThread th) (OThread th')"
  shows "set (thread_ptrs obs' b th') \<subseteq> set (thread_ptrs obs b th)"
proof -
  have "length (th_stack th') = length (th_stack th)" using t by (auto dest: list_all2_lengthD)
  then have "set (thread_stack_ptrs obs' b th') \<subseteq> set (thread_stack_ptrs obs b th)"
    using value_ptrs_shrinks t stack_limit_shrinks [OF s t] by (simp add: thread_stack_ptrs_def)
  then show ?thesis using t by (auto simp: thread_ptrs_def)
qed

lemma uv_get_shrinks: "obs_shrinks obs obs' \<Longrightarrow> uv_get obs' uv = uv_get obs uv \<or> uv_get obs' uv = VNil"
proof (cases "uv_thread uv")
  case (Some t)
  assume s: "obs_shrinks obs obs'"
  then show ?thesis
  proof (rule obs_shrinks_at [of obs obs' t])
    fix a b assume ab: "obs t = Some a" "obs' t = Some b" "obj_shrinks a b"
    from ab(3) show ?thesis
    proof (cases rule: obj_shrinks_cases)
      case (2 th th')
      with ab(3) have l: "list_all2 (\<lambda>v v'. v' = v \<or> v' = VNil) (th_stack th) (th_stack th')" by simp
      show ?thesis
        using ab 2 Some list_all2_lengthD [OF l] list_all2_nthD [OF l, of "nat (uv_index uv)"]
        by (auto simp: uv_get_def)
    qed (use ab Some in \<open>auto simp: uv_get_def\<close>)
  qed (auto simp: uv_get_def Some)
qed (simp add: uv_get_def)

lemma node_ptrs_shrinks: "node_shrinks n n' \<Longrightarrow> set (node_ptrs w n') \<subseteq> set (node_ptrs w n)"
  by (auto simp: node_shrinks_def node_ptrs_def opt_list_def)

lemma list_all2_concat_subset:
  "list_all2 R xs ys \<Longrightarrow> (\<And>x y. R x y \<Longrightarrow> set (f y) \<subseteq> set (f x)) \<Longrightarrow> set (concat (map f ys)) \<subseteq> set (concat (map f xs))"
  by (induction rule: list_all2_induct) (simp, fastforce)

lemma table_ptrs_shrinks: "table_shrinks t t' \<Longrightarrow> set (table_ptrs t') \<subseteq> set (table_ptrs t)"
proof -
  assume t: "table_shrinks t t'"
  then have a: "list_all2 (\<lambda>v v'. v' = v \<or> v' = VNil) (t_array t) (t_array t')" "list_all2 node_shrinks (t_hash t) (t_hash t')"
    by (auto simp: table_shrinks_def)
  have "set (value_ptrs (t_array t')) \<subseteq> set (value_ptrs (t_array t))"
    using value_ptrs_shrinks [OF a(1), of "max (length (t_array t)) (length (t_array t'))"] by simp
  moreover have "set (concat (map (node_ptrs (t_weak t)) (t_hash t'))) \<subseteq> set (concat (map (node_ptrs (t_weak t)) (t_hash t)))"
    by (rule list_all2_concat_subset [OF a(2) node_ptrs_shrinks])
  ultimately show ?thesis using t by (auto simp: table_ptrs_def table_shrinks_def)
qed

lemma children_shrinks:
  assumes s: "obs_shrinks obs obs'" and o: "obj_shrinks a b"
  shows "set (children obs' cur p b) \<subseteq> set (children obs cur p a)"
  using o
proof (cases rule: obj_shrinks_cases)
  case (2 t t')
  then show ?thesis using thread_ptrs_shrinks [OF s] o by simp
next
  case 3
  show ?thesis
  proof (cases b)
    case (OUpVal uv)
    then show ?thesis using 3 uv_get_shrinks [OF s, of uv] by (auto simp: opt_list_def)
  next
    case (OThread th)
    then show ?thesis using 3 thread_ptrs_shrinks [OF s obj_shrinks_refl, of "cur = Some p" th] by simp
  qed (use 3 in auto)
qed (use o table_ptrs_shrinks in auto)

text \<open>The whole state: same addresses, same marks, fewer references.\<close>

definition shrinks :: "gstate \<Rightarrow> gstate \<Rightarrow> bool" where
  "shrinks g g' \<longleftrightarrow> obs_shrinks (obj_at g) (obj_at g') \<and> mark_at g' = mark_at g \<and> g_gray g' = g_gray g \<and>
     g_white g' = g_white g \<and> g_current g' = g_current g \<and> map fst (g_all g') = map fst (g_all g)"

lemma shrinks_refl [simp]: "shrinks g g"
  by (simp add: shrinks_def)

lemma shrinks_trans: "shrinks g g' \<Longrightarrow> shrinks g' g'' \<Longrightarrow> shrinks g g''"
  by (auto simp: shrinks_def intro: obs_shrinks_trans)

lemma shrinks_live: "shrinks g g' \<Longrightarrow> live g' p = live g p"
  by (metis live_mem shrinks_def list.set_map)

lemma shrinks_children: "shrinks g g' \<Longrightarrow> set (children_of g' p) \<subseteq> set (children_of g p)"
proof -
  assume s: "shrinks g g'"
  then have o: "obs_shrinks (obj_at g) (obj_at g')" "g_current g' = g_current g" by (auto simp: shrinks_def)
  from o(1) show ?thesis
    by (rule obs_shrinks_at [of "obj_at g" "obj_at g'" p]) (use children_shrinks [OF o(1)] o(2) in \<open>auto simp: children_of_def\<close>)
qed

lemma shrinks_tricolor: "shrinks g g' \<Longrightarrow> tricolor {} P g \<Longrightarrow> tricolor {} P g'"
  using shrinks_children [of g g'] unfolding tricolor_def
  by (auto simp: shrinks_live) (auto simp: shrinks_def subset_iff)

lemma shrinks_closed: "shrinks g g' \<Longrightarrow> closed_under P g \<Longrightarrow> closed_under P g'"
  using shrinks_children [of g g'] by (auto simp: closed_under_def shrinks_live)

lemma set_obj_shrinks:
  assumes "obj_at g p = Some a" "obj_shrinks a b"
  shows "shrinks g (set_obj p b g)"
proof -
  obtain c where c: "cell_at g p = Some c" "c_obj c = a" using assms(1) by (auto simp: obj_at_def)
  have "obj_at (set_obj p b g) = (obj_at g)(p := Some b)"
    by (intro ext) (simp add: obj_at_def set_obj_def c)
  then have "obs_shrinks (obj_at g) (obj_at (set_obj p b g))"
    using assms by (simp add: obs_shrinks_def option.rel_refl)
  moreover have "mark_at (set_obj p b g) = mark_at g"
    by (intro ext) (simp add: mark_at_def set_obj_def c)
  ultimately show ?thesis by (simp add: shrinks_def set_obj_def)
qed

section \<open>The steps of the sweep\<close>

lemma list_all2_nil_range: "list_all2 (\<lambda>v v'. v' = v \<or> v' = VNil) xs (nil_range a b xs)"
  by (auto simp: list_all2_conv_all_nth nil_range_def)

lemma clear_dead_at_shrinks: "shrinks g (clear_dead_at g p)"
proof (cases "thread_at g p")
  case (Some th)
  then have "obj_at g p = Some (OThread th)"
    by (auto simp: thread_at_def split: option.splits gc_obj.splits)
  then show ?thesis
    using set_obj_shrinks [of g p "OThread th"] Some
    by (simp add: clear_dead_at_def clear_dead_stack_def list_all2_nil_range)
qed (simp add: clear_dead_at_def)

lemma foldl_shrinks: "(\<And>g x. shrinks g (f g x)) \<Longrightarrow> shrinks g (foldl f g xs)"
  by (induction xs arbitrary: g) (auto intro: shrinks_trans)

lemma clear_dead_stacks_shrinks: "shrinks g (clear_dead_stacks g)"
  unfolding clear_dead_stacks_def by (rule foldl_shrinks) (rule clear_dead_at_shrinks)

lemma get_tm_table_shrinks: "table_shrinks t (snd (get_tm_table H names t e))"
  by (auto simp: get_tm_table_def mark_no_tm_def table_shrinks_def Let_def list_all2_refl node_shrinks_refl split: option.splits)

lemma get_tm_shrinks: "shrinks g (snd (get_tm g mt e))"
proof (cases mt)
  case (Some p)
  show ?thesis
  proof (cases "table_at g p")
    case None
    then show ?thesis using Some by (simp add: get_tm_def)
  next
    case t: (Some t)
    then have "obj_at g p = Some (OTable t)" by (auto simp: table_at_def split: option.splits gc_obj.splits)
    then show ?thesis using Some t set_obj_shrinks [of g p "OTable t"]
      by (simp add: get_tm_def case_prod_unfold get_tm_table_shrinks Let_def)
  qed
qed (simp add: get_tm_def)

definition fin_step :: "gstate \<times> ptr list \<Rightarrow> ptr \<Rightarrow> gstate \<times> ptr list" where
  "fin_step = (\<lambda>(g, fs) p.
        case cell_at g p of
          None \<Rightarrow> (g, fs)
        | Some c \<Rightarrow>
            if c_mark c \<noteq> g_white g then (g, fs)
            else (let (has, g') = object_has_gc g p c in (g', if has then fs @ [p] else fs)))"

lemma object_has_gc_shrinks: "shrinks g (snd (object_has_gc g p c))"
  using get_tm_shrinks [of g "get_metatable g (gc_object_value p (c_obj c))" TM_GC]
  by (auto simp: object_has_gc_def get_metamethod_def case_prod_unfold Let_def)

lemma fin_step_ok:
  assumes "shrinks g0 (fst gf)" "\<forall>p \<in> set (snd gf). live g0 p \<and> mark_at g0 p = g_white g0"
  shows "shrinks g0 (fst (fin_step gf p)) \<and> (\<forall>q \<in> set (snd (fin_step gf p)). live g0 q \<and> mark_at g0 q = g_white g0)"
proof (cases "cell_at (fst gf) p")
  case None
  then show ?thesis using assms by (cases gf) (simp add: fin_step_def)
next
  case (Some c)
  obtain g fs where gf: "gf = (g, fs)" by (cases gf)
  have s: "shrinks g0 g" using assms gf by simp
  have "live g p" using Some gf by (simp add: live_def)
  then have "live g0 p" using shrinks_live [OF s] by blast
  moreover have "mark_at g0 p = c_mark c" "g_white g0 = g_white g"
    using s Some gf by (auto simp: shrinks_def mark_at_def dest!: fun_cong [of _ _ p])
  ultimately show ?thesis
    using assms gf Some shrinks_trans [OF s object_has_gc_shrinks [of g p c]]
    by (auto simp: fin_step_def case_prod_unfold Let_def)
qed

lemma collect_finalizable_ok:
  "shrinks g (fst (collect_finalizable g))"
  "\<forall>p \<in> set (snd (collect_finalizable g)). live g p \<and> mark_at g p = g_white g"
proof -
  have e: "collect_finalizable g = foldl fin_step (g, []) (map fst (g_all g))"
    by (simp add: collect_finalizable_def fin_step_def)
  have "shrinks g (fst (foldl fin_step (g, []) ps)) \<and>
      (\<forall>p \<in> set (snd (foldl fin_step (g, []) ps)). live g p \<and> mark_at g p = g_white g)" for ps
    by (rule foldl_pres [where P = "\<lambda>gf. shrinks g (fst gf) \<and> (\<forall>p \<in> set (snd gf). live g p \<and> mark_at g p = g_white g)"])
      (simp, metis fin_step_ok)
  then show "shrinks g (fst (collect_finalizable g))"
    "\<forall>p \<in> set (snd (collect_finalizable g)). live g p \<and> mark_at g p = g_white g" by (simp_all add: e)
qed

lemma map_of_map_cells: "map_of (map (\<lambda>(p, c). (p, f c)) cs) q = map_option f (map_of cs q)"
  by (induction cs) auto

lemma clear_weak_at: "cell_at (clear_weak_tables msk g) q = map_option (clear_weak_cell g msk) (cell_at g q)"
  by (simp add: cell_at_def clear_weak_tables_def map_of_map_cells)

lemma clear_weak_entries_shrinks: "table_shrinks t (clear_weak_entries M wh msk t)"
  by (auto simp: table_shrinks_def clear_weak_entries_def Let_def list_all2_conv_all_nth node_shrinks_def clear_weak_node_def)

lemma clear_weak_cell_fields [simp]: "c_mark (clear_weak_cell g msk c) = c_mark c"
  by (auto simp: clear_weak_cell_def split: gc_obj.splits)

lemma clear_weak_shrinks: "shrinks g (clear_weak_tables msk g)"
proof -
  have "obj_shrinks (c_obj c) (c_obj (clear_weak_cell g msk c))" for c
    by (cases "c_obj c") (auto simp: clear_weak_cell_def clear_weak_entries_shrinks table_shrinks_refl list_all2_refl)
  then have "obs_shrinks (obj_at g) (obj_at (clear_weak_tables msk g))"
    by (simp add: obs_shrinks_def obj_at_def clear_weak_at option.rel_map option.rel_refl)
  moreover have "mark_at (clear_weak_tables msk g) = mark_at g"
    by (intro ext) (simp add: mark_at_def clear_weak_at split: option.splits)
  ultimately show ?thesis
    by (simp add: shrinks_def clear_weak_tables_def case_prod_unfold comp_def)
qed

section \<open>Ephemerons\<close>

definition ephemeron :: "table \<Rightarrow> bool" where
  "ephemeron t \<longleftrightarrow> t_weak t AND 1 \<noteq> 0 \<and> t_weak t AND 2 = 0"

text \<open>An entry of an ephemeron table, from a collectable key to a collectable value.\<close>

definition eph_edge :: "gstate \<Rightarrow> ptr \<Rightarrow> ptr \<Rightarrow> ptr \<Rightarrow> bool" where
  "eph_edge g p k q \<longleftrightarrow>
     (\<exists>t. table_at g p = Some t \<and> ephemeron t \<and>
        (\<exists>n \<in> set (t_hash t). tn_used n \<and> gc_ptr (tn_key n) = Some k \<and> gc_ptr (tn_value n) = Some q))"

definition eph_closed :: "(ptr \<Rightarrow> bool) \<Rightarrow> gstate \<Rightarrow> bool" where
  "eph_closed P g \<longleftrightarrow>
     (\<forall>p k q. eph_edge g p k q \<longrightarrow> (live g p \<longrightarrow> P p) \<longrightarrow> (live g k \<longrightarrow> P k) \<longrightarrow> live g q \<longrightarrow> P q)"

definition eph_stable :: "gstate \<Rightarrow> bool" where
  "eph_stable g \<longleftrightarrow>
     (\<forall>p k q. eph_edge g p k q \<longrightarrow> marked (mark_at g p) \<longrightarrow> marked (mark_at g k) \<longrightarrow> marked (mark_at g q))"

lemma same_objs_table: "same_objs g g' \<Longrightarrow> table_at g' p = table_at g p"
  by (simp add: same_objs_def table_at_def)

lemma same_objs_eph: "same_objs g g' \<Longrightarrow> eph_edge g' p k q = eph_edge g p k q"
  by (simp add: eph_edge_def same_objs_table)

text \<open>Under the invariant, being unlike the current white is being marked.\<close>

lemma tricolor_not_white: "tricolor X P g \<Longrightarrow> mark_at g p \<noteq> g_white g \<longleftrightarrow> marked (mark_at g p)"
  by (metis tricolorD(1) tricolorD(4) marked_absent)

text \<open>What the collector keeps while it marks.\<close>

definition advances :: "(ptr \<Rightarrow> bool) \<Rightarrow> gstate \<Rightarrow> gstate \<Rightarrow> bool" where
  "advances P g g' \<longleftrightarrow>
     tricolor {} P g' \<and> same_objs g g' \<and> (\<forall>q. marked (mark_at g q) \<longrightarrow> marked (mark_at g' q))"

lemma advances_refl: "tricolor {} P g \<Longrightarrow> advances P g g"
  by (simp add: advances_def)

lemma advances_trans: "advances P g g' \<Longrightarrow> advances P g' g'' \<Longrightarrow> advances P g g''"
  by (auto simp: advances_def intro: same_objs_trans)

lemma mark_value_advances:
  assumes "tricolor {} P g" "\<And>q. gc_ptr v = Some q \<Longrightarrow> live g q \<Longrightarrow> P q"
  shows "advances P g (mark_value v g)"
  using assms mark_object_tricolor [OF assms(1)] mark_object_same
  by (auto simp: advances_def mark_value_def split: option.splits)

lemma propagate_all_advances:
  "tricolor {} P g \<Longrightarrow> closed_under P g \<Longrightarrow> advances P g (propagate_all g)"
  using propagate_all_tricolor [of P g] propagate_all_same by (auto simp: advances_def)

lemma eph_node_advances:
  assumes a: "advances P g (fst gb)" and cl: "eph_closed P g" and t: "table_at g p = Some t" "ephemeron t"
    and n: "n \<in> set (t_hash t)" and m: "marked (mark_at (fst gb) p)"
  shows "advances P g (fst (eph_node n gb)) \<and> marked (mark_at (fst (eph_node n gb)) p)"
proof -
  obtain g1 b where gb: "gb = (g1, b)" by (cases gb)
  have tri: "tricolor {} P g1" and same: "same_objs g g1" using a gb by (auto simp: advances_def)
  show ?thesis
  proof (cases "tn_used n \<and> \<not> is_nil (tn_key n) \<and> (\<exists>k. gc_ptr (tn_key n) = Some k \<and> mark_at g1 k \<noteq> g_white g1) \<and> \<not> is_nil (tn_value n)")
    case True
    then obtain k where k: "gc_ptr (tn_key n) = Some k" "marked (mark_at g1 k)"
      using tricolor_not_white [OF tri] by blast
    have "P q" if q: "gc_ptr (tn_value n) = Some q" "live g1 q" for q
    proof -
      have "eph_edge g p k q" using t n k(1) q(1) True by (auto simp: eph_edge_def)
      moreover have "live g p \<longrightarrow> P p" "live g k \<longrightarrow> P k"
        using tricolorD(6) [OF tri] m k(2) gb same_objs_live [OF same] by auto
      ultimately show ?thesis using cl q(2) same_objs_live [OF same] unfolding eph_closed_def by blast
    qed
    then have "advances P g1 (mark_value (tn_value n) g1)" by (rule mark_value_advances [OF tri])
    moreover have "fst (eph_node n gb) = mark_value (tn_value n) g1"
      using True k(1) by (auto simp: eph_node_def gb Let_def)
    ultimately show ?thesis using a m gb by (auto simp: advances_def intro: same_objs_trans)
  next
    case False
    then have "eph_node n gb = gb" by (auto simp: eph_node_def gb split: option.splits)
    then show ?thesis using a m by simp
  qed
qed

lemma eph_object_advances:
  assumes a: "advances P g (fst gb)" and cl: "eph_closed P g"
  shows "advances P g (fst (eph_object gb p))"
proof (cases "table_at (fst gb) p")
  case None
  then show ?thesis using a by (simp add: eph_object_def)
next
  case (Some t)
  then have t: "table_at g p = Some t" using a same_objs_table by (auto simp: advances_def)
  show ?thesis
  proof (cases "ephemeron t \<and> mark_at (fst gb) p \<noteq> g_white (fst gb)")
    case True
    then have m: "marked (mark_at (fst gb) p)" using a tricolor_not_white by (auto simp: advances_def)
    have "advances P g (fst (foldl (\<lambda>gb n. eph_node n gb) gb (t_hash t))) \<and>
        marked (mark_at (fst (foldl (\<lambda>gb n. eph_node n gb) gb (t_hash t))) p)"
      by (rule foldl_pres [where P = "\<lambda>gb. advances P g (fst gb) \<and> marked (mark_at (fst gb) p)"])
        (use a m eph_node_advances [OF _ cl t] True in auto)
    then show ?thesis using Some True by (simp add: eph_object_def ephemeron_def)
  next
    case False
    then show ?thesis using a Some by (auto simp: eph_object_def ephemeron_def)
  qed
qed

lemma eph_pass_advances: "tricolor {} P g \<Longrightarrow> eph_closed P g \<Longrightarrow> advances P g (fst (eph_pass g))"
  unfolding eph_pass_def
  by (rule foldl_pres [where P = "\<lambda>gb. advances P g (fst gb)"]) (auto simp: advances_refl eph_object_advances)

text \<open>A pass that reports no change changed nothing and found every entry settled.\<close>

lemma foldl_unchanged:
  assumes "\<And>s x. \<not> snd (f s x) \<Longrightarrow> \<not> snd s \<and> fst (f s x) = fst s \<and> Q (fst s) x"
  shows "\<not> snd (foldl f s xs) \<Longrightarrow> \<not> snd s \<and> fst (foldl f s xs) = fst s \<and> (\<forall>x \<in> set xs. Q (fst s) x)"
proof (induction xs arbitrary: s)
  case (Cons x xs)
  from Cons.IH [of "f s x"] Cons.prems assms [of s x] show ?case by auto
qed simp

definition node_settled :: "gstate \<Rightarrow> table_node \<Rightarrow> bool" where
  "node_settled g n \<longleftrightarrow>
     (\<forall>k q. tn_used n \<longrightarrow> gc_ptr (tn_key n) = Some k \<longrightarrow> mark_at g k \<noteq> g_white g \<longrightarrow>
        gc_ptr (tn_value n) = Some q \<longrightarrow> marked (mark_at g q))"

lemma eph_node_unchanged:
  assumes "\<not> snd (eph_node n s)"
  shows "\<not> snd s \<and> fst (eph_node n s) = fst s \<and> node_settled (fst s) n"
proof -
  obtain g b where s: "s = (g, b)" by (cases s)
  have mo: "mark_object q g = g \<and> marked (mark_at g q)" if "g_gray (mark_object q g) = g_gray g" for q
    using that by (cases "live g q") (auto simp: mark_object_gray mark_object_def mark_at_def live_def marked_absent split: option.splits if_splits)
  have kn: "gc_ptr v = Some k \<Longrightarrow> \<not> is_nil v" for v k by (auto simp: is_nil_def)
  show ?thesis
  proof (cases "gc_ptr (tn_value n)")
    case None
    then show ?thesis using assms by (auto simp: s eph_node_def node_settled_def mark_value_def Let_def split: if_splits option.splits)
  next
    case (Some q)
    then show ?thesis using assms mo [of q] kn [OF Some] kn [of "tn_key n"]
      by (auto simp: s eph_node_def node_settled_def mark_value_def Let_def split: if_splits option.splits)
  qed
qed

lemma eph_object_unchanged:
  assumes "\<not> snd (eph_object s p)"
  shows "\<not> snd s \<and> fst (eph_object s p) = fst s \<and>
    (\<forall>t. table_at (fst s) p = Some t \<longrightarrow> ephemeron t \<longrightarrow> mark_at (fst s) p \<noteq> g_white (fst s) \<longrightarrow>
      (\<forall>n \<in> set (t_hash t). node_settled (fst s) n))"
  using assms foldl_unchanged [of "\<lambda>gb n. eph_node n gb" node_settled s, OF eph_node_unchanged]
  by (auto simp: eph_object_def ephemeron_def split: option.splits if_splits)

lemma table_at_live: "table_at g p = Some t \<Longrightarrow> p \<in> set (map fst (g_all g))"
proof -
  assume "table_at g p = Some t"
  then have "live g p" by (auto simp: table_at_def live_obj split: option.splits)
  then show ?thesis by (simp add: live_mem)
qed

lemma eph_pass_unchanged:
  assumes tri: "tricolor {} P g" and u: "\<not> snd (eph_pass g)"
  shows "fst (eph_pass g) = g" "eph_stable g"
proof -
  note f = foldl_unchanged [of eph_object, OF eph_object_unchanged, of "(g, False)" "map fst (g_all g)"]
  show "fst (eph_pass g) = g" using f u by (simp add: eph_pass_def)
  show "eph_stable g"
    unfolding eph_stable_def
  proof (intro allI impI)
    fix p k q assume e: "eph_edge g p k q" and m: "marked (mark_at g p)" "marked (mark_at g k)"
    then obtain t n where t: "table_at g p = Some t" "ephemeron t" "n \<in> set (t_hash t)" "tn_used n"
        "gc_ptr (tn_key n) = Some k" "gc_ptr (tn_value n) = Some q" by (auto simp: eph_edge_def)
    have "node_settled g n"
      using f u table_at_live [OF t(1)] t(1-3) m(1) tricolor_not_white [OF tri] by (auto simp: eph_pass_def)
    with t m(2) tricolor_not_white [OF tri] show "marked (mark_at g q)" by (auto simp: node_settled_def)
  qed
qed

lemma eph_closed_same: "same_objs g g' \<Longrightarrow> eph_closed P g' = eph_closed P g"
  by (simp add: eph_closed_def same_objs_eph same_objs_live)

lemma converge_correct:
  assumes "tricolor {} P g" "closed_under P g" "eph_closed P g" "g_gray g = []"
  shows "advances P g (converge_ephemerons g) \<and> g_gray (converge_ephemerons g) = [] \<and> eph_stable (converge_ephemerons g)"
  using assms
proof (induction g rule: converge_ephemerons.induct)
  case (1 g)
  obtain g1 ch where p: "eph_pass g = (g1, ch)" by (cases "eph_pass g")
  have a1: "advances P g g1" using eph_pass_advances [of P g] "1.prems" p by simp
  then have t1: "tricolor {} P g1" "same_objs g g1" by (auto simp: advances_def)
  have c1: "closed_under P g1" using same_objs_closed [OF t1(2)] "1.prems" by blast
  have a2: "advances P g (propagate_all g1)" using advances_trans [OF a1 propagate_all_advances [OF t1(1) c1]] .
  have gr: "g_gray (propagate_all g1) = []" using propagate_all_tricolor(3) [OF t1(1) c1] .
  show ?case
  proof (cases ch)
    case True
    have t2: "tricolor {} P (propagate_all g1)" "same_objs g (propagate_all g1)" using a2 by (auto simp: advances_def)
    have "advances P (propagate_all g1) (converge_ephemerons (propagate_all g1)) \<and>
        g_gray (converge_ephemerons (propagate_all g1)) = [] \<and> eph_stable (converge_ephemerons (propagate_all g1))"
      by (rule "1.IH" [OF p [symmetric] refl refl True t2(1)])
        (use t2 same_objs_closed [OF t2(2)] eph_closed_same [OF t2(2)] "1.prems" gr in auto)
    moreover have "converge_ephemerons g = converge_ephemerons (propagate_all g1)"
      using True by (subst converge_ephemerons.simps) (simp add: p Let_def)
    ultimately show ?thesis using a2 advances_trans by metis
  next
    case False
    have u: "g1 = g" "eph_stable g" using eph_pass_unchanged [OF "1.prems"(1)] p False by simp_all
    have "propagate_all g = g" using "1.prems"(4) by (subst propagate_all.simps) simp
    then have "converge_ephemerons g = g" using False u by (subst converge_ephemerons.simps) (simp add: p Let_def)
    then show ?thesis using "1.prems" u advances_refl by simp
  qed
qed

end
