(* ===== verification/Lt_GcSafe.thy ===== *)
theory Lt_GcSafe
  imports Lt_GcSweep
begin

text \<open>
  Safety of a whole collection: no reachable object is freed, nothing that survives refers to a
  freed object, and what survives is white again for the next cycle.
\<close>

section \<open>What the sweep settles\<close>

text \<open>The marks, up to the last pass over the weak tables, and the objects to finalize.\<close>

definition settle_marks :: "gstate \<Rightarrow> gstate \<times> ptr list" where
  "settle_marks g =
     (let (g2, fin) = collect_finalizable (clear_dead_stacks g);
          g3 = converge_ephemerons (clear_weak_tables 2 g2)
      in (converge_ephemerons (propagate_all (foldl resurrect g3 fin)), fin))"

definition settles :: "gstate \<Rightarrow> gstate \<Rightarrow> bool" where
  "settles g g' \<longleftrightarrow> obs_shrinks (obj_at g) (obj_at g') \<and> g_white g' = g_white g \<and> g_current g' = g_current g \<and>
     map fst (g_all g') = map fst (g_all g) \<and> (\<forall>q. marked (mark_at g q) \<longrightarrow> marked (mark_at g' q))"

lemma settles_trans: "settles g g' \<Longrightarrow> settles g' g'' \<Longrightarrow> settles g g''"
  by (auto simp: settles_def intro: obs_shrinks_trans)

lemma shrinks_settles: "shrinks g g' \<Longrightarrow> settles g g'"
  by (simp add: shrinks_def settles_def)

lemma advances_settles: "advances P g g' \<Longrightarrow> settles g g'"
  by (simp add: advances_def settles_def same_objs_def)

lemma settles_live: "settles g g' \<Longrightarrow> live g' p = live g p"
  unfolding settles_def live_mem list.set_map [symmetric] by simp

lemma obs_shrinks_table:
  "obs_shrinks obs obs' \<Longrightarrow> obs' p = Some (OTable t') \<Longrightarrow> \<exists>t. obs p = Some (OTable t) \<and> table_shrinks t t'"
proof (erule obs_shrinks_at [of obs obs' p], simp)
  fix a b assume "obs p = Some a" "obs' p = Some b" "obj_shrinks a b" "obs' p = Some (OTable t')"
  then show ?thesis by (cases a) auto
qed

lemma settles_children: "settles g g' \<Longrightarrow> set (children_of g' p) \<subseteq> set (children_of g p)"
proof -
  assume s: "settles g g'"
  then have o: "obs_shrinks (obj_at g) (obj_at g')" "g_current g' = g_current g" by (auto simp: settles_def)
  from o(1) show ?thesis
    by (rule obs_shrinks_at [of "obj_at g" "obj_at g'" p]) (use children_shrinks [OF o(1)] o(2) in \<open>auto simp: children_of_def\<close>)
qed

lemma settles_closed: "settles g g' \<Longrightarrow> closed_under P g \<Longrightarrow> closed_under P g'"
  using settles_children [of g g'] by (auto simp: closed_under_def settles_live)

lemma settles_node:
  assumes s: "settles g g'" and t': "table_at g' p = Some t'" "n' \<in> set (t_hash t')"
  obtains t n where "table_at g p = Some t" "t_weak t' = t_weak t" "n \<in> set (t_hash t)" "node_shrinks n n'"
proof -
  have "obj_at g' p = Some (OTable t')" using t'(1) by (auto simp: table_at_def split: option.splits gc_obj.splits)
  then obtain t where t: "obj_at g p = Some (OTable t)" "table_shrinks t t'"
    using s obs_shrinks_table by (fastforce simp: settles_def)
  then have l: "list_all2 node_shrinks (t_hash t) (t_hash t')" "t_weak t' = t_weak t" by (auto simp: table_shrinks_def)
  from t'(2) obtain i where i: "i < length (t_hash t')" "n' = t_hash t' ! i" by (auto simp: in_set_conv_nth)
  then have n: "node_shrinks (t_hash t ! i) n'" "i < length (t_hash t)"
    using list_all2_nthD2 [OF l(1) i(1)] list_all2_lengthD [OF l(1)] by auto
  show thesis by (rule that [of t "t_hash t ! i"]) (use t(1) l(2) n in \<open>auto simp: table_at_def\<close>)
qed

lemma settles_edge: "settles g g' \<Longrightarrow> eph_edge g' p k q \<Longrightarrow> eph_edge g p k q"
  unfolding eph_edge_def ephemeron_def node_shrinks_def
  by (elim exE conjE bexE, erule settles_node, assumption, assumption) (force simp: node_shrinks_def)

lemma settles_eph_closed: "settles g g' \<Longrightarrow> eph_closed P g \<Longrightarrow> eph_closed P g'"
  unfolding eph_closed_def using settles_edge [of g g'] settles_live [of g g'] by metis

lemma resurrect_mark: "tricolor X P g \<Longrightarrow> resurrect g p = mark_object p g"
  using tricolor_not_white [of X P g p]
  by (cases "cell_at g p") (auto simp: resurrect_def mark_object_def mark_at_def)

lemma resurrect_all:
  assumes "tricolor {} P g" "\<forall>p \<in> set ps. live g p \<longrightarrow> P p"
  shows "foldl resurrect g ps = mark_all ps g"
  using assms
proof (induction ps arbitrary: g)
  case (Cons p ps)
  have "\<forall>p' \<in> set ps. live (mark_object p g) p' \<longrightarrow> P p'"
    using Cons.prems(2) same_objs_live [OF mark_object_same] by simp
  with Cons mark_object_tricolor(1) [OF Cons.prems(1), of p] resurrect_mark [OF Cons.prems(1)] show ?case by simp
qed simp

lemma settle_marks_ok:
  assumes tri: "tricolor {} P g" and gr: "g_gray g = []" and cl: "closed_under P g" "eph_closed P g"
    and s: "settle_marks g = (h, fin)" and fin: "\<forall>p \<in> set fin. live g p \<longrightarrow> P p"
  shows "tricolor {} P h \<and> g_gray h = [] \<and> eph_stable h \<and> settles g h \<and> (\<forall>p \<in> set fin. marked (mark_at h p))"
proof -
  obtain g2 where g2: "collect_finalizable (clear_dead_stacks g) = (g2, fin)"
    using s by (auto simp: settle_marks_def Let_def split: prod.splits)
  let ?c = "clear_weak_tables 2 g2" let ?g3 = "converge_ephemerons ?c"
  let ?r = "mark_all fin ?g3" let ?g4 = "propagate_all ?r"
  have sh: "shrinks g ?c"
    by (rule shrinks_trans [OF clear_dead_stacks_shrinks
          shrinks_trans [OF collect_finalizable_ok(1) [of "clear_dead_stacks g", unfolded g2 fst_conv] clear_weak_shrinks]])
  have c: "tricolor {} P ?c" "closed_under P ?c" "eph_closed P ?c" "g_gray ?c = []"
    using shrinks_tricolor [OF sh tri] shrinks_closed [OF sh cl(1)] settles_eph_closed [OF shrinks_settles [OF sh] cl(2)]
      sh gr by (auto simp: shrinks_def)
  note v3 = converge_correct [OF c]
  then have t3: "tricolor {} P ?g3" and s3: "settles g ?g3"
    using settles_trans [OF shrinks_settles [OF sh] advances_settles] by (auto simp: advances_def)
  have f3: "\<forall>p \<in> set fin. live ?g3 p \<longrightarrow> P p" using fin settles_live [OF s3] by simp
  note m = mark_all_tricolor [OF t3 f3]
  have ar: "advances P ?g3 ?r" using m(1,3) mark_all_same [of ?g3 fin] unfolding advances_def by blast
  have sr: "settles g ?r" by (rule settles_trans [OF s3 advances_settles [OF ar]])
  have pa: "advances P ?r ?g4" "g_gray ?g4 = []"
    using propagate_all_advances [OF m(1) settles_closed [OF sr cl(1)]]
      propagate_all_tricolor(3) [OF m(1) settles_closed [OF sr cl(1)]] by auto
  have s4: "settles g ?g4" by (rule settles_trans [OF sr advances_settles [OF pa(1)]])
  have t4: "tricolor {} P ?g4" using pa(1) by (simp add: advances_def)
  note v5 = converge_correct [OF t4 settles_closed [OF s4 cl(1)] settles_eph_closed [OF s4 cl(2)] pa(2)]
  have h: "h = converge_ephemerons ?g4"
    using s g2 resurrect_all [OF t3 f3] by (simp add: settle_marks_def Let_def)
  have "\<forall>p \<in> set fin. marked (mark_at h p)"
    using m(2) pa(1) v5 unfolding h by (auto simp: advances_def)
  with v5 settles_trans [OF s4 advances_settles] show ?thesis unfolding h by (auto simp: advances_def)
qed

section \<open>The loop that frees\<close>

lemma cell_at_sweep_free:
  assumes "distinct (map fst (g_all g))"
  shows "cell_at (sweep_free g) p =
    (case cell_at g p of
       Some c \<Rightarrow> if c_mark c = g_white g then None else Some (c\<lparr>c_mark := g_white g XOR 1\<rparr>)
     | None \<Rightarrow> None)"
proof -
  have "map_of (map (\<lambda>(p, c). (p, c\<lparr>c_mark := m\<rparr>)) (filter (\<lambda>(p, c). c_mark c \<noteq> w) cs)) p =
      (case map_of cs p of Some c \<Rightarrow> if c_mark c = w then None else Some (c\<lparr>c_mark := m\<rparr>) | None \<Rightarrow> None)"
    if "distinct (map fst cs)" for cs :: "(ptr \<times> cell) list" and m w
    using that
  proof (induction cs)
    case (Cons x cs)
    obtain q c where x: "x = (q, c)" by (cases x)
    show ?case
    proof (cases "q = p")
      case True
      then have "map_of cs p = None" using Cons.prems x by (simp add: map_of_eq_None_iff)
      then show ?thesis using Cons x True by simp
    qed (use Cons x in simp)
  qed simp
  then show ?thesis using assms by (simp add: sweep_free_def Let_def cell_at_def)
qed

lemma sweep_free_distinct: "distinct (map fst (g_all g)) \<Longrightarrow> distinct (map fst (g_all (sweep_free g)))"
  by (simp add: sweep_free_def Let_def case_prod_unfold comp_def distinct_map_filter)

lemma cell_at_set_marks:
  "cell_at (foldl (set_mark m) g ps) p =
    map_option (\<lambda>c. if p \<in> set ps then c\<lparr>c_mark := m\<rparr> else c) (cell_at g p)"
proof (induction ps arbitrary: g)
  case (Cons q ps)
  then show ?case by (cases "cell_at g p") (auto simp: set_mark_def)
qed (simp add: option.map_ident)

lemma set_marks_fields:
  "map fst (g_all (foldl (set_mark m) g ps)) = map fst (g_all g)" "g_white (foldl (set_mark m) g ps) = g_white g"
  "g_current (foldl (set_mark m) g ps) = g_current g"
  by (induction ps arbitrary: g) (simp_all add: set_mark_def)

lemma xor_one_neq: "(w :: u8) XOR 1 \<noteq> w"
proof
  assume "w XOR 1 = w"
  then have "w XOR (w XOR 1) = w XOR w" by simp
  then show False by (simp flip: xor.assoc)
qed

definition weak_cleared :: "gstate \<Rightarrow> gstate" where
  "weak_cleared h = clear_weak_tables 1 (clear_weak_tables 2 h)"

lemma sweep_atomic_parts:
  assumes s: "settle_marks g = (h, fin)" and d: "distinct (map fst (g_all h))" and t: "tricolor {} P h"
    and f: "\<forall>p \<in> set fin. marked (mark_at h p)"
  shows "obj_at (sweep_atomic g) p = (if marked (mark_at h p) then obj_at (weak_cleared h) p else None)"
    "live (sweep_atomic g) p \<Longrightarrow> mark_at (sweep_atomic g) p = g_white h XOR 1"
    "g_white (sweep_atomic g) = g_white h XOR 1" "g_current (sweep_atomic g) = g_current h"
    "distinct (map fst (g_all (sweep_atomic g)))"
proof -
  let ?w = "weak_cleared h"
  have sh: "shrinks h ?w" unfolding weak_cleared_def by (rule shrinks_trans [OF clear_weak_shrinks clear_weak_shrinks])
  then have w: "g_white ?w = g_white h" "mark_at ?w = mark_at h" "map fst (g_all ?w) = map fst (g_all h)"
      "g_current ?w = g_current h" by (auto simp: shrinks_def)
  obtain fz where e: "sweep_atomic g = sweep_free ((foldl (set_mark (g_white h XOR 1)) ?w fin)\<lparr>g_finalize := fz\<rparr>)"
    using s w(1) by (auto simp: sweep_atomic_def sweep_settle_def settle_marks_def weak_cleared_def Let_def split: prod.splits)
  let ?s = "(foldl (set_mark (g_white h XOR 1)) ?w fin)\<lparr>g_finalize := fz\<rparr>"
  have d': "distinct (map fst (g_all ?s))" using d w by (simp add: set_marks_fields)
  have c: "cell_at ?s p = map_option (\<lambda>c. if p \<in> set fin then c\<lparr>c_mark := g_white h XOR 1\<rparr> else c) (cell_at ?w p)" for p
    using cell_at_set_marks [of "g_white h XOR 1" ?w fin p] by (simp add: cell_at_def)
  have gw: "g_white ?s = g_white h" by (simp add: set_marks_fields w)
  have nw: "mark_at h p \<noteq> g_white h \<longleftrightarrow> marked (mark_at h p)" for p by (rule tricolor_not_white [OF t])
  have m: "mark_at h p = (case cell_at ?w p of Some c \<Rightarrow> c_mark c | None \<Rightarrow> Black)" for p
    using w(2) by (simp add: mark_at_def [of ?w, symmetric])
  show "obj_at (sweep_atomic g) p = (if marked (mark_at h p) then obj_at ?w p else None)"
    using nw [of p] m [of p] f xor_one_neq [of "g_white h"]
    by (cases "cell_at ?w p") (auto simp: e obj_at_def cell_at_sweep_free [OF d'] c gw)
  show "live (sweep_atomic g) p \<Longrightarrow> mark_at (sweep_atomic g) p = g_white h XOR 1"
    by (cases "cell_at ?w p") (auto simp: e live_def mark_at_def cell_at_sweep_free [OF d'] c gw split: if_splits)
  show "g_white (sweep_atomic g) = g_white h XOR 1" "g_current (sweep_atomic g) = g_current h"
    by (simp_all add: e sweep_free_def Let_def gw set_marks_fields w)
  show "distinct (map fst (g_all (sweep_atomic g)))" using sweep_free_distinct [OF d'] by (simp add: e)
qed

section \<open>References of the survivors\<close>

text \<open>All the references of an object, the weak ones of a table included.\<close>

definition node_refs :: "table_node \<Rightarrow> ptr list" where
  "node_refs n = (if tn_used n then value_ptrs [tn_key n, tn_value n] else [])"

definition table_refs :: "table \<Rightarrow> ptr list" where
  "table_refs t = opt_list (t_metatable t) @ value_ptrs (t_array t) @ concat (map node_refs (t_hash t))"

definition refs_of :: "gstate \<Rightarrow> ptr \<Rightarrow> ptr list" where
  "refs_of g p = (case table_at g p of Some t \<Rightarrow> table_refs t | None \<Rightarrow> children_of g p)"

definition no_dangling :: "gstate \<Rightarrow> bool" where
  "no_dangling g \<longleftrightarrow> (\<forall>p q. live g p \<longrightarrow> q \<in> set (refs_of g p) \<longrightarrow> live g q)"

text \<open>In the hash part of a table with weak keys and strong values, a collectable value sits under a
  collectable key.\<close>

definition eph_keyed :: "gstate \<Rightarrow> bool" where
  "eph_keyed g \<longleftrightarrow>
     (\<forall>p t n. table_at g p = Some t \<longrightarrow> ephemeron t \<longrightarrow> n \<in> set (t_hash t) \<longrightarrow> tn_used n \<longrightarrow>
        gc_ptr (tn_value n) \<noteq> None \<longrightarrow> gc_ptr (tn_key n) \<noteq> None)"

lemma node_refs_mem:
  "q \<in> set (node_refs n) \<longleftrightarrow> tn_used n \<and> (gc_ptr (tn_key n) = Some q \<or> gc_ptr (tn_value n) = Some q)"
  by (auto simp: node_refs_def value_ptrs_mem)

lemma table_refs_mem:
  "q \<in> set (table_refs t) \<longleftrightarrow>
     t_metatable t = Some q \<or> q \<in> set (value_ptrs (t_array t)) \<or> (\<exists>n \<in> set (t_hash t). q \<in> set (node_refs n))"
  by (auto simp: table_refs_def opt_list_def split: option.splits)

lemma clear_weak_node_0: "clear_weak_node M w 0 n = n"
  by (simp add: clear_weak_node_def)

lemma clear_weak_entries_eq:
  "clear_weak_entries M w msk t =
     t\<lparr>t_array := (if (t_weak t AND msk) AND 2 \<noteq> 0 then map (\<lambda>v. if dead M w v then VNil else v) (t_array t) else t_array t),
       t_hash := map (clear_weak_node M w (t_weak t AND msk)) (t_hash t)\<rparr>"
  by (auto simp: clear_weak_entries_def Let_def clear_weak_node_0 [abs_def])

lemma table_at_clear_weak:
  "table_at (clear_weak_tables msk g) p = map_option (clear_weak_entries (mark_at g) (g_white g) msk) (table_at g p)"
  by (cases "cell_at g p")
    (auto simp: table_at_def obj_at_def clear_weak_at clear_weak_cell_def clear_weak_entries_def split: gc_obj.splits)

lemma weak_cleared_table:
  "table_at (weak_cleared h) p =
     map_option (\<lambda>t. clear_weak_entries (mark_at h) (g_white h) 1 (clear_weak_entries (mark_at h) (g_white h) 2 t)) (table_at h p)"
proof -
  have "mark_at (clear_weak_tables 2 h) = mark_at h" "g_white (clear_weak_tables 2 h) = g_white h"
    using clear_weak_shrinks [of h 2] by (auto simp: shrinks_def)
  then show ?thesis by (simp add: weak_cleared_def table_at_clear_weak option.map_comp comp_def)
qed

lemma dead_iff: "gc_ptr v = Some q \<Longrightarrow> dead M w v \<longleftrightarrow> M q = w"
  by (simp add: dead_def)

lemma cleared_node_refs:
  assumes q: "q \<in> set (node_refs (clear_weak_node M w (wk AND 1) (clear_weak_node M w (wk AND 2) n)))" and M: "M q = w"
  shows "tn_used n \<and> (wk AND 1 = 0 \<and> gc_ptr (tn_key n) = Some q \<or>
    wk AND 2 = 0 \<and> gc_ptr (tn_value n) = Some q \<and> (wk AND 1 \<noteq> 0 \<longrightarrow> \<not> dead M w (tn_key n)))"
  using assms by (auto simp: node_refs_mem clear_weak_node_def and.assoc dead_iff split: if_splits)

lemma weak_refs_marked:
  assumes tri: "tricolor {} P h" and gr: "g_gray h = []" and st: "eph_stable h" and k: "eph_keyed h"
    and p: "live h p" "marked (mark_at h p)" and q: "q \<in> set (refs_of (weak_cleared h) p)"
  shows "marked (mark_at h q)"
proof (rule ccontr)
  assume "\<not> marked (mark_at h q)"
  then have M: "mark_at h q = g_white h" using tricolor_not_white [OF tri, of q] by blast
  have sh: "settles h (weak_cleared h)"
    unfolding weak_cleared_def by (rule shrinks_settles [OF shrinks_trans [OF clear_weak_shrinks clear_weak_shrinks]])
  have bl: "mark_at h p = Black" using tricolor_black [OF tri gr p(1)] p(2) by blast
  have ch: False if "q \<in> set (children_of h p)"
    using tricolorD(5) [OF tri p(1) _ bl that] \<open>\<not> marked (mark_at h q)\<close> by simp
  show False
  proof (cases "table_at h p")
    case None
    then show False using q ch settles_children [OF sh] by (auto simp: refs_of_def weak_cleared_table)
  next
    case (Some t)
    have tch: "children_of h p = table_ptrs t"
      using Some by (auto simp: children_of_def table_at_def split: option.splits gc_obj.splits)
    have mt: "t_metatable t \<noteq> Some q" using ch tch by (auto simp: table_ptrs_def opt_list_def)
    have ar: "t_weak t AND 2 \<noteq> 0" if "q \<in> set (value_ptrs (t_array t))" using ch tch that by (auto simp: table_ptrs_def)
    have nd: "q \<notin> set (node_ptrs (t_weak t) n)" if "n \<in> set (t_hash t)" for n using ch tch that by (auto simp: table_ptrs_def)
    let ?t = "clear_weak_entries (mark_at h) (g_white h) 1 (clear_weak_entries (mark_at h) (g_white h) 2 t)"
    have "q \<in> set (table_refs ?t)" using q Some by (simp add: refs_of_def weak_cleared_table)
    then consider "t_metatable ?t = Some q" | "q \<in> set (value_ptrs (t_array ?t))"
        | n where "n \<in> set (t_hash ?t)" "q \<in> set (node_refs n)" by (auto simp: table_refs_mem)
    then show False
    proof cases
      case 1
      then show False using mt by (simp add: clear_weak_entries_eq)
    next
      case 2
      then show False using ar M by (auto simp: clear_weak_entries_eq value_ptrs_mem and.assoc dead_iff split: if_splits)
    next
      case 3
      then obtain n0 where n0: "n0 \<in> set (t_hash t)"
          "n = clear_weak_node (mark_at h) (g_white h) (t_weak t AND 1) (clear_weak_node (mark_at h) (g_white h) (t_weak t AND 2) n0)"
        by (auto simp: clear_weak_entries_eq)
      note r = cleared_node_refs [OF 3(2) [unfolded n0(2)] M]
      have e: "ephemeron t" "gc_ptr (tn_value n0) = Some q" "\<not> dead (mark_at h) (g_white h) (tn_key n0)" "tn_used n0"
        using r nd [OF n0(1)] by (auto simp: node_ptrs_def ephemeron_def opt_list_def split: if_splits)
      then obtain kp where kp: "gc_ptr (tn_key n0) = Some kp" using k Some n0(1) by (force simp: eph_keyed_def)
      then have "eph_edge h p kp q" "marked (mark_at h kp)"
        using e Some n0(1) tricolor_not_white [OF tri] by (auto simp: eph_edge_def dead_iff)
      then show False using st p(2) \<open>\<not> marked (mark_at h q)\<close> by (auto simp: eph_stable_def)
    qed
  qed
qed

section \<open>A whole collection\<close>

definition collection :: "gstate \<Rightarrow> gstate" where
  "collection g = sweep_atomic (mark_phase g)"

definition finalizable :: "gstate \<Rightarrow> ptr list" where
  "finalizable g = snd (settle_marks (mark_phase g))"

text \<open>What may survive: what is reachable when the entries of ephemeron tables count, and what hangs
  on an object to finalize.\<close>

inductive retained :: "gstate \<Rightarrow> ptr set \<Rightarrow> ptr \<Rightarrow> bool" for g R where
  root: "p \<in> R \<Longrightarrow> live g p \<Longrightarrow> retained g R p"
| edge: "retained g R p \<Longrightarrow> q \<in> set (children_of g p) \<Longrightarrow> live g q \<Longrightarrow> retained g R q"
| entry: "retained g R p \<Longrightarrow> eph_edge g p k q \<Longrightarrow> live g k \<longrightarrow> retained g R k \<Longrightarrow> live g q \<Longrightarrow> retained g R q"

lemma eph_edge_live: "eph_edge g p k q \<Longrightarrow> live g p"
  by (auto simp: eph_edge_def table_at_def live_obj split: option.splits)

lemma retained_closed: "closed_under (retained g R) g" "eph_closed (retained g R) g"
proof -
  show "closed_under (retained g R) g" by (auto simp: closed_under_def intro: retained.edge)
  show "eph_closed (retained g R) g"
    unfolding eph_closed_def using eph_edge_live retained.entry by metis
qed

lemma collection_marks:
  assumes w: "all_white g" and s: "settle_marks (mark_phase g) = (h, fin)"
    and P: "\<forall>p \<in> set (gc_roots g) \<union> set fin. live g p \<longrightarrow> P p" "closed_under P g" "eph_closed P g"
  shows "tricolor {} P h" "g_gray h = []" "eph_stable h" "settles g h" "\<forall>p \<in> set fin. marked (mark_at h p)"
    "reach g (set (gc_roots g)) p \<Longrightarrow> marked (mark_at h p)"
proof -
  have "\<forall>p \<in> set (gc_roots g). live g p \<longrightarrow> P p" using P(1) by blast
  note m = mark_phase_correct [OF w this P(2)]
  let ?m = "mark_phase g"
  note sl = same_objs_live [OF m(3)]
  have fin: "\<forall>p \<in> set fin. live ?m p \<longrightarrow> P p" using P(1) sl by blast
  have cl: "closed_under P ?m" "eph_closed P ?m"
    using P(2,3) same_objs_closed [OF m(3)] eph_closed_same [OF m(3)] by blast+
  note k = settle_marks_ok [OF m(1,2) cl s fin]
  have mono: "\<forall>q. marked (mark_at g q) \<longrightarrow> marked (mark_at ?m q)"
    using w marked_absent [of ?m] sl by (auto simp: all_white_def) (metis marked_absent sl)
  have "settles g ?m" using m(3) mono by (simp add: settles_def same_objs_def)
  then show "settles g h" using k settles_trans by blast
  show "tricolor {} P h" "g_gray h = []" "eph_stable h" "\<forall>p \<in> set fin. marked (mark_at h p)" using k by blast+
  show "marked (mark_at h p)" if r: "reach g (set (gc_roots g)) p"
  proof -
    have "mark_at ?m p = Black" using reach_black [OF m(1-3) m(4) r] .
    then show ?thesis using k by (simp add: settles_def)
  qed
qed

lemma collection_parts:
  assumes w: "all_white g" and d: "distinct (map fst (g_all g))" and s: "settle_marks (mark_phase g) = (h, fin)"
  shows "obj_at (collection g) p = (if marked (mark_at h p) then obj_at (weak_cleared h) p else None)"
    "live (collection g) p \<Longrightarrow> mark_at (collection g) p = g_white g XOR 1"
    "g_white (collection g) = g_white g XOR 1" "g_current (collection g) = g_current g"
    "settles g (weak_cleared h)" "distinct (map fst (g_all (collection g)))"
proof -
  note m = collection_marks [OF w s, of "\<lambda>_. True", simplified]
  have cl: "closed_under (\<lambda>_. True) g" "eph_closed (\<lambda>_. True) g" by (simp_all add: closed_under_def eph_closed_def)
  have e: "map fst (g_all h) = map fst (g_all g)" "g_white h = g_white g" "g_current h = g_current g"
    using m(4) cl by (auto simp: settles_def)
  have d': "distinct (map fst (g_all h))" using d e by simp
  note a = sweep_atomic_parts [OF s d' m(1) [OF cl] m(5) [OF cl], unfolded e, folded collection_def]
  show "obj_at (collection g) p = (if marked (mark_at h p) then obj_at (weak_cleared h) p else None)"
    "live (collection g) p \<Longrightarrow> mark_at (collection g) p = g_white g XOR 1"
    "g_white (collection g) = g_white g XOR 1" "g_current (collection g) = g_current g"
    "distinct (map fst (g_all (collection g)))" using a by blast+
  show "settles g (weak_cleared h)"
    unfolding weak_cleared_def
    by (rule settles_trans [OF m(4) [OF cl] shrinks_settles [OF shrinks_trans [OF clear_weak_shrinks clear_weak_shrinks]]])
qed

lemma collection_shrinks:
  assumes w: "all_white g" and d: "distinct (map fst (g_all g))" and r: "reach g (set (gc_roots g)) p"
  shows "\<exists>ob ob'. obj_at g p = Some ob \<and> obj_at (collection g) p = Some ob' \<and> obj_shrinks ob ob'"
proof -
  obtain h fin where s: "settle_marks (mark_phase g) = (h, fin)" by (cases "settle_marks (mark_phase g)")
  have "marked (mark_at h p)"
    using collection_marks(6) [OF w s, of "\<lambda>_. True", OF _ _ _ r] by (simp add: closed_under_def eph_closed_def)
  then have o: "obj_at (collection g) p = obj_at (weak_cleared h) p" using collection_parts(1) [OF w d s] by simp
  have "obs_shrinks (obj_at g) (obj_at (weak_cleared h))" using collection_parts(5) [OF w d s] by (simp add: settles_def)
  moreover have "obj_at g p \<noteq> None" using r live_obj by (auto elim: reach.cases)
  ultimately show ?thesis unfolding o by (metis obs_shrinks_at)
qed


text \<open>C15: a collection leaves no garbage. What is still there after it is reachable from the roots or
  from an object whose finalizer is due, through references and through ephemeron entries whose
  table and key are retained.\<close>

theorem collection_frees_garbage:
  assumes w: "all_white g" and d: "distinct (map fst (g_all g))" and l: "live (collection g) p"
  shows "retained g (set (gc_roots g) \<union> set (finalizable g)) p"
proof -
  obtain h fin where s: "settle_marks (mark_phase g) = (h, fin)" by (cases "settle_marks (mark_phase g)")
  let ?P = "retained g (set (gc_roots g) \<union> set fin)"
  have "\<forall>p \<in> set (gc_roots g) \<union> set fin. live g p \<longrightarrow> ?P p" by (auto intro: retained.root)
  note m = collection_marks [OF w s this retained_closed]
  have "marked (mark_at h p)" "live (weak_cleared h) p"
    using l collection_parts(1) [OF w d s, of p] by (auto simp: live_obj split: if_splits)
  then have "?P p"
    using tricolorD(6) [OF m(1)] settles_live [OF m(4)] settles_live [OF collection_parts(5) [OF w d s]] by blast
  then show ?thesis by (simp add: finalizable_def s)
qed

text \<open>References of an object depend only on the objects it reaches.\<close>

lemma proto_maxstack_local: "obs' p = obs p \<Longrightarrow> proto_maxstack obs' p = proto_maxstack obs p"
  by (simp add: proto_maxstack_def)

lemma children_local:
  assumes c: "\<And>p ob. p \<in> S \<Longrightarrow> obs p = Some ob \<Longrightarrow> set (children obs cur p ob) \<subseteq> S"
    and e: "\<And>p. p \<in> S \<Longrightarrow> obs' p = obs p" and p: "p \<in> S" "obs p = Some ob"
  shows "children obs' cur p ob = children obs cur p ob"
proof (cases ob)
  case (OUpVal uv)
  then have "uv_open uv \<Longrightarrow> uv_thread uv = Some t \<Longrightarrow> t \<in> S" for t using c [OF p] by (auto simp: opt_list_def)
  then have "uv_get obs' uv = uv_get obs uv" using e by (auto simp: uv_get_def split: option.splits)
  then show ?thesis using OUpVal by simp
next
  case (OThread th)
  have fr: "set (frame_ptrs fr) \<subseteq> S" if "fr \<in> set (th_frames th)" for fr
    using c [OF p] OThread that by (force simp: thread_ptrs_def)
  have "frame_extent obs' fr = frame_extent obs fr" if f: "fr \<in> set (th_frames th)" for fr
  proof (cases "fr_proto fr")
    case (Some q)
    then have "q \<in> S" using fr [OF f] by (auto simp: frame_ptrs_def opt_list_def)
    then show ?thesis using Some proto_maxstack_local [of obs' q obs] e by (simp add: frame_extent_def)
  next
    case None
    show ?thesis
    proof (cases "fr_cl fr")
      case (Some q)
      then have q: "q \<in> S" using fr [OF f] by (auto simp: frame_ptrs_def opt_list_def)
      have "r \<in> S" if "obs q = Some (OClosure cl)" "cl_proto cl = Some r" for cl r
        using c [OF q that(1)] that(2) by (auto simp: opt_list_def)
      then have "obs q = Some (OClosure cl) \<Longrightarrow> cl_proto cl = Some r \<Longrightarrow> proto_maxstack obs' r = proto_maxstack obs r" for cl r
        using e proto_maxstack_local [of obs' r obs] by blast
      then show ?thesis using None Some e [OF q] by (auto simp: frame_extent_def split: option.splits gc_obj.splits)
    qed (simp add: frame_extent_def None)
  qed
  then have "lua_frame_high_water obs' th = lua_frame_high_water obs th"
    unfolding lua_frame_high_water_def by (intro foldl_cong) auto
  then show ?thesis using OThread by (simp add: thread_ptrs_def thread_stack_ptrs_def stack_limit_def)
qed auto

lemma eph_keyed_settles: "settles g g' \<Longrightarrow> eph_keyed g \<Longrightarrow> eph_keyed g'"
  unfolding eph_keyed_def ephemeron_def
  by (intro allI impI, erule settles_node, assumption, assumption) (force simp: node_shrinks_def)

lemma settles_refs: "settles g g' \<Longrightarrow> set (refs_of g' p) \<subseteq> set (refs_of g p)"
proof
  fix q assume s: "settles g g'" and q: "q \<in> set (refs_of g' p)"
  then have os: "obs_shrinks (obj_at g) (obj_at g')" by (simp add: settles_def)
  show "q \<in> set (refs_of g p)"
  proof (cases "table_at g' p")
    case None
    then have "table_at g p = None"
      using os by (auto simp: table_at_def elim!: obs_shrinks_at [where p = p] obj_shrinks_cases split: option.splits gc_obj.splits)
    then show ?thesis using None q settles_children [OF s, of p] by (auto simp: refs_of_def)
  next
    case (Some t')
    then have "obj_at g' p = Some (OTable t')" by (auto simp: table_at_def split: option.splits gc_obj.splits)
    then obtain t where t: "obj_at g p = Some (OTable t)" "table_shrinks t t'" using obs_shrinks_table [OF os] by blast
    have "set (value_ptrs (t_array t')) \<subseteq> set (value_ptrs (t_array t))"
      using t(2) value_ptrs_shrinks [of "t_array t" "t_array t'" "max (length (t_array t)) (length (t_array t'))"]
      by (simp add: table_shrinks_def)
    moreover have "set (concat (map node_refs (t_hash t'))) \<subseteq> set (concat (map node_refs (t_hash t)))"
      using t(2) by (intro list_all2_concat_subset [of node_shrinks])
        (auto simp: table_shrinks_def node_refs_mem node_shrinks_def)
    ultimately show ?thesis using q t Some by (auto simp: refs_of_def table_at_def table_refs_def table_shrinks_def)
  qed
qed

text \<open>The heap between two collections: all objects have the current white, addresses are distinct, no
  reference dangles, and ephemeron tables keep collectable values under collectable keys only.\<close>

definition heap_ok :: "gstate \<Rightarrow> bool" where
  "heap_ok g \<longleftrightarrow> all_white g \<and> distinct (map fst (g_all g)) \<and> no_dangling g \<and> eph_keyed g"

lemma marked_xor_one: "marked ((w :: u8) XOR 1) \<longleftrightarrow> marked w"
proof -
  have "(v XOR 1) XOR 1 = v" for v :: u8 by (simp add: xor.assoc)
  then have "w XOR 1 = v \<longleftrightarrow> w = v XOR 1" for v by auto
  then show ?thesis by (auto simp: marked_def Black_def Gray_def)
qed

lemma collection_children:
  assumes w: "all_white g" and d: "distinct (map fst (g_all g))" and s: "settle_marks (mark_phase g) = (h, fin)"
    and tri: "tricolor {} P h" "g_gray h = []" and p: "live (collection g) p"
  shows "children_of (collection g) p = children_of (weak_cleared h) p"
proof -
  let ?w = "weak_cleared h" let ?S = "{p. marked (mark_at h p)}"
  note c = collection_parts [OF w d s]
  have sh: "shrinks h ?w" unfolding weak_cleared_def by (rule shrinks_trans [OF clear_weak_shrinks clear_weak_shrinks])
  have cur: "g_current (collection g) = g_current ?w" using c(4,5) by (simp add: settles_def)
  have m: "marked (mark_at h p)" "obj_at ?w p \<noteq> None"
    using p c(1) [of p] by (auto simp: live_obj split: if_splits)
  then obtain ob where ob: "obj_at ?w p = Some ob" by blast
  have S: "set (children (obj_at ?w) (g_current ?w) p ob) \<subseteq> ?S" if "p \<in> ?S" "obj_at ?w p = Some ob" for p ob
  proof -
    have "live h p" using that(2) shrinks_live [OF sh, of p] by (simp add: live_obj)
    then have "set (children_of h p) \<subseteq> ?S"
      using tricolorD(5) [OF tri(1)] tricolor_black [OF tri] that(1) by auto
    then show ?thesis using shrinks_children [OF sh, of p] that(2) by (auto simp: children_of_def)
  qed
  have "children (obj_at (collection g)) (g_current ?w) p ob = children (obj_at ?w) (g_current ?w) p ob"
    by (rule children_local [where S = ?S]) (use S c(1) m ob in auto)
  then show ?thesis using c(1) [of p] m ob cur by (simp add: children_of_def)
qed

lemma collection_heap_ok_white:
  assumes "heap_ok g"
  shows "heap_ok (collection g) \<and> g_white (collection g) = g_white g XOR 1"
proof -
  from assms have w: "all_white g" and d: "distinct (map fst (g_all g))" and nd: "no_dangling g" and k: "eph_keyed g"
    by (auto simp: heap_ok_def)
  obtain h fin where s: "settle_marks (mark_phase g) = (h, fin)" by (cases "settle_marks (mark_phase g)")
  have cl: "closed_under (\<lambda>_. True) g" "eph_closed (\<lambda>_. True) g" by (simp_all add: closed_under_def eph_closed_def)
  note m = collection_marks [OF w s, of "\<lambda>_. True", simplified, OF cl]
  note c = collection_parts [OF w d s]
  let ?w = "weak_cleared h" let ?r = "collection g"
  have at: "obj_at ?r p = obj_at ?w p \<and> marked (mark_at h p)" if "live ?r p" for p
    using that c(1) [of p] by (auto simp: live_obj split: if_splits)
  have kh: "eph_keyed h" "eph_keyed ?w" using eph_keyed_settles [OF m(4) k] eph_keyed_settles [OF c(5) k] by auto
  have refs: "refs_of ?r p = refs_of ?w p" if "live ?r p" for p
    using at [OF that] collection_children [OF w d s m(1,2) that] by (simp add: refs_of_def table_at_def cong: option.case_cong)
  have lv: "live h p = live g p" "live ?w p = live g p" for p using settles_live [OF m(4)] settles_live [OF c(5)] by auto
  have "no_dangling ?r"
    unfolding no_dangling_def
  proof (intro allI impI)
    fix p q assume p: "live ?r p" and q: "q \<in> set (refs_of ?r p)"
    have lp: "live g p" using at [OF p] p lv by (simp add: live_obj)
    have qw: "q \<in> set (refs_of ?w p)" using refs [OF p] q by simp
    have mq: "marked (mark_at h q)"
      by (rule weak_refs_marked [OF m(1-3) kh(1) _ _ qw]) (use lv lp at [OF p] in auto)
    have "q \<in> set (refs_of g p)" by (rule subsetD [OF settles_refs [OF c(5)] qw])
    then have "live g q" using nd lp by (auto simp: no_dangling_def)
    then show "live ?r q" using mq c(1) [of q] lv(2) [of q] by (simp add: live_obj)
  qed
  moreover have "eph_keyed ?r"
    using kh(2) at unfolding eph_keyed_def by (metis live_obj option.distinct(1) table_at_def option.simps(4))
  moreover have "all_white ?r" using c(2,3) w marked_xor_one by (auto simp: all_white_def)
  moreover have "distinct (map fst (g_all ?r))" by (rule c(6))
  ultimately show ?thesis using c(3) by (simp add: heap_ok_def)
qed

lemma collection_heap_ok: "heap_ok g \<Longrightarrow> heap_ok (collection g)"
  using collection_heap_ok_white by blast

lemma collection_keeps: "heap_ok g \<Longrightarrow> reach g (set (gc_roots g)) p \<Longrightarrow> live (collection g) p"
  using collection_shrinks [of g p] by (auto simp: heap_ok_def live_obj)


lemma demo_heap_ok: "heap_ok demo_heap"
proof -
  have t: "table_at demo_heap p = Some t \<Longrightarrow> t_weak t = 0" for p t
    by (auto simp: table_at_def obj_at_def demo_heap_def heap_of_at white_cell_def table_new_def split: if_splits)
  have "no_dangling demo_heap"
    by (auto simp: no_dangling_def live_def refs_of_def table_at_def obj_at_def demo_heap_def heap_of_at white_cell_def
        node_refs_def empty_node_def table_new_def table_refs_def value_ptrs_def opt_list_def split: if_splits)
  moreover have "eph_keyed demo_heap" using t by (auto simp: eph_keyed_def ephemeron_def)
  ultimately show ?thesis
    by (simp add: heap_ok_def demo_heap_def heap_of_white) (simp add: heap_of_def)
qed



theorem collection_frees_garbage_witness:
  "live (collection demo_heap) 2 \<and> retained demo_heap (set (gc_roots demo_heap) \<union> set (finalizable demo_heap)) 2"
proof -
  have "live (collection demo_heap) 2"
  proof -
    obtain h fin where s: "settle_marks (mark_phase demo_heap) = (h, fin)" by (cases "settle_marks (mark_phase demo_heap)")
    have w: "all_white demo_heap" "distinct (map fst (g_all demo_heap))" using demo_heap_ok by (auto simp: heap_ok_def)
    have "marked (mark_at h 2)"
      using collection_marks(6) [OF w(1) s, of "\<lambda>_. True", OF _ _ _ demo_reach] by (simp add: closed_under_def eph_closed_def)
    moreover have "live (weak_cleared h) 2"
      using settles_live [OF collection_parts(5) [OF w s]] by (simp add: live_def demo_heap_def heap_of_at)
    ultimately show ?thesis using collection_parts(1) [OF w s, of 2] by (simp add: live_obj)
  qed
  then show ?thesis using collection_frees_garbage [of demo_heap 2] demo_heap_ok by (auto simp: heap_ok_def)
qed

end
