(* ===== verification/Lt_Upval.thy ===== *)
theory Lt_Upval
  imports Lt_GcInv
begin

text \<open>
  Closures, upvalues and userdata: \<open>src/runtime/upvalue.cpp\<close>, \<open>src/runtime/closure.cpp\<close>,
  \<open>src/runtime/userdata.cpp\<close> and the list of open upvalues kept by \<open>State\<close> (\<open>src/vm/state.cpp\<close>).
  The address of a new object is an argument.
\<close>

section \<open>Operations\<close>

definition upval_at :: "gstate \<Rightarrow> ptr \<Rightarrow> upval option" where
  "upval_at g p = (case obj_at g p of Some (OUpVal uv) \<Rightarrow> Some uv | _ \<Rightarrow> None)"

definition upd_thread :: "ptr \<Rightarrow> (thread \<Rightarrow> thread) \<Rightarrow> gstate \<Rightarrow> gstate" where
  "upd_thread p f g = (case thread_at g p of None \<Rightarrow> g | Some th \<Rightarrow> set_obj p (OThread (f th)) g)"

definition uv_set :: "ptr \<Rightarrow> tvalue \<Rightarrow> gstate \<Rightarrow> gstate" where
  "uv_set p v g =
     (case upval_at g p of
        None \<Rightarrow> g
      | Some uv \<Rightarrow>
          barrier p v
            (if uv_open uv
             then (case uv_thread uv of
                     Some t \<Rightarrow> upd_thread t (\<lambda>th. th\<lparr>th_stack := (th_stack th)[nat (uv_index uv) := v]\<rparr>) g
                   | None \<Rightarrow> g)
             else set_obj p (OUpVal (uv\<lparr>uv_closed := v\<rparr>)) g))"

definition closed_uv :: "(ptr \<Rightarrow> gc_obj option) \<Rightarrow> upval \<Rightarrow> upval" where
  "closed_uv obs uv = uv\<lparr>uv_closed := uv_get obs uv, uv_open := False, uv_thread := None, uv_index := -1\<rparr>"

definition uv_close :: "ptr \<Rightarrow> gstate \<Rightarrow> gstate" where
  "uv_close p g =
     (case upval_at g p of
        None \<Rightarrow> g
      | Some uv \<Rightarrow>
          if \<not> uv_open uv then g
          else barrier p (uv_get (obj_at g) uv) (set_obj p (OUpVal (closed_uv (obj_at g) uv)) g))"

definition above_level :: "gstate \<Rightarrow> ptr \<Rightarrow> int \<Rightarrow> ptr \<Rightarrow> bool" where
  "above_level g t level p =
     (case upval_at g p of Some uv \<Rightarrow> uv_open uv \<and> uv_thread uv = Some t \<and> level \<le> uv_index uv | None \<Rightarrow> False)"

definition close_step :: "ptr \<Rightarrow> int \<Rightarrow> gstate \<times> ptr list \<Rightarrow> ptr \<Rightarrow> gstate \<times> ptr list" where
  "close_step t level gk p =
     (if above_level (fst gk) t level p then (uv_close p (fst gk), snd gk) else (fst gk, snd gk @ [p]))"

definition close_upvals :: "ptr \<Rightarrow> int \<Rightarrow> gstate \<Rightarrow> gstate" where
  "close_upvals t level g =
     (case thread_at g t of
        None \<Rightarrow> g
      | Some th \<Rightarrow>
          (let (g', keep) = foldl (close_step t level) (g, []) (th_open th)
           in upd_thread t (\<lambda>th. th\<lparr>th_open := keep\<rparr>) g'))"

definition at_level :: "gstate \<Rightarrow> ptr \<Rightarrow> int \<Rightarrow> ptr \<Rightarrow> bool" where
  "at_level g t level p =
     (case upval_at g p of Some uv \<Rightarrow> uv_open uv \<and> uv_thread uv = Some t \<and> uv_index uv = level | None \<Rightarrow> False)"

definition find_upval :: "ptr \<Rightarrow> int \<Rightarrow> ptr \<Rightarrow> int \<Rightarrow> gstate \<Rightarrow> ptr \<times> gstate" where
  "find_upval new bytes t level g =
     (case thread_at g t of
        None \<Rightarrow> (new, g)
      | Some th \<Rightarrow>
          (case find (at_level g t level) (th_open th) of
             Some p \<Rightarrow> (p, g)
           | None \<Rightarrow>
               (new, upd_thread t (\<lambda>th. th\<lparr>th_open := new # th_open th\<rparr>)
                  (gc_link new (OUpVal \<lparr>uv_thread = Some t, uv_index = level, uv_closed = VNil, uv_open = True\<rparr>) bytes g))))"

definition closure_new_lua :: "ptr \<Rightarrow> int \<Rightarrow> ptr \<Rightarrow> gstate \<Rightarrow> gstate" where
  "closure_new_lua new bytes p g =
     (let n = (case obj_at g p of Some (OProto pr) \<Rightarrow> length (p_upvalues pr) | _ \<Rightarrow> 0)
      in gc_link new (OClosure \<lparr>cl_is_c = False, cl_proto = Some p, cl_cfunc = 0, cl_upvals = replicate n None\<rparr>) bytes g)"

definition closure_new_c :: "ptr \<Rightarrow> int \<Rightarrow> ptr \<Rightarrow> gstate \<Rightarrow> gstate" where
  "closure_new_c new bytes f g =
     gc_link new (OClosure \<lparr>cl_is_c = True, cl_proto = None, cl_cfunc = f, cl_upvals = []\<rparr>) bytes g"

definition userdata_new :: "ptr \<Rightarrow> int \<Rightarrow> nat \<Rightarrow> ptr option \<Rightarrow> gstate \<Rightarrow> gstate" where
  "userdata_new new bytes n mt g =
     (let g1 = gc_link new (OUserdata \<lparr>u_metatable = mt, u_uservalue = VNil, u_data = replicate n (CHR 0x00)\<rparr>) bytes g
      in case mt of Some m \<Rightarrow> barrier new (VTable m) g1 | None \<Rightarrow> g1)"

section \<open>Closing keeps every value\<close>

lemma barrier_same: "same_objs g (barrier p v g)"
  using mark_object_same by (auto simp: barrier_def mark_value_def split: option.splits)

lemma barrier_obj [simp]: "obj_at (barrier p v g) = obj_at g"
  using barrier_same [of g p v] by (simp add: same_objs_def)

lemma obj_at_set_obj: "obj_at (set_obj p ob g) q = (if q = p then map_option (\<lambda>_. ob) (obj_at g p) else obj_at g q)"
  by (simp add: obj_at_def set_obj_def option.map_comp comp_def)

lemma upval_at_obj: "upval_at g p = Some uv \<longleftrightarrow> obj_at g p = Some (OUpVal uv)"
  by (auto simp: upval_at_def split: option.splits gc_obj.splits)

definition stack_of :: "(ptr \<Rightarrow> gc_obj option) \<Rightarrow> ptr \<Rightarrow> tvalue list option" where
  "stack_of obs t = (case obs t of Some (OThread th) \<Rightarrow> Some (th_stack th) | _ \<Rightarrow> None)"

lemma uv_get_stacks: "(\<And>t. stack_of obs' t = stack_of obs t) \<Longrightarrow> uv_get obs' uv = uv_get obs uv"
proof -
  assume e: "\<And>t. stack_of obs' t = stack_of obs t"
  have "uv_get ob uv = (if \<not> uv_open uv then uv_closed uv else case uv_thread uv of None \<Rightarrow> VNil
      | Some t \<Rightarrow> (case stack_of ob t of None \<Rightarrow> VNil
          | Some s \<Rightarrow> if 0 \<le> uv_index uv \<and> uv_index uv < int (length s) then s ! nat (uv_index uv) else VNil))" for ob
    by (auto simp: uv_get_def stack_of_def split: option.splits gc_obj.splits)
  then show ?thesis using e by (cases "uv_thread uv") simp_all
qed

text \<open>The objects after closing the upvalues of a list.\<close>

definition closed_obs :: "gstate \<Rightarrow> ptr \<Rightarrow> int \<Rightarrow> ptr set \<Rightarrow> ptr \<Rightarrow> gc_obj option" where
  "closed_obs g t level ps q =
     (case obj_at g q of
        Some (OUpVal uv) \<Rightarrow> Some (OUpVal (if q \<in> ps \<and> above_level g t level q then closed_uv (obj_at g) uv else uv))
      | x \<Rightarrow> x)"

lemma close_fold:
  assumes "distinct ps"
  shows "obj_at (fst (foldl (close_step t level) (g, []) ps)) = closed_obs g t level (set ps) \<and>
    snd (foldl (close_step t level) (g, []) ps) = filter (\<lambda>p. \<not> above_level g t level p) ps"
  using assms
proof (induction ps rule: rev_induct)
  case Nil
  show ?case by (auto simp: closed_obs_def fun_eq_iff split: option.splits gc_obj.splits)
next
  case (snoc p ps)
  define s where "s = foldl (close_step t level) (g, []) ps"
  have o: "obj_at (fst s) = closed_obs g t level (set ps)" and k: "snd s = filter (\<lambda>p. \<not> above_level g t level p) ps"
    using snoc by (auto simp: s_def)
  have np: "p \<notin> set ps" using snoc.prems by simp
  have up: "upval_at (fst s) p = upval_at g p"
    using np by (auto simp: upval_at_def o closed_obs_def split: option.splits gc_obj.splits)
  then have al: "above_level (fst s) t level p = above_level g t level p" by (simp add: above_level_def)
  have get: "uv_get (obj_at (fst s)) uv = uv_get (obj_at g) uv" for uv
    by (rule uv_get_stacks) (auto simp: stack_of_def o closed_obs_def split: option.splits gc_obj.splits)
  have st: "foldl (close_step t level) (g, []) (ps @ [p]) =
      (if above_level g t level p then (uv_close p (fst s), snd s) else (fst s, snd s @ [p]))"
    by (simp add: s_def [symmetric] close_step_def [of t level s] al)
  show ?case
  proof (cases "above_level g t level p")
    case True
    then obtain uv where uv: "upval_at g p = Some uv" "uv_open uv" by (auto simp: above_level_def split: option.splits)
    then have "uv_close p (fst s) = barrier p (uv_get (obj_at g) uv) (set_obj p (OUpVal (closed_uv (obj_at g) uv)) (fst s))"
      using up by (simp add: uv_close_def get closed_uv_def)
    moreover have "obj_at (fst s) p \<noteq> None" using up uv by (auto simp: upval_at_def split: option.splits)
    ultimately have "obj_at (uv_close p (fst s)) = closed_obs g t level (set (ps @ [p]))"
      using True uv by (auto simp: fun_eq_iff obj_at_set_obj o closed_obs_def upval_at_obj split: option.splits gc_obj.splits)
    then show ?thesis unfolding st using True k by simp
  next
    case False
    then have "closed_obs g t level (set (ps @ [p])) = closed_obs g t level (set ps)"
      by (auto simp: closed_obs_def fun_eq_iff split: option.splits gc_obj.splits)
    then show ?thesis unfolding st using False k o by simp
  qed
qed

text \<open>C18: closing upvalues keeps what closures see. After \<open>close_upvals\<close> every upvalue reads the same
  value as before; the ones of that thread at or above the level own it (they no longer depend on
  the stack) and have left the open list, all others are untouched.\<close>

theorem close_upvals_keeps_values:
  assumes th: "thread_at g t = Some th" and d: "distinct (th_open th)" and uv: "upval_at g p = Some uv" and p: "p \<in> set (th_open th)"
  shows "\<exists>uv' th'. upval_at (close_upvals t level g) p = Some uv' \<and> thread_at (close_upvals t level g) t = Some th' \<and>
    uv_get (obj_at (close_upvals t level g)) uv' = uv_get (obj_at g) uv \<and>
    (if uv_open uv \<and> uv_thread uv = Some t \<and> level \<le> uv_index uv
     then \<not> uv_open uv' \<and> p \<notin> set (th_open th') else uv' = uv \<and> p \<in> set (th_open th'))"
proof -
  obtain g' keep where f: "foldl (close_step t level) (g, []) (th_open th) = (g', keep)" by fastforce
  have o: "obj_at g' = closed_obs g t level (set (th_open th))" and k: "keep = filter (\<lambda>p. \<not> above_level g t level p) (th_open th)"
    using close_fold [OF d, of t level g] f by simp_all
  let ?r = "close_upvals t level g"
  have tg: "obj_at g t = Some (OThread th)" using th by (auto simp: thread_at_def split: option.splits gc_obj.splits)
  then have tg': "thread_at g' t = Some th" by (simp add: thread_at_def o closed_obs_def)
  have r: "?r = set_obj t (OThread (th\<lparr>th_open := keep\<rparr>)) g'" using th f tg' by (simp add: close_upvals_def upd_thread_def)
  have rt: "obj_at ?r q = (if q = t then Some (OThread (th\<lparr>th_open := keep\<rparr>)) else obj_at g' q)" for q
    using tg by (simp add: r obj_at_set_obj o closed_obs_def)
  have pt: "p \<noteq> t" using uv tg by (auto simp: upval_at_def)
  define uv' where "uv' = (if above_level g t level p then closed_uv (obj_at g) uv else uv)"
  have up: "upval_at ?r p = Some uv'"
    using pt uv p by (simp add: upval_at_obj rt o closed_obs_def uv'_def)
  have stacks: "uv_get (obj_at ?r) u = uv_get (obj_at g) u" for u
    by (rule uv_get_stacks) (auto simp: stack_of_def tg rt o closed_obs_def split: option.splits gc_obj.splits)
  have "uv_get (obj_at ?r) uv' = uv_get (obj_at g) uv"
    by (simp add: uv'_def stacks) (simp add: closed_uv_def uv_get_def)
  moreover have "thread_at ?r t = Some (th\<lparr>th_open := keep\<rparr>)" by (simp add: thread_at_def rt)
  ultimately show ?thesis
    using up uv p by (intro exI [of _ uv'] exI [of _ "th\<lparr>th_open := keep\<rparr>"]) (auto simp: uv'_def k above_level_def closed_uv_def)
qed

text \<open>A thread at address 5 with one open upvalue, at address 6, on its second slot.\<close>

definition upval_heap :: gstate where
  "upval_heap = heap_of
     [(5, OThread \<lparr>th_stack = [VInt 10, VInt 20], th_frames = [], th_hook = None, th_open = [6], th_top = 2,
                   th_version = 0, th_base = 0, th_err_set = False\<rparr>),
      (6, OUpVal \<lparr>uv_thread = Some 5, uv_index = 1, uv_closed = VNil, uv_open = True\<rparr>)]"

theorem close_upvals_keeps_values_witness:
  "\<exists>uv'. upval_at (close_upvals 5 1 upval_heap) 6 = Some uv' \<and> \<not> uv_open uv' \<and>
    uv_get (obj_at (close_upvals 5 1 upval_heap)) uv' = VInt 20"
proof -
  let ?u = "\<lparr>uv_thread = Some 5, uv_index = 1, uv_closed = VNil, uv_open = True\<rparr> :: upval"
  have t: "thread_at upval_heap 5 = Some \<lparr>th_stack = [VInt 10, VInt 20], th_frames = [], th_hook = None, th_open = [6],
      th_top = 2, th_version = 0, th_base = 0, th_err_set = False\<rparr>"
    by (simp add: thread_at_def obj_at_def upval_heap_def heap_of_at white_cell_def)
  have u: "upval_at upval_heap 6 = Some ?u"
    by (simp add: upval_at_def obj_at_def upval_heap_def heap_of_at white_cell_def)
  have "uv_get (obj_at upval_heap) ?u = VInt 20"
    by (simp add: uv_get_def obj_at_def upval_heap_def heap_of_at white_cell_def)
  then show ?thesis using close_upvals_keeps_values [OF t _ u, of 1] by auto
qed

end
