(* ===== verification/Lt_GcCycle.thy ===== *)
theory Lt_GcCycle
  imports Lt_GcSafe Lt_Upval
begin

text \<open>
  The driver of the collector: finalizers, \<open>step\<close>, \<open>full_gc\<close>, \<open>maybe_step\<close> and \<open>safepoint\<close> of
  \<open>src/gc/gc.cpp\<close>. Calling a finalizer (\<open>call_closure\<close>) is the argument \<open>call\<close>: it gets the state
  with the function and the object pushed and returns how the call ended.
\<close>

section \<open>Finalizers\<close>

datatype call_result = CallOk | CallError string | CallOther

type_synonym call_fn = "gstate \<Rightarrow> ptr \<Rightarrow> call_result \<times> gstate"

definition on_current :: "(thread \<Rightarrow> thread) \<Rightarrow> gstate \<Rightarrow> gstate" where
  "on_current f g = (case g_current g of None \<Rightarrow> g | Some p \<Rightarrow> upd_thread p f g)"

definition thread_live_top :: "(ptr \<Rightarrow> gc_obj option) \<Rightarrow> thread \<Rightarrow> int" where
  "thread_live_top obs th =
     max (foldl (\<lambda>limit fr. case frame_extent obs fr of Some e \<Rightarrow> max limit e | None \<Rightarrow> limit) (th_top th) (th_frames th))
       (th_base th)"

definition mark_finalizer :: "bool \<Rightarrow> thread \<Rightarrow> thread" where
  "mark_finalizer b th =
     (if th_frames th = [] then th
      else th\<lparr>th_frames := butlast (th_frames th) @ [(last (th_frames th))\<lparr>fr_finalizer := b\<rparr>]\<rparr>)"

definition gc_error_message :: "string \<Rightarrow> string" where
  "gc_error_message msg =
     (if \<exists>i \<le> length msg. take 13 (drop i msg) = ''error in __gc'' then msg else ''error in __gc ('' @ msg @ '')'')"

text \<open>One pending object: it is flagged, its metamethod is looked up and, when it is a function,
  called above the live part of the stack. The first error is kept.\<close>

definition reset_top :: "gstate \<Rightarrow> gstate" where
  "reset_top g = on_current (\<lambda>th. set_abs_top (thread_live_top (obj_at g) th) th) g"

definition call_finalizer :: "call_fn \<Rightarrow> gstate \<Rightarrow> ptr \<Rightarrow> tvalue \<Rightarrow> string \<Rightarrow> gstate \<times> string" where
  "call_finalizer call g fn obj err =
     (case g_current g of
        None \<Rightarrow> (g, err)
      | Some tp \<Rightarrow>
          (case thread_at g tp of
             None \<Rightarrow> (g, err)
           | Some th \<Rightarrow>
               (let live = thread_live_top (obj_at g) th;
                    th1 = push obj (push (VFunction fn) ((ensure_stack (live + 4) th)\<lparr>th_top := live\<rparr>));
                    marked_fin = th_frames th1 \<noteq> [];
                    (res, g2) = call (set_obj tp (OThread (mark_finalizer True th1)) g) fn;
                    g3 = (if marked_fin then upd_thread tp (mark_finalizer False) g2 else g2)
                in case res of
                     CallOk \<Rightarrow> (on_current (set_abs_top live) g3, err)
                   | CallError msg \<Rightarrow> (reset_top g3, if err = [] then gc_error_message msg else err)
                   | CallOther \<Rightarrow> (reset_top g3, if err = [] then ''error in __gc'' else err))))"

definition finalize_one :: "call_fn \<Rightarrow> gstate \<times> string \<Rightarrow> ptr \<Rightarrow> gstate \<times> string" where
  "finalize_one call ge p =
     (let (g, err) = ge;
          g1 = upd_cell p (\<lambda>c. c\<lparr>c_flags := c_flags c OR GcFlagFinalized\<rparr>) g;
          obj = (case obj_at g1 p of Some ob \<Rightarrow> gc_object_value p ob | None \<Rightarrow> VNil);
          (mm, g2) = get_metamethod g1 obj TM_GC
      in case mm of VFunction fn \<Rightarrow> call_finalizer call g2 fn obj err | _ \<Rightarrow> (g2, err))"

definition run_finalizers :: "call_fn \<Rightarrow> gstate \<Rightarrow> string option \<times> gstate" where
  "run_finalizers call g =
     (if g_finalize g = [] then (None, g)
      else let (g1, err) = foldl (finalize_one call) (g\<lparr>g_running_finalizer := True, g_finalize := []\<rparr>, []) (g_finalize g);
               g2 = g1\<lparr>g_running_finalizer := False\<rparr>
           in if err = [] then (None, g2) else (Some err, on_current (\<lambda>th. th\<lparr>th_err_set := False\<rparr>) g2))"

definition sweep :: "call_fn \<Rightarrow> gstate \<Rightarrow> string option \<times> gstate" where
  "sweep call g = run_finalizers call (sweep_atomic g)"

section \<open>The phases\<close>

definition gc_step :: "call_fn \<Rightarrow> gstate \<Rightarrow> string option \<times> gstate" where
  "gc_step call g =
     (case g_phase g of
        Pause \<Rightarrow> (None, (mark_roots (g\<lparr>g_gray := []\<rparr>))\<lparr>g_phase := Propagate\<rparr>)
      | Propagate \<Rightarrow> (None, if g_gray g \<noteq> [] then propagate_one g else g\<lparr>g_phase := Sweep\<rparr>)
      | Sweep \<Rightarrow>
          (let (e, g') = sweep call g in
           case e of Some m \<Rightarrow> (Some m, g') | None \<Rightarrow> (None, g'\<lparr>g_debt := 0, g_phase := Pause\<rparr>)))"

definition phase_work :: "gstate \<Rightarrow> nat" where
  "phase_work g = (case g_phase g of Pause \<Rightarrow> 0 | Sweep \<Rightarrow> 1 | Propagate \<Rightarrow> gc_work g + 2)"

lemma mark_object_phase [simp]:
  "mark_object p (g\<lparr>g_phase := x\<rparr>) = (mark_object p g)\<lparr>g_phase := x\<rparr>" "g_phase (mark_object p g) = g_phase g"
  by (auto simp: mark_object_def cell_at_def upd_cell_def split: option.splits)

lemma mark_all_phase [simp]:
  "mark_all ps (g\<lparr>g_phase := x\<rparr>) = (mark_all ps g)\<lparr>g_phase := x\<rparr>" "g_phase (mark_all ps g) = g_phase g"
  by (induction ps arbitrary: g) auto

lemma obj_at_phase [simp]: "obj_at (g\<lparr>g_phase := x\<rparr>) = obj_at g" "cell_at (g\<lparr>g_phase := x\<rparr>) = cell_at g"
  by (intro ext, simp add: obj_at_def cell_at_def)+

lemma mark_at_phase [simp]: "mark_at (g\<lparr>g_phase := x\<rparr>) = mark_at g" "thread_at (g\<lparr>g_phase := x\<rparr>) = thread_at g"
  by (intro ext, simp add: mark_at_def thread_at_def)+

lemma propagate_one_phase:
  "propagate_one (g\<lparr>g_phase := x\<rparr>) = (propagate_one g)\<lparr>g_phase := x\<rparr>" "g_phase (propagate_one g) = g_phase g"
proof -
  have b: "blacken (g\<lparr>g_phase := x\<rparr>) = blacken g" by (intro ext) (auto simp: blacken_def split: option.splits gc_obj.splits)
  have u: "upd_cell p f (g\<lparr>g_phase := x, g_gray := ps\<rparr>) = (upd_cell p f (g\<lparr>g_gray := ps\<rparr>))\<lparr>g_phase := x\<rparr>" for p f ps
    by (simp add: upd_cell_def)
  show "propagate_one (g\<lparr>g_phase := x\<rparr>) = (propagate_one g)\<lparr>g_phase := x\<rparr>"
    by (auto simp: propagate_one_def b u split: list.splits option.splits)
  show "g_phase (propagate_one g) = g_phase g"
    by (auto simp: propagate_one_def upd_cell_def split: list.splits option.splits)
qed

function step_to_pause :: "call_fn \<Rightarrow> gstate \<Rightarrow> string option \<times> gstate" where
  "step_to_pause call g =
     (if g_phase g = Pause then (None, g)
      else case gc_step call g of (Some m, g') \<Rightarrow> (Some m, g') | (None, g') \<Rightarrow> step_to_pause call g')"
  by pat_completeness auto
termination
proof (relation "measure (\<lambda>(_, g). phase_work g)")
  fix call :: call_fn and g e g'
  assume "g_phase g \<noteq> Pause" "(e, g') = gc_step call g" "e = None"
  then have s: "gc_step call g = (None, g')" "g_phase g \<noteq> Pause" by auto
  then show "((call, g'), call, g) \<in> measure (\<lambda>(_, g). phase_work g)"
    using propagate_one_work [of g] propagate_one_phase(2) [of g]
    by (cases "g_phase g")
      (auto simp: gc_step_def phase_work_def split: if_splits prod.splits option.splits)
qed simp

declare step_to_pause.simps [simp del]

definition full_gc :: "call_fn \<Rightarrow> gstate \<Rightarrow> string option \<times> gstate" where
  "full_gc call g =
     (if g_collecting g then (None, g)
      else let (e, g') =
             (case step_to_pause call (g\<lparr>g_collecting := True\<rparr>) of
                (Some m, g1) \<Rightarrow> (Some m, g1)
              | (None, g1) \<Rightarrow>
                  (case gc_step call (g1\<lparr>g_gray := [], g_phase := Pause\<rparr>) of
                     (Some m, g2) \<Rightarrow> (Some m, g2)
                   | (None, g2) \<Rightarrow> step_to_pause call g2))
           in case e of
                Some m \<Rightarrow> (Some m, g'\<lparr>g_collecting := False, g_phase := Pause, g_gray := []\<rparr>)
              | None \<Rightarrow> (None, g'\<lparr>g_collecting := False\<rparr>))"

definition maybe_step :: "call_fn \<Rightarrow> gstate \<Rightarrow> string option \<times> gstate" where
  "maybe_step call g =
     (if \<not> g_isrunning g \<or> g_running_finalizer g \<or> g_collecting g then (None, g)
      else if g_debt g < g_threshold g then (None, g)
      else case full_gc call g of
             (Some m, g') \<Rightarrow> (Some m, g')
           | (None, g') \<Rightarrow> (None, if g_threshold g' < 1024 * 64 then g'\<lparr>g_threshold := 1024 * 64\<rparr> else g'))"

definition safepoint :: "call_fn \<Rightarrow> gstate \<Rightarrow> string option \<times> gstate" where
  "safepoint call g =
     (if g_running_finalizer g \<or> g_collecting g then (None, g)
      else if g_stress g then full_gc call g else maybe_step call g)"

definition set_running :: "bool \<Rightarrow> gstate \<Rightarrow> gstate" where
  "set_running r g = g\<lparr>g_isrunning := r\<rparr>"

definition is_running :: "gstate \<Rightarrow> bool" where
  "is_running g = g_isrunning g"

section \<open>A full collection\<close>

lemma mark_roots_phase: "mark_roots (g\<lparr>g_phase := x\<rparr>) = (mark_roots g)\<lparr>g_phase := x\<rparr>"
proof -
  have "thread_roots (g\<lparr>g_phase := x\<rparr>) = thread_roots g"
    by (intro ext) (auto simp: thread_roots_def split: option.splits)
  then have "gc_roots (g\<lparr>g_phase := x\<rparr>) = gc_roots g" by (simp add: gc_roots_def)
  then show ?thesis by (simp add: mark_roots_def)
qed

lemma propagate_all_phase:
  "propagate_all (g\<lparr>g_phase := x\<rparr>) = (propagate_all g)\<lparr>g_phase := x\<rparr>" "g_phase (propagate_all g) = g_phase g"
proof -
  have "propagate_all (g\<lparr>g_phase := x\<rparr>) = (propagate_all g)\<lparr>g_phase := x\<rparr> \<and> g_phase (propagate_all g) = g_phase g"
  proof (induction g rule: propagate_all.induct)
    case (1 g)
    then show ?case
      using propagate_one_phase(1) [of x g] propagate_one_phase(2) [of g]
      by (subst (1 2 3) propagate_all.simps) (simp add: propagate_all.simps [of "g\<lparr>g_phase := x\<rparr>"])
  qed
  then show "propagate_all (g\<lparr>g_phase := x\<rparr>) = (propagate_all g)\<lparr>g_phase := x\<rparr>" "g_phase (propagate_all g) = g_phase g"
    by blast+
qed

lemma mark_phase_phase: "mark_phase (g\<lparr>g_phase := x\<rparr>) = (mark_phase g)\<lparr>g_phase := x\<rparr>"
proof -
  have "g\<lparr>g_phase := x, g_gray := []\<rparr> = (g\<lparr>g_gray := []\<rparr>)\<lparr>g_phase := x\<rparr>" by simp
  then show ?thesis by (simp only: mark_phase_def mark_roots_phase propagate_all_phase)
qed

text \<open>Where a run of steps ends: the rest of marking, then the sweep.\<close>

definition swept :: "string option \<times> gstate \<Rightarrow> string option \<times> gstate" where
  "swept r = (case fst r of Some m \<Rightarrow> r | None \<Rightarrow> (None, (snd r)\<lparr>g_debt := 0, g_phase := Pause\<rparr>))"

lemma step_to_pause_Sweep: "g_phase g = Sweep \<Longrightarrow> step_to_pause call g = swept (sweep call g)"
  by (cases "sweep call g")
    (auto simp: step_to_pause.simps [of call g] gc_step_def swept_def step_to_pause.simps split: option.splits)

lemma step_to_pause_Propagate:
  "g_phase g = Propagate \<Longrightarrow> step_to_pause call g = swept (sweep call ((propagate_all g)\<lparr>g_phase := Sweep\<rparr>))"
proof (induction g rule: propagate_all.induct)
  case (1 g)
  show ?case
  proof (cases "g_gray g = []")
    case True
    then show ?thesis
      using "1.prems" by (simp add: step_to_pause.simps [of call g] gc_step_def propagate_all.simps [of g] step_to_pause_Sweep)
  next
    case False
    have "g_phase (propagate_one g) = Propagate" using propagate_one_phase(2) [of g] "1.prems" by simp
    then show ?thesis using "1.IH" [OF False] "1.prems" False
      by (simp add: step_to_pause.simps [of call g] gc_step_def propagate_all.simps [of g])
  qed
qed

lemma full_gc_from_pause:
  assumes "g_phase g = Pause" "\<not> g_collecting g"
  shows "full_gc call g =
    (case swept (run_finalizers call (collection (g\<lparr>g_collecting := True, g_phase := Sweep\<rparr>))) of
       (Some m, g') \<Rightarrow> (Some m, g'\<lparr>g_collecting := False, g_phase := Pause, g_gray := []\<rparr>)
     | (None, g') \<Rightarrow> (None, g'\<lparr>g_collecting := False\<rparr>))"
proof -
  let ?g = "g\<lparr>g_collecting := True\<rparr>"
  have p: "g_phase ?g = Pause" using assms by simp
  have s1: "step_to_pause call ?g = (None, ?g)" by (simp add: step_to_pause.simps [of call ?g] p)
  have g: "?g\<lparr>g_gray := [], g_phase := Pause\<rparr> = ?g\<lparr>g_gray := []\<rparr>" using p by simp
  have s2: "gc_step call (?g\<lparr>g_gray := [], g_phase := Pause\<rparr>) = (None, (mark_roots (?g\<lparr>g_gray := []\<rparr>))\<lparr>g_phase := Propagate\<rparr>)"
    unfolding g by (simp add: gc_step_def assms)
  have "(propagate_all ((mark_roots (?g\<lparr>g_gray := []\<rparr>))\<lparr>g_phase := Propagate\<rparr>))\<lparr>g_phase := Sweep\<rparr>
      = (mark_phase ?g)\<lparr>g_phase := Sweep\<rparr>" by (simp add: propagate_all_phase mark_phase_def)
  also have "\<dots> = mark_phase (?g\<lparr>g_phase := Sweep\<rparr>)" by (simp only: mark_phase_phase)
  finally have s3: "step_to_pause call ((mark_roots (?g\<lparr>g_gray := []\<rparr>))\<lparr>g_phase := Propagate\<rparr>)
      = swept (sweep call (mark_phase (?g\<lparr>g_phase := Sweep\<rparr>)))" by (simp add: step_to_pause_Propagate)
  show ?thesis
    using assms(2) unfolding full_gc_def s1 s2
    by (simp add: s2 s3 sweep_def collection_def Let_def split: prod.splits option.splits)
qed

lemma reach_same: "same_objs g g' \<Longrightarrow> reach g R p \<Longrightarrow> reach g' R p"
  by (rotate_tac 1, induction rule: reach.induct) (auto simp: same_objs_live same_objs_children intro: reach.intros)

lemma refs_of_same: "same_objs g g' \<Longrightarrow> refs_of g' p = refs_of g p"
  by (simp add: refs_of_def same_objs_children same_objs_table cong: option.case_cong)

lemma heap_ok_same: "same_objs g g' \<Longrightarrow> mark_at g' = mark_at g \<Longrightarrow> heap_ok g \<Longrightarrow> heap_ok g'"
  unfolding heap_ok_def all_white_def no_dangling_def eph_keyed_def
  by (auto simp: same_objs_live same_objs_table refs_of_same) (auto simp: same_objs_def)



section \<open>Two defects\<close>

definition weak_key_heap :: gstate where
  "weak_key_heap = heap_of
     [(1, OTable ((table_new 0 0)\<lparr>t_weak := 1, t_hash := [\<lparr>tn_key = VInt 1000, tn_value = VTable 2, tn_used = True\<rparr>]\<rparr>)),
      (2, OTable (table_new 0 0))]"


text \<open>A step taken in the sweep phase frees whatever is white. A finalizer that raises out of \<open>sweep\<close>
  leaves \<open>step\<close> before it resets the phase, with every survivor already white; the next step then
  frees the objects the roots still name.\<close>

lemma gc_step_error: "g_phase g = Sweep \<Longrightarrow> sweep call g = (Some m, g') \<Longrightarrow> gc_step call g = (Some m, g')"
  by (simp add: gc_step_def)

theorem unmarked_sweep_frees_globals:
  "all_white (demo_heap\<lparr>g_phase := Sweep\<rparr>) \<and> g_globals (demo_heap\<lparr>g_phase := Sweep\<rparr>) = Some 1 \<and>
   \<not> live (snd (gc_step (\<lambda>g _. (CallOk, g)) (demo_heap\<lparr>g_phase := Sweep\<rparr>))) 1"
proof -
  have "all_white (demo_heap\<lparr>g_phase := Sweep\<rparr>)"
    using heap_of_white by (simp add: demo_heap_def all_white_def live_def)
  moreover have "g_globals (demo_heap\<lparr>g_phase := Sweep\<rparr>) = Some 1" by (simp add: demo_heap_def heap_of_def)
  moreover have "\<not> live (snd (gc_step (\<lambda>g _. (CallOk, g)) (demo_heap\<lparr>g_phase := Sweep\<rparr>))) 1" by code_simp
  ultimately show ?thesis by blast
qed

end
