(* ===== verification/Lt_Meta.thy ===== *)
theory Lt_Meta
  imports Lt_Upval Lt_Convert
begin

text \<open>
  Metamethods: \<open>src/vm/meta.cpp\<close>. Indexing follows chains of \<open>__index\<close>/\<open>__newindex\<close> tables up to a
  limit; comparison, concatenation, length and calls fall back to a metamethod of either operand.
  \<open>meta_env\<close> collects what the code reads from outside: \<open>call_closure\<close>, the position and variable
  information that \<open>src/vm/ldebug.cpp\<close> adds to messages, type names, \<open>strcoll\<close>, the conversions of
  the C library, the address of the next object and \<open>sizeof(LjString)\<close>.
\<close>

record meta_env =
  me_call :: "gstate \<Rightarrow> ptr \<Rightarrow> int \<Rightarrow> int \<Rightarrow> (int \<times> gstate) result"
  me_where :: "gstate \<Rightarrow> string \<Rightarrow> string"
  me_varinfo :: "gstate \<Rightarrow> int \<Rightarrow> string"
  me_type_name :: "gstate \<Rightarrow> tvalue \<Rightarrow> string"
  me_strcoll :: "string \<Rightarrow> string \<Rightarrow> int"
  me_strtod :: strtod_fun
  me_dec :: char
  me_fmt_g :: "f64 \<Rightarrow> string"
  me_fmt_p :: "ptr \<Rightarrow> string"
  me_alloc :: "gstate \<Rightarrow> ptr"
  me_str_bytes :: int
  me_pow :: "f64 \<Rightarrow> f64 \<Rightarrow> f64"

section \<open>Comparing strings\<close>

text \<open>A C string ends at its first NUL. \<open>string_cmp\<close> compares segment by segment.\<close>

definition cstr :: "string \<Rightarrow> string" where
  "cstr s = takeWhile (\<lambda>c. c \<noteq> CHR 0x00) s"

lemma length_cstr_le: "length (cstr s) \<le> length s"
  by (simp add: cstr_def length_takeWhile_le)

function string_cmp :: "(string \<Rightarrow> string \<Rightarrow> int) \<Rightarrow> string \<Rightarrow> string \<Rightarrow> int" where
  "string_cmp strcoll l r =
     (let temp = strcoll (cstr l) (cstr r) in
      if temp \<noteq> 0 then temp
      else let len = length (cstr l) in
        if len = length r then (if len = length l then 0 else 1)
        else if len = length l then -1
        else string_cmp strcoll (drop (len + 1) l) (drop (len + 1) r))"
  by pat_completeness auto
termination
proof (relation "measure (\<lambda>(_, l, _). length l)")
  fix l :: string and len :: nat assume "len = length (cstr l)" "len \<noteq> length l"
  then show "((strcoll, drop (len + 1) l, drop (len + 1) r), strcoll, l, r) \<in> measure (\<lambda>(_, l, _). length l)"
    for strcoll :: "string \<Rightarrow> string \<Rightarrow> int" and r using length_cstr_le [of l] by auto
qed simp

declare string_cmp.simps [simp del]

section \<open>Errors\<close>

definition runerror :: "meta_env \<Rightarrow> gstate \<Rightarrow> string \<Rightarrow> 'a result" where
  "runerror E g msg = panic (me_where E g msg)"

definition typeerror :: "meta_env \<Rightarrow> gstate \<Rightarrow> tvalue \<Rightarrow> int \<Rightarrow> string \<Rightarrow> 'a result" where
  "typeerror E g v reg op =
     runerror E g (''attempt to '' @ op @ '' a '' @ me_type_name E g v @ '' value'' @ me_varinfo E g reg)"

definition compareerror :: "meta_env \<Rightarrow> gstate \<Rightarrow> tvalue \<Rightarrow> tvalue \<Rightarrow> 'a result" where
  "compareerror E g a b =
     (let ta = me_type_name E g a; tb = me_type_name E g b in
      if ta = tb then runerror E g (''attempt to compare two '' @ ta @ '' values'')
      else runerror E g (''attempt to compare '' @ ta @ '' with '' @ tb))"

section \<open>Calling a metamethod\<close>

definition mm_frame_extent :: "(ptr \<Rightarrow> gc_obj option) \<Rightarrow> call_frame \<Rightarrow> int option" where
  "mm_frame_extent obs fr =
     (case frame_extent obs fr of
        Some e \<Rightarrow> Some e
      | None \<Rightarrow>
          (case fr_cl fr of
             Some c \<Rightarrow>
               (case obs c of Some (OClosure cl) \<Rightarrow> if cl_is_c cl then Some (fr_base fr + 1) else None | _ \<Rightarrow> None)
           | None \<Rightarrow> None))"

definition live_stack_top :: "(ptr \<Rightarrow> gc_obj option) \<Rightarrow> thread \<Rightarrow> int" where
  "live_stack_top obs th =
     foldl (\<lambda>limit fr. case mm_frame_extent obs fr of Some e \<Rightarrow> max limit e | None \<Rightarrow> limit) (th_top th) (th_frames th)"

primrec put_list :: "nat \<Rightarrow> tvalue list \<Rightarrow> tvalue list \<Rightarrow> tvalue list" where
  "put_list i [] st = st"
| "put_list i (v # vs) st = put_list (Suc i) vs (st[i := v])"

definition call_mm :: "meta_env \<Rightarrow> gstate \<Rightarrow> ptr \<Rightarrow> tvalue list \<Rightarrow> nat \<Rightarrow> (tvalue list \<times> gstate) result" where
  "call_mm E g fn as nout =
     (case g_current g of
        None \<Rightarrow> Inr (replicate nout VNil, g)
      | Some tp \<Rightarrow>
          (case thread_at g tp of
             None \<Rightarrow> Inr (replicate nout VNil, g)
           | Some th \<Rightarrow>
               (let saved_top = th_top th;
                    call_base = live_stack_top (obj_at g) th;
                    th1 = ensure_stack (call_base + 1 + int (length as) + int nout + 8) th;
                    th2 = th1\<lparr>th_stack := put_list (nat call_base) (VFunction fn # as) (th_stack th1),
                              th_top := call_base + 1 + int (length as)\<rparr>
                in rbind (me_call E (set_obj tp (OThread th2) g) fn (int (length as)) (int nout)) (\<lambda>(st, g2).
                   let outs =
                     (if st \<noteq> 0 then replicate nout VNil
                      else case thread_at g2 tp of
                        None \<Rightarrow> replicate nout VNil
                      | Some th3 \<Rightarrow>
                          map (\<lambda>i. if call_base + int i < th_top th3 then th_stack th3 ! nat (call_base + int i) else VNil)
                            [0..<nout])
                   in Inr (outs, upd_thread tp (\<lambda>th. th\<lparr>th_top := saved_top\<rparr>) g2)))))"

definition call_mm1 :: "meta_env \<Rightarrow> gstate \<Rightarrow> ptr \<Rightarrow> tvalue list \<Rightarrow> (tvalue \<times> gstate) result" where
  "call_mm1 E g fn as = rbind (call_mm E g fn as 1) (\<lambda>(outs, g'). Inr (hd outs, g'))"

section \<open>Indexing\<close>

definition TM_INDEX :: nat where "TM_INDEX = 0"
definition TM_NEWINDEX :: nat where "TM_NEWINDEX = 1"
definition TM_LEN :: nat where "TM_LEN = 4"
definition TM_EQ :: nat where "TM_EQ = 5"
definition TM_LT :: nat where "TM_LT = 20"
definition TM_LE :: nat where "TM_LE = 21"
definition TM_CONCAT :: nat where "TM_CONCAT = 22"
definition TM_CALL :: nat where "TM_CALL = 23"

definition kMaxTagLoop :: nat where "kMaxTagLoop = 2000"

definition raw_index :: "gstate \<Rightarrow> tvalue \<Rightarrow> tvalue \<Rightarrow> tvalue" where
  "raw_index g t key =
     (case t of VTable p \<Rightarrow> (case table_at g p of Some tb \<Rightarrow> table_get (g_strs g) tb key | None \<Rightarrow> VNil) | _ \<Rightarrow> VNil)"

fun is_table :: "tvalue \<Rightarrow> bool" where
  "is_table (VTable _) = True"
| "is_table _ = False"

fun index_loop :: "meta_env \<Rightarrow> nat \<Rightarrow> tvalue \<Rightarrow> tvalue \<Rightarrow> gstate \<Rightarrow> (tvalue \<times> gstate) result" where
  "index_loop E 0 t key g = panic ([CHR 0x27] @ ''__index'' @ [CHR 0x27] @ '' chain too long; possible loop'')"
| "index_loop E (Suc n) t key g =
     (if is_table t \<and> \<not> is_nil (raw_index g t key) then Inr (raw_index g t key, g)
      else let (mm, g1) = get_metamethod g t TM_INDEX in
        if is_nil mm then (if is_table t then Inr (VNil, g1) else typeerror E g1 t (-1) ''index'')
        else case mm of VFunction fn \<Rightarrow> call_mm1 E g1 fn [t, key] | _ \<Rightarrow> index_loop E n mm key g1)"

definition meta_index :: "meta_env \<Rightarrow> tvalue \<Rightarrow> tvalue \<Rightarrow> gstate \<Rightarrow> (tvalue \<times> gstate) result" where
  "meta_index E t key g = index_loop E kMaxTagLoop t key g"

text \<open>\<open>Table::set\<close> on a table object: the barriers it asks for follow.\<close>

definition table_store :: "ptr \<Rightarrow> tvalue \<Rightarrow> tvalue \<Rightarrow> gstate \<Rightarrow> gstate result" where
  "table_store p key v g =
     (case table_at g p of
        None \<Rightarrow> Inr g
      | Some t \<Rightarrow>
          rbind (table_set (g_strs g) t key v) (\<lambda>(t', bs).
            Inr (foldl (\<lambda>g b. barrier p b g) (set_obj p (OTable t') g) bs)))"

fun store_at :: "tvalue \<Rightarrow> tvalue \<Rightarrow> tvalue \<Rightarrow> gstate \<Rightarrow> gstate result" where
  "store_at (VTable p) key v g = table_store p key v g"
| "store_at _ key v g = Inr g"

fun newindex_loop :: "meta_env \<Rightarrow> nat \<Rightarrow> tvalue \<Rightarrow> tvalue \<Rightarrow> tvalue \<Rightarrow> gstate \<Rightarrow> gstate result" where
  "newindex_loop E 0 t key v g = panic ([CHR 0x27] @ ''__newindex'' @ [CHR 0x27] @ '' chain too long; possible loop'')"
| "newindex_loop E (Suc n) t key v g =
     (if is_table t \<and> \<not> is_nil (raw_index g t key) then store_at t key v g
      else let (mm, g1) = get_metamethod g t TM_NEWINDEX in
        if is_nil mm then (if is_table t then store_at t key v g1 else typeerror E g1 t (-1) ''index'')
        else case mm of
               VFunction fn \<Rightarrow> rbind (call_mm E g1 fn [t, key, v] 0) (\<lambda>(_, g2). Inr g2)
             | _ \<Rightarrow> newindex_loop E n mm key v g1)"

definition meta_newindex :: "meta_env \<Rightarrow> tvalue \<Rightarrow> tvalue \<Rightarrow> tvalue \<Rightarrow> gstate \<Rightarrow> gstate result" where
  "meta_newindex E t key v g = newindex_loop E kMaxTagLoop t key v g"

definition set_metatable :: "ptr option \<Rightarrow> tvalue \<Rightarrow> ptr option \<Rightarrow> gstate \<Rightarrow> gstate result" where
  "set_metatable mode_name v mt g =
     (case v of
        VTable p \<Rightarrow>
          (case table_at g p of
             None \<Rightarrow> Inr g
           | Some t \<Rightarrow>
               (let t1 = t\<lparr>t_metatable := mt\<rparr>;
                    T = (\<lambda>q. case table_at g q of Some x \<Rightarrow> x | None \<Rightarrow> table_new 0 0);
                    t2 = (case mode_name of Some m \<Rightarrow> update_weak_mode (g_strs g) (T(p := t1)) m t1 | None \<Rightarrow> t1);
                    g1 = set_obj p (OTable t2) g
                in Inr (case mt of Some m \<Rightarrow> barrier p (VTable m) g1 | None \<Rightarrow> g1)))
      | _ \<Rightarrow> panic ''setmetatable: value is not a table'')"

section \<open>Operators\<close>

text \<open>The metamethod of the first operand that has one.\<close>

definition binary_mm :: "gstate \<Rightarrow> tvalue \<Rightarrow> tvalue \<Rightarrow> nat \<Rightarrow> tvalue \<times> gstate" where
  "binary_mm g a b e =
     (let (mm, g1) = get_metamethod g a e in if is_nil mm then get_metamethod g1 b e else (mm, g1))"

definition meta_arith :: "meta_env \<Rightarrow> nat \<Rightarrow> tvalue \<Rightarrow> tvalue \<Rightarrow> gstate \<Rightarrow> (tvalue option \<times> gstate) result" where
  "meta_arith E e a b g =
     (let (mm, g1) = binary_mm g a b e in
      case mm of
        VFunction fn \<Rightarrow> rbind (call_mm1 E g1 fn [a, b]) (\<lambda>(v, g2). Inr (Some v, g2))
      | _ \<Rightarrow> Inr (None, g1))"

definition meta_unary :: "meta_env \<Rightarrow> nat \<Rightarrow> tvalue \<Rightarrow> gstate \<Rightarrow> (tvalue option \<times> gstate) result" where
  "meta_unary E e a g =
     (let (mm, g1) = get_metamethod g a e in
      case mm of
        VFunction fn \<Rightarrow> rbind (call_mm1 E g1 fn [a]) (\<lambda>(v, g2). Inr (Some v, g2))
      | _ \<Rightarrow> Inr (None, g1))"

fun has_eq_mm :: "tvalue \<Rightarrow> bool" where
  "has_eq_mm (VTable _) = True"
| "has_eq_mm (VFunction _) = True"
| "has_eq_mm (VUserdata _) = True"
| "has_eq_mm _ = False"

definition meta_eq :: "meta_env \<Rightarrow> tvalue \<Rightarrow> tvalue \<Rightarrow> gstate \<Rightarrow> (bool \<times> gstate) result" where
  "meta_eq E a b g =
     (if tag_of a \<noteq> tag_of b \<and> \<not> (is_number a \<and> is_number b) then Inr (False, g)
      else if has_eq_mm a then
        (if payload_of a = payload_of b then Inr (True, g)
         else let (mm, g1) = binary_mm g a b TM_EQ in
           case mm of
             VFunction fn \<Rightarrow> rbind (call_mm1 E g1 fn [a, b]) (\<lambda>(v, g2). Inr (is_truthy v, g2))
           | _ \<Rightarrow> Inr (False, g1))
      else Inr (values_equal a b, g))"

fun num_of :: "tvalue \<Rightarrow> f64" where
  "num_of (VInt n) = i64_to_f64 n"
| "num_of (VFloat d) = d"
| "num_of _ = 0"

fun str_of :: "gstate \<Rightarrow> tvalue \<Rightarrow> string" where
  "str_of g (VString p) = ls_data (g_strs g p)"
| "str_of g _ = []"

definition meta_lt :: "meta_env \<Rightarrow> tvalue \<Rightarrow> tvalue \<Rightarrow> gstate \<Rightarrow> (bool \<times> gstate) result" where
  "meta_lt E a b g =
     (if is_number a \<and> is_number b then Inr (f_lt (num_of a) (num_of b), g)
      else if is_string a \<and> is_string b then Inr (string_cmp (me_strcoll E) (str_of g a) (str_of g b) < 0, g)
      else let (mm, g1) = binary_mm g a b TM_LT in
        case mm of
          VFunction fn \<Rightarrow> rbind (call_mm1 E g1 fn [a, b]) (\<lambda>(v, g2). Inr (is_truthy v, g2))
        | _ \<Rightarrow> compareerror E g1 a b)"

definition meta_le :: "meta_env \<Rightarrow> tvalue \<Rightarrow> tvalue \<Rightarrow> gstate \<Rightarrow> (bool \<times> gstate) result" where
  "meta_le E a b g =
     (if is_number a \<and> is_number b then Inr (f_le (num_of a) (num_of b), g)
      else if is_string a \<and> is_string b then Inr (string_cmp (me_strcoll E) (str_of g a) (str_of g b) \<le> 0, g)
      else let (mm, g1) = binary_mm g a b TM_LE in
        case mm of
          VFunction fn \<Rightarrow> rbind (call_mm1 E g1 fn [a, b]) (\<lambda>(v, g2). Inr (is_truthy v, g2))
        | _ \<Rightarrow> rbind (meta_lt E b a g1) (\<lambda>(lt, g2). Inr (\<not> lt, g2)))"

text \<open>\<open>State::intern\<close>: a string that is not in the table yet becomes a collected object.\<close>

definition intern :: "meta_env \<Rightarrow> string \<Rightarrow> gstate \<Rightarrow> ptr \<times> gstate" where
  "intern E s g =
     (let new = me_alloc E g; (p, H, st) = st_intern new s (g_strs g, g_strtab g); g1 = g\<lparr>g_strs := H, g_strtab := st\<rparr>
      in (p, if st_nuse st \<noteq> st_nuse (g_strtab g) then gc_link p OString (me_str_bytes E + int (length s)) g1 else g1))"

definition to_text :: "meta_env \<Rightarrow> gstate \<Rightarrow> tvalue \<Rightarrow> string" where
  "to_text E g v = value_to_string (g_strs g) (me_fmt_g E) (me_fmt_p E) v"

definition stringish :: "tvalue \<Rightarrow> bool" where
  "stringish v \<longleftrightarrow> is_string v \<or> is_number v"

definition meta_concat :: "meta_env \<Rightarrow> tvalue \<Rightarrow> tvalue \<Rightarrow> gstate \<Rightarrow> (tvalue \<times> gstate) result" where
  "meta_concat E a b g =
     (if stringish a \<and> stringish b then
        (let (p, g1) = intern E (to_text E g a @ to_text E g b) g in Inr (VString p, g1))
      else let (mm, g1) = binary_mm g a b TM_CONCAT in
        case mm of
          VFunction fn \<Rightarrow> call_mm1 E g1 fn [a, b]
        | _ \<Rightarrow>
            runerror E g1 (''attempt to concatenate a '' @ me_type_name E g1 (if \<not> stringish a then a else b) @
              '' value'' @ me_varinfo E g1 (-1)))"

definition meta_len :: "meta_env \<Rightarrow> tvalue \<Rightarrow> gstate \<Rightarrow> (tvalue \<times> gstate) result" where
  "meta_len E a g =
     (if is_string a then Inr (VInt (of_nat (length (str_of g a))), g)
      else let (mm, g1) = get_metamethod g a TM_LEN in
        case mm of
          VFunction fn \<Rightarrow> call_mm1 E g1 fn [a]
        | _ \<Rightarrow>
            (case a of
               VTable p \<Rightarrow>
                 (case table_at g1 p of
                    Some t \<Rightarrow> Inr (VInt (of_nat (table_length (g_strs g1) t)), g1)
                  | None \<Rightarrow> Inr (VInt 0, g1))
             | _ \<Rightarrow> typeerror E g1 a (-1) ''get length of''))"

text \<open>\<open>meta_call\<close>: a value that is no function is called through its \<open>__call\<close> metamethod, which is
  put below the arguments.\<close>

definition lua_frame :: "gstate \<Rightarrow> call_frame \<Rightarrow> bool" where
  "lua_frame g fr =
     (case (fr_proto fr, fr_cl fr) of
        (Some _, Some c) \<Rightarrow> (case obj_at g c of Some (OClosure cl) \<Rightarrow> \<not> cl_is_c cl | _ \<Rightarrow> False)
      | _ \<Rightarrow> False)"

definition meta_call :: "meta_env \<Rightarrow> int \<Rightarrow> int \<Rightarrow> int \<Rightarrow> gstate \<Rightarrow> (int \<times> gstate) result" where
  "meta_call E func_idx nargs nresults g =
     (case g_current g of
        None \<Rightarrow> Inr (0, g)
      | Some tp \<Rightarrow>
          (case thread_at g tp of
             None \<Rightarrow> Inr (0, g)
           | Some th \<Rightarrow>
               (let f = th_stack th ! nat func_idx in
                case f of
                  VFunction fn \<Rightarrow> me_call E g fn nargs nresults
                | _ \<Rightarrow>
                    (let (mm, g1) = get_metamethod g f TM_CALL in
                     case mm of
                       VFunction fn \<Rightarrow>
                         (let th1 = ensure_stack (func_idx + 2 + nargs) th;
                              as = take (nat (nargs + 1)) (drop (nat func_idx) (th_stack th1));
                              th2 = th1\<lparr>th_stack := put_list (nat func_idx) (mm # as) (th_stack th1), th_top := func_idx + 2 + nargs\<rparr>
                          in me_call E (set_obj tp (OThread th2) g1) fn (nargs + 1) nresults)
                     | _ \<Rightarrow>
                         (let reg = (case find (lua_frame g1) (rev (th_frames th)) of
                                       Some fr \<Rightarrow> func_idx - fr_base fr | None \<Rightarrow> -1)
                          in typeerror E g1 f reg ''call'')))))"

section \<open>String comparison is the byte order\<close>

text \<open>The \<open>C\<close> locale: \<open>strcoll\<close> is \<open>strcmp\<close>, which orders strings by their bytes.\<close>

definition byte_less :: "(char \<times> char) set" where
  "byte_less = {(a, b). (of_char a :: nat) < of_char b}"

definition byte_order :: "(string \<Rightarrow> string \<Rightarrow> int) \<Rightarrow> bool" where
  "byte_order cmp \<longleftrightarrow>
     (\<forall>a b. CHR 0x00 \<notin> set a \<longrightarrow> CHR 0x00 \<notin> set b \<longrightarrow>
        (cmp a b = 0 \<longleftrightarrow> a = b) \<and> (cmp a b < 0 \<longleftrightarrow> (a, b) \<in> lexord byte_less))"

lemma byte_orderD:
  assumes "byte_order cmp" "CHR 0x00 \<notin> set a" "CHR 0x00 \<notin> set b"
  shows "cmp a b = 0 \<longleftrightarrow> a = b" "cmp a b < 0 \<longleftrightarrow> (a, b) \<in> lexord byte_less"
  using assms by (auto simp: byte_order_def)

lemma cstr_no_nul: "CHR 0x00 \<notin> set (cstr s)"
  by (auto simp: cstr_def dest: set_takeWhileD)

lemma cstr_split: "length (cstr s) < length s \<Longrightarrow> s = cstr s @ CHR 0x00 # drop (length (cstr s) + 1) s"
proof -
  assume l: "length (cstr s) < length s"
  have d: "dropWhile (\<lambda>c. c \<noteq> CHR 0x00) s = drop (length (cstr s)) s" by (simp add: cstr_def dropWhile_eq_drop)
  have "dropWhile (\<lambda>c. c \<noteq> CHR 0x00) s \<noteq> []" using l d by simp
  then have "hd (drop (length (cstr s)) s) = CHR 0x00" using hd_dropWhile [of "\<lambda>c. c \<noteq> CHR 0x00" s] d by auto
  then show ?thesis
    using l by (metis Cons_nth_drop_Suc Suc_eq_plus1 append_take_drop_id cstr_def hd_drop_conv_nth takeWhile_eq_take)
qed

lemma cstr_whole: "length (cstr s) = length s \<Longrightarrow> cstr s = s"
  by (metis cstr_def takeWhile_eq_take take_all order_refl)

lemma nul_least: "c \<noteq> CHR 0x00 \<Longrightarrow> (CHR 0x00, c) \<in> byte_less" "(c, CHR 0x00) \<notin> byte_less" "(c, c) \<notin> byte_less"
proof -
  have "of_char c = (0 :: nat) \<Longrightarrow> c = CHR 0x00" using of_char_eq_iff [of c "CHR 0x00", where 'a = nat] by simp
  then show "c \<noteq> CHR 0x00 \<Longrightarrow> (CHR 0x00, c) \<in> byte_less" by (auto simp: byte_less_def)
qed (auto simp: byte_less_def)

definition nul_tail :: "string \<Rightarrow> bool" where
  "nul_tail x \<longleftrightarrow> x = [] \<or> (\<exists>w. x = CHR 0x00 # w)"

lemma lexord_segments:
  "a \<noteq> b \<Longrightarrow> CHR 0x00 \<notin> set a \<Longrightarrow> CHR 0x00 \<notin> set b \<Longrightarrow> nul_tail x \<Longrightarrow> nul_tail y \<Longrightarrow>
    (a @ x, b @ y) \<in> lexord byte_less \<longleftrightarrow> (a, b) \<in> lexord byte_less"
proof (induction a arbitrary: b)
  case Nil
  then show ?case by (cases b) (auto simp: nul_tail_def nul_least)
next
  case (Cons c a)
  then show ?case by (cases b) (auto simp: nul_tail_def nul_least)
qed

lemma lexord_common: "(a @ x, a @ y) \<in> lexord byte_less \<longleftrightarrow> (x, y) \<in> lexord byte_less"
  by (induction a) (auto simp: nul_least)

lemma cstr_cases:
  obtains "s = cstr s" "length (cstr s) = length s"
  | "s = cstr s @ CHR 0x00 # drop (length (cstr s) + 1) s" "length (cstr s) < length s"
proof (cases "length (cstr s) = length s")
  case True
  then show ?thesis using that(1) cstr_whole [of s] by simp
next
  case False
  then have "length (cstr s) < length s" using length_cstr_le [of s] by simp
  then show ?thesis using that(2) cstr_split [of s] by blast
qed

lemma nul_tail_cstr: "\<exists>x. s = cstr s @ x \<and> nul_tail x"
proof (cases rule: cstr_cases [of s])
  case 1
  then show ?thesis by (metis append_Nil2 nul_tail_def)
next
  case 2
  then show ?thesis by (metis nul_tail_def)
qed

lemma string_cmp_bytes:
  assumes "byte_order cmp"
  shows "(string_cmp cmp l r = 0 \<longleftrightarrow> l = r) \<and> (string_cmp cmp l r < 0 \<longleftrightarrow> (l, r) \<in> lexord byte_less)"
  using assms
proof (induction cmp l r rule: string_cmp.induct)
  case (1 cmp l r)
  let ?a = "cstr l" let ?b = "cstr r"
  note bo = byte_orderD [OF "1.prems" cstr_no_nul cstr_no_nul, of l r]
  show ?case
  proof (cases "cmp ?a ?b = 0")
    case False
    obtain x y where x: "l = ?a @ x" "nul_tail x" and y: "r = ?b @ y" "nul_tail y" using nul_tail_cstr by metis
    have ne: "?a \<noteq> ?b" using False bo(1) by blast
    have "(l, r) \<in> lexord byte_less \<longleftrightarrow> (?a, ?b) \<in> lexord byte_less"
      using lexord_segments [OF ne cstr_no_nul cstr_no_nul x(2) y(2)] x(1) y(1) by metis
    moreover have "string_cmp cmp l r = cmp ?a ?b" using False by (simp add: string_cmp.simps [of cmp l r])
    ultimately show ?thesis using ne bo False by auto
  next
    case True
    then have ab: "?a = ?b" using bo(1) by blast
    show ?thesis
    proof (cases rule: cstr_cases [of l]; cases rule: cstr_cases [of r])
      assume w: "l = ?a" "r = ?b" and n: "length ?a = length l" "length ?b = length r"
      have "string_cmp cmp l r = 0" using ab True n by (simp add: string_cmp.simps [of cmp l r])
      moreover have "l = r" using w ab by metis
      ultimately show ?thesis using lexord_common [of l "[]" "[]"] by simp
    next
      assume l: "l = ?a" "length ?a = length l" and r: "r = ?b @ CHR 0x00 # drop (length ?b + 1) r" "length ?b < length r"
      have "string_cmp cmp l r = -1" using True ab l(2) r(2) by (simp add: string_cmp.simps [of cmp l r] Let_def)
      moreover have "(l, r) \<in> lexord byte_less" using lexord_common [of ?a "[]" "CHR 0x00 # drop (length ?b + 1) r"] l(1) r(1) ab by simp
      ultimately show ?thesis using r(2) l ab by auto
    next
      assume l: "l = ?a @ CHR 0x00 # drop (length ?a + 1) l" "length ?a < length l" and r: "r = ?b" "length ?b = length r"
      have "string_cmp cmp l r = 1" using True ab l(2) r(2) by (simp add: string_cmp.simps [of cmp l r] Let_def)
      moreover have "(l, r) \<notin> lexord byte_less" using lexord_common [of ?a "CHR 0x00 # drop (length ?a + 1) l" "[]"] l(1) r(1) ab by simp
      ultimately show ?thesis using r l(2) ab by auto
    next
      let ?l = "drop (length ?a + 1) l" let ?r = "drop (length ?b + 1) r"
      assume l: "l = ?a @ CHR 0x00 # ?l" "length ?a < length l" and r: "r = ?b @ CHR 0x00 # ?r" "length ?b < length r"
      have e: "string_cmp cmp l r = string_cmp cmp ?l ?r" using True ab l(2) r(2) by (simp add: string_cmp.simps [of cmp l r] Let_def)
      have ih: "(string_cmp cmp ?l ?r = 0 \<longleftrightarrow> ?l = ?r) \<and> (string_cmp cmp ?l ?r < 0 \<longleftrightarrow> (?l, ?r) \<in> lexord byte_less)"
        using "1.IH" [OF refl _ refl _ _ "1.prems"] True ab l(2) r(2) by simp
      have "l = r \<longleftrightarrow> ?l = ?r" using l(1) r(1) ab by (metis append_same_eq list.inject same_append_eq)
      moreover have "(l, r) \<in> lexord byte_less \<longleftrightarrow> (?l, ?r) \<in> lexord byte_less"
        using lexord_common [of ?a "CHR 0x00 # ?l" "CHR 0x00 # ?r"] l(1) r(1) ab nul_least(3) by (metis lexord_cons_cons)
      ultimately show ?thesis using ih e by simp
    qed
  qed
qed

text \<open>C19: in the \<open>C\<close> locale, \<open>string_cmp\<close> orders strings by their bytes, embedded NULs included,
  although \<open>strcoll\<close> stops at a NUL: it is negative, zero or positive exactly when the left string
  is before, equal to or after the right one in the lexicographic order of bytes.\<close>

theorem string_cmp_lexicographic:
  assumes "byte_order cmp"
  shows "(string_cmp cmp l r = 0 \<longleftrightarrow> l = r) \<and> (string_cmp cmp l r < 0 \<longleftrightarrow> (l, r) \<in> lexord byte_less)"
  using assms by (rule string_cmp_bytes)

definition strcmp :: "string \<Rightarrow> string \<Rightarrow> int" where
  "strcmp a b = (if a = b then 0 else if (a, b) \<in> lexord byte_less then -1 else 1)"

theorem string_cmp_lexicographic_witness:
  "byte_order strcmp \<and> string_cmp strcmp [CHR ''a'', CHR 0x00, CHR ''b''] [CHR ''a'', CHR 0x00, CHR ''c''] < 0"
proof -
  have o: "byte_order strcmp"
    unfolding byte_order_def strcmp_def by (auto simp: lexord_common [of _ "[]" "[]", simplified])
  have "([CHR ''a'', CHR 0x00, CHR ''b''], [CHR ''a'', CHR 0x00, CHR ''c'']) \<in> lexord byte_less"
    by (simp add: byte_less_def)
  then show ?thesis
    using o string_cmp_lexicographic [OF o, of "[CHR ''a'', CHR 0x00, CHR ''b'']" "[CHR ''a'', CHR 0x00, CHR ''c'']"] by blast
qed

lemma bitlen_eq: "2 ^ k \<le> n \<Longrightarrow> n < 2 ^ (k + 1) \<Longrightarrow> bitlen n = k + 1"
proof (rule antisym [OF bitlen_le])
  assume "2 ^ k \<le> n"
  show "k + 1 \<le> bitlen n"
  proof (rule ccontr)
    assume "\<not> k + 1 \<le> bitlen n"
    then have "(2::nat) ^ bitlen n \<le> 2 ^ k" by (intro power_increasing) auto
    with \<open>2 ^ k \<le> n\<close> less_2p_bitlen [of n] show False by linarith
  qed
qed

lemma round_53:
  assumes "2 ^ 53 \<le> m" "m < 2 ^ 54" "m div 2 = (2 :: int) ^ 52"
  shows "f_round False (m * 2 ^ k) 1 = f_pack False (k + 1) (2 ^ 52)"
proof -
  have "(2 :: int) ^ (53 + k) \<le> m * 2 ^ k" "m * 2 ^ k < (2 :: int) ^ (53 + k + 1)"
    using assms(1,2) by (simp_all add: power_add)
  then have "2 ^ (53 + k) \<le> nat (m * 2 ^ k)" "nat (m * 2 ^ k) < 2 ^ (53 + k + 1)"
    using assms(1) by (simp_all add: le_nat_iff nat_less_iff)
  then have b: "bitlen (nat (m * 2 ^ k)) = 54 + k" using bitlen_eq [of "53 + k"] by simp
  have q: "m * 2 ^ k div 2 ^ (k + 1) = 2 ^ 52" "m * 2 ^ k mod 2 ^ (k + 1) = (m mod 2) * 2 ^ k"
    using assms(3) by (simp_all add: div_mult_mult2 mult_mod_left)
  have "m mod 2 = 0 \<or> m mod 2 = 1" by auto
  moreover have "\<not> 2 * 2 ^ k > (2 :: int) ^ (k + 1)" by simp
  ultimately show ?thesis unfolding f_round_def Let_def div_by_1 b using q by auto
qed

lemma rounds_together: "f_of_int 9007199254740992 = f_of_int 9007199254740993"
  unfolding f_of_int_def f_one_def
  using round_53 [of 9007199254740992 1074] round_53 [of 9007199254740993 1074] by simp


end
