(* ===== verification/Lt_Arith.thy ===== *)
theory Lt_Arith
  imports Lt_Meta Lt_Bytecode
begin

text \<open>
  Arithmetic and bitwise operators: the first part of \<open>src/vm/interpreter.cpp\<close>. Integers wrap,
  division and modulus round towards minus infinity, shifts by 64 or more give zero, and operands
  that are not numbers are coerced from strings or handed to a metamethod.
\<close>

section \<open>Operations\<close>

text \<open>The event of the metamethod name that \<open>arith_mt\<close> returns.\<close>

fun arith_mt :: "opcode \<Rightarrow> nat option" where
  "arith_mt OP_ADD = Some 6"
| "arith_mt OP_SUB = Some 7"
| "arith_mt OP_MUL = Some 8"
| "arith_mt OP_DIV = Some 11"
| "arith_mt OP_IDIV = Some 12"
| "arith_mt OP_MOD = Some 9"
| "arith_mt OP_POW = Some 10"
| "arith_mt OP_BAND = Some 13"
| "arith_mt OP_BOR = Some 14"
| "arith_mt OP_BXOR = Some 15"
| "arith_mt OP_SHL = Some 16"
| "arith_mt OP_SHR = Some 17"
| "arith_mt _ = None"

fun to_integer :: "tvalue \<Rightarrow> u64 option" where
  "to_integer (VInt n) = Some n"
| "to_integer (VFloat d) =
     (if f_le kMin d \<and> f_lt d kSup \<and> f_eq (f_floor d) d then Some (f64_to_i64 d) else None)"
| "to_integer _ = None"

fun is_bitwise_op :: "opcode \<Rightarrow> bool" where
  "is_bitwise_op OP_BAND = True"
| "is_bitwise_op OP_BOR = True"
| "is_bitwise_op OP_BXOR = True"
| "is_bitwise_op OP_SHL = True"
| "is_bitwise_op OP_SHR = True"
| "is_bitwise_op _ = False"

definition intop_add :: "u64 \<Rightarrow> u64 \<Rightarrow> u64" where "intop_add x y = x + y"
definition intop_sub :: "u64 \<Rightarrow> u64 \<Rightarrow> u64" where "intop_sub x y = x - y"
definition intop_mul :: "u64 \<Rightarrow> u64 \<Rightarrow> u64" where "intop_mul x y = x * y"
definition intop_unm :: "u64 \<Rightarrow> u64" where "intop_unm x = 0 - x"

definition shiftl :: "u64 \<Rightarrow> u64 \<Rightarrow> u64" where
  "shiftl v disp =
     (if disp <s 0 then (if disp \<le>s - 64 then 0 else drop_bit (unat (- disp)) v)
      else if 64 \<le>s disp then 0
      else push_bit (unat disp) v)"

text \<open>The C++ operators \<open>/\<close> and \<open>%\<close> on \<open>int64_t\<close> truncate towards zero.\<close>

definition quot64 :: "u64 \<Rightarrow> u64 \<Rightarrow> u64" where
  "quot64 m n = word_of_int (sgn (sint m) * sgn (sint n) * (\<bar>sint m\<bar> div \<bar>sint n\<bar>))"

definition rem64 :: "u64 \<Rightarrow> u64 \<Rightarrow> u64" where
  "rem64 m n = word_of_int (sgn (sint m) * (\<bar>sint m\<bar> mod \<bar>sint n\<bar>))"

definition int_idiv_mod :: "meta_env \<Rightarrow> gstate \<Rightarrow> opcode \<Rightarrow> u64 \<Rightarrow> u64 \<Rightarrow> tvalue result" where
  "int_idiv_mod E g op m n =
     (if n + 1 \<le> 1 then
        (if n = 0 then
           runerror E g (if op = OP_IDIV then ''attempt to divide by zero''
                         else ''attempt to perform '' @ [CHR 0x27] @ ''n%0'' @ [CHR 0x27])
         else if op = OP_IDIV then Inr (VInt (intop_unm m)) else Inr (VInt 0))
      else if op = OP_IDIV then
        (let q = quot64 m n in
         Inr (VInt (if (m XOR n) <s 0 \<and> rem64 m n \<noteq> 0 then q - 1 else q)))
      else
        (let r = rem64 m n in
         Inr (VInt (if r \<noteq> 0 \<and> (m XOR n) <s 0 then r + n else r))))"

definition float_arith :: "meta_env \<Rightarrow> opcode \<Rightarrow> f64 \<Rightarrow> f64 \<Rightarrow> tvalue result" where
  "float_arith E op x y =
     (case op of
        OP_ADD \<Rightarrow> Inr (VFloat (f_add x y))
      | OP_SUB \<Rightarrow> Inr (VFloat (f_sub x y))
      | OP_MUL \<Rightarrow> Inr (VFloat (f_mul x y))
      | OP_DIV \<Rightarrow> Inr (VFloat (f_div x y))
      | OP_IDIV \<Rightarrow> Inr (VFloat (f_floor (f_div x y)))
      | OP_MOD \<Rightarrow> (let r = f_fmod x y in Inr (VFloat (if f_lt (f_mul r y) 0 then f_add r y else r)))
      | OP_POW \<Rightarrow> Inr (VFloat (me_pow E x y))
      | _ \<Rightarrow> panic ''bad float arith'')"

definition bitwise_raw :: "opcode \<Rightarrow> u64 \<Rightarrow> u64 \<Rightarrow> tvalue result" where
  "bitwise_raw op x y =
     (case op of
        OP_BAND \<Rightarrow> Inr (VInt (x AND y))
      | OP_BOR \<Rightarrow> Inr (VInt (x OR y))
      | OP_BXOR \<Rightarrow> Inr (VInt (x XOR y))
      | OP_SHL \<Rightarrow> Inr (VInt (shiftl x y))
      | OP_SHR \<Rightarrow> Inr (VInt (shiftl x (- y)))
      | _ \<Rightarrow> panic ''bad bitwise'')"

text \<open>\<open>None\<close> is the return value \<open>false\<close>: the operands are not numbers the operator takes.\<close>

definition try_arith_numbers :: "meta_env \<Rightarrow> gstate \<Rightarrow> opcode \<Rightarrow> tvalue \<Rightarrow> tvalue \<Rightarrow> tvalue option result" where
  "try_arith_numbers E g op lhs rhs =
     (if is_bitwise_op op then
        (case (to_integer lhs, to_integer rhs) of
           (Some x, Some y) \<Rightarrow> rbind (bitwise_raw op x y) (\<lambda>v. Inr (Some v))
         | _ \<Rightarrow> Inr None)
      else case (lhs, rhs) of
        (VInt x, VInt y) \<Rightarrow>
          (case op of
             OP_ADD \<Rightarrow> Inr (Some (VInt (intop_add x y)))
           | OP_SUB \<Rightarrow> Inr (Some (VInt (intop_sub x y)))
           | OP_MUL \<Rightarrow> Inr (Some (VInt (intop_mul x y)))
           | OP_IDIV \<Rightarrow> rbind (int_idiv_mod E g op x y) (\<lambda>v. Inr (Some v))
           | OP_MOD \<Rightarrow> rbind (int_idiv_mod E g op x y) (\<lambda>v. Inr (Some v))
           | OP_DIV \<Rightarrow> rbind (float_arith E op (i64_to_f64 x) (i64_to_f64 y)) (\<lambda>v. Inr (Some v))
           | OP_POW \<Rightarrow> rbind (float_arith E op (i64_to_f64 x) (i64_to_f64 y)) (\<lambda>v. Inr (Some v))
           | _ \<Rightarrow> Inr None)
      | _ \<Rightarrow>
          (if is_number lhs \<and> is_number rhs
           then rbind (float_arith E op (num_of lhs) (num_of rhs)) (\<lambda>v. Inr (Some v))
           else Inr None))"

definition as_number :: "meta_env \<Rightarrow> gstate \<Rightarrow> tvalue \<Rightarrow> tvalue option" where
  "as_number E g v = try_to_number (g_strs g) (me_strtod E) (me_dec E) v"

definition opinterror :: "meta_env \<Rightarrow> gstate \<Rightarrow> tvalue \<Rightarrow> int \<Rightarrow> string \<Rightarrow> 'a result" where
  "opinterror E g v reg msg = runerror E g (msg @ me_type_name E g v @ '' value'' @ me_varinfo E g reg)"

definition tointerror :: "meta_env \<Rightarrow> gstate \<Rightarrow> int \<Rightarrow> 'a result" where
  "tointerror E g reg = runerror E g (''number has no integer representation'' @ me_varinfo E g reg)"

definition coerce_number :: "meta_env \<Rightarrow> gstate \<Rightarrow> tvalue \<Rightarrow> int \<Rightarrow> opcode \<Rightarrow> tvalue result" where
  "coerce_number E g v reg op =
     (case as_number E g v of
        Some n \<Rightarrow> Inr n
      | None \<Rightarrow>
          opinterror E g v reg
            (if is_bitwise_op op then ''attempt to perform bitwise operation on a '' else ''attempt to perform arithmetic on a ''))"

definition arith_raw :: "meta_env \<Rightarrow> gstate \<Rightarrow> opcode \<Rightarrow> tvalue \<Rightarrow> tvalue \<Rightarrow> int \<Rightarrow> int \<Rightarrow> tvalue result" where
  "arith_raw E g op a_in b_in reg_a reg_b =
     rbind (coerce_number E g a_in reg_a op) (\<lambda>a.
     rbind (coerce_number E g b_in reg_b op) (\<lambda>b.
     rbind (try_arith_numbers E g op a b) (\<lambda>out.
       case out of
         Some v \<Rightarrow> Inr v
       | None \<Rightarrow>
           if is_bitwise_op op then
             (case to_integer a of
                None \<Rightarrow> tointerror E g reg_a
              | Some x \<Rightarrow> (case to_integer b of None \<Rightarrow> tointerror E g reg_b | Some y \<Rightarrow> bitwise_raw op x y))
           else
             opinterror E g (if is_number a then b_in else a_in) (if is_number a then reg_b else reg_a)
               ''attempt to perform arithmetic on a '')))"

definition do_arith :: "meta_env \<Rightarrow> opcode \<Rightarrow> tvalue \<Rightarrow> tvalue \<Rightarrow> int \<Rightarrow> int \<Rightarrow> gstate \<Rightarrow> (tvalue \<times> gstate) result" where
  "do_arith E op a b reg_a reg_b g =
     (case (as_number E g a, as_number E g b) of
        (Some na, Some nb) \<Rightarrow> rbind (arith_raw E g op na nb reg_a reg_b) (\<lambda>v. Inr (v, g))
      | _ \<Rightarrow>
          rbind (if \<not> (is_number a \<and> is_number b)
                 then (case arith_mt op of Some e \<Rightarrow> meta_arith E e a b g | None \<Rightarrow> Inr (None, g))
                 else Inr (None, g))
            (\<lambda>(out, g1). case out of
               Some v \<Rightarrow> Inr (v, g1)
             | None \<Rightarrow> rbind (arith_raw E g1 op a b reg_a reg_b) (\<lambda>v. Inr (v, g1))))"

section \<open>Integer division rounds towards minus infinity\<close>

lemma near_zero_word: "(n :: u64) + 1 \<le> 1 \<longleftrightarrow> n = 0 \<or> n = -1"
proof
  assume "n + 1 \<le> 1"
  then have "unat (n + 1) \<le> 1" by (simp add: word_le_nat_alt)
  then have "unat (n + 1) = 0 \<or> unat (n + 1) = 1" by linarith
  then have "unat (n + 1) = unat (0 :: u64) \<or> unat (n + 1) = unat (1 :: u64)" by (simp only: unat_0 unat_1)
  then have "n + 1 = 0 \<or> n + 1 = 1" using word_unat_eq_iff by blast
  then show "n = 0 \<or> n = -1" using eq_neg_iff_add_eq_0 [of n 1] by auto
qed auto

lemma sint_neg_bit: "sint (x :: u64) < 0 \<longleftrightarrow> bit x 63"
  using bit_last_iff [of x] by simp

lemma sless_zero: "x <s (0 :: u64) \<longleftrightarrow> sint x < 0"
  by (simp add: word_sless_alt)

lemma xor_sign: "(m XOR n) <s (0 :: u64) \<longleftrightarrow> (sint m < 0) \<noteq> (sint n < 0)"
  by (simp add: sless_zero sint_neg_bit bit_xor_iff)

lemma trunc_div:
  fixes M N :: int
  assumes "N \<noteq> 0"
  shows "M div N = sgn M * sgn N * (\<bar>M\<bar> div \<bar>N\<bar>) - (if (M < 0) \<noteq> (N < 0) \<and> \<bar>M\<bar> mod \<bar>N\<bar> \<noteq> 0 then 1 else 0)"
    "M mod N = sgn M * (\<bar>M\<bar> mod \<bar>N\<bar>) + (if (M < 0) \<noteq> (N < 0) \<and> \<bar>M\<bar> mod \<bar>N\<bar> \<noteq> 0 then N else 0)"
  using assms zdiv_zminus1_eq_if [of "\<bar>N\<bar>" "\<bar>M\<bar>"] zmod_zminus1_eq_if [of "\<bar>M\<bar>" "\<bar>N\<bar>"] zmod_zminus2_eq_if [of "\<bar>M\<bar>" "\<bar>N\<bar>"]
  by (auto simp: abs_if sgn_if div_minus_right mod_minus_right zdiv_zminus2_eq_if split: if_splits)

lemma quot64_sint:
  assumes "sint n \<noteq> 0" "sint n \<noteq> -1"
  shows "sint (quot64 m n) = sgn (sint m) * sgn (sint n) * (\<bar>sint m\<bar> div \<bar>sint n\<bar>)"
proof -
  have "\<bar>sint m\<bar> \<le> 2 ^ 63" using sint_bounds_64 [of m] by linarith
  moreover have "\<bar>sint m\<bar> div \<bar>sint n\<bar> \<le> \<bar>sint m\<bar>" using assms(1) zdiv_mono2 [of "\<bar>sint m\<bar>" 1 "\<bar>sint n\<bar>"] by simp
  moreover have "\<bar>sint m\<bar> div \<bar>sint n\<bar> < 2 ^ 63" if "0 < sgn (sint m) * sgn (sint n)"
  proof (cases "\<bar>sint n\<bar> = 1")
    case True
    then have "sint n = 1" using assms(2) by linarith
    with that have "sint m > 0" by (auto simp: sgn_if split: if_splits)
    then show ?thesis using sint_bounds_64 [of m] \<open>sint n = 1\<close> by simp
  next
    case False
    then have "2 \<le> \<bar>sint n\<bar>" using assms(1) by linarith
    then have "\<bar>sint m\<bar> div \<bar>sint n\<bar> \<le> \<bar>sint m\<bar> div 2" by (intro zdiv_mono2) auto
    moreover have "\<bar>sint m\<bar> div 2 < 2 ^ 63" using \<open>\<bar>sint m\<bar> \<le> 2 ^ 63\<close> by simp
    ultimately show ?thesis by linarith
  qed
  moreover have "0 \<le> \<bar>sint m\<bar> div \<bar>sint n\<bar>" using assms(1) by (simp add: pos_imp_zdiv_nonneg_iff)
  ultimately have "- (2 ^ 63) \<le> sgn (sint m) * sgn (sint n) * (\<bar>sint m\<bar> div \<bar>sint n\<bar>)"
    "sgn (sint m) * sgn (sint n) * (\<bar>sint m\<bar> div \<bar>sint n\<bar>) < 2 ^ 63"
    by (auto simp: sgn_if split: if_splits)
  then show ?thesis unfolding quot64_def by (rule sint_of_int_64)
qed

lemma rem64_sint:
  assumes "sint n \<noteq> 0"
  shows "sint (rem64 m n) = sgn (sint m) * (\<bar>sint m\<bar> mod \<bar>sint n\<bar>)"
proof -
  have "0 \<le> \<bar>sint m\<bar> mod \<bar>sint n\<bar>" "\<bar>sint m\<bar> mod \<bar>sint n\<bar> < \<bar>sint n\<bar>" using assms by simp_all
  moreover have "\<bar>sint n\<bar> \<le> 2 ^ 63" using sint_bounds_64 [of n] by linarith
  ultimately have "- (2 ^ 63) \<le> sgn (sint m) * (\<bar>sint m\<bar> mod \<bar>sint n\<bar>)" "sgn (sint m) * (\<bar>sint m\<bar> mod \<bar>sint n\<bar>) < 2 ^ 63"
    by (auto simp: sgn_if)
  then show ?thesis unfolding rem64_def by (rule sint_of_int_64)
qed

lemma sint_eq_0_64: "sint (n :: u64) = 0 \<longleftrightarrow> n = 0"
  using sint_inject_64 [of n 0] by simp

lemma sint_eq_m1_64: "sint (n :: u64) = -1 \<longleftrightarrow> n = -1"
  using sint_inject_64 [of n "-1"] by simp

text \<open>Words with a known signed value.\<close>

lemma sint_eqI: "- (2 ^ 63) \<le> i \<Longrightarrow> i < 2 ^ 63 \<Longrightarrow> (w :: u64) = word_of_int i \<Longrightarrow> sint w = i"
  by (simp add: sint_of_int_64)

lemma div_between: "1 \<le> (b :: int) \<Longrightarrow> min a 0 \<le> a div b \<and> a div b \<le> max a 0"
  using zdiv_mono2 [of a 1 b] zdiv_mono2_neg [of a 1 b] pos_imp_zdiv_neg_iff [of b a]
  by (cases "0 \<le> a") (auto simp: min_def max_def)

lemma floor_range:
  fixes M N :: int
  assumes "N \<noteq> 0" "N \<noteq> -1" "- (2 ^ 63) \<le> M" "M < 2 ^ 63"
  shows "- (2 ^ 63) \<le> M div N \<and> M div N < 2 ^ 63"
proof (cases "0 < N")
  case True
  then show ?thesis using div_between [of N M] assms(3,4) by auto
next
  case False
  then have N: "2 \<le> - N" using assms(1,2) by linarith
  have "(- M) div (- N) \<le> max ((- M) div 2) 0"
  proof (cases "0 \<le> - M")
    case True
    then show ?thesis using zdiv_mono2 [of "- M" 2 "- N"] N by simp
  next
    case False
    then show ?thesis using div_between [of "- N" "- M"] N by simp
  qed
  moreover have "(- M) div 2 < 2 ^ 63" using assms(3) by simp
  moreover have "min (- M) 0 \<le> (- M) div (- N)" using div_between [of "- N" "- M"] N by simp
  ultimately show ?thesis using assms(4) by (simp add: min_def max_def split: if_splits)
qed



section \<open>Shifts\<close>

lemma unat_sint: "0 \<le> sint (x :: u64) \<Longrightarrow> int (unat x) = sint x"
  using sint_bounds_64 [of x] by (simp add: uint_sint take_bit_int_eq_self)

text \<open>Shifting left by a signed count, as an integer operation on 64 bits: a positive count
  multiplies modulo \<open>2 ^ 64\<close>, a negative one divides by a power of two without sign extension, and
  counts of 64 and more in either direction fall under the same law.\<close>

theorem shiftl_exact:
  "uint (shiftl v disp) =
     (if 0 \<le> sint disp then (uint v * 2 ^ nat (sint disp)) mod 2 ^ 64 else uint v div 2 ^ nat (- sint disp))"
proof -
  let ?d = "sint disp"
  have m64: "sint (- 64 :: u64) = -64" "sint (64 :: u64) = 64" by simp_all
  have lt: "uint v < 2 ^ 64" "0 \<le> uint v" using uint_bounded [of v] by simp_all
  have db: "uint (drop_bit k v) = uint v div 2 ^ k" for k
  proof -
    have "uint (drop_bit k v) = drop_bit k (uint v)"
      using lt by (simp add: unsigned_drop_bit_eq take_bit_int_eq_self)
    then show ?thesis by (simp only: drop_bit_eq_div [of k "uint v"])
  qed
  have pb: "uint (push_bit k v) = (uint v * 2 ^ k) mod 2 ^ 64" for k
  proof -
    have "uint (push_bit k v) = take_bit 64 (push_bit k (uint v))" by (simp add: unsigned_push_bit_eq)
    then show ?thesis by (simp only: push_bit_eq_mult [of k "uint v"] take_bit_eq_mod)
  qed
  consider "?d \<le> -64" | "-64 < ?d" "?d < 0" | "0 \<le> ?d" "?d < 64" | "64 \<le> ?d" by linarith
  then show ?thesis
  proof cases
    case 1
    have "(2 :: int) ^ 64 \<le> 2 ^ nat (- ?d)" using 1 by (intro power_increasing) auto
    then have "uint v div 2 ^ nat (- ?d) = 0" using lt by (intro div_pos_pos_trivial) auto
    then show ?thesis using 1 by (simp add: shiftl_def word_sless_alt word_sle_eq m64)
  next
    case 2
    have "sint (- disp) = - ?d"
    proof (rule sint_eqI)
      show "- disp = word_of_int (- ?d)" by simp
    qed (use 2 in auto)
    then have "int (unat (- disp)) = - ?d" using 2 unat_sint [of "- disp"] by simp
    then have u: "unat (- disp) = nat (- ?d)" by linarith
    show ?thesis using 2 by (simp add: shiftl_def word_sless_alt word_sle_eq m64 u db)
  next
    case 3
    then have "int (unat disp) = ?d" using unat_sint [of disp] by simp
    then have u: "unat disp = nat ?d" by linarith
    show ?thesis using 3 by (simp add: shiftl_def word_sless_alt word_sle_eq m64 u pb)
  next
    case 4
    then have "(2 :: int) ^ nat ?d = 2 ^ (nat ?d - 64) * 2 ^ 64" by (subst power_add [symmetric]) simp
    then have "(uint v * 2 ^ nat ?d) mod 2 ^ 64 = 0" by (simp add: mult.assoc [symmetric])
    then show ?thesis using 4 by (simp add: shiftl_def word_sless_alt word_sle_eq m64)
  qed
qed

section \<open>Results of arithmetic on numbers\<close>

lemma float_arith_total:
  "op \<in> {OP_ADD, OP_SUB, OP_MUL, OP_DIV, OP_IDIV, OP_MOD, OP_POW} \<Longrightarrow> \<exists>d. float_arith E op x y = Inr (VFloat d)"
  by (auto simp: float_arith_def Let_def)

lemma int_idiv_mod_total: "y \<noteq> 0 \<Longrightarrow> \<exists>n. int_idiv_mod E g op x y = Inr (VInt n)"
  by (auto simp: int_idiv_mod_def Let_def)

lemma int_arith_total:
  assumes "op \<in> {OP_ADD, OP_SUB, OP_MUL, OP_DIV, OP_IDIV, OP_MOD, OP_POW}" "op \<in> {OP_IDIV, OP_MOD} \<longrightarrow> y \<noteq> 0"
  shows "\<exists>v. try_arith_numbers E g op (VInt x) (VInt y) = Inr (Some v) \<and> (if op \<notin> {OP_DIV, OP_POW} then is_int v else is_float v)"
proof (cases "op \<in> {OP_IDIV, OP_MOD}")
  case True
  then obtain n where "int_idiv_mod E g op x y = Inr (VInt n)" using int_idiv_mod_total assms(2) by blast
  then show ?thesis using True by (auto simp: try_arith_numbers_def)
next
  case False
  obtain d where "float_arith E op (i64_to_f64 x) (i64_to_f64 y) = Inr (VFloat d)"
    using float_arith_total [OF assms(1)] by blast
  then show ?thesis using False assms(1) by (auto simp: try_arith_numbers_def)
qed

lemma mixed_arith_total:
  assumes "op \<in> {OP_ADD, OP_SUB, OP_MUL, OP_DIV, OP_IDIV, OP_MOD, OP_POW}" "is_number a" "is_number b" "\<not> (is_int a \<and> is_int b)"
  shows "\<exists>v. try_arith_numbers E g op a b = Inr (Some v) \<and> is_float v"
proof -
  obtain d where "float_arith E op (num_of a) (num_of b) = Inr (VFloat d)" using float_arith_total [OF assms(1)] by blast
  moreover have "\<not> is_bitwise_op op" using assms(1) by auto
  ultimately show ?thesis using assms(2-4) by (cases a; cases b) (simp_all add: try_arith_numbers_def is_number_def)
qed

text \<open>C22: arithmetic on numbers is closed and never reaches a metamethod: the operators give an
  integer exactly when both operands are integers and the operator is not \<open>/\<close> or \<open>^\<close>, and a float
  otherwise; the only errors are integer division and modulus by zero.\<close>

theorem arith_numbers_type:
  assumes "is_number a" "is_number b" "op \<in> {OP_ADD, OP_SUB, OP_MUL, OP_DIV, OP_IDIV, OP_MOD, OP_POW}"
    and "\<not> (op \<in> {OP_IDIV, OP_MOD} \<and> is_int a \<and> b = VInt 0)"
  shows "\<exists>v. do_arith E op a b ra rb g = Inr (v, g) \<and>
    (if is_int a \<and> is_int b \<and> op \<notin> {OP_DIV, OP_POW} then is_int v else is_float v)"
proof -
  have n: "as_number E g a = Some a" "as_number E g b = Some b"
    using assms(1,2) by (cases a; cases b; simp add: as_number_def is_number_def)+
  have "\<exists>v. try_arith_numbers E g op a b = Inr (Some v) \<and>
    (if is_int a \<and> is_int b \<and> op \<notin> {OP_DIV, OP_POW} then is_int v else is_float v)"
  proof (cases "is_int a \<and> is_int b")
    case True
    then obtain x y where xy: "a = VInt x" "b = VInt y" by (cases a; cases b) auto
    obtain v where "try_arith_numbers E g op a b = Inr (Some v)" "if op \<notin> {OP_DIV, OP_POW} then is_int v else is_float v"
      using int_arith_total [OF assms(3), of y E g x] assms(4) unfolding xy by auto
    then show ?thesis using xy by (intro exI [of _ v]) auto
  next
    case False
    then show ?thesis using mixed_arith_total [OF assms(3) assms(1,2)] by auto
  qed
  then show ?thesis using n by (auto simp: do_arith_def arith_raw_def coerce_number_def)
qed

theorem arith_numbers_type_witness:
  "\<forall>E g. \<exists>v. do_arith E OP_IDIV (VInt 7) (VInt 2) 0 1 g = Inr (v, g) \<and> is_int v"
  using arith_numbers_type [of "VInt 7" "VInt 2" OP_IDIV _ 0 1] by (simp add: is_number_def)

end
