(* ===== verification/Lt_Lexer.thy ===== *)
theory Lt_Lexer
  imports Lt_Convert
begin

text \<open>
  The lexer: \<open>src/frontend/lexer.hpp\<close> and \<open>src/frontend/lexer.cpp\<close>. The state keeps the whole
  source and a position; each loop of the source is a function whose termination rests on the
  position moving forward. Characters are classified as in the \<open>C\<close> locale, and \<open>strtod\<close> of the C
  library is a parameter (value and number of bytes consumed).
\<close>

section \<open>Tokens\<close>

text \<open>The enumerators of \<open>TokenKind\<close>, keywords and symbols grouped under a constructor each.\<close>

datatype keyword =
  KwAnd | KwBreak | KwDo | KwElse | KwElseif | KwEnd | KwFalse | KwFor | KwFunction | KwGoto | KwIf | KwIn
  | KwLocal | KwNil | KwNot | KwOr | KwRepeat | KwReturn | KwThen | KwTrue | KwUntil | KwWhile

datatype symbol =
  Plus | Minus | Star | Slash | Percent | Caret | Hash | Amp | Tilde | Pipe
  | LtLt | GtGt | SlashSlash | EqEq | TildeEq | LtEq | GtEq | Lt | Gt | Eq
  | LParen | RParen | LBrace | RBrace | LBracket | RBracket | ColonColon | Semi | Colon
  | Comma | Dot | DotDot | DotDotDot

datatype token_kind =
  TkEnd | TkIdentifier | TkNumber | TkInteger | TkString | TkChar | TkVararg | TkKw keyword | TkSym symbol

record token =
  tk_kind :: token_kind
  tk_text :: string
  tk_near :: string
  tk_number :: f64
  tk_integer :: u64
  tk_line :: int
  tk_col :: int

record lexer =
  lx_src :: string
  lx_pos :: nat
  lx_line :: int
  lx_col :: int

section \<open>Characters\<close>

abbreviation (input) LF :: char where "LF \<equiv> CHR 0x0A"
abbreviation (input) CR :: char where "CR \<equiv> CHR 0x0D"
abbreviation (input) NUL :: char where "NUL \<equiv> CHR 0x00"
abbreviation (input) SQUOTE :: char where "SQUOTE \<equiv> CHR 0x27"
abbreviation (input) DQUOTE :: char where "DQUOTE \<equiv> CHR 0x22"
abbreviation (input) BSLASH :: char where "BSLASH \<equiv> CHR 0x5C"

definition eos :: "lexer \<Rightarrow> bool" where
  "eos lx \<longleftrightarrow> length (lx_src lx) \<le> lx_pos lx"

definition peek_char :: "nat \<Rightarrow> lexer \<Rightarrow> char" where
  "peek_char n lx = (let i = lx_pos lx + n in if i < length (lx_src lx) then lx_src lx ! i else NUL)"

definition get :: "lexer \<Rightarrow> char \<times> lexer" where
  "get lx =
     (if eos lx then (NUL, lx)
      else let c = lx_src lx ! lx_pos lx in
        (c, lx\<lparr>lx_pos := lx_pos lx + 1, lx_col := (if c \<noteq> LF \<and> c \<noteq> CR then lx_col lx + 1 else lx_col lx)\<rparr>))"

definition skip :: "lexer \<Rightarrow> lexer" where
  "skip lx = snd (get lx)"

definition match :: "char \<Rightarrow> lexer \<Rightarrow> bool \<times> lexer" where
  "match c lx = (if peek_char 0 lx = c then (True, skip lx) else (False, lx))"

definition curr_is_newline :: "lexer \<Rightarrow> bool" where
  "curr_is_newline lx \<longleftrightarrow> peek_char 0 lx = LF \<or> peek_char 0 lx = CR"

definition incline :: "lexer \<Rightarrow> lexer" where
  "incline lx =
     (let (old, lx1) = get lx; lx2 = (if curr_is_newline lx1 \<and> peek_char 0 lx1 \<noteq> old then skip lx1 else lx1)
      in lx2\<lparr>lx_line := lx_line lx2 + 1, lx_col := 1\<rparr>)"

text \<open>What is left to read, and how the primitives change it.\<close>

definition lx_rem :: "lexer \<Rightarrow> nat" where
  "lx_rem lx = length (lx_src lx) - lx_pos lx"

lemma skip_rem: "\<not> eos lx \<Longrightarrow> lx_rem (skip lx) < lx_rem lx" "lx_rem (skip lx) \<le> lx_rem lx"
  by (auto simp: skip_def get_def lx_rem_def eos_def Let_def)

lemma get_skip: "get lx = (peek_char 0 lx, skip lx)"
  by (simp add: skip_def get_def peek_char_def eos_def Let_def)

lemma peek_eos: "eos lx \<Longrightarrow> peek_char n lx = NUL"
  by (simp add: peek_char_def eos_def Let_def)

lemma peek_not_eos: "peek_char 0 lx = c \<Longrightarrow> c \<noteq> NUL \<Longrightarrow> \<not> eos lx"
  by (auto simp: peek_char_def eos_def Let_def split: if_splits)

lemma newline_not_eos: "curr_is_newline lx \<Longrightarrow> \<not> eos lx"
  by (auto simp: curr_is_newline_def dest: peek_eos [where n = 0])

lemma incline_rem: "lx_rem (incline lx) \<le> lx_rem (skip lx)"
  using skip_rem(2) [of "skip lx"] by (auto simp: incline_def get_skip Let_def lx_rem_def)

lemma incline_rem_less: "\<not> eos lx \<Longrightarrow> lx_rem (incline lx) < lx_rem lx"
  using incline_rem [of lx] skip_rem(1) [of lx] by simp

text \<open>Reading moves forward in the same source.\<close>

definition moves :: "lexer \<Rightarrow> lexer \<Rightarrow> bool" where
  "moves lx lx' \<longleftrightarrow> lx_src lx' = lx_src lx \<and> lx_pos lx \<le> lx_pos lx' \<and>
     (lx_pos lx \<le> length (lx_src lx) \<longrightarrow> lx_pos lx' \<le> length (lx_src lx))"

lemma moves_refl [simp]: "moves lx lx"
  by (simp add: moves_def)

lemma moves_trans: "moves a b \<Longrightarrow> moves b c \<Longrightarrow> moves a c"
  by (auto simp: moves_def)

lemma skip_moves: "moves lx (skip lx)"
  by (auto simp: moves_def skip_def get_def eos_def Let_def)

lemma incline_moves: "moves lx (incline lx)"
  using skip_moves [of lx] skip_moves [of "skip lx"] by (auto simp: incline_def get_skip Let_def moves_def)

lemma moves_rem: "moves lx lx' \<Longrightarrow> lx_rem lx' \<le> lx_rem lx"
  by (auto simp: moves_def lx_rem_def)

lemma moves_skip_less: "\<not> eos lx \<Longrightarrow> moves (skip lx) lx' \<Longrightarrow> lx_rem lx' < lx_rem lx"
  using moves_rem [of "skip lx" lx'] skip_rem(1) [of lx] by simp

lemma moves_skip: "moves (skip lx) lx' \<Longrightarrow> moves lx lx'"
  using skip_moves moves_trans by blast

section \<open>Loops over characters\<close>

function read_while :: "(char \<Rightarrow> bool) \<Rightarrow> lexer \<Rightarrow> string \<times> lexer" where
  "read_while P lx =
     (if \<not> eos lx \<and> P (peek_char 0 lx)
      then (let (s, lx') = read_while P (skip lx) in (peek_char 0 lx # s, lx')) else ([], lx))"
  by pat_completeness auto
termination by (relation "measure (\<lambda>(_, lx). lx_rem lx)") (auto simp: skip_rem)

declare read_while.simps [simp del]

lemma read_while_moves: "moves lx (snd (read_while P lx))"
proof (induction P lx rule: read_while.induct)
  case (1 P lx)
  then show ?case by (subst read_while.simps) (auto simp: case_prod_unfold Let_def intro: moves_skip)
qed

definition count_eq :: "lexer \<Rightarrow> nat \<times> lexer" where
  "count_eq lx = (let (s, lx') = read_while (\<lambda>c. c = CHR ''='') lx in (length s, lx'))"

lemma count_eq_moves: "moves lx (snd (count_eq lx))"
  using read_while_moves [of lx] by (simp add: count_eq_def case_prod_unfold Let_def)

section \<open>White space and comments\<close>

definition blank :: "char \<Rightarrow> bool" where
  "blank c \<longleftrightarrow> c = CHR '' '' \<or> c = CHR 0x09 \<or> c = CHR 0x0C \<or> c = CHR 0x0B"

lemma blank_not_eos: "blank (peek_char 0 lx) \<Longrightarrow> \<not> eos lx"
  by (auto simp: blank_def dest: peek_eos [where n = 0])

function long_comment :: "nat \<Rightarrow> lexer \<Rightarrow> lexer result" where
  "long_comment level lx =
     (if eos lx then panic ''unfinished long comment near <eof>''
      else if curr_is_newline lx then long_comment level (incline lx)
      else if peek_char 0 lx = CHR '']'' then
        (let (lvl, lx2) = count_eq (skip lx) in
         if lvl = level \<and> peek_char 0 lx2 = CHR '']'' then Inr (skip lx2) else long_comment level lx2)
      else long_comment level (skip lx))"
  by pat_completeness auto
termination
proof (relation "measure (\<lambda>(_, lx). lx_rem lx)")
  fix level lx x lvl lx2
  assume a: "\<not> eos lx" "x = count_eq (skip lx)" "(lvl, lx2) = x"
  then have "moves (skip lx) lx2" using count_eq_moves [of "skip lx"] by (metis snd_conv)
  then show "((level, lx2), level, lx) \<in> measure (\<lambda>(_, lx). lx_rem lx)" using moves_skip_less [OF a(1)] by simp
qed (auto simp: incline_rem_less skip_rem)

declare long_comment.simps [simp del]

lemma long_comment_moves: "long_comment level lx = Inr lx' \<Longrightarrow> moves lx lx'"
proof (induction level lx arbitrary: lx' rule: long_comment.induct)
  case (1 level lx)
  obtain lvl lx2 where c: "count_eq (skip lx) = (lvl, lx2)" by fastforce
  have r: "moves lx lx2" using moves_skip [OF count_eq_moves] c by (metis snd_conv)
  show ?case
  proof (cases "eos lx")
    case False
    from "1.prems" consider "curr_is_newline lx" "long_comment level (incline lx) = Inr lx'"
      | "\<not> curr_is_newline lx" "peek_char 0 lx = CHR '']''" "lx' = skip lx2"
      | "\<not> curr_is_newline lx" "peek_char 0 lx = CHR '']''" "\<not> (lvl = level \<and> peek_char 0 lx2 = CHR '']'')" "long_comment level lx2 = Inr lx'"
      | "\<not> curr_is_newline lx" "peek_char 0 lx \<noteq> CHR '']''" "long_comment level (skip lx) = Inr lx'"
      using False by (subst (asm) long_comment.simps) (auto simp: c split: if_splits)
    then show ?thesis
    proof cases
      case 1
      then show ?thesis using "1.IH"(1) [OF False] moves_trans [OF incline_moves] by blast
    next
      case 2
      then show ?thesis using moves_trans [OF r skip_moves] by simp
    next
      case 3
      then show ?thesis using "1.IH"(2) [OF False _ _ c [symmetric] refl] moves_trans [OF r] by blast
    next
      case 4
      then show ?thesis using "1.IH"(3) [OF False] moves_skip by blast
    qed
  qed (use "1.prems" in \<open>simp add: long_comment.simps\<close>)
qed

definition skip_line :: "lexer \<Rightarrow> lexer" where
  "skip_line lx = snd (read_while (\<lambda>c. c \<noteq> LF \<and> c \<noteq> CR) lx)"

text \<open>What follows the two dashes of a comment.\<close>

definition comment_body :: "lexer \<Rightarrow> lexer result" where
  "comment_body lx =
     (if peek_char 0 lx = CHR ''['' then
        (let (level, lx2) = count_eq (skip lx) in
         if peek_char 0 lx2 = CHR ''['' then long_comment level (skip lx2) else Inr (skip_line lx2))
      else Inr (skip_line lx))"

lemma skip_line_moves: "moves lx (skip_line lx)"
  by (simp add: skip_line_def read_while_moves)

lemma comment_body_moves: "comment_body lx = Inr lx' \<Longrightarrow> moves lx lx'"
proof -
  assume a: "comment_body lx = Inr lx'"
  obtain level lx2 where c: "count_eq (skip lx) = (level, lx2)" by fastforce
  have r: "moves lx lx2" using moves_skip [OF count_eq_moves] c by (metis snd_conv)
  show ?thesis
    using a skip_line_moves [of lx] moves_trans [OF r skip_line_moves] moves_trans [OF r moves_skip [OF long_comment_moves]]
    by (auto simp: comment_body_def c split: if_splits)
qed

function skip_whitespace_and_comments :: "lexer \<Rightarrow> lexer result" where
  "skip_whitespace_and_comments lx =
     (if blank (peek_char 0 lx) then skip_whitespace_and_comments (skip lx)
      else if curr_is_newline lx then skip_whitespace_and_comments (incline lx)
      else if peek_char 0 lx = CHR ''-'' \<and> peek_char 1 lx = CHR ''-'' then
        (case comment_body (skip (skip lx)) of Inl e \<Rightarrow> Inl e | Inr lx' \<Rightarrow> skip_whitespace_and_comments lx')
      else Inr lx)"
  by pat_completeness auto
termination
proof (relation "measure lx_rem")
  fix lx lx' assume a: "peek_char 0 lx = CHR ''-'' \<and> peek_char 1 lx = CHR ''-''" "comment_body (skip (skip lx)) = Inr lx'"
  then have "moves (skip lx) lx'" using comment_body_moves moves_skip by blast
  then show "(lx', lx) \<in> measure lx_rem" using moves_skip_less [of lx lx'] peek_not_eos [of lx "CHR ''-''"] a(1) by simp
qed (auto simp: skip_rem blank_not_eos newline_not_eos incline_rem_less)

declare skip_whitespace_and_comments.simps [simp del]

section \<open>Numerals\<close>

definition new_token :: "token_kind \<Rightarrow> lexer \<Rightarrow> token" where
  "new_token k lx =
     \<lparr>tk_kind = k, tk_text = [], tk_near = [], tk_number = 0, tk_integer = 0, tk_line = lx_line lx, tk_col = lx_col lx\<rparr>"

text \<open>An optional sign and digits after an exponent letter.\<close>

definition read_exponent :: "lexer \<Rightarrow> string \<times> lexer" where
  "read_exponent lx =
     (let e = peek_char 0 lx; lx1 = skip lx;
          (sg, lx2) = (if peek_char 0 lx1 = CHR ''+'' \<or> peek_char 0 lx1 = CHR ''-'' then ([peek_char 0 lx1], skip lx1) else ([], lx1));
          (ds, lx3) = read_while isdigit lx2
      in (e # sg @ ds, lx3))"

definition numeral_text :: "lexer \<Rightarrow> string \<times> lexer" where
  "numeral_text lx =
     (let is_hex = (peek_char 0 lx = CHR ''0'' \<and> (peek_char 1 lx = CHR ''x'' \<or> peek_char 1 lx = CHR ''X''));
          (pre, lx1) = (if is_hex then ([peek_char 0 lx, peek_char 1 lx], skip (skip lx)) else ([], lx));
          (body, lx2) = read_while (\<lambda>c. (if is_hex then isxdigit c else isdigit c) \<or> c = CHR ''.'') lx1;
          (ex, lx3) = (if \<not> is_hex \<and> (peek_char 0 lx2 = CHR ''e'' \<or> peek_char 0 lx2 = CHR ''E'') then read_exponent lx2 else ([], lx2));
          (px, lx4) = (if is_hex \<and> (peek_char 0 lx3 = CHR ''p'' \<or> peek_char 0 lx3 = CHR ''P'') then read_exponent lx3 else ([], lx3))
      in (pre @ body @ ex @ px, lx4))"

text \<open>\<open>std::stoull\<close> in base 10: \<open>None\<close> is the exception.\<close>

definition stoull :: "string \<Rightarrow> (nat \<times> nat) option" where
  "stoull s =
     (let ds = takeWhile isdigit s in
      if ds = [] \<or> 2 ^ 64 \<le> dec_val ds then None else Some (dec_val ds, length ds))"

definition numeral_int :: "string \<Rightarrow> (u64 + f64) option" where
  "numeral_int s =
     (let hex = (2 < length s \<and> s ! 0 = CHR ''0'' \<and> (s ! 1 = CHR ''x'' \<or> s ! 1 = CHR ''X''));
          pure_int = (CHR ''.'' \<notin> set s \<and> (hex \<or> CHR ''e'' \<notin> set s \<and> CHR ''E'' \<notin> set s) \<and>
                      CHR ''p'' \<notin> set s \<and> CHR ''P'' \<notin> set s)
      in if \<not> pure_int then None
         else if hex then (let (u, rest) = hex_accum 0 (drop 2 s) in if rest = [] then Some (Inl u) else None)
         else (case stoull s of
                 None \<Rightarrow> None
               | Some (u, idx) \<Rightarrow>
                   if idx \<noteq> length s then None
                   else if u < 2 ^ 63 then Some (Inl (of_nat u)) else Some (Inr (f_of_int (int u)))))"

definition malformed :: "string \<Rightarrow> 'a result" where
  "malformed s = panic (''malformed number near '' @ [SQUOTE] @ s @ [SQUOTE])"

definition lex_number :: "strtod_fun \<Rightarrow> lexer \<Rightarrow> (token \<times> lexer) result" where
  "lex_number strtod lx =
     (let (s, lx') = numeral_text lx; t = (new_token TkNumber lx)\<lparr>tk_text := s\<rparr> in
      case numeral_int s of
        Some (Inl n) \<Rightarrow> Inr (t\<lparr>tk_kind := TkInteger, tk_integer := n\<rparr>, lx')
      | Some (Inr d) \<Rightarrow> Inr (t\<lparr>tk_number := d\<rparr>, lx')
      | None \<Rightarrow>
          (let (d, n) = strtod s in
           if n = 0 \<or> n \<noteq> length s then malformed s else Inr (t\<lparr>tk_number := d\<rparr>, lx')))"

section \<open>Quoted strings\<close>

text \<open>\<open>save\<close> is the source text for messages, \<open>out\<close> the value.\<close>

type_synonym str_state = "lexer \<times> string \<times> string"

definition near_error :: "string \<Rightarrow> string \<Rightarrow> 'a result" where
  "near_error msg save = panic (msg @ '' near '' @ [SQUOTE] @ save @ [SQUOTE])"

definition escerror :: "string \<Rightarrow> lexer \<Rightarrow> string \<Rightarrow> 'a result" where
  "escerror msg lx save =
     near_error msg (if \<not> eos lx \<and> \<not> curr_is_newline lx then save @ [peek_char 0 lx] else save)"

definition hex_escape :: "str_state \<Rightarrow> str_state result" where
  "hex_escape st =
     (let (lx, out, save) = st; hi = peek_char 0 lx; lx1 = skip lx; lo = peek_char 0 lx1 in
      if eos lx \<or> \<not> isxdigit hi then escerror ''hexadecimal digit expected'' lx save
      else if eos lx1 \<or> \<not> isxdigit lo then escerror ''hexadecimal digit expected'' lx1 (save @ [hi])
      else Inr (skip lx1, out @ [char_of (16 * hexval hi + hexval lo)], save @ [hi, lo]))"

function read_code_point :: "lexer \<Rightarrow> nat \<Rightarrow> string \<Rightarrow> (lexer \<times> nat \<times> string) result" where
  "read_code_point lx cp save =
     (if \<not> eos lx \<and> isxdigit (peek_char 0 lx) then
        (let h = peek_char 0 lx; cp' = 16 * cp + hexval h; save' = save @ [h] in
         if 0x10FFFF < cp' then near_error ''UTF-8 value too large'' save' else read_code_point (skip lx) cp' save')
      else Inr (lx, cp, save))"
  by pat_completeness auto
termination by (relation "measure (\<lambda>(lx, _, _). lx_rem lx)") (auto simp: skip_rem)

declare read_code_point.simps [simp del]

definition encode_cp :: "nat \<Rightarrow> string" where
  "encode_cp cp =
     (if cp \<le> 0x7F then [char_of cp]
      else if cp \<le> 0x7FF then [char_of (0xC0 + cp div 64), char_of (0x80 + cp mod 64)]
      else if cp \<le> 0xFFFF then [char_of (0xE0 + cp div 4096), char_of (0x80 + cp div 64 mod 64), char_of (0x80 + cp mod 64)]
      else [char_of (0xF0 + cp div 262144), char_of (0x80 + cp div 4096 mod 64), char_of (0x80 + cp div 64 mod 64),
            char_of (0x80 + cp mod 64)])"

definition utf8_escape :: "str_state \<Rightarrow> str_state result" where
  "utf8_escape st =
     (let (lx, out, save) = st; lx1 = skip lx; save1 = save @ ''{'' in
      if peek_char 0 lx \<noteq> CHR ''{'' then escerror (''missing '' @ [SQUOTE] @ ''{'' @ [SQUOTE]) lx save
      else if eos lx1 \<or> \<not> isxdigit (peek_char 0 lx1) then escerror ''hexadecimal digit expected'' lx1 save1
      else rbind (read_code_point lx1 0 save1) (\<lambda>(lx2, cp, save2).
        if peek_char 0 lx2 \<noteq> CHR ''}'' then escerror (''missing '' @ [SQUOTE] @ ''}'' @ [SQUOTE]) lx2 save2
        else Inr (skip lx2, out @ encode_cp cp, save2 @ ''}'')))"

function skip_z :: "lexer \<Rightarrow> lexer" where
  "skip_z lx =
     (if blank (peek_char 0 lx) then skip_z (skip lx)
      else if curr_is_newline lx then skip_z (incline lx)
      else lx)"
  by pat_completeness auto
termination by (relation "measure lx_rem") (auto simp: skip_rem blank_not_eos newline_not_eos incline_rem_less)

declare skip_z.simps [simp del]

text \<open>At most two more digits.\<close>

definition dec_escape :: "char \<Rightarrow> str_state \<Rightarrow> str_state result" where
  "dec_escape e st =
     (let (lx, out, save) = st;
          (d1, lx1) = (if isdigit (peek_char 0 lx) then ([peek_char 0 lx], skip lx) else ([], lx));
          (d2, lx2) = (if d1 \<noteq> [] \<and> isdigit (peek_char 0 lx1) then ([peek_char 0 lx1], skip lx1) else ([], lx1));
          v = dec_val (e # d1 @ d2); save' = save @ d1 @ d2
      in if 255 < v then escerror ''decimal escape too large'' lx2 save'
         else Inr (lx2, out @ [char_of v], save'))"

definition simple_escape :: "char \<Rightarrow> char option" where
  "simple_escape e =
     map_of [(CHR ''a'', CHR 0x07), (CHR ''b'', CHR 0x08), (CHR ''f'', CHR 0x0C), (CHR ''n'', LF), (CHR ''r'', CR),
             (CHR ''t'', CHR 0x09), (CHR ''v'', CHR 0x0B), (BSLASH, BSLASH), (SQUOTE, SQUOTE), (DQUOTE, DQUOTE)] e"

text \<open>What follows a backslash; \<open>save\<close> ends with the backslash.\<close>

definition read_escape :: "str_state \<Rightarrow> str_state result" where
  "read_escape st =
     (let (lx, out, save) = st in
      if eos lx then panic ''unfinished string near <eof>''
      else if curr_is_newline lx then Inr (incline lx, out @ [LF], butlast save @ [LF])
      else let e = peek_char 0 lx; lx1 = skip lx; save1 = save @ [e] in
        case simple_escape e of
          Some c \<Rightarrow> Inr (lx1, out @ [c], save1)
        | None \<Rightarrow>
            if e = CHR ''x'' then hex_escape (lx1, out, save1)
            else if e = CHR ''u'' then utf8_escape (lx1, out, save1)
            else if e = CHR ''z'' then Inr (skip_z lx1, out, butlast save)
            else if isdigit e then dec_escape e (lx1, out, save1)
            else near_error ''invalid escape sequence'' save1)"

subsection \<open>Escapes move forward\<close>

lemma hex_escape_moves: "hex_escape (lx, out, save) = Inr (lx', out', save') \<Longrightarrow> moves lx lx'"
  using moves_skip [OF skip_moves] by (auto simp: hex_escape_def Let_def escerror_def near_error_def split: if_splits)

lemma read_code_point_moves: "read_code_point lx cp save = Inr (lx', cp', save') \<Longrightarrow> moves lx lx'"
proof (induction lx cp save rule: read_code_point.induct)
  case (1 lx cp save)
  from "1.prems" show ?case
    by (subst (asm) read_code_point.simps)
      (auto simp: Let_def near_error_def split: if_splits intro: moves_skip "1.IH")
qed

lemma utf8_escape_moves: "utf8_escape (lx, out, save) = Inr (lx', out', save') \<Longrightarrow> moves lx lx'"
  by (auto simp: utf8_escape_def Let_def escerror_def near_error_def rbind_eq_Inr split: if_splits
      dest!: read_code_point_moves intro: moves_trans [OF moves_skip skip_moves])

lemma skip_z_moves: "moves lx (skip_z lx)"
proof (induction lx rule: skip_z.induct)
  case (1 lx)
  then show ?case by (subst skip_z.simps) (auto intro: moves_skip moves_trans [OF incline_moves])
qed

lemma dec_escape_moves: "dec_escape e (lx, out, save) = Inr (lx', out', save') \<Longrightarrow> moves lx lx'"
  using skip_moves [of lx] moves_skip [OF skip_moves, of lx]
  by (auto simp: dec_escape_def Let_def escerror_def near_error_def split: if_splits prod.splits)

lemma read_escape_moves: "read_escape (lx, out, save) = Inr (lx', out', save') \<Longrightarrow> moves lx lx'"
  by (auto simp: read_escape_def Let_def near_error_def split: if_splits option.splits
      intro: skip_moves incline_moves moves_skip skip_z_moves
      dest!: hex_escape_moves utf8_escape_moves dec_escape_moves)

function str_loop :: "char \<Rightarrow> lexer \<Rightarrow> string \<Rightarrow> string \<Rightarrow> str_state result" where
  "str_loop quote lx out save =
     (if eos lx then panic ''unfinished string near <eof>''
      else if curr_is_newline lx then near_error ''unfinished string'' save
      else let c = peek_char 0 lx; lx1 = skip lx; save1 = save @ [c] in
        if c = quote then Inr (lx1, out, save1)
        else if c = BSLASH then
          (case read_escape (lx1, out, save1) of
             Inl e \<Rightarrow> Inl e
           | Inr (lx2, out2, save2) \<Rightarrow> str_loop quote lx2 out2 save2)
        else str_loop quote lx1 (out @ [c]) save1)"
  by pat_completeness auto
termination
  by (relation "measure (\<lambda>(_, lx, _, _). lx_rem lx)")
    (auto simp: skip_rem dest!: read_escape_moves sym [of "Inr _"] intro: moves_skip_less)

declare str_loop.simps [simp del]

definition lex_string :: "char \<Rightarrow> lexer \<Rightarrow> (token \<times> lexer) result" where
  "lex_string quote lx =
     rbind (str_loop quote (skip lx) [] [quote]) (\<lambda>(lx', out, save).
       Inr ((new_token TkString lx)\<lparr>tk_text := out, tk_near := save\<rparr>, lx'))"

section \<open>Long strings\<close>

function long_loop :: "nat \<Rightarrow> lexer \<Rightarrow> string \<Rightarrow> string \<Rightarrow> str_state result" where
  "long_loop level lx out near =
     (if eos lx then panic ''unfinished long string near <eof>''
      else if curr_is_newline lx then long_loop level (incline lx) (out @ [LF]) (near @ [LF])
      else let c = peek_char 0 lx; lx1 = skip lx in
        if c = CHR '']'' then
          (let (lvl, lx2) = count_eq lx1 in
           if lvl = level \<and> peek_char 0 lx2 = CHR '']''
           then Inr (skip lx2, out, near @ '']'' @ replicate lvl (CHR ''='') @ '']'')
           else long_loop level lx1 (out @ [c]) (near @ [c]))
        else long_loop level lx1 (out @ [c]) (near @ [c]))"
  by pat_completeness auto
termination by (relation "measure (\<lambda>(_, lx, _, _). lx_rem lx)") (auto simp: skip_rem incline_rem_less)

declare long_loop.simps [simp del]

definition lex_long_string :: "nat \<Rightarrow> lexer \<Rightarrow> (token \<times> lexer) result" where
  "lex_long_string level lx =
     rbind (long_loop level (if curr_is_newline lx then incline lx else lx) [] (''['' @ replicate level (CHR ''='') @ ''['')) (\<lambda>(lx', out, near).
       Inr ((new_token TkString lx)\<lparr>tk_text := out, tk_near := near\<rparr>, lx'))"

section \<open>Names, keywords and symbols\<close>

definition kws :: "(string \<times> keyword) list" where
  "kws =
     [(''and'', KwAnd), (''break'', KwBreak), (''do'', KwDo), (''else'', KwElse), (''elseif'', KwElseif), (''end'', KwEnd),
      (''false'', KwFalse), (''for'', KwFor), (''function'', KwFunction), (''goto'', KwGoto), (''if'', KwIf), (''in'', KwIn),
      (''local'', KwLocal), (''nil'', KwNil), (''not'', KwNot), (''or'', KwOr), (''repeat'', KwRepeat), (''return'', KwReturn),
      (''then'', KwThen), (''true'', KwTrue), (''until'', KwUntil), (''while'', KwWhile)]"

definition ident_or_kw :: "lexer \<Rightarrow> token \<times> lexer" where
  "ident_or_kw lx =
     (let (s, lx') = read_while (\<lambda>c. isalnum c \<or> c = CHR ''_'') lx;
          k = (case map_of kws s of Some kw \<Rightarrow> TkKw kw | None \<Rightarrow> TkIdentifier)
      in ((new_token k lx)\<lparr>tk_text := s\<rparr>, lx'))"

definition single_symbols :: "(char \<times> symbol) list" where
  "single_symbols =
     [(CHR ''+'', Plus), (CHR ''-'', Minus), (CHR ''*'', Star), (CHR ''%'', Percent), (CHR ''^'', Caret), (CHR ''#'', Hash),
      (CHR ''&'', Amp), (CHR ''|'', Pipe), (CHR ''('', LParen), (CHR '')'', RParen), (CHR ''{'', LBrace), (CHR ''}'', RBrace),
      (CHR '']'', RBracket), (CHR '';'', Semi), (CHR '','', Comma)]"

text \<open>The symbol that starts with \<open>c\<close>, already read; \<open>None\<close> is any other byte.\<close>

definition lex_symbol :: "char \<Rightarrow> lexer \<Rightarrow> symbol option \<times> lexer" where
  "lex_symbol c lx =
     (let follow = (\<lambda>d yes no. if peek_char 0 lx = d then (Some yes, skip lx) else (Some no, lx)) in
      case map_of single_symbols c of
        Some sy \<Rightarrow> (Some sy, lx)
      | None \<Rightarrow>
          if c = CHR ''/'' then follow (CHR ''/'') SlashSlash Slash
          else if c = CHR ''~'' then follow (CHR ''='') TildeEq Tilde
          else if c = CHR ''='' then follow (CHR ''='') EqEq Eq
          else if c = CHR ''<'' then
            (if peek_char 0 lx = CHR ''<'' then (Some LtLt, skip lx) else follow (CHR ''='') LtEq Lt)
          else if c = CHR ''>'' then
            (if peek_char 0 lx = CHR ''>'' then (Some GtGt, skip lx) else follow (CHR ''='') GtEq Gt)
          else if c = CHR '':'' then follow (CHR '':'') ColonColon Colon
          else if c = CHR ''.'' then
            (if peek_char 0 lx = CHR ''.'' then
               (let lx1 = skip lx in
                if peek_char 0 lx1 = CHR ''.'' then (Some DotDotDot, skip lx1) else (Some DotDot, lx1))
             else (Some Dot, lx))
          else (None, lx))"

definition lex_one :: "strtod_fun \<Rightarrow> lexer \<Rightarrow> (token \<times> lexer) result" where
  "lex_one strtod lx0 =
     rbind (skip_whitespace_and_comments lx0) (\<lambda>lx.
       let t = new_token TkEnd lx; c = peek_char 0 lx in
       if eos lx then Inr (t, lx)
       else if isdigit c \<or> (c = CHR ''.'' \<and> isdigit (peek_char 1 lx)) then lex_number strtod lx
       else if c = SQUOTE \<or> c = DQUOTE then lex_string c lx
       else if c = CHR ''['' then
         (let (level, lx2) = count_eq (skip lx) in
          if peek_char 0 lx2 = CHR ''['' then lex_long_string level (skip lx2)
          else if level \<noteq> 0 then panic ''invalid long string delimiter''
          else Inr (t\<lparr>tk_kind := TkSym LBracket\<rparr>, lx2))
       else if isalpha c \<or> c = CHR ''_'' then Inr (ident_or_kw lx)
       else (case lex_symbol c (skip lx) of
               (Some sy, lx2) \<Rightarrow> Inr (t\<lparr>tk_kind := TkSym sy\<rparr>, lx2)
             | (None, lx2) \<Rightarrow> Inr (t\<lparr>tk_kind := TkChar, tk_integer := of_char c\<rparr>, lx2)))"

text \<open>The interface of the class: a source, and one token of lookahead.\<close>

definition lexer_new :: "string \<Rightarrow> lexer" where
  "lexer_new src =
     (if src \<noteq> [] \<and> hd src = CHR ''#'' then
        (let n = length (takeWhile (\<lambda>c. c \<noteq> LF) src) in
         if n < length src then \<lparr>lx_src = src, lx_pos = n + 1, lx_line = 2, lx_col = 1\<rparr>
         else \<lparr>lx_src = src, lx_pos = n, lx_line = 1, lx_col = 1\<rparr>)
      else \<lparr>lx_src = src, lx_pos = 0, lx_line = 1, lx_col = 1\<rparr>)"

type_synonym lexer_state = "lexer \<times> token option"

definition next_token :: "strtod_fun \<Rightarrow> lexer_state \<Rightarrow> (token \<times> lexer_state) result" where
  "next_token strtod ls =
     (case snd ls of
        Some t \<Rightarrow> Inr (t, (fst ls, None))
      | None \<Rightarrow> rbind (lex_one strtod (fst ls)) (\<lambda>(t, lx). Inr (t, (lx, None))))"

definition peek_token :: "strtod_fun \<Rightarrow> lexer_state \<Rightarrow> (token \<times> lexer_state) result" where
  "peek_token strtod ls =
     (case snd ls of
        Some t \<Rightarrow> Inr (t, ls)
      | None \<Rightarrow> rbind (lex_one strtod (fst ls)) (\<lambda>(t, lx). Inr (t, (lx, Some t))))"

definition symbol_text :: "symbol \<Rightarrow> string" where
  "symbol_text sy =
     (case sy of
        Plus \<Rightarrow> ''+'' | Minus \<Rightarrow> ''-'' | Star \<Rightarrow> ''*'' | Slash \<Rightarrow> ''/'' | Percent \<Rightarrow> ''%'' | Caret \<Rightarrow> ''^'' | Hash \<Rightarrow> ''#''
      | Amp \<Rightarrow> ''&'' | Tilde \<Rightarrow> ''~'' | Pipe \<Rightarrow> ''|'' | LtLt \<Rightarrow> ''<<'' | GtGt \<Rightarrow> ''>>'' | SlashSlash \<Rightarrow> ''//'' | EqEq \<Rightarrow> ''==''
      | TildeEq \<Rightarrow> ''~='' | LtEq \<Rightarrow> ''<='' | GtEq \<Rightarrow> ''>='' | Lt \<Rightarrow> ''<'' | Gt \<Rightarrow> ''>'' | Eq \<Rightarrow> ''='' | LParen \<Rightarrow> ''('' | RParen \<Rightarrow> '')''
      | LBrace \<Rightarrow> ''{'' | RBrace \<Rightarrow> ''}'' | LBracket \<Rightarrow> ''['' | RBracket \<Rightarrow> '']'' | ColonColon \<Rightarrow> ''::'' | Semi \<Rightarrow> '';'' | Colon \<Rightarrow> '':''
      | Comma \<Rightarrow> '','' | Dot \<Rightarrow> ''.'' | DotDot \<Rightarrow> ''..'' | DotDotDot \<Rightarrow> ''...'')"

definition keyword_text :: "keyword \<Rightarrow> string" where
  "keyword_text kw =
     (case kw of
        KwAnd \<Rightarrow> ''and'' | KwBreak \<Rightarrow> ''break'' | KwDo \<Rightarrow> ''do'' | KwElse \<Rightarrow> ''else'' | KwElseif \<Rightarrow> ''elseif'' | KwEnd \<Rightarrow> ''end''
      | KwFalse \<Rightarrow> ''false'' | KwFor \<Rightarrow> ''for'' | KwFunction \<Rightarrow> ''function'' | KwGoto \<Rightarrow> ''goto'' | KwIf \<Rightarrow> ''if'' | KwIn \<Rightarrow> ''in''
      | KwLocal \<Rightarrow> ''local'' | KwNil \<Rightarrow> ''nil'' | KwNot \<Rightarrow> ''not'' | KwOr \<Rightarrow> ''or'' | KwRepeat \<Rightarrow> ''repeat'' | KwReturn \<Rightarrow> ''return''
      | KwThen \<Rightarrow> ''then'' | KwTrue \<Rightarrow> ''true'' | KwUntil \<Rightarrow> ''until'' | KwWhile \<Rightarrow> ''while'')"

definition token_to_near :: "token \<Rightarrow> string" where
  "token_to_near t =
     (let q = (\<lambda>s. [SQUOTE] @ s @ [SQUOTE]) in
      case tk_kind t of
        TkEnd \<Rightarrow> ''<eof>''
      | TkIdentifier \<Rightarrow> q (tk_text t)
      | TkString \<Rightarrow> q (if tk_near t = [] then tk_text t else tk_near t)
      | TkNumber \<Rightarrow> q (tk_text t)
      | TkInteger \<Rightarrow> q (tk_text t)
      | TkChar \<Rightarrow>
          (let c = (ucast (tk_integer t) :: u8) in
           if isprint (char_of (unat c)) then q [char_of (unat c)] else q (''<'' @ [BSLASH] @ dec_nat (unat c) @ ''>''))
      | TkKw kw \<Rightarrow> q (keyword_text kw)
      | TkSym sy \<Rightarrow> q (symbol_text sy)
      | TkVararg \<Rightarrow> q ''<unknown>'')"

end
