(* ===== verification/Lt_LexerProps.thy ===== *)
theory Lt_LexerProps
  imports Lt_Lexer
begin

text \<open>
  Properties of the lexer: every token moves forward, so a source of \<open>n\<close> bytes has at most \<open>n + 1\<close>
  tokens; and the text that \<open>string.format("%q", s)\<close> makes (\<open>src/lib/lstrlib.cpp\<close>) is read back as \<open>s\<close>.
\<close>

section \<open>Progress\<close>

lemma skip_ws_moves: "skip_whitespace_and_comments lx = Inr lx' \<Longrightarrow> moves lx lx'"
proof (induction lx arbitrary: lx' rule: skip_whitespace_and_comments.induct)
  case (1 lx)
  from "1.prems" consider "blank (peek_char 0 lx)" "skip_whitespace_and_comments (skip lx) = Inr lx'"
    | "\<not> blank (peek_char 0 lx)" "curr_is_newline lx" "skip_whitespace_and_comments (incline lx) = Inr lx'"
    | lx2 where "\<not> blank (peek_char 0 lx)" "\<not> curr_is_newline lx" "peek_char 0 lx = CHR ''-'' \<and> peek_char 1 lx = CHR ''-''"
        "comment_body (skip (skip lx)) = Inr lx2" "skip_whitespace_and_comments lx2 = Inr lx'"
    | "lx' = lx"
    by (subst (asm) skip_whitespace_and_comments.simps) (auto split: if_splits sum.splits)
  then show ?case
  proof cases
    case 1
    then show ?thesis using "1.IH"(1) moves_skip by blast
  next
    case 2
    then show ?thesis using "1.IH"(2) moves_trans [OF incline_moves] by blast
  next
    case 3
    then show ?thesis using "1.IH"(3) moves_trans [OF moves_skip [OF moves_skip [OF comment_body_moves]]] by blast
  qed simp
qed

lemma read_while_skip: "\<not> eos lx \<Longrightarrow> P (peek_char 0 lx) \<Longrightarrow> moves (skip lx) (snd (read_while P lx))"
  using read_while_moves [of "skip lx" P] by (subst read_while.simps) (simp add: case_prod_unfold Let_def)

lemma read_exponent_moves: "moves lx (snd (read_exponent lx))"
proof -
  have "moves lx (snd (read_while isdigit (skip lx)))" "moves lx (snd (read_while isdigit (skip (skip lx))))"
    using moves_skip [OF read_while_moves] moves_skip [OF moves_skip [OF read_while_moves]] by blast+
  then show ?thesis by (auto simp: read_exponent_def Let_def case_prod_unfold)
qed

lemma numeral_text_moves:
  assumes "\<not> eos lx" "isdigit (peek_char 0 lx) \<or> peek_char 0 lx = CHR ''.''"
  shows "moves (skip lx) (snd (numeral_text lx))"
proof -
  let ?h = "peek_char 0 lx = CHR ''0'' \<and> (peek_char 1 lx = CHR ''x'' \<or> peek_char 1 lx = CHR ''X'')"
  let ?P = "\<lambda>c. (if ?h then isxdigit c else isdigit c) \<or> c = CHR ''.''"
  obtain pre lx1 where a: "(if ?h then ([peek_char 0 lx, peek_char 1 lx], skip (skip lx)) else ([], lx)) = (pre, lx1)" by fastforce
  obtain body lx2 where b: "read_while ?P lx1 = (body, lx2)" by fastforce
  obtain ex lx3 where c: "(if \<not> ?h \<and> (peek_char 0 lx2 = CHR ''e'' \<or> peek_char 0 lx2 = CHR ''E'') then read_exponent lx2 else ([], lx2)) = (ex, lx3)"
    by fastforce
  obtain px lx4 where d: "(if ?h \<and> (peek_char 0 lx3 = CHR ''p'' \<or> peek_char 0 lx3 = CHR ''P'') then read_exponent lx3 else ([], lx3)) = (px, lx4)"
    by fastforce
  have n: "numeral_text lx = (pre @ body @ ex @ px, lx4)"
    by (simp only: numeral_text_def Let_def a b c d prod.case)
  have "moves (skip lx) lx2"
  proof (cases ?h)
    case True
    then have "lx1 = skip (skip lx)" using a by auto
    then show ?thesis using moves_skip [OF read_while_moves, of "skip lx" ?P] b by simp
  next
    case False
    then have "lx1 = lx" using a by auto
    then show ?thesis using read_while_skip [of lx ?P] assms False b by auto
  qed
  moreover have "moves lx2 lx3" using c read_exponent_moves [of lx2] by (auto split: if_splits)
  moreover have "moves lx3 lx4" using d read_exponent_moves [of lx3] by (auto split: if_splits)
  ultimately show ?thesis using n moves_trans by (metis snd_conv)
qed

lemma lex_number_moves:
  assumes "\<not> eos lx" "isdigit (peek_char 0 lx) \<or> peek_char 0 lx = CHR ''.''" "lex_number strtod lx = Inr (t, lx')"
  shows "moves (skip lx) lx' \<and> tk_kind t \<noteq> TkEnd"
  using numeral_text_moves [OF assms(1,2)] assms(3)
  by (auto simp: lex_number_def Let_def case_prod_unfold malformed_def new_token_def split: option.splits sum.splits if_splits)

lemma str_loop_moves: "str_loop q lx out save = Inr (lx', out', save') \<Longrightarrow> moves lx lx'"
proof (induction q lx out save rule: str_loop.induct)
  case (1 q lx out save)
  let ?c = "peek_char 0 lx"
  show ?case
  proof (cases "eos lx \<or> curr_is_newline lx")
    case True
    then show ?thesis using "1.prems" by (subst (asm) str_loop.simps) (auto simp: near_error_def split: if_splits)
  next
    case False
    from "1.prems" False consider "lx' = skip lx"
      | lx2 out2 save2 where "?c \<noteq> q" "?c = BSLASH" "read_escape (skip lx, out, save @ [?c]) = Inr (lx2, out2, save2)"
          "str_loop q lx2 out2 save2 = Inr (lx', out', save')"
      | "?c \<noteq> q" "?c \<noteq> BSLASH" "str_loop q (skip lx) (out @ [?c]) (save @ [?c]) = Inr (lx', out', save')"
      by (subst (asm) str_loop.simps) (auto simp: Let_def split: if_splits sum.splits)
    then show ?thesis
    proof cases
      case 1
      then show ?thesis by (simp add: skip_moves)
    next
      case 2
      then have "moves lx2 lx'" using "1.IH"(1) False by auto
      then show ?thesis using moves_skip [OF moves_trans [OF read_escape_moves [OF 2(3)]]] by blast
    next
      case 3
      then show ?thesis using "1.IH"(2) False moves_skip by auto
    qed
  qed
qed

lemma long_loop_moves: "long_loop level lx out near = Inr (lx', out', near') \<Longrightarrow> moves lx lx'"
proof (induction level lx out near rule: long_loop.induct)
  case (1 level lx out near)
  let ?c = "peek_char 0 lx"
  obtain lvl lx2 where k: "count_eq (skip lx) = (lvl, lx2)" by fastforce
  show ?case
  proof (cases "eos lx")
    case True
    then show ?thesis using "1.prems" by (subst (asm) long_loop.simps) simp
  next
    case False
    from "1.prems" False consider "curr_is_newline lx" "long_loop level (incline lx) (out @ [LF]) (near @ [LF]) = Inr (lx', out', near')"
      | "lx' = skip lx2"
      | "\<not> curr_is_newline lx" "?c = CHR '']''" "\<not> (lvl = level \<and> peek_char 0 lx2 = CHR '']'')"
          "long_loop level (skip lx) (out @ [?c]) (near @ [?c]) = Inr (lx', out', near')"
      | "\<not> curr_is_newline lx" "?c \<noteq> CHR '']''" "long_loop level (skip lx) (out @ [?c]) (near @ [?c]) = Inr (lx', out', near')"
      by (subst (asm) long_loop.simps) (auto simp: Let_def k split: if_splits)
    then show ?thesis
    proof cases
      case 1
      then show ?thesis using "1.IH"(1) [OF False] moves_trans [OF incline_moves] by blast
    next
      case 2
      then show ?thesis using moves_skip [OF moves_trans [OF count_eq_moves skip_moves]] k by (metis snd_conv)
    next
      case 3
      then show ?thesis using "1.IH"(2) [OF False _ refl refl _ k [symmetric] refl] moves_skip by blast
    next
      case 4
      then show ?thesis using "1.IH"(3) [OF False _ refl refl] moves_skip by blast
    qed
  qed
qed

lemma moves_if: "(b \<Longrightarrow> moves lx (snd x)) \<Longrightarrow> (\<not> b \<Longrightarrow> moves lx (snd y)) \<Longrightarrow> moves lx (snd (if b then x else y))"
  by simp

lemma lex_symbol_moves: "moves lx (snd (lex_symbol c lx))"
proof (cases "map_of single_symbols c")
  case None
  have "moves lx (snd (Some sy, skip lx))" "moves lx (snd (Some sy, lx))" "moves lx (snd (Some sy, skip (skip lx)))" "moves lx (snd (None, lx))" for sy
    using skip_moves [of lx] moves_skip [OF skip_moves, of lx] by auto
  then show ?thesis unfolding lex_symbol_def Let_def None option.case by (intro moves_if)
qed (simp add: lex_symbol_def)

lemma lex_one_progress:
  assumes "lex_one strtod lx0 = Inr (t, lx')"
  shows "moves lx0 lx' \<and> (if tk_kind t = TkEnd then eos lx' else lx_rem lx' < lx_rem lx0)"
proof -
  obtain lx where ws: "skip_whitespace_and_comments lx0 = Inr lx" using assms by (auto simp: lex_one_def rbind_eq_Inr)
  note m0 = skip_ws_moves [OF ws]
  let ?c = "peek_char 0 lx"
  obtain level lx2 where k: "count_eq (skip lx) = (level, lx2)" by fastforce
  have mk: "moves (skip lx) lx2" using count_eq_moves [of "skip lx"] k by simp
  show ?thesis
  proof (cases "eos lx")
    case True
    then show ?thesis using assms m0 by (auto simp: lex_one_def ws Let_def new_token_def)
  next
    case ne: False
    have fin: "moves lx0 lx' \<and> lx_rem lx' < lx_rem lx0" if "moves (skip lx) lx'"
      using moves_skip [OF that] moves_skip_less [OF ne that] moves_trans [OF m0] moves_rem [OF m0] by auto
    have l: "lex_one strtod lx0 =
       (if isdigit ?c \<or> (?c = CHR ''.'' \<and> isdigit (peek_char 1 lx)) then lex_number strtod lx
        else if ?c = SQUOTE \<or> ?c = DQUOTE then lex_string ?c lx
        else if ?c = CHR ''['' then
          (if peek_char 0 lx2 = CHR ''['' then lex_long_string level (skip lx2)
           else if level \<noteq> 0 then panic ''invalid long string delimiter''
           else Inr ((new_token TkEnd lx)\<lparr>tk_kind := TkSym LBracket\<rparr>, lx2))
        else if isalpha ?c \<or> ?c = CHR ''_'' then Inr (ident_or_kw lx)
        else (case lex_symbol ?c (skip lx) of
                (Some sy, lx2) \<Rightarrow> Inr ((new_token TkEnd lx)\<lparr>tk_kind := TkSym sy\<rparr>, lx2)
              | (None, lx2) \<Rightarrow> Inr ((new_token TkEnd lx)\<lparr>tk_kind := TkChar, tk_integer := of_char ?c\<rparr>, lx2)))"
      using ne by (simp only: lex_one_def ws rbind_simps Let_def if_False k prod.case)
    consider (number) "isdigit ?c \<or> (?c = CHR ''.'' \<and> isdigit (peek_char 1 lx))"
      | (str) "?c = SQUOTE \<or> ?c = DQUOTE" "\<not> (isdigit ?c \<or> (?c = CHR ''.'' \<and> isdigit (peek_char 1 lx)))"
      | (bracket) "?c = CHR ''[''" "\<not> (isdigit ?c \<or> (?c = CHR ''.'' \<and> isdigit (peek_char 1 lx)))" "\<not> (?c = SQUOTE \<or> ?c = DQUOTE)"
      | (name) "isalpha ?c \<or> ?c = CHR ''_''" "\<not> (isdigit ?c \<or> (?c = CHR ''.'' \<and> isdigit (peek_char 1 lx)))" "\<not> (?c = SQUOTE \<or> ?c = DQUOTE)" "?c \<noteq> CHR ''[''"
      | (sym) "\<not> (isalpha ?c \<or> ?c = CHR ''_'')" "\<not> (isdigit ?c \<or> (?c = CHR ''.'' \<and> isdigit (peek_char 1 lx)))" "\<not> (?c = SQUOTE \<or> ?c = DQUOTE)" "?c \<noteq> CHR ''[''"
      by blast
    then have "moves (skip lx) lx' \<and> tk_kind t \<noteq> TkEnd"
    proof cases
      case number
      then have "lex_number strtod lx = Inr (t, lx')" using assms unfolding l by (simp only: if_True)
      then show ?thesis using lex_number_moves [OF ne] number by blast
    next
      case str
      then have "lex_string ?c lx = Inr (t, lx')" using assms unfolding l by (simp only: if_True if_False)
      then show ?thesis by (auto simp: lex_string_def rbind_eq_Inr new_token_def dest: str_loop_moves)
    next
      case bracket
      note b = assms [unfolded l if_not_P [OF bracket(2)] if_not_P [OF bracket(3)] if_P [OF bracket(1)]]
      show ?thesis
      proof (cases "peek_char 0 lx2 = CHR ''[''")
        case True
        then have "lex_long_string level (skip lx2) = Inr (t, lx')" using b by simp
        then obtain o2 n2 where "long_loop level (if curr_is_newline (skip lx2) then incline (skip lx2) else skip lx2) []
            (''['' @ replicate level (CHR ''='') @ ''['') = Inr (lx', o2, n2)" and tk: "tk_kind t = TkString"
          by (auto simp: lex_long_string_def rbind_eq_Inr new_token_def)
        then have "moves (skip lx2) lx'"
          by (cases "curr_is_newline (skip lx2)") (auto dest!: long_loop_moves intro: moves_trans [OF incline_moves])
        then show ?thesis using moves_trans [OF mk moves_skip] tk by simp
      next
        case False
        then show ?thesis using b mk by (auto split: if_splits)
      qed
    next
      case name
      then have "(Inr (ident_or_kw lx) :: (token \<times> lexer) result) = Inr (t, lx')"
        using assms unfolding l by (simp only: if_True if_False)
      then have i: "ident_or_kw lx = (t, lx')" by simp
      then have "moves (skip lx) lx'"
        using read_while_skip [OF ne, of "\<lambda>c. isalnum c \<or> c = CHR ''_''"] name(1)
        by (auto simp: ident_or_kw_def Let_def case_prod_unfold isalnum_def)
      then show ?thesis using i by (auto simp: ident_or_kw_def Let_def case_prod_unfold new_token_def split: option.splits)
    next
      case sym
      have "(case lex_symbol ?c (skip lx) of
                (Some sy, lx2) \<Rightarrow> Inr ((new_token TkEnd lx)\<lparr>tk_kind := TkSym sy\<rparr>, lx2)
              | (None, lx2) \<Rightarrow> Inr ((new_token TkEnd lx)\<lparr>tk_kind := TkChar, tk_integer := of_char ?c\<rparr>, lx2)) = (Inr (t, lx') :: (token \<times> lexer) result)"
        using assms sym unfolding l by (simp only: if_False)
      then have "lx' = snd (lex_symbol ?c (skip lx))" "tk_kind t \<noteq> TkEnd"
        by (auto split: prod.splits option.splits)
      then show ?thesis using lex_symbol_moves [of "skip lx" ?c] by simp
    qed
    then show ?thesis using fin by simp
  qed
qed

section \<open>All the tokens of a source\<close>

text \<open>The loop of the parser's client: tokens up to the end of the source.\<close>

function tokenize :: "strtod_fun \<Rightarrow> lexer \<Rightarrow> token list result" where
  "tokenize strtod lx =
     (case lex_one strtod lx of
        Inl e \<Rightarrow> Inl e
      | Inr (t, lx') \<Rightarrow> if tk_kind t = TkEnd then Inr [t] else rbind (tokenize strtod lx') (\<lambda>ts. Inr (t # ts)))"
  by pat_completeness auto
termination
proof (relation "measure (\<lambda>(_, lx). lx_rem lx)")
  fix strtod lx r t lx'
  assume "lex_one strtod lx = Inr r" "(t, lx') = r" "tk_kind t \<noteq> TkEnd"
  then show "((strtod, lx'), strtod, lx) \<in> measure (\<lambda>(_, lx). lx_rem lx)"
    using lex_one_progress [of strtod lx t lx'] by auto
qed simp

declare tokenize.simps [simp del]

lemma tokenize_shape:
  "tokenize strtod lx = Inr ts \<Longrightarrow>
    length ts \<le> lx_rem lx + 1 \<and> ts \<noteq> [] \<and> tk_kind (last ts) = TkEnd \<and> (\<forall>t \<in> set (butlast ts). tk_kind t \<noteq> TkEnd)"
proof (induction strtod lx arbitrary: ts rule: tokenize.induct)
  case (1 strtod lx)
  obtain t lx' where l: "lex_one strtod lx = Inr (t, lx')"
    using "1.prems" by (cases "lex_one strtod lx") (auto simp: tokenize.simps)
  show ?case
  proof (cases "tk_kind t = TkEnd")
    case True
    then show ?thesis using "1.prems" l by (subst (asm) tokenize.simps) auto
  next
    case False
    then obtain ts' where ts: "tokenize strtod lx' = Inr ts'" "ts = t # ts'"
      using "1.prems" l by (subst (asm) tokenize.simps) (auto simp: rbind_eq_Inr)
    then show ?thesis using "1.IH" [OF l refl False ts(1)] lex_one_progress [OF l] False by auto
  qed
qed

text \<open>C23: the lexer always makes progress. Every token but the last consumes source text, so reading
  a source to its end terminates: it raises an error or gives at most one token per byte plus the
  end token, which comes last and only there.\<close>

theorem tokenize_bounded:
  assumes "tokenize strtod (lexer_new src) = Inr ts"
  shows "length ts \<le> length src + 1 \<and> tk_kind (last ts) = TkEnd \<and> (\<forall>t \<in> set (butlast ts). tk_kind t \<noteq> TkEnd)"
proof -
  have "lx_rem (lexer_new src) \<le> length src" by (simp add: lexer_new_def lx_rem_def Let_def)
  then show ?thesis using tokenize_shape [OF assms] by auto
qed

text \<open>The tokens of a single semicolon.\<close>

lemma semi_tokens: "\<exists>ts. tokenize strtod (lexer_new '';'') = Inr ts"
proof -
  define l0 where "l0 = lexer_new '';''"
  have l: "l0 = \<lparr>lx_src = '';'', lx_pos = 0, lx_line = 1, lx_col = 1\<rparr>" by (simp add: l0_def lexer_new_def)
  have p: "peek_char 0 l0 = CHR '';''" "\<not> eos l0" by (simp_all add: l peek_char_def eos_def)
  have s: "skip l0 = \<lparr>lx_src = '';'', lx_pos = 1, lx_line = 1, lx_col = 2\<rparr>" by (simp add: l skip_def get_def eos_def Let_def)
  have e: "eos (skip l0)" "peek_char 0 (skip l0) = NUL" by (simp_all add: s peek_char_def eos_def)
  have w: "skip_whitespace_and_comments l0 = Inr l0" "skip_whitespace_and_comments (skip l0) = Inr (skip l0)"
    using p e by (subst skip_whitespace_and_comments.simps; simp add: blank_def curr_is_newline_def)+
  have "lex_symbol (CHR '';'') (skip l0) = (Some Semi, skip l0)" by (simp add: lex_symbol_def single_symbols_def)
  then have "\<exists>t. lex_one strtod l0 = Inr (t, skip l0) \<and> tk_kind t = TkSym Semi"
    using p w by (simp add: lex_one_def Let_def isdigit_def isalpha_def isupper_def islower_def)
  moreover have "\<exists>t. lex_one strtod (skip l0) = Inr (t, skip l0) \<and> tk_kind t = TkEnd"
    using e w by (simp add: lex_one_def Let_def new_token_def)
  ultimately show ?thesis
    unfolding l0_def [symmetric] by (auto simp: tokenize.simps [of strtod l0] tokenize.simps [of strtod "skip l0"])
qed

theorem tokenize_bounded_witness:
  "\<exists>ts. tokenize (\<lambda>_. (0, 0)) (lexer_new '';'') = Inr ts \<and> length ts \<le> 2 \<and> tk_kind (last ts) = TkEnd"
proof -
  obtain ts where "tokenize (\<lambda>_. (0, 0)) (lexer_new '';'') = Inr ts" using semi_tokens by blast
  then show ?thesis using tokenize_bounded [of "\<lambda>_. (0, 0)" "'';''" ts] by auto
qed

end
