(* ===== verification/Lt_Quote.thy ===== *)
theory Lt_Quote
  imports Lt_LexerProps
begin

text \<open>
  The \<open>%q\<close> conversion of \<open>string.format\<close> (\<open>format_quote\<close> of \<open>src/lib/lstrlib.cpp\<close>) against the lexer:
  the quoted form of any byte string is one string token with that value.
\<close>

section \<open>Quoting\<close>

definition iscntrl :: "char \<Rightarrow> bool" where
  "iscntrl c \<longleftrightarrow> (of_char c :: nat) < 32 \<or> (of_char c :: nat) = 127"

text \<open>\<open>printf("%03d")\<close>\<close>

definition dec3 :: "nat \<Rightarrow> string" where
  "dec3 n = replicate (3 - length (dec_nat n)) (CHR ''0'') @ dec_nat n"

fun quote_body :: "string \<Rightarrow> string" where
  "quote_body [] = []"
| "quote_body (c # s) =
     (if c = DQUOTE \<or> c = BSLASH \<or> c = LF then [BSLASH, c]
      else if iscntrl c then BSLASH # (if s \<noteq> [] \<and> isdigit (hd s) then dec3 (of_char c) else dec_nat (of_char c))
      else [c]) @ quote_body s"

definition format_quote :: "string \<Rightarrow> string" where
  "format_quote s = DQUOTE # quote_body s @ [DQUOTE]"

section \<open>The text that is left\<close>

definition rest :: "lexer \<Rightarrow> string" where
  "rest lx = drop (lx_pos lx) (lx_src lx)"

lemma eos_rest: "eos lx \<longleftrightarrow> rest lx = []"
  by (simp add: eos_def rest_def)

lemma rest_Cons: "rest lx = c # r \<Longrightarrow> lx_pos lx < length (lx_src lx) \<and> lx_src lx ! lx_pos lx = c \<and> drop (Suc (lx_pos lx)) (lx_src lx) = r"
  unfolding rest_def by (cases "lx_pos lx < length (lx_src lx)") (simp_all add: Cons_nth_drop_Suc [symmetric])

lemma peek_rest: "rest lx = c # r \<Longrightarrow> peek_char 0 lx = c"
  by (drule rest_Cons) (simp add: peek_char_def)

lemma skip_rest: "rest lx = c # r \<Longrightarrow> rest (skip lx) = r"
  by (drule rest_Cons) (simp add: rest_def skip_def get_def eos_def Let_def)

lemma incline_rest: "rest lx = LF # r \<Longrightarrow> r = [] \<or> hd r \<noteq> CR \<Longrightarrow> rest (incline lx) = r"
proof -
  assume a: "rest lx = LF # r" and r: "r = [] \<or> hd r \<noteq> CR"
  have s: "rest (skip lx) = r" using skip_rest [OF a] .
  have "\<not> (curr_is_newline (skip lx) \<and> peek_char 0 (skip lx) \<noteq> LF)"
    using r s peek_rest [of "skip lx"] peek_eos [of "skip lx" 0] eos_rest [of "skip lx"] by (cases r) (auto simp: curr_is_newline_def)
  then show ?thesis using s peek_rest [OF a] by (auto simp: incline_def get_skip Let_def rest_def)
qed

lemma peek_digit_rest: "isdigit (peek_char 0 lx) \<longleftrightarrow> rest lx \<noteq> [] \<and> isdigit (hd (rest lx))"
proof (cases "rest lx")
  case Nil
  then have "peek_char 0 lx = NUL" using peek_eos eos_rest by simp
  then show ?thesis using Nil by (simp add: isdigit_def)
next
  case (Cons c r)
  then show ?thesis using peek_rest [OF Cons] by simp
qed

text \<open>A decimal escape reads up to three digits.\<close>

lemma dec_escape_rest:
  assumes r: "rest lx = ds @ r" and d: "\<forall>c \<in> set ds. isdigit c" and l: "length ds \<le> 2"
    and stop: "length ds = 2 \<or> r = [] \<or> \<not> isdigit (hd r)" and v: "dec_val (e # ds) \<le> 255"
  shows "\<exists>lx'. dec_escape e (lx, out, save) = Inr (lx', out @ [char_of (dec_val (e # ds))], save @ ds) \<and> rest lx' = r"
proof -
  have cs: "ds = [] \<or> (\<exists>a. ds = [a]) \<or> (\<exists>a b. ds = [a, b])"
    using l by (cases ds; cases "tl ds") (auto simp: Suc_le_eq)
  have pd: "\<not> isdigit (peek_char 0 l)" if "rest l = r" "length ds \<noteq> 2" for l
    using peek_digit_rest [of l] that stop by auto
  from cs show ?thesis
  proof (elim disjE exE)
    assume "ds = []"
    then show ?thesis using r v pd [of lx] by (intro exI [of _ lx]) (simp add: dec_escape_def Let_def)
  next
    fix a assume a: "ds = [a]"
    then have s: "rest lx = a # r" using r by simp
    show ?thesis using a d v peek_rest [OF s] skip_rest [OF s] pd [OF skip_rest [OF s]]
      by (intro exI [of _ "skip lx"]) (simp add: dec_escape_def Let_def)
  next
    fix a b assume a: "ds = [a, b]"
    then have s: "rest lx = a # b # r" using r by simp
    note s2 = skip_rest [OF s]
    show ?thesis using a d v peek_rest [OF s] peek_rest [OF s2] skip_rest [OF s2]
      by (intro exI [of _ "skip (skip lx)"]) (simp add: dec_escape_def Let_def)
  qed
qed

section \<open>Digits of an escape\<close>

lemma dec_val_zeros: "dec_val (replicate n (CHR ''0'') @ ds) = dec_val ds"
  by (induction n) (simp_all add: dec_val_def)

lemma length_dec_nat: "length (dec_nat n) = (if n < 10 then 1 else Suc (length (dec_nat (n div 10))))"
  by (subst dec_nat.simps) simp

lemma length_dec_nat_small: "n < 1000 \<Longrightarrow> length (dec_nat n) \<le> 3"
proof -
  assume "n < 1000"
  then have "n div 10 div 10 < 10" by (simp add: div_mult2_eq [symmetric] less_mult_imp_div_less)
  then show ?thesis
    using length_dec_nat [of n] length_dec_nat [of "n div 10"] length_dec_nat [of "n div 10 div 10"] by (simp split: if_splits)
qed

lemma isdigit_zero: "isdigit (CHR ''0'')"
  by (simp add: isdigit_def)

lemma dec3_digits: "n < 1000 \<Longrightarrow> length (dec3 n) = 3 \<and> (\<forall>c \<in> set (dec3 n). isdigit c) \<and> dec_val (dec3 n) = n"
  using length_dec_nat_small [of n] dec_nat_digits [of n]
  by (auto simp: dec3_def dec_val_zeros dec_val_dec_nat isdigit_zero)

lemma digits_split:
  assumes "ds \<noteq> []" "\<forall>c \<in> set ds. isdigit c" "length ds \<le> 3" "dec_val ds \<le> 255" "rest lx = ds @ r"
    and "length ds = 3 \<or> r = [] \<or> \<not> isdigit (hd r)"
  shows "\<exists>lx'. read_escape (lx, out, save) = Inr (lx', out @ [char_of (dec_val ds)], save @ ds) \<and> rest lx' = r"
proof -
  obtain e es where ds: "ds = e # es" using assms(1) by (cases ds) auto
  then have r: "rest lx = e # es @ r" using assms(5) by simp
  have e: "isdigit e" using assms(2) ds by simp
  have n: "\<not> eos lx" "\<not> curr_is_newline lx" "peek_char 0 lx = e"
    using r peek_rest [OF r] e by (auto simp: eos_rest curr_is_newline_def isdigit_def)
  have "simple_escape e = None" using e unfolding simple_escape_def map_of_eq_None_iff by (auto simp: isdigit_def)
  moreover have "e \<noteq> CHR ''x''" "e \<noteq> CHR ''u''" "e \<noteq> CHR ''z''" using e by (auto simp: isdigit_def)
  ultimately have "read_escape (lx, out, save) = dec_escape e (skip lx, out, save @ [e])"
    using n e by (simp add: read_escape_def Let_def)
  moreover have "\<exists>lx'. dec_escape e (skip lx, out, save @ [e]) = Inr (lx', out @ [char_of (dec_val (e # es))], (save @ [e]) @ es) \<and> rest lx' = r"
    by (rule dec_escape_rest) (use assms(2,3,4,6) ds skip_rest [OF r] in auto)
  ultimately show ?thesis using ds by simp
qed

section \<open>Reading back\<close>

lemma quote_head: "quote_body s @ DQUOTE # post = c # r \<Longrightarrow> c \<noteq> CR \<and> (isdigit c \<longrightarrow> s \<noteq> [] \<and> isdigit (hd s))"
  by (cases s) (auto simp: isdigit_def iscntrl_def split: if_splits)

lemma str_loop_quote:
  "rest lx = quote_body s @ DQUOTE # post \<Longrightarrow>
    \<exists>lx' save'. str_loop DQUOTE lx out save = Inr (lx', out @ s, save') \<and> rest lx' = post"
proof (induction s arbitrary: lx out save)
  case Nil
  then have r: "rest lx = DQUOTE # post" by simp
  then have "\<not> eos lx" "\<not> curr_is_newline lx" using peek_rest [OF r] by (auto simp: eos_rest curr_is_newline_def)
  then show ?case using peek_rest [OF r] skip_rest [OF r] by (subst str_loop.simps) (simp add: Let_def)
next
  case (Cons c s)
  define q where "q = quote_body s @ DQUOTE # post"
  have qh: "q = [] \<or> hd q \<noteq> CR" using quote_head [of s post] by (cases q) (auto simp: q_def)
  have step: ?case if e: "read_escape (skip lx, out, save @ [BSLASH]) = Inr (lx2, out @ [c], save2)" "rest lx2 = q"
      and r: "rest lx = BSLASH # r" for lx2 save2 r
  proof -
    have "\<not> eos lx" "\<not> curr_is_newline lx" using r peek_rest [OF r] by (auto simp: eos_rest curr_is_newline_def)
    then have "str_loop DQUOTE lx out save = str_loop DQUOTE lx2 (out @ [c]) save2"
      using peek_rest [OF r] e(1) by (subst str_loop.simps) (simp add: Let_def)
    then show ?thesis using Cons.IH [of lx2 "out @ [c]" save2] e(2) by (simp add: q_def)
  qed
  consider (quote) "c = DQUOTE \<or> c = BSLASH" | (lf) "c = LF" | (cntrl) "c \<noteq> DQUOTE" "c \<noteq> BSLASH" "c \<noteq> LF" "iscntrl c"
    | (raw) "c \<noteq> DQUOTE" "c \<noteq> BSLASH" "c \<noteq> LF" "\<not> iscntrl c" by blast
  then show ?case
  proof cases
    case quote
    then have r: "rest lx = BSLASH # c # q" using Cons.prems by (auto simp: q_def)
    note s1 = skip_rest [OF r]
    have "\<not> eos (skip lx)" "\<not> curr_is_newline (skip lx)" "peek_char 0 (skip lx) = c"
      using s1 peek_rest [OF s1] quote by (auto simp: eos_rest curr_is_newline_def)
    then have "read_escape (skip lx, out, save @ [BSLASH]) = Inr (skip (skip lx), out @ [c], (save @ [BSLASH]) @ [c])"
      using quote by (auto simp: read_escape_def simple_escape_def Let_def)
    then show ?thesis using step [OF _ skip_rest [OF s1] r] by blast
  next
    case lf
    then have r: "rest lx = BSLASH # LF # q" using Cons.prems by (auto simp: q_def)
    note s1 = skip_rest [OF r]
    have "\<not> eos (skip lx)" "curr_is_newline (skip lx)"
      using s1 peek_rest [OF s1] by (auto simp: eos_rest curr_is_newline_def)
    then have "read_escape (skip lx, out, save @ [BSLASH]) = Inr (incline (skip lx), out @ [c], butlast (save @ [BSLASH]) @ [LF])"
      using lf by (simp add: read_escape_def)
    then show ?thesis using step [OF _ incline_rest [OF s1 qh] r] by blast
  next
    case cntrl
    define ds where "ds = (if s \<noteq> [] \<and> isdigit (hd s) then dec3 (of_char c) else dec_nat (of_char c))"
    have r: "rest lx = BSLASH # ds @ q" using Cons.prems cntrl by (auto simp: q_def ds_def)
    have n: "(of_char c :: nat) < 128" using cntrl(4) by (auto simp: iscntrl_def)
    have d: "ds \<noteq> [] \<and> (\<forall>c \<in> set ds. isdigit c) \<and> length ds \<le> 3 \<and> dec_val ds = of_char c"
      using n dec3_digits [of "of_char c"] dec_nat_digits [of "of_char c"] length_dec_nat_small [of "of_char c"]
      by (auto simp: ds_def dec_val_dec_nat)
    have stop: "length ds = 3 \<or> q = [] \<or> \<not> isdigit (hd q)"
      using n dec3_digits [of "of_char c"] quote_head [of s post] by (cases q) (auto simp: ds_def q_def)
    obtain lx2 save2 where e: "read_escape (skip lx, out, save @ [BSLASH]) = Inr (lx2, out @ [char_of (dec_val ds)], save2)" "rest lx2 = q"
      using digits_split [of ds "skip lx" q out "save @ [BSLASH]"] d n stop skip_rest [OF r] by auto
    then show ?thesis using step [OF _ e(2) r] d by simp
  next
    case raw
    then have r: "rest lx = c # q" using Cons.prems by (auto simp: q_def)
    have "\<not> eos lx" "\<not> curr_is_newline lx" "peek_char 0 lx = c"
      using r peek_rest [OF r] raw by (auto simp: eos_rest curr_is_newline_def iscntrl_def)
    then have "str_loop DQUOTE lx out save = str_loop DQUOTE (skip lx) (out @ [c]) (save @ [c])"
      using raw by (subst str_loop.simps) (simp add: Let_def)
    then show ?thesis using Cons.IH [of "skip lx" "out @ [c]" "save @ [c]"] skip_rest [OF r] by (simp add: q_def)
  qed
qed

text \<open>C24: quoting is inverted by the lexer. The text of \<open>string.format("%q", s)\<close> is read as one string
  token whose value is \<open>s\<close>, for every byte string \<open>s\<close>: quotes, backslashes, newlines, NULs and control
  characters before digits included.\<close>

theorem quote_lexes_back:
  "\<exists>t lx. lex_one strtod (lexer_new (format_quote s)) = Inr (t, lx) \<and> tk_kind t = TkString \<and> tk_text t = s \<and> eos lx"
proof -
  define lx0 where "lx0 = lexer_new (format_quote s)"
  have r: "rest lx0 = DQUOTE # quote_body s @ [DQUOTE]" by (simp add: lx0_def lexer_new_def format_quote_def rest_def)
  have p: "\<not> eos lx0" "peek_char 0 lx0 = DQUOTE" using r peek_rest [OF r] by (auto simp: eos_rest)
  have ws: "skip_whitespace_and_comments lx0 = Inr lx0"
    using p by (subst skip_whitespace_and_comments.simps) (simp add: blank_def curr_is_newline_def)
  obtain lx' save' where "str_loop DQUOTE (skip lx0) [] [DQUOTE] = Inr (lx', [] @ s, save')" "rest lx' = []"
    using str_loop_quote [of "skip lx0" s "[]" "[]" "[DQUOTE]"] skip_rest [OF r] by auto
  then show ?thesis
    using p ws by (simp add: lex_one_def lx0_def [symmetric] Let_def isdigit_def lex_string_def new_token_def eos_rest)
qed

end
