(* ===== verification/Lt_Dump.thy ===== *)
theory Lt_Dump
  imports Lt_Heap "HOL-Library.Sublist"
begin

text \<open>
  Binary chunks: \<open>src/lib/ldump.cpp\<close>. \<open>Writer\<close> appends to a byte buffer, so every write is the bytes
  it appends; \<open>Reader\<close> is what is left of the blob, beside the string table in which
  \<open>L->intern\<close> puts string constants. A prototype and the prototypes nested in it form a tree
  (\<open>lowering.cpp\<close> creates each of them for one parent); a node keeps the fields of \<open>Proto\<close> with its
  children beside them instead of their addresses. \<open>alloc\<close> is the address a new string gets.
\<close>

datatype ptree = PTree proto "ptree list"

section \<open>Writer\<close>

definition wr_u8 :: "u8 \<Rightarrow> string" where
  "wr_u8 v = [char_of (unat v)]"

definition wr_u32 :: "u32 \<Rightarrow> string" where
  "wr_u32 v = concat (map (\<lambda>i. wr_u8 (ucast (drop_bit (i * 8) v AND 0xFF))) [0..<4])"

definition wr_u64 :: "u64 \<Rightarrow> string" where
  "wr_u64 v = concat (map (\<lambda>i. wr_u8 (ucast (drop_bit (i * 8) v AND 0xFF))) [0..<8])"

definition wr_str :: "string \<Rightarrow> string" where
  "wr_str s = wr_u32 (of_nat (length s)) @ s"

text \<open>\<open>static_cast<uint32_t>\<close> of an \<open>int\<close>, and back\<close>

definition wr_int :: "int \<Rightarrow> string" where
  "wr_int i = wr_u32 (word_of_int i)"

definition tag_u8 :: "value_tag \<Rightarrow> u8" where
  "tag_u8 t = ucast (tag_code t)"

fun write_const :: "str_heap \<Rightarrow> tvalue \<Rightarrow> string result" where
  "write_const H VNil = Inr (wr_u8 (tag_u8 TagNil))"
| "write_const H (VBool b) = Inr (wr_u8 (tag_u8 TagBool) @ wr_u8 (if b then 1 else 0))"
| "write_const H (VInt n) = Inr (wr_u8 (tag_u8 TagInt) @ wr_u64 n)"
| "write_const H (VFloat d) = Inr (wr_u8 (tag_u8 TagFloat) @ wr_u64 d)"
| "write_const H (VString p) = Inr (wr_u8 (tag_u8 TagString) @ wr_str (ls_data (H p)))"
| "write_const H _ = panic ''dump: unsupported constant type''"

text \<open>A loop that writes every element, stopped by the first error.\<close>

fun write_all :: "('a \<Rightarrow> string result) \<Rightarrow> 'a list \<Rightarrow> string result" where
  "write_all f [] = Inr []"
| "write_all f (x # xs) = rbind (f x) (\<lambda>w. rbind (write_all f xs) (\<lambda>ws. Inr (w @ ws)))"

lemma write_all_cong [fundef_cong]:
  "xs = ys \<Longrightarrow> (\<And>x. x \<in> set ys \<Longrightarrow> f x = g x) \<Longrightarrow> write_all f xs = write_all g ys"
  by (induction ys arbitrary: xs) auto

definition wr_upval :: "bool \<Rightarrow> upval_desc \<Rightarrow> string" where
  "wr_upval strip uv =
     wr_u8 (if ud_instack uv then 1 else 0) @ wr_u8 (ud_idx uv) @ wr_str (if strip then [] else ud_name uv)"

definition wr_locvar :: "loc_var \<Rightarrow> string" where
  "wr_locvar lv = wr_str (lv_name lv) @ wr_int (lv_reg lv) @ wr_int (lv_startpc lv) @ wr_int (lv_endpc lv)"

definition wr_debug :: "bool \<Rightarrow> proto \<Rightarrow> string" where
  "wr_debug strip p =
     (if strip then wr_u32 0 @ wr_u32 0
      else wr_u32 (of_nat (length (p_lineinfo p))) @ concat (map wr_int (p_lineinfo p)) @
           wr_u32 (of_nat (length (p_locvars p))) @ concat (map wr_locvar (p_locvars p)))"

fun write_proto :: "str_heap \<Rightarrow> bool \<Rightarrow> string option \<Rightarrow> ptree \<Rightarrow> string result" where
  "write_proto H strip parent_source (PTree p protos) =
     rbind (write_all (write_const H) (p_constants p)) (\<lambda>ks.
     let effective_source = (if strip then ''=?'' else p_source p) in
     rbind (write_all (\<lambda>q. write_proto H strip (Some effective_source) q) protos) (\<lambda>ps.
     Inr (wr_int (p_numparams p) @ wr_u8 (if p_is_vararg p then 1 else 0) @ wr_int (p_maxstack p) @
       wr_u32 (of_nat (length (p_code p))) @ concat (map wr_u32 (p_code p)) @
       wr_u32 (of_nat (length (p_constants p))) @ ks @
       wr_str (if parent_source = Some effective_source then [] else effective_source) @
       wr_int (p_linedefined p) @ wr_int (p_lastlinedefined p) @
       wr_u32 (of_nat (length protos)) @ ps @
       wr_u32 (of_nat (length (p_upvalues p))) @ concat (map (wr_upval strip) (p_upvalues p)) @
       wr_debug strip p)))"

definition kLuaSig :: string where "kLuaSig = [CHR 0x1B, CHR ''L'', CHR ''u'', CHR ''a'']"
definition kLuacVersion :: u8 where "kLuacVersion = 0x53"
definition kLuacFormat :: u8 where "kLuacFormat = 0"
definition kLuacData :: string where "kLuacData = [CHR 0x19, CHR 0x93, CHR 0x0D, CHR 0x0A, CHR 0x1A, CHR 0x0A]"
definition kLuacInt :: u64 where "kLuacInt = 0x5678"

text \<open>370.5\<close>

definition kLuacNum :: f64 where "kLuacNum = 0x4077280000000000"

definition wr_header :: string where
  "wr_header =
     kLuaSig @ wr_u8 kLuacVersion @ wr_u8 kLuacFormat @ kLuacData @
     wr_u8 4 @ wr_u8 8 @ wr_u8 4 @ wr_u8 8 @ wr_u8 8 @ wr_u64 kLuacInt @ wr_u64 kLuacNum"

definition dump_proto :: "str_heap \<Rightarrow> ptree \<Rightarrow> bool \<Rightarrow> string result" where
  "dump_proto H t strip =
     (case t of PTree p _ \<Rightarrow>
        rbind (write_proto H strip None t) (\<lambda>body.
          Inr (wr_header @ wr_u8 (of_nat (length (p_upvalues p))) @ wr_u8 (if strip then 1 else 0) @ body)))"

section \<open>Reader\<close>

type_synonym strs = "str_heap \<times> string_table"
type_synonym rd_state = "string \<times> strs"
type_synonym 'a reader = "rd_state \<Rightarrow> ('a \<times> rd_state) result"

definition rd_ret :: "'a \<Rightarrow> 'a reader" where
  "rd_ret x r = Inr (x, r)"

definition rd_panic :: "string \<Rightarrow> 'a reader" where
  "rd_panic msg r = panic msg"

definition rd_bind :: "'a reader \<Rightarrow> ('a \<Rightarrow> 'b reader) \<Rightarrow> 'b reader" where
  "rd_bind m f r = rbind (m r) (\<lambda>(x, r'). f x r')"

fun rd_u8 :: "u8 reader" where
  "rd_u8 ([], HS) = panic ''truncated''"
| "rd_u8 (c # cs, HS) = Inr (of_nat (code c), (cs, HS))"

primrec rd_le :: "nat \<Rightarrow> nat \<Rightarrow> 'a::len word \<Rightarrow> 'a word reader" where
  "rd_le 0 i v = rd_ret v"
| "rd_le (Suc n) i v = rd_bind rd_u8 (\<lambda>b. rd_le n (Suc i) (v OR push_bit (i * 8) (ucast b)))"

definition rd_u32 :: "u32 reader" where
  "rd_u32 = rd_le 4 0 0"

definition rd_u64 :: "u64 reader" where
  "rd_u64 = rd_le 8 0 0"

definition rd_int :: "int reader" where
  "rd_int = rd_bind rd_u32 (\<lambda>v. rd_ret (sint v))"

definition rd_bool :: "bool reader" where
  "rd_bool = rd_bind rd_u8 (\<lambda>b. rd_ret (b \<noteq> 0))"

definition rd_take :: "nat \<Rightarrow> string reader" where
  "rd_take n r = (if length (fst r) < n then panic ''truncated'' else Inr (take n (fst r), (drop n (fst r), snd r)))"

definition rd_str :: "string reader" where
  "rd_str = rd_bind rd_u32 (\<lambda>n. rd_take (unat n))"

fun expect_bytes :: "string \<Rightarrow> string \<Rightarrow> unit reader" where
  "expect_bytes [] what (cs, HS) = Inr ((), (cs, HS))"
| "expect_bytes (e # es) what ([], HS) = panic ''truncated''"
| "expect_bytes (e # es) what (c # cs, HS) = (if c \<noteq> e then panic what else expect_bytes es what (cs, HS))"

definition rd_intern :: "(strs \<Rightarrow> ptr) \<Rightarrow> string \<Rightarrow> ptr reader" where
  "rd_intern alloc s r = (let (p, HS) = st_intern (alloc (snd r)) s (snd r) in Inr (p, (fst r, HS)))"

definition read_const :: "(strs \<Rightarrow> ptr) \<Rightarrow> tvalue reader" where
  "read_const alloc =
     rd_bind rd_u8 (\<lambda>tag.
       if tag = tag_u8 TagNil then rd_ret VNil
       else if tag = tag_u8 TagBool then rd_bind rd_bool (\<lambda>b. rd_ret (VBool b))
       else if tag = tag_u8 TagInt then rd_bind rd_u64 (\<lambda>n. rd_ret (VInt n))
       else if tag = tag_u8 TagFloat then rd_bind rd_u64 (\<lambda>d. rd_ret (VFloat d))
       else if tag = tag_u8 TagString then
         rd_bind rd_str (\<lambda>s. rd_bind (rd_intern alloc s) (\<lambda>p. rd_ret (VString p)))
       else rd_panic ''undump: bad constant tag'')"

text \<open>A counted loop that fills a vector.\<close>

primrec rd_times :: "nat \<Rightarrow> 'a reader \<Rightarrow> 'a list reader" where
  "rd_times 0 m = rd_ret []"
| "rd_times (Suc n) m = rd_bind m (\<lambda>x. rd_bind (rd_times n m) (\<lambda>xs. rd_ret (x # xs)))"

definition rd_vec :: "'a reader \<Rightarrow> 'a list reader" where
  "rd_vec m = rd_bind rd_u32 (\<lambda>n. rd_times (unat n) m)"

definition rd_upval :: "upval_desc reader" where
  "rd_upval =
     rd_bind rd_bool (\<lambda>instack. rd_bind rd_u8 (\<lambda>idx. rd_bind rd_str (\<lambda>name.
     rd_ret \<lparr>ud_instack = instack, ud_idx = idx, ud_name = name\<rparr>)))"

definition rd_locvar :: "loc_var reader" where
  "rd_locvar =
     rd_bind rd_str (\<lambda>name. rd_bind rd_int (\<lambda>reg. rd_bind rd_int (\<lambda>startpc. rd_bind rd_int (\<lambda>endpc.
     rd_ret \<lparr>lv_name = name, lv_reg = reg, lv_startpc = startpc, lv_endpc = endpc\<rparr>))))"

text \<open>The first argument bounds the nesting. Every level reads at least one byte, so the length of
  the blob is enough (\<open>read_proto_fuel\<close> below).\<close>

primrec read_proto :: "nat \<Rightarrow> (strs \<Rightarrow> ptr) \<Rightarrow> string \<Rightarrow> ptree reader" where
  "read_proto 0 alloc parent_source = rd_panic ''truncated''"
| "read_proto (Suc d) alloc parent_source =
     rd_bind rd_int (\<lambda>numparams. rd_bind rd_bool (\<lambda>is_vararg. rd_bind rd_int (\<lambda>maxstack.
     rd_bind (rd_vec rd_u32) (\<lambda>code.
     rd_bind (rd_vec (read_const alloc)) (\<lambda>constants.
     rd_bind rd_str (\<lambda>src. let source = (if src = [] then parent_source else src) in
     rd_bind rd_int (\<lambda>linedefined. rd_bind rd_int (\<lambda>lastlinedefined.
     rd_bind (rd_vec (read_proto d alloc source)) (\<lambda>protos.
     rd_bind (rd_vec rd_upval) (\<lambda>upvalues.
     rd_bind (rd_vec rd_int) (\<lambda>lineinfo.
     rd_bind (rd_vec rd_locvar) (\<lambda>locvars.
     rd_ret (PTree \<lparr>p_code = code, p_constants = constants, p_protos = [], p_upvalues = upvalues,
        p_lineinfo = lineinfo, p_locvars = locvars, p_source = source, p_linedefined = linedefined,
        p_lastlinedefined = lastlinedefined, p_maxstack = maxstack, p_numparams = numparams,
        p_is_vararg = is_vararg\<rparr> protos)))))))))))))"

definition rd_expect_u8 :: "u8 \<Rightarrow> string \<Rightarrow> unit reader" where
  "rd_expect_u8 k what = rd_bind rd_u8 (\<lambda>b. if b \<noteq> k then rd_panic what else rd_ret ())"

definition check_header :: "unit reader" where
  "check_header =
     rd_bind (expect_bytes kLuaSig ''not a binary chunk'') (\<lambda>_.
     rd_bind (rd_expect_u8 kLuacVersion ''version mismatch'') (\<lambda>_.
     rd_bind (rd_expect_u8 kLuacFormat ''format mismatch'') (\<lambda>_.
     rd_bind (expect_bytes kLuacData ''corrupted'') (\<lambda>_.
     rd_bind (rd_expect_u8 4 ''int size mismatch'') (\<lambda>_.
     rd_bind (rd_expect_u8 8 ''size_t size mismatch'') (\<lambda>_.
     rd_bind (rd_expect_u8 4 ''instruction size mismatch'') (\<lambda>_.
     rd_bind (rd_expect_u8 8 ''lua_Integer size mismatch'') (\<lambda>_.
     rd_bind (rd_expect_u8 8 ''lua_Number size mismatch'') (\<lambda>_.
     rd_bind rd_u64 (\<lambda>n. if n \<noteq> kLuacInt then rd_panic ''endianness mismatch'' else
     rd_bind rd_u64 (\<lambda>d. if \<not> f_eq d kLuacNum then rd_panic ''float format mismatch'' else rd_ret ())))))))))))"

definition is_proto_dump :: "string \<Rightarrow> bool" where
  "is_proto_dump blob \<longleftrightarrow> blob \<noteq> [] \<and> hd blob = CHR 0x1B"

definition undump_proto :: "(strs \<Rightarrow> ptr) \<Rightarrow> string \<Rightarrow> string \<Rightarrow> strs \<Rightarrow> (ptree \<times> strs) result" where
  "undump_proto alloc blob name HS =
     (if blob = [] \<or> hd blob \<noteq> CHR 0x1B then panic ''not a binary chunk''
      else rbind (rd_bind check_header (\<lambda>_. rd_bind rd_u8 (\<lambda>_. rd_bind rd_bool (\<lambda>strip.
             read_proto (length blob) alloc name))) (blob, HS)) (\<lambda>(t, (_, HS')). Inr (t, HS')))"

section \<open>Readers that undo a writer\<close>

lemma tag_u8_simps [simp]:
  "tag_u8 TagNil = 0" "tag_u8 TagBool = 1" "tag_u8 TagInt = 2" "tag_u8 TagFloat = 3" "tag_u8 TagString = 4"
  by (simp_all add: tag_u8_def)

text \<open>The bytes \<open>w\<close> read back as \<open>x\<close>, whatever follows them, and no strict prefix of them does.\<close>

definition decodes :: "'a reader \<Rightarrow> string \<Rightarrow> strs \<Rightarrow> 'a \<Rightarrow> bool" where
  "decodes rd w HS x \<longleftrightarrow>
     (\<forall>s. rd (w @ s, HS) = Inr (x, (s, HS))) \<and> (\<forall>pre. strict_prefix pre w \<longrightarrow> rd (pre, HS) = panic ''truncated'')"

lemma strict_prefix_append_cases:
  assumes "strict_prefix pre (a @ b)"
  obtains "strict_prefix pre a" | t where "pre = a @ t" "strict_prefix t b"
proof (cases "prefix a pre")
  case True
  then obtain t where "pre = a @ t" by (auto simp: prefix_def)
  then show ?thesis using assms that(2) [of t] by (simp add: strict_prefix_def)
next
  case False
  then have "strict_prefix pre a" using assms by (metis prefix_append prefix_order.dual_order.strict_implies_order prefix_order.le_less prefixI)
  then show ?thesis by (rule that(1))
qed

lemma decodes_bind:
  assumes "decodes m w1 HS x" "decodes (f x) w2 HS y"
  shows "decodes (rd_bind m f) (w1 @ w2) HS y"
  unfolding decodes_def
proof (intro conjI allI impI)
  show "rd_bind m f ((w1 @ w2) @ s, HS) = Inr (y, s, HS)" for s
    using assms by (simp add: decodes_def rd_bind_def)
  fix pre assume "strict_prefix pre (w1 @ w2)"
  then show "rd_bind m f (pre, HS) = panic ''truncated''"
    using assms by (cases rule: strict_prefix_append_cases) (simp_all add: decodes_def rd_bind_def)
qed

lemma decodes_ret [simp]: "decodes (rd_ret x) [] HS x"
  by (simp add: decodes_def rd_ret_def)

lemma decodes_map: "decodes m w HS x \<Longrightarrow> decodes (rd_bind m (\<lambda>x. rd_ret (f x))) w HS (f x)"
  using decodes_bind [of m w HS x "\<lambda>x. rd_ret (f x)" "[]"] by simp

lemma decodes_u8: "decodes rd_u8 (wr_u8 v) HS v"
proof -
  have "of_nat (code (char_of (unat v) :: char)) = v"
    using unsigned_less [of v, where 'a = nat] by simp
  then show ?thesis by (auto simp: decodes_def wr_u8_def strict_prefix_def prefix_Cons)
qed

lemma take_bit_byte:
  "take_bit (i * 8) v OR push_bit (i * 8) (ucast (ucast (drop_bit (i * 8) v AND 0xFF) :: u8)) =
    take_bit (Suc i * 8) (v :: 'a::len word)"
proof (rule bit_word_eqI)
  fix n assume n: "n < LENGTH('a)"
  have "(0xFF :: 'a word) = mask 8" by (simp add: mask_eq_exp_minus_1)
  then have m: "x AND 0xFF = take_bit 8 x" for x :: "'a word" by (simp only: take_bit_eq_mask)
  show "bit (take_bit (i * 8) v OR push_bit (i * 8) (ucast (ucast (drop_bit (i * 8) v AND 0xFF) :: u8))) n =
    bit (take_bit (Suc i * 8) v) n"
    unfolding m using n by (auto simp: bit_simps)
qed

lemma decodes_le:
  "decodes (rd_le n i (take_bit (i * 8) v)) (concat (map (\<lambda>i. wr_u8 (ucast (drop_bit (i * 8) v AND 0xFF))) [i..<i + n])) HS
    (take_bit ((i + n) * 8) v)"
proof (induction n arbitrary: i)
  case (Suc n)
  have "[i..<i + Suc n] = i # [Suc i..<Suc i + n]" by (simp add: upt_rec)
  then show ?case
    using decodes_bind [OF decodes_u8, where f = "\<lambda>b. rd_le n (Suc i) (take_bit (i * 8) v OR push_bit (i * 8) (ucast b))"]
      Suc.IH [of "Suc i"] by (simp only: rd_le.simps list.map concat.simps take_bit_byte add_Suc add_Suc_right)
qed simp

lemma decodes_u32: "decodes rd_u32 (wr_u32 v) HS v"
  using decodes_le [of 4 0 v HS] by (simp add: rd_u32_def wr_u32_def take_bit_word_eq_self)

lemma decodes_u64: "decodes rd_u64 (wr_u64 v) HS v"
  using decodes_le [of 8 0 v HS] by (simp add: rd_u64_def wr_u64_def take_bit_word_eq_self)

definition fits_int :: "int \<Rightarrow> bool" where
  "fits_int i \<longleftrightarrow> - (2 ^ 31) \<le> i \<and> i < 2 ^ 31"

lemma sint_int: "fits_int i \<Longrightarrow> sint (word_of_int i :: u32) = i"
  by (simp add: fits_int_def signed_of_int signed_take_bit_int_eq_self)

lemma decodes_int: "fits_int i \<Longrightarrow> decodes rd_int (wr_int i) HS i"
  using decodes_map [OF decodes_u32 [of "word_of_int i" HS], of sint] sint_int [of i]
  by (simp only: rd_int_def wr_int_def)

lemma decodes_bool: "decodes rd_bool (wr_u8 (if b then 1 else 0)) HS b"
  using decodes_map [OF decodes_u8 [of "if b then 1 else 0" HS], of "\<lambda>b. b \<noteq> 0"] by (cases b) (simp_all add: rd_bool_def)

lemma decodes_take: "decodes (rd_take (length w)) w HS w"
  by (auto simp: decodes_def rd_take_def strict_prefix_def dest: prefix_length_less [unfolded strict_prefix_def, OF conjI])

definition fits_size :: "'a list \<Rightarrow> bool" where
  "fits_size xs \<longleftrightarrow> length xs < 2 ^ 32"

lemma unat_size: "fits_size xs \<Longrightarrow> unat (of_nat (length xs) :: u32) = length xs"
  by (simp add: fits_size_def unat_of_nat take_bit_nat_eq_self)

lemma decodes_str: "fits_size s \<Longrightarrow> decodes rd_str (wr_str s) HS s"
  unfolding rd_str_def wr_str_def by (rule decodes_bind [OF decodes_u32]) (simp add: unat_size decodes_take)

lemma decodes_expect: "decodes (expect_bytes bs what) bs HS ()"
proof (induction bs)
  case (Cons b bs)
  then show ?case by (auto simp: decodes_def strict_prefix_def prefix_Cons)
qed (simp add: decodes_def)

lemma decodes_expect_u8: "decodes (rd_expect_u8 k what) (wr_u8 k) HS ()"
  using decodes_bind [OF decodes_u8 [of k HS], of "\<lambda>b. if b \<noteq> k then rd_panic what else rd_ret ()" "[]" "()"]
  by (simp add: rd_expect_u8_def)

section \<open>Vectors\<close>

text \<open>What an element format promises: an admissible element that the writer accepts is read back as
  its image. The counted vector of such elements has the same property.\<close>

locale codec =
  fixes wr :: "'a \<Rightarrow> string result" and rd :: "'b reader" and img :: "'a \<Rightarrow> 'b" and ok :: "strs \<Rightarrow> 'a \<Rightarrow> bool"
  assumes element: "ok HS x \<Longrightarrow> wr x = Inr w \<Longrightarrow> decodes rd w HS (img x)"
begin

lemma times_decodes:
  "list_all (ok HS) xs \<Longrightarrow> write_all wr xs = Inr ws \<Longrightarrow> decodes (rd_times (length xs) rd) ws HS (map img xs)"
proof (induction xs arbitrary: ws)
  case (Cons x xs)
  then obtain w ws' where w: "wr x = Inr w" "write_all wr xs = Inr ws'" "ws = w @ ws'"
    by (auto simp: rbind_eq_Inr)
  then show ?case using Cons decodes_bind [OF element [OF _ w(1)] decodes_map [of "rd_times (length xs) rd" ws' HS "map img xs"]] by simp
qed simp

lemma vec_decodes:
  assumes "list_all (ok HS) xs" "fits_size xs" "write_all wr xs = Inr ws"
  shows "decodes (rd_vec rd) (wr_u32 (of_nat (length xs)) @ ws) HS (map img xs)"
  unfolding rd_vec_def
  by (rule decodes_bind [OF decodes_u32]) (simp add: unat_size assms times_decodes)

end

lemma write_all_total: "write_all (\<lambda>x. Inr (f x)) xs = Inr (concat (map f xs))"
  by (induction xs) simp_all

interpretation code_codec: codec "\<lambda>v. Inr (wr_u32 v)" rd_u32 "\<lambda>v. v" "\<lambda>_ _. True"
  by unfold_locales (auto simp: decodes_u32)

interpretation int_codec: codec "\<lambda>i. Inr (wr_int i)" rd_int "\<lambda>i. i" "\<lambda>_. fits_int"
  by unfold_locales (auto simp: decodes_int)

definition strip_upval :: "bool \<Rightarrow> upval_desc \<Rightarrow> upval_desc" where
  "strip_upval strip uv = (if strip then uv\<lparr>ud_name := []\<rparr> else uv)"

lemma decodes_upval:
  assumes "fits_size (ud_name uv)"
  shows "decodes rd_upval (wr_upval strip uv) HS (strip_upval strip uv)"
proof -
  have "fits_size (if strip then [] else ud_name uv)" using assms by (simp add: fits_size_def)
  note s = decodes_bind [OF decodes_str [OF this, of HS] decodes_ret]
  have "decodes rd_upval (wr_upval strip uv) HS
      \<lparr>ud_instack = ud_instack uv, ud_idx = ud_idx uv, ud_name = (if strip then [] else ud_name uv)\<rparr>"
    unfolding rd_upval_def wr_upval_def
    by (intro decodes_bind [OF decodes_bool] decodes_bind [OF decodes_u8]) (rule s [simplified])
  moreover have "strip_upval strip uv = \<lparr>ud_instack = ud_instack uv, ud_idx = ud_idx uv, ud_name = (if strip then [] else ud_name uv)\<rparr>"
    by (simp add: strip_upval_def)
  ultimately show ?thesis by simp
qed

interpretation upval_codec: codec "\<lambda>uv. Inr (wr_upval strip uv)" rd_upval "strip_upval strip" "\<lambda>_ uv. fits_size (ud_name uv)"
  for strip
  by unfold_locales (auto simp: decodes_upval)

definition locvar_ok :: "loc_var \<Rightarrow> bool" where
  "locvar_ok lv \<longleftrightarrow> fits_size (lv_name lv) \<and> fits_int (lv_reg lv) \<and> fits_int (lv_startpc lv) \<and> fits_int (lv_endpc lv)"

lemma decodes_locvar:
  assumes "locvar_ok lv"
  shows "decodes rd_locvar (wr_locvar lv) HS lv"
proof -
  note lv = assms [unfolded locvar_ok_def]
  have e: "decodes (rd_bind rd_int (\<lambda>endpc. rd_ret \<lparr>lv_name = lv_name lv, lv_reg = lv_reg lv, lv_startpc = lv_startpc lv, lv_endpc = endpc\<rparr>))
      (wr_int (lv_endpc lv)) HS lv"
    using decodes_map [OF decodes_int [of "lv_endpc lv"]] lv by (cases lv) simp
  show ?thesis unfolding rd_locvar_def wr_locvar_def
    by (intro decodes_bind [OF decodes_str] decodes_bind [OF decodes_int]) (use e lv in auto)
qed

interpretation locvar_codec: codec "\<lambda>lv. Inr (wr_locvar lv)" rd_locvar "\<lambda>lv. lv" "\<lambda>_. locvar_ok"
  by unfold_locales (auto simp: decodes_locvar)

text \<open>A string constant is the interned object of its bytes: interning them again finds it.\<close>

lemma st_intern_found:
  assumes inv: "strtab_inv HS" and p: "p \<in> st_entries (snd HS)"
  shows "st_intern new (ls_data (fst HS p)) HS = (p, HS)"
proof -
  obtain H st where HS: "HS = (H, st)" by (cases HS)
  obtain q H' st' where r: "st_intern new (ls_data (H p)) (H, st) = (q, H', st')" by (metis prod_cases3)
  have ne: "st_hash st \<noteq> []" using p by (auto simp: HS st_entries_def)
  then have rd: "st_ready H st = st" by (simp add: st_ready_def)
  from r show ?thesis
  proof (cases rule: st_intern_cases)
    case 1
    have "q \<in> st_entries st" "ls_data (H q) = ls_data (H p)"
      using st_find_Some [OF 1(1)] bucket_less [of "length (st_hash st)"] ne by (auto simp: st_entries_def rd)
    then have "q = p" using inv p by (auto simp: HS strtab_inv_def inj_on_def)
    then show ?thesis using r 1 rd by (simp add: HS)
  next
    case (2 st2 i)
    then show ?thesis using st_find_absent [of H st "ls_data (H p)" p] inv p rd by (simp add: HS)
  qed
qed

fun const_ok :: "strs \<Rightarrow> tvalue \<Rightarrow> bool" where
  "const_ok HS (VString p) \<longleftrightarrow> p \<in> st_entries (snd HS) \<and> fits_size (ls_data (fst HS p))"
| "const_ok HS _ \<longleftrightarrow> True"

lemma read_const_tags:
  "decodes (rd_ret VNil) w HS v \<Longrightarrow> decodes (read_const alloc) (wr_u8 0 @ w) HS v"
  "decodes (rd_bind rd_bool (\<lambda>b. rd_ret (VBool b))) w HS v \<Longrightarrow> decodes (read_const alloc) (wr_u8 1 @ w) HS v"
  "decodes (rd_bind rd_u64 (\<lambda>n. rd_ret (VInt n))) w HS v \<Longrightarrow> decodes (read_const alloc) (wr_u8 2 @ w) HS v"
  "decodes (rd_bind rd_u64 (\<lambda>d. rd_ret (VFloat d))) w HS v \<Longrightarrow> decodes (read_const alloc) (wr_u8 3 @ w) HS v"
  "decodes (rd_bind rd_str (\<lambda>s. rd_bind (rd_intern alloc s) (\<lambda>p. rd_ret (VString p)))) w HS v \<Longrightarrow>
    decodes (read_const alloc) (wr_u8 4 @ w) HS v"
  unfolding read_const_def by (rule decodes_bind [OF decodes_u8], simp)+

lemma decodes_const:
  assumes inv: "strtab_inv HS" and ok: "const_ok HS v" and w: "write_const (fst HS) v = Inr w"
  shows "decodes (read_const alloc) w HS v"
proof (cases v)
  case VNil
  then show ?thesis using w read_const_tags(1) [OF decodes_ret, of alloc HS] by simp
next
  case (VBool b)
  then show ?thesis using w read_const_tags(2) [OF decodes_map [OF decodes_bool [of b HS]], of alloc] by simp
next
  case (VInt n)
  then show ?thesis using w read_const_tags(3) [OF decodes_map [OF decodes_u64 [of _ HS]]] by auto
next
  case (VFloat d)
  then show ?thesis using w read_const_tags(4) [OF decodes_map [OF decodes_u64 [of _ HS]]] by auto
next
  case (VString p)
  let ?s = "ls_data (fst HS p)"
  have "decodes (rd_intern alloc ?s) [] HS p"
    using st_intern_found [OF inv, of p] ok VString by (simp add: decodes_def rd_intern_def)
  then have "decodes (rd_bind rd_str (\<lambda>s. rd_bind (rd_intern alloc s) (\<lambda>p. rd_ret (VString p)))) (wr_str ?s @ []) HS (VString p)"
    using ok VString by (intro decodes_bind [OF decodes_str] decodes_map) simp_all
  then show ?thesis using w VString read_const_tags(5) [where HS = HS] by auto
qed (use w in simp_all)

interpretation const_codec: codec "write_const H" "read_const alloc" "\<lambda>v. v" "\<lambda>HS v. fst HS = H \<and> strtab_inv HS \<and> const_ok HS v"
  for H alloc
  by unfold_locales (auto simp: decodes_const)

section \<open>Prototypes\<close>

text \<open>What a stripped chunk keeps.\<close>

fun stripped :: "bool \<Rightarrow> ptree \<Rightarrow> ptree" where
  "stripped strip (PTree p protos) =
     PTree (if strip then p\<lparr>p_source := ''=?'', p_upvalues := map (strip_upval True) (p_upvalues p), p_lineinfo := [], p_locvars := []\<rparr> else p)
       (map (stripped strip) protos)"

lemma stripped_False [simp]: "stripped False t = t"
  by (induction t) (simp add: map_idI)

definition eff_source :: "bool \<Rightarrow> proto \<Rightarrow> string" where
  "eff_source strip p = (if strip then ''=?'' else p_source p)"

text \<open>The sizes the format can hold, and a source name that is not lost: an empty name stands for
  the parent's.\<close>

definition node_ok :: "strs \<Rightarrow> bool \<Rightarrow> string \<Rightarrow> proto \<Rightarrow> bool" where
  "node_ok HS strip parent p \<longleftrightarrow>
     fits_int (p_numparams p) \<and> fits_int (p_maxstack p) \<and> fits_int (p_linedefined p) \<and> fits_int (p_lastlinedefined p) \<and>
     fits_size (p_code p) \<and> fits_size (p_constants p) \<and> list_all (const_ok HS) (p_constants p) \<and>
     fits_size (p_source p) \<and> (eff_source strip p = [] \<longrightarrow> parent = []) \<and> p_protos p = [] \<and>
     fits_size (p_upvalues p) \<and> list_all (\<lambda>uv. fits_size (ud_name uv)) (p_upvalues p) \<and>
     fits_size (p_lineinfo p) \<and> list_all fits_int (p_lineinfo p) \<and>
     fits_size (p_locvars p) \<and> list_all locvar_ok (p_locvars p)"

fun tree_ok :: "strs \<Rightarrow> bool \<Rightarrow> string \<Rightarrow> ptree \<Rightarrow> bool" where
  "tree_ok HS strip parent (PTree p protos) \<longleftrightarrow>
     node_ok HS strip parent p \<and> fits_size protos \<and> list_all (tree_ok HS strip (eff_source strip p)) protos"

fun depth :: "ptree \<Rightarrow> nat" where
  "depth (PTree p protos) = Suc (foldr (\<lambda>q d. max (depth q) d) protos 0)"

lemma depth_child: "q \<in> set protos \<Longrightarrow> depth q < depth (PTree p protos)"
  by (induction protos) (auto simp: less_Suc_eq_le)

text \<open>Line information and local variables.\<close>

lemma decodes_debug:
  assumes "node_ok HS strip parent p"
    and "decodes (f (if strip then [] else p_lineinfo p) (if strip then [] else p_locvars p)) [] HS y"
  shows "decodes (rd_bind (rd_vec rd_int) (\<lambda>lineinfo. rd_bind (rd_vec rd_locvar) (f lineinfo))) (wr_debug strip p) HS y"
proof (cases strip)
  case True
  have "decodes (rd_vec rd_int) (wr_u32 0) HS []" "decodes (rd_vec rd_locvar) (wr_u32 0) HS []"
    using int_codec.vec_decodes [where HS = HS and xs = "[]" and ws = "[]"]
      locvar_codec.vec_decodes [where HS = HS and xs = "[]" and ws = "[]"] by (simp_all add: fits_size_def)
  then have "decodes (rd_bind (rd_vec rd_int) (\<lambda>lineinfo. rd_bind (rd_vec rd_locvar) (f lineinfo))) (wr_u32 0 @ wr_u32 0 @ []) HS y"
    using assms(2) True by (intro decodes_bind) simp_all
  then show ?thesis using True by (simp add: wr_debug_def)
next
  case False
  have "decodes (rd_bind (rd_vec rd_int) (\<lambda>lineinfo. rd_bind (rd_vec rd_locvar) (f lineinfo)))
      ((wr_u32 (of_nat (length (p_lineinfo p))) @ concat (map wr_int (p_lineinfo p))) @
       (wr_u32 (of_nat (length (p_locvars p))) @ concat (map wr_locvar (p_locvars p))) @ []) HS y"
    using assms False int_codec.vec_decodes [where HS = HS and xs = "p_lineinfo p", OF _ _ write_all_total]
      locvar_codec.vec_decodes [where HS = HS and xs = "p_locvars p", OF _ _ write_all_total]
    by (intro decodes_bind) (simp_all add: node_ok_def)
  then show ?thesis using False by (simp add: wr_debug_def)
qed

lemma decodes_source:
  assumes "node_ok HS strip parent p" "ps = None \<or> ps = Some parent"
  defines "src \<equiv> if ps = Some (eff_source strip p) then [] else eff_source strip p"
  shows "decodes rd_str (wr_str src) HS src" "(if src = [] then parent else src) = eff_source strip p"
proof -
  have "fits_size src" using assms(1) by (simp add: src_def eff_source_def fits_size_def node_ok_def)
  then show "decodes rd_str (wr_str src) HS src" by (rule decodes_str)
  show "(if src = [] then parent else src) = eff_source strip p"
    using assms(1,2) by (auto simp: src_def node_ok_def)
qed

lemma stripped_node:
  "p_protos p = [] \<Longrightarrow> stripped strip (PTree p protos) =
    PTree \<lparr>p_code = p_code p, p_constants = p_constants p, p_protos = [],
        p_upvalues = map (strip_upval strip) (p_upvalues p), p_lineinfo = (if strip then [] else p_lineinfo p),
        p_locvars = (if strip then [] else p_locvars p), p_source = eff_source strip p, p_linedefined = p_linedefined p,
        p_lastlinedefined = p_lastlinedefined p, p_maxstack = p_maxstack p, p_numparams = p_numparams p,
        p_is_vararg = p_is_vararg p\<rparr> (map (stripped strip) protos)"
  by (cases p) (simp add: eff_source_def strip_upval_def [abs_def])

lemma decodes_proto:
  assumes inv: "strtab_inv HS"
  shows "tree_ok HS strip parent t \<Longrightarrow> ps = None \<or> ps = Some parent \<Longrightarrow> depth t \<le> d \<Longrightarrow>
    write_proto (fst HS) strip ps t = Inr w \<Longrightarrow> decodes (read_proto d alloc parent) w HS (stripped strip t)"
proof (induction t arbitrary: parent ps d w)
  case (PTree p protos)
  let ?src = "eff_source strip p"
  obtain d' where d: "d = Suc d'" using PTree.prems(3) by (cases d) auto
  have ok: "node_ok HS strip parent p" "fits_size protos" "list_all (tree_ok HS strip ?src) protos"
    using PTree.prems(1) by simp_all
  obtain ks qs where ks: "write_all (write_const (fst HS)) (p_constants p) = Inr ks"
    and qs: "write_all (\<lambda>q. write_proto (fst HS) strip (Some ?src) q) protos = Inr qs"
    and w: "w = wr_int (p_numparams p) @ wr_u8 (if p_is_vararg p then 1 else 0) @ wr_int (p_maxstack p) @
       (wr_u32 (of_nat (length (p_code p))) @ concat (map wr_u32 (p_code p))) @
       (wr_u32 (of_nat (length (p_constants p))) @ ks) @
       wr_str (if ps = Some ?src then [] else ?src) @
       wr_int (p_linedefined p) @ wr_int (p_lastlinedefined p) @
       (wr_u32 (of_nat (length protos)) @ qs) @
       (wr_u32 (of_nat (length (p_upvalues p))) @ concat (map (wr_upval strip) (p_upvalues p))) @
       wr_debug strip p"
    using PTree.prems(4) by (auto simp: rbind_eq_Inr Let_def eff_source_def)
  have "codec (\<lambda>q. write_proto (fst HS) strip (Some ?src) q) (read_proto d' alloc ?src) (stripped strip)
      (\<lambda>HS' q. HS' = HS \<and> q \<in> set protos \<and> tree_ok HS strip ?src q)"
  proof
    fix HS' q w assume "HS' = HS \<and> q \<in> set protos \<and> tree_ok HS strip ?src q"
      "write_proto (fst HS) strip (Some ?src) q = Inr w"
    moreover have "depth q \<le> d'" if "q \<in> set protos" using depth_child [OF that, of p] PTree.prems(3) d by simp
    ultimately show "decodes (read_proto d' alloc ?src) w HS' (stripped strip q)" using PTree.IH by blast
  qed
  then have children: "decodes (rd_vec (read_proto d' alloc ?src)) (wr_u32 (of_nat (length protos)) @ qs) HS (map (stripped strip) protos)"
    by (rule codec.vec_decodes) (use ok qs in \<open>simp_all add: list_all_iff\<close>)
  note n = ok(1) [unfolded node_ok_def] and source = decodes_source [OF ok(1) PTree.prems(2)]
  have ks_ok: "decodes (rd_vec (read_const alloc)) (wr_u32 (of_nat (length (p_constants p))) @ ks) HS (p_constants p)"
    using const_codec.vec_decodes [OF _ _ ks] n inv by (simp add: list_all_iff)
  have ups: "decodes (rd_vec rd_upval) (wr_u32 (of_nat (length (p_upvalues p))) @ concat (map (wr_upval strip) (p_upvalues p))) HS
      (map (strip_upval strip) (p_upvalues p))"
    using upval_codec.vec_decodes [OF _ _ write_all_total] n by blast
  have instrs: "decodes (rd_vec rd_u32) (wr_u32 (of_nat (length (p_code p))) @ concat (map wr_u32 (p_code p))) HS (p_code p)"
    using code_codec.vec_decodes [where HS = HS and xs = "p_code p", OF _ _ write_all_total] n by (simp add: list_all_iff)
  show ?case
    unfolding d read_proto.simps w
    apply (rule decodes_bind [OF decodes_int], simp add: n)
    apply (rule decodes_bind [OF decodes_bool])
    apply (rule decodes_bind [OF decodes_int], simp add: n)
    apply (rule decodes_bind [OF instrs])
    apply (rule decodes_bind [OF ks_ok])
    apply (rule decodes_bind [OF source(1)])
    apply (unfold Let_def source(2))
    apply (rule decodes_bind [OF decodes_int], simp add: n)
    apply (rule decodes_bind [OF decodes_int], simp add: n)
    apply (rule decodes_bind [OF children])
    apply (rule decodes_bind [OF ups])
    apply (rule decodes_debug [OF ok(1)])
    by (simp only: stripped_node n decodes_ret)
qed

section \<open>The nesting bound is enough\<close>

text \<open>A reader never gives bytes back.\<close>

named_theorems shrinking \<open>readers that never give bytes back\<close>

definition shrinks :: "'a reader \<Rightarrow> bool" where
  "shrinks m \<longleftrightarrow> (\<forall>r x r'. m r = Inr (x, r') \<longrightarrow> length (fst r') \<le> length (fst r))"

lemma shrinksD: "shrinks m \<Longrightarrow> m r = Inr (x, r') \<Longrightarrow> length (fst r') \<le> length (fst r)"
  unfolding shrinks_def by blast

lemma shrinks_if [shrinking]: "shrinks m \<Longrightarrow> shrinks m' \<Longrightarrow> shrinks (if b then m else m')"
  by simp

lemma shrinks_bind [shrinking]: "shrinks m \<Longrightarrow> (\<And>x. shrinks (f x)) \<Longrightarrow> shrinks (rd_bind m f)"
  unfolding shrinks_def rd_bind_def by (fastforce simp: rbind_eq_Inr intro: order_trans)

lemma shrinks_ret [shrinking]: "shrinks (rd_ret x)" "shrinks (rd_panic msg)"
  by (simp_all add: shrinks_def rd_ret_def rd_panic_def)

lemma shrinks_u8 [shrinking]: "shrinks rd_u8"
  unfolding shrinks_def by (auto elim!: rd_u8.elims)

lemma shrinks_le [shrinking]: "shrinks (rd_le n i v)"
  by (induction n arbitrary: i v) (simp_all add: shrinking)

lemma shrinks_basic [shrinking]:
  "shrinks rd_u32" "shrinks rd_u64" "shrinks rd_int" "shrinks rd_bool" "shrinks (rd_take n)" "shrinks rd_str"
  "shrinks (rd_intern alloc s)"
proof -
  show t: "shrinks (rd_take n)" for n by (auto simp: shrinks_def rd_take_def split: if_splits)
  show u: "shrinks rd_u32" "shrinks rd_u64" unfolding rd_u32_def rd_u64_def by (intro shrinking)+
  show "shrinks rd_int" "shrinks rd_bool" unfolding rd_int_def rd_bool_def by (intro shrinking u)+
  show "shrinks rd_str" unfolding rd_str_def by (intro shrinking t u)
  show "shrinks (rd_intern alloc s)" by (auto simp: shrinks_def rd_intern_def split: prod.splits)
qed

lemma shrinks_expect [shrinking]: "shrinks (expect_bytes bs what)"
proof -
  have "expect_bytes bs what r = Inr (x, r') \<Longrightarrow> length (fst r') \<le> length (fst r)" for r x r'
    by (induction bs what r arbitrary: x r' rule: expect_bytes.induct) (fastforce split: if_splits)+
  then show ?thesis by (simp add: shrinks_def)
qed

lemma shrinks_const [shrinking]: "shrinks (read_const alloc)"
  unfolding read_const_def by (intro shrinking)

lemma shrinks_times [shrinking]: "shrinks m \<Longrightarrow> shrinks (rd_times n m)"
  by (induction n) (simp_all add: shrinking)

lemma shrinks_vec [shrinking]: "shrinks m \<Longrightarrow> shrinks (rd_vec m)"
  unfolding rd_vec_def by (intro shrinking)

lemma shrinks_upval [shrinking]: "shrinks rd_upval" "shrinks rd_locvar"
  unfolding rd_upval_def rd_locvar_def by (intro shrinking)+

lemma shrinks_proto [shrinking]: "shrinks (read_proto d alloc parent)"
  by (induction d arbitrary: parent) (simp_all add: Let_def shrinking)

text \<open>Two continuations that agree on what the first reader leaves make the same reader.\<close>

lemma rd_bind_agree:
  assumes "shrinks m" "length (fst r) \<le> n" "\<And>x r'. length (fst r') \<le> n \<Longrightarrow> f x r' = g x r'"
  shows "rd_bind m f r = rd_bind m g r"
proof (cases "m r")
  case (Inr xr)
  then show ?thesis using assms shrinksD [OF assms(1), of r "fst xr" "snd xr"]
    by (cases xr) (auto simp: rd_bind_def intro!: assms(3))
qed (simp add: rd_bind_def)

lemma rd_times_agree:
  assumes "shrinks m" "\<And>r. length (fst r) \<le> n \<Longrightarrow> m r = m' r"
  shows "length (fst r) \<le> n \<Longrightarrow> rd_times k m r = rd_times k m' r"
proof (induction k arbitrary: r)
  case (Suc k)
  have "rd_times (Suc k) m r = rd_bind m (\<lambda>x. rd_bind (rd_times k m') (\<lambda>xs. rd_ret (x # xs))) r"
    unfolding rd_times.simps
    by (rule rd_bind_agree [OF assms(1) Suc.prems]) (simp add: rd_bind_def Suc.IH)
  then show ?case using assms(2) [OF Suc.prems] by (simp add: rd_bind_def)
qed simp

lemma rd_vec_agree:
  assumes "shrinks m" "\<And>r. length (fst r) \<le> n \<Longrightarrow> m r = m' r" "length (fst r) \<le> n"
  shows "rd_vec m r = rd_vec m' r"
  unfolding rd_vec_def
  by (rule rd_bind_agree [OF shrinks_basic(1) assms(3)]) (rule rd_times_agree [OF assms(1,2)])

lemma rd_u8_consumes: "rd_u8 r = Inr (x, r') \<Longrightarrow> length (fst r') < length (fst r)"
  by (auto elim!: rd_u8.elims)

lemma rd_int_consumes:
  assumes "rd_int r = Inr (x, r')"
  shows "length (fst r') < length (fst r)"
proof -
  have "rd_int = rd_bind rd_u8 (\<lambda>b. rd_bind (rd_le 3 1 (ucast b)) (\<lambda>v. rd_ret (sint (v :: u32))))"
    by (rule ext) (simp add: rd_int_def rd_u32_def numeral_eq_Suc rd_bind_def rbind_assoc case_prod_unfold)
  then have "rd_bind rd_u8 (\<lambda>b. rd_bind (rd_le 3 1 (ucast b)) (\<lambda>v. rd_ret (sint (v :: u32)))) r = Inr (x, r')"
    using assms by simp
  then obtain b r1 where 1: "rd_u8 r = Inr (b, r1)"
    and 2: "rd_bind (rd_le 3 1 (ucast b)) (\<lambda>v. rd_ret (sint (v :: u32))) r1 = Inr (x, r')"
    by (cases "rd_u8 r") (auto simp: rd_bind_def [of rd_u8])
  have "shrinks (rd_bind (rd_le 3 1 (ucast b)) (\<lambda>v. rd_ret (sint (v :: u32))))" by (intro shrinking)
  from shrinksD [OF this 2] rd_u8_consumes [OF 1] show ?thesis by (rule le_less_trans)
qed

lemma read_proto_fuel_step: "length (fst r) \<le> n \<Longrightarrow> read_proto n alloc parent r = read_proto (Suc n) alloc parent r"
proof (induction n arbitrary: parent r)
  case 0
  then show ?case by (cases r) (simp add: rd_panic_def rd_bind_def rd_int_def rd_u32_def numeral_eq_Suc)
next
  case (Suc n)
  have v: "length (fst r) \<le> n \<Longrightarrow> rd_vec (read_proto n alloc src) r = rd_vec (read_proto (Suc n) alloc src) r" for src r
    by (rule rd_vec_agree [OF shrinks_proto Suc.IH])
  have first: "rd_bind rd_int f r = rd_bind rd_int f' r" if "\<And>x r'. length (fst r') \<le> n \<Longrightarrow> f x r' = f' x r'"
    for f f' :: "int \<Rightarrow> ptree reader"
  proof (cases "rd_int r")
    case (Inr xr)
    then have "length (fst (snd xr)) \<le> n" using rd_int_consumes [of r "fst xr" "snd xr"] Suc.prems by simp
    from that [OF this] Inr show ?thesis by (simp add: rd_bind_def case_prod_unfold)
  qed (simp add: rd_bind_def)
  note agree = rd_bind_agree [where n = n]
  show ?case
    by (subst read_proto.simps(2), subst read_proto.simps(2), unfold Let_def, rule first, rule agree, intro shrinking, assumption, rule agree, intro shrinking, assumption, rule agree, intro shrinking, assumption,
        rule agree, intro shrinking, assumption, rule agree, intro shrinking, assumption, rule agree, intro shrinking, assumption,
        rule agree, intro shrinking, assumption) (simp only: rd_bind_def v)
qed

lemma read_proto_fuel:
  assumes "length (fst r) \<le> n" "n \<le> m"
  shows "read_proto n alloc parent r = read_proto m alloc parent r"
  using assms(2,1) by (induction rule: dec_induct) (use read_proto_fuel_step in auto)

section \<open>Whole chunks\<close>

lemma decodes_header: "decodes check_header wr_header HS ()"
proof -
  have num: "f_eq kLuacNum kLuacNum" by (simp add: f_eq_def kLuacNum_def isnan_def f_exp_def)
  have "decodes (rd_bind rd_u64 (\<lambda>d. if \<not> f_eq d kLuacNum then rd_panic ''float format mismatch'' else rd_ret ())) (wr_u64 kLuacNum @ []) HS ()"
    by (rule decodes_bind [OF decodes_u64]) (simp add: num)
  then have nums: "decodes (rd_bind rd_u64 (\<lambda>n. if n \<noteq> kLuacInt then rd_panic ''endianness mismatch'' else
      rd_bind rd_u64 (\<lambda>d. if \<not> f_eq d kLuacNum then rd_panic ''float format mismatch'' else rd_ret ()))) (wr_u64 kLuacInt @ wr_u64 kLuacNum) HS ()"
    by (intro decodes_bind [OF decodes_u64]) simp
  show ?thesis unfolding check_header_def wr_header_def
    by (intro decodes_bind [OF decodes_expect] decodes_bind [OF decodes_expect_u8]) (rule nums)
qed

text \<open>The reader that \<open>undump_proto\<close> runs.\<close>

definition rd_chunk :: "nat \<Rightarrow> (strs \<Rightarrow> ptr) \<Rightarrow> string \<Rightarrow> ptree reader" where
  "rd_chunk d alloc name =
     rd_bind check_header (\<lambda>_. rd_bind rd_u8 (\<lambda>_. rd_bind rd_bool (\<lambda>strip. read_proto d alloc name)))"

lemma shrinks_header: "shrinks check_header"
  unfolding check_header_def rd_expect_u8_def by (intro shrinking)

lemma rd_chunk_fuel:
  assumes "length (fst r) \<le> n" "n \<le> m"
  shows "rd_chunk n alloc name r = rd_chunk m alloc name r"
  unfolding rd_chunk_def
  by (rule rd_bind_agree [OF shrinks_header assms(1)], rule rd_bind_agree [OF shrinks_u8], assumption,
      rule rd_bind_agree [where n = n], intro shrinking, assumption) (rule read_proto_fuel [OF _ assms(2)])

lemma undump_proto_chunk:
  "is_proto_dump blob \<Longrightarrow> length blob \<le> d \<Longrightarrow>
    undump_proto alloc blob name HS = rbind (rd_chunk d alloc name (blob, HS)) (\<lambda>(t, (_, HS')). Inr (t, HS'))"
  using rd_chunk_fuel [of "(blob, HS)" "length blob" d alloc name]
  by (simp add: undump_proto_def is_proto_dump_def rd_chunk_def [symmetric])

lemma decodes_chunk:
  assumes "strtab_inv HS" "tree_ok HS strip name t" "dump_proto (fst HS) t strip = Inr blob" "depth t \<le> d"
  shows "decodes (rd_chunk d alloc name) blob HS (stripped strip t)" "is_proto_dump blob"
proof -
  obtain p protos where t: "t = PTree p protos" by (cases t)
  obtain body where body: "write_proto (fst HS) strip None t = Inr body"
    and blob: "blob = wr_header @ wr_u8 (of_nat (length (p_upvalues p))) @ wr_u8 (if strip then 1 else 0) @ body"
    using assms(3) by (auto simp: dump_proto_def t rbind_eq_Inr)
  show "is_proto_dump blob" by (simp add: blob is_proto_dump_def wr_header_def kLuaSig_def)
  show "decodes (rd_chunk d alloc name) blob HS (stripped strip t)"
    unfolding rd_chunk_def blob
    by (intro decodes_bind [OF decodes_header] decodes_bind [OF decodes_u8] decodes_bind [OF decodes_bool]
        decodes_proto [OF assms(1,2) _ assms(4) body]) simp
qed

text \<open>C25: a dumped function loads back as itself: undumping the bytes of \<open>string.dump\<close> in the same
  state gives the same tree of prototypes, with the same code, the same constants (string
  constants are the same interned objects) and the same debug information, and leaves the string
  table as it was; a stripped dump loads back without names, lines and local variables.\<close>

theorem undump_dump:
  assumes "strtab_inv HS" "tree_ok HS strip name t" "dump_proto (fst HS) t strip = Inr blob"
  shows "undump_proto alloc blob name HS = Inr (stripped strip t, HS)"
proof -
  note c = decodes_chunk [OF assms, where d = "depth t + length blob"]
  have "rd_chunk (depth t + length blob) alloc name (blob @ [], HS) = Inr (stripped strip t, [], HS)"
    using c(1) [of alloc, OF le_add1] unfolding decodes_def by blast
  then show ?thesis using undump_proto_chunk [OF c(2), of "depth t + length blob" alloc name HS] by simp
qed

text \<open>A main function with a string constant, an upvalue and a nested function, and the string
  table in which the constant is interned.\<close>

definition demo_strs :: strs where
  "demo_strs = snd (st_intern 1 ''print'' (H0, no_strings))"

definition demo_node :: proto where
  "demo_node = \<lparr>p_code = [7, 9], p_constants = [VString 1, VInt 42, VNil], p_protos = [],
     p_upvalues = [\<lparr>ud_instack = True, ud_idx = 0, ud_name = ''_ENV''\<rparr>], p_lineinfo = [1, 2],
     p_locvars = [\<lparr>lv_name = ''x'', lv_reg = 0, lv_startpc = 0, lv_endpc = 2\<rparr>], p_source = ''@a'', p_linedefined = 0,
     p_lastlinedefined = 0, p_maxstack = 4, p_numparams = 0, p_is_vararg = True\<rparr>"

definition demo_tree :: ptree where
  "demo_tree = PTree demo_node [PTree (demo_node\<lparr>p_is_vararg := False\<rparr>) []]"

lemma demo_strs_ok:
  "strtab_inv demo_strs" "1 \<in> st_entries (snd demo_strs)" "ls_data (fst demo_strs 1) = ''print''"
proof -
  obtain p H st where r: "st_intern 1 ''print'' (H0, no_strings) = (p, H, st)" by (metis prod_cases3)
  from r have "p = 1"
  proof (cases rule: st_intern_cases)
    case 1
    then have "p \<in> st_entries (st_ready H0 no_strings)"
      using st_find_Some [OF 1(1)] bucket_less [of "length (st_hash (st_ready H0 no_strings))"]
        st_ready_ok(3) [OF no_strings_inv(1)] by (auto simp: st_entries_def)
    then show ?thesis using st_ready_ok(2) [OF no_strings_inv(1), of H0] no_strings_inv(2) by simp
  qed simp
  with r show "strtab_inv demo_strs" "1 \<in> st_entries (snd demo_strs)" "ls_data (fst demo_strs 1) = ''print''"
    using st_intern_ok [OF no_strings_inv(1) _ r] by (simp_all add: demo_strs_def no_strings_inv(2))
qed

lemma demo_tree_ok: "tree_ok demo_strs strip ''@a'' demo_tree"
  by (simp add: demo_tree_def demo_node_def node_ok_def demo_strs_ok fits_int_def fits_size_def eff_source_def locvar_ok_def)

lemma demo_dump: "\<exists>blob. dump_proto (fst demo_strs) demo_tree strip = Inr blob \<and> 30 < length blob"
  by (simp add: demo_tree_def demo_node_def dump_proto_def wr_header_def wr_u8_def wr_u64_def kLuaSig_def kLuacData_def Let_def)

theorem undump_dump_witness:
  "\<exists>blob. dump_proto (fst demo_strs) demo_tree True = Inr blob \<and>
     undump_proto (\<lambda>_. 2) blob ''@a'' demo_strs = Inr (stripped True demo_tree, demo_strs)"
  using demo_dump [of True] undump_dump [OF demo_strs_ok(1) demo_tree_ok, of True] by blast

text \<open>C26: a dumped function that is cut anywhere after its first byte is reported as truncated: no
  prefix of a chunk is taken for a chunk, whatever the lengths and counts inside say.\<close>

theorem undump_truncated:
  assumes "strtab_inv HS" "tree_ok HS strip name t" "dump_proto (fst HS) t strip = Inr blob"
    and "0 < k" "k < length blob"
  shows "undump_proto alloc (take k blob) name HS = panic ''truncated''"
proof -
  note c = decodes_chunk [OF assms(1-3), where d = "depth t + length blob"]
  have "strict_prefix (take k blob) blob" using assms(5) take_is_prefix [of k blob]
    by (auto simp: strict_prefix_def dest: arg_cong [where f = length])
  then have "rd_chunk (depth t + length blob) alloc name (take k blob, HS) = panic ''truncated''"
    using c(1) [of alloc, OF le_add1] unfolding decodes_def by blast
  moreover have "is_proto_dump (take k blob)" using c(2) assms(4) by (simp add: is_proto_dump_def)
  ultimately show ?thesis using undump_proto_chunk [of "take k blob" "depth t + length blob" alloc name HS] by simp
qed

theorem undump_truncated_witness:
  "\<exists>blob. dump_proto (fst demo_strs) demo_tree False = Inr blob \<and>
     undump_proto (\<lambda>_. 2) (take 30 blob) ''@a'' demo_strs = panic ''truncated''"
  using demo_dump [of False] undump_truncated [OF demo_strs_ok(1) demo_tree_ok, of False _ 30] by auto

end
