(* ===== verification/Lt_Ast.thy ===== *)
theory Lt_Ast
  imports Lt_Float
begin

text \<open>
  The abstract syntax: \<open>src/frontend/ast.hpp\<close>. One datatype per family of node classes; the first
  argument of every node is its \<open>line\<close>, and a null \<open>unique_ptr\<close> is \<open>None\<close>. \<open>ExprFunction\<close> is also
  the body of the two function statements, so its fields are a datatype of their own.
\<close>

text \<open>\<open>MAXVARS\<close> of \<open>src/common/common.hpp\<close>: parser and lowering both keep to it.\<close>

definition MAXVARS :: int where "MAXVARS = 200"

datatype bin_op =
  Add | Sub | Mul | Div | IDiv | Mod | Pow | Concat | Band | Bor | Bxor | Shl | Shr
  | OpEq | OpNe | OpLt | OpLe | OpGt | OpGe | And | Or

datatype un_op = Neg | Not | Len | Bnot

datatype expr =
  ExprNil int
  | ExprBool int bool
  | ExprInt int u64
  | ExprFloat int f64
  | ExprString int string
  | ExprVararg int
  | ExprName int string
  | ExprIndex int expr expr
  | ExprField int expr string
  | ExprBin int bin_op expr expr
  | ExprUn int un_op expr
  | ExprCall int expr "expr list" bool string
  | ExprParen int expr
  | ExprTable int "field list"
  | ExprFunction func
and field = Field "expr option" expr string
and func = Func int "string list" bool block int
and stmt =
  LocalDecl int "string list" "expr list"
  | Assign int "expr list" "expr list"
  | IfStmt int "branch list" "block option" int int
  | WhileStmt int expr block int
  | RepeatStmt int block expr
  | ForNum int string expr expr "expr option" block int
  | ForIn int "string list" "expr list" block int
  | BreakStmt int
  | GotoStmt int string
  | LabelStmt int string
  | ReturnStmt int "expr list"
  | CallStmt int expr
  | DoBlock int block
  | FunctionDecl int "string list" bool func
  | LocalFunction int string func
and branch = Branch expr block int
and block = Block "stmt list"

fun expr_line :: "expr \<Rightarrow> int" where
  "expr_line (ExprNil l) = l"
| "expr_line (ExprBool l _) = l"
| "expr_line (ExprInt l _) = l"
| "expr_line (ExprFloat l _) = l"
| "expr_line (ExprString l _) = l"
| "expr_line (ExprVararg l) = l"
| "expr_line (ExprName l _) = l"
| "expr_line (ExprIndex l _ _) = l"
| "expr_line (ExprField l _ _) = l"
| "expr_line (ExprBin l _ _ _) = l"
| "expr_line (ExprUn l _ _) = l"
| "expr_line (ExprCall l _ _ _ _) = l"
| "expr_line (ExprParen l _) = l"
| "expr_line (ExprTable l _) = l"
| "expr_line (ExprFunction (Func l _ _ _ _)) = l"

end
