(* ===== verification/Lt_Sema.thy ===== *)
theory Lt_Sema
  imports Lt_Ast "HOL-Library.List_Lexorder" "HOL-Library.Char_ord"
begin

text \<open>
  The semantic pass: \<open>src/frontend/sema.cpp\<close>, which checks \<open>break\<close>, labels and \<open>goto\<close> before code is
  generated. \<open>Ctx\<close> is a record; the vector of label scopes has its back first. A
  \<open>std::set<std::string>\<close> is the sorted list of its elements, which is the order the error messages
  depend on.
\<close>

record pending_goto =
  pg_label :: string
  pg_visible :: "string list"
  pg_depth :: nat

record sema_ctx =
  sc_loop :: int
  sc_locals :: "string list"
  sc_scopes :: "(string \<times> string list) list list"
  sc_gotos :: "pending_goto list"

definition ctx0 :: sema_ctx where
  "ctx0 = \<lparr>sc_loop = 0, sc_locals = [], sc_scopes = [], sc_gotos = []\<rparr>"

definition name_set :: "string list \<Rightarrow> string list" where
  "name_set ns = sort (remdups ns)"

definition visible_locals :: "sema_ctx \<Rightarrow> string list" where
  "visible_locals c = name_set (sc_locals c)"

fun find_label :: "(string \<times> string list) list list \<Rightarrow> string \<Rightarrow> string list option" where
  "find_label [] name = None"
| "find_label (m # ms) name = (case map_of m name of Some v \<Rightarrow> Some v | None \<Rightarrow> find_label ms name)"

definition quoted :: "string \<Rightarrow> string" where
  "quoted s = [CHR 0x27] @ s @ [CHR 0x27]"

text \<open>The locals of a label must be visible at the \<open>goto\<close>.\<close>

definition check_scope :: "string list \<Rightarrow> pending_goto \<Rightarrow> unit result" where
  "check_scope labs g =
     (case find (\<lambda>n. n \<notin> set (pg_visible g)) labs of
        Some n \<Rightarrow> panic (''goto jumps into the scope of local '' @ quoted n)
      | None \<Rightarrow> Inr ())"

fun check_gotos :: "(string \<times> string list) list list \<Rightarrow> pending_goto list \<Rightarrow> unit result" where
  "check_gotos scopes [] = Inr ()"
| "check_gotos scopes (g # gs) =
     (case find_label scopes (pg_label g) of
        None \<Rightarrow> panic (''no visible label '' @ quoted (pg_label g) @ '' for goto'')
      | Some labs \<Rightarrow> rbind (check_scope labs g) (\<lambda>_. check_gotos scopes gs))"

text \<open>The end of \<open>walk_block\<close>: the gotos of this block and of the blocks in it that name a label of
  this block are settled, the others remain.\<close>

fun bind_gotos :: "nat \<Rightarrow> (string \<times> string list) list \<Rightarrow> pending_goto list \<Rightarrow> pending_goto list result" where
  "bind_gotos depth cur [] = Inr []"
| "bind_gotos depth cur (g # gs) =
     (case (if depth \<le> pg_depth g then map_of cur (pg_label g) else None) of
        Some labs \<Rightarrow> rbind (check_scope labs g) (\<lambda>_. bind_gotos depth cur gs)
      | None \<Rightarrow> rbind (bind_gotos depth cur gs) (\<lambda>rest. Inr (g # rest)))"

fun is_label :: "stmt \<Rightarrow> bool" where
  "is_label (LabelStmt _ _) = True"
| "is_label _ = False"

text \<open>A label statement: the names its scope entry gets, and the entry itself.\<close>

definition add_label :: "bool \<Rightarrow> nat \<Rightarrow> string \<Rightarrow> stmt list \<Rightarrow> sema_ctx \<Rightarrow> sema_ctx result" where
  "add_label allow_last before name rest c =
     (let cur = hd (sc_scopes c) in
      if map_of cur name \<noteq> None then panic (''label '' @ quoted name @ '' already defined'')
      else let last = (allow_last \<and> list_all is_label rest);
               labs = (if last then name_set (take before (sc_locals c)) else visible_locals c)
           in Inr (c\<lparr>sc_scopes := ((name, labs) # cur) # tl (sc_scopes c)\<rparr>))"

definition open_block :: "sema_ctx \<Rightarrow> sema_ctx" where
  "open_block c = c\<lparr>sc_scopes := [] # sc_scopes c\<rparr>"

definition close_block :: "bool \<Rightarrow> nat \<Rightarrow> sema_ctx \<Rightarrow> sema_ctx result" where
  "close_block pop_locals before c =
     rbind (bind_gotos (length (sc_scopes c)) (hd (sc_scopes c)) (sc_gotos c)) (\<lambda>remain.
       let c1 = c\<lparr>sc_gotos := remain, sc_scopes := tl (sc_scopes c)\<rparr>
       in Inr (if pop_locals then c1\<lparr>sc_locals := take before (sc_locals c1)\<rparr> else c1))"

definition enter_loop :: "sema_ctx \<Rightarrow> sema_ctx" where
  "enter_loop c = c\<lparr>sc_loop := sc_loop c + 1\<rparr>"

definition leave_loop :: "nat \<Rightarrow> sema_ctx \<Rightarrow> sema_ctx" where
  "leave_loop before c = c\<lparr>sc_loop := sc_loop c - 1, sc_locals := take before (sc_locals c)\<rparr>"

definition add_locals :: "string list \<Rightarrow> sema_ctx \<Rightarrow> sema_ctx" where
  "add_locals ns c = c\<lparr>sc_locals := sc_locals c @ ns\<rparr>"

definition sema_function_end :: "sema_ctx \<Rightarrow> sema_ctx \<Rightarrow> sema_ctx result" where
  "sema_function_end outer nested = rbind (check_gotos (sc_scopes nested) (sc_gotos nested)) (\<lambda>_. Inr outer)"

fun walk_expr :: "expr \<Rightarrow> sema_ctx \<Rightarrow> sema_ctx result"
  and walk_exprs :: "expr list \<Rightarrow> sema_ctx \<Rightarrow> sema_ctx result"
  and walk_opt :: "expr option \<Rightarrow> sema_ctx \<Rightarrow> sema_ctx result"
  and walk_fields :: "field list \<Rightarrow> sema_ctx \<Rightarrow> sema_ctx result"
  and walk_stmt :: "stmt \<Rightarrow> sema_ctx \<Rightarrow> sema_ctx result"
  and walk_branches :: "branch list \<Rightarrow> sema_ctx \<Rightarrow> sema_ctx result"
  and walk_else :: "block option \<Rightarrow> sema_ctx \<Rightarrow> sema_ctx result"
  and walk_stmts :: "stmt list \<Rightarrow> bool \<Rightarrow> nat \<Rightarrow> sema_ctx \<Rightarrow> sema_ctx result"
  and walk_block :: "block \<Rightarrow> bool \<Rightarrow> bool \<Rightarrow> sema_ctx \<Rightarrow> sema_ctx result" where
  "walk_expr (ExprBin _ _ l r) c = rbind (walk_expr l c) (walk_expr r)"
| "walk_expr (ExprUn _ _ e) c = walk_expr e c"
| "walk_expr (ExprIndex _ t k) c = rbind (walk_expr t c) (walk_expr k)"
| "walk_expr (ExprField _ t _) c = walk_expr t c"
| "walk_expr (ExprCall _ f as _ _) c = rbind (walk_expr f c) (walk_exprs as)"
| "walk_expr (ExprParen _ e) c = walk_expr e c"
| "walk_expr (ExprTable _ fs) c = walk_fields fs c"
| "walk_expr (ExprFunction (Func _ ps _ b _)) c =
     rbind (walk_block b True True (add_locals ps ctx0)) (sema_function_end c)"
| "walk_expr _ c = Inr c"
| "walk_exprs [] c = Inr c"
| "walk_exprs (e # es) c = rbind (walk_expr e c) (walk_exprs es)"
| "walk_opt None c = Inr c"
| "walk_opt (Some e) c = walk_expr e c"
| "walk_fields [] c = Inr c"
| "walk_fields (Field k v _ # fs) c = rbind (walk_opt k c) (\<lambda>c. rbind (walk_expr v c) (walk_fields fs))"
| "walk_stmt (BreakStmt _) c = (if sc_loop c \<le> 0 then panic ''break outside loop'' else Inr c)"
| "walk_stmt (GotoStmt _ l) c =
     Inr (c\<lparr>sc_gotos := sc_gotos c @ [\<lparr>pg_label = l, pg_visible = visible_locals c, pg_depth = length (sc_scopes c)\<rparr>]\<rparr>)"
| "walk_stmt (LabelStmt _ _) c = Inr c"
| "walk_stmt (WhileStmt _ cond b _) c =
     rbind (walk_expr cond c) (\<lambda>c. rbind (walk_block b True True (enter_loop c)) (\<lambda>c'. Inr (c'\<lparr>sc_loop := sc_loop c' - 1\<rparr>)))"
| "walk_stmt (RepeatStmt _ b cond) c =
     rbind (walk_block b False False (enter_loop c)) (\<lambda>c1. rbind (walk_expr cond c1) (\<lambda>c2. Inr (leave_loop (length (sc_locals c)) c2)))"
| "walk_stmt (ForNum _ n from to step b _) c =
     rbind (walk_expr from c) (\<lambda>c. rbind (walk_expr to c) (\<lambda>c. rbind (walk_opt step c) (\<lambda>c.
       rbind (walk_block b True True (add_locals [n] (enter_loop c))) (\<lambda>c1. Inr (leave_loop (length (sc_locals c)) c1)))))"
| "walk_stmt (ForIn _ ns iters b _) c =
     rbind (walk_exprs iters c) (\<lambda>c.
       rbind (walk_block b True True (add_locals ns (enter_loop c))) (\<lambda>c1. Inr (leave_loop (length (sc_locals c)) c1)))"
| "walk_stmt (IfStmt _ brs els _ _) c = rbind (walk_branches brs c) (walk_else els)"
| "walk_stmt (LocalDecl _ ns vs) c = rbind (walk_exprs vs c) (\<lambda>c. Inr (add_locals ns c))"
| "walk_stmt (Assign _ vars vs) c = rbind (walk_exprs vars c) (walk_exprs vs)"
| "walk_stmt (ReturnStmt _ vs) c = walk_exprs vs c"
| "walk_stmt (CallStmt _ e) c = walk_expr e c"
| "walk_stmt (LocalFunction _ n (Func _ _ _ b _)) c =
     rbind (walk_block b True True ctx0) (sema_function_end (add_locals [n] c))"
| "walk_stmt (FunctionDecl _ _ _ (Func _ _ _ b _)) c =
     rbind (walk_block b True True ctx0) (sema_function_end c)"
| "walk_stmt (DoBlock _ b) c = walk_block b True True c"
| "walk_branches [] c = Inr c"
| "walk_branches (Branch cond b _ # brs) c =
     rbind (walk_expr cond c) (\<lambda>c. rbind (walk_block b True True c) (walk_branches brs))"
| "walk_else None c = Inr c"
| "walk_else (Some b) c = walk_block b True True c"
| "walk_stmts [] allow_last before c = Inr c"
| "walk_stmts (s # ss) allow_last before c =
     rbind (case s of LabelStmt _ n \<Rightarrow> add_label allow_last before n ss c | _ \<Rightarrow> walk_stmt s c)
       (walk_stmts ss allow_last before)"
| "walk_block (Block ss) allow_last pop_locals c =
     (let before = length (sc_locals c) in
      rbind (walk_stmts ss allow_last before (open_block c)) (close_block pop_locals before))"

text \<open>\<open>Chunk\<close> holds the body of the main function.\<close>

definition sema_analyze :: "block \<Rightarrow> unit result" where
  "sema_analyze body =
     rbind (walk_block body True True ctx0) (\<lambda>c. check_gotos (sc_scopes c) (sc_gotos c))"

end
