(* ===== verification/Lt_SemaProps.thy ===== *)
theory Lt_SemaProps
  imports Lt_Sema
begin

text \<open>
  What the semantic pass of \<open>Lt_Sema\<close> accepts, against the rules of the language.
\<close>

section \<open>What the pass accepts\<close>

text \<open>The rules of the language for \<open>break\<close> and labels: a \<open>break\<close> is inside a loop of its own
  function, and no block defines a label twice. The first argument says whether \<open>goto\<close> is
  allowed at all.\<close>

definition labels_of :: "stmt list \<Rightarrow> string list" where
  "labels_of ss = concat (map (\<lambda>s. case s of LabelStmt _ n \<Rightarrow> [n] | _ \<Rightarrow> []) ss)"

fun wf_expr :: "bool \<Rightarrow> expr \<Rightarrow> bool"
  and wf_exprs :: "bool \<Rightarrow> expr list \<Rightarrow> bool"
  and wf_opt :: "bool \<Rightarrow> expr option \<Rightarrow> bool"
  and wf_fields :: "bool \<Rightarrow> field list \<Rightarrow> bool"
  and wf_stmt :: "bool \<Rightarrow> bool \<Rightarrow> stmt \<Rightarrow> bool"
  and wf_branches :: "bool \<Rightarrow> bool \<Rightarrow> branch list \<Rightarrow> bool"
  and wf_else :: "bool \<Rightarrow> bool \<Rightarrow> block option \<Rightarrow> bool"
  and wf_stmts :: "bool \<Rightarrow> bool \<Rightarrow> stmt list \<Rightarrow> bool"
  and wf_block :: "bool \<Rightarrow> bool \<Rightarrow> block \<Rightarrow> bool" where
  "wf_expr g (ExprBin _ _ l r) \<longleftrightarrow> wf_expr g l \<and> wf_expr g r"
| "wf_expr g (ExprUn _ _ e) \<longleftrightarrow> wf_expr g e"
| "wf_expr g (ExprIndex _ t k) \<longleftrightarrow> wf_expr g t \<and> wf_expr g k"
| "wf_expr g (ExprField _ t _) \<longleftrightarrow> wf_expr g t"
| "wf_expr g (ExprCall _ f as _ _) \<longleftrightarrow> wf_expr g f \<and> wf_exprs g as"
| "wf_expr g (ExprParen _ e) \<longleftrightarrow> wf_expr g e"
| "wf_expr g (ExprTable _ fs) \<longleftrightarrow> wf_fields g fs"
| "wf_expr g (ExprFunction (Func _ _ _ b _)) \<longleftrightarrow> wf_block g False b"
| "wf_expr g _ \<longleftrightarrow> True"
| "wf_exprs g [] \<longleftrightarrow> True"
| "wf_exprs g (e # es) \<longleftrightarrow> wf_expr g e \<and> wf_exprs g es"
| "wf_opt g None \<longleftrightarrow> True"
| "wf_opt g (Some e) \<longleftrightarrow> wf_expr g e"
| "wf_fields g [] \<longleftrightarrow> True"
| "wf_fields g (Field k v _ # fs) \<longleftrightarrow> wf_opt g k \<and> wf_expr g v \<and> wf_fields g fs"
| "wf_stmt g loop (BreakStmt _) \<longleftrightarrow> loop"
| "wf_stmt g loop (GotoStmt _ _) \<longleftrightarrow> g"
| "wf_stmt g loop (LabelStmt _ _) \<longleftrightarrow> True"
| "wf_stmt g loop (WhileStmt _ cond b _) \<longleftrightarrow> wf_expr g cond \<and> wf_block g True b"
| "wf_stmt g loop (RepeatStmt _ b cond) \<longleftrightarrow> wf_block g True b \<and> wf_expr g cond"
| "wf_stmt g loop (ForNum _ _ from to step b _) \<longleftrightarrow> wf_expr g from \<and> wf_expr g to \<and> wf_opt g step \<and> wf_block g True b"
| "wf_stmt g loop (ForIn _ _ iters b _) \<longleftrightarrow> wf_exprs g iters \<and> wf_block g True b"
| "wf_stmt g loop (IfStmt _ brs els _ _) \<longleftrightarrow> wf_branches g loop brs \<and> wf_else g loop els"
| "wf_stmt g loop (LocalDecl _ _ vs) \<longleftrightarrow> wf_exprs g vs"
| "wf_stmt g loop (Assign _ vars vs) \<longleftrightarrow> wf_exprs g vars \<and> wf_exprs g vs"
| "wf_stmt g loop (ReturnStmt _ vs) \<longleftrightarrow> wf_exprs g vs"
| "wf_stmt g loop (CallStmt _ e) \<longleftrightarrow> wf_expr g e"
| "wf_stmt g loop (LocalFunction _ _ (Func _ _ _ b _)) \<longleftrightarrow> wf_block g False b"
| "wf_stmt g loop (FunctionDecl _ _ _ (Func _ _ _ b _)) \<longleftrightarrow> wf_block g False b"
| "wf_stmt g loop (DoBlock _ b) \<longleftrightarrow> wf_block g loop b"
| "wf_branches g loop [] \<longleftrightarrow> True"
| "wf_branches g loop (Branch cond b _ # brs) \<longleftrightarrow> wf_expr g cond \<and> wf_block g loop b \<and> wf_branches g loop brs"
| "wf_else g loop None \<longleftrightarrow> True"
| "wf_else g loop (Some b) \<longleftrightarrow> wf_block g loop b"
| "wf_stmts g loop [] \<longleftrightarrow> True"
| "wf_stmts g loop (s # ss) \<longleftrightarrow> wf_stmt g loop s \<and> wf_stmts g loop ss"
| "wf_block g loop (Block ss) \<longleftrightarrow> wf_stmts g loop ss \<and> distinct (labels_of ss)"

text \<open>The outcome of a step from \<open>c\<close>: success keeps the loop depth and the label scopes and shows \<open>P\<close>;
  when \<open>Q\<close> holds and no \<open>goto\<close> is pending, it succeeds with none pending.\<close>

definition outcome :: "bool \<Rightarrow> bool \<Rightarrow> sema_ctx \<Rightarrow> sema_ctx result \<Rightarrow> bool" where
  "outcome P Q c r \<longleftrightarrow>
     (case r of
        Inr c' \<Rightarrow> sc_loop c' = sc_loop c \<and> sc_scopes c' = sc_scopes c \<and> P \<and> (Q \<and> sc_gotos c = [] \<longrightarrow> sc_gotos c' = [])
      | Inl e \<Rightarrow> \<not> (Q \<and> sc_gotos c = []))"

lemma outcome_bind:
  assumes "outcome P Q c r" "\<And>c'. sc_loop c' = sc_loop c \<Longrightarrow> sc_scopes c' = sc_scopes c \<Longrightarrow> outcome P' Q' c' (f c')"
  shows "outcome (P \<and> P') (Q \<and> Q') c (rbind r f)"
proof (cases r)
  case (Inr c')
  then show ?thesis using assms(1) assms(2) [of c'] by (auto simp: outcome_def split: sum.splits)
qed (use assms(1) in \<open>auto simp: outcome_def\<close>)

lemma outcome_map:
  assumes "outcome P Q c r" "\<And>c'. sc_gotos (f c') = sc_gotos c'"
    and "\<And>c'. sc_loop c' = sc_loop c \<Longrightarrow> sc_scopes c' = sc_scopes c \<Longrightarrow> sc_loop (f c') = sc_loop d \<and> sc_scopes (f c') = sc_scopes d"
    and "sc_gotos d = sc_gotos c"
  shows "outcome P Q d (rbind r (\<lambda>c'. Inr (f c')))"
  using assms by (cases r) (auto simp: outcome_def)

lemma outcome_same: "outcome True Q c (Inr c)"
  by (simp add: outcome_def)

text \<open>Entering a nested function: nothing of the outer function is seen.\<close>

lemma outcome_function:
  assumes b: "outcome P Q c0 (walk_block b al pop c0)" and c0: "sc_gotos c0 = []" "sc_scopes c0 = []"
    and d: "sc_loop d = sc_loop c" "sc_scopes d = sc_scopes c" "sc_gotos d = sc_gotos c"
  shows "outcome P Q c (rbind (walk_block b al pop c0) (sema_function_end d))"
proof (cases "walk_block b al pop c0")
  case (Inl e)
  then show ?thesis using b c0 by (simp add: outcome_def)
next
  case (Inr n)
  have n: "sc_scopes n = []" "P" "Q \<Longrightarrow> sc_gotos n = []" using b c0 Inr by (auto simp: outcome_def)
  show ?thesis
  proof (cases "sc_gotos n")
    case Nil
    then show ?thesis using n d Inr by (simp add: outcome_def sema_function_end_def)
  next
    case (Cons g gs)
    then have "\<not> Q" using n(3) by auto
    then show ?thesis using n(1) Inr Cons by (simp add: outcome_def sema_function_end_def panic_def)
  qed
qed

text \<open>The statements of a block: \<open>ks\<close> are the labels its scope has so far.\<close>

definition stmts_outcome :: "stmt list \<Rightarrow> bool \<Rightarrow> bool \<Rightarrow> sema_ctx \<Rightarrow> sema_ctx result \<Rightarrow> bool" where
  "stmts_outcome ss P Q c r \<longleftrightarrow>
     (let ks = map fst (hd (sc_scopes c)); fresh = (distinct (labels_of ss) \<and> set (labels_of ss) \<inter> set ks = {}) in
      case r of
        Inr c' \<Rightarrow> sc_loop c' = sc_loop c \<and> length (sc_scopes c') = length (sc_scopes c) \<and> tl (sc_scopes c') = tl (sc_scopes c) \<and>
          P \<and> fresh \<and> (Q \<and> sc_gotos c = [] \<longrightarrow> sc_gotos c' = [])
      | Inl e \<Rightarrow> \<not> (Q \<and> fresh \<and> sc_gotos c = []))"

lemma labels_of_simps [simp]:
  "labels_of [] = []" "labels_of (LabelStmt l n # ss) = n # labels_of ss"
  "\<not> is_label s \<Longrightarrow> labels_of (s # ss) = labels_of ss"
  by (simp_all add: labels_of_def) (cases s; simp)

lemma outcome_close:
  assumes "stmts_outcome ss P Q (open_block c) r"
  shows "outcome (P \<and> distinct (labels_of ss)) (Q \<and> distinct (labels_of ss)) c (rbind r (close_block pop before))"
proof (cases r)
  case (Inl e)
  then show ?thesis using assms by (auto simp: outcome_def stmts_outcome_def open_block_def)
next
  case (Inr c')
  show ?thesis
  proof (cases "sc_gotos c'")
    case Nil
    then show ?thesis using assms Inr by (auto simp: outcome_def stmts_outcome_def open_block_def close_block_def Let_def)
  next
    case (Cons g gs)
    then have "\<not> (Q \<and> sc_gotos c = [])" using assms Inr by (auto simp: stmts_outcome_def open_block_def)
    then show ?thesis using assms Inr
      by (auto simp: outcome_def stmts_outcome_def open_block_def close_block_def Let_def rbind_def split: sum.splits)
  qed
qed

lemma stmts_outcome_label:
  assumes "sc_scopes c \<noteq> []" and rest: "\<And>c'. sc_loop c' = sc_loop c \<Longrightarrow> sc_gotos c' = sc_gotos c \<Longrightarrow> sc_scopes c' \<noteq> [] \<Longrightarrow>
      tl (sc_scopes c') = tl (sc_scopes c) \<Longrightarrow> map fst (hd (sc_scopes c')) = n # map fst (hd (sc_scopes c)) \<Longrightarrow>
      stmts_outcome ss P Q c' (f c')"
  shows "stmts_outcome (LabelStmt l n # ss) P Q c (rbind (add_label al before n ss c) f)"
proof (cases "n \<in> fst ` set (hd (sc_scopes c))")
  case True
  then have "map_of (hd (sc_scopes c)) n \<noteq> None" by (simp add: map_of_eq_None_iff)
  then have "add_label al before n ss c = panic (''label '' @ quoted n @ '' already defined'')" by (simp add: add_label_def)
  then show ?thesis using True by (simp add: stmts_outcome_def panic_def)
next
  case False
  then have "map_of (hd (sc_scopes c)) n = None" by (simp add: map_of_eq_None_iff)
  then obtain labs where a: "add_label al before n ss c = Inr (c\<lparr>sc_scopes := ((n, labs) # hd (sc_scopes c)) # tl (sc_scopes c)\<rparr>)"
    by (simp add: add_label_def Let_def)
  show ?thesis using rest [of "c\<lparr>sc_scopes := ((n, labs) # hd (sc_scopes c)) # tl (sc_scopes c)\<rparr>"] assms(1) False
    by (auto simp: a stmts_outcome_def Let_def split: sum.splits)
qed

lemma stmts_outcome_stmt:
  assumes "\<not> is_label s" "outcome P Q c r" "\<And>c'. sc_loop c' = sc_loop c \<Longrightarrow> sc_scopes c' = sc_scopes c \<Longrightarrow> stmts_outcome ss P' Q' c' (f c')"
  shows "stmts_outcome (s # ss) (P \<and> P') (Q \<and> Q') c (rbind r f)"
proof (cases r)
  case (Inr c')
  then show ?thesis using assms(1,2) assms(3) [of c'] by (auto simp: outcome_def stmts_outcome_def Let_def split: sum.splits)
qed (use assms in \<open>auto simp: outcome_def stmts_outcome_def\<close>)

definition in_loop :: "sema_ctx \<Rightarrow> bool \<Rightarrow> bool" where
  "in_loop c loop \<longleftrightarrow> 0 \<le> sc_loop c \<and> loop = (0 < sc_loop c)"

lemma in_loop_simps [simp]:
  "in_loop c loop \<Longrightarrow> in_loop (enter_loop c) True" "in_loop (add_locals ns c) loop = in_loop c loop"
  "in_loop (open_block c) loop = in_loop c loop" "in_loop ctx0 False"
  by (auto simp: in_loop_def enter_loop_def add_locals_def open_block_def ctx0_def)

lemma in_loop_same: "in_loop c loop \<Longrightarrow> sc_loop c' = sc_loop c \<Longrightarrow> in_loop c' loop"
  by (simp add: in_loop_def)

lemma outcome_loop:
  assumes "outcome P Q (add_locals ns (enter_loop c)) r" "\<And>c'. sc_gotos (f c') = sc_gotos c'"
    "\<And>c'. sc_loop (f c') = sc_loop c' - 1 \<and> sc_scopes (f c') = sc_scopes c'"
  shows "outcome P Q c (rbind r (\<lambda>c'. Inr (f c')))"
  by (rule outcome_map [OF assms(1,2)]) (simp_all add: assms(3) enter_loop_def add_locals_def)

lemma outcome_function_body:
  assumes "\<forall>loop. in_loop (add_locals ps ctx0) loop \<longrightarrow>
      outcome (wf_block True loop b) (wf_block False loop b) (add_locals ps ctx0) (walk_block b True True (add_locals ps ctx0))"
    and "sc_loop d = sc_loop c" "sc_scopes d = sc_scopes c" "sc_gotos d = sc_gotos c"
  shows "outcome (wf_block True False b) (wf_block False False b) c
    (rbind (walk_block b True True (add_locals ps ctx0)) (sema_function_end d))"
  by (rule outcome_function [OF _ _ _ assms(2-4)]) (use assms(1) in \<open>auto simp: add_locals_def ctx0_def in_loop_def\<close>)

lemma add_locals_Nil [simp]: "add_locals [] c = c"
  by (simp add: add_locals_def)

lemma walk_outcome:
  "outcome (wf_expr True e) (wf_expr False e) c (walk_expr e c)"
  "outcome (wf_exprs True es) (wf_exprs False es) c (walk_exprs es c)"
  "outcome (wf_opt True ko) (wf_opt False ko) c (walk_opt ko c)"
  "outcome (wf_fields True fs) (wf_fields False fs) c (walk_fields fs c)"
  "\<forall>loop. in_loop c loop \<longrightarrow> outcome (wf_stmt True loop s) (wf_stmt False loop s) c (walk_stmt s c)"
  "\<forall>loop. in_loop c loop \<longrightarrow> outcome (wf_branches True loop brs) (wf_branches False loop brs) c (walk_branches brs c)"
  "\<forall>loop. in_loop c loop \<longrightarrow> outcome (wf_else True loop els) (wf_else False loop els) c (walk_else els c)"
  "\<forall>loop. in_loop c loop \<longrightarrow> sc_scopes c \<noteq> [] \<longrightarrow>
     stmts_outcome ss (wf_stmts True loop ss) (wf_stmts False loop ss) c (walk_stmts ss al before c)"
  "\<forall>loop. in_loop c loop \<longrightarrow> outcome (wf_block True loop b) (wf_block False loop b) c (walk_block b al pop c)"
proof (induction e c and es c and ko c and fs c and s c and brs c and els c and ss al before c and b al pop c
    rule: walk_expr_walk_exprs_walk_opt_walk_fields_walk_stmt_walk_branches_walk_else_walk_stmts_walk_block.induct)
  case (1 l op a b c)
  then show ?case by (simp add: outcome_bind)
next
  case (3 l t k c)
  then show ?case by (simp add: outcome_bind)
next
  case (5 l f as m n c)
  then show ?case by (simp add: outcome_bind)
next
  case (8 l ps va b ll c)
  then show ?case unfolding walk_expr.simps wf_expr.simps by (rule outcome_function_body) simp_all
next
  case (11 e es c)
  then show ?case by (simp add: outcome_bind)
next
  case (15 k v n fs c)
  then show ?case by (simp add: outcome_bind)
next
  case (16 l c)
  then show ?case by (auto simp: outcome_def panic_def in_loop_def)
next
  case (17 l n c)
  then show ?case by (simp add: outcome_def)
next
  case (19 l cond b el c)
  have "outcome (wf_block True True b) (wf_block False True b) c'
      (rbind (walk_block b True True (enter_loop c')) (\<lambda>c'. Inr (c'\<lparr>sc_loop := sc_loop c' - 1\<rparr>)))" if "in_loop c' loop" for c' loop
    by (rule outcome_loop [where ns = "[]"]) (use 19(2) that in simp_all)
  note body = this
  show ?case unfolding walk_stmt.simps wf_stmt.simps
    by (intro allI impI, rule outcome_bind [OF 19(1)], rule body, erule in_loop_same, assumption)
next
  case (20 l b cond c)
  have "outcome (wf_block True True b \<and> wf_expr True cond) (wf_block False True b \<and> wf_expr False cond) c
      (rbind (rbind (walk_block b False False (enter_loop c)) (walk_expr cond)) (\<lambda>c2. Inr (leave_loop (length (sc_locals c)) c2)))"
    if "in_loop c loop" for loop
    by (rule outcome_loop [where ns = "[]"]) (use 20 that in \<open>simp_all add: leave_loop_def outcome_bind\<close>)
  then show ?case by (simp add: rbind_assoc)
next
  case (21 l n e1 e2 e3 b el c)
  have "outcome (wf_block True True b) (wf_block False True b) c'
      (rbind (walk_block b True True (add_locals [n] (enter_loop c'))) (\<lambda>c1. Inr (leave_loop (length (sc_locals c')) c1)))"
    if "in_loop c' loop" for c' loop
    by (rule outcome_loop [where ns = "[n]"]) (use 21(4) that in \<open>simp_all add: leave_loop_def\<close>)
  note body = this
  show ?case unfolding walk_stmt.simps wf_stmt.simps
    by (intro allI impI, rule outcome_bind [OF 21(1)], rule outcome_bind [OF 21(2)], rule outcome_bind [OF 21(3)],
        rule body, erule in_loop_same) simp
next
  case (22 l ns iters b el c)
  have "outcome (wf_block True True b) (wf_block False True b) c'
      (rbind (walk_block b True True (add_locals ns (enter_loop c'))) (\<lambda>c1. Inr (leave_loop (length (sc_locals c')) c1)))"
    if "in_loop c' loop" for c' loop
    by (rule outcome_loop [where ns = ns]) (use 22(2) that in \<open>simp_all add: leave_loop_def\<close>)
  note body = this
  show ?case unfolding walk_stmt.simps wf_stmt.simps
    by (intro allI impI, rule outcome_bind [OF 22(1)], rule body, erule in_loop_same, assumption)
next
  case (23 l brs els e1 e2 c)
  then show ?case by (auto simp: in_loop_same intro!: outcome_bind)
next
  case (24 l ns vs c)
  then show ?case by (auto intro!: outcome_map simp: add_locals_def)
next
  case (25 l vars vs c)
  then show ?case by (auto intro!: outcome_bind)
next
  case (28 l n fl ps va b ll c)
  then show ?case using outcome_function_body [of "[]" b "add_locals [n] c" c] by (simp add: add_locals_def [of "[n]"])
next
  case (29 l ns m fl ps va b ll c)
  then show ?case using outcome_function_body [of "[]" b c c] by simp
next
  case (32 cond b l brs c)
  then show ?case by (auto simp: in_loop_same intro!: outcome_bind)
next
  case (35 al before c)
  then show ?case by (simp add: stmts_outcome_def)
next
  case (36 s ss al before c)
  show ?case
  proof (intro allI impI)
    fix loop assume l: "in_loop c loop" "sc_scopes c \<noteq> []"
    show "stmts_outcome (s # ss) (wf_stmts True loop (s # ss)) (wf_stmts False loop (s # ss)) c (walk_stmts (s # ss) al before c)"
    proof (cases "is_label s")
      case True
      then obtain ln n where s: "s = LabelStmt ln n" by (cases s) auto
      show ?thesis using stmts_outcome_label [OF l(2), of n ss "wf_stmts True loop ss" "wf_stmts False loop ss" "walk_stmts ss al before" ln al before]
          36(15) l by (simp add: s in_loop_same)
    next
      case False
      then have "walk_stmts (s # ss) al before c = rbind (walk_stmt s c) (walk_stmts ss al before)" by (cases s) auto
      moreover have "outcome (wf_stmt True loop s) (wf_stmt False loop s) c (walk_stmt s c)"
        using False 36(1-14) l(1) by (cases s) auto
      ultimately show ?thesis using stmts_outcome_stmt [OF False] 36(15) l by (simp add: in_loop_same)
    qed
  qed
next
  case (37 ss al pop c)
  then show ?case by (auto simp: Let_def intro!: outcome_close) (simp add: open_block_def)
qed (simp_all add: outcome_same)

lemma analyze_outcome:
  "case sema_analyze b of Inr _ \<Rightarrow> wf_block True False b | Inl _ \<Rightarrow> \<not> wf_block False False b"
proof -
  have o: "outcome (wf_block True False b) (wf_block False False b) ctx0 (walk_block b True True ctx0)"
    using walk_outcome(9) [of ctx0 b True True] by simp
  show ?thesis
  proof (cases "walk_block b True True ctx0")
    case (Inr c)
    then show ?thesis using o by (cases "sc_gotos c") (auto simp: sema_analyze_def outcome_def ctx0_def split: sum.splits)
  qed (use o in \<open>auto simp: sema_analyze_def outcome_def ctx0_def\<close>)
qed

text \<open>C27: the semantic pass accepts only programs in which every \<open>break\<close> is inside a loop of its own
  function and no block defines a label twice, and it accepts every such program that has no
  \<open>goto\<close>: for those it is exactly this check, through every kind of statement and expression and
  every nested function.\<close>

theorem sema_accepts:
  "(sema_analyze b = Inr () \<longrightarrow> wf_block True False b) \<and> (wf_block False False b \<longrightarrow> sema_analyze b = Inr ())"
  using analyze_outcome [of b] by (cases "sema_analyze b") auto

text \<open>A loop with a \<open>break\<close> inside an \<open>if\<close>.\<close>

theorem sema_accepts_witness:
  "sema_analyze (Block [WhileStmt 1 (ExprBool 1 True)
      (Block [IfStmt 2 [Branch (ExprName 2 ''x'') (Block [BreakStmt 3]) 2] None 0 4, LabelStmt 5 ''l'']) 6]) = Inr ()"
  by (rule mp [OF conjunct2 [OF sema_accepts]]) simp

text \<open>Two programs with a label \<open>l\<close> in a sibling block of the \<open>goto\<close>: \<open>do goto l end do ::l:: end\<close>, and
  the same with a local before that label and an outer label \<open>l\<close> at the end, which is the
  only one the \<open>goto\<close> can see.\<close>

definition sibling_only :: block where
  "sibling_only = Block [DoBlock 1 (Block [GotoStmt 1 ''l'']), DoBlock 2 (Block [LabelStmt 2 ''l''])]"

definition sibling_and_outer :: block where
  "sibling_and_outer =
     Block [DoBlock 1 (Block [GotoStmt 1 ''l'']),
            DoBlock 2 (Block [LocalDecl 2 [''x''] [], LabelStmt 2 ''l'', CallStmt 2 (ExprCall 2 (ExprName 2 ''f'') [] False [])]),
            LabelStmt 3 ''l'']"


end
