(* ===== verification/Lt_Monad.thy ===== *)
theory Lt_Monad
  imports Lt_Prelude
begin

text \<open>
  Code that threads a state, may raise an error and runs loops whose number of rounds the model
  bounds: a command takes the state and gives \<open>None\<close> when the bound is reached, an error, or a
  value with the new state.
\<close>

type_synonym ('s, 'a) cmd = "'s \<Rightarrow> ('a \<times> 's) result option"

definition p_ret :: "'a \<Rightarrow> ('s, 'a) cmd" where
  "p_ret x s = Some (Inr (x, s))"

definition p_panic :: "string \<Rightarrow> ('s, 'a) cmd" where
  "p_panic msg s = Some (panic msg)"

definition p_out :: "('s, 'a) cmd" where
  "p_out s = None"

definition p_bind :: "('s, 'a) cmd \<Rightarrow> ('a \<Rightarrow> ('s, 'b) cmd) \<Rightarrow> ('s, 'b) cmd" where
  "p_bind m f s =
     (case m s of None \<Rightarrow> None | Some (Inl e) \<Rightarrow> Some (Inl e) | Some (Inr (x, s')) \<Rightarrow> f x s')"

definition p_upd :: "('s \<Rightarrow> 's) \<Rightarrow> ('s, unit) cmd" where
  "p_upd f s = Some (Inr ((), f s))"

definition p_get :: "('s \<Rightarrow> 'a) \<Rightarrow> ('s, 'a) cmd" where
  "p_get f s = Some (Inr (f s, s))"

text \<open>A step that needs no bound.\<close>

definition p_lift :: "('s \<Rightarrow> ('a \<times> 's) result) \<Rightarrow> ('s, 'a) cmd" where
  "p_lift f s = Some (f s)"

lemma p_bind_ret [simp]: "p_bind (p_ret x) f = f x"
  by (rule ext) (simp add: p_bind_def p_ret_def)

lemma p_bind_panic [simp]: "p_bind (p_panic msg) f = p_panic msg"
  by (rule ext) (simp add: p_bind_def p_panic_def panic_def)

lemma p_bind_assoc: "p_bind (p_bind m f) g = p_bind m (\<lambda>x. p_bind (f x) g)"
  by (rule ext) (simp add: p_bind_def split: option.splits sum.splits prod.splits)

lemma p_bind_value [simp]: "m s = Some (Inr (x, s')) \<Longrightarrow> p_bind m f s = f x s'"
  by (simp add: p_bind_def)

end
