(* ===== verification/Lt_Parser.thy ===== *)
theory Lt_Parser
  imports Lt_Ast Lt_LexerProps Lt_Monad
begin

text \<open>
  The parser: \<open>src/frontend/parser.cpp\<close>, a recursive descent over the lexer with one token of
  lookahead in the lexer and one token that can be put back. A parsing function takes the state of
  \<open>Parser\<close> and gives a result with the new state, or \<open>None\<close> when the bound on the recursion of
  the model is reached; \<open>Lt_ParserProps\<close> shows that this never happens. The mutually recursive
  functions of the class are definitions over a record of the four entry points they recurse
  through (\<open>parse_expr\<close>, \<open>parse_unary\<close>, \<open>parse_concat\<close> and \<open>parse_block\<close>), and \<open>parsers\<close> ties the knot.
\<close>

record parser =
  ps_lex :: lexer_state
  ps_strtod :: strtod_fun
  ps_chunk :: string
  ps_unget :: "token option"
  ps_ccalls :: int
  ps_nactvar :: int
  ps_func_line :: int
  ps_nactvars :: "int list"
  ps_func_lines :: "int list"

type_synonym 'a pm = "(parser, 'a) cmd"

section \<open>Tokens and errors\<close>


text \<open>\<open>format_chunkid\<close> of \<open>src/vm/ldebug.cpp\<close>: the name of a source in messages, at most 59 characters.\<close>

definition format_chunkid :: "string \<Rightarrow> string" where
  "format_chunkid source =
     (if source \<noteq> [] \<and> hd source = CHR ''='' then take 59 (tl source)
      else if source \<noteq> [] \<and> hd source = CHR ''@'' then
        (if length source - 1 \<le> 59 then tl source else ''...'' @ drop (length source - 56) source)
      else
        (let nl = (LF \<in> set source); len = length (takeWhile (\<lambda>c. c \<noteq> LF) source) in
         ''[string '' @ [DQUOTE] @
         (if len \<le> 48 \<and> \<not> nl then take len source else take (min len 45) source @ ''...'') @
         [DQUOTE] @ '']''))"

text \<open>A call of the lexer; an error it raises ends the parse.\<close>

definition lex_step :: "(lexer_state \<Rightarrow> (token \<times> lexer_state) result) \<Rightarrow> token pm" where
  "lex_step f s = Some (rbind (f (ps_lex s)) (\<lambda>(t, ls). Inr (t, s\<lparr>ps_lex := ls\<rparr>)))"

definition p_peek :: "token pm" where
  "p_peek s =
     (case ps_unget s of Some t \<Rightarrow> Some (Inr (t, s)) | None \<Rightarrow> lex_step (peek_token (ps_strtod s)) s)"

definition p_next :: "token pm" where
  "p_next s =
     (case ps_unget s of
        Some t \<Rightarrow> Some (Inr (t, s\<lparr>ps_unget := None\<rparr>))
      | None \<Rightarrow> lex_step (next_token (ps_strtod s)) s)"

definition unget :: "token \<Rightarrow> unit pm" where
  "unget t s =
     (if ps_unget s \<noteq> None then Some (panic ''parser unget overflow'')
      else Some (Inr ((), s\<lparr>ps_unget := Some t\<rparr>)))"

definition check :: "token_kind \<Rightarrow> bool pm" where
  "check k = p_bind p_peek (\<lambda>t. p_ret (tk_kind t = k))"

text \<open>\<open>check(k)\<close> and, when it holds, \<open>next()\<close>: the token has the line \<open>peek()\<close> had.\<close>

definition accept :: "token_kind \<Rightarrow> token option pm" where
  "accept k = p_bind (check k) (\<lambda>b. if b then p_bind p_next (\<lambda>t. p_ret (Some t)) else p_ret None)"

definition p_match :: "token_kind \<Rightarrow> bool pm" where
  "p_match k = p_bind (accept k) (\<lambda>t. p_ret (t \<noteq> None))"

definition p_error :: "string \<Rightarrow> 'a pm" where
  "p_error msg =
     p_bind p_peek (\<lambda>t. p_bind (p_get ps_chunk) (\<lambda>chunk.
       p_panic (format_chunkid chunk @ '':'' @ dec_int (tk_line t) @ '': '' @ msg @ '' near '' @ token_to_near t)))"

definition expect :: "token_kind \<Rightarrow> string \<Rightarrow> token pm" where
  "expect k msg = p_bind (accept k) (\<lambda>t. case t of Some t \<Rightarrow> p_ret t | None \<Rightarrow> p_error msg)"

text \<open>The message \<open>expected 'x'\<close>.\<close>

definition expected :: "string \<Rightarrow> string" where
  "expected s = ''expected '' @ [SQUOTE] @ s @ [SQUOTE]"

section \<open>Levels and functions\<close>

definition enterlevel :: "unit pm" where
  "enterlevel =
     p_bind (p_upd (\<lambda>s. s\<lparr>ps_ccalls := ps_ccalls s + 1\<rparr>)) (\<lambda>_.
     p_bind (p_get ps_ccalls) (\<lambda>n. if LUAI_MAXCCALLS < n then p_error ''too many C levels'' else p_ret ()))"

definition leavelevel :: "unit pm" where
  "leavelevel = p_upd (\<lambda>s. if 0 < ps_ccalls s then s\<lparr>ps_ccalls := ps_ccalls s - 1\<rparr> else s)"

text \<open>The scope of a \<open>LevelGuard\<close>.\<close>

definition guarded :: "'a pm \<Rightarrow> 'a pm" where
  "guarded m = p_bind enterlevel (\<lambda>_. p_bind m (\<lambda>x. p_bind leavelevel (\<lambda>_. p_ret x)))"

definition enterfunc :: "int \<Rightarrow> unit pm" where
  "enterfunc linedefined =
     p_upd (\<lambda>s. s\<lparr>ps_nactvars := ps_nactvar s # ps_nactvars s, ps_func_lines := ps_func_line s # ps_func_lines s,
                  ps_nactvar := 0, ps_func_line := linedefined\<rparr>)"

definition leavefunc :: "unit pm" where
  "leavefunc =
     p_upd (\<lambda>s. s\<lparr>ps_nactvar := (case ps_nactvars s of n # _ \<Rightarrow> n | [] \<Rightarrow> 0), ps_nactvars := tl (ps_nactvars s),
                  ps_func_line := (case ps_func_lines s of n # _ \<Rightarrow> n | [] \<Rightarrow> 0), ps_func_lines := tl (ps_func_lines s)\<rparr>)"

definition new_localvar :: "unit pm" where
  "new_localvar =
     p_bind (p_upd (\<lambda>s. s\<lparr>ps_nactvar := ps_nactvar s + 1\<rparr>)) (\<lambda>_.
     p_bind (p_get id) (\<lambda>s.
       if MAXVARS < ps_nactvar s then
         p_bind p_peek (\<lambda>t.
           p_panic (format_chunkid (ps_chunk s) @ '':'' @ dec_int (tk_line t) @ '': too many local variables (limit is '' @
             dec_int MAXVARS @ '') in '' @
             (if ps_func_line s = 0 then ''main function'' else ''function at line '' @ dec_int (ps_func_line s))))
       else p_ret ()))"

section \<open>Expressions\<close>

record entries =
  r_fuel :: nat
  r_expr :: "expr pm"
  r_unary :: "expr pm"
  r_concat :: "expr pm"
  r_block :: "block pm"

text \<open>The bound for the loops of a function: every round reads a token.\<close>

definition rounds :: "entries \<Rightarrow> nat" where
  "rounds R = r_fuel R + 3"

primrec accept_any :: "(token_kind \<times> 'a) list \<Rightarrow> (token \<times> 'a) option pm" where
  "accept_any [] = p_ret None"
| "accept_any (k # ks) =
     p_bind (accept (fst k)) (\<lambda>t. case t of Some t \<Rightarrow> p_ret (Some (t, snd k)) | None \<Rightarrow> accept_any ks)"

primrec expr_list_loop :: "nat \<Rightarrow> expr pm \<Rightarrow> expr list \<Rightarrow> expr list pm" where
  "expr_list_loop 0 pe acc = p_out"
| "expr_list_loop (Suc n) pe acc =
     p_bind (p_match (TkSym Comma)) (\<lambda>b.
       if b then p_bind pe (\<lambda>e. expr_list_loop n pe (acc @ [e])) else p_ret acc)"

definition parse_expr_list :: "entries \<Rightarrow> expr list pm" where
  "parse_expr_list R = p_bind (r_expr R) (\<lambda>e. expr_list_loop (rounds R) (r_expr R) [e])"

text \<open>The loop of the left-associative levels.\<close>

primrec binary_loop :: "nat \<Rightarrow> (token_kind \<times> bin_op) list \<Rightarrow> expr pm \<Rightarrow> expr \<Rightarrow> expr pm" where
  "binary_loop 0 ops sub e = p_out"
| "binary_loop (Suc n) ops sub e =
     p_bind (accept_any ops) (\<lambda>t.
       case t of
         None \<Rightarrow> p_ret e
       | Some (t, op) \<Rightarrow> p_bind sub (\<lambda>rhs. binary_loop n ops sub (ExprBin (tk_line t) op e rhs)))"

definition binary :: "entries \<Rightarrow> (token_kind \<times> bin_op) list \<Rightarrow> expr pm \<Rightarrow> expr pm" where
  "binary R ops sub = p_bind sub (binary_loop (rounds R) ops sub)"

primrec names_loop :: "nat \<Rightarrow> token_kind \<Rightarrow> bool \<Rightarrow> string list \<Rightarrow> string list pm" where
  "names_loop 0 sep is_local acc = p_out"
| "names_loop (Suc n) sep is_local acc =
     p_bind (p_match sep) (\<lambda>b.
       if b then p_bind (expect TkIdentifier ''expected name'') (\<lambda>t.
         p_bind (if is_local then new_localvar else p_ret ()) (\<lambda>_. names_loop n sep is_local (acc @ [tk_text t])))
       else p_ret acc)"

primrec params_loop :: "nat \<Rightarrow> string list \<Rightarrow> (string list \<times> bool) pm" where
  "params_loop 0 acc = p_out"
| "params_loop (Suc n) acc =
     p_bind (p_match (TkSym Comma)) (\<lambda>b.
       if b then
         p_bind (p_match (TkSym DotDotDot)) (\<lambda>dots.
           if dots then p_ret (acc, True)
           else p_bind (expect TkIdentifier ''expected name'') (\<lambda>t. p_bind new_localvar (\<lambda>_. params_loop n (acc @ [tk_text t]))))
       else p_ret (acc, False))"

definition parse_params :: "entries \<Rightarrow> string list \<Rightarrow> (string list \<times> bool) pm" where
  "parse_params R acc =
     p_bind (check (TkSym RParen)) (\<lambda>empty.
       if empty then p_ret (acc, False)
       else p_bind (p_match (TkSym DotDotDot)) (\<lambda>dots.
         if dots then p_ret (acc, True)
         else p_bind (expect TkIdentifier ''expected name'') (\<lambda>t. p_bind new_localvar (\<lambda>_. params_loop (rounds R) (acc @ [tk_text t])))))"

definition parse_function_body :: "entries \<Rightarrow> int \<Rightarrow> bool \<Rightarrow> func pm" where
  "parse_function_body R defline is_method =
     p_bind (enterfunc defline) (\<lambda>_.
     p_bind (if is_method then new_localvar else p_ret ()) (\<lambda>_.
     p_bind (expect (TkSym LParen) (expected ''('')) (\<lambda>_.
     p_bind (parse_params R (if is_method then [''self''] else [])) (\<lambda>(params, is_vararg).
     p_bind (expect (TkSym RParen) (expected '')'')) (\<lambda>_.
     p_bind (r_block R) (\<lambda>body.
     p_bind (expect (TkKw KwEnd) (expected ''end'')) (\<lambda>t.
     p_bind leavefunc (\<lambda>_. p_ret (Func defline params is_vararg body (tk_line t))))))))))"

definition parse_field :: "entries \<Rightarrow> field pm" where
  "parse_field R =
     p_bind (p_match (TkSym LBracket)) (\<lambda>br.
       if br then
         p_bind (r_expr R) (\<lambda>k.
         p_bind (expect (TkSym RBracket) (expected '']'')) (\<lambda>_.
         p_bind (expect (TkSym Eq) (expected ''='')) (\<lambda>_.
         p_bind (r_expr R) (\<lambda>v. p_ret (Field (Some k) v [])))))
       else
         p_bind (accept TkIdentifier) (\<lambda>saved.
           case saved of
             Some saved \<Rightarrow>
               p_bind (p_match (TkSym Eq)) (\<lambda>eq.
                 if eq then p_bind (r_expr R) (\<lambda>v. p_ret (Field None v (tk_text saved)))
                 else p_bind (unget saved) (\<lambda>_. p_bind (r_expr R) (\<lambda>v. p_ret (Field None v []))))
           | None \<Rightarrow> p_bind (r_expr R) (\<lambda>v. p_ret (Field None v []))))"

primrec table_loop :: "nat \<Rightarrow> entries \<Rightarrow> field list \<Rightarrow> field list pm" where
  "table_loop 0 R acc = p_out"
| "table_loop (Suc n) R acc =
     p_bind (check (TkSym RBrace)) (\<lambda>close. p_bind (check TkEnd) (\<lambda>eof.
       if close \<or> eof then p_ret acc
       else p_bind (parse_field R) (\<lambda>f.
         p_bind (accept_any [(TkSym Comma, ()), (TkSym Semi, ())]) (\<lambda>sep.
           if sep = None then p_ret (acc @ [f]) else table_loop n R (acc @ [f])))))"

definition parse_table :: "entries \<Rightarrow> expr pm" where
  "parse_table R =
     p_bind (expect (TkSym LBrace) (expected ''{'')) (\<lambda>t.
     p_bind (table_loop (rounds R) R []) (\<lambda>fields.
     p_bind (accept (TkSym RBrace)) (\<lambda>close.
       if close = None then
         p_error ([SQUOTE] @ ''}'' @ [SQUOTE] @ '' expected (to close '' @ [SQUOTE] @ ''{'' @ [SQUOTE] @ '' at line '' @ dec_int (tk_line t) @ '')'')
       else p_ret (ExprTable (tk_line t) fields))))"

definition parse_primary :: "entries \<Rightarrow> expr pm" where
  "parse_primary R =
     p_bind (accept_any
       [(TkKw KwNil, \<lambda>t. p_ret (ExprNil (tk_line t))),
        (TkKw KwTrue, \<lambda>t. p_ret (ExprBool (tk_line t) True)),
        (TkKw KwFalse, \<lambda>t. p_ret (ExprBool (tk_line t) False)),
        (TkInteger, \<lambda>t. p_ret (ExprInt (tk_line t) (tk_integer t))),
        (TkNumber, \<lambda>t. p_ret (ExprFloat (tk_line t) (tk_number t))),
        (TkString, \<lambda>t. p_ret (ExprString (tk_line t) (tk_text t))),
        (TkSym DotDotDot, \<lambda>t. p_ret (ExprVararg (tk_line t))),
        (TkIdentifier, \<lambda>t. p_ret (ExprName (tk_line t) (tk_text t))),
        (TkSym LParen, \<lambda>t.
           p_bind (r_expr R) (\<lambda>e.
           p_bind (expect (TkSym RParen) (expected '')'')) (\<lambda>_. p_ret (ExprParen (tk_line t) e))))]) (\<lambda>r.
     case r of
       Some (t, act) \<Rightarrow> act t
     | None \<Rightarrow>
         p_bind (check (TkSym LBrace)) (\<lambda>brace.
           if brace then parse_table R
           else p_bind (accept (TkKw KwFunction)) (\<lambda>f.
             case f of
               Some t \<Rightarrow> p_bind (parse_function_body R (tk_line t) False) (\<lambda>fn. p_ret (ExprFunction fn))
             | None \<Rightarrow> p_error ''unexpected symbol'')))"

text \<open>The arguments of a call after \<open>(\<close>.\<close>

definition paren_args :: "entries \<Rightarrow> expr list pm" where
  "paren_args R =
     p_bind (check (TkSym RParen)) (\<lambda>empty.
     p_bind (if empty then p_ret [] else parse_expr_list R) (\<lambda>as.
     p_bind (expect (TkSym RParen) (expected '')'')) (\<lambda>_. p_ret as)))"

definition method_args :: "entries \<Rightarrow> expr list pm" where
  "method_args R =
     p_bind (p_match (TkSym LParen)) (\<lambda>paren.
       if paren then paren_args R
       else p_bind (accept TkString) (\<lambda>t.
         case t of
           Some t \<Rightarrow> p_ret [ExprString (tk_line t) (tk_text t)]
         | None \<Rightarrow>
             p_bind (check (TkSym LBrace)) (\<lambda>brace.
               if brace then p_bind (parse_table R) (\<lambda>e. p_ret [e]) else p_error ''expected method arguments'')))"

definition node_line :: "expr \<Rightarrow> token \<Rightarrow> int" where
  "node_line e t = (if 0 < expr_line e then expr_line e else tk_line t)"

text \<open>One round of \<open>parse_suffix\<close>; \<open>None\<close> ends its loop.\<close>

definition suffix_step :: "entries \<Rightarrow> expr \<Rightarrow> expr option pm" where
  "suffix_step R e =
     p_bind (accept_any
       [(TkSym Dot, \<lambda>t.
           p_bind (expect TkIdentifier ''expected field'') (\<lambda>f. p_ret (ExprField (node_line e t) e (tk_text f)))),
        (TkSym LBracket, \<lambda>t.
           p_bind (r_expr R) (\<lambda>k.
           p_bind (expect (TkSym RBracket) (expected '']'')) (\<lambda>_. p_ret (ExprIndex (node_line e t) e k)))),
        (TkSym Colon, \<lambda>t.
           p_bind (expect TkIdentifier ''expected method'') (\<lambda>m.
           p_bind (method_args R) (\<lambda>as. p_ret (ExprCall (node_line e t) e as True (tk_text m))))),
        (TkSym LParen, \<lambda>t. p_bind (paren_args R) (\<lambda>as. p_ret (ExprCall (node_line e t) e as False []))),
        (TkString, \<lambda>t. p_ret (ExprCall (expr_line e) e [ExprString (tk_line t) (tk_text t)] False []))]) (\<lambda>r.
     case r of
       Some (t, act) \<Rightarrow> p_bind (act t) (\<lambda>e'. p_ret (Some e'))
     | None \<Rightarrow>
         p_bind (check (TkSym LBrace)) (\<lambda>brace.
           if brace then p_bind (parse_table R) (\<lambda>a. p_ret (Some (ExprCall (expr_line e) e [a] False []))) else p_ret None))"

primrec suffix_loop :: "nat \<Rightarrow> entries \<Rightarrow> expr \<Rightarrow> expr pm" where
  "suffix_loop 0 R e = p_out"
| "suffix_loop (Suc n) R e =
     p_bind (suffix_step R e) (\<lambda>r. case r of None \<Rightarrow> p_ret e | Some e' \<Rightarrow> suffix_loop n R e')"

definition parse_suffix :: "entries \<Rightarrow> expr \<Rightarrow> expr pm" where
  "parse_suffix R = suffix_loop (rounds R) R"

definition parse_power :: "entries \<Rightarrow> expr pm" where
  "parse_power R =
     p_bind p_peek (\<lambda>t. let allow_suffix = (tk_kind t \<in> {TkIdentifier, TkSym LParen, TkSym DotDotDot}) in
     p_bind (parse_primary R) (\<lambda>e.
     p_bind (if allow_suffix then parse_suffix R e else p_ret e) (\<lambda>e.
     p_bind (check (TkSym Caret)) (\<lambda>caret.
       if caret then
         guarded (p_bind (expect (TkSym Caret) []) (\<lambda>t. p_bind (r_unary R) (\<lambda>rhs. p_ret (ExprBin (tk_line t) Pow e rhs))))
       else p_ret e))))"

definition unary_ops :: "(token_kind \<times> un_op) list" where
  "unary_ops = [(TkKw KwNot, Not), (TkSym Hash, Len), (TkSym Minus, Neg), (TkSym Tilde, Bnot)]"

definition parse_unary :: "entries \<Rightarrow> expr pm" where
  "parse_unary R =
     p_bind p_peek (\<lambda>t.
       case map_of unary_ops (tk_kind t) of
         Some op \<Rightarrow> guarded (p_bind (expect (tk_kind t) []) (\<lambda>t. p_bind (r_unary R) (\<lambda>e. p_ret (ExprUn (tk_line t) op e))))
       | None \<Rightarrow> parse_power R)"

definition parse_mul :: "entries \<Rightarrow> expr pm" where
  "parse_mul R =
     binary R [(TkSym Star, Mul), (TkSym Slash, Div), (TkSym SlashSlash, IDiv), (TkSym Percent, Mod)] (parse_unary R)"

definition parse_add :: "entries \<Rightarrow> expr pm" where
  "parse_add R = binary R [(TkSym Plus, Add), (TkSym Minus, Sub)] (parse_mul R)"

definition parse_concat :: "entries \<Rightarrow> expr pm" where
  "parse_concat R =
     p_bind (parse_add R) (\<lambda>e.
     p_bind (check (TkSym DotDot)) (\<lambda>dots.
       if dots then
         guarded (p_bind (expect (TkSym DotDot) []) (\<lambda>t. p_bind (r_concat R) (\<lambda>rhs. p_ret (ExprBin (tk_line t) Concat e rhs))))
       else p_ret e))"

definition parse_shift :: "entries \<Rightarrow> expr pm" where
  "parse_shift R = binary R [(TkSym LtLt, Shl), (TkSym GtGt, Shr)] (parse_concat R)"

definition parse_band :: "entries \<Rightarrow> expr pm" where
  "parse_band R = binary R [(TkSym Amp, Band)] (parse_shift R)"

definition parse_bxor :: "entries \<Rightarrow> expr pm" where
  "parse_bxor R = binary R [(TkSym Tilde, Bxor)] (parse_band R)"

definition parse_bor :: "entries \<Rightarrow> expr pm" where
  "parse_bor R = binary R [(TkSym Pipe, Bor)] (parse_bxor R)"

definition parse_compare :: "entries \<Rightarrow> expr pm" where
  "parse_compare R =
     binary R [(TkSym EqEq, OpEq), (TkSym TildeEq, OpNe), (TkSym Lt, OpLt), (TkSym LtEq, OpLe), (TkSym Gt, OpGt), (TkSym GtEq, OpGe)]
       (parse_bor R)"

definition parse_and :: "entries \<Rightarrow> expr pm" where
  "parse_and R = binary R [(TkKw KwAnd, And)] (parse_compare R)"

definition parse_or :: "entries \<Rightarrow> expr pm" where
  "parse_or R = binary R [(TkKw KwOr, Or)] (parse_and R)"

definition parse_expr :: "entries \<Rightarrow> expr pm" where
  "parse_expr R = guarded (parse_or R)"

section \<open>Statements\<close>

definition end_line :: "int pm" where
  "end_line = p_bind (expect (TkKw KwEnd) (expected ''end'')) (\<lambda>t. p_ret (tk_line t))"

primrec if_loop :: "nat \<Rightarrow> entries \<Rightarrow> branch list \<Rightarrow> branch list pm" where
  "if_loop 0 R acc = p_out"
| "if_loop (Suc n) R acc =
     p_bind (r_expr R) (\<lambda>cond.
     p_bind (expect (TkKw KwThen) (expected ''then'')) (\<lambda>t.
     p_bind (r_block R) (\<lambda>body.
     p_bind (p_match (TkKw KwElseif)) (\<lambda>more.
       if more then if_loop n R (acc @ [Branch cond body (tk_line t)]) else p_ret (acc @ [Branch cond body (tk_line t)])))))"

definition parse_if :: "entries \<Rightarrow> int \<Rightarrow> stmt pm" where
  "parse_if R line =
     p_bind (if_loop (rounds R) R []) (\<lambda>branches.
     p_bind (accept (TkKw KwElse)) (\<lambda>els.
     p_bind (case els of Some t \<Rightarrow> p_bind (r_block R) (\<lambda>b. p_ret (Some b, tk_line t)) | None \<Rightarrow> p_ret (None, 0)) (\<lambda>(else_body, else_line).
     p_bind end_line (\<lambda>e. p_ret (IfStmt line branches else_body else_line e)))))"

definition parse_while :: "entries \<Rightarrow> int \<Rightarrow> stmt pm" where
  "parse_while R line =
     p_bind (r_expr R) (\<lambda>cond.
     p_bind (expect (TkKw KwDo) (expected ''do'')) (\<lambda>_.
     p_bind (r_block R) (\<lambda>body.
     p_bind end_line (\<lambda>e. p_ret (WhileStmt line cond body e)))))"

definition parse_repeat :: "entries \<Rightarrow> int \<Rightarrow> stmt pm" where
  "parse_repeat R line =
     p_bind (r_block R) (\<lambda>body.
     p_bind (expect (TkKw KwUntil) (expected ''until'')) (\<lambda>_.
     p_bind (r_expr R) (\<lambda>cond. p_ret (RepeatStmt line body cond))))"

definition parse_for :: "entries \<Rightarrow> int \<Rightarrow> stmt pm" where
  "parse_for R line =
     p_bind (expect TkIdentifier ''expected name'') (\<lambda>name.
     p_bind (p_match (TkSym Eq)) (\<lambda>eq.
       if eq then
         p_bind (r_expr R) (\<lambda>from.
         p_bind (expect (TkSym Comma) (expected '','')) (\<lambda>_.
         p_bind (r_expr R) (\<lambda>to.
         p_bind (p_match (TkSym Comma)) (\<lambda>comma.
         p_bind (if comma then p_bind (r_expr R) (\<lambda>e. p_ret (Some e)) else p_ret None) (\<lambda>step.
         p_bind (expect (TkKw KwDo) (expected ''do'')) (\<lambda>_.
         p_bind (r_block R) (\<lambda>body.
         p_bind end_line (\<lambda>e. p_ret (ForNum line (tk_text name) from to step body e)))))))))
       else
         p_bind (names_loop (rounds R) (TkSym Comma) False [tk_text name]) (\<lambda>names.
         p_bind (expect (TkKw KwIn) (expected ''in'')) (\<lambda>_.
         p_bind (parse_expr_list R) (\<lambda>iters.
         p_bind (expect (TkKw KwDo) (expected ''do'')) (\<lambda>_.
         p_bind (r_block R) (\<lambda>body.
         p_bind end_line (\<lambda>e. p_ret (ForIn line names iters body e)))))))))"

definition parse_return :: "entries \<Rightarrow> int \<Rightarrow> stmt pm" where
  "parse_return R line =
     p_bind p_peek (\<lambda>t.
       if tk_kind t \<in> {TkKw KwEnd, TkKw KwElse, TkKw KwElseif, TkKw KwUntil, TkSym Semi, TkEnd} then p_ret (ReturnStmt line [])
       else p_bind (parse_expr_list R) (\<lambda>vs. p_ret (ReturnStmt line vs)))"

definition parse_function_stmt :: "entries \<Rightarrow> int \<Rightarrow> stmt pm" where
  "parse_function_stmt R line =
     p_bind (expect TkIdentifier ''expected name'') (\<lambda>name.
     p_bind (names_loop (rounds R) (TkSym Dot) False [tk_text name]) (\<lambda>path.
     p_bind (p_match (TkSym Colon)) (\<lambda>is_method.
     p_bind (if is_method then p_bind (expect TkIdentifier ''expected method'') (\<lambda>m. p_ret (path @ [tk_text m])) else p_ret path) (\<lambda>path.
     p_bind (parse_function_body R line is_method) (\<lambda>fn. p_ret (FunctionDecl line path is_method fn))))))"

definition parse_local :: "entries \<Rightarrow> int \<Rightarrow> stmt pm" where
  "parse_local R line =
     p_bind (p_match (TkKw KwFunction)) (\<lambda>fn.
       if fn then
         p_bind (expect TkIdentifier ''expected name'') (\<lambda>name.
         p_bind new_localvar (\<lambda>_.
         p_bind (parse_function_body R line False) (\<lambda>body. p_ret (LocalFunction line (tk_text name) body))))
       else
         p_bind (expect TkIdentifier ''expected name'') (\<lambda>name.
         p_bind new_localvar (\<lambda>_.
         p_bind (names_loop (rounds R) (TkSym Comma) True [tk_text name]) (\<lambda>names.
         p_bind (p_match (TkSym Eq)) (\<lambda>eq.
         p_bind (if eq then parse_expr_list R else p_ret []) (\<lambda>vs. p_ret (LocalDecl line names vs)))))))"

text \<open>PUC's \<open>primaryexp\<close>: only a name or \<open>(\<close> starts a statement expression or a target of an assignment.\<close>

definition suffixed :: "entries \<Rightarrow> expr pm" where
  "suffixed R =
     p_bind p_peek (\<lambda>t.
       if tk_kind t \<notin> {TkIdentifier, TkSym LParen} then p_error ''unexpected symbol''
       else p_bind (parse_primary R) (parse_suffix R))"

primrec targets_loop :: "nat \<Rightarrow> entries \<Rightarrow> int \<Rightarrow> expr list \<Rightarrow> expr list pm" where
  "targets_loop 0 R nvars acc = p_out"
| "targets_loop (Suc n) R nvars acc =
     p_bind (p_match (TkSym Comma)) (\<lambda>comma.
       if comma then
         p_bind (p_get ps_ccalls) (\<lambda>cc.
           if LUAI_MAXCCALLS < nvars + cc then p_error ''too many C levels''
           else p_bind (suffixed R) (\<lambda>v. targets_loop n R (nvars + 1) (acc @ [v])))
       else p_ret acc)"

fun is_call :: "expr \<Rightarrow> bool" where
  "is_call (ExprCall _ _ _ _ _) = True"
| "is_call _ = False"

definition parse_exprstat :: "entries \<Rightarrow> int \<Rightarrow> stmt pm" where
  "parse_exprstat R line =
     p_bind (suffixed R) (\<lambda>e.
     p_bind p_peek (\<lambda>t.
       if tk_kind t \<in> {TkSym Comma, TkSym Eq} then
         p_bind (targets_loop (rounds R) R 1 [e]) (\<lambda>vars.
         p_bind (expect (TkSym Eq) (expected ''='')) (\<lambda>_.
         p_bind (parse_expr_list R) (\<lambda>vs. p_ret (Assign line vars vs))))
       else if \<not> is_call e then p_error ''syntax error''
       else p_ret (CallStmt line e)))"

definition parse_stmt :: "entries \<Rightarrow> stmt pm" where
  "parse_stmt R =
     guarded (p_bind p_peek (\<lambda>t. let line = tk_line t in
       p_bind (accept_any
         [(TkKw KwIf, parse_if R line),
          (TkKw KwWhile, parse_while R line),
          (TkKw KwRepeat, parse_repeat R line),
          (TkKw KwFor, parse_for R line),
          (TkKw KwDo, p_bind (r_block R) (\<lambda>b. p_bind end_line (\<lambda>_. p_ret (DoBlock line b)))),
          (TkKw KwBreak, p_ret (BreakStmt line)),
          (TkKw KwGoto, p_bind (expect TkIdentifier ''expected label'') (\<lambda>l. p_ret (GotoStmt line (tk_text l)))),
          (TkSym ColonColon,
             p_bind (expect TkIdentifier ''expected label'') (\<lambda>l.
             p_bind (expect (TkSym ColonColon) (expected ''::'')) (\<lambda>_. p_ret (LabelStmt line (tk_text l))))),
          (TkKw KwReturn, parse_return R line),
          (TkKw KwFunction, parse_function_stmt R line),
          (TkKw KwLocal, parse_local R line)]) (\<lambda>r.
       case r of Some (_, act) \<Rightarrow> act | None \<Rightarrow> parse_exprstat R line)))"

primrec block_loop :: "nat \<Rightarrow> entries \<Rightarrow> stmt list \<Rightarrow> block pm" where
  "block_loop 0 R acc = p_out"
| "block_loop (Suc n) R acc =
     p_bind p_peek (\<lambda>t. let k = tk_kind t in
       if k \<in> {TkKw KwEnd, TkKw KwElse, TkKw KwElseif, TkKw KwUntil, TkEnd} then p_ret (Block acc)
       else if k = TkSym Semi then p_bind (expect (TkSym Semi) []) (\<lambda>_. block_loop n R acc)
       else p_bind (parse_stmt R) (\<lambda>s. p_bind (p_match (TkSym Semi)) (\<lambda>_.
         if k = TkKw KwReturn then p_ret (Block (acc @ [s])) else block_loop n R (acc @ [s]))))"

definition parse_block :: "entries \<Rightarrow> block pm" where
  "parse_block R = block_loop (rounds R) R []"

primrec parsers :: "nat \<Rightarrow> entries" where
  "parsers 0 = \<lparr>r_fuel = 0, r_expr = p_out, r_unary = p_out, r_concat = p_out, r_block = p_out\<rparr>"
| "parsers (Suc n) =
     (let R = parsers n in
      \<lparr>r_fuel = Suc n, r_expr = parse_expr R, r_unary = parse_unary R, r_concat = parse_concat R, r_block = parse_block R\<rparr>)"

section \<open>Chunks\<close>

definition parser_new :: "strtod_fun \<Rightarrow> string \<Rightarrow> string \<Rightarrow> parser" where
  "parser_new strtod src name =
     \<lparr>ps_lex = (lexer_new src, None), ps_strtod = strtod, ps_chunk = name, ps_unget = None, ps_ccalls = 0, ps_nactvar = 0,
      ps_func_line = 0, ps_nactvars = [], ps_func_lines = []\<rparr>"

definition parse_chunk :: "nat \<Rightarrow> block pm" where
  "parse_chunk n =
     p_bind (r_block (parsers n)) (\<lambda>body. p_bind (expect TkEnd ''expected end of file'') (\<lambda>_. p_ret body))"

text \<open>\<open>parse\<close>: every recursion that comes back to an entry point has read a token, and a source has
  no more tokens than bytes, so its length bounds the recursion.\<close>

definition parse :: "strtod_fun \<Rightarrow> string \<Rightarrow> string \<Rightarrow> block result option" where
  "parse strtod src name =
     map_option (\<lambda>r. rbind r (\<lambda>(b, _). Inr b)) (parse_chunk (length src + 2) (parser_new strtod src name))"

end
