(* ===== verification/Lt_ParserProps.thy ===== *)
theory Lt_ParserProps
  imports Lt_Parser
begin

text \<open>
  The parser of \<open>Lt_Parser\<close> always returns: the recursion and every loop read tokens, and the tokens
  of a source are bounded by its bytes.
\<close>

section \<open>What is left to read\<close>

definition todo :: "parser \<Rightarrow> nat" where
  "todo s =
     lx_rem (fst (ps_lex s)) +
     (case snd (ps_lex s) of Some t \<Rightarrow> if tk_kind t = TkEnd then 0 else 1 | None \<Rightarrow> 0) +
     (if ps_unget s = None then 0 else 1)"

text \<open>From a state with at most \<open>k\<close> to read, \<open>m\<close> stays within the bound, and what it leaves to read is at
  most \<open>Q\<close> of its result.\<close>

definition tri :: "'a pm \<Rightarrow> int \<Rightarrow> ('a \<Rightarrow> int) \<Rightarrow> bool" where
  "tri m k Q \<longleftrightarrow>
     (\<forall>s. int (todo s) \<le> k \<longrightarrow>
        (case m s of None \<Rightarrow> False | Some (Inl _) \<Rightarrow> True | Some (Inr (x, s')) \<Rightarrow> int (todo s') \<le> Q x))"

lemma tri_neg: "k < 0 \<Longrightarrow> tri m k Q"
  by (simp add: tri_def)

named_theorems tris \<open>rules for parsing functions\<close>

lemma tri_ret [tris]: "k \<le> Q x \<Longrightarrow> tri (p_ret x) k Q"
  by (simp add: tri_def p_ret_def)

lemma tri_panic [tris]: "tri (p_panic msg) k Q"
  by (simp add: tri_def p_panic_def panic_def)

lemma tri_bind: "tri m k Q \<Longrightarrow> (\<And>x. tri (f x) (Q x) Q') \<Longrightarrow> tri (p_bind m f) k Q'"
  unfolding tri_def p_bind_def by (fastforce split: option.splits sum.splits)

lemma tri_call: "tri m k (\<lambda>_. k) \<Longrightarrow> (\<And>x. tri (f x) k Q) \<Longrightarrow> tri (p_bind m f) k Q"
  by (rule tri_bind)

lemma tri_mono: "tri m k Q \<Longrightarrow> (\<And>x. Q x \<le> Q' x) \<Longrightarrow> tri m k Q'"
  unfolding tri_def by (fastforce split: option.splits sum.splits intro: order_trans)

lemma tri_upd [tris]: "(\<And>s. todo (h s) = todo s) \<Longrightarrow> tri (f ()) k Q \<Longrightarrow> tri (p_bind (p_upd h) f) k Q"
  by (simp add: tri_def p_bind_def p_upd_def)

lemma tri_get [tris]: "(\<And>x. tri (f x) k Q) \<Longrightarrow> tri (p_bind (p_get h) f) k Q"
  by (simp add: tri_def p_bind_def p_get_def)

lemma triI:
  assumes "\<And>s. int (todo s) \<le> k \<Longrightarrow> m s \<noteq> None" "\<And>s x s'. int (todo s) \<le> k \<Longrightarrow> m s = Some (Inr (x, s')) \<Longrightarrow> int (todo s') \<le> Q x"
  shows "tri m k Q"
  unfolding tri_def using assms by (fastforce split: option.splits sum.splits)

text \<open>Looking ahead caches the token, and reading a cached token that is not the end shortens the rest.\<close>

lemma p_peek_cases:
  assumes "p_peek s = Some (Inr (t, s'))"
  shows "todo s' \<le> todo s" "\<exists>s''. p_next s' = Some (Inr (t, s'')) \<and> todo s'' \<le> todo s' \<and> (tk_kind t \<noteq> TkEnd \<longrightarrow> todo s'' < todo s')"
proof -
  obtain lx c where ls: "ps_lex s = (lx, c)" by (cases "ps_lex s")
  have "todo s' \<le> todo s \<and> (\<exists>s''. p_next s' = Some (Inr (t, s'')) \<and> todo s'' \<le> todo s' \<and> (tk_kind t \<noteq> TkEnd \<longrightarrow> todo s'' < todo s'))"
  proof (cases "ps_unget s")
    case None
    show ?thesis
    proof (cases c)
      case c: None
      obtain lx' where l: "lex_one (ps_strtod s) lx = Inr (t, lx')" "s' = s\<lparr>ps_lex := (lx', Some t)\<rparr>"
        using assms None c ls by (auto simp: p_peek_def lex_step_def peek_token_def rbind_eq_Inr)
      have "moves lx lx'" "tk_kind t \<noteq> TkEnd \<Longrightarrow> lx_rem lx' < lx_rem lx"
        using lex_one_progress [OF l(1)] by (auto split: if_splits)
      then have "lx_rem lx' + (if tk_kind t = TkEnd then 0 else 1) \<le> lx_rem lx" using moves_rem by fastforce
      then show ?thesis using None c ls l(2) by (simp add: p_next_def lex_step_def next_token_def todo_def)
    next
      case (Some t0)
      then show ?thesis using assms None ls by (auto simp: p_peek_def p_next_def lex_step_def peek_token_def next_token_def todo_def)
    qed
  next
    case (Some t0)
    then show ?thesis using assms by (auto simp: p_peek_def p_next_def todo_def)
  qed
  then show "todo s' \<le> todo s" "\<exists>s''. p_next s' = Some (Inr (t, s'')) \<and> todo s'' \<le> todo s' \<and> (tk_kind t \<noteq> TkEnd \<longrightarrow> todo s'' < todo s')"
    by simp_all
qed

lemma p_peek_some: "p_peek s \<noteq> None" "p_next s \<noteq> None"
  by (auto simp: p_peek_def p_next_def lex_step_def split: option.splits)

lemma tri_peek [tris]: "(\<And>t. tri (f t) k Q) \<Longrightarrow> tri (p_bind p_peek f) k Q"
  by (rule tri_call [OF triI]) (auto simp: p_peek_some dest: p_peek_cases(1))

lemma tri_check [tris]: "(\<And>b. tri (f b) k Q) \<Longrightarrow> tri (p_bind (check t) f) k Q"
  unfolding check_def p_bind_assoc by (intro tris) simp

text \<open>A token that is accepted shortens the rest.\<close>

lemma accept_cases:
  assumes "accept kk s = Some (Inr (r, s'))"
  shows "todo s' \<le> todo s" "kk \<noteq> TkEnd \<Longrightarrow> r \<noteq> None \<Longrightarrow> todo s' < todo s"
proof -
  obtain t s1 where p: "p_peek s = Some (Inr (t, s1))"
    using assms by (cases "p_peek s") (auto simp: accept_def check_def p_bind_def split: sum.splits)
  note c = p_peek_cases [OF p]
  obtain s2 where n: "p_next s1 = Some (Inr (t, s2))" "todo s2 \<le> todo s1" "tk_kind t \<noteq> TkEnd \<Longrightarrow> todo s2 < todo s1"
    using c(2) by blast
  have "(r, s') = (if tk_kind t = kk then (Some t, s2) else (None, s1))"
    using assms p n(1) by (auto simp: accept_def check_def p_bind_def p_ret_def split: if_splits)
  then show "todo s' \<le> todo s" "kk \<noteq> TkEnd \<Longrightarrow> r \<noteq> None \<Longrightarrow> todo s' < todo s"
    using c(1) n(2,3) by (auto split: if_splits)
qed

lemma accept_some: "accept kk s \<noteq> None"
  using p_peek_some(1) [of s]
  by (auto simp: accept_def check_def p_bind_def p_ret_def p_peek_some(2) split: option.splits sum.splits)

lemma tri_accept [tris]:
  assumes "kk \<noteq> TkEnd" "\<And>t. tri (f (Some t)) (k - 1) Q" "tri (f None) k Q"
  shows "tri (p_bind (accept kk) f) k Q"
proof (rule tri_bind)
  show "tri (accept kk) k (\<lambda>r. if r = None then k else k - 1)"
  proof (rule triI)
    fix s r s' assume a: "int (todo s) \<le> k" "accept kk s = Some (Inr (r, s'))"
    show "int (todo s') \<le> (if r = None then k else k - 1)" using accept_cases [OF a(2)] a(1) assms(1) by auto
  qed (rule accept_some)
  show "tri (f r) (if r = None then k else k - 1) Q" for r using assms(2,3) by (cases r) auto
qed

lemma tri_match [tris]:
  "kk \<noteq> TkEnd \<Longrightarrow> tri (f True) (k - 1) Q \<Longrightarrow> tri (f False) k Q \<Longrightarrow> tri (p_bind (p_match kk) f) k Q"
  unfolding p_match_def p_bind_assoc by (intro tri_accept) simp_all

lemma tri_bind_panic [tris]: "tri (p_bind (p_panic msg) f) k Q"
  by (simp add: tri_panic)

lemma tri_error [tris]: "tri (p_error msg) k Q"
  unfolding p_error_def by (intro tris)

lemma tri_bind_error [tris]: "tri (p_bind (p_error msg) f) k Q"
  unfolding p_error_def p_bind_assoc by (intro tris)

lemma tri_expect [tris]:
  "kk \<noteq> TkEnd \<Longrightarrow> (\<And>t. tri (f t) (k - 1) Q) \<Longrightarrow> tri (p_bind (expect kk msg) f) k Q"
  unfolding expect_def p_bind_assoc
  by (intro tri_accept) (simp_all add: tri_bind_error)

lemma tri_any [tris]:
  assumes "list_all (\<lambda>x. fst x \<noteq> TkEnd) ks"
  shows "(\<And>t a. a \<in> snd ` set ks \<Longrightarrow> tri (f (Some (t, a))) (k - 1) Q) \<Longrightarrow> tri (f None) k Q \<Longrightarrow>
    tri (p_bind (accept_any ks) f) k Q"
  using assms
proof (induction ks)
  case Nil
  then show ?case by simp
next
  case (Cons x ks)
  then show ?case unfolding accept_any.simps p_bind_assoc
    by (intro tri_accept) simp_all
qed

declare accept_any.simps [simp del]

lemma todo_upds [simp]:
  "todo (s\<lparr>ps_ccalls := a\<rparr>) = todo s" "todo (s\<lparr>ps_nactvar := a\<rparr>) = todo s" "todo (s\<lparr>ps_func_line := a\<rparr>) = todo s"
  "todo (s\<lparr>ps_nactvars := b\<rparr>) = todo s" "todo (s\<lparr>ps_func_lines := b\<rparr>) = todo s"
  by (simp_all add: todo_def)

lemma tri_guarded:
  assumes "tri m k (\<lambda>_. k')"
  shows "tri (guarded m) k (\<lambda>_. k')"
  unfolding guarded_def enterlevel_def leavelevel_def p_bind_assoc
  by (intro tris) (auto intro!: tris tri_bind [OF assms])

lemma tri_if_bind: "(b \<Longrightarrow> tri (p_bind m f) k Q) \<Longrightarrow> (\<not> b \<Longrightarrow> tri (p_bind m' f) k Q) \<Longrightarrow> tri (p_bind (if b then m else m') f) k Q"
  by simp

lemma tri_localvar [tris]: "tri (f ()) k Q \<Longrightarrow> tri (p_bind new_localvar f) k Q"
  unfolding new_localvar_def p_bind_assoc
  by (intro tris tri_if_bind) (auto simp: p_bind_assoc intro!: tris)

lemma tri_funcs [tris]:
  "tri (f ()) k Q \<Longrightarrow> tri (p_bind (enterfunc l) f) k Q" "tri (f ()) k Q \<Longrightarrow> tri (p_bind leavefunc f) k Q"
  unfolding enterfunc_def leavefunc_def by (intro tris; simp)+

section \<open>The functions over the entry points\<close>

text \<open>What the parsing functions need of the entry points they recurse through.\<close>

locale entry_points =
  fixes R :: entries and n :: int
  assumes fuel: "int (r_fuel R) = n"
    and expr: "k < n \<Longrightarrow> tri (r_expr R) k (\<lambda>_. k)"
    and unary: "k < n \<Longrightarrow> tri (r_unary R) k (\<lambda>_. k)"
    and concat: "k < n \<Longrightarrow> tri (r_concat R) k (\<lambda>_. k)"
    and block: "k < n \<Longrightarrow> tri (r_block R) k (\<lambda>_. k)"
begin

lemmas calls = tri_call [OF expr] tri_call [OF unary] tri_call [OF concat] tri_call [OF block]

lemma rounds_fuel: "k \<le> n \<Longrightarrow> k < int (rounds R)"
  using fuel by (simp add: rounds_def)

lemma expr_list_loop_tri: "k < n \<Longrightarrow> k < int c \<Longrightarrow> tri (expr_list_loop c (r_expr R) acc) k (\<lambda>_. k)"
proof (induction c arbitrary: k acc)
  case (Suc c)
  show ?case unfolding expr_list_loop.simps
    by (intro tris) (use Suc in \<open>auto intro!: calls tri_mono [OF Suc.IH] tris\<close>)
qed (simp add: tri_neg)

lemma expr_list_tri: "k < n \<Longrightarrow> tri (parse_expr_list R) k (\<lambda>_. k)"
  unfolding parse_expr_list_def by (intro calls expr_list_loop_tri) (auto intro: rounds_fuel)

lemma binary_loop_tri:
  assumes "\<And>k. k \<le> n \<Longrightarrow> tri sub k (\<lambda>_. k)" "list_all (\<lambda>x. fst x \<noteq> TkEnd) ops"
  shows "k \<le> n \<Longrightarrow> k < int c \<Longrightarrow> tri (binary_loop c ops sub e) k (\<lambda>_. k)"
proof (induction c arbitrary: k e)
  case (Suc c)
  show ?case unfolding binary_loop.simps
    by (intro tri_any) (use Suc assms in \<open>auto intro!: tri_call [OF assms(1)] tri_mono [OF Suc.IH] tris\<close>)
qed (simp add: tri_neg)

lemma binary_tri:
  assumes "\<And>k. k \<le> n \<Longrightarrow> tri sub k (\<lambda>_. k)" "list_all (\<lambda>x. fst x \<noteq> TkEnd) ops" "k \<le> n"
  shows "tri (binary R ops sub) k (\<lambda>_. k)"
  unfolding binary_def using assms rounds_fuel by (auto intro!: tri_call [OF assms(1)] binary_loop_tri)

lemma names_loop_tri: "sep \<noteq> TkEnd \<Longrightarrow> k < int c \<Longrightarrow> tri (names_loop c sep loc acc) k (\<lambda>_. k)"
proof (induction c arbitrary: k acc)
  case (Suc c)
  have "tri (p_bind (if loc then new_localvar else p_ret ()) (\<lambda>_. names_loop c sep loc acc)) k' (\<lambda>_. k)" if "k' \<le> k - 2" for k' acc
    using that Suc.prems tri_mono [OF Suc.IH [of k']] by (intro tri_if_bind) (auto intro!: tris)
  then have "tri (p_bind (expect TkIdentifier ''expected name'') (\<lambda>t. p_bind (if loc then new_localvar else p_ret ())
      (\<lambda>_. names_loop c sep loc (acc @ [tk_text t])))) k' (\<lambda>_. k)" if "k' \<le> k - 1" for k'
    using that by (intro tri_expect) simp_all
  then show ?case unfolding names_loop.simps using Suc.prems by (intro tri_match) (simp_all add: tri_ret)
qed (simp add: tri_neg)

lemma params_loop_tri: "k < int c \<Longrightarrow> tri (params_loop c acc) k (\<lambda>_. k)"
proof (induction c arbitrary: k acc)
  case (Suc c)
  show ?case unfolding params_loop.simps
    by (intro tris) (use Suc in \<open>auto intro!: tris tri_mono [OF Suc.IH]\<close>)
qed (simp add: tri_neg)

lemma params_tri: "k \<le> n \<Longrightarrow> tri (parse_params R acc) k (\<lambda>_. k)"
  unfolding parse_params_def by (auto intro!: tris tri_mono [OF params_loop_tri] rounds_fuel)

lemma function_body_tri: "k \<le> n \<Longrightarrow> tri (parse_function_body R l m) k (\<lambda>_. k)"
  unfolding parse_function_body_def
  by (intro tris tri_if_bind; auto intro!: tris tri_call [OF params_tri] calls)

lemma field_tri:
  assumes "k < n"
  shows "tri (parse_field R) k (\<lambda>_. k)"
proof -
  have val: "tri (p_bind (r_expr R) (\<lambda>v. p_ret (Field None v nm))) j (\<lambda>_. k)" if "j \<le> k" for j nm
    using that assms by (auto intro!: calls tris)
  have "tri (p_bind (unget t) (\<lambda>_. p_bind (r_expr R) (\<lambda>v. p_ret (Field None v [])))) j (\<lambda>_. k)" if "j \<le> k - 1" for j t
  proof (rule tri_bind [where Q = "\<lambda>_. j + 1"])
    show "tri (unget t) j (\<lambda>_. j + 1)" by (auto simp: tri_def unget_def panic_def todo_def split: option.splits)
  qed (use that val in simp)
  then show ?thesis unfolding parse_field_def using assms by (auto intro!: tri_match tri_accept val tri_expect calls tri_ret)
qed

lemma table_loop_tri: "k < n \<Longrightarrow> k < int c \<Longrightarrow> tri (table_loop c R acc) k (\<lambda>_. k)"
proof (induction c arbitrary: k acc)
  case (Suc c)
  then show ?case unfolding table_loop.simps
    by (auto intro!: tris tri_call [OF field_tri] tri_mono [OF Suc.IH])
qed (simp add: tri_neg)

lemma table_tri: "k \<le> n \<Longrightarrow> tri (parse_table R) k (\<lambda>_. k - 1)"
  unfolding parse_table_def by (auto intro!: tris tri_call [OF table_loop_tri] rounds_fuel)

lemma primary_tri: "k \<le> n \<Longrightarrow> tri (parse_primary R) k (\<lambda>_. k - 1)"
  unfolding parse_primary_def
  by (intro tri_any) (auto intro!: tris calls tri_call [OF function_body_tri] table_tri)

lemma paren_args_tri: "k < n \<Longrightarrow> tri (paren_args R) k (\<lambda>_. k)"
  unfolding paren_args_def by (auto intro!: tris tri_call [OF expr_list_tri])

lemma table_call: "k \<le> n \<Longrightarrow> (\<And>x. tri (f x) (k - 1) Q) \<Longrightarrow> tri (p_bind (parse_table R) f) k Q"
  by (rule tri_bind [OF table_tri])

lemma method_args_tri: "k < n \<Longrightarrow> tri (method_args R) k (\<lambda>_. k)"
  unfolding method_args_def by (auto intro!: tris table_call tri_mono [OF paren_args_tri])

lemma suffix_step_tri: "k \<le> n \<Longrightarrow> tri (suffix_step R e) k (\<lambda>r. if r = None then k else k - 1)"
  unfolding suffix_step_def
  by (intro tri_any)
    (auto intro!: tris calls table_call tri_call [OF method_args_tri] tri_call [OF paren_args_tri] simp: p_bind_assoc)

lemma suffix_step_bind:
  assumes "k \<le> n" "\<And>x. tri (f (Some x)) (k - 1) Q" "tri (f None) k Q"
  shows "tri (p_bind (suffix_step R e) f) k Q"
proof (rule tri_bind [OF suffix_step_tri [OF assms(1)]])
  show "tri (f r) (if r = None then k else k - 1) Q" for r using assms(2,3) by (cases r) auto
qed

lemma suffix_loop_tri: "k \<le> n \<Longrightarrow> k < int c \<Longrightarrow> tri (suffix_loop c R e) k (\<lambda>_. k)"
proof (induction c arbitrary: k e)
  case (Suc c)
  show ?case unfolding suffix_loop.simps
  proof (rule suffix_step_bind)
    show "tri (case None of None \<Rightarrow> p_ret e | Some e' \<Rightarrow> suffix_loop c R e') k (\<lambda>_. k)" by (simp add: tri_ret)
    show "tri (case Some x of None \<Rightarrow> p_ret e | Some e' \<Rightarrow> suffix_loop c R e') (k - 1) (\<lambda>_. k)" for x
      using Suc.prems tri_mono [OF Suc.IH [of "k - 1" x]] by simp
  qed (rule Suc.prems)
qed (simp add: tri_neg)

lemma suffix_tri: "k \<le> n \<Longrightarrow> tri (parse_suffix R e) k (\<lambda>_. k)"
  unfolding parse_suffix_def by (rule suffix_loop_tri) (auto intro: rounds_fuel)

lemma primary_call: "k \<le> n \<Longrightarrow> (\<And>x. tri (f x) (k - 1) Q) \<Longrightarrow> tri (p_bind (parse_primary R) f) k Q"
  by (rule tri_bind [OF primary_tri])

lemma power_tri: "k \<le> n \<Longrightarrow> tri (parse_power R) k (\<lambda>_. k)"
  unfolding parse_power_def Let_def
  by (auto intro!: tris primary_call tri_if_bind tri_call [OF suffix_tri] tri_guarded calls)

lemma unary_tri: "k \<le> n \<Longrightarrow> tri (parse_unary R) k (\<lambda>_. k)"
  unfolding parse_unary_def
  by (auto intro!: tris power_tri tri_guarded calls simp: unary_ops_def split: option.splits if_splits)

lemma mul_tri: "k \<le> n \<Longrightarrow> tri (parse_mul R) k (\<lambda>_. k)"
  unfolding parse_mul_def by (rule binary_tri [OF unary_tri]) simp_all

lemma add_tri: "k \<le> n \<Longrightarrow> tri (parse_add R) k (\<lambda>_. k)"
  unfolding parse_add_def by (rule binary_tri [OF mul_tri]) simp_all

lemma concat_tri: "k \<le> n \<Longrightarrow> tri (parse_concat R) k (\<lambda>_. k)"
  unfolding parse_concat_def by (auto intro!: tris tri_call [OF add_tri] tri_guarded calls)

lemma shift_tri: "k \<le> n \<Longrightarrow> tri (parse_shift R) k (\<lambda>_. k)"
  unfolding parse_shift_def by (rule binary_tri [OF concat_tri]) simp_all

lemma bitwise_tri:
  "k \<le> n \<Longrightarrow> tri (parse_band R) k (\<lambda>_. k)" "k \<le> n \<Longrightarrow> tri (parse_bxor R) k (\<lambda>_. k)" "k \<le> n \<Longrightarrow> tri (parse_bor R) k (\<lambda>_. k)"
proof -
  have 1: "tri (parse_band R) k (\<lambda>_. k)" if "k \<le> n" for k
    unfolding parse_band_def by (rule binary_tri [OF shift_tri _ that]) simp_all
  have 2: "tri (parse_bxor R) k (\<lambda>_. k)" if "k \<le> n" for k
    unfolding parse_bxor_def by (rule binary_tri [OF 1 _ that]) simp_all
  have 3: "tri (parse_bor R) k (\<lambda>_. k)" if "k \<le> n" for k
    unfolding parse_bor_def by (rule binary_tri [OF 2 _ that]) simp_all
  show "k \<le> n \<Longrightarrow> tri (parse_band R) k (\<lambda>_. k)" "k \<le> n \<Longrightarrow> tri (parse_bxor R) k (\<lambda>_. k)" "k \<le> n \<Longrightarrow> tri (parse_bor R) k (\<lambda>_. k)"
    by (fact 1, fact 2, fact 3)
qed

lemma compare_tri: "k \<le> n \<Longrightarrow> tri (parse_compare R) k (\<lambda>_. k)"
  unfolding parse_compare_def by (rule binary_tri [OF bitwise_tri(3)]) simp_all

lemma and_tri: "k \<le> n \<Longrightarrow> tri (parse_and R) k (\<lambda>_. k)"
  unfolding parse_and_def by (rule binary_tri [OF compare_tri]) simp_all

lemma expr_tri: "k \<le> n \<Longrightarrow> tri (parse_expr R) k (\<lambda>_. k)"
  unfolding parse_expr_def parse_or_def by (rule tri_guarded, rule binary_tri [OF and_tri]) simp_all

lemma end_line_call [intro!]: "(\<And>x. tri (f x) (k - 1) Q) \<Longrightarrow> tri (p_bind end_line f) k Q"
  unfolding end_line_def p_bind_assoc by (auto intro!: tris)

lemma if_loop_tri: "k < n \<Longrightarrow> k < int c \<Longrightarrow> tri (if_loop c R acc) k (\<lambda>_. k)"
proof (induction c arbitrary: k acc)
  case (Suc c)
  then show ?case unfolding if_loop.simps by (auto intro!: tris calls tri_mono [OF Suc.IH])
qed (simp add: tri_neg)

lemma if_tri: "k < n \<Longrightarrow> tri (parse_if R l) k (\<lambda>_. k)"
  unfolding parse_if_def
  by (auto intro!: tri_call [OF if_loop_tri] tris calls rounds_fuel simp: p_bind_assoc)

lemma while_tri: "k < n \<Longrightarrow> tri (parse_while R l) k (\<lambda>_. k)"
  unfolding parse_while_def by (auto intro!: tris calls)

lemma repeat_tri: "k < n \<Longrightarrow> tri (parse_repeat R l) k (\<lambda>_. k)"
  unfolding parse_repeat_def by (auto intro!: tris calls)

lemma for_tri: "k < n \<Longrightarrow> tri (parse_for R l) k (\<lambda>_. k)"
  unfolding parse_for_def
  by (auto intro!: tris calls tri_call [OF expr_list_tri] tri_call [OF names_loop_tri] rounds_fuel simp: p_bind_assoc)

lemma return_tri: "k < n \<Longrightarrow> tri (parse_return R l) k (\<lambda>_. k)"
  unfolding parse_return_def by (auto intro!: tris tri_call [OF expr_list_tri])

lemma function_stmt_tri: "k < n \<Longrightarrow> tri (parse_function_stmt R l) k (\<lambda>_. k)"
  unfolding parse_function_stmt_def
  by (auto intro!: tris tri_call [OF names_loop_tri] tri_call [OF function_body_tri] rounds_fuel simp: p_bind_assoc)

lemma local_tri: "k < n \<Longrightarrow> tri (parse_local R l) k (\<lambda>_. k)"
  unfolding parse_local_def
  by (auto intro!: tris tri_call [OF names_loop_tri] tri_call [OF function_body_tri] tri_call [OF expr_list_tri] rounds_fuel simp: p_bind_assoc)

lemma suffixed_call: "k \<le> n \<Longrightarrow> (\<And>x. tri (f x) (k - 1) Q) \<Longrightarrow> tri (p_bind (suffixed R) f) k Q"
  unfolding suffixed_def p_bind_assoc
  by (intro tris tri_if_bind) (auto simp: p_bind_assoc intro!: tris primary_call tri_call [OF suffix_tri])

lemma targets_loop_tri: "k \<le> n \<Longrightarrow> k < int c \<Longrightarrow> tri (targets_loop c R nv acc) k (\<lambda>_. k)"
proof (induction c arbitrary: k nv acc)
  case (Suc c)
  then show ?case unfolding targets_loop.simps by (auto intro!: tris suffixed_call tri_mono [OF Suc.IH])
qed (simp add: tri_neg)

lemma exprstat_tri: "k \<le> n \<Longrightarrow> tri (parse_exprstat R l) k (\<lambda>_. k - 1)"
  unfolding parse_exprstat_def
  by (auto intro!: suffixed_call tris tri_call [OF targets_loop_tri] tri_call [OF expr_list_tri] rounds_fuel)

lemma stmt_tri:
  assumes "k \<le> n"
  shows "tri (parse_stmt R) k (\<lambda>_. k - 1)"
proof -
  have "k - 1 < n" using assms by simp
  note keyword = if_tri [OF this] while_tri [OF this] repeat_tri [OF this] for_tri [OF this] return_tri [OF this]
    function_stmt_tri [OF this] local_tri [OF this]
  show ?thesis unfolding parse_stmt_def Let_def
    by (intro tri_guarded tri_peek tri_any) (use assms in \<open>auto intro!: keyword exprstat_tri tris calls\<close>)
qed

lemma block_loop_tri: "k \<le> n \<Longrightarrow> k < int c \<Longrightarrow> tri (block_loop c R acc) k (\<lambda>_. k)"
proof (induction c arbitrary: k acc)
  case (Suc c)
  then show ?case unfolding block_loop.simps Let_def by (auto intro!: tris tri_bind [OF stmt_tri] tri_mono [OF Suc.IH])
qed (simp add: tri_neg)

lemma block_tri: "k \<le> n \<Longrightarrow> tri (parse_block R) k (\<lambda>_. k)"
  unfolding parse_block_def by (rule block_loop_tri) (auto intro: rounds_fuel)

end

text \<open>The entry points of the parser keep the bound at every depth.\<close>

lemma parsers_entry_points: "entry_points (parsers n) (int n)"
proof (induction n)
  case 0
  show ?case by unfold_locales (simp_all add: tri_neg)
next
  case (Suc n)
  note entry = entry_points.expr_tri [OF Suc] entry_points.unary_tri [OF Suc] entry_points.concat_tri [OF Suc]
    entry_points.block_tri [OF Suc]
  show ?case by unfold_locales (simp_all add: Let_def entry)
qed

interpretation lua: entry_points "parsers n" "int n" for n
  by (rule parsers_entry_points)

section \<open>The parser returns\<close>

lemma expect_end_call: "(\<And>t. tri (f t) k Q) \<Longrightarrow> tri (p_bind (expect TkEnd msg) f) k Q"
proof -
  assume f: "\<And>t. tri (f t) k Q"
  have "tri (accept TkEnd) k (\<lambda>_. k)" using accept_cases(1) accept_some by (intro triI) fastforce+
  then show ?thesis unfolding expect_def p_bind_assoc by (rule tri_call) (auto simp: f tri_bind_error split: option.splits)
qed

lemma chunk_tri: "k < int n \<Longrightarrow> tri (parse_chunk n) k (\<lambda>_. k)"
  unfolding parse_chunk_def by (auto intro!: tri_call [OF lua.block] expect_end_call tris)

lemma todo_new: "todo (parser_new strtod src name) \<le> length src"
  by (simp add: todo_def parser_new_def lexer_new_def lx_rem_def Let_def)

text \<open>C29: the parser returns on every source: the recursive descent and all its loops stop, with a
  syntax tree or an error, within a recursion bounded by the length of the source, whatever the
  lexer finds in it.\<close>

theorem parse_returns: "\<exists>r. parse strtod src name = Some r"
proof -
  have "tri (parse_chunk (length src + 2)) (int (length src)) (\<lambda>_. int (length src))" by (rule chunk_tri) simp
  then have "parse_chunk (length src + 2) (parser_new strtod src name) \<noteq> None"
    using todo_new [of strtod src name] unfolding tri_def by (fastforce split: option.splits)
  then show ?thesis by (auto simp: parse_def)
qed

section \<open>Nesting is balanced\<close>

text \<open>What a parsing function that succeeds does to the counters: the level and the stacks of enclosing
  functions are as before, and the number of active variables has not gone down.\<close>

definition settled :: "parser \<Rightarrow> parser \<Rightarrow> bool" where
  "settled s s' \<longleftrightarrow>
     (0 \<le> ps_ccalls s \<longrightarrow> ps_ccalls s' = ps_ccalls s) \<and> ps_nactvars s' = ps_nactvars s \<and> ps_func_lines s' = ps_func_lines s \<and>
     ps_func_line s' = ps_func_line s \<and> ps_nactvar s \<le> ps_nactvar s'"

lemma settled_trans: "settled a b \<Longrightarrow> settled b c \<Longrightarrow> settled a c"
  by (auto simp: settled_def)

definition bal :: "'a pm \<Rightarrow> bool" where
  "bal m \<longleftrightarrow> (\<forall>s x s'. m s = Some (Inr (x, s')) \<longrightarrow> settled s s')"

named_theorems bals \<open>balanced parsing functions\<close>

lemma bal_basic [bals]: "bal (p_ret x)" "bal (p_panic msg)" "bal p_out" "bal (p_get h)" "bal p_peek" "bal p_next" "bal (unget t)"
  by (auto simp: bal_def p_ret_def p_panic_def p_out_def p_get_def p_peek_def p_next_def unget_def lex_step_def settled_def
      panic_def rbind_eq_Inr split: option.splits if_splits)

lemma bal_bind [bals]: "bal m \<Longrightarrow> (\<And>x. bal (f x)) \<Longrightarrow> bal (p_bind m f)"
  unfolding bal_def p_bind_def by (fastforce split: option.splits sum.splits intro: settled_trans)

lemma bal_split [bals]:
  "(b \<Longrightarrow> bal m) \<Longrightarrow> (\<not> b \<Longrightarrow> bal m') \<Longrightarrow> bal (if b then m else m')"
  "bal u \<Longrightarrow> (\<And>y. bal (v y)) \<Longrightarrow> bal (case ot of None \<Rightarrow> u | Some y \<Rightarrow> v y)"
  "(\<And>y z. bal (w y z)) \<Longrightarrow> bal (case pr of (y, z) \<Rightarrow> w y z)"
  by (auto split: option.splits prod.splits)

lemma bal_tokens [bals]:
  "bal (check k)" "bal (accept k)" "bal (p_match k)" "bal (p_error msg)" "bal (expect k msg)"
  unfolding check_def accept_def p_match_def p_error_def expect_def by (intro bals)+

lemma bal_any:
  assumes "\<And>t a. a \<in> snd ` set ks \<Longrightarrow> bal (f (Some (t, a)))" "bal (f None)"
  shows "bal (p_bind (accept_any ks) f)"
  using assms
proof (induction ks)
  case (Cons k ks)
  show ?case unfolding accept_any.simps p_bind_assoc
    by (rule bal_bind [OF bal_tokens(2)]) (use Cons in \<open>auto split: option.splits\<close>)
qed (simp add: accept_any.simps)

lemma bal_guarded [bals]: "bal m \<Longrightarrow> bal (guarded m)"
  unfolding bal_def guarded_def enterlevel_def leavelevel_def
  by (auto simp: p_bind_def p_upd_def p_get_def p_ret_def p_error_def p_panic_def panic_def settled_def split: option.splits sum.splits if_splits) fastforce+

lemma bal_localvar [bals]: "bal new_localvar"
  unfolding new_localvar_def by (auto simp: bal_def p_bind_def p_upd_def p_get_def p_ret_def p_panic_def panic_def settled_def split: option.splits sum.splits if_splits)

lemma bal_loops [bals]:
  "bal pe \<Longrightarrow> bal (expr_list_loop c pe es)" "bal sub \<Longrightarrow> bal (binary_loop c ops sub e)"
  "bal (names_loop c sep loc ns)" "bal (params_loop c ns)"
proof -
  show "bal pe \<Longrightarrow> bal (expr_list_loop c pe es)"
    by (induction c arbitrary: es) (auto intro!: bals)
  show "bal sub \<Longrightarrow> bal (binary_loop c ops sub e)"
    by (induction c arbitrary: e) (auto intro!: bals bal_any split: option.splits)
  show "bal (names_loop c sep loc ns)" by (induction c arbitrary: ns) (auto intro!: bals)
  show "bal (params_loop c ns)" by (induction c arbitrary: ns) (auto intro!: bals)
qed

text \<open>The body of a function: the count of the enclosing function comes back from the stack.\<close>

lemma bal_function_body:
  assumes "bal (r_block R)"
  shows "bal (parse_function_body R l m)"
proof -
  let ?inner = "p_bind (if m then new_localvar else p_ret ()) (\<lambda>_.
     p_bind (expect (TkSym LParen) (expected ''('')) (\<lambda>_.
     p_bind (parse_params R (if m then [''self''] else [])) (\<lambda>(params, is_vararg).
     p_bind (expect (TkSym RParen) (expected '')'')) (\<lambda>_.
     p_bind (r_block R) (\<lambda>body.
     p_bind (expect (TkKw KwEnd) (expected ''end'')) (\<lambda>t. p_ret (Func l params is_vararg body (tk_line t))))))))"
  have i: "bal ?inner" unfolding parse_params_def by (intro bals assms)
  have eq: "parse_function_body R l m = p_bind (enterfunc l) (\<lambda>_. p_bind ?inner (\<lambda>fn. p_bind leavefunc (\<lambda>_. p_ret fn)))"
    unfolding parse_function_body_def p_bind_assoc by (simp add: case_prod_unfold p_bind_assoc)
  show ?thesis unfolding bal_def
  proof (intro allI impI)
    fix s x s' assume "parse_function_body R l m s = Some (Inr (x, s'))"
    then obtain s1 fn s2 where s: "s1 = s\<lparr>ps_nactvars := ps_nactvar s # ps_nactvars s, ps_func_lines := ps_func_line s # ps_func_lines s,
          ps_nactvar := 0, ps_func_line := l\<rparr>" "?inner s1 = Some (Inr (fn, s2))"
        "p_bind leavefunc (\<lambda>_. p_ret fn) s2 = Some (Inr (x, s'))"
      unfolding eq p_bind_def [of "enterfunc l"] p_bind_def [of ?inner] by (auto simp: enterfunc_def p_upd_def split: option.splits sum.splits)
    have "settled s1 s2" using i s(2) unfolding bal_def by blast
    then show "settled s s'" using s(1,3) by (auto simp: settled_def leavefunc_def p_bind_def p_upd_def p_ret_def)
  qed
qed

text \<open>The interface: entry points that are balanced make every function over them balanced.\<close>

locale balanced_entries =
  fixes R :: entries
  assumes balanced [bals]: "bal (r_expr R)" "bal (r_unary R)" "bal (r_concat R)" "bal (r_block R)"
begin

lemma bal_expr_list [bals]: "bal (parse_expr_list R)"
  unfolding parse_expr_list_def by (intro bals)

lemma bal_function_body' [bals]: "bal (parse_function_body R l m)"
  by (intro bal_function_body bals)

lemma bal_field [bals]: "bal (parse_field R)"
  unfolding parse_field_def by (intro bals)

lemma bal_table_loop [bals]: "bal (table_loop c R fs)"
  by (induction c arbitrary: fs) (auto intro!: bals bal_any)

lemma bal_table [bals]: "bal (parse_table R)"
  unfolding parse_table_def by (intro bals)

lemma bal_primary [bals]: "bal (parse_primary R)"
  unfolding parse_primary_def by (rule bal_any) (auto intro!: bals)

lemma bal_args [bals]: "bal (paren_args R)" "bal (method_args R)"
proof -
  show p: "bal (paren_args R)" unfolding paren_args_def by (intro bals)
  show "bal (method_args R)" unfolding method_args_def by (intro bals p)
qed

lemma bal_suffix [bals]: "bal (parse_suffix R e)"
proof -
  have step: "bal (suffix_step R e)" for e unfolding suffix_step_def by (rule bal_any) (auto intro!: bals)
  have "bal (suffix_loop c R e)" for c by (induction c arbitrary: e) (auto intro!: bals step)
  then show ?thesis by (simp add: parse_suffix_def)
qed

lemma bal_power [bals]: "bal (parse_power R)" "bal (parse_unary R)"
proof -
  show p: "bal (parse_power R)" unfolding parse_power_def Let_def by (intro bals)
  show "bal (parse_unary R)" unfolding parse_unary_def by (intro bals p)
qed

lemma bal_binary: "bal sub \<Longrightarrow> bal (binary R ops sub)"
  unfolding binary_def by (intro bals)

lemma bal_levels [bals]: "bal (parse_concat R)" "bal (parse_expr R)"
proof -
  have "bal (parse_add R)" unfolding parse_add_def parse_mul_def by (intro bal_binary bals)
  then show c: "bal (parse_concat R)" unfolding parse_concat_def by (intro bals)
  show "bal (parse_expr R)"
    unfolding parse_expr_def parse_or_def parse_and_def parse_compare_def parse_bor_def parse_bxor_def parse_band_def parse_shift_def
    by (intro bals bal_binary c)
qed

lemma bal_if: "bal (parse_if R l)"
proof -
  have "bal (if_loop c R brs)" for c brs by (induction c arbitrary: brs) (auto intro!: bals)
  then show ?thesis unfolding parse_if_def end_line_def by (intro bals)
qed

lemma bal_keywords:
  "bal (parse_while R l)" "bal (parse_repeat R l)" "bal (parse_for R l)" "bal (parse_return R l)"
  "bal (parse_function_stmt R l)" "bal (parse_local R l)"
  unfolding parse_while_def parse_repeat_def parse_for_def parse_return_def parse_function_stmt_def parse_local_def end_line_def
  by (intro bals)+

lemma bal_exprstat: "bal (parse_exprstat R l)"
proof -
  have s: "bal (suffixed R)" unfolding suffixed_def by (intro bals)
  have "bal (targets_loop c R nv vs)" for c nv vs by (induction c arbitrary: nv vs) (auto intro!: bals s)
  then show ?thesis unfolding parse_exprstat_def by (intro bals s)
qed

lemma bal_stmt: "bal (parse_stmt R)"
  unfolding parse_stmt_def Let_def
  by (rule bal_guarded, rule bal_bind [OF bal_basic(5)], rule bal_any) (auto intro!: bal_if bal_keywords bal_exprstat bals simp: end_line_def)

lemma bal_block [bals]: "bal (parse_block R)"
proof -
  have "bal (block_loop c R ss)" for c ss by (induction c arbitrary: ss) (auto simp: Let_def intro!: bals bal_stmt)
  then show ?thesis by (simp add: parse_block_def)
qed

end

lemma parsers_balanced: "balanced_entries (parsers n)"
proof (induction n)
  case 0
  show ?case by unfold_locales (simp_all add: bals)
next
  case (Suc n)
  show ?case
    by unfold_locales (simp_all add: Let_def balanced_entries.bal_levels [OF Suc] balanced_entries.bal_power [OF Suc]
        balanced_entries.bal_block [OF Suc])
qed

interpretation lua_bal: balanced_entries "parsers n" for n
  by (rule parsers_balanced)

text \<open>C30: a block that is parsed leaves the nesting level and the records of the enclosing functions as
  they were, so the limit on levels counts open constructs only. The number of active local
  variables is not restored: it never goes down within a function, so the limit of 200 counts
  the locals of blocks that are already closed.\<close>

theorem parse_block_settles:
  assumes "r_block (parsers n) s = Some (Inr (b, s'))" "0 \<le> ps_ccalls s"
  shows "ps_ccalls s' = ps_ccalls s \<and> ps_func_line s' = ps_func_line s \<and> ps_nactvars s' = ps_nactvars s \<and>
    ps_func_lines s' = ps_func_lines s \<and> ps_nactvar s \<le> ps_nactvar s'"
  using lua_bal.balanced(4) [of n] assms unfolding bal_def settled_def by blast

text \<open>The empty source.\<close>

lemma lex_empty: "lex_one strtod (lexer_new []) = Inr (new_token TkEnd (lexer_new []), lexer_new [])"
proof -
  define l0 where "l0 = lexer_new []"
  have l: "l0 = \<lparr>lx_src = [], lx_pos = 0, lx_line = 1, lx_col = 1\<rparr>" by (simp add: l0_def lexer_new_def)
  have e: "eos l0" "peek_char 0 l0 = NUL" by (simp_all add: l peek_char_def eos_def)
  have "skip_whitespace_and_comments l0 = Inr l0"
    using e by (subst skip_whitespace_and_comments.simps; simp add: blank_def curr_is_newline_def)
  then show ?thesis unfolding l0_def [symmetric] using e by (simp add: lex_one_def Let_def)
qed

theorem parse_block_settles_witness:
  "\<exists>s'. r_block (parsers 1) (parser_new (\<lambda>_. (0, 0)) [] ''=x'') = Some (Inr (Block [], s')) \<and> ps_nactvar s' = 0 \<and> ps_ccalls s' = 0"
proof -
  let ?s = "parser_new (\<lambda>_. (0, 0)) [] ''=x''"
  obtain s' where r: "r_block (parsers 1) ?s = Some (Inr (Block [], s'))" and n: "ps_nactvar s' = 0"
    by (simp add: One_nat_def parse_block_def rounds_def numeral_eq_Suc Let_def parser_new_def p_bind_def p_peek_def
        lex_step_def peek_token_def lex_empty new_token_def p_ret_def)
  with parse_block_settles [OF r] show ?thesis by (simp add: parser_new_def)
qed

end
