(* ===== verification/Lt_Sort.thy ===== *)
theory Lt_Sort
  imports Lt_Monad "HOL-Library.Multiset"
begin

text \<open>
  The sort of \<open>src/lib/ltablib.cpp\<close>: quicksort with the median of three as pivot, in place, over a
  comparison and an exchange of two positions that may raise errors and change the state
  (\<open>sort_comp_idx\<close> and \<open>sort_swap\<close>, which \<open>Lt_Tablib\<close> defines). The bound of the loops is the number
  of positions; the locale below shows that it is never reached for a consistent order.
\<close>

section \<open>The code\<close>

primrec scan_up :: "nat \<Rightarrow> (nat \<Rightarrow> nat \<Rightarrow> ('s, bool) cmd) \<Rightarrow> nat \<Rightarrow> nat \<Rightarrow> ('s, nat) cmd" where
  "scan_up 0 cmp i up = p_out"
| "scan_up (Suc c) cmp i up =
     p_bind (cmp (i + 1) (up - 1)) (\<lambda>lt.
       if lt then
         if i + 1 = up - 1 then p_panic ''invalid order function for sorting'' else scan_up c cmp (i + 1) up
       else p_ret (i + 1))"

primrec scan_down :: "nat \<Rightarrow> (nat \<Rightarrow> nat \<Rightarrow> ('s, bool) cmd) \<Rightarrow> nat \<Rightarrow> nat \<Rightarrow> nat \<Rightarrow> ('s, nat) cmd" where
  "scan_down 0 cmp i j up = p_out"
| "scan_down (Suc c) cmp i j up =
     p_bind (cmp (up - 1) (j - 1)) (\<lambda>lt.
       if lt then
         if j - 1 < i then p_panic ''invalid order function for sorting'' else scan_down c cmp i (j - 1) up
       else p_ret (j - 1))"

primrec partition_loop ::
  "nat \<Rightarrow> nat \<Rightarrow> (nat \<Rightarrow> nat \<Rightarrow> ('s, bool) cmd) \<Rightarrow> (nat \<Rightarrow> nat \<Rightarrow> ('s, unit) cmd) \<Rightarrow> nat \<Rightarrow> nat \<Rightarrow> nat \<Rightarrow> ('s, nat) cmd" where
  "partition_loop 0 b cmp swap i j up = p_out"
| "partition_loop (Suc c) b cmp swap i j up =
     p_bind (scan_up b cmp i up) (\<lambda>i.
     p_bind (scan_down b cmp i j up) (\<lambda>j.
       if j < i then p_bind (swap (up - 1) i) (\<lambda>_. p_ret i)
       else p_bind (swap i j) (\<lambda>_. partition_loop c b cmp swap i j up)))"

definition sort_partition :: "nat \<Rightarrow> (nat \<Rightarrow> nat \<Rightarrow> ('s, bool) cmd) \<Rightarrow> (nat \<Rightarrow> nat \<Rightarrow> ('s, unit) cmd) \<Rightarrow> nat \<Rightarrow> nat \<Rightarrow> ('s, nat) cmd" where
  "sort_partition b cmp swap lo up = partition_loop b b cmp swap lo (up - 1) up"

definition choose_pivot :: "nat \<Rightarrow> nat \<Rightarrow> nat \<Rightarrow> nat" where
  "choose_pivot lo up rnd = (let r4 = (up - lo) div 4 in rnd mod (r4 * 2) + (lo + r4))"

definition pivot_of :: "nat \<Rightarrow> nat \<Rightarrow> nat \<Rightarrow> nat" where
  "pivot_of lo up rnd = (if up - lo < 100 \<or> rnd = 0 then (lo + up) div 2 else choose_pivot lo up rnd)"

definition order_ends :: "(nat \<Rightarrow> nat \<Rightarrow> ('s, bool) cmd) \<Rightarrow> (nat \<Rightarrow> nat \<Rightarrow> ('s, unit) cmd) \<Rightarrow> nat \<Rightarrow> nat \<Rightarrow> ('s, unit) cmd" where
  "order_ends cmp swap lo up = p_bind (cmp up lo) (\<lambda>lt. if lt then swap lo up else p_ret ())"

definition order_pivot :: "(nat \<Rightarrow> nat \<Rightarrow> ('s, bool) cmd) \<Rightarrow> (nat \<Rightarrow> nat \<Rightarrow> ('s, unit) cmd) \<Rightarrow> nat \<Rightarrow> nat \<Rightarrow> nat \<Rightarrow> ('s, unit) cmd" where
  "order_pivot cmp swap lo p up =
     p_bind (cmp p lo) (\<lambda>lt.
       if lt then swap p lo else p_bind (cmp up p) (\<lambda>lt. if lt then swap p up else p_ret ()))"

text \<open>The two parts: the smaller one by a call, the larger one by the next round of the loop of \<open>auxsort\<close>.
  \<open>randomize_pivot\<close> reads the clock: \<open>rand\<close> is what it returns when the range is the one given.\<close>

definition sort_parts :: "(nat \<Rightarrow> nat \<Rightarrow> nat \<Rightarrow> ('s, unit) cmd) \<Rightarrow> (nat \<Rightarrow> nat \<Rightarrow> nat) \<Rightarrow> nat \<Rightarrow> nat \<Rightarrow> nat \<Rightarrow> nat \<Rightarrow> ('s, unit) cmd" where
  "sort_parts rec rand lo up rnd p =
     (if p - lo < up - p then
        p_bind (rec lo (p - 1) rnd) (\<lambda>_.
        rec (p + 1) up (if p - lo < (up - (p + 1)) div 128 then rand (p + 1) up else rnd))
      else
        p_bind (rec (p + 1) up rnd) (\<lambda>_.
        rec lo (p - 1) (if up - p < (p - 1 - lo) div 128 then rand lo (p - 1) else rnd)))"

definition sort_split ::
  "(nat \<Rightarrow> nat \<Rightarrow> nat \<Rightarrow> ('s, unit) cmd) \<Rightarrow> nat \<Rightarrow> (nat \<Rightarrow> nat \<Rightarrow> ('s, bool) cmd) \<Rightarrow> (nat \<Rightarrow> nat \<Rightarrow> ('s, unit) cmd) \<Rightarrow>
    (nat \<Rightarrow> nat \<Rightarrow> nat) \<Rightarrow> nat \<Rightarrow> nat \<Rightarrow> nat \<Rightarrow> nat \<Rightarrow> ('s, unit) cmd" where
  "sort_split rec b cmp swap rand lo up rnd p =
     p_bind (swap p (up - 1)) (\<lambda>_. p_bind (sort_partition b cmp swap lo up) (sort_parts rec rand lo up rnd))"

primrec auxsort ::
  "nat \<Rightarrow> nat \<Rightarrow> (nat \<Rightarrow> nat \<Rightarrow> ('s, bool) cmd) \<Rightarrow> (nat \<Rightarrow> nat \<Rightarrow> ('s, unit) cmd) \<Rightarrow> (nat \<Rightarrow> nat \<Rightarrow> nat) \<Rightarrow> nat \<Rightarrow> nat \<Rightarrow> nat \<Rightarrow> ('s, unit) cmd" where
  "auxsort 0 b cmp swap rand lo up rnd = p_out"
| "auxsort (Suc c) b cmp swap rand lo up rnd =
     (if \<not> lo < up then p_ret ()
      else p_bind (order_ends cmp swap lo up) (\<lambda>_.
        if up - lo = 1 then p_ret ()
        else let p = pivot_of lo up rnd in
          p_bind (order_pivot cmp swap lo p up) (\<lambda>_.
          if up - lo = 2 then p_ret ()
          else sort_split (auxsort c b cmp swap rand) b cmp swap rand lo up rnd p)))"

section \<open>Arrays up to rearrangement\<close>

definition exchanged :: "(nat \<Rightarrow> 'a) \<Rightarrow> nat \<Rightarrow> nat \<Rightarrow> nat \<Rightarrow> 'a" where
  "exchanged a i j = a(i := a j, j := a i)"

lemma exchanged_apply [simp]: "exchanged a i j x = (if x = j then a i else if x = i then a j else a x)"
  by (simp add: exchanged_def)

text \<open>The positions from \<open>lo\<close> to \<open>up\<close> hold the same values, and the others are untouched.\<close>

definition perm :: "nat \<Rightarrow> nat \<Rightarrow> (nat \<Rightarrow> 'a) \<Rightarrow> (nat \<Rightarrow> 'a) \<Rightarrow> bool" where
  "perm lo up a a' \<longleftrightarrow>
     (\<forall>x. x < lo \<or> up < x \<longrightarrow> a' x = a x) \<and> image_mset a' (mset_set {lo..up}) = image_mset a (mset_set {lo..up})"

lemma perm_refl [simp]: "perm lo up a a"
  by (simp add: perm_def)

lemma perm_trans: "perm lo up a b \<Longrightarrow> perm lo up b c \<Longrightarrow> perm lo up a c"
  by (simp add: perm_def)

lemma perm_outside: "perm lo up a a' \<Longrightarrow> x < lo \<or> up < x \<Longrightarrow> a' x = a x"
  by (auto simp: perm_def)

lemma perm_wider:
  assumes "perm lo up a a'" "lo' \<le> lo" "up \<le> up'"
  shows "perm lo' up' a a'"
proof -
  have split: "{lo'..up'} = {lo..up} \<union> ({lo'..up'} - {lo..up})" using assms(2,3) by auto
  have "image_mset a' (mset_set ({lo'..up'} - {lo..up})) = image_mset a (mset_set ({lo'..up'} - {lo..up}))"
    using assms(1) by (intro image_mset_cong) (auto simp: perm_def)
  moreover have "mset_set {lo'..up'} = mset_set {lo..up} + mset_set ({lo'..up'} - {lo..up})"
    by (subst split, rule mset_set_Union) auto
  ultimately show ?thesis using assms by (auto simp: perm_def)
qed

lemma perm_exchanged:
  assumes "lo \<le> i" "i \<le> up" "lo \<le> j" "j \<le> up"
  shows "perm lo up a (exchanged a i j)"
proof -
  let ?t = "\<lambda>x. if x = i then j else if x = j then i else x"
  have inj: "inj_on ?t {lo..up}" by (auto simp: inj_on_def split: if_splits)
  have im: "?t ` {lo..up} = {lo..up}"
  proof (rule endo_inj_surj [OF _ _ inj])
    show "?t ` {lo..up} \<subseteq> {lo..up}" using assms by auto
  qed simp
  have "exchanged a i j = a \<circ> ?t" by (rule ext) auto
  then have "image_mset (exchanged a i j) (mset_set {lo..up}) = image_mset a (image_mset ?t (mset_set {lo..up}))"
    by (simp add: multiset.map_comp)
  also have "image_mset ?t (mset_set {lo..up}) = mset_set {lo..up}" using image_mset_mset_set [OF inj] im by simp
  finally have e: "image_mset (exchanged a i j) (mset_set {lo..up}) = image_mset a (mset_set {lo..up})" .
  show ?thesis unfolding perm_def using assms by (auto simp only: e exchanged_apply split: if_splits)
qed

lemma perm_image:
  assumes "perm lo up a a'"
  shows "a' ` {lo..up} = a ` {lo..up}"
proof -
  have "set_mset (image_mset a' (mset_set {lo..up})) = set_mset (image_mset a (mset_set {lo..up}))"
    using assms by (simp add: perm_def)
  then show ?thesis by simp
qed

lemma perm_all:
  assumes "perm lo up a a'" "\<And>x. lo \<le> x \<Longrightarrow> x \<le> up \<Longrightarrow> P (a x)" "lo \<le> x" "x \<le> up"
  shows "P (a' x)"
proof -
  have "a' x \<in> a ` {lo..up}" using perm_image [OF assms(1)] assms(3,4) by auto
  then show ?thesis using assms(2) by auto
qed

section \<open>The sort sorts\<close>

text \<open>What the sort needs of the array it works on: comparisons leave the state alone, exchanges exchange,
  and the order is a strict weak order on the values that occur.\<close>

locale sort_array =
  fixes arr :: "'s \<Rightarrow> nat \<Rightarrow> 'v" and inv :: "'s \<Rightarrow> bool" and lt :: "'v \<Rightarrow> 'v \<Rightarrow> bool" and ok :: "'v \<Rightarrow> bool"
    and cmp :: "nat \<Rightarrow> nat \<Rightarrow> ('s, bool) cmd" and swap :: "nat \<Rightarrow> nat \<Rightarrow> ('s, unit) cmd" and n :: nat
  assumes cmp_value: "inv s \<Longrightarrow> 1 \<le> i \<Longrightarrow> i \<le> n \<Longrightarrow> 1 \<le> j \<Longrightarrow> j \<le> n \<Longrightarrow> cmp i j s = Some (Inr (lt (arr s i) (arr s j), s))"
    and swap_value: "inv s \<Longrightarrow> 1 \<le> i \<Longrightarrow> i \<le> n \<Longrightarrow> 1 \<le> j \<Longrightarrow> j \<le> n \<Longrightarrow>
      \<exists>s'. swap i j s = Some (Inr ((), s')) \<and> inv s' \<and> arr s' = exchanged (arr s) i j"
    and values_ok: "inv s \<Longrightarrow> 1 \<le> i \<Longrightarrow> i \<le> n \<Longrightarrow> ok (arr s i)"
    and lt_asym: "ok x \<Longrightarrow> ok y \<Longrightarrow> lt x y \<Longrightarrow> \<not> lt y x"
    and lt_negtrans: "ok x \<Longrightarrow> ok y \<Longrightarrow> ok z \<Longrightarrow> \<not> lt y x \<Longrightarrow> \<not> lt z y \<Longrightarrow> \<not> lt z x"
begin

definition run :: "('s, 'a) cmd \<Rightarrow> 's \<Rightarrow> ('a \<Rightarrow> 's \<Rightarrow> bool) \<Rightarrow> bool" where
  "run m s P \<longleftrightarrow> (\<exists>x s'. m s = Some (Inr (x, s')) \<and> inv s' \<and> P x s')"

lemma run_bind: "run m s P \<Longrightarrow> (\<And>x s'. inv s' \<Longrightarrow> P x s' \<Longrightarrow> run (f x) s' Q) \<Longrightarrow> run (p_bind m f) s Q"
  unfolding run_def by (metis p_bind_value)

lemma run_ret: "inv s \<Longrightarrow> P x s \<Longrightarrow> run (p_ret x) s P"
  by (simp add: run_def p_ret_def)

lemma run_mono: "run m s P \<Longrightarrow> (\<And>x s'. inv s' \<Longrightarrow> P x s' \<Longrightarrow> Q x s') \<Longrightarrow> run m s Q"
  unfolding run_def by blast

lemma run_cmp:
  "inv s \<Longrightarrow> 1 \<le> i \<Longrightarrow> i \<le> n \<Longrightarrow> 1 \<le> j \<Longrightarrow> j \<le> n \<Longrightarrow> run (f (lt (arr s i) (arr s j))) s Q \<Longrightarrow> run (p_bind (cmp i j) f) s Q"
  by (simp add: run_def cmp_value)

lemma run_swap:
  "inv s \<Longrightarrow> 1 \<le> i \<Longrightarrow> i \<le> n \<Longrightarrow> 1 \<le> j \<Longrightarrow> j \<le> n \<Longrightarrow> run (swap i j) s (\<lambda>_ s'. arr s' = exchanged (arr s) i j)"
  using swap_value unfolding run_def by blast

definition le :: "'v \<Rightarrow> 'v \<Rightarrow> bool" where
  "le x y \<longleftrightarrow> \<not> lt y x"

lemma le_refl: "ok x \<Longrightarrow> le x x"
  using lt_asym [of x x] by (auto simp: le_def)

lemma le_trans: "ok x \<Longrightarrow> ok y \<Longrightarrow> ok z \<Longrightarrow> le x y \<Longrightarrow> le y z \<Longrightarrow> le x z"
  using lt_negtrans [of x y z] by (auto simp: le_def)

lemma lt_le: "ok x \<Longrightarrow> ok y \<Longrightarrow> lt x y \<Longrightarrow> le x y"
  using lt_asym by (auto simp: le_def)

text \<open>The two scans stop at a value that is not on their side of the pivot.\<close>

lemma scan_up_run:
  assumes inv: "inv s" and up: "up \<le> n" and m: "m \<le> up - 1" "le (arr s (up - 1)) (arr s m)"
  shows "i < m \<Longrightarrow> m - i \<le> c \<Longrightarrow> run (scan_up c cmp i up) s (\<lambda>i' s'. s' = s \<and> i < i' \<and> i' \<le> m \<and>
    le (arr s (up - 1)) (arr s i') \<and> (\<forall>x. i < x \<and> x < i' \<longrightarrow> lt (arr s x) (arr s (up - 1))))"
proof (induction c arbitrary: i)
  case (Suc c)
  have b: "1 \<le> i + 1" "i + 1 \<le> n" "1 \<le> up - 1" "up - 1 \<le> n" using Suc.prems m up by auto
  show ?case unfolding scan_up.simps
  proof (rule run_cmp [OF inv b])
    show "run (if lt (arr s (i + 1)) (arr s (up - 1))
        then if i + 1 = up - 1 then p_panic ''invalid order function for sorting'' else scan_up c cmp (i + 1) up
        else p_ret (i + 1)) s (\<lambda>i' s'. s' = s \<and> i < i' \<and> i' \<le> m \<and> le (arr s (up - 1)) (arr s i') \<and>
          (\<forall>x. i < x \<and> x < i' \<longrightarrow> lt (arr s x) (arr s (up - 1))))"
    proof (cases "lt (arr s (i + 1)) (arr s (up - 1))")
      case True
      then have "i + 1 \<noteq> m" using m(2) by (auto simp: le_def)
      then have j: "i + 1 < m" "i + 1 \<noteq> up - 1" using Suc.prems(1) m(1) by auto
      have "run (scan_up c cmp (i + 1) up) s (\<lambda>i' s'. s' = s \<and> i + 1 < i' \<and> i' \<le> m \<and>
          le (arr s (up - 1)) (arr s i') \<and> (\<forall>x. i + 1 < x \<and> x < i' \<longrightarrow> lt (arr s x) (arr s (up - 1))))"
        using Suc.prems j(1) by (intro Suc.IH) auto
      then have "run (scan_up c cmp (i + 1) up) s (\<lambda>i' s'. s' = s \<and> i < i' \<and> i' \<le> m \<and>
          le (arr s (up - 1)) (arr s i') \<and> (\<forall>x. i < x \<and> x < i' \<longrightarrow> lt (arr s x) (arr s (up - 1))))"
      proof (rule run_mono)
        fix i' s' assume a: "s' = s \<and> i + 1 < i' \<and> i' \<le> m \<and> le (arr s (up - 1)) (arr s i') \<and>
          (\<forall>x. i + 1 < x \<and> x < i' \<longrightarrow> lt (arr s x) (arr s (up - 1)))"
        have "lt (arr s x) (arr s (up - 1))" if "i < x" "x < i'" for x using a True that by (cases "x = i + 1") auto
        with a show "s' = s \<and> i < i' \<and> i' \<le> m \<and> le (arr s (up - 1)) (arr s i') \<and>
          (\<forall>x. i < x \<and> x < i' \<longrightarrow> lt (arr s x) (arr s (up - 1)))" by auto
      qed
      then show ?thesis using True j(2) by simp
    next
      case False
      then show ?thesis using Suc.prems(1) inv by (auto intro!: run_ret simp: le_def)
    qed
  qed
qed simp

lemma scan_down_run:
  assumes inv: "inv s" and up: "1 \<le> up - 1" "up \<le> n" and m: "1 \<le> m" "le (arr s m) (arr s (up - 1))" and i: "\<And>x. m < x \<Longrightarrow> x < j0 \<Longrightarrow> i \<le> x"
  shows "m < j \<Longrightarrow> j \<le> j0 \<Longrightarrow> j \<le> up \<Longrightarrow> j - m \<le> c \<Longrightarrow> run (scan_down c cmp i j up) s (\<lambda>j' s'. s' = s \<and> m \<le> j' \<and> j' < j \<and>
    le (arr s j') (arr s (up - 1)) \<and> (\<forall>x. j' < x \<and> x < j \<longrightarrow> lt (arr s (up - 1)) (arr s x)))"
proof (induction c arbitrary: j)
  case (Suc c)
  have b: "1 \<le> up - 1" "up - 1 \<le> n" "1 \<le> j - 1" "j - 1 \<le> n" using Suc.prems m up by auto
  show ?case unfolding scan_down.simps
  proof (rule run_cmp [OF inv b])
    show "run (if lt (arr s (up - 1)) (arr s (j - 1))
        then if j - 1 < i then p_panic ''invalid order function for sorting'' else scan_down c cmp i (j - 1) up
        else p_ret (j - 1)) s (\<lambda>j' s'. s' = s \<and> m \<le> j' \<and> j' < j \<and> le (arr s j') (arr s (up - 1)) \<and>
          (\<forall>x. j' < x \<and> x < j \<longrightarrow> lt (arr s (up - 1)) (arr s x)))"
    proof (cases "lt (arr s (up - 1)) (arr s (j - 1))")
      case True
      then have "j - 1 \<noteq> m" using m(2) by (auto simp: le_def)
      then have j: "m < j - 1" "j - 1 < j0" using Suc.prems(1,2) by arith+
      have ji: "\<not> j - 1 < i" using i [OF j] by simp
      have "run (scan_down c cmp i (j - 1) up) s (\<lambda>j' s'. s' = s \<and> m \<le> j' \<and> j' < j - 1 \<and>
          le (arr s j') (arr s (up - 1)) \<and> (\<forall>x. j' < x \<and> x < j - 1 \<longrightarrow> lt (arr s (up - 1)) (arr s x)))"
        using Suc.prems j(1) by (intro Suc.IH) auto
      then have "run (scan_down c cmp i (j - 1) up) s (\<lambda>j' s'. s' = s \<and> m \<le> j' \<and> j' < j \<and>
          le (arr s j') (arr s (up - 1)) \<and> (\<forall>x. j' < x \<and> x < j \<longrightarrow> lt (arr s (up - 1)) (arr s x)))"
      proof (rule run_mono)
        fix j' s' assume a: "s' = s \<and> m \<le> j' \<and> j' < j - 1 \<and> le (arr s j') (arr s (up - 1)) \<and>
          (\<forall>x. j' < x \<and> x < j - 1 \<longrightarrow> lt (arr s (up - 1)) (arr s x))"
        have "lt (arr s (up - 1)) (arr s x)" if "j' < x" "x < j" for x using a True that by (cases "x = j - 1") auto
        with a show "s' = s \<and> m \<le> j' \<and> j' < j \<and> le (arr s j') (arr s (up - 1)) \<and>
          (\<forall>x. j' < x \<and> x < j \<longrightarrow> lt (arr s (up - 1)) (arr s x))" by auto
      qed
      then show ?thesis using True ji by simp
    next
      case False
      then show ?thesis using Suc.prems(1) inv by (auto intro!: run_ret simp: le_def)
    qed
  qed
qed simp

text \<open>The loop of \<open>sort_partition\<close>: what is below \<open>i\<close> is not above the pivot, what is above \<open>j\<close> is not below it.\<close>

definition split_inv :: "(nat \<Rightarrow> 'v) \<Rightarrow> nat \<Rightarrow> nat \<Rightarrow> nat \<Rightarrow> nat \<Rightarrow> bool" where
  "split_inv a lo up i j \<longleftrightarrow>
     lo \<le> i \<and> i \<le> j \<and> j \<le> up - 1 \<and> (i = j \<longrightarrow> lo < i \<and> j < up - 1) \<and>
     (\<forall>x. lo \<le> x \<and> x \<le> i \<longrightarrow> le (a x) (a (up - 1))) \<and> (\<forall>x. j \<le> x \<and> x \<le> up \<longrightarrow> le (a (up - 1)) (a x))"

definition split_at :: "(nat \<Rightarrow> 'v) \<Rightarrow> (nat \<Rightarrow> 'v) \<Rightarrow> nat \<Rightarrow> nat \<Rightarrow> nat \<Rightarrow> bool" where
  "split_at a a' lo up p \<longleftrightarrow>
     lo < p \<and> p \<le> up - 1 \<and> perm lo up a a' \<and>
     (\<forall>x. lo \<le> x \<and> x < p \<longrightarrow> le (a' x) (a' p)) \<and> (\<forall>x. p < x \<and> x \<le> up \<longrightarrow> le (a' p) (a' x))"

lemma scans_run:
  assumes inv: "inv s" and r: "1 \<le> lo" "up \<le> n" "up - lo \<le> b" and si: "split_inv (arr s) lo up i j"
    and k: "\<And>i' j'. i < i' \<Longrightarrow> i' \<le> up - 1 \<Longrightarrow> j' < j \<Longrightarrow> lo \<le> j' \<Longrightarrow>
      (\<forall>x. lo \<le> x \<and> x < i' \<longrightarrow> le (arr s x) (arr s (up - 1))) \<Longrightarrow> (\<forall>x. j' < x \<and> x \<le> up \<longrightarrow> le (arr s (up - 1)) (arr s x)) \<Longrightarrow>
      le (arr s (up - 1)) (arr s i') \<Longrightarrow> le (arr s j') (arr s (up - 1)) \<Longrightarrow> run (f i' j') s Q"
  shows "run (p_bind (scan_up b cmp i up) (\<lambda>i. p_bind (scan_down b cmp i j up) (f i))) s Q"
proof -
  let ?a = "arr s" and ?P = "arr s (up - 1)"
  note s = si [unfolded split_inv_def]
  let ?m = "max j (i + 1)"
  have ups: "1 \<le> up - 1" "up - 1 \<le> n" using s r by auto
  have okx: "ok (?a x)" if "lo \<le> x" "x \<le> up" for x using values_ok [OF inv, of x] that r by auto
  have m: "?m \<le> up - 1" "le ?P (?a ?m)" "i < ?m" "?m - i \<le> b" using s r by (auto simp: max_def)
  show ?thesis
  proof (rule run_bind [OF scan_up_run [OF inv r(2) m(1,2,3,4)]])
    fix i' s' assume a: "s' = s \<and> i < i' \<and> i' \<le> ?m \<and> le ?P (?a i') \<and> (\<forall>x. i < x \<and> x < i' \<longrightarrow> lt (?a x) ?P)"
    then have i': "i < i'" "i' \<le> ?m" "le ?P (?a i')" "s' = s" by auto
    have low: "\<forall>x. lo \<le> x \<and> x < i' \<longrightarrow> le (?a x) ?P"
    proof (intro allI impI)
      fix x assume x: "lo \<le> x \<and> x < i'"
      show "le (?a x) ?P"
      proof (cases "x \<le> i")
        case False
        then have "lt (?a x) ?P" using a x by auto
        then show ?thesis using okx [of x] okx [of "up - 1"] x i'(2) m(1) s by (intro lt_le) auto
      qed (use s x in auto)
    qed
    define d where "d = min (i' - 1) (j - 1)"
    have sj: "lo \<le> i" "i \<le> j" "j \<le> up - 1" "i = j \<longrightarrow> lo < i \<and> j < up - 1" using s by blast+
    have ld: "lo \<le> d" "d < i'" "d < j" using sj r(1) i'(1) unfolding d_def by arith+
    have d: "1 \<le> d" "d < j" "lo \<le> d" "j - d \<le> b" using ld r sj by arith+
    have dP: "le (?a d) ?P" using low ld by blast
    have no: "i' \<le> x" if "d < x" "x < j" for x using that unfolding d_def by arith
    show "run (p_bind (scan_down b cmp i' j up) (f i')) s' Q" unfolding i'(4)
    proof (rule run_bind [OF scan_down_run [OF inv ups(1) r(2) d(1) dP no d(2) order_refl _ d(4)]])
      show "j \<le> up" using sj by arith
      fix j' s2 assume b: "s2 = s \<and> d \<le> j' \<and> j' < j \<and> le (?a j') ?P \<and> (\<forall>x. j' < x \<and> x < j \<longrightarrow> lt ?P (?a x))"
      have "\<forall>x. j' < x \<and> x \<le> up \<longrightarrow> le ?P (?a x)"
      proof (intro allI impI)
        fix x assume x: "j' < x \<and> x \<le> up"
        show "le ?P (?a x)"
        proof (cases "j \<le> x")
          case False
          then have "lt ?P (?a x)" using b x by auto
          moreover have "ok (?a x)" "ok ?P" using x b d(3) sj by (auto intro!: okx)
          ultimately show ?thesis by (intro lt_le)
        qed (use s x in blast)
      qed
      moreover have "i' \<le> up - 1" "lo \<le> j'" using i'(2) m(1) b d(3) by auto
      ultimately show "run (f i' j') s2 Q" using k [of i' j'] i' b low by blast
    qed
  qed
qed

lemma partition_run:
  assumes r: "1 \<le> lo" "up \<le> n" "up - lo \<le> b"
  shows "inv s \<Longrightarrow> split_inv (arr s) lo up i j \<Longrightarrow> up - i \<le> c \<Longrightarrow>
    run (partition_loop c b cmp swap i j up) s (\<lambda>p s'. split_at (arr s) (arr s') lo up p)"
proof (induction c arbitrary: s i j)
  case (Suc c)
  let ?a = "arr s" and ?P = "arr s (up - 1)"
  note si = Suc.prems(2) [unfolded split_inv_def]
  show ?case unfolding partition_loop.simps
  proof (rule scans_run [OF Suc.prems(1) r Suc.prems(2)])
    fix i' j' assume ij: "i < i'" "i' \<le> up - 1" "j' < j" "lo \<le> j'"
      and low: "\<forall>x. lo \<le> x \<and> x < i' \<longrightarrow> le (?a x) ?P" and high: "\<forall>x. j' < x \<and> x \<le> up \<longrightarrow> le ?P (?a x)"
      and at: "le ?P (?a i')" "le (?a j') ?P"
    have b: "1 \<le> i'" "i' \<le> n" "1 \<le> up - 1" "up - 1 \<le> n" "1 \<le> j'" "j' \<le> n" using ij si r by auto
    show "run (if j' < i' then p_bind (swap (up - 1) i') (\<lambda>_. p_ret i')
        else p_bind (swap i' j') (\<lambda>_. partition_loop c b cmp swap i' j' up)) s (\<lambda>p s'. split_at ?a (arr s') lo up p)"
    proof (cases "j' < i'")
      case True
      have "split_at ?a (exchanged ?a (up - 1) i') lo up i'"
        using ij si low high at True by (auto simp: split_at_def intro!: perm_exchanged)
      then have "run (p_bind (swap (up - 1) i') (\<lambda>_. p_ret i')) s (\<lambda>p s'. split_at ?a (arr s') lo up p)"
        by (intro run_bind [OF run_swap [OF Suc.prems(1) b(3,4,1,2)]]) (auto intro: run_ret)
      then show ?thesis using True by simp
    next
      case False
      have "run (partition_loop c b cmp swap i' j' up) s2 (\<lambda>p s'. split_at ?a (arr s') lo up p)"
        if s2: "inv s2" "arr s2 = exchanged ?a i' j'" for s2
      proof -
        have P: "arr s2 (up - 1) = ?P" using ij False si by (simp add: s2(2))
        have "split_inv (arr s2) lo up i' j'" unfolding split_inv_def P
          using ij si low high at False by (auto simp: s2(2))
        then have "run (partition_loop c b cmp swap i' j' up) s2 (\<lambda>p s'. split_at (arr s2) (arr s') lo up p)"
          using Suc.prems(3) ij by (intro Suc.IH s2) auto
        moreover have "perm lo up ?a (arr s2)" unfolding s2(2) by (rule perm_exchanged) (use ij si False in auto)
        ultimately show ?thesis by (auto simp: split_at_def elim!: run_mono intro: perm_trans)
      qed
      then show ?thesis using False by (auto intro: run_bind [OF run_swap [OF Suc.prems(1) b(1,2,5,6)]])
    qed
  qed
qed (auto simp: split_inv_def)

definition ordered :: "(nat \<Rightarrow> 'v) \<Rightarrow> nat \<Rightarrow> nat \<Rightarrow> bool" where
  "ordered a lo up \<longleftrightarrow> (\<forall>x y. lo \<le> x \<and> x \<le> y \<and> y \<le> up \<longrightarrow> le (a x) (a y))"

lemma pivot_between: "2 \<le> up - lo \<Longrightarrow> lo < pivot_of lo up rnd \<and> pivot_of lo up rnd < up"
proof -
  assume a: "2 \<le> up - lo"
  show ?thesis
  proof (cases "up - lo < 100 \<or> rnd = 0")
    case False
    define r4 where "r4 = (up - lo) div 4"
    have "0 < r4" "4 * r4 \<le> up - lo" using False by (auto simp: r4_def)
    moreover have "rnd mod (r4 * 2) < r4 * 2" using \<open>0 < r4\<close> by simp
    ultimately show ?thesis using False by (simp add: pivot_of_def choose_pivot_def Let_def r4_def [symmetric])
  next
    case True
    then have "pivot_of lo up rnd = (lo + up) div 2" by (simp add: pivot_of_def)
    then show ?thesis using a by arith
  qed
qed

text \<open>Ordering two, then three, positions.\<close>

lemma order_ends_run:
  assumes "inv s" "1 \<le> lo" "lo < up" "up \<le> n"
  shows "run (order_ends cmp swap lo up) s
    (\<lambda>_ s'. perm lo up (arr s) (arr s') \<and> le (arr s' lo) (arr s' up))"
proof -
  have b: "1 \<le> up" "lo \<le> n" using assms by auto
  have o: "ok (arr s lo)" "ok (arr s up)" using values_ok assms by auto
  show ?thesis unfolding order_ends_def
  proof (rule run_cmp [OF assms(1) b(1) assms(4,2) b(2)])
    show "run (if lt (arr s up) (arr s lo) then swap lo up else p_ret ()) s (\<lambda>_ s'. perm lo up (arr s) (arr s') \<and> le (arr s' lo) (arr s' up))"
    proof (cases "lt (arr s up) (arr s lo)")
      case True
      have "run (swap lo up) s (\<lambda>_ s'. perm lo up (arr s) (arr s') \<and> le (arr s' lo) (arr s' up))"
        by (rule run_mono [OF run_swap [OF assms(1,2) b(2,1) assms(4)]]) (use True o assms in \<open>auto simp: perm_exchanged lt_le\<close>)
      then show ?thesis using True by simp
    qed (use assms in \<open>auto intro!: run_ret simp: le_def\<close>)
  qed
qed

lemma median_run:
  assumes "inv s" "1 \<le> lo" "lo < p" "p < up" "up \<le> n" "le (arr s lo) (arr s up)"
  shows "run (order_pivot cmp swap lo p up) s
    (\<lambda>_ s'. perm lo up (arr s) (arr s') \<and> le (arr s' lo) (arr s' p) \<and> le (arr s' p) (arr s' up))"
proof -
  let ?Q = "\<lambda>_ s'. perm lo up (arr s) (arr s') \<and> le (arr s' lo) (arr s' p) \<and> le (arr s' p) (arr s' up)"
  have b: "1 \<le> p" "p \<le> n" "lo \<le> n" "1 \<le> up" using assms by auto
  have o: "ok (arr s lo)" "ok (arr s p)" "ok (arr s up)" using values_ok assms by auto
  show ?thesis unfolding order_pivot_def
  proof (rule run_cmp [OF assms(1) b(1,2) assms(2) b(3)])
    show "run (if lt (arr s p) (arr s lo) then swap p lo else p_bind (cmp up p) (\<lambda>lt. if lt then swap p up else p_ret ())) s ?Q"
    proof (cases "lt (arr s p) (arr s lo)")
      case True
      have "run (swap p lo) s ?Q"
        by (rule run_mono [OF run_swap [OF assms(1) b(1,2) assms(2) b(3)]])
          (use True o assms in \<open>auto simp: perm_exchanged lt_le\<close>)
      then show ?thesis using True by simp
    next
      case lo: False
      have "run (p_bind (cmp up p) (\<lambda>lt. if lt then swap p up else p_ret ())) s ?Q"
      proof (rule run_cmp [OF assms(1) b(4) assms(5) b(1,2)])
        show "run (if lt (arr s up) (arr s p) then swap p up else p_ret ()) s ?Q"
        proof (cases "lt (arr s up) (arr s p)")
          case True
          have "run (swap p up) s ?Q"
            by (rule run_mono [OF run_swap [OF assms(1) b(1,2,4) assms(5)]])
              (use True lo o assms in \<open>auto simp: perm_exchanged lt_le\<close>)
          then show ?thesis using True by simp
        qed (use lo assms in \<open>auto intro!: run_ret simp: le_def\<close>)
      qed
      then show ?thesis using lo by simp
    qed
  qed
qed

text \<open>Both sides of a split sorted make the whole sorted.\<close>

lemma ordered_split:
  assumes inv: "inv s3" and r: "1 \<le> lo" "up \<le> n"
    and sp: "split_at a a1 lo up p"
    and l: "perm lo (p - 1) a1 a2" "ordered a2 lo (p - 1)"
    and h: "perm (p + 1) up a2 (arr s3)" "ordered (arr s3) (p + 1) up"
  shows "perm lo up a (arr s3) \<and> ordered (arr s3) lo up"
proof -
  note s = sp [unfolded split_at_def]
  have p: "arr s3 p = a1 p" using perm_outside [OF l(1), of p] perm_outside [OF h(1), of p] s by auto
  have low_eq: "arr s3 x = a2 x" if "x \<le> p" for x using perm_outside [OF h(1), of x] that by auto
  have low: "le (arr s3 x) (a1 p)" if "lo \<le> x" "x < p" for x
  proof -
    have "le (a2 x) (a1 p)" by (rule perm_all [OF l(1)]) (use s that in auto)
    then show ?thesis using low_eq [of x] that by simp
  qed
  have high: "le (a1 p) (arr s3 x)" if "p < x" "x \<le> up" for x
  proof (rule perm_all [OF h(1)])
    show "le (a1 p) (a2 y)" if "p + 1 \<le> y" "y \<le> up" for y
      using perm_outside [OF l(1), of y] s that by auto
  qed (use that in auto)
  have okx: "ok (arr s3 x)" if "lo \<le> x" "x \<le> up" for x using values_ok [OF inv, of x] that r by auto
  have okp: "ok (a1 p)" using okx [of p] s p by auto
  have "ordered (arr s3) lo up" unfolding ordered_def
  proof (intro allI impI)
    fix x y assume xy: "lo \<le> x \<and> x \<le> y \<and> y \<le> up"
    consider "y < p" | "p < x" | "x \<le> p" "p \<le> y" by linarith
    then show "le (arr s3 x) (arr s3 y)"
    proof cases
      case 1
      then show ?thesis using l(2) xy low_eq [of x] low_eq [of y] by (auto simp: ordered_def)
    next
      case 2
      then show ?thesis using h(2) xy by (auto simp: ordered_def)
    next
      case 3
      have "le (arr s3 x) (a1 p)" using 3 low [of x] p okp le_refl xy by (cases "x = p") auto
      moreover have "le (a1 p) (arr s3 y)" using 3 high [of y] p okp le_refl xy by (cases "y = p") auto
      ultimately show ?thesis using le_trans [OF okx okp okx] xy by auto
    qed
  qed
  moreover have "perm lo up a (arr s3)"
    using s perm_trans perm_wider [OF l(1), of lo up] perm_wider [OF h(1), of lo up] by (metis diff_le_self le_add1 less_imp_le order_refl order_trans)
  ultimately show ?thesis by simp
qed

text \<open>The same when the right part is sorted first.\<close>

lemma ordered_split_right:
  assumes inv: "inv s3" and r: "1 \<le> lo" "up \<le> n" and sp: "split_at a a1 lo up p"
    and h: "perm (p + 1) up a1 a2" "ordered a2 (p + 1) up" and l: "perm lo (p - 1) a2 (arr s3)" "ordered (arr s3) lo (p - 1)"
  shows "perm lo up a (arr s3) \<and> ordered (arr s3) lo up"
proof (rule ordered_split [OF inv r sp])
  let ?m = "\<lambda>x. if x < p then arr s3 x else a1 x"
  have p: "lo < p" "p \<le> up - 1" using sp by (auto simp: split_at_def)
  have ho: "a2 x = a1 x" if "x \<le> p" for x using perm_outside [OF h(1), of x] that by auto
  have lo': "arr s3 x = a2 x" if "p \<le> x" for x using perm_outside [OF l(1), of x] that p by auto
  have "image_mset ?m (mset_set {lo..p - 1}) = image_mset (arr s3) (mset_set {lo..p - 1})"
    by (rule image_mset_cong) (use p in auto)
  moreover have "image_mset a2 (mset_set {lo..p - 1}) = image_mset a1 (mset_set {lo..p - 1})"
    by (rule image_mset_cong) (use p ho in auto)
  ultimately show "perm lo (p - 1) a1 ?m"
    using l(1) perm_outside [OF l(1)] ho p unfolding perm_def by auto
  show "ordered ?m lo (p - 1)" using l(2) p by (auto simp: ordered_def)
  have "image_mset ?m (mset_set {p + 1..up}) = image_mset a1 (mset_set {p + 1..up})"
    by (rule image_mset_cong) auto
  moreover have "image_mset (arr s3) (mset_set {p + 1..up}) = image_mset a2 (mset_set {p + 1..up})"
    by (rule image_mset_cong) (use lo' in auto)
  ultimately show "perm (p + 1) up ?m (arr s3)"
    using h(1) perm_outside [OF h(1)] lo' ho unfolding perm_def by auto
  show "ordered (arr s3) (p + 1) up" using h(2) lo' by (auto simp: ordered_def)
qed

lemma ordered_one: "ok (a lo) \<Longrightarrow> up \<le> lo \<Longrightarrow> ordered a lo up"
  unfolding ordered_def
proof (intro allI impI)
  fix x y assume "ok (a lo)" "up \<le> lo" "lo \<le> x \<and> x \<le> y \<and> y \<le> up"
  moreover from this have "x = lo" "y = lo" by arith+
  ultimately show "le (a x) (a y)" by (simp add: le_refl)
qed

lemma ordered_two:
  assumes "inv s" "1 \<le> lo" "up \<le> n" "up = Suc lo" "le (arr s lo) (arr s up)"
  shows "ordered (arr s) lo up"
proof -
  have "ok (arr s lo)" "ok (arr s up)" using values_ok [OF assms(1)] assms(2-4) by auto
  moreover have "(x = lo \<or> x = up) \<and> (y = lo \<or> y = up)" if "lo \<le> x" "x \<le> y" "y \<le> up" for x y
    using that assms(4) by arith
  ultimately show ?thesis using assms(4,5) le_refl unfolding ordered_def by (metis Suc_n_not_le_n)
qed

lemma ordered_three:
  assumes "inv s" "1 \<le> lo" "up \<le> n" "up = Suc (Suc lo)" "le (arr s lo) (arr s (Suc lo))" "le (arr s (Suc lo)) (arr s up)"
  shows "ordered (arr s) lo up"
proof -
  have o: "ok (arr s lo)" "ok (arr s (Suc lo))" "ok (arr s up)" using values_ok [OF assms(1)] assms(2-4) by auto
  then have "le (arr s lo) (arr s up)" using le_trans assms(5,6) by blast
  have "le (arr s x) (arr s y)" if "lo \<le> x" "x \<le> y" "y \<le> up" for x y
  proof -
    have "(x = lo \<or> x = Suc lo \<or> x = up) \<and> (y = lo \<or> y = Suc lo \<or> y = up)" using that assms(4) by arith
    then show ?thesis using o le_refl assms(4-6) that \<open>le (arr s lo) (arr s up)\<close> by auto
  qed
  then show ?thesis by (simp add: ordered_def)
qed

text \<open>The recursive call sorts every range of fewer than \<open>c + 1\<close> positions.\<close>

definition sorts :: "(nat \<Rightarrow> nat \<Rightarrow> nat \<Rightarrow> ('s, unit) cmd) \<Rightarrow> nat \<Rightarrow> bool" where
  "sorts rec c \<longleftrightarrow> (\<forall>s lo up rnd. inv s \<longrightarrow> 1 \<le> lo \<longrightarrow> up \<le> n \<longrightarrow> up - lo < c \<longrightarrow>
     run (rec lo up rnd) s (\<lambda>_ s'. perm lo up (arr s) (arr s') \<and> ordered (arr s') lo up))"

lemma sortsD:
  "sorts rec c \<Longrightarrow> inv s \<Longrightarrow> 1 \<le> lo \<Longrightarrow> up \<le> n \<Longrightarrow> up - lo < c \<Longrightarrow>
    run (rec lo up rnd) s (\<lambda>_ s'. perm lo up (arr s) (arr s') \<and> ordered (arr s') lo up)"
  by (simp add: sorts_def)

lemma parts_run:
  assumes rec: "sorts rec c" and s: "inv s" and r: "1 \<le> lo" "up \<le> n" "up - lo \<le> c" and sp: "split_at a (arr s) lo up p"
  shows "run (sort_parts rec rand lo up rnd p) s (\<lambda>_ s'. perm lo up a (arr s') \<and> ordered (arr s') lo up)"
proof -
  have p: "lo < p" "p \<le> up - 1" using sp by (auto simp: split_at_def)
  have b: "p - 1 \<le> n" "p - 1 - lo < c" "1 \<le> p + 1" "up - (p + 1) < c" using p r by auto
  note left = sortsD [OF rec _ r(1) b(1,2)] and right = sortsD [OF rec _ b(3) r(2) b(4)]
  show ?thesis
  proof (cases "p - lo < up - p")
    case True
    have "run (p_bind (rec lo (p - 1) rnd) (\<lambda>_. rec (p + 1) up rnd')) s (\<lambda>_ s'. perm lo up a (arr s') \<and> ordered (arr s') lo up)" for rnd'
      by (rule run_bind [OF left [OF s]], rule run_mono [OF right], assumption) (use ordered_split [OF _ r(1,2) sp] in blast)
    then show ?thesis using True by (simp add: sort_parts_def)
  next
    case False
    have "run (p_bind (rec (p + 1) up rnd) (\<lambda>_. rec lo (p - 1) rnd')) s (\<lambda>_ s'. perm lo up a (arr s') \<and> ordered (arr s') lo up)" for rnd'
    proof (rule run_bind [OF right [OF s]], rule run_mono [OF left], assumption)
      fix u v s2 s3 assume "inv s2" "perm (p + 1) up (arr s) (arr s2) \<and> ordered (arr s2) (p + 1) up"
        "inv s3" "perm lo (p - 1) (arr s2) (arr s3) \<and> ordered (arr s3) lo (p - 1)"
      then show "perm lo up a (arr s3) \<and> ordered (arr s3) lo up"
        using ordered_split_right [OF _ r(1,2) sp, of s3 "arr s2"] by blast
    qed
    then show ?thesis using False by (simp add: sort_parts_def)
  qed
qed

lemma split_run:
  assumes rec: "sorts rec c" and s: "inv s" and r: "1 \<le> lo" "up \<le> n" "up - lo \<le> c" "n \<le> b" and p: "lo < p" "p < up" "lo < up - 1"
    and o: "le (arr s lo) (arr s p)" "le (arr s p) (arr s up)"
  shows "run (sort_split rec b cmp swap rand lo up rnd p) s (\<lambda>_ s'. perm lo up (arr s) (arr s') \<and> ordered (arr s') lo up)"
  unfolding sort_split_def sort_partition_def
proof (rule run_bind [OF run_swap [OF s]])
  show "1 \<le> p" "p \<le> n" "1 \<le> up - 1" "up - 1 \<le> n" using p r by auto
  fix u s3 assume s3: "inv s3" "arr s3 = exchanged (arr s) p (up - 1)"
  have okp: "ok (arr s p)" using values_ok [OF s] p r by auto
  have "split_inv (arr s3) lo up lo (up - 1)"
    unfolding split_inv_def
  proof (intro conjI allI impI)
    fix x assume "up - 1 \<le> x \<and> x \<le> up"
    then have "x = up - 1 \<or> x = up" using p by auto
    then show "le (arr s3 (up - 1)) (arr s3 x)" using o p le_refl [OF okp] by (auto simp: s3(2))
  qed (use o p in \<open>auto simp: s3(2)\<close>)
  moreover have b: "up - lo \<le> b" using r by auto
  ultimately show "run (p_bind (partition_loop b b cmp swap lo (up - 1) up) (sort_parts rec rand lo up rnd)) s3
      (\<lambda>_ s'. perm lo up (arr s) (arr s') \<and> ordered (arr s') lo up)"
  proof (intro run_bind [OF partition_run [OF r(1,2) b s3(1) _ b]])
    fix q s4 assume s4: "inv s4" "split_at (arr s3) (arr s4) lo up q"
    have "perm lo up (arr s) (arr s3)" unfolding s3(2) by (rule perm_exchanged) (use p in auto)
    then have "split_at (arr s) (arr s4) lo up q" using s4(2) perm_trans by (auto simp: split_at_def)
    from parts_run [OF rec s4(1) r(1-3) this] show "run (sort_parts rec rand lo up rnd q) s4
      (\<lambda>_ s'. perm lo up (arr s) (arr s') \<and> ordered (arr s') lo up)" .
  qed
qed

lemma auxsort_run: "n \<le> b \<Longrightarrow> sorts (auxsort c b cmp swap rand) c"
proof (induction c)
  case (Suc c)
  note IH = Suc.IH [OF Suc.prems]
  show ?case unfolding sorts_def
  proof (intro allI impI)
    fix s lo up rnd assume s: "inv s" and r: "1 \<le> lo" "up \<le> n" "up - lo < Suc c"
    let ?Q = "\<lambda>a _ s'. perm lo up a (arr s') \<and> ordered (arr s') lo up"
    show "run (auxsort (Suc c) b cmp swap rand lo up rnd) s (?Q (arr s))"
    proof (cases "lo < up")
      case False
      have "ordered (arr s) lo up"
      proof (cases "lo \<le> n")
        case True
        then show ?thesis using False values_ok [OF s r(1)] by (intro ordered_one) auto
      qed (use r(2) in \<open>auto simp: ordered_def\<close>)
      then show ?thesis using False s by (auto intro: run_ret)
    next
      case lu: True
      have p: "lo < pivot_of lo up rnd" "pivot_of lo up rnd < up" if "up - lo \<noteq> 1"
        using conjunct1 [OF pivot_between [of up lo rnd]] conjunct2 [OF pivot_between [of up lo rnd]] that lu by linarith+
      have median: "run (p_bind (order_pivot cmp swap lo (pivot_of lo up rnd) up) (\<lambda>_. if up - lo = 2 then p_ret ()
          else sort_split (auxsort c b cmp swap rand) b cmp swap rand lo up rnd (pivot_of lo up rnd))) s1 (?Q (arr s1))"
        if s1: "inv s1" "le (arr s1 lo) (arr s1 up)" and n1: "up - lo \<noteq> 1" for s1
      proof (rule run_bind [OF median_run [OF s1(1) r(1) p [OF n1] r(2) s1(2)]])
        fix u s2 assume s2: "inv s2" "perm lo up (arr s1) (arr s2) \<and> le (arr s2 lo) (arr s2 (pivot_of lo up rnd)) \<and> le (arr s2 (pivot_of lo up rnd)) (arr s2 up)"
        show "run (if up - lo = 2 then p_ret ()
          else sort_split (auxsort c b cmp swap rand) b cmp swap rand lo up rnd (pivot_of lo up rnd)) s2 (?Q (arr s1))"
        proof (cases "up - lo = 2")
          case True
          then have e: "pivot_of lo up rnd = Suc lo" "up = Suc (Suc lo)" using p [OF n1] by auto
          have "ordered (arr s2) lo up" using ordered_three [OF s2(1) r(1), of up] s2(2) r(2) e by auto
          then show ?thesis using True s2 by (auto intro: run_ret)
        next
          case False
          have far: "lo < up - 1" "up - lo \<le> c" using False n1 lu r by auto
          show ?thesis unfolding if_not_P [OF False]
            by (rule run_mono [OF split_run [OF IH s2(1) r(1,2) far(2) Suc.prems p [OF n1] far(1)]]) (use s2(2) perm_trans in blast)+
        qed
      qed
      have "run (p_bind (order_ends cmp swap lo up) (\<lambda>_. if up - lo = 1 then p_ret () else
          p_bind (order_pivot cmp swap lo (pivot_of lo up rnd) up) (\<lambda>_. if up - lo = 2 then p_ret ()
          else sort_split (auxsort c b cmp swap rand) b cmp swap rand lo up rnd (pivot_of lo up rnd)))) s (?Q (arr s))"
      proof (rule run_bind [OF order_ends_run [OF s r(1) lu r(2)]])
        fix u s1 assume s1: "inv s1" "perm lo up (arr s) (arr s1) \<and> le (arr s1 lo) (arr s1 up)"
        show "run (if up - lo = 1 then p_ret () else
          p_bind (order_pivot cmp swap lo (pivot_of lo up rnd) up) (\<lambda>_. if up - lo = 2 then p_ret ()
          else sort_split (auxsort c b cmp swap rand) b cmp swap rand lo up rnd (pivot_of lo up rnd))) s1 (?Q (arr s))"
        proof (cases "up - lo = 1")
          case True
          then have "up = Suc lo" using lu by simp
          then have "ordered (arr s1) lo up" using ordered_two [OF s1(1) r(1,2)] s1(2) by blast
          then show ?thesis using True s1 by (auto intro: run_ret)
        next
          case False
          show ?thesis unfolding if_not_P [OF False]
            by (rule run_mono [OF median [OF s1(1) conjunct2 [OF s1(2)] False]]) (use s1(2) perm_trans in blast)
        qed
      qed
      then show ?thesis by (simp only: auxsort.simps Let_def lu not_True_eq_False if_False)
    qed
  qed
qed (simp add: sorts_def)

end

end
