(* ===== verification/Lt_Window.thy ===== *)
theory Lt_Window
  imports Lt_Monad Lt_Lib Lt_Meta Lt_GcCycle
begin

text \<open>
  C functions on the state: the arguments of a function of the standard library are the window of
  the current thread (\<open>src/vm/state.cpp\<close>), its results are pushed there, and the checks of
  \<open>src/lib/lib_util.hpp\<close> read it. \<open>nm\<close> gives the name of the running function for error messages.
\<close>

section \<open>The window of the current thread\<close>

type_synonym naming = "gstate \<Rightarrow> string \<times> bool"

definition cur_args :: "gstate \<Rightarrow> args" where
  "cur_args g =
     (case g_current g of
        None \<Rightarrow> []
      | Some tp \<Rightarrow> (case thread_at g tp of None \<Rightarrow> [] | Some th \<Rightarrow> window th))"

definition lenv :: "meta_env \<Rightarrow> naming \<Rightarrow> gstate \<Rightarrow> lib_env" where
  "lenv E nm g =
     \<lparr>le_heap = g_strs g, le_strtod = me_strtod E, le_dec = me_dec E, le_fname = fst (nm g),
      le_is_method = snd (nm g), le_type_name = me_type_name E g\<rparr>"

text \<open>A check reads the window and leaves the state.\<close>

definition on_args :: "(gstate \<Rightarrow> args \<Rightarrow> 'a result) \<Rightarrow> (gstate, 'a) cmd" where
  "on_args f = p_lift (\<lambda>g. rbind (f g (cur_args g)) (\<lambda>x. Inr (x, g)))"

definition c_at :: "nat \<Rightarrow> (gstate, tvalue) cmd" where
  "c_at i = on_args (\<lambda>_ as. at_arg as i)"

definition c_gettop :: "(gstate, nat) cmd" where
  "c_gettop = p_get (\<lambda>g. length (cur_args g))"

definition c_check_int :: "meta_env \<Rightarrow> naming \<Rightarrow> nat \<Rightarrow> (gstate, u64) cmd" where
  "c_check_int E nm i = on_args (\<lambda>g as. check_int (lenv E nm g) as i)"

definition c_opt_int :: "meta_env \<Rightarrow> naming \<Rightarrow> nat \<Rightarrow> u64 \<Rightarrow> (gstate, u64) cmd" where
  "c_opt_int E nm i d = on_args (\<lambda>g as. opt_int (lenv E nm g) as i d)"

definition c_check_string :: "meta_env \<Rightarrow> naming \<Rightarrow> nat \<Rightarrow> (gstate, string) cmd" where
  "c_check_string E nm i =
     on_args (\<lambda>g as. rbind (check_string (lenv E nm g) as i) (\<lambda>p. Inr (ls_data (g_strs g p))))"

definition c_push :: "tvalue \<Rightarrow> (gstate, unit) cmd" where
  "c_push v = p_upd (on_current (push v))"

definition c_settop :: "int \<Rightarrow> (gstate, unit) cmd" where
  "c_settop n = p_upd (on_current (settop n))"

definition c_intern :: "meta_env \<Rightarrow> string \<Rightarrow> (gstate, ptr) cmd" where
  "c_intern E s = p_lift (\<lambda>g. Inr (intern E s g))"

definition c_push_string :: "meta_env \<Rightarrow> string \<Rightarrow> (gstate, unit) cmd" where
  "c_push_string E s = p_bind (c_intern E s) (\<lambda>p. c_push (VString p))"

definition c_table_arg :: "nat \<Rightarrow> (gstate, tvalue) cmd" where
  "c_table_arg i = p_bind (c_at i) (\<lambda>t. if is_table t then p_ret t else p_panic ''table expected'')"

section \<open>Laws of the window\<close>

lemma barrier_fields [simp]: "g_strs (barrier p v g) = g_strs g" "g_current (barrier p v g) = g_current g"
  by (auto simp: barrier_def mark_value_def mark_object_def upd_cell_def split: option.splits)

lemma barriers_fields [simp]:
  "g_strs (foldl (\<lambda>g b. barrier p b g) g bs) = g_strs g" "g_current (foldl (\<lambda>g b. barrier p b g) g bs) = g_current g"
  "obj_at (foldl (\<lambda>g b. barrier p b g) g bs) = obj_at g"
  by (induction bs arbitrary: g) auto

lemma set_obj_fields [simp]: "g_strs (set_obj p ob g) = g_strs g" "g_current (set_obj p ob g) = g_current g"
  by (simp_all add: set_obj_def upd_cell_def)

lemma obj_of_table: "table_at g p = Some t \<longleftrightarrow> obj_at g p = Some (OTable t)"
  by (auto simp: table_at_def split: option.splits gc_obj.splits)

lemma obj_of_thread: "thread_at g p = Some t \<longleftrightarrow> obj_at g p = Some (OThread t)"
  by (auto simp: thread_at_def split: option.splits gc_obj.splits)

lemma c_at_value: "1 \<le> i \<Longrightarrow> i \<le> length (cur_args g) \<Longrightarrow> c_at i g = Some (Inr (cur_args g ! (i - 1), g))"
  by (simp add: c_at_def on_args_def p_lift_def at_arg_def)

text \<open>The window: pushing and cutting the arguments of the current thread.\<close>

definition stack_ready :: "gstate \<Rightarrow> bool" where
  "stack_ready g \<longleftrightarrow> (\<exists>tp th. g_current g = Some tp \<and> thread_at g tp = Some th \<and> stack_ok th)"

lemma on_current_args:
  assumes "stack_ready g" and f: "\<And>th. stack_ok th \<Longrightarrow> window th = cur_args g \<Longrightarrow> stack_ok (f th) \<and> window (f th) = ws"
  shows "cur_args (on_current f g) = ws \<and> stack_ready (on_current f g) \<and> g_strs (on_current f g) = g_strs g \<and>
    table_at (on_current f g) = table_at g"
proof -
  obtain tp th where t: "g_current g = Some tp" "thread_at g tp = Some th" "stack_ok th" using assms(1) by (auto simp: stack_ready_def)
  have w: "window th = cur_args g" using t by (simp add: cur_args_def)
  have o: "on_current f g = set_obj tp (OThread (f th)) g" using t by (simp add: on_current_def upd_thread_def)
  have ot: "obj_at g tp = Some (OThread th)" using t(2) by (simp add: obj_of_thread)
  have "thread_at (on_current f g) tp = Some (f th)" by (simp add: o obj_of_thread obj_at_set_obj ot)
  moreover have "table_at (on_current f g) q = table_at g q" for q
    using ot by (auto simp: o table_at_def obj_at_set_obj)
  ultimately show ?thesis using f [OF t(3) w] t(1) by (auto simp: cur_args_def stack_ready_def o)
qed

lemma c_push_value:
  assumes "stack_ready g"
  shows "\<exists>g'. c_push v g = Some (Inr ((), g')) \<and> cur_args g' = cur_args g @ [v] \<and> stack_ready g' \<and> g_strs g' = g_strs g \<and> table_at g' = table_at g"
proof -
  have "stack_ok (push v th) \<and> window (push v th) = cur_args g @ [v]" if "stack_ok th" "window th = cur_args g" for th
    using push_window [OF that(1)] that(2) by simp
  from on_current_args [OF assms this] show ?thesis by (simp add: c_push_def p_upd_def)
qed

lemma c_settop_value:
  assumes "stack_ready g" "k \<le> length (cur_args g)"
  shows "\<exists>g'. c_settop (int k) g = Some (Inr ((), g')) \<and> cur_args g' = take k (cur_args g) \<and> stack_ready g' \<and> g_strs g' = g_strs g \<and>
    table_at g' = table_at g"
proof -
  have "stack_ok (settop (int k) th) \<and> window (settop (int k) th) = take k (cur_args g)"
    if "stack_ok th" "window th = cur_args g" for th
    using settop_shrink [OF that(1), of "int k"] length_window [OF that(1)] that(2) assms(2) by simp
  from on_current_args [OF assms(1) this] show ?thesis by (simp add: c_settop_def p_upd_def)
qed

end
