(* ===== verification/Lt_Tablib.thy ===== *)
theory Lt_Tablib
  imports Lt_Sort Lt_Window
begin

text \<open>
  The table library: \<open>src/lib/ltablib.cpp\<close>. The functions run on the state of the collector and the
  value stack: their arguments are the window of the current thread, their results are pushed there.
  All accesses to tables honour metamethods, so any of them may call back into Lua code. Loops over
  integer ranges are recursions on the number of rounds. \<open>rand\<close> gives the pivots that \<open>randomize_pivot\<close> draws from the clock.
\<close>

section \<open>Length and elements\<close>

definition aux_getn :: "meta_env \<Rightarrow> tvalue \<Rightarrow> (gstate, u64) cmd" where
  "aux_getn E t =
     p_bind (p_lift (meta_len E t)) (\<lambda>len.
       case len of
         VInt n \<Rightarrow> p_ret n
       | VFloat d \<Rightarrow>
           if f_eq d (f_floor d) \<and> f_le kMin d \<and> f_le d (i64_to_f64 (word_of_int (2 ^ 63 - 1)))
           then p_ret (f64_to_i64 d) else p_panic ''object length is not an integer''
       | _ \<Rightarrow> p_panic ''object length is not an integer'')"

definition geti :: "meta_env \<Rightarrow> tvalue \<Rightarrow> u64 \<Rightarrow> (gstate, tvalue) cmd" where
  "geti E t i = p_lift (meta_index E t (VInt i))"

definition seti :: "meta_env \<Rightarrow> tvalue \<Rightarrow> u64 \<Rightarrow> tvalue \<Rightarrow> (gstate, unit) cmd" where
  "seti E t i v = p_lift (\<lambda>g. rbind (meta_newindex E t (VInt i) v g) (\<lambda>g'. Inr ((), g')))"

text \<open>\<open>seti (L, dest, i, geti (L, t, j))\<close>\<close>

definition copyi :: "meta_env \<Rightarrow> tvalue \<Rightarrow> u64 \<Rightarrow> tvalue \<Rightarrow> u64 \<Rightarrow> (gstate, unit) cmd" where
  "copyi E dest i t j = p_bind (geti E t j) (seti E dest i)"

section \<open>concat\<close>

fun concat_type :: "tvalue \<Rightarrow> string" where
  "concat_type (VBool _) = ''boolean''"
| "concat_type (VTable _) = ''table''"
| "concat_type (VFunction _) = ''function''"
| "concat_type (VUserdata _) = ''userdata''"
| "concat_type (VThread _) = ''thread''"
| "concat_type _ = ''nil''"

definition concat_addfield :: "meta_env \<Rightarrow> tvalue \<Rightarrow> u64 \<Rightarrow> string \<Rightarrow> (gstate, string) cmd" where
  "concat_addfield E t i out =
     p_bind (geti E t i) (\<lambda>v.
       if stringish v then p_get (\<lambda>g. out @ to_text E g v)
       else p_panic (''invalid value ('' @ concat_type v @ '') at index '' @ dec_int (sint i) @
         '' in table for '' @ [CHR 0x27] @ ''concat'' @ [CHR 0x27]))"

primrec concat_loop :: "meta_env \<Rightarrow> tvalue \<Rightarrow> string \<Rightarrow> nat \<Rightarrow> u64 \<Rightarrow> string \<Rightarrow> (gstate, string) cmd" where
  "concat_loop E t sep 0 i out = p_ret out"
| "concat_loop E t sep (Suc c) i out =
     p_bind (concat_addfield E t i out) (\<lambda>out. concat_loop E t sep c (i + 1) (out @ sep))"

definition sep_arg :: "meta_env \<Rightarrow> naming \<Rightarrow> (gstate, string) cmd" where
  "sep_arg E nm =
     p_bind c_gettop (\<lambda>n.
       if n < 2 then p_ret []
       else p_bind (c_at 2) (\<lambda>v. if is_nil v then p_ret [] else c_check_string E nm 2))"

definition tab_concat :: "meta_env \<Rightarrow> naming \<Rightarrow> (gstate, nat) cmd" where
  "tab_concat E nm =
     p_bind (c_table_arg 1) (\<lambda>t.
     p_bind (sep_arg E nm) (\<lambda>sep.
     p_bind (c_opt_int E nm 3 1) (\<lambda>i.
     p_bind (aux_getn E t) (\<lambda>n.
     p_bind (c_opt_int E nm 4 n) (\<lambda>last.
     p_bind (concat_loop E t sep (nat (sint last - sint i)) i []) (\<lambda>out.
     p_bind (if sint i \<le> sint last then concat_addfield E t last out else p_ret out) (\<lambda>out.
     p_bind (c_settop 0) (\<lambda>_.
     p_bind (c_push_string E out) (\<lambda>_. p_ret 1)))))))))"

section \<open>insert, remove and move\<close>

primrec insert_loop :: "meta_env \<Rightarrow> tvalue \<Rightarrow> nat \<Rightarrow> u64 \<Rightarrow> (gstate, unit) cmd" where
  "insert_loop E t 0 k = p_ret ()"
| "insert_loop E t (Suc c) k = p_bind (copyi E t k t (k - 1)) (\<lambda>_. insert_loop E t c (k - 1))"

definition tab_insert :: "meta_env \<Rightarrow> naming \<Rightarrow> (gstate, nat) cmd" where
  "tab_insert E nm =
     p_bind (c_table_arg 1) (\<lambda>t.
     p_bind c_gettop (\<lambda>top.
       if top = 2 then
         p_bind (aux_getn E t) (\<lambda>n. p_bind (c_at 2) (\<lambda>v. p_bind (seti E t (n + 1) v) (\<lambda>_. p_ret 0)))
       else if top = 3 then
         p_bind (c_check_int E nm 2) (\<lambda>pos.
         p_bind (aux_getn E t) (\<lambda>n.
           let e = n + 1 in
           if sint pos < 1 \<or> sint e < sint pos then p_panic ''position out of bounds''
           else
             p_bind (insert_loop E t (nat (sint e - sint pos)) e) (\<lambda>_.
             p_bind (c_at 3) (\<lambda>v. p_bind (seti E t pos v) (\<lambda>_. p_ret 0)))))
       else p_panic (''wrong number of arguments to '' @ [CHR 0x27] @ ''insert'' @ [CHR 0x27])))"

primrec remove_loop :: "meta_env \<Rightarrow> tvalue \<Rightarrow> nat \<Rightarrow> u64 \<Rightarrow> (gstate, unit) cmd" where
  "remove_loop E t 0 k = p_ret ()"
| "remove_loop E t (Suc c) k = p_bind (copyi E t k t (k + 1)) (\<lambda>_. remove_loop E t c (k + 1))"

definition tab_remove :: "meta_env \<Rightarrow> naming \<Rightarrow> (gstate, nat) cmd" where
  "tab_remove E nm =
     p_bind (c_table_arg 1) (\<lambda>t.
     p_bind (aux_getn E t) (\<lambda>size.
     p_bind c_gettop (\<lambda>top.
     p_bind (if 2 \<le> top then c_check_int E nm 2 else p_ret size) (\<lambda>pos.
       if pos \<noteq> size \<and> (sint pos < 1 \<or> sint (size + 1) < sint pos) then p_panic ''position out of bounds''
       else
         p_bind (geti E t pos) (\<lambda>v.
         p_bind (remove_loop E t (nat (sint size - sint pos)) pos) (\<lambda>_.
         p_bind (if 1 \<le> sint pos \<and> sint pos \<le> sint size then seti E t size VNil
                 else if pos = 0 then seti E t 0 VNil else p_ret ()) (\<lambda>_.
         p_bind (c_settop 0) (\<lambda>_.
         p_bind (c_push v) (\<lambda>_. p_ret 1)))))))))"

primrec move_up :: "meta_env \<Rightarrow> tvalue \<Rightarrow> u64 \<Rightarrow> tvalue \<Rightarrow> u64 \<Rightarrow> nat \<Rightarrow> nat \<Rightarrow> (gstate, unit) cmd" where
  "move_up E dest tpos a f 0 i = p_ret ()"
| "move_up E dest tpos a f (Suc c) i =
     p_bind (copyi E dest (tpos + of_nat i) a (f + of_nat i)) (\<lambda>_. move_up E dest tpos a f c (i + 1))"

primrec move_down :: "meta_env \<Rightarrow> tvalue \<Rightarrow> u64 \<Rightarrow> tvalue \<Rightarrow> u64 \<Rightarrow> nat \<Rightarrow> (gstate, unit) cmd" where
  "move_down E dest tpos a f 0 = p_ret ()"
| "move_down E dest tpos a f (Suc i) =
     p_bind (copyi E dest (tpos + of_nat i) a (f + of_nat i)) (\<lambda>_. move_down E dest tpos a f i)"

definition move_range :: "meta_env \<Rightarrow> tvalue \<Rightarrow> tvalue \<Rightarrow> u64 \<Rightarrow> u64 \<Rightarrow> u64 \<Rightarrow> (gstate, unit) cmd" where
  "move_range E dest a f e tpos =
     (if sint e < sint f then p_ret ()
      else if sint f \<le> 0 \<and> word_of_int (2 ^ 63 - 1) \<le> e - f then p_panic ''too many elements to move''
      else let n = e - f + 1 in
        if sint (word_of_int (2 ^ 63 - 1) - n + 1) < sint tpos then p_panic ''destination wrap around''
        else if sint e < sint tpos \<or> sint tpos \<le> sint f \<or> \<not> values_equal dest a
             then move_up E dest tpos a f (nat (sint n)) 0 else move_down E dest tpos a f (nat (sint n)))"

definition tab_move :: "meta_env \<Rightarrow> naming \<Rightarrow> (gstate, nat) cmd" where
  "tab_move E nm =
     p_bind (c_table_arg 1) (\<lambda>a.
     p_bind (c_check_int E nm 2) (\<lambda>f.
     p_bind (c_check_int E nm 3) (\<lambda>e.
     p_bind (c_check_int E nm 4) (\<lambda>tpos.
     p_bind c_gettop (\<lambda>top.
     p_bind (if 5 \<le> top then c_table_arg 5 else p_ret a) (\<lambda>dest.
     p_bind (move_range E dest a f e tpos) (\<lambda>_.
     p_bind (c_settop 0) (\<lambda>_.
     p_bind (c_push dest) (\<lambda>_. p_ret 1)))))))))"

section \<open>pack and unpack\<close>

text \<open>\<open>Table::set_int\<close> and \<open>Table::set\<close> on the new table; \<open>tb\<close> is \<open>sizeof(Table)\<close>.\<close>

definition table_store_int :: "ptr \<Rightarrow> u64 \<Rightarrow> tvalue \<Rightarrow> gstate \<Rightarrow> gstate result" where
  "table_store_int p i v g =
     (case table_at g p of
        None \<Rightarrow> Inr g
      | Some t \<Rightarrow>
          rbind (table_set_int (g_strs g) t i v) (\<lambda>(t', bs).
            Inr (foldl (\<lambda>g b. barrier p b g) (set_obj p (OTable t') g) bs)))"

primrec pack_loop :: "ptr \<Rightarrow> nat \<Rightarrow> nat \<Rightarrow> (gstate, unit) cmd" where
  "pack_loop p 0 i = p_ret ()"
| "pack_loop p (Suc c) i =
     p_bind (c_at i) (\<lambda>v.
     p_bind (p_lift (\<lambda>g. rbind (table_store_int p (of_nat i) v g) (\<lambda>g'. Inr ((), g')))) (\<lambda>_. pack_loop p c (i + 1)))"

definition tab_pack :: "meta_env \<Rightarrow> int \<Rightarrow> (gstate, nat) cmd" where
  "tab_pack E tb =
     p_bind c_gettop (\<lambda>n.
     p_bind (p_lift (\<lambda>g. let p = me_alloc E g in Inr (p, gc_link p (OTable (table_new n 0)) tb g))) (\<lambda>p.
     p_bind (pack_loop p n 1) (\<lambda>_.
     p_bind (c_intern E ''n'') (\<lambda>key.
     p_bind (p_lift (\<lambda>g. rbind (table_store p (VString key) (VInt (of_nat n)) g) (\<lambda>g'. Inr ((), g')))) (\<lambda>_.
     p_bind (c_settop 0) (\<lambda>_.
     p_bind (c_push (VTable p)) (\<lambda>_. p_ret 1)))))))"

primrec unpack_loop :: "meta_env \<Rightarrow> tvalue \<Rightarrow> nat \<Rightarrow> u64 \<Rightarrow> (gstate, unit) cmd" where
  "unpack_loop E t 0 k = p_ret ()"
| "unpack_loop E t (Suc c) k = p_bind (geti E t k) (\<lambda>v. p_bind (c_push v) (\<lambda>_. unpack_loop E t c (k + 1)))"

definition INT_MAX :: int where
  "INT_MAX = 2 ^ 31 - 1"

definition tab_unpack :: "meta_env \<Rightarrow> naming \<Rightarrow> (gstate, nat) cmd" where
  "tab_unpack E nm =
     p_bind (c_table_arg 1) (\<lambda>t.
     p_bind (c_opt_int E nm 2 1) (\<lambda>i.
     p_bind (aux_getn E t) (\<lambda>len.
     p_bind (c_opt_int E nm 3 len) (\<lambda>j.
       if sint j < sint i then p_ret 0
       else if word_of_int (INT_MAX - 1) \<le> j - i then p_panic ''too many results to unpack''
       else
         p_bind (c_settop 0) (\<lambda>_.
         p_bind (unpack_loop E t (nat (sint j - sint i)) i) (\<lambda>_.
         p_bind (geti E t j) (\<lambda>v. p_bind (c_push v) (\<lambda>_. p_ret (unat (j - i) + 1)))))))))"

section \<open>sort\<close>

definition sort_comp_idx :: "meta_env \<Rightarrow> nat \<Rightarrow> nat \<Rightarrow> (gstate, bool) cmd" where
  "sort_comp_idx E ai bi =
     p_bind (c_at 1) (\<lambda>t.
     p_bind (geti E t (of_nat ai)) (\<lambda>a.
     p_bind (geti E t (of_nat bi)) (\<lambda>b.
     p_bind (c_at 2) (\<lambda>cmp.
       case cmp of
         VNil \<Rightarrow> p_lift (meta_lt E a b)
       | VFunction fn \<Rightarrow>
           p_bind (c_push cmp) (\<lambda>_. p_bind (c_push a) (\<lambda>_. p_bind (c_push b) (\<lambda>_.
           p_bind (p_lift (\<lambda>g. me_call E g fn 2 1)) (\<lambda>_.
           p_bind c_gettop (\<lambda>top.
           p_bind (c_at top) (\<lambda>r.
           p_bind (c_settop 2) (\<lambda>_. p_ret (is_truthy r))))))))
       | _ \<Rightarrow> p_panic (''bad argument #2 to '' @ [CHR 0x27] @ ''sort'' @ [CHR 0x27] @ '' (function expected)'')))))"

definition sort_swap :: "meta_env \<Rightarrow> nat \<Rightarrow> nat \<Rightarrow> (gstate, unit) cmd" where
  "sort_swap E i j =
     p_bind (c_at 1) (\<lambda>t.
     p_bind (geti E t (of_nat i)) (\<lambda>ai.
     p_bind (geti E t (of_nat j)) (\<lambda>aj.
     p_bind (seti E t (of_nat i) aj) (\<lambda>_. seti E t (of_nat j) ai))))"

definition is_function :: "tvalue \<Rightarrow> bool" where
  "is_function v \<longleftrightarrow> tag_of v = TagFunction"

definition sort_check_cmp :: "(gstate, unit) cmd" where
  "sort_check_cmp =
     p_bind c_gettop (\<lambda>top.
       if top < 2 then p_ret ()
       else p_bind (c_at 2) (\<lambda>v.
         if \<not> is_nil v \<and> \<not> is_function v
         then p_panic (''bad argument #2 to '' @ [CHR 0x27] @ ''sort'' @ [CHR 0x27] @ '' (function expected)'')
         else p_ret ()))"

definition tab_sort :: "meta_env \<Rightarrow> (nat \<Rightarrow> nat \<Rightarrow> nat) \<Rightarrow> (gstate, nat) cmd" where
  "tab_sort E rand =
     p_bind (c_at 1) (\<lambda>t.
       if \<not> is_table t
       then p_bind (p_get (\<lambda>g. me_type_name E g t)) (\<lambda>tn.
         p_panic (''bad argument #1 to '' @ [CHR 0x27] @ ''table.sort'' @ [CHR 0x27] @ '' (table expected, got '' @ tn @ '')''))
       else p_bind (aux_getn E t) (\<lambda>n.
         if sint n \<le> 1 then p_ret 0
         else if INT_MAX \<le> sint n then p_panic ''array too big''
         else
           p_bind sort_check_cmp (\<lambda>_.
           p_bind c_gettop (\<lambda>top.
           p_bind (if top < 2 then c_push VNil else p_ret ()) (\<lambda>_.
           p_bind (c_settop 2) (\<lambda>_.
           p_bind (auxsort (unat n) (unat n) (sort_comp_idx E) (sort_swap E) rand 1 (unat n) 0) (\<lambda>_. p_ret 0)))))))"

section \<open>Plain tables\<close>

text \<open>A table without metatable: elements are read and written without metamethods.\<close>

text \<open>No write changes the metatable.\<close>

lemma raw_insert_metatable: "raw_insert H kv t = Inr (t', b) \<Longrightarrow> t_metatable t' = t_metatable t"
  by (auto simp: raw_insert_def raw_insert_hash_def put_node_def put_value_def put_array_def panic_def
      split: if_splits option.splits probe.splits)

lemma raw_insert_all_metatable: "raw_insert_all H kvs t = Inr (t', b) \<Longrightarrow> t_metatable t' = t_metatable t"
  by (induction kvs arbitrary: t b) (auto simp: rbind_eq_Inr dest: raw_insert_metatable)

lemma rehash_metatable: "rehash H t a h = Inr (t', b) \<Longrightarrow> t_metatable t' = t_metatable t"
  by (auto simp: rehash_def Let_def bump_version_def dest!: raw_insert_all_metatable)

lemma invalidate_tm_metatable [simp]: "t_metatable (invalidate_tm H k t) = t_metatable t"
  by (cases k) (auto simp: clear_tm_cache_def)

lemma set_hash_metatable:
  "set_hash H k v t = Written (t', b) \<Longrightarrow> t_metatable t' = t_metatable t"
  "set_hash H k v t = NeedRehash t' \<Longrightarrow> t_metatable t' = t_metatable t"
  by (auto simp: set_hash_def bump_version_def put_node_def put_value_def
      split: prod.splits probe.splits if_splits option.splits)

lemma set_pass_metatable:
  "set_pass H k v t = Written (t', b) \<Longrightarrow> t_metatable t' = t_metatable t"
  "set_pass H k v t = NeedRehash t' \<Longrightarrow> t_metatable t' = t_metatable t"
  by (auto simp: set_pass_def Let_def set_int_array_def put_array_def bump_version_def ensure_hash_def
      split: option.splits if_splits dest!: set_hash_metatable)

lemma table_set_metatable: "table_set H t k v = Inr (t', b) \<Longrightarrow> t_metatable t' = t_metatable t"
proof (induction H t k v arbitrary: t' b rule: table_set.induct)
  case (1 H t k v)
  have k: "bad_key k = None" using "1.prems" by (cases "bad_key k") (auto simp: table_set.simps [of H t] panic_def)
  show ?case
  proof (cases "set_pass H k v t")
    case (Written r)
    then show ?thesis using "1.prems" k set_pass_metatable(1) [of H k v t t' b] by (auto simp: table_set.simps [of H t])
  next
    case (NeedRehash t1)
    then obtain t2 b2 b3 where r: "rehash H t1 (length (t_array t1)) (2 * length (t_hash t1)) = Inr (t2, b2)"
        "table_set H t2 k v = Inr (t', b3)"
      using "1.prems" k by (auto simp: table_set.simps [of H t] split: sum.splits)
    then show ?thesis
      using "1.IH" [OF k NeedRehash r(1) refl r(2)] rehash_metatable [OF r(1)] set_pass_metatable(2) [OF NeedRehash] by simp
  qed
qed

text \<open>Writing a table leaves every other object, the strings and the window.\<close>

lemma table_store_plain:
  assumes t: "table_at g p = Some t" and inv: "table_inv (g_strs g) t" and k: "bad_key key = None"
  shows "\<exists>g' t'. table_store p key v g = Inr g' \<and> table_at g' p = Some t' \<and> table_inv (g_strs g) t' \<and>
    t_metatable t' = t_metatable t \<and> g_strs g' = g_strs g \<and> cur_args g' = cur_args g \<and>
    (\<forall>q. table_get (g_strs g) t' q = (if lookup_key q = lookup_key key then v else table_get (g_strs g) t q))"
proof -
  obtain t' b where s: "table_set (g_strs g) t key v = Inr (t', b)" "table_inv (g_strs g) t'"
      "\<forall>q. table_get (g_strs g) t' q = (if lookup_key q = lookup_key key then v else table_get (g_strs g) t q)"
    using table_set_get [OF inv k, of v] by blast
  define g' where "g' = foldl (\<lambda>g b. barrier p b g) (set_obj p (OTable t') g) b"
  have w: "table_store p key v g = Inr g'" using t s(1) by (simp add: table_store_def g'_def)
  have o: "obj_at g' q = (if q = p then Some (OTable t') else obj_at g q)" for q
    using t by (simp add: g'_def obj_at_set_obj obj_of_table)
  have "g_strs g' = g_strs g" "g_current g' = g_current g" by (simp_all add: g'_def)
  moreover have "thread_at g' tp = thread_at g tp" for tp
    using t o [of tp] by (auto simp: thread_at_def obj_of_table)
  ultimately have "cur_args g' = cur_args g" by (simp add: cur_args_def split: option.splits)
  moreover have "t_metatable t' = t_metatable t" using table_set_metatable [OF s(1)] .
  moreover have "table_at g' p = Some t'" by (simp add: obj_of_table o)
  ultimately show ?thesis using w s \<open>g_strs g' = g_strs g\<close> by blast
qed

definition plain :: "gstate \<Rightarrow> ptr \<Rightarrow> table \<Rightarrow> bool" where
  "plain g p t \<longleftrightarrow> table_at g p = Some t \<and> table_inv (g_strs g) t \<and> t_metatable t = None"

lemma int_key [simp]: "bad_key (VInt i) = None" "lookup_key (VInt i) = VInt i"
  by (simp_all add: bad_key_def lookup_key_def)

lemma tag_loop_Suc: "kMaxTagLoop = Suc 1999"
  by (simp add: kMaxTagLoop_def)

lemma plain_no_metamethod: "plain g p t \<Longrightarrow> get_metamethod g (VTable p) e = (VNil, g)"
  by (simp add: plain_def get_metamethod_def get_tm_def get_metatable_def obj_of_table)

lemma geti_plain:
  assumes "plain g p t"
  shows "geti E (VTable p) i g = Some (Inr (table_get (g_strs g) t (VInt i), g))"
proof -
  have r: "raw_index g (VTable p) (VInt i) = table_get (g_strs g) t (VInt i)"
    using assms by (simp add: raw_index_def plain_def)
  show ?thesis unfolding geti_def p_lift_def meta_index_def tag_loop_Suc index_loop.simps r
      plain_no_metamethod [OF assms] by (simp add: is_nil_def)
qed

lemma seti_plain:
  assumes "plain g p t"
  shows "\<exists>g' t'. seti E (VTable p) i v g = Some (Inr ((), g')) \<and> plain g' p t' \<and> g_strs g' = g_strs g \<and> cur_args g' = cur_args g \<and>
    (\<forall>q. table_get (g_strs g) t' q = (if lookup_key q = VInt i then v else table_get (g_strs g) t q))"
proof -
  have "meta_newindex E (VTable p) (VInt i) v g = table_store p (VInt i) v g"
    unfolding meta_newindex_def tag_loop_Suc newindex_loop.simps plain_no_metamethod [OF assms] by (simp add: is_nil_def)
  moreover obtain g' t' where "table_store p (VInt i) v g = Inr g'" "table_at g' p = Some t'" "table_inv (g_strs g) t'"
      "t_metatable t' = t_metatable t" "g_strs g' = g_strs g" "cur_args g' = cur_args g"
      "\<forall>q. table_get (g_strs g) t' q = (if lookup_key q = VInt i then v else table_get (g_strs g) t q)"
    using table_store_plain [of g p t "VInt i" v] assms unfolding plain_def int_key by blast
  ultimately show ?thesis using assms by (auto simp: seti_def p_lift_def plain_def)
qed

section \<open>Sorting a table of numbers\<close>

definition orderable :: "tvalue \<Rightarrow> bool" where
  "orderable v \<longleftrightarrow> is_number v \<and> \<not> isnan (num_of v)"

definition num_less :: "tvalue \<Rightarrow> tvalue \<Rightarrow> bool" where
  "num_less a b \<longleftrightarrow> f_lt (num_of a) (num_of b)"

definition elem :: "ptr \<Rightarrow> nat \<Rightarrow> gstate \<Rightarrow> nat \<Rightarrow> tvalue" where
  "elem p n g x =
     (case table_at g p of
        Some t \<Rightarrow> if 1 \<le> x \<and> x \<le> n then table_get (g_strs g) t (VInt (of_nat x)) else VNil
      | None \<Rightarrow> VNil)"

definition sort_state :: "str_heap \<Rightarrow> (tvalue \<Rightarrow> tvalue) \<Rightarrow> ptr \<Rightarrow> nat \<Rightarrow> gstate \<Rightarrow> bool" where
  "sort_state H base p n g \<longleftrightarrow>
     g_strs g = H \<and> cur_args g = [VTable p, VNil] \<and> n < 2 ^ 31 \<and>
     (\<exists>t. plain g p t \<and> (\<forall>i. 1 \<le> i \<and> i \<le> n \<longrightarrow> orderable (table_get H t (VInt (of_nat i)))) \<and>
       (\<forall>q. (\<forall>i. 1 \<le> i \<and> i \<le> n \<longrightarrow> lookup_key q \<noteq> VInt (of_nat i)) \<longrightarrow> table_get H t q = base q))"

lemma of_nat_inject_64: "i < 2 ^ 31 \<Longrightarrow> j < 2 ^ 31 \<Longrightarrow> (of_nat i :: u64) = of_nat j \<longleftrightarrow> i = j"
proof -
  assume "i < 2 ^ 31" "j < 2 ^ 31"
  then have "unat (of_nat i :: u64) = i" "unat (of_nat j :: u64) = j" by (simp_all add: unat_of_nat)
  then show ?thesis by metis
qed

lemma sort_comp_value:
  assumes "sort_state H base p n g" "1 \<le> i" "i \<le> n" "1 \<le> j" "j \<le> n"
  shows "sort_comp_idx E i j g = Some (Inr (num_less (elem p n g i) (elem p n g j), g))"
proof -
  obtain t where t: "plain g p t" "g_strs g = H" "cur_args g = [VTable p, VNil]"
      "orderable (table_get H t (VInt (of_nat i)))" "orderable (table_get H t (VInt (of_nat j)))"
    using assms by (auto simp: sort_state_def)
  have a: "c_at 1 g = Some (Inr (VTable p, g))" "c_at 2 g = Some (Inr (VNil, g))" using t(3) c_at_value [of _ g] by simp_all
  have e: "elem p n g i = table_get H t (VInt (of_nat i))" "elem p n g j = table_get H t (VInt (of_nat j))"
    using t assms(2-5) by (simp_all add: elem_def plain_def)
  note gi = geti_plain [OF t(1), of E, unfolded t(2)]
  show ?thesis unfolding sort_comp_idx_def e
    using t(4,5) by (simp add: a gi p_lift_def
      meta_lt_def orderable_def num_less_def del: One_nat_def)
qed

lemma sort_swap_value:
  assumes "sort_state H base p n g" "1 \<le> i" "i \<le> n" "1 \<le> j" "j \<le> n"
  shows "\<exists>g'. sort_swap E i j g = Some (Inr ((), g')) \<and> sort_state H base p n g' \<and> elem p n g' = exchanged (elem p n g) i j"
proof -
  obtain t where t: "plain g p t" "g_strs g = H" "cur_args g = [VTable p, VNil]" and n: "n < 2 ^ 31"
      and o: "\<And>i. 1 \<le> i \<Longrightarrow> i \<le> n \<Longrightarrow> orderable (table_get H t (VInt (of_nat i)))"
      and b: "\<And>q. (\<forall>i. 1 \<le> i \<and> i \<le> n \<longrightarrow> lookup_key q \<noteq> VInt (of_nat i)) \<Longrightarrow> table_get H t q = base q"
    using assms(1) by (auto simp: sort_state_def)
  let ?v = "\<lambda>t x. table_get H t (VInt (of_nat x))"
  obtain g1 t1 where 1: "seti E (VTable p) (of_nat i) (?v t j) g = Some (Inr ((), g1))" "plain g1 p t1" "g_strs g1 = H"
      "cur_args g1 = cur_args g" "\<And>q. table_get H t1 q = (if lookup_key q = VInt (of_nat i) then ?v t j else table_get H t q)"
    using seti_plain [OF t(1), of E "of_nat i" "?v t j"] t(2) by auto
  obtain g2 t2 where 2: "seti E (VTable p) (of_nat j) (?v t i) g1 = Some (Inr ((), g2))" "plain g2 p t2" "g_strs g2 = H"
      "cur_args g2 = cur_args g1" "\<And>q. table_get H t2 q = (if lookup_key q = VInt (of_nat j) then ?v t i else table_get H t1 q)"
    using seti_plain [OF 1(2), of E "of_nat j" "?v t i"] 1(3) by auto
  have a: "c_at 1 g = Some (Inr (VTable p, g))" using t(3) c_at_value [of _ g] by simp
  have run: "sort_swap E i j g = Some (Inr ((), g2))"
    unfolding sort_swap_def by (simp add: a geti_plain [OF t(1)] t(2) 1(1) 2(1) del: One_nat_def)
  have v: "?v t2 x = (if x = j then ?v t i else if x = i then ?v t j else ?v t x)" if "x \<le> n" for x
    using that assms(2-5) n by (simp add: 1(5) 2(5) of_nat_inject_64)
  have "sort_state H base p n g2" unfolding sort_state_def
  proof (intro conjI exI [of _ t2] allI impI)
    fix x assume "1 \<le> x \<and> x \<le> n"
    then show "orderable (?v t2 x)" using v [of x] o assms(2-5) by auto
  next
    fix q assume q: "\<forall>i. 1 \<le> i \<and> i \<le> n \<longrightarrow> lookup_key q \<noteq> VInt (of_nat i)"
    then have "table_get H t2 q = table_get H t q" using assms(2-5) by (simp add: 1(5) 2(5))
    then show "table_get H t2 q = base q" using b [OF q] by simp
  qed (use t 1 2 n in simp_all)
  moreover have "elem p n g2 = exchanged (elem p n g) i j"
  proof
    fix x
    have "table_at g p = Some t" "table_at g2 p = Some t2" using t(1) 2(2) by (simp_all add: plain_def)
    then show "elem p n g2 x = exchanged (elem p n g) i j x"
      using v [of x] assms(2-5) t(2) 2(3) by (auto simp: elem_def)
  qed
  ultimately show ?thesis using run by blast
qed

interpretation tab: sort_array "elem p n" "sort_state H base p n" num_less orderable "sort_comp_idx E" "sort_swap E" n
  for p n H base E
proof
  fix s i j assume a: "sort_state H base p n s" "1 \<le> i" "i \<le> n" "1 \<le> j" "j \<le> n"
  show "sort_comp_idx E i j s = Some (Inr (num_less (elem p n s i) (elem p n s j), s))" using sort_comp_value [OF a] .
  show "\<exists>s'. sort_swap E i j s = Some (Inr ((), s')) \<and> sort_state H base p n s' \<and> elem p n s' = exchanged (elem p n s) i j"
    using sort_swap_value [OF a] .
next
  fix s i assume "sort_state H base p n s" "1 \<le> i" "i \<le> n"
  then show "orderable (elem p n s i)" by (auto simp: sort_state_def elem_def plain_def)
qed (auto simp: num_less_def orderable_def f_lt_def)

lemma aux_getn_plain:
  assumes "plain g p t"
  shows "aux_getn E (VTable p) g = Some (Inr (of_nat (table_length (g_strs g) t), g))"
proof -
  have "meta_len E (VTable p) g = Inr (VInt (of_nat (table_length (g_strs g) t)), g)"
    using assms plain_no_metamethod [OF assms] by (simp add: meta_len_def plain_def)
  then show ?thesis by (simp add: aux_getn_def p_bind_def p_lift_def p_ret_def)
qed

lemma sint_small: "k < 2 ^ 31 \<Longrightarrow> sint (of_nat k :: u64) = int k" "k < 2 ^ 31 \<Longrightarrow> unat (of_nat k :: u64) = k"
proof -
  assume k: "k < 2 ^ 31"
  show "sint (of_nat k :: u64) = int k" using sint_of_int_64 [of "int k"] k by simp
  show "unat (of_nat k :: u64) = k" using k by (simp add: unat_of_nat)
qed

text \<open>What \<open>table.sort (t)\<close> promises for an array of numbers.\<close>

definition sorted_result :: "ptr \<Rightarrow> table \<Rightarrow> gstate \<Rightarrow> gstate \<Rightarrow> bool" where
  "sorted_result p t g g' \<longleftrightarrow>
     (let n = table_length (g_strs g) t; item = (\<lambda>t i. table_get (g_strs g) t (VInt (of_nat i))) in
      \<exists>t'. table_at g' p = Some t' \<and> g_strs g' = g_strs g \<and>
        sorted_wrt (\<lambda>a b. \<not> num_less b a) (map (item t') [1..<n + 1]) \<and>
        mset (map (item t') [1..<n + 1]) = mset (map (item t) [1..<n + 1]) \<and>
        (\<forall>q. (\<forall>i \<in> {1..n}. lookup_key q \<noteq> VInt (of_nat i)) \<longrightarrow> table_get (g_strs g) t' q = table_get (g_strs g) t q))"

lemma sorted_result_of:
  assumes t: "plain g p t" and n: "n = table_length (g_strs g) t"
    and s: "sort_state (g_strs g) (table_get (g_strs g) t) p n g'" "tab.ordered (elem p n g') 1 n" "perm 1 n (elem p n g) (elem p n g')"
  shows "sorted_result p t g g'"
proof -
  obtain t' where t': "plain g' p t'" "g_strs g' = g_strs g"
      "\<And>q. (\<forall>i. 1 \<le> i \<and> i \<le> n \<longrightarrow> lookup_key q \<noteq> VInt (of_nat i)) \<Longrightarrow> table_get (g_strs g) t' q = table_get (g_strs g) t q"
    using s(1) by (auto simp: sort_state_def)
  let ?item = "\<lambda>t i. table_get (g_strs g) t (VInt (of_nat i))"
  have e: "map (elem p n g) [1..<n + 1] = map (?item t) [1..<n + 1]" "map (elem p n g') [1..<n + 1] = map (?item t') [1..<n + 1]"
    using t t'(1,2) by (auto simp: elem_def plain_def)
  have "mset (map (elem p n g') [1..<n + 1]) = mset (map (elem p n g) [1..<n + 1])"
  proof -
    have "mset [1..<n + 1] = mset_set {1..n}" by (simp add: atLeastLessThanSuc_atLeastAtMost del: upt_Suc)
    then show ?thesis using s(3) unfolding mset_map perm_def by metis
  qed
  moreover have "sorted_wrt (\<lambda>a b. \<not> num_less b a) (map (elem p n g') [1..<n + 1])"
    using s(2) by (auto simp: sorted_wrt_map sorted_wrt_iff_nth_less tab.ordered_def tab.le_def nth_append)
  ultimately show ?thesis unfolding sorted_result_def Let_def n [symmetric] e using t' by (auto simp: plain_def)
qed

lemma plain_moves: "plain g p t \<Longrightarrow> g_strs g' = g_strs g \<Longrightarrow> table_at g' = table_at g \<Longrightarrow> plain g' p t"
  by (simp add: plain_def)

text \<open>The window is padded with a nil comparison and cut to two values.\<close>

lemma sort_window:
  assumes g: "plain g p t" "stack_ready g" "cur_args g = [VTable p] \<or> cur_args g = [VTable p, VNil]"
  shows "\<exists>g'. p_bind c_gettop (\<lambda>top. p_bind (if top < 2 then c_push VNil else p_ret ()) (\<lambda>_. c_settop 2)) g = Some (Inr ((), g')) \<and>
    cur_args g' = [VTable p, VNil] \<and> plain g' p t \<and> g_strs g' = g_strs g"
proof -
  have "\<exists>g1. p_bind c_gettop (\<lambda>top. if top < 2 then c_push VNil else p_ret ()) g = Some (Inr ((), g1)) \<and>
      cur_args g1 = [VTable p, VNil] \<and> stack_ready g1 \<and> g_strs g1 = g_strs g \<and> table_at g1 = table_at g"
    using g(2,3) c_push_value [OF g(2), of VNil] by (auto simp: p_bind_def c_gettop_def p_get_def p_ret_def)
  then obtain g1 where 1: "p_bind c_gettop (\<lambda>top. if top < 2 then c_push VNil else p_ret ()) g = Some (Inr ((), g1))"
      "cur_args g1 = [VTable p, VNil]" "stack_ready g1" "g_strs g1 = g_strs g" "table_at g1 = table_at g" by blast
  obtain g2 where 2: "c_settop 2 g1 = Some (Inr ((), g2))" "cur_args g2 = [VTable p, VNil]" "g_strs g2 = g_strs g1" "table_at g2 = table_at g1"
    using c_settop_value [OF 1(3), of 2] 1(2) by auto
  have "p_bind c_gettop (\<lambda>top. p_bind (if top < 2 then c_push VNil else p_ret ()) (\<lambda>_. c_settop 2)) g =
      p_bind (p_bind c_gettop (\<lambda>top. if top < 2 then c_push VNil else p_ret ())) (\<lambda>_. c_settop 2) g"
    by (simp add: p_bind_assoc)
  also have "\<dots> = Some (Inr ((), g2))" using 1(1) 2(1) by simp
  finally show ?thesis using 1 2 plain_moves [OF g(1), of g2] by auto
qed

lemma check_cmp_value:
  "cur_args g = [VTable p] \<or> cur_args g = [VTable p, VNil] \<Longrightarrow> sort_check_cmp g = Some (Inr ((), g))"
  by (auto simp: sort_check_cmp_def p_bind_def c_gettop_def p_get_def p_ret_def c_at_def on_args_def p_lift_def at_arg_def
      is_nil_def numeral_2_eq_2)

lemma tab_sort_run:
  assumes g: "plain g p t" "stack_ready g" "cur_args g = [VTable p] \<or> cur_args g = [VTable p, VNil]"
    and n: "n = table_length (g_strs g) t" "1 < n" "int n < INT_MAX"
    and o: "\<forall>i \<in> {1..n}. orderable (table_get (g_strs g) t (VInt (of_nat i)))"
  shows "\<exists>g'. tab_sort E rand g = Some (Inr (0, g')) \<and> sorted_result p t g g'"
proof -
  have n31: "n < 2 ^ 31" using n(3) by (simp add: INT_MAX_def)
  obtain g2 where 2: "p_bind c_gettop (\<lambda>top. p_bind (if top < 2 then c_push VNil else p_ret ()) (\<lambda>_. c_settop 2)) g = Some (Inr ((), g2))"
      "cur_args g2 = [VTable p, VNil]" "plain g2 p t" "g_strs g2 = g_strs g"
    using sort_window [OF g] by blast
  have st: "sort_state (g_strs g) (table_get (g_strs g) t) p n g2"
    unfolding sort_state_def using 2 n31 o by auto
  have "tab.run (g_strs g) (table_get (g_strs g) t) p n (auxsort n n (sort_comp_idx E) (sort_swap E) rand 1 n 0) g2
      (\<lambda>_ g'. perm 1 n (elem p n g2) (elem p n g') \<and> tab.ordered (elem p n g') 1 n)"
    by (rule tab.sortsD [OF tab.auxsort_run [OF order_refl] st]) (use n(2) in auto)
  then obtain g3 where 3: "auxsort n n (sort_comp_idx E) (sort_swap E) rand 1 n 0 g2 = Some (Inr ((), g3))"
      "sort_state (g_strs g) (table_get (g_strs g) t) p n g3" "perm 1 n (elem p n g2) (elem p n g3)" "tab.ordered (elem p n g3) 1 n"
    unfolding tab.run_def by auto
  have "elem p n g2 = elem p n g" using 2(3,4) g(1) by (auto simp: elem_def plain_def)
  then have res: "sorted_result p t g g3" using sorted_result_of [OF g(1) n(1) 3(2,4)] 3(3) by simp
  have a: "c_at 1 g = Some (Inr (VTable p, g))" using g(3) c_at_value [of 1 g] by auto
  let ?sort = "auxsort n n (sort_comp_idx E) (sort_swap E) rand 1 n 0"
  have "p_bind c_gettop (\<lambda>top. p_bind (if top < 2 then c_push VNil else p_ret ()) (\<lambda>_. p_bind (c_settop 2) (\<lambda>_. p_bind ?sort (\<lambda>_. p_ret 0)))) g =
      p_bind (p_bind c_gettop (\<lambda>top. p_bind (if top < 2 then c_push VNil else p_ret ()) (\<lambda>_. c_settop 2))) (\<lambda>_. p_bind ?sort (\<lambda>_. p_ret 0)) g"
    by (simp add: p_bind_assoc)
  also have "\<dots> = Some (Inr (0, g3))" using 2(1) 3(1) by (simp add: p_ret_def)
  finally have "tab_sort E rand g = Some (Inr (0, g3))"
    unfolding tab_sort_def using n(2,3)
    by (simp add: a aux_getn_plain [OF g(1)] check_cmp_value [OF g(3)] sint_small [OF n31] n(1) [symmetric] del: One_nat_def)
  then show ?thesis using res by blast
qed


text \<open>The array \<open>{6, 5}\<close> at address 2, the argument of a call on the thread at address 1.\<close>

definition demo_array :: table where
  "demo_array = (table_new 3 0)\<lparr>t_array := [VInt 6, VInt 5, VNil]\<rparr>"

definition demo_call :: gstate where
  "demo_call =
     (heap_of
       [(1, OThread \<lparr>th_stack = [VTable 2, VNil, VNil], th_frames = [], th_hook = None, th_open = [], th_top = 1,
            th_version = 0, th_base = 0, th_err_set = False\<rparr>),
        (2, OTable demo_array)])\<lparr>g_current := Some 1\<rparr>"

lemma demo_array_ok:
  "table_inv H0 demo_array" "t_metatable demo_array = None" "table_length H0 demo_array = 2"
  "table_get H0 demo_array (VInt 1) = VInt 6" "table_get H0 demo_array (VInt 2) = VInt 5"
proof -
  show "table_inv H0 demo_array" using table_new_inv [of 3 H0 0] by (auto simp: demo_array_def table_inv_def table_new_def)
  show "t_metatable demo_array = None" by (simp add: demo_array_def table_new_def)
  show "table_length H0 demo_array = 2"
    by (simp add: table_length_def demo_array_def eval_nat_numeral table_get_int_def array_slot_def is_nil_def)
  show "table_get H0 demo_array (VInt 1) = VInt 6" "table_get H0 demo_array (VInt 2) = VInt 5"
    by (simp_all add: demo_array_def table_get_def array_slot_def)
qed

lemma demo_call_at: "obj_at demo_call 2 = Some (OTable demo_array)" "g_strs demo_call = H0" "g_current demo_call = Some 1"
  "obj_at demo_call 1 = Some (OThread \<lparr>th_stack = [VTable 2, VNil, VNil], th_frames = [], th_hook = None, th_open = [],
     th_top = 1, th_version = 0, th_base = 0, th_err_set = False\<rparr>)"
  by (simp_all add: demo_call_def heap_of_def obj_at_def cell_at_def white_cell_def)


end
