(* ===== verification/Lt_Match.thy ===== *)
theory Lt_Match
  imports Lt_Quote
begin

text \<open>
  Pattern matching: the engine of \<open>src/lib/lstrlib.cpp\<close> (\<open>match\<close> and its helpers). Positions in the
  subject \<open>s\<close> and in the pattern \<open>p\<close> are indices. \<open>matchdepth\<close> is the first argument of \<open>match_at\<close>: every
  call of \<open>match\<close> takes one, and gives it back on every way out, so the recursion is structural on
  it. The two sentinels of a capture's end are constructors.
\<close>

section \<open>Classes\<close>

definition isgraph :: "char \<Rightarrow> bool" where
  "isgraph c \<longleftrightarrow> isprint c \<and> c \<noteq> CHR '' ''"

definition ispunct :: "char \<Rightarrow> bool" where
  "ispunct c \<longleftrightarrow> isgraph c \<and> \<not> isalnum c"

definition class_test :: "char \<Rightarrow> (char \<Rightarrow> bool) option" where
  "class_test k =
     (if k = CHR ''a'' then Some isalpha else if k = CHR ''c'' then Some iscntrl
      else if k = CHR ''d'' then Some isdigit else if k = CHR ''g'' then Some isgraph
      else if k = CHR ''l'' then Some islower else if k = CHR ''p'' then Some ispunct
      else if k = CHR ''s'' then Some isspace else if k = CHR ''u'' then Some isupper
      else if k = CHR ''w'' then Some isalnum else if k = CHR ''x'' then Some isxdigit
      else if k = CHR ''z'' then Some (\<lambda>c. c = CHR 0x00) else None)"

definition match_class :: "char \<Rightarrow> char \<Rightarrow> bool" where
  "match_class ch clas =
     (case class_test (tolower clas) of
        None \<Rightarrow> ch = clas
      | Some f \<Rightarrow> if islower clas then f ch else \<not> f ch)"

text \<open>A member of a set: \<open>%c\<close>, a range or a character. The index after it, and whether it has \<open>c\<close>.\<close>

definition bracket_item :: "string \<Rightarrow> char \<Rightarrow> nat \<Rightarrow> nat \<times> bool" where
  "bracket_item p c k =
     (if p ! k = CHR ''%'' \<and> k + 1 < length p then (k + 2, match_class c (p ! (k + 1)))
      else if k + 1 < length p \<and> p ! (k + 1) = CHR ''-'' \<and> k + 2 < length p \<and> p ! (k + 2) \<noteq> CHR '']''
        then (k + 3, code (p ! k) \<le> code c \<and> code c \<le> code (p ! (k + 2)))
      else (k + 1, code (p ! k) \<le> code c \<and> code c \<le> code (p ! k)))"

lemma bracket_item_gt: "k < fst (bracket_item p c k)"
  by (simp add: bracket_item_def)

text \<open>\<open>None\<close> is the early \<open>return false\<close> of a set that has no member before the end.\<close>

function bracket_loop :: "string \<Rightarrow> char \<Rightarrow> nat \<Rightarrow> bool \<Rightarrow> (nat \<times> bool) option" where
  "bracket_loop p c k found =
     (if length p \<le> k then None
      else let k' = fst (bracket_item p c k); found' = found \<or> snd (bracket_item p c k) in
        if k' < length p \<and> p ! k' \<noteq> CHR '']'' then bracket_loop p c k' found' else Some (k', found'))"
  by pat_completeness auto
termination
  by (relation "measure (\<lambda>(p, _, k, _). length p - k)")
    (use bracket_item_gt in \<open>auto simp: diff_less_mono2\<close>)

declare bracket_loop.simps [simp del]

definition missing_bracket :: "'a result" where
  "missing_bracket = panic (''malformed pattern (missing '' @ [CHR 0x27] @ '']'' @ [CHR 0x27] @ '')'')"

definition match_bracket_class :: "string \<Rightarrow> char \<Rightarrow> nat \<Rightarrow> (bool \<times> nat option) result" where
  "match_bracket_class p c pi =
     (if length p \<le> pi \<or> p ! pi \<noteq> CHR ''['' then Inr (False, None)
      else
        (let negate = (pi + 1 < length p \<and> p ! (pi + 1) = CHR ''^''); j = (if negate then pi + 2 else pi + 1) in
         case bracket_loop p c j False of
           None \<Rightarrow> Inr (False, None)
         | Some (k, found) \<Rightarrow>
             if length p \<le> k \<or> p ! k \<noteq> CHR '']'' then missing_bracket
             else Inr (if negate then \<not> found else found, Some (k + 1))))"

definition single_match :: "string \<Rightarrow> string \<Rightarrow> nat \<Rightarrow> nat \<Rightarrow> bool result" where
  "single_match s p si pi =
     (if length p \<le> pi then Inr False
      else if p ! pi = CHR ''.'' then Inr (si < length s)
      else if p ! pi = CHR ''%'' then
        (if length p \<le> pi + 1 \<or> length s \<le> si then Inr False else Inr (match_class (s ! si) (p ! (pi + 1))))
      else if p ! pi = CHR ''['' then
        (if length s \<le> si then rbind (match_bracket_class p (CHR 0x00) pi) (\<lambda>_. Inr False)
         else rbind (match_bracket_class p (s ! si) pi) (\<lambda>(b, _). Inr b))
      else Inr (si < length s \<and> s ! si = p ! pi))"

lemma single_match_in: "single_match s p si pi = Inr True \<Longrightarrow> si < length s"
  by (auto simp: single_match_def rbind_eq_Inr split: if_splits)

function class_loop :: "string \<Rightarrow> nat \<Rightarrow> nat result" where
  "class_loop p pi =
     (if length p \<le> pi then missing_bracket
      else let pi' = (if p ! pi = CHR ''%'' \<and> pi + 1 < length p then pi + 2 else pi + 1) in
        if pi' < length p \<and> p ! pi' \<noteq> CHR '']'' then class_loop p pi'
        else if length p \<le> pi' then missing_bracket else Inr (pi' + 1))"
  by pat_completeness auto
termination
  by (relation "measure (\<lambda>(p, pi). length p - pi)") (auto split: if_splits)

declare class_loop.simps [simp del]

definition ends_with_percent :: "'a result" where
  "ends_with_percent = panic (''malformed pattern (ends with '' @ [CHR 0x27] @ ''%'' @ [CHR 0x27] @ '')'')"

definition class_end :: "string \<Rightarrow> nat \<Rightarrow> nat result" where
  "class_end p pi =
     (if p ! pi = CHR ''%'' then (if length p \<le> pi + 1 then ends_with_percent else Inr (pi + 2))
      else if p ! pi = CHR ''['' then
        class_loop p (if pi + 1 < length p \<and> p ! (pi + 1) = CHR ''^'' then pi + 2 else pi + 1)
      else Inr (pi + 1))"

lemma class_loop_gt: "class_loop p pi = Inr ep \<Longrightarrow> pi < ep"
proof (induction p pi arbitrary: ep rule: class_loop.induct)
  case (1 p pi)
  from "1.prems" "1.IH" [OF _ refl, of ep] show ?case
    by (subst (asm) class_loop.simps) (auto simp: Let_def missing_bracket_def split: if_splits)
qed

lemma class_end_gt: "class_end p pi = Inr ep \<Longrightarrow> pi < ep"
  by (auto simp: class_end_def ends_with_percent_def split: if_splits dest!: class_loop_gt)

lemma bracket_loop_gt: "bracket_loop p c k found = Some (k', f) \<Longrightarrow> k < k'"
proof (induction p c k found arbitrary: k' f rule: bracket_loop.induct)
  case (1 p c k found)
  show ?case
  proof (cases "length p \<le> k")
    case False
    then show ?thesis using "1.prems" "1.IH" [OF False refl refl, of k' f] bracket_item_gt [of k p c]
      by (subst (asm) bracket_loop.simps) (auto simp: Let_def split: if_splits)
  qed (use "1.prems" in \<open>simp add: bracket_loop.simps [of p c k]\<close>)
qed

lemma match_bracket_gt: "match_bracket_class p c pi = Inr (b, Some ep) \<Longrightarrow> pi < ep"
  by (auto simp: match_bracket_class_def Let_def missing_bracket_def split: if_splits option.splits dest!: bracket_loop_gt)

section \<open>Matching\<close>

datatype cap_end = CapUnfinished | CapPosition | CapEnd nat

record match_state =
  ms_captures :: "(nat \<times> cap_end) list"
  ms_match_end :: nat

type_synonym matcher = "nat \<Rightarrow> nat \<Rightarrow> match_state \<Rightarrow> (bool \<times> match_state) result"

text \<open>\<open>max_expand\<close>: as many as match, then one less at a time.\<close>

function expand_count :: "string \<Rightarrow> string \<Rightarrow> nat \<Rightarrow> nat \<Rightarrow> nat result" where
  "expand_count s p pi si =
     (case single_match s p si pi of
        Inl e \<Rightarrow> Inl e
      | Inr b \<Rightarrow> if b then rbind (expand_count s p pi (si + 1)) (\<lambda>n. Inr (n + 1)) else Inr 0)"
  by pat_completeness auto
termination
proof (relation "measure (\<lambda>(s, _, _, si). length s - si)")
  fix s p pi si b assume "single_match s p si pi = Inr b" b
  then have "si < length s" using single_match_in by simp
  then show "((s, p, pi, si + 1), s, p, pi, si) \<in> measure (\<lambda>(s, _, _, si). length s - si)" by auto
qed simp

declare expand_count.simps [simp del]

primrec expand_back :: "matcher \<Rightarrow> nat \<Rightarrow> nat \<Rightarrow> nat \<Rightarrow> match_state \<Rightarrow> (bool \<times> match_state) result" where
  "expand_back rec si ep 0 ms = rec si (ep + 1) ms"
| "expand_back rec si ep (Suc i) ms =
     rbind (rec (si + Suc i) (ep + 1) ms) (\<lambda>(ok, ms'). if ok then Inr (True, ms') else expand_back rec si ep i ms')"

definition max_expand :: "string \<Rightarrow> string \<Rightarrow> matcher \<Rightarrow> nat \<Rightarrow> nat \<Rightarrow> nat \<Rightarrow> match_state \<Rightarrow> (bool \<times> match_state) result" where
  "max_expand s p rec si pi ep ms = rbind (expand_count s p pi si) (\<lambda>i. expand_back rec si ep i ms)"

function min_expand :: "string \<Rightarrow> string \<Rightarrow> matcher \<Rightarrow> nat \<Rightarrow> nat \<Rightarrow> nat \<Rightarrow> match_state \<Rightarrow> (bool \<times> match_state) result" where
  "min_expand s p rec si pi ep ms =
     (case rec si (ep + 1) ms of
        Inl e \<Rightarrow> Inl e
      | Inr (ok, ms') \<Rightarrow>
          if ok then Inr (True, ms')
          else case single_match s p si pi of
            Inl e \<Rightarrow> Inl e
          | Inr b \<Rightarrow> if b then min_expand s p rec (si + 1) pi ep ms' else Inr (False, ms'))"
  by pat_completeness auto
termination
proof (relation "measure (\<lambda>(s, _, _, si, _). length s - si)")
  fix s p si pi ep b fix rec :: matcher and ms ms' :: match_state assume "single_match s p si pi = Inr b" b
  then have "si < length s" using single_match_in by simp
  then show "((s, p, rec, si + 1, pi, ep, ms'), s, p, rec, si, pi, ep, ms) \<in> measure (\<lambda>(s, _, _, si, _). length s - si)" by auto
qed simp

declare min_expand.simps [simp del]

definition start_capture :: "matcher \<Rightarrow> nat \<Rightarrow> nat \<Rightarrow> bool \<Rightarrow> match_state \<Rightarrow> (bool \<times> match_state) result" where
  "start_capture rec si pi position ms =
     rbind (rec si pi (ms\<lparr>ms_captures := ms_captures ms @ [(si, if position then CapPosition else CapUnfinished)]\<rparr>)) (\<lambda>(ok, ms').
       Inr (ok, if ok then ms' else ms'\<lparr>ms_captures := butlast (ms_captures ms')\<rparr>))"

text \<open>The last capture that is still open.\<close>

fun last_open :: "(nat \<times> cap_end) list \<Rightarrow> nat option" where
  "last_open [] = None"
| "last_open (c # cs) =
     (case last_open cs of Some i \<Rightarrow> Some (i + 1) | None \<Rightarrow> if snd c = CapUnfinished then Some 0 else None)"

definition set_end :: "nat \<Rightarrow> cap_end \<Rightarrow> match_state \<Rightarrow> match_state" where
  "set_end i e ms = ms\<lparr>ms_captures := (ms_captures ms)[i := (fst (ms_captures ms ! i), e)]\<rparr>"

definition end_capture :: "matcher \<Rightarrow> nat \<Rightarrow> nat \<Rightarrow> match_state \<Rightarrow> (bool \<times> match_state) result" where
  "end_capture rec si pi ms =
     (case last_open (ms_captures ms) of
        None \<Rightarrow> panic ''invalid pattern capture''
      | Some i \<Rightarrow>
          rbind (rec si pi (set_end i (CapEnd si) ms)) (\<lambda>(ok, ms').
            Inr (ok, if ok then ms' else set_end i CapUnfinished ms')))"

text \<open>A back reference: the length of the capture when the subject continues with it.\<close>

definition match_capture :: "string \<Rightarrow> (nat \<times> cap_end) list \<Rightarrow> nat \<Rightarrow> nat \<Rightarrow> nat option result" where
  "match_capture s caps si cap =
     (if length caps \<le> cap then panic (''invalid capture index %'' @ dec_nat (cap + 1))
      else case caps ! cap of
        (a, CapEnd b) \<Rightarrow>
          (let len = b - a in
           Inr (if length s < si + len then None
                else if take len (drop si s) = take len (drop a s) then Some len else None))
      | _ \<Rightarrow> panic (''invalid capture index %'' @ dec_nat (cap + 1)))"

fun balance_loop :: "char \<Rightarrow> char \<Rightarrow> nat \<Rightarrow> nat \<Rightarrow> string \<Rightarrow> nat option" where
  "balance_loop opn cls depth j [] = None"
| "balance_loop opn cls depth j (c # cs) =
     (if c = cls then (if depth = 1 then Some j else balance_loop opn cls (depth - 1) (j + 1) cs)
      else balance_loop opn cls (if c = opn then depth + 1 else depth) (j + 1) cs)"

definition match_balance :: "string \<Rightarrow> string \<Rightarrow> matcher \<Rightarrow> nat \<Rightarrow> nat \<Rightarrow> match_state \<Rightarrow> (bool \<times> match_state) result" where
  "match_balance s p rec si pi ms =
     (if length p \<le> pi + 1 then panic (''malformed pattern (missing arguments to '' @ [CHR 0x27] @ ''%b'' @ [CHR 0x27] @ '')'')
      else if length s \<le> si \<or> s ! si \<noteq> p ! pi then Inr (False, ms)
      else case balance_loop (p ! pi) (p ! (pi + 1)) 1 (si + 1) (drop (si + 1) s) of
        Some j \<Rightarrow> rec (j + 1) (pi + 2) ms
      | None \<Rightarrow> Inr (False, ms))"

text \<open>The frontier \<open>%f[set]\<close>: the index after the set when the position is one.\<close>

definition frontier :: "string \<Rightarrow> string \<Rightarrow> nat \<Rightarrow> nat \<Rightarrow> nat option result" where
  "frontier s p si pi =
     (if length p \<le> pi + 2 \<or> p ! (pi + 2) \<noteq> CHR ''[''
      then panic (''missing '' @ [CHR 0x27] @ ''['' @ [CHR 0x27] @ '' after '' @ [CHR 0x27] @ ''%f'' @ [CHR 0x27] @ '' in pattern'')
      else
        rbind (match_bracket_class p (if si = 0 then CHR 0x00 else s ! (si - 1)) (pi + 2)) (\<lambda>(prev_in, _).
        rbind (match_bracket_class p (if length s \<le> si then CHR 0x00 else s ! si) (pi + 2)) (\<lambda>(cur_in, ep).
          Inr (if prev_in \<or> \<not> cur_in then None else ep))))"

lemma frontier_gt: "frontier s p si pi = Inr (Some ep) \<Longrightarrow> pi < ep"
  by (auto simp: frontier_def rbind_eq_Inr split: if_splits dest!: match_bracket_gt)

definition quantified :: "string \<Rightarrow> string \<Rightarrow> matcher \<Rightarrow> nat \<Rightarrow> nat \<Rightarrow> nat \<Rightarrow> char \<Rightarrow> match_state \<Rightarrow> (bool \<times> match_state) result" where
  "quantified s p rec si pi ep q ms =
     (if q = CHR ''*'' then max_expand s p rec si pi ep ms
      else if q = CHR ''+'' then
        rbind (single_match s p si pi) (\<lambda>b. if b then max_expand s p rec (si + 1) pi ep ms else Inr (False, ms))
      else if q = CHR ''-'' then min_expand s p rec si pi ep ms
      else
        rbind (single_match s p si pi) (\<lambda>b.
        rbind (if b then rec (si + 1) (ep + 1) ms else Inr (False, ms)) (\<lambda>(ok, ms').
          if ok then Inr (True, ms') else rec si (ep + 1) ms')))"

definition is_quantifier :: "char \<Rightarrow> bool" where
  "is_quantifier c \<longleftrightarrow> c = CHR ''*'' \<or> c = CHR ''+'' \<or> c = CHR ''-'' \<or> c = CHR ''?''"

text \<open>The body of \<open>match\<close> from the label \<open>init\<close>; \<open>rec\<close> is the recursive call.\<close>

function match_init :: "string \<Rightarrow> string \<Rightarrow> matcher \<Rightarrow> nat \<Rightarrow> nat \<Rightarrow> match_state \<Rightarrow> (bool \<times> match_state) result" where
  "match_init s p rec si pi ms =
     (if length p \<le> pi then Inr (True, ms\<lparr>ms_match_end := si\<rparr>)
      else if p ! pi = CHR ''('' then
        (if pi + 1 < length p \<and> p ! (pi + 1) = CHR '')'' then start_capture rec si (pi + 2) True ms
         else start_capture rec si (pi + 1) False ms)
      else if p ! pi = CHR '')'' then end_capture rec si (pi + 1) ms
      else if p ! pi = CHR ''$'' \<and> pi + 1 = length p then
        Inr (if length s \<le> si then (True, ms\<lparr>ms_match_end := si\<rparr>) else (False, ms))
      else if p ! pi = CHR ''%'' \<and> length p \<le> pi + 1 then ends_with_percent
      else if p ! pi = CHR ''%'' \<and> p ! (pi + 1) = CHR ''b'' then match_balance s p rec si (pi + 2) ms
      else if p ! pi = CHR ''%'' \<and> p ! (pi + 1) = CHR ''f'' then
        (case frontier s p si pi of
           Inl e \<Rightarrow> Inl e
         | Inr None \<Rightarrow> Inr (False, ms)
         | Inr (Some ep) \<Rightarrow> match_init s p rec si ep ms)
      else if p ! pi = CHR ''%'' \<and> 49 \<le> code (p ! (pi + 1)) \<and> code (p ! (pi + 1)) \<le> 57 then
        (case match_capture s (ms_captures ms) si (code (p ! (pi + 1)) - 49) of
           Inl e \<Rightarrow> Inl e
         | Inr None \<Rightarrow> Inr (False, ms)
         | Inr (Some len) \<Rightarrow> match_init s p rec (si + len) (pi + 2) ms)
      else if p ! pi = CHR ''%'' \<and> p ! (pi + 1) = CHR ''0'' then panic ''invalid capture index %0''
      else
        (case class_end p pi of
           Inl e \<Rightarrow> Inl e
         | Inr ep \<Rightarrow>
             if ep < length p \<and> is_quantifier (p ! ep) then quantified s p rec si pi ep (p ! ep) ms
             else case single_match s p si pi of
               Inl e \<Rightarrow> Inl e
             | Inr b \<Rightarrow> if b then match_init s p rec (si + 1) ep ms else Inr (False, ms)))"
  by pat_completeness auto
termination
  by (relation "measure (\<lambda>(_, p, _, _, pi, _). length p - pi)")
    (auto intro!: diff_less_mono2 dest: frontier_gt class_end_gt)

declare match_init.simps [simp del]

primrec match_at :: "nat \<Rightarrow> string \<Rightarrow> string \<Rightarrow> matcher" where
  "match_at 0 s p si pi ms = panic ''pattern too complex''"
| "match_at (Suc d) s p si pi ms = match_init s p (match_at d s p) si pi ms"

definition kMaxMatchDepth :: nat where
  "kMaxMatchDepth = 200"

function search_loop :: "string \<Rightarrow> string \<Rightarrow> nat \<Rightarrow> bool \<Rightarrow> nat \<Rightarrow> nat \<Rightarrow> match_state \<Rightarrow> (nat \<times> match_state) option result" where
  "search_loop s p pi anchor i lst ms =
     (if lst < i then Inr None
      else case match_at kMaxMatchDepth s p i pi (ms\<lparr>ms_captures := []\<rparr>) of
        Inl e \<Rightarrow> Inl e
      | Inr (ok, ms') \<Rightarrow>
          if ok then Inr (Some (i, ms')) else if anchor then Inr None else search_loop s p pi anchor (i + 1) lst ms')"
  by pat_completeness auto
termination
  by (relation "measure (\<lambda>(_, _, _, _, i, lst, _). Suc lst - i)") auto

declare search_loop.simps [simp del]

definition new_match :: match_state where
  "new_match = \<lparr>ms_captures = [], ms_match_end = 0\<rparr>"

definition match_search :: "string \<Rightarrow> string \<Rightarrow> nat \<Rightarrow> bool \<Rightarrow> (nat \<times> match_state) option result" where
  "match_search s p start anchor0 =
     (let caret = (p \<noteq> [] \<and> hd p = CHR ''^''); anchor = (anchor0 \<or> caret)
      in search_loop s p (if caret then 1 else 0) anchor start (if anchor then start else length s) new_match)"

text \<open>\<open>std::string_view::substr\<close>, which throws \<open>std::out_of_range\<close> beyond the end.\<close>

definition cpp_substr :: "string \<Rightarrow> nat \<Rightarrow> nat \<Rightarrow> string result" where
  "cpp_substr s pos n = (if length s < pos then panic ''std::out_of_range'' else Inr (take n (drop pos s)))"

definition capture_string :: "string \<Rightarrow> nat \<times> cap_end \<Rightarrow> string result" where
  "capture_string s c =
     (case c of
        (a, CapPosition) \<Rightarrow> Inr (dec_nat (a + 1))
      | (a, CapUnfinished) \<Rightarrow> panic ''unfinished capture''
      | (a, CapEnd b) \<Rightarrow> if b < a then Inr [] else cpp_substr s a (b - a))"

end
