(* ===== verification/Lt_MatchProps.thy ===== *)
theory Lt_MatchProps
  imports Lt_Match
begin

text \<open>
  What the engine of \<open>Lt_Match\<close> decides. \<open>den s p pi si c e c'\<close> is the meaning of a pattern, without any
  strategy: the pattern \<open>p\<close> from \<open>pi\<close> on can take the subject from \<open>si\<close> to \<open>e\<close>, turning the captures \<open>c\<close>
  into \<open>c'\<close>. The backtracking search finds such a way exactly when there is one.
\<close>

type_synonym captures = "(nat \<times> cap_end) list"

section \<open>The meaning of patterns\<close>

definition plain_item :: "string \<Rightarrow> nat \<Rightarrow> bool" where
  "plain_item p pi \<longleftrightarrow>
     pi < length p \<and> p ! pi \<noteq> CHR ''('' \<and> p ! pi \<noteq> CHR '')'' \<and> \<not> (p ! pi = CHR ''$'' \<and> pi + 1 = length p) \<and>
     \<not> (p ! pi = CHR ''%'' \<and> (length p \<le> pi + 1 \<or> p ! (pi + 1) = CHR ''b'' \<or> p ! (pi + 1) = CHR ''f'' \<or>
        (48 \<le> code (p ! (pi + 1)) \<and> code (p ! (pi + 1)) \<le> 57)))"

text \<open>How often a quantified item may occur.\<close>

definition counts :: "char \<Rightarrow> nat \<Rightarrow> bool" where
  "counts q n \<longleftrightarrow> q = CHR ''*'' \<or> q = CHR ''-'' \<or> (q = CHR ''+'' \<and> 1 \<le> n) \<or> (q = CHR ''?'' \<and> n \<le> 1)"

inductive den :: "string \<Rightarrow> string \<Rightarrow> nat \<Rightarrow> nat \<Rightarrow> captures \<Rightarrow> nat \<Rightarrow> captures \<Rightarrow> bool" for s p where
  finish: "length p \<le> pi \<Longrightarrow> den s p pi si c si c"
| position: "pi + 1 < length p \<Longrightarrow> p ! pi = CHR ''('' \<Longrightarrow> p ! (pi + 1) = CHR '')'' \<Longrightarrow>
    den s p (pi + 2) si (c @ [(si, CapPosition)]) e c' \<Longrightarrow> den s p pi si c e c'"
| begin_cap: "pi < length p \<Longrightarrow> p ! pi = CHR ''('' \<Longrightarrow> \<not> (pi + 1 < length p \<and> p ! (pi + 1) = CHR '')'') \<Longrightarrow>
    den s p (pi + 1) si (c @ [(si, CapUnfinished)]) e c' \<Longrightarrow> den s p pi si c e c'"
| end_cap: "pi < length p \<Longrightarrow> p ! pi = CHR '')'' \<Longrightarrow> last_open c = Some i \<Longrightarrow>
    den s p (pi + 1) si (c[i := (fst (c ! i), CapEnd si)]) e c' \<Longrightarrow> den s p pi si c e c'"
| at_end: "pi + 1 = length p \<Longrightarrow> p ! pi = CHR ''$'' \<Longrightarrow> length s \<le> si \<Longrightarrow> den s p pi si c si c"
| balance: "pi + 3 < length p \<Longrightarrow> p ! pi = CHR ''%'' \<Longrightarrow> p ! (pi + 1) = CHR ''b'' \<Longrightarrow> si < length s \<Longrightarrow> s ! si = p ! (pi + 2) \<Longrightarrow>
    balance_loop (p ! (pi + 2)) (p ! (pi + 3)) 1 (si + 1) (drop (si + 1) s) = Some j \<Longrightarrow>
    den s p (pi + 4) (j + 1) c e c' \<Longrightarrow> den s p pi si c e c'"
| edge: "pi + 1 < length p \<Longrightarrow> p ! pi = CHR ''%'' \<Longrightarrow> p ! (pi + 1) = CHR ''f'' \<Longrightarrow> frontier s p si pi = Inr (Some ep) \<Longrightarrow>
    den s p ep si c e c' \<Longrightarrow> den s p pi si c e c'"
| backref: "pi + 1 < length p \<Longrightarrow> p ! pi = CHR ''%'' \<Longrightarrow> 49 \<le> code (p ! (pi + 1)) \<Longrightarrow> code (p ! (pi + 1)) \<le> 57 \<Longrightarrow>
    match_capture s c si (code (p ! (pi + 1)) - 49) = Inr (Some len) \<Longrightarrow>
    den s p (pi + 2) (si + len) c e c' \<Longrightarrow> den s p pi si c e c'"
| single: "plain_item p pi \<Longrightarrow> class_end p pi = Inr ep \<Longrightarrow> \<not> (ep < length p \<and> is_quantifier (p ! ep)) \<Longrightarrow>
    single_match s p si pi = Inr True \<Longrightarrow> den s p ep (si + 1) c e c' \<Longrightarrow> den s p pi si c e c'"
| repeated: "plain_item p pi \<Longrightarrow> class_end p pi = Inr ep \<Longrightarrow> ep < length p \<Longrightarrow> counts (p ! ep) n \<Longrightarrow>
    (\<forall>i < n. single_match s p (si + i) pi = Inr True) \<Longrightarrow> den s p (ep + 1) (si + n) c e c' \<Longrightarrow> den s p pi si c e c'"

text \<open>Inversion by the character at \<open>pi\<close>.\<close>

lemma den_end_iff: "length p \<le> pi \<Longrightarrow> den s p pi si c e c' \<longleftrightarrow> e = si \<and> c' = c"
  by (subst den.simps) (auto simp: plain_item_def)

lemma den_position_iff: "pi + 1 < length p \<Longrightarrow> p ! pi = CHR ''('' \<Longrightarrow> p ! (pi + 1) = CHR '')'' \<Longrightarrow>
    den s p pi si c e c' \<longleftrightarrow> den s p (pi + 2) si (c @ [(si, CapPosition)]) e c'"
  by (subst den.simps) (auto simp: plain_item_def)

lemma den_opening_iff: "pi < length p \<Longrightarrow> p ! pi = CHR ''('' \<Longrightarrow> \<not> (pi + 1 < length p \<and> p ! (pi + 1) = CHR '')'') \<Longrightarrow>
    den s p pi si c e c' \<longleftrightarrow> den s p (pi + 1) si (c @ [(si, CapUnfinished)]) e c'"
  by (subst den.simps) (auto simp: plain_item_def)

lemma den_closing_iff: "pi < length p \<Longrightarrow> p ! pi = CHR '')'' \<Longrightarrow> last_open c = Some i \<Longrightarrow>
    den s p pi si c e c' \<longleftrightarrow> den s p (pi + 1) si (c[i := (fst (c ! i), CapEnd si)]) e c'"
  by (subst den.simps) (auto simp: plain_item_def)

lemma den_at_end_iff: "pi + 1 = length p \<Longrightarrow> p ! pi = CHR ''$'' \<Longrightarrow> den s p pi si c e c' \<longleftrightarrow> length s \<le> si \<and> e = si \<and> c' = c"
  by (subst den.simps) (auto simp: plain_item_def)

lemma den_balance_iff: "pi + 3 < length p \<Longrightarrow> p ! pi = CHR ''%'' \<Longrightarrow> p ! (pi + 1) = CHR ''b'' \<Longrightarrow>
    den s p pi si c e c' \<longleftrightarrow> si < length s \<and> s ! si = p ! (pi + 2) \<and>
      (\<exists>j. balance_loop (p ! (pi + 2)) (p ! (pi + 3)) 1 (si + 1) (drop (si + 1) s) = Some j \<and> den s p (pi + 4) (j + 1) c e c')"
  by (subst den.simps) (auto simp: plain_item_def)

lemma den_edge_iff: "pi + 1 < length p \<Longrightarrow> p ! pi = CHR ''%'' \<Longrightarrow> p ! (pi + 1) = CHR ''f'' \<Longrightarrow>
    den s p pi si c e c' \<longleftrightarrow> (\<exists>ep. frontier s p si pi = Inr (Some ep) \<and> den s p ep si c e c')"
  by (subst den.simps) (auto simp: plain_item_def)

lemma den_backref_iff: "pi + 1 < length p \<Longrightarrow> p ! pi = CHR ''%'' \<Longrightarrow> 49 \<le> code (p ! (pi + 1)) \<Longrightarrow> code (p ! (pi + 1)) \<le> 57 \<Longrightarrow>
    den s p pi si c e c' \<longleftrightarrow> (\<exists>len. match_capture s c si (code (p ! (pi + 1)) - 49) = Inr (Some len) \<and> den s p (pi + 2) (si + len) c e c')"
  by (subst den.simps) (auto simp: plain_item_def)

lemma plain_itemD:
  assumes "plain_item p pi"
  shows "\<not> length p \<le> pi" "p ! pi \<noteq> CHR ''(''" "p ! pi \<noteq> CHR '')''" "\<not> (p ! pi = CHR ''$'' \<and> pi + 1 = length p)"
    "p ! pi = CHR ''%'' \<Longrightarrow> p ! (pi + 1) \<noteq> CHR ''b'' \<and> p ! (pi + 1) \<noteq> CHR ''f'' \<and> \<not> length p \<le> pi + 1 \<and>
      (code (p ! (pi + 1)) < 48 \<or> 57 < code (p ! (pi + 1)))"
  using assms by (auto simp: plain_item_def)

lemma den_plain:
  assumes "plain_item p pi" "class_end p pi = Inr ep" "den s p pi si c e c'"
  shows "(\<not> (ep < length p \<and> is_quantifier (p ! ep)) \<and> single_match s p si pi = Inr True \<and> den s p ep (si + 1) c e c') \<or>
    (ep < length p \<and> (\<exists>n. counts (p ! ep) n \<and> (\<forall>i < n. single_match s p (si + i) pi = Inr True) \<and> den s p (ep + 1) (si + n) c e c'))"
  using assms(3)
proof cases
  case (backref len)
  then show ?thesis using plain_itemD(5) [OF assms(1)] by linarith
next
  case (repeated ep' n)
  moreover from this have "ep' = ep" using assms(2) by simp
  ultimately show ?thesis by blast
qed (use plain_itemD [OF assms(1)] assms(2) in auto)

lemma counts_quantifier: "counts q n \<Longrightarrow> is_quantifier q"
  by (auto simp: counts_def is_quantifier_def)

lemma den_single_iff:
  assumes "plain_item p pi" "class_end p pi = Inr ep" "\<not> (ep < length p \<and> is_quantifier (p ! ep))"
  shows "den s p pi si c e c' \<longleftrightarrow> single_match s p si pi = Inr True \<and> den s p ep (si + 1) c e c'"
  using den_plain [OF assms(1,2), of s si c e c'] den.single [OF assms] assms(3) counts_quantifier by blast

lemma den_repeated_iff:
  assumes "plain_item p pi" "class_end p pi = Inr ep" "ep < length p" "is_quantifier (p ! ep)"
  shows "den s p pi si c e c' \<longleftrightarrow>
    (\<exists>n. counts (p ! ep) n \<and> (\<forall>i < n. single_match s p (si + i) pi = Inr True) \<and> den s p (ep + 1) (si + n) c e c')"
  using den_plain [OF assms(1,2), of s si c e c'] den.repeated [OF assms(1-3)] assms(3,4) by blast

section \<open>The search decides the meaning\<close>

text \<open>A successful match is one the pattern allows, with its captures; a failed one means that there is
  none, and leaves the captures as they were.\<close>

definition verdict :: "(nat \<Rightarrow> captures \<Rightarrow> bool) \<Rightarrow> captures \<Rightarrow> bool \<Rightarrow> match_state \<Rightarrow> bool" where
  "verdict D c ok ms' \<longleftrightarrow>
     (if ok then D (ms_match_end ms') (ms_captures ms') else ms_captures ms' = c \<and> (\<forall>e c'. \<not> D e c'))"

definition decides :: "string \<Rightarrow> string \<Rightarrow> matcher \<Rightarrow> bool" where
  "decides s p rec \<longleftrightarrow>
     (\<forall>si pi ms ok ms'. rec si pi ms = Inr (ok, ms') \<longrightarrow> verdict (den s p pi si (ms_captures ms)) (ms_captures ms) ok ms')"

lemma decidesD: "decides s p rec \<Longrightarrow> rec si pi ms = Inr (ok, ms') \<Longrightarrow> verdict (den s p pi si (ms_captures ms)) (ms_captures ms) ok ms'"
  by (simp add: decides_def)

lemma verdict_True: "verdict D c True ms' \<longleftrightarrow> D (ms_match_end ms') (ms_captures ms')"
  by (simp add: verdict_def)

lemma verdict_False: "verdict D c False ms' \<longleftrightarrow> ms_captures ms' = c \<and> (\<forall>e c'. \<not> D e c')"
  by (simp add: verdict_def)

lemmas verdict_simps = verdict_True verdict_False

text \<open>\<open>n\<close> occurrences of the item at \<open>pi\<close>, then the rest of the pattern.\<close>

definition reps :: "string \<Rightarrow> string \<Rightarrow> nat \<Rightarrow> nat \<Rightarrow> nat \<Rightarrow> bool" where
  "reps s p pi si n \<longleftrightarrow> (\<forall>i < n. single_match s p (si + i) pi = Inr True)"

lemma reps_0 [simp]: "reps s p pi si 0"
  by (simp add: reps_def)

lemma reps_Suc: "reps s p pi si (Suc n) \<longleftrightarrow> single_match s p si pi = Inr True \<and> reps s p pi (si + 1) n"
  by (auto simp: reps_def less_Suc_eq_0_disj)

definition den_reps :: "string \<Rightarrow> string \<Rightarrow> nat \<Rightarrow> nat \<Rightarrow> nat \<Rightarrow> captures \<Rightarrow> nat \<Rightarrow> captures \<Rightarrow> bool" where
  "den_reps s p pi ep si c e c' \<longleftrightarrow> (\<exists>n. reps s p pi si n \<and> den s p (ep + 1) (si + n) c e c')"

lemma den_reps_unfold:
  "den_reps s p pi ep si c e c' \<longleftrightarrow>
    den s p (ep + 1) si c e c' \<or> (single_match s p si pi = Inr True \<and> den_reps s p pi ep (si + 1) c e c')"
proof -
  have "(\<exists>n. P n) \<longleftrightarrow> P 0 \<or> (\<exists>n. P (Suc n))" for P :: "nat \<Rightarrow> bool" by (metis not0_implies_Suc)
  from this [of "\<lambda>n. reps s p pi si n \<and> den s p (ep + 1) (si + n) c e c'"] show ?thesis
    by (auto simp: den_reps_def reps_Suc)
qed

lemma expand_count_reps:
  "expand_count s p pi si = Inr n \<Longrightarrow> reps s p pi si n \<and> single_match s p (si + n) pi = Inr False"
proof (induction s p pi si arbitrary: n rule: expand_count.induct)
  case (1 s p pi si)
  from "1.prems" obtain b where b: "single_match s p si pi = Inr b"
    by (subst (asm) expand_count.simps) (auto split: sum.splits)
  show ?case
  proof (cases b)
    case True
    then obtain m where m: "expand_count s p pi (si + 1) = Inr m" "n = Suc m"
      using "1.prems" b by (auto simp: expand_count.simps [of s p pi si] rbind_eq_Inr)
    from "1.IH" [OF b True m(1)] show ?thesis using b True m(2) by (simp add: reps_Suc)
  qed (use "1.prems" b in \<open>simp add: expand_count.simps [of s p pi si]\<close>)
qed

lemma reps_le: "reps s p pi si n \<Longrightarrow> single_match s p (si + m) pi = Inr False \<Longrightarrow> n \<le> m"
  unfolding reps_def by (metis Inr_inject not_le)

lemma expand_back_decides:
  assumes "decides s p rec"
  shows "expand_back rec si ep i ms = Inr (ok, ms') \<Longrightarrow>
    verdict (\<lambda>e c'. \<exists>n \<le> i. den s p (ep + 1) (si + n) (ms_captures ms) e c') (ms_captures ms) ok ms'"
proof (induction i arbitrary: ms)
  case 0
  then show ?case using decidesD [OF assms] by fastforce
next
  case (Suc i)
  from Suc.prems obtain ok1 ms1 where r: "rec (si + Suc i) (ep + 1) ms = Inr (ok1, ms1)"
      "(if ok1 then Inr (True, ms1) else expand_back rec si ep i ms1) = Inr (ok, ms')"
    by (auto simp: rbind_eq_Inr)
  note v = decidesD [OF assms r(1)]
  show ?case
  proof (cases ok1)
    case True
    then show ?thesis using v r(2) by (auto simp: verdict_simps)
  next
    case False
    then have "expand_back rec si ep i ms1 = Inr (ok, ms')" using r(2) by simp
    from Suc.IH [OF this] have "verdict (\<lambda>e c'. \<exists>n \<le> i. den s p (ep + 1) (si + n) (ms_captures ms) e c') (ms_captures ms) ok ms'"
      using v False by (simp add: verdict_simps)
    then show ?thesis using v False by (cases ok) (auto simp: verdict_simps le_Suc_eq)
  qed
qed

lemma max_expand_decides:
  assumes "decides s p rec" "max_expand s p rec si pi ep ms = Inr (ok, ms')"
  shows "verdict (den_reps s p pi ep si (ms_captures ms)) (ms_captures ms) ok ms'"
proof -
  obtain m where m: "expand_count s p pi si = Inr m" "expand_back rec si ep m ms = Inr (ok, ms')"
    using assms(2) by (auto simp: max_expand_def rbind_eq_Inr)
  have c: "reps s p pi si n \<longleftrightarrow> n \<le> m" for n
    using expand_count_reps [OF m(1)] reps_le [of s p pi si n m] by (auto simp: reps_def)
  show ?thesis using expand_back_decides [OF assms(1) m(2)] by (auto simp: verdict_def den_reps_def c)
qed

lemma min_expand_decides:
  assumes "decides s p rec"
  shows "min_expand s p rec si pi ep ms = Inr (ok, ms') \<Longrightarrow>
    verdict (den_reps s p pi ep si (ms_captures ms)) (ms_captures ms) ok ms'"
  using assms
proof (induction s p rec si pi ep ms rule: min_expand.induct)
  case (1 s p rec si pi ep ms)
  from "1.prems"(1) obtain ok1 ms1 where r: "rec si (ep + 1) ms = Inr (ok1, ms1)"
    by (subst (asm) min_expand.simps) (auto split: sum.splits)
  note v = decidesD [OF "1.prems"(2) r]
  show ?case
  proof (cases ok1)
    case True
    then have "ok" "ms' = ms1" using "1.prems"(1) r by (simp_all add: min_expand.simps [of s p rec si])
    then show ?thesis using v True by (simp add: verdict_simps den_reps_unfold [of s p pi ep si])
  next
    case False
    then obtain b where b: "single_match s p si pi = Inr b" using "1.prems"(1) r
      by (auto simp: min_expand.simps [of s p rec si] split: sum.splits)
    have n: "\<not> den s p (ep + 1) si (ms_captures ms) e c'" "ms_captures ms1 = ms_captures ms" for e c'
      using v False by (auto simp: verdict_simps)
    show ?thesis
    proof (cases b)
      case True
      then have "min_expand s p rec (si + 1) pi ep ms1 = Inr (ok, ms')"
        using "1.prems"(1) r b False by (simp add: min_expand.simps [of s p rec si])
      from "1.IH" [OF r refl False b True this "1.prems"(2)]
      show ?thesis using n b True by (simp add: den_reps_unfold [of s p pi ep si] verdict_def)
    next
      case nb: False
      then have "\<not> ok" "ms' = ms1" using "1.prems"(1) r b False by (simp_all add: min_expand.simps [of s p rec si])
      then show ?thesis using n b nb by (simp add: den_reps_unfold [of s p pi ep si] verdict_def)
    qed
  qed
qed

text \<open>A quantified item means its repetitions.\<close>

definition den_quant :: "string \<Rightarrow> string \<Rightarrow> nat \<Rightarrow> nat \<Rightarrow> char \<Rightarrow> nat \<Rightarrow> captures \<Rightarrow> nat \<Rightarrow> captures \<Rightarrow> bool" where
  "den_quant s p pi ep q si c e c' \<longleftrightarrow> (\<exists>n. counts q n \<and> reps s p pi si n \<and> den s p (ep + 1) (si + n) c e c')"

lemma den_quant_star: "q = CHR ''*'' \<or> q = CHR ''-'' \<Longrightarrow> den_quant s p pi ep q si = den_reps s p pi ep si"
  by (intro ext) (auto simp: den_quant_def den_reps_def counts_def)

lemma den_quant_plus:
  "den_quant s p pi ep (CHR ''+'') si c e c' \<longleftrightarrow> single_match s p si pi = Inr True \<and> den_reps s p pi ep (si + 1) c e c'"
proof -
  have "den_quant s p pi ep (CHR ''+'') si c e c' \<longleftrightarrow> (\<exists>n. reps s p pi si (Suc n) \<and> den s p (ep + 1) (si + Suc n) c e c')"
    unfolding den_quant_def counts_def by (auto simp: Suc_le_eq gr0_conv_Suc)
  then show ?thesis by (auto simp: den_reps_def reps_Suc)
qed

lemma den_quant_opt:
  "den_quant s p pi ep (CHR ''?'') si c e c' \<longleftrightarrow>
    den s p (ep + 1) si c e c' \<or> (single_match s p si pi = Inr True \<and> den s p (ep + 1) (si + 1) c e c')"
proof -
  have "den_quant s p pi ep (CHR ''?'') si c e c' \<longleftrightarrow> (\<exists>n \<in> {0, Suc 0}. reps s p pi si n \<and> den s p (ep + 1) (si + n) c e c')"
    unfolding den_quant_def counts_def by (auto simp: le_Suc_eq)
  then show ?thesis by (auto simp: reps_Suc)
qed

lemma quantified_decides:
  assumes d: "decides s p rec" and q: "is_quantifier q" and r: "quantified s p rec si pi ep q ms = Inr (ok, ms')"
  shows "verdict (den_quant s p pi ep q si (ms_captures ms)) (ms_captures ms) ok ms'"
proof -
  consider "q = CHR ''*''" | "q = CHR ''+''" | "q = CHR ''-''" | "q = CHR ''?''" using q by (auto simp: is_quantifier_def)
  then show ?thesis
  proof cases
    case 1
    then show ?thesis using max_expand_decides [OF d, of si pi ep ms ok ms'] r by (simp add: quantified_def den_quant_star)
  next
    case 2
    then obtain b where b: "single_match s p si pi = Inr b"
        "(if b then max_expand s p rec (si + 1) pi ep ms else Inr (False, ms)) = Inr (ok, ms')"
      using r by (auto simp: quantified_def rbind_eq_Inr)
    show ?thesis using b 2 max_expand_decides [OF d, of "si + 1" pi ep ms ok ms']
      by (auto simp: verdict_def den_quant_plus split: if_splits)
  next
    case 3
    then show ?thesis using min_expand_decides [OF d, of si pi ep ms ok ms'] r by (simp add: quantified_def den_quant_star)
  next
    case 4
    then obtain b ok1 ms1 where b: "single_match s p si pi = Inr b"
        "(if b then rec (si + 1) (ep + 1) ms else Inr (False, ms)) = Inr (ok1, ms1)"
        "(if ok1 then Inr (True, ms1) else rec si (ep + 1) ms1) = Inr (ok, ms')"
      using r by (auto simp: quantified_def rbind_eq_Inr)
    have v: "verdict (\<lambda>e c'. b \<and> den s p (ep + 1) (si + 1) (ms_captures ms) e c') (ms_captures ms) ok1 ms1"
      using b(2) decidesD [OF d, of "si + 1" "ep + 1" ms ok1 ms1] by (auto simp: verdict_def split: if_splits)
    show ?thesis
    proof (cases ok1)
      case True
      then show ?thesis using v b 4 by (auto simp: verdict_simps den_quant_opt)
    next
      case False
      then have "rec si (ep + 1) ms1 = Inr (ok, ms')" using b(3) by simp
      from decidesD [OF d this] show ?thesis using v False b(1) 4 by (auto simp: verdict_def den_quant_opt)
    qed
  qed
qed

lemma start_capture_decides:
  assumes d: "decides s p rec" and r: "start_capture rec si pi position ms = Inr (ok, ms')"
  shows "verdict (den s p pi si (ms_captures ms @ [(si, if position then CapPosition else CapUnfinished)])) (ms_captures ms) ok ms'"
proof -
  let ?ms = "ms\<lparr>ms_captures := ms_captures ms @ [(si, if position then CapPosition else CapUnfinished)]\<rparr>"
  obtain ms1 where m: "rec si pi ?ms = Inr (ok, ms1)" "ms' = (if ok then ms1 else ms1\<lparr>ms_captures := butlast (ms_captures ms1)\<rparr>)"
    using r by (auto simp: start_capture_def rbind_eq_Inr)
  from decidesD [OF d m(1)] show ?thesis using m(2) by (auto simp: verdict_def)
qed

lemma last_open_SomeD: "last_open c = Some i \<Longrightarrow> i < length c \<and> snd (c ! i) = CapUnfinished"
  by (induction c arbitrary: i) (auto split: option.splits if_splits)

lemma end_capture_decides:
  assumes d: "decides s p rec" and r: "end_capture rec si pi ms = Inr (ok, ms')"
  shows "\<exists>i. last_open (ms_captures ms) = Some i \<and>
    verdict (den s p pi si ((ms_captures ms)[i := (fst (ms_captures ms ! i), CapEnd si)])) (ms_captures ms) ok ms'"
proof -
  obtain i ms1 where m: "last_open (ms_captures ms) = Some i" "rec si pi (set_end i (CapEnd si) ms) = Inr (ok, ms1)"
      "ms' = (if ok then ms1 else set_end i CapUnfinished ms1)"
    using r by (auto simp: end_capture_def rbind_eq_Inr split: option.splits)
  have i: "i < length (ms_captures ms)" "(fst (ms_captures ms ! i), CapUnfinished) = ms_captures ms ! i"
    using last_open_SomeD [OF m(1)] by (metis prod.collapse)+
  from decidesD [OF d m(2)] show ?thesis using m(1,3) i by (auto simp: verdict_def set_end_def)
qed

text \<open>The head of the pattern decides which way \<open>match\<close> goes.\<close>

lemma pattern_cases:
  obtains (End) "length p \<le> pi"
  | (Position) "pi + 1 < length p" "p ! pi = CHR ''(''" "p ! (pi + 1) = CHR '')''"
  | (Open) "pi < length p" "p ! pi = CHR ''(''" "\<not> (pi + 1 < length p \<and> p ! (pi + 1) = CHR '')'')"
  | (Close) "pi < length p" "p ! pi = CHR '')''"
  | (Dollar) "pi + 1 = length p" "p ! pi = CHR ''$''"
  | (Percent) "pi + 1 = length p" "p ! pi = CHR ''%''"
  | (Balance) "pi + 1 < length p" "p ! pi = CHR ''%''" "p ! (pi + 1) = CHR ''b''"
  | (Frontier) "pi + 1 < length p" "p ! pi = CHR ''%''" "p ! (pi + 1) = CHR ''f''"
  | (Backref) "pi + 1 < length p" "p ! pi = CHR ''%''" "49 \<le> code (p ! (pi + 1))" "code (p ! (pi + 1)) \<le> 57"
  | (Zero) "pi + 1 < length p" "p ! pi = CHR ''%''" "p ! (pi + 1) = CHR ''0''"
  | (Item) "plain_item p pi"
proof (cases "plain_item p pi")
  case False
  show thesis
  proof (cases "length p \<le> pi \<or> p ! pi = CHR ''('' \<or> p ! pi = CHR '')''")
    case True
    then show thesis using End Position Open Close by fastforce
  next
    case f: False
    show thesis
    proof (cases "p ! pi = CHR ''%''")
      case pc: True
      have z: "code (p ! (pi + 1)) = 48 \<Longrightarrow> p ! (pi + 1) = CHR ''0''"
        using of_char_eq_iff [of "p ! (pi + 1)" "CHR ''0''", where 'a = nat] by simp
      consider "pi + 1 = length p" | "pi + 1 < length p" "p ! (pi + 1) = CHR ''b'' \<or> p ! (pi + 1) = CHR ''f''"
        | "pi + 1 < length p" "48 \<le> code (p ! (pi + 1))" "code (p ! (pi + 1)) \<le> 57"
        using False f pc unfolding plain_item_def by fastforce
      then show thesis
      proof cases
        case 3
        show thesis
        proof (cases "code (p ! (pi + 1)) = 48")
          case True
          then show thesis using Zero [OF 3(1) pc z] by blast
        next
          case False
          then have "49 \<le> code (p ! (pi + 1))" using 3(2) by linarith
          then show thesis using Backref [OF 3(1) pc _ 3(3)] by blast
        qed
      qed (use Percent Balance Frontier pc in blast)+
    next
      case np: False
      then have "p ! pi = CHR ''$'' \<and> pi + 1 = length p" using False f unfolding plain_item_def by force
      then show thesis using Dollar by blast
    qed
  qed
qed (use Item in blast)

lemma match_balance_decides:
  assumes d: "decides s p rec" and k: "pi + 1 < length p" "p ! pi = CHR ''%''" "p ! (pi + 1) = CHR ''b''"
    and r: "match_balance s p rec si (pi + 2) ms = Inr (ok, ms')"
  shows "verdict (den s p pi si (ms_captures ms)) (ms_captures ms) ok ms'"
proof -
  have pi3: "pi + 3 < length p" using r by (auto simp: match_balance_def split: if_splits)
  have ix: "pi + 2 + 1 = pi + 3" "pi + 2 + 2 = pi + 4" by simp_all
  note r' = r [unfolded match_balance_def ix]
  show ?thesis
  proof (cases "si < length s \<and> s ! si = p ! (pi + 2)")
    case True
    note t = this
    show ?thesis
    proof (cases "balance_loop (p ! (pi + 2)) (p ! (pi + 3)) 1 (si + 1) (drop (si + 1) s)")
      case None
      then show ?thesis using r' t pi3 by (auto simp: verdict_def den_balance_iff [OF pi3 k(2,3)])
    next
      case (Some j)
      then have "rec (j + 1) (pi + 4) ms = Inr (ok, ms')" using r' t pi3 by (simp split: if_splits)
      from decidesD [OF d this] show ?thesis using t Some by (simp add: verdict_def den_balance_iff [OF pi3 k(2,3)])
    qed
  next
    case False
    then have "\<not> ok" "ms' = ms" using r' pi3 by (auto split: if_splits)
    then show ?thesis using False by (auto simp: verdict_def den_balance_iff [OF pi3 k(2,3)])
  qed
qed

lemma match_init_decides:
  assumes d: "decides s p rec"
  shows "match_init s p rec si pi ms = Inr (ok, ms') \<Longrightarrow> verdict (den s p pi si (ms_captures ms)) (ms_captures ms) ok ms'"
proof (induction "length p - pi" arbitrary: si pi rule: less_induct)
  case (less pi si)
  note r = less.prems [unfolded match_init.simps [of s p rec si pi ms]]
  have IH: "match_init s p rec si' pi' ms = Inr (ok, ms') \<Longrightarrow> verdict (den s p pi' si' (ms_captures ms)) (ms_captures ms) ok ms'"
    if "pi < pi'" "pi < length p" for si' pi' using less.hyps [of pi' si'] that by auto
  show ?case
  proof (cases p pi rule: pattern_cases)
    case End
    then show ?thesis using r by (auto simp: verdict_def den_end_iff)
  next
    case Position
    then show ?thesis using r start_capture_decides [OF d, of si "pi + 2" True ms ok ms'] by (simp add: verdict_def den_position_iff)
  next
    case Open
    then show ?thesis using r start_capture_decides [OF d, of si "pi + 1" False ms ok ms'] by (simp add: verdict_def den_opening_iff split: if_splits)
  next
    case Close
    then show ?thesis using r end_capture_decides [OF d, of si "pi + 1" ms ok ms'] by (auto simp: verdict_def den_closing_iff)
  next
    case Dollar
    then show ?thesis using r by (auto simp: verdict_def den_at_end_iff split: if_splits)
  next
    case Percent
    then show ?thesis using r by (simp add: ends_with_percent_def)
  next
    case Balance
    then show ?thesis using r by (intro match_balance_decides [OF d Balance]) simp
  next
    case Frontier
    then obtain x where x: "frontier s p si pi = Inr x" using r by (cases "frontier s p si pi") auto
    show ?thesis
    proof (cases x)
      case None
      then show ?thesis using r x Frontier by (auto simp: verdict_def den_edge_iff)
    next
      case (Some ep)
      then have "pi < ep" "match_init s p rec si ep ms = Inr (ok, ms')" using frontier_gt x r Frontier by auto
      then show ?thesis using IH [of ep si] Frontier x Some by (simp add: verdict_def den_edge_iff)
    qed
  next
    case Backref
    let ?k = "code (p ! (pi + 1)) - 49"
    have nb: "p ! (pi + 1) \<noteq> CHR ''b''" "p ! (pi + 1) \<noteq> CHR ''f''" using Backref by auto
    then obtain x where x: "match_capture s (ms_captures ms) si ?k = Inr x"
      using r Backref by (cases "match_capture s (ms_captures ms) si ?k") auto
    show ?thesis
    proof (cases x)
      case None
      then show ?thesis using r x Backref nb by (auto simp: verdict_def den_backref_iff)
    next
      case (Some len)
      then have "match_init s p rec (si + len) (pi + 2) ms = Inr (ok, ms')" using r x Backref nb by simp
      then show ?thesis using IH [of "pi + 2" "si + len"] Backref x Some by (simp add: verdict_def den_backref_iff)
    qed
  next
    case Zero
    then show ?thesis using r by simp
  next
    case Item
    note i = plain_itemD [OF Item]
    show ?thesis
    proof (cases "class_end p pi")
      case (Inr ep)
      show ?thesis
      proof (cases "ep < length p \<and> is_quantifier (p ! ep)")
        case True
        then have "quantified s p rec si pi ep (p ! ep) ms = Inr (ok, ms')" using r i Inr by (auto split: if_splits)
        moreover have "den s p pi si c = den_quant s p pi ep (p ! ep) si c" for c
          using True by (intro ext) (simp add: den_quant_def reps_def den_repeated_iff [OF Item Inr])
        ultimately show ?thesis using quantified_decides [OF d] True by simp
      next
        case False
        then obtain b where b: "single_match s p si pi = Inr b"
            "(if b then match_init s p rec (si + 1) ep ms else Inr (False, ms)) = Inr (ok, ms')"
          using r i Inr by (auto split: if_splits sum.splits)
        then show ?thesis using IH [of ep "si + 1"] class_end_gt [OF Inr] i(1) False
          by (cases b) (auto simp: verdict_def den_single_iff [OF Item Inr])
      qed
    qed (use r i in \<open>auto split: if_splits\<close>)
  qed
qed

lemma match_at_decides: "decides s p (match_at d s p)"
proof (induction d)
  case (Suc d)
  then show ?case using match_init_decides unfolding decides_def by simp
qed (simp add: decides_def)

section \<open>Searching\<close>

text \<open>Where the pattern proper starts, and the last position that is tried.\<close>

definition anchored :: "string \<Rightarrow> bool" where
  "anchored p \<longleftrightarrow> p \<noteq> [] \<and> hd p = CHR ''^''"

definition body_start :: "string \<Rightarrow> nat" where
  "body_start p = (if anchored p then 1 else 0)"

definition matches_at :: "string \<Rightarrow> string \<Rightarrow> nat \<Rightarrow> nat \<Rightarrow> captures \<Rightarrow> bool" where
  "matches_at s p i e c \<longleftrightarrow> den s p (body_start p) i [] e c"

lemma search_loop_first:
  assumes "search_loop s p pi anchor i lst ms = Inr r"
  shows "case r of
      Some (j, ms') \<Rightarrow> i \<le> j \<and> j \<le> lst \<and> den s p pi j [] (ms_match_end ms') (ms_captures ms') \<and> (\<forall>k e c. i \<le> k \<and> k < j \<longrightarrow> \<not> den s p pi k [] e c)
    | None \<Rightarrow> \<forall>k e c. i \<le> k \<and> k \<le> (if anchor then min i lst else lst) \<longrightarrow> \<not> den s p pi k [] e c"
  using assms
proof (induction s p pi anchor i lst ms rule: search_loop.induct)
  case (1 s p pi anchor i lst ms)
  show ?case
  proof (cases "lst < i")
    case True
    then show ?thesis using "1.prems" by (auto simp: search_loop.simps [of s p pi _ i])
  next
    case le: False
    let ?m = "match_at kMaxMatchDepth s p i pi (ms\<lparr>ms_captures := []\<rparr>)"
    obtain ok ms' where m: "?m = Inr (ok, ms')"
      using "1.prems" le by (cases ?m) (auto simp: search_loop.simps [of s p pi _ i])
    have v: "verdict (den s p pi i []) [] ok ms'" using decidesD [OF match_at_decides m] by simp
    show ?thesis
    proof (cases ok)
      case True
      then show ?thesis using "1.prems" le m v by (auto simp: search_loop.simps [of s p pi _ i] verdict_def)
    next
      case no: False
      then have n: "\<not> den s p pi i [] e c" for e c using v by (simp add: verdict_def)
      show ?thesis
      proof (cases anchor)
        case True
        then have "r = None" using "1.prems" le m no by (simp add: search_loop.simps [of s p pi _ i])
        then show ?thesis using True n le by (auto dest: le_antisym)
      next
        case False
        have "search_loop s p pi anchor (i + 1) lst ms' = Inr r"
          using "1.prems" le m no False by (simp add: search_loop.simps [of s p pi _ i])
        note IH = "1.IH" [OF le m refl no False this]
        have "\<not> den s p pi k [] e c" if "i \<le> k" "\<not> Suc i \<le> k" for k e c using n that by (simp add: le_antisym not_less_eq_eq)
        then show ?thesis using IH False by (fastforce split: option.splits)
      qed
    qed
  qed
qed

text \<open>C32: \<open>string.find\<close> and \<open>string.match\<close> search with \<open>match_search\<close>, and it returns the leftmost
  position at which the pattern matches, with an end and captures that the meaning of the pattern
  allows; when it finds nothing, the pattern matches at no position (for an anchored pattern: not at
  the start position). Back references, balances and frontiers are part of the meaning.\<close>

theorem match_search_leftmost:
  assumes "match_search s p start False = Inr r"
  shows "case r of
      Some (i, ms) \<Rightarrow>
        start \<le> i \<and> matches_at s p i (ms_match_end ms) (ms_captures ms) \<and>
        (\<forall>j e c. start \<le> j \<and> j < i \<longrightarrow> \<not> matches_at s p j e c)
    | None \<Rightarrow> \<forall>j e c. start \<le> j \<and> j \<le> (if anchored p then start else length s) \<longrightarrow> \<not> matches_at s p j e c"
  using search_loop_first [of s p "body_start p" "anchored p" start _ new_match r] assms
  by (fastforce simp: match_search_def Let_def anchored_def body_start_def matches_at_def split: option.splits if_splits)

section \<open>Matches stay in the subject\<close>

definition caps_upto :: "string \<Rightarrow> nat \<Rightarrow> captures \<Rightarrow> bool" where
  "caps_upto s si c \<longleftrightarrow> (\<forall>(a, b) \<in> set c. a \<le> si \<and> (\<forall>e. b = CapEnd e \<longrightarrow> a \<le> e \<and> e \<le> length s))"

lemma caps_upto_mono: "caps_upto s si c \<Longrightarrow> si \<le> si' \<Longrightarrow> caps_upto s si' c"
  by (fastforce simp: caps_upto_def)

lemma balance_loop_in: "balance_loop opn cls depth j xs = Some k \<Longrightarrow> j \<le> k \<and> k < j + length xs"
  by (induction opn cls depth j xs rule: balance_loop.induct) (auto split: if_splits)

lemma match_capture_in: "match_capture s c si k = Inr (Some len) \<Longrightarrow> si + len \<le> length s"
  by (auto simp: match_capture_def Let_def split: if_splits prod.splits cap_end.splits)

lemma caps_upto_end:
  assumes "caps_upto s si c" "si \<le> length s" "last_open c = Some i"
  shows "caps_upto s si (c[i := (fst (c ! i), CapEnd si)])"
proof -
  have "c ! i \<in> set c" using last_open_SomeD [OF assms(3)] by simp
  then have "fst (c ! i) \<le> si" using assms(1) by (auto simp: caps_upto_def)
  then show ?thesis using assms(1,2) unfolding caps_upto_def by (auto dest!: subsetD [OF set_update_subset_insert])
qed

lemma den_in:
  "den s p pi si c e c' \<Longrightarrow> si \<le> length s \<Longrightarrow> caps_upto s si c \<Longrightarrow> si \<le> e \<and> e \<le> length s \<and> caps_upto s e c'"
proof (induction rule: den.induct)
  case (position pi si c e c')
  then show ?case by (simp add: caps_upto_def)
next
  case (begin_cap pi si c e c')
  then show ?case by (simp add: caps_upto_def)
next
  case (end_cap pi c i si e c')
  then show ?case using caps_upto_end by blast
next
  case (balance pi si j c e c')
  have "si < j" "j < length s" using balance_loop_in [OF balance.hyps(6)] balance.hyps(4) by auto
  then show ?case using balance.IH balance.prems caps_upto_mono [of s si c "j + 1"] by auto
next
  case (backref pi c si len e c')
  then show ?case using match_capture_in caps_upto_mono [of s si c "si + len"] by fastforce
next
  case (single pi ep si c e c')
  then show ?case using single_match_in [OF single.hyps(4)] caps_upto_mono [of s si c "si + 1"] by auto
next
  case (repeated pi ep n si c e c')
  have "si + n \<le> length s"
  proof (cases n)
    case (Suc m)
    then show ?thesis using repeated.hyps(5) single_match_in [of s p "si + m" pi] by simp
  qed (use repeated.prems in simp)
  then show ?case using repeated.IH repeated.prems caps_upto_mono [of s si c "si + n"] by auto
qed auto

lemma capture_string_in:
  assumes "caps_upto s n c" "n \<le> length s" "x \<in> set c"
  shows "capture_string s x \<noteq> panic ''std::out_of_range''"
proof -
  obtain a b where x: "x = (a, b)" by (cases x)
  have "a \<le> length s" using assms x by (fastforce simp: caps_upto_def)
  then show ?thesis by (auto simp: x capture_string_def cpp_substr_def split: cap_end.splits)
qed

text \<open>C33: a search that starts inside the subject reports a match inside the subject: start and end are
  ordered and in range, every capture lies within it, and reading a capture is never out of range.\<close>

theorem match_search_in_subject:
  assumes "match_search s p start False = Inr (Some (i, ms))" "start \<le> length s"
  shows "i \<le> ms_match_end ms \<and> ms_match_end ms \<le> length s \<and> caps_upto s (ms_match_end ms) (ms_captures ms) \<and>
    (\<forall>x \<in> set (ms_captures ms). capture_string s x \<noteq> panic ''std::out_of_range'')"
proof -
  have "search_loop s p (body_start p) (anchored p) start (if anchored p then start else length s) new_match = Inr (Some (i, ms))"
    using assms(1) by (simp add: match_search_def Let_def anchored_def body_start_def)
  from search_loop_first [OF this] have d: "den s p (body_start p) i [] (ms_match_end ms) (ms_captures ms)" and i: "i \<le> length s"
    using assms(2) by (auto split: if_splits)
  have "caps_upto s i []" by (simp add: caps_upto_def)
  from den_in [OF d i this] show ?thesis using capture_string_in by blast
qed

text \<open>The letter \<open>b\<close> at the end of \<open>ab\<close>, captured.\<close>

lemma demo_search:
  "match_search ''ab'' ''(b)$'' 0 False = Inr (Some (1, \<lparr>ms_captures = [(1, CapEnd 2)], ms_match_end = 2\<rparr>))"
  by code_simp

theorem match_search_leftmost_witness:
  "matches_at ''ab'' ''(b)$'' 1 2 [(1, CapEnd 2)] \<and> \<not> matches_at ''ab'' ''(b)$'' 0 2 [(0, CapEnd 2)]"
  using match_search_leftmost [OF demo_search] by simp

theorem match_search_in_subject_witness:
  "caps_upto ''ab'' 2 [(1, CapEnd 2)] \<and> capture_string ''ab'' (1, CapEnd 2) \<noteq> panic ''std::out_of_range''"
  using match_search_in_subject [OF demo_search] by simp

text \<open>An anchored search that starts beyond the end of the subject reports a match there.\<close>

lemma search_past_end: "match_search ''abc'' ''^'' 9 False = Inr (Some (9, \<lparr>ms_captures = [], ms_match_end = 9\<rparr>))"
  by code_simp

end
