(* ===== verification/Lt_Strlib.thy ===== *)
theory Lt_Strlib
  imports Lt_MatchProps Lt_Window
begin

text \<open>
  The string library without formatting and packing: \<open>src/lib/lstrlib.cpp\<close>. Arguments are read from the
  window of the current thread and results are pushed there; the pattern functions use the engine
  of \<open>Lt_Match\<close>. Integers are the 64-bit words of the source.
\<close>

section \<open>Basic functions\<close>

definition p_res :: "'a result \<Rightarrow> ('s, 'a) cmd" where
  "p_res r = p_lift (\<lambda>s. rbind r (\<lambda>x. Inr (x, s)))"

lemma p_bind_res [simp]: "p_bind (p_res (Inr x)) f = f x"
  by (rule ext) (simp add: p_bind_def p_res_def p_lift_def)

definition c_string_self :: "meta_env \<Rightarrow> naming \<Rightarrow> nat \<Rightarrow> (gstate, string) cmd" where
  "c_string_self E nm i =
     on_args (\<lambda>g as. rbind (check_string_self (lenv E nm g) as i) (\<lambda>p. Inr (ls_data (g_strs g p))))"

text \<open>\<open>L->settop(0); push ...; return 1\<close>\<close>

definition return_string :: "meta_env \<Rightarrow> string \<Rightarrow> (gstate, nat) cmd" where
  "return_string E s = p_bind (c_settop 0) (\<lambda>_. p_bind (c_push_string E s) (\<lambda>_. p_ret 1))"

definition return_value :: "tvalue \<Rightarrow> (gstate, nat) cmd" where
  "return_value v = p_bind (c_settop 0) (\<lambda>_. p_bind (c_push v) (\<lambda>_. p_ret 1))"

definition int_arg :: "meta_env \<Rightarrow> naming \<Rightarrow> nat \<Rightarrow> u64 \<Rightarrow> (gstate, u64) cmd" where
  "int_arg E nm i d = p_bind c_gettop (\<lambda>top. if i \<le> top then c_check_int E nm i else p_ret d)"

definition str_len :: "meta_env \<Rightarrow> naming \<Rightarrow> (gstate, nat) cmd" where
  "str_len E nm = p_bind (c_string_self E nm 1) (\<lambda>s. return_value (VInt (of_nat (length s))))"

definition from_end :: "string \<Rightarrow> u64 \<Rightarrow> u64" where
  "from_end s i = (if sint i < 0 then of_nat (length s) + i + 1 else i)"

definition sub_text :: "string \<Rightarrow> u64 \<Rightarrow> u64 \<Rightarrow> string" where
  "sub_text s i j =
     (let i' = max 1 (sint (from_end s i)); j' = min (int (length s)) (sint (from_end s j))
      in if j' < i' then [] else take (nat (j' - i' + 1)) (drop (nat (i' - 1)) s))"

definition str_sub :: "meta_env \<Rightarrow> naming \<Rightarrow> (gstate, nat) cmd" where
  "str_sub E nm =
     p_bind (c_string_self E nm 1) (\<lambda>s.
     p_bind (c_check_int E nm 2) (\<lambda>i.
     p_bind (int_arg E nm 3 (of_nat (length s))) (\<lambda>j. return_string E (sub_text s i j))))"

primrec rep_text :: "string \<Rightarrow> string \<Rightarrow> nat \<Rightarrow> string" where
  "rep_text s sep 0 = []"
| "rep_text s sep (Suc n) = (if n = 0 then s else rep_text s sep n @ sep @ s)"

text \<open>\<open>l + lsep < l\<close> never holds for strings in memory, whose sizes are far below \<open>2 ^ 63\<close>.\<close>

definition kMaxSize :: nat where
  "kMaxSize = 2 ^ 31 - 1"

definition str_rep :: "meta_env \<Rightarrow> naming \<Rightarrow> (gstate, nat) cmd" where
  "str_rep E nm =
     p_bind (c_check_string E nm 1) (\<lambda>s.
     p_bind (c_check_int E nm 2) (\<lambda>n.
     p_bind (p_bind c_gettop (\<lambda>top. if 3 \<le> top then c_check_string E nm 3 else p_ret [])) (\<lambda>sep.
       if sint n \<le> 0 then return_string E []
       else if kMaxSize div nat (sint n) < length s + length sep then p_panic ''resulting string too large''
       else return_string E (rep_text s sep (nat (sint n))))))"

definition str_reverse :: "meta_env \<Rightarrow> naming \<Rightarrow> (gstate, nat) cmd" where
  "str_reverse E nm = p_bind (c_check_string E nm 1) (\<lambda>s. return_string E (rev s))"

definition toupper :: "char \<Rightarrow> char" where
  "toupper c = (if islower c then char_of (code c - 32) else c)"

definition str_lower :: "meta_env \<Rightarrow> naming \<Rightarrow> (gstate, nat) cmd" where
  "str_lower E nm = p_bind (c_check_string E nm 1) (\<lambda>s. return_string E (map tolower s))"

definition str_upper :: "meta_env \<Rightarrow> naming \<Rightarrow> (gstate, nat) cmd" where
  "str_upper E nm = p_bind (c_check_string E nm 1) (\<lambda>s. return_string E (map toupper s))"

primrec push_all :: "tvalue list \<Rightarrow> (gstate, unit) cmd" where
  "push_all [] = p_ret ()"
| "push_all (v # vs) = p_bind (c_push v) (\<lambda>_. push_all vs)"

definition str_byte :: "meta_env \<Rightarrow> naming \<Rightarrow> (gstate, nat) cmd" where
  "str_byte E nm =
     p_bind (c_check_string E nm 1) (\<lambda>s.
     p_bind (int_arg E nm 2 1) (\<lambda>i0.
       let i = from_end s i0 in
       p_bind (int_arg E nm 3 i) (\<lambda>j0.
         let j = from_end s j0; lo = max 1 (sint i); hi = min (int (length s)) (sint j) in
         p_bind (c_settop 0) (\<lambda>_.
           if hi < lo then p_ret 0
           else p_bind (push_all (map (\<lambda>c. VInt (of_nat (code c))) (take (nat (hi - lo + 1)) (drop (nat (lo - 1)) s))))
                  (\<lambda>_. p_ret (nat (hi - lo + 1)))))))"

primrec str_char_loop :: "meta_env \<Rightarrow> naming \<Rightarrow> nat \<Rightarrow> nat \<Rightarrow> string \<Rightarrow> (gstate, string) cmd" where
  "str_char_loop E nm 0 i out = p_ret out"
| "str_char_loop E nm (Suc n) i out =
     p_bind (c_check_int E nm i) (\<lambda>c. str_char_loop E nm n (i + 1) (out @ [char_of (unat c mod 256)]))"

definition str_char :: "meta_env \<Rightarrow> naming \<Rightarrow> (gstate, nat) cmd" where
  "str_char E nm = p_bind c_gettop (\<lambda>top. p_bind (str_char_loop E nm top 1 []) (return_string E))"

section \<open>find and match\<close>

text \<open>\<open>std::string_view::find\<close>\<close>

definition view_find :: "string \<Rightarrow> string \<Rightarrow> nat \<Rightarrow> nat option" where
  "view_find s p start =
     find (\<lambda>k. k + length p \<le> length s \<and> take (length p) (drop k s) = p) [start..<length s + 1]"

definition init_arg :: "meta_env \<Rightarrow> naming \<Rightarrow> string \<Rightarrow> (gstate, nat) cmd" where
  "init_arg E nm s = p_bind (int_arg E nm 3 1) (\<lambda>init. p_ret (nat (max 1 (sint (from_end s init)) - 1)))"

primrec push_captures :: "meta_env \<Rightarrow> string \<Rightarrow> captures \<Rightarrow> (gstate, unit) cmd" where
  "push_captures E s [] = p_ret ()"
| "push_captures E s (c # cs) =
     p_bind (if snd c = CapPosition then c_push (VInt (of_nat (fst c + 1)))
             else p_bind (p_res (capture_string s c)) (c_push_string E)) (\<lambda>_. push_captures E s cs)"

definition whole_match :: "string \<Rightarrow> nat \<Rightarrow> match_state \<Rightarrow> string result" where
  "whole_match s i ms = cpp_substr s i (ms_match_end ms - i)"

text \<open>The captures, or the whole match when there are none.\<close>

definition push_match :: "meta_env \<Rightarrow> string \<Rightarrow> nat \<Rightarrow> match_state \<Rightarrow> (gstate, unit) cmd" where
  "push_match E s i ms =
     (if ms_captures ms = [] then p_bind (p_res (whole_match s i ms)) (c_push_string E)
      else push_captures E s (ms_captures ms))"

definition find_plain :: "string \<Rightarrow> string \<Rightarrow> nat \<Rightarrow> (gstate, nat) cmd" where
  "find_plain s p start =
     p_bind (case view_find s p start of
               None \<Rightarrow> c_push VNil
             | Some k \<Rightarrow> push_all [VInt (of_nat (k + 1)), VInt (of_nat (k + length p))]) (\<lambda>_. c_gettop)"

definition find_pattern :: "meta_env \<Rightarrow> string \<Rightarrow> string \<Rightarrow> nat \<Rightarrow> (gstate, nat) cmd" where
  "find_pattern E s p start =
     p_bind (p_res (match_search s p start False)) (\<lambda>r.
       case r of
         None \<Rightarrow> p_bind (c_push VNil) (\<lambda>_. p_ret 1)
       | Some (i, ms) \<Rightarrow>
           p_bind (push_all [VInt (of_nat (i + 1)), VInt (of_nat (ms_match_end ms))]) (\<lambda>_.
           p_bind (push_captures E s (ms_captures ms)) (\<lambda>_. c_gettop)))"

definition str_find :: "meta_env \<Rightarrow> naming \<Rightarrow> (gstate, nat) cmd" where
  "str_find E nm =
     p_bind (c_check_string E nm 1) (\<lambda>s.
     p_bind (c_check_string E nm 2) (\<lambda>p.
     p_bind (init_arg E nm s) (\<lambda>start.
     p_bind (p_bind c_gettop (\<lambda>top. if 4 \<le> top then p_bind (c_at 4) (\<lambda>v. p_ret (is_truthy v)) else p_ret False)) (\<lambda>plain.
     p_bind (c_settop 0) (\<lambda>_. if plain then find_plain s p start else find_pattern E s p start)))))"

definition str_match :: "meta_env \<Rightarrow> naming \<Rightarrow> (gstate, nat) cmd" where
  "str_match E nm =
     p_bind (c_check_string E nm 1) (\<lambda>s.
     p_bind (c_check_string E nm 2) (\<lambda>p.
     p_bind (init_arg E nm s) (\<lambda>start.
     p_bind (c_settop 0) (\<lambda>_.
     p_bind (p_res (match_search s p start False)) (\<lambda>r.
       case r of
         None \<Rightarrow> p_bind (c_push VNil) (\<lambda>_. p_ret 1)
       | Some (i, ms) \<Rightarrow> p_bind (push_match E s i ms) (\<lambda>_. c_gettop))))))"

section \<open>gsub\<close>

fun gsub_expand_repl :: "string \<Rightarrow> nat \<Rightarrow> match_state \<Rightarrow> string \<Rightarrow> string result" where
  "gsub_expand_repl s i ms [] = Inr []"
| "gsub_expand_repl s i ms (r # rs) =
     (if r \<noteq> CHR ''%'' then rbind (gsub_expand_repl s i ms rs) (\<lambda>out. Inr (r # out))
      else case rs of
        [] \<Rightarrow> panic (''invalid use of '' @ [CHR 0x27] @ ''%'' @ [CHR 0x27] @ '' in replacement string'')
      | c # rs' \<Rightarrow>
          rbind (if c = CHR ''%'' then Inr ''%''
                 else if c = CHR ''0'' then whole_match s i ms
                 else if 49 \<le> code c \<and> code c \<le> 57 then
                   (let idx = code c - 49 in
                    if idx < length (ms_captures ms) then capture_string s (ms_captures ms ! idx)
                    else if idx = 0 then whole_match s i ms
                    else panic (''invalid capture index %'' @ dec_nat (idx + 1)))
                 else panic (''invalid use of '' @ [CHR 0x27] @ ''%'' @ [CHR 0x27] @ '' in replacement string'')) (\<lambda>x.
          rbind (gsub_expand_repl s i ms rs') (\<lambda>out. Inr (x @ out))))"

definition is_falsy :: "tvalue \<Rightarrow> bool" where
  "is_falsy v \<longleftrightarrow> \<not> is_truthy v"

definition repl_type :: "tvalue \<Rightarrow> string" where
  "repl_type v =
     (case v of
        VBool _ \<Rightarrow> ''boolean'' | VTable _ \<Rightarrow> ''table'' | VFunction _ \<Rightarrow> ''function'' | VUserdata _ \<Rightarrow> ''userdata''
      | VThread _ \<Rightarrow> ''thread'' | _ \<Rightarrow> ''nil'')"

definition repl_call :: "meta_env \<Rightarrow> string \<Rightarrow> nat \<Rightarrow> match_state \<Rightarrow> ptr \<Rightarrow> (gstate, string) cmd" where
  "repl_call E s i ms fn =
     p_bind c_gettop (\<lambda>base.
     p_bind (c_push (VFunction fn)) (\<lambda>_.
     p_bind (push_match E s i ms) (\<lambda>_.
     p_bind (p_lift (\<lambda>g. me_call E g fn (if ms_captures ms = [] then 1 else int (length (ms_captures ms))) 1)) (\<lambda>_.
     p_bind (c_at (base + 1)) (\<lambda>r.
     p_bind (if is_falsy r then p_res (whole_match s i ms) else p_get (\<lambda>g. to_text E g r)) (\<lambda>txt.
     p_bind (c_settop (int base)) (\<lambda>_. p_ret txt)))))))"

definition repl_key :: "meta_env \<Rightarrow> string \<Rightarrow> nat \<Rightarrow> match_state \<Rightarrow> (gstate, tvalue) cmd" where
  "repl_key E s i ms =
     (if ms_captures ms = []
      then p_bind (p_res (whole_match s i ms)) (\<lambda>t. p_bind (c_intern E t) (\<lambda>p. p_ret (VString p)))
      else if snd (hd (ms_captures ms)) = CapPosition then p_ret (VInt (of_nat (fst (hd (ms_captures ms)) + 1)))
      else p_bind (p_res (capture_string s (hd (ms_captures ms)))) (\<lambda>t. p_bind (c_intern E t) (\<lambda>p. p_ret (VString p))))"

definition repl_lookup :: "meta_env \<Rightarrow> string \<Rightarrow> nat \<Rightarrow> match_state \<Rightarrow> tvalue \<Rightarrow> (gstate, string) cmd" where
  "repl_lookup E s i ms t =
     p_bind (repl_key E s i ms) (\<lambda>key.
     p_bind (p_lift (meta_index E t key)) (\<lambda>v.
       if is_falsy v then p_res (whole_match s i ms)
       else if stringish v then p_get (\<lambda>g. to_text E g v)
       else p_panic (''invalid replacement value (a '' @ repl_type v @ '')'')))"

definition apply_repl :: "meta_env \<Rightarrow> string \<Rightarrow> tvalue \<Rightarrow> nat \<Rightarrow> match_state \<Rightarrow> (gstate, string) cmd" where
  "apply_repl E s repl i ms =
     (case repl of
        VFunction fn \<Rightarrow> repl_call E s i ms fn
      | VTable _ \<Rightarrow> repl_lookup E s i ms repl
      | _ \<Rightarrow> p_bind (p_get (\<lambda>g. to_text E g repl)) (\<lambda>r. p_res (gsub_expand_repl s i ms r)))"

text \<open>The loop, with a bound on its rounds: what is appended, the position reached and the number of replacements. \<open>lm\<close> is
  \<open>lastmatch\<close>.\<close>

primrec gsub_loop ::
  "nat \<Rightarrow> string \<Rightarrow> string \<Rightarrow> bool \<Rightarrow> (nat \<Rightarrow> match_state \<Rightarrow> (gstate, string) cmd) \<Rightarrow> int \<Rightarrow> nat \<Rightarrow> nat option \<Rightarrow> nat \<Rightarrow> string \<Rightarrow>
    (gstate, string \<times> nat \<times> nat) cmd" where
  "gsub_loop 0 s p anchor repl max_s src lm cnt out = p_out"
| "gsub_loop (Suc n) s p anchor repl max_s src lm cnt out =
     (if \<not> int cnt < max_s then p_ret (out, src, cnt)
      else p_bind (p_res (match_at kMaxMatchDepth s p src 0 new_match)) (\<lambda>(matched, ms).
        if matched \<and> lm \<noteq> Some (ms_match_end ms) then
          p_bind (repl src ms) (\<lambda>txt.
            let e = ms_match_end ms in
            if anchor then p_ret (out @ txt, e, cnt + 1)
            else gsub_loop n s p anchor repl max_s e (Some e) (cnt + 1) (out @ txt))
        else if src < length s then
          (if anchor then p_ret (out @ [s ! src], src + 1, cnt)
           else gsub_loop n s p anchor repl max_s (src + 1) lm cnt (out @ [s ! src]))
        else p_ret (out, src, cnt)))"

definition gsub_rounds :: "string \<Rightarrow> nat" where
  "gsub_rounds s = 2 * length s + 3"

definition str_gsub :: "meta_env \<Rightarrow> naming \<Rightarrow> (gstate, nat) cmd" where
  "str_gsub E nm =
     p_bind (c_check_string E nm 1) (\<lambda>s.
     p_bind (c_check_string E nm 2) (\<lambda>pat.
     p_bind (c_at 3) (\<lambda>repl.
     p_bind (int_arg E nm 4 (of_nat (length s) + 1)) (\<lambda>max_s.
       let anchor = anchored pat; body = (if anchor then tl pat else pat) in
       p_bind (gsub_loop (gsub_rounds s) s body anchor (apply_repl E s repl) (sint max_s) 0 None 0 []) (\<lambda>(out, src, cnt).
       p_bind (c_settop 0) (\<lambda>_.
       p_bind (c_push_string E (if src < length s then out @ drop src s else out)) (\<lambda>_.
       p_bind (c_push (VInt (of_nat cnt))) (\<lambda>_. p_ret 2))))))))"

section \<open>gmatch\<close>

definition make_closed_upval :: "meta_env \<Rightarrow> int \<Rightarrow> tvalue \<Rightarrow> (gstate, ptr) cmd" where
  "make_closed_upval E bytes v =
     p_lift (\<lambda>g. let p = me_alloc E g in
       Inr (p, gc_link p (OUpVal \<lparr>uv_thread = None, uv_index = -1, uv_closed = v, uv_open = False\<rparr>) bytes g))"

definition set_upvals :: "ptr \<Rightarrow> ptr option list \<Rightarrow> gstate \<Rightarrow> gstate" where
  "set_upvals cl us g =
     (case obj_at g cl of Some (OClosure c) \<Rightarrow> set_obj cl (OClosure (c\<lparr>cl_upvals := us\<rparr>)) g | _ \<Rightarrow> g)"

text \<open>\<open>iter\<close> is the address of \<open>gmatch_iter\<close>, \<open>cb\<close> and \<open>ub\<close> the sizes of a closure and an upvalue.\<close>

definition str_gmatch :: "meta_env \<Rightarrow> naming \<Rightarrow> ptr \<Rightarrow> int \<Rightarrow> int \<Rightarrow> (gstate, nat) cmd" where
  "str_gmatch E nm iter cb ub =
     p_bind (c_check_string E nm 1) (\<lambda>_.
     p_bind (c_check_string E nm 2) (\<lambda>_.
     p_bind (c_settop 2) (\<lambda>_.
     p_bind (p_lift (\<lambda>g. let p = me_alloc E g in Inr (p, closure_new_c p cb iter g))) (\<lambda>cl.
     p_bind (c_at 1) (\<lambda>a. p_bind (make_closed_upval E ub a) (\<lambda>u0.
     p_bind (c_at 2) (\<lambda>b. p_bind (make_closed_upval E ub b) (\<lambda>u1.
     p_bind (make_closed_upval E ub (VInt 0)) (\<lambda>u2.
     p_bind (make_closed_upval E ub (VInt (-1))) (\<lambda>u3.
     p_bind (p_upd (set_upvals cl [Some u0, Some u1, Some u2, Some u3])) (\<lambda>_. return_value (VFunction cl))))))))))))"

text \<open>The upvalues of the running C closure, when it has the four of \<open>gmatch\<close>.\<close>

definition gmatch_upvals :: "gstate \<Rightarrow> (ptr \<times> ptr \<times> ptr \<times> ptr) option" where
  "gmatch_upvals g =
     (case g_current g of
        None \<Rightarrow> None
      | Some tp \<Rightarrow>
          (case thread_at g tp of
             None \<Rightarrow> None
           | Some th \<Rightarrow>
               (if th_frames th = [] then None
                else case fr_cl (List.last (th_frames th)) of
                  None \<Rightarrow> None
                | Some cl \<Rightarrow>
                    (case obj_at g cl of
                       Some (OClosure c) \<Rightarrow>
                         (case cl_upvals c of
                            Some u0 # Some u1 # Some u2 # Some u3 # _ \<Rightarrow> Some (u0, u1, u2, u3)
                          | _ \<Rightarrow> None)
                     | _ \<Rightarrow> None))))"

definition upval_value :: "gstate \<Rightarrow> ptr \<Rightarrow> tvalue" where
  "upval_value g u = (case upval_at g u of Some uv \<Rightarrow> uv_get (obj_at g) uv | None \<Rightarrow> VNil)"

text \<open>\<open>static_cast<size_t>(v.to_number())\<close>\<close>

definition size_of_number :: "tvalue \<Rightarrow> nat" where
  "size_of_number v = nat (f_trunc (num_of v))"

text \<open>\<open>for (; src <= s.size(); ++src)\<close>: the first match that does not end where the last one did.\<close>

primrec gmatch_loop :: "string \<Rightarrow> string \<Rightarrow> nat option \<Rightarrow> nat \<Rightarrow> nat \<Rightarrow> (nat \<times> match_state) option result" where
  "gmatch_loop s p lm 0 src = Inr None"
| "gmatch_loop s p lm (Suc n) src =
     rbind (match_at kMaxMatchDepth s p src 0 new_match) (\<lambda>(ok, ms).
       if \<not> ok \<or> lm = Some (ms_match_end ms) then gmatch_loop s p lm n (src + 1) else Inr (Some (src, ms)))"

definition gmatch_iter :: "meta_env \<Rightarrow> (gstate, nat) cmd" where
  "gmatch_iter E =
     p_bind (p_get (\<lambda>g. (g, gmatch_upvals g))) (\<lambda>(g, us).
       case us of
         None \<Rightarrow> return_value VNil
       | Some (u0, u1, u2, u3) \<Rightarrow>
           (case (upval_value g u0, upval_value g u1) of
              (VString sp, VString pp) \<Rightarrow>
                (let s = ls_data (g_strs g sp); p = ls_data (g_strs g pp); iv = upval_value g u2; lv = upval_value g u3;
                     src = (if is_number iv then size_of_number iv else 0) in
                 p_bind (p_res (case lv of
                     VInt n \<Rightarrow> if sint n < 0 then Inr None else Inr (Some (size_of_number lv))
                   | _ \<Rightarrow> rbind (to_number lv) (\<lambda>_. Inr (Some (size_of_number lv))))) (\<lambda>lm.
                 p_bind (p_res (gmatch_loop s p lm (length s + 1 - src) src)) (\<lambda>r.
                   case r of
                     None \<Rightarrow> return_value VNil
                   | Some (i, ms) \<Rightarrow>
                       p_bind (p_upd (uv_set u2 (VInt (of_nat (ms_match_end ms))))) (\<lambda>_.
                       p_bind (p_upd (uv_set u3 (VInt (of_nat (ms_match_end ms))))) (\<lambda>_.
                       p_bind (c_settop 0) (\<lambda>_.
                       p_bind (push_match E s i ms) (\<lambda>_. c_gettop)))))))
            | _ \<Rightarrow> return_value VNil))"

section \<open>gsub ends, and keeps what it does not replace\<close>

lemma match_at_in:
  assumes "match_at d s p si pi new_match = Inr (True, ms)" "si \<le> length s"
  shows "si \<le> ms_match_end ms" "ms_match_end ms \<le> length s"
proof -
  have "den s p pi si [] (ms_match_end ms) (ms_captures ms)"
    using decidesD [OF match_at_decides assms(1)] by (simp add: verdict_def new_match_def)
  from den_in [OF this assms(2)] show "si \<le> ms_match_end ms" "ms_match_end ms \<le> length s" by (simp_all add: caps_upto_def)
qed

text \<open>The rounds left: an empty match is followed by a step, so there are at most two per byte.\<close>

definition rounds_left :: "string \<Rightarrow> nat \<Rightarrow> nat option \<Rightarrow> nat" where
  "rounds_left s src lm = 2 * (length s - src) + (if lm = Some src then 1 else 2)"

text \<open>\<open>Q src out g\<close> holds along the loop when a replaced match and a skipped byte keep it.\<close>

lemma gsub_loop_inv:
  assumes repl: "\<And>src (ms :: match_state) out g. Q src out g \<Longrightarrow> src \<le> ms_match_end ms \<Longrightarrow> ms_match_end ms \<le> length s \<Longrightarrow>
      \<exists>r. repl src ms g = Some r \<and> (\<forall>txt g'. r = Inr (txt, g') \<longrightarrow> Q (ms_match_end ms) (out @ txt) g')"
    and skip: "\<And>src out g. Q src out g \<Longrightarrow> src < length s \<Longrightarrow> Q (src + 1) (out @ [s ! src]) g"
  shows "Q src out g \<Longrightarrow> src \<le> length s \<Longrightarrow> rounds_left s src lm \<le> n \<Longrightarrow>
    \<exists>r. gsub_loop n s p anchor repl max_s src lm cnt out g = Some r \<and>
      (\<forall>out' src' cnt' g'. r = Inr ((out', src', cnt'), g') \<longrightarrow> src' \<le> length s \<and> Q src' out' g')"
proof (induction n arbitrary: src lm cnt out g)
  case (Suc n)
  let ?m = "match_at kMaxMatchDepth s p src 0 new_match"
  let ?post = "\<lambda>r. \<forall>out' src' cnt' g'. r = Inr ((out', src', cnt'), g') \<longrightarrow> src' \<le> length s \<and> Q src' out' g'"
  show ?case
  proof (cases "int cnt < max_s")
    case False
    then show ?thesis using Suc.prems by (simp add: p_ret_def)
  next
    case more: True
    show ?thesis
    proof (cases ?m)
      case (Inl e)
      then show ?thesis using more by (simp add: p_bind_def p_res_def p_lift_def)
    next
      case (Inr x)
      obtain matched ms where x: "x = (matched, ms)" by (cases x)
      show ?thesis
      proof (cases "matched \<and> lm \<noteq> Some (ms_match_end ms)")
        case True
        let ?e = "ms_match_end ms"
        have e: "src \<le> ?e" "?e \<le> length s" using match_at_in Inr x True Suc.prems(2) by auto
        obtain r where r: "repl src ms g = Some r" "\<forall>txt g'. r = Inr (txt, g') \<longrightarrow> Q ?e (out @ txt) g'"
          using repl [OF Suc.prems(1) e] by blast
        have left: "rounds_left s ?e (Some ?e) \<le> n" using Suc.prems(3) e True by (cases "?e = src") (auto simp: rounds_left_def split: if_splits)
        show ?thesis
        proof (cases r)
          case (Inl err)
          then show ?thesis using more Inr x True r(1) by (simp add: p_bind_def)
        next
          case (Inr y)
          obtain new g1 where y: "y = (new, g1)" by (cases y)
          have q: "Q ?e (out @ new) g1" using r(2) Inr y by simp
          show ?thesis using more \<open>?m = Inr x\<close> x True r(1) Inr y q e(2) Suc.IH [OF q e(2) left]
            by (cases anchor) (simp_all add: p_bind_def p_ret_def Let_def)
        qed
      next
        case False
        show ?thesis
        proof (cases "src < length s")
          case True
          have q: "Q (src + 1) (out @ [s ! src]) g" using skip [OF Suc.prems(1) True] .
          have l: "src + 1 \<le> length s" using True by simp
          have left: "rounds_left s (src + 1) lm \<le> n" using Suc.prems(3) True by (auto simp: rounds_left_def split: if_splits)
          show ?thesis using more Inr x False True q l Suc.IH [OF q l left] by (auto simp: p_ret_def)
        qed (use more Inr x False Suc.prems in \<open>auto simp: p_ret_def\<close>)
      qed
    qed
  qed
qed (simp add: rounds_left_def split: if_splits)

text \<open>C34: \<open>string.gsub (s, p, "%0")\<close> replaces every match by itself: for every subject and pattern the loop
  ends (its rounds are bounded by twice the length of the subject), it leaves the state alone, and the
  text it has built, followed by the rest of the subject, is the subject.\<close>

theorem gsub_whole_match_identity:
  assumes "ls_data (g_strs g rp) = ''%0''"
  shows "\<exists>r. gsub_loop (gsub_rounds s) s p anchor (apply_repl E s (VString rp)) max_s 0 None 0 [] g = Some r \<and>
    (\<forall>out src cnt g'. r = Inr ((out, src, cnt), g') \<longrightarrow> g' = g \<and> src \<le> length s \<and> out @ drop src s = s)"
proof -
  let ?Q = "\<lambda>src out g'. g' = g \<and> out = take src s"
  have "\<exists>r. gsub_loop (gsub_rounds s) s p anchor (apply_repl E s (VString rp)) max_s 0 None 0 [] g = Some r \<and>
    (\<forall>out src cnt g'. r = Inr ((out, src, cnt), g') \<longrightarrow> src \<le> length s \<and> ?Q src out g')"
  proof (rule gsub_loop_inv)
    fix src out g1 and ms :: match_state assume q: "?Q src out g1" and e: "src \<le> ms_match_end ms" "ms_match_end ms \<le> length s"
    let ?e = "ms_match_end ms"
    have "whole_match s src ms = Inr (take (?e - src) (drop src s))" using e by (simp add: whole_match_def cpp_substr_def)
    then have "apply_repl E s (VString rp) src ms g1 = Some (Inr (take (?e - src) (drop src s), g))"
      using q assms by (simp add: apply_repl_def p_bind_def p_get_def p_res_def p_lift_def to_text_def)
    moreover have "take src s @ take (?e - src) (drop src s) = take ?e s" using e by (metis le_add_diff_inverse take_add)
    ultimately show "\<exists>r. apply_repl E s (VString rp) src ms g1 = Some r \<and> (\<forall>txt g'. r = Inr (txt, g') \<longrightarrow> ?Q ?e (out @ txt) g')"
      using q by simp
  next
    fix src out g1 assume "?Q src out g1" "src < length s"
    then show "?Q (src + 1) (out @ [s ! src]) g1" by (simp add: take_Suc_conv_app_nth)
  qed (simp_all add: rounds_left_def gsub_rounds_def)
  then show ?thesis by auto
qed

text \<open>Replacing the letters \<open>b\<close> of \<open>abcb\<close> by themselves.\<close>

definition percent_zero :: gstate where
  "percent_zero = (heap_of [])\<lparr>g_strs := (\<lambda>_. \<lparr>ls_hash = 0, ls_data = ''%0''\<rparr>)\<rparr>"

theorem gsub_whole_match_identity_witness:
  "\<forall>E. \<exists>r. gsub_loop (gsub_rounds ''abcb'') ''abcb'' ''b'' False (apply_repl E ''abcb'' (VString 7)) 5 0 None 0 [] percent_zero = Some r \<and>
    (\<forall>out src cnt g'. r = Inr ((out, src, cnt), g') \<longrightarrow> g' = percent_zero \<and> src \<le> length ''abcb'' \<and> out @ drop src ''abcb'' = ''abcb'')"
proof
  fix E
  have "ls_data (g_strs percent_zero 7) = ''%0''" by (simp add: percent_zero_def)
  then show "\<exists>r. gsub_loop (gsub_rounds ''abcb'') ''abcb'' ''b'' False (apply_repl E ''abcb'' (VString 7)) 5 0 None 0 [] percent_zero = Some r \<and>
    (\<forall>out src cnt g'. r = Inr ((out, src, cnt), g') \<longrightarrow> g' = percent_zero \<and> src \<le> length ''abcb'' \<and> out @ drop src ''abcb'' = ''abcb'')"
    by (rule gsub_whole_match_identity)
qed

end
