(* ===== verification/Lt_Pack.thy ===== *)
theory Lt_Pack
  imports Lt_Strlib
begin

text \<open>
  \<open>string.pack\<close>, \<open>string.packsize\<close> and \<open>string.unpack\<close> of \<open>src/lib/lstrlib.cpp\<close>. A format is read as a C
  string; the sizes of the C types and the byte order are those of 64-bit little-endian targets. The
  loops consume the format, so they are recursions on it.
\<close>

section \<open>Formats\<close>

record pack_header =
  ph_islittle :: bool
  ph_maxalign :: nat

datatype pack_opt = PInt | PUInt | PFloat | PChar | PString | PZStr | PPadding | PPadAlign | PNop

definition native_little :: bool where
  "native_little = True"

definition pack_maxalign :: nat where
  "pack_maxalign = 8"

definition kMaxIntSize :: nat where
  "kMaxIntSize = 16"

text \<open>The digits are read while the value is at most \<open>(INT_MAX - 9) / 10\<close>.\<close>

fun getnum_loop :: "nat \<Rightarrow> string \<Rightarrow> nat \<times> string" where
  "getnum_loop a [] = (a, [])"
| "getnum_loop a (c # cs) =
     (if isdigit c \<and> a \<le> (2 ^ 31 - 1 - 9) div 10 then getnum_loop (a * 10 + (code c - 48)) cs else (a, c # cs))"

text \<open>\<open>None\<close> is the default.\<close>

definition getnum :: "string \<Rightarrow> nat option \<times> string" where
  "getnum fmt =
     (if fmt \<noteq> [] \<and> isdigit (hd fmt) then (let (a, left) = getnum_loop 0 fmt in (Some a, left)) else (None, fmt))"

definition getnumlimit :: "string \<Rightarrow> nat \<Rightarrow> (nat \<times> string) result" where
  "getnumlimit fmt df =
     (let (a, left) = getnum fmt; sz = (case a of None \<Rightarrow> df | Some n \<Rightarrow> n) in
      if kMaxIntSize < sz \<or> sz = 0
      then panic (''integral size ('' @ dec_nat sz @ '') out of limits [1,16]'') else Inr (sz, left))"

definition fixed_options :: "(char \<times> pack_opt \<times> nat) list" where
  "fixed_options =
     [(CHR ''b'', PInt, 1), (CHR ''B'', PUInt, 1), (CHR ''h'', PInt, 2), (CHR ''H'', PUInt, 2),
      (CHR ''l'', PInt, 8), (CHR ''L'', PUInt, 8), (CHR ''j'', PInt, 8), (CHR ''J'', PUInt, 8),
      (CHR ''T'', PUInt, 8), (CHR ''f'', PFloat, 4), (CHR ''d'', PFloat, 8), (CHR ''n'', PFloat, 8),
      (CHR ''z'', PZStr, 0), (CHR ''x'', PPadding, 1), (CHR ''X'', PPadAlign, 0)]"

definition sized_option :: "pack_opt \<Rightarrow> string \<Rightarrow> nat \<Rightarrow> pack_header \<Rightarrow> (pack_opt \<times> nat \<times> pack_header \<times> string) result" where
  "sized_option opt fmt df h = rbind (getnumlimit fmt df) (\<lambda>(sz, left). Inr (opt, sz, h, left))"

definition getoption :: "pack_header \<Rightarrow> char \<Rightarrow> string \<Rightarrow> (pack_opt \<times> nat \<times> pack_header \<times> string) result" where
  "getoption h c fmt =
     (case map_of fixed_options c of
        Some (opt, sz) \<Rightarrow> Inr (opt, sz, h, fmt)
      | None \<Rightarrow>
          if c = CHR ''i'' then sized_option PInt fmt 4 h
          else if c = CHR ''I'' then sized_option PUInt fmt 4 h
          else if c = CHR ''s'' then sized_option PString fmt 8 h
          else if c = CHR ''c'' then
            (case getnum fmt of
               (None, _) \<Rightarrow> panic (''missing size for format option '' @ [CHR 0x27] @ ''c'' @ [CHR 0x27])
             | (Some n, left) \<Rightarrow> Inr (PChar, n, h, left))
          else if isspace c then Inr (PNop, 0, h, fmt)
          else if c = CHR ''<'' then Inr (PNop, 0, h\<lparr>ph_islittle := True\<rparr>, fmt)
          else if c = CHR ''>'' then Inr (PNop, 0, h\<lparr>ph_islittle := False\<rparr>, fmt)
          else if c = CHR ''='' then Inr (PNop, 0, h\<lparr>ph_islittle := native_little\<rparr>, fmt)
          else if c = CHR ''!'' then rbind (getnumlimit fmt pack_maxalign) (\<lambda>(n, left). Inr (PNop, 0, h\<lparr>ph_maxalign := n\<rparr>, left))
          else panic (''invalid format option '' @ [CHR 0x27] @ [c] @ [CHR 0x27]))"

text \<open>The bytes that align \<open>totalsize\<close> to \<open>align\<close>, at most \<open>maxalign\<close>.\<close>

definition align_bytes :: "pack_header \<Rightarrow> pack_opt \<Rightarrow> nat \<Rightarrow> nat \<Rightarrow> nat result" where
  "align_bytes h opt align0 totalsize =
     (if align0 \<le> 1 \<or> opt = PChar then Inr 0
      else let align = min align0 (ph_maxalign h) in
        if align AND (align - 1) \<noteq> 0 then panic ''format asks for alignment not power of 2''
        else Inr ((align - (totalsize AND (align - 1))) AND (align - 1)))"

definition pad_align_of :: "pack_header \<Rightarrow> string \<Rightarrow> (nat \<times> pack_header \<times> string) result" where
  "pad_align_of h fmt =
     (case fmt of
        [] \<Rightarrow> panic (''invalid next option for option '' @ [CHR 0x27] @ ''X'' @ [CHR 0x27])
      | c # left \<Rightarrow>
          rbind (getoption h c left) (\<lambda>(opt, align, h', left').
            if opt = PChar \<or> align = 0 then panic (''invalid next option for option '' @ [CHR 0x27] @ ''X'' @ [CHR 0x27])
            else Inr (align, h', left')))"

definition getdetails :: "pack_header \<Rightarrow> nat \<Rightarrow> char \<Rightarrow> string \<Rightarrow> (pack_opt \<times> nat \<times> nat \<times> pack_header \<times> string) result" where
  "getdetails h totalsize c fmt =
     rbind (getoption h c fmt) (\<lambda>(opt, sz, h1, fmt1).
     rbind (if opt = PPadAlign then pad_align_of h1 fmt1 else Inr (sz, h1, fmt1)) (\<lambda>(align, h2, fmt2).
     rbind (align_bytes h2 opt align totalsize) (\<lambda>ntoalign. Inr (opt, sz, ntoalign, h2, fmt2))))"

text \<open>Reading an option never lengthens the format.\<close>

lemma getnum_loop_suffix: "getnum_loop a cs = (n, left) \<Longrightarrow> \<exists>ds. cs = ds @ left"
  by (induction a cs rule: getnum_loop.induct) (auto split: if_splits)

lemma getnum_suffix: "getnum fmt = (n, left) \<Longrightarrow> \<exists>ds. fmt = ds @ left"
  by (auto simp: getnum_def split: if_splits prod.splits dest!: getnum_loop_suffix)

lemma getnumlimit_suffix: "getnumlimit fmt df = Inr (n, left) \<Longrightarrow> (\<exists>ds. fmt = ds @ left) \<and> n \<noteq> 0 \<and> n \<le> kMaxIntSize"
  by (auto simp: getnumlimit_def Let_def split: if_splits prod.splits option.splits dest!: getnum_suffix)

lemma getoption_suffix: "getoption h c fmt = Inr (opt, sz, h', left) \<Longrightarrow> \<exists>ds. fmt = ds @ left"
  by (auto simp: getoption_def sized_option_def rbind_eq_Inr split: option.splits if_splits prod.splits
      dest!: getnumlimit_suffix getnum_suffix)

lemma pad_align_suffix: "pad_align_of h fmt = Inr (a, h', left) \<Longrightarrow> \<exists>ds. fmt = ds @ left"
  by (auto simp: pad_align_of_def rbind_eq_Inr split: list.splits if_splits dest!: getoption_suffix)

lemma getdetails_suffix: "getdetails h n c fmt = Inr (opt, sz, nta, h', left) \<Longrightarrow> \<exists>ds. fmt = ds @ left"
  by (fastforce simp: getdetails_def rbind_eq_Inr split: if_splits dest!: getoption_suffix pad_align_suffix)

section \<open>Integers and floats as bytes\<close>

definition byte_of :: "u64 \<Rightarrow> nat \<Rightarrow> char" where
  "byte_of n i = char_of (unat (drop_bit (8 * i) n AND 0xFF))"

definition packint :: "u64 \<Rightarrow> bool \<Rightarrow> nat \<Rightarrow> bool \<Rightarrow> string" where
  "packint n islittle sz neg =
     (let bs = map (\<lambda>i. if neg \<and> 8 \<le> i then CHR 0xFF else byte_of n i) [0..<sz] in if islittle then bs else rev bs)"

definition copy_endian :: "string \<Rightarrow> bool \<Rightarrow> string" where
  "copy_endian src islittle = (if islittle = native_little then src else rev src)"

primrec gather :: "string \<Rightarrow> nat \<Rightarrow> u64" where
  "gather bs 0 = 0"
| "gather bs (Suc n) = (gather (tl bs) n * 256) OR of_nat (code (hd bs))"

text \<open>\<open>bs\<close> are the \<open>size\<close> bytes at the position.\<close>

definition unpackint :: "string \<Rightarrow> bool \<Rightarrow> bool \<Rightarrow> u64 result" where
  "unpackint bs0 islittle issigned =
     (let sz = length bs0; bs = (if islittle then bs0 else rev bs0); res = gather bs (min sz 8) in
      if sz < 8 then
        Inr (if issigned then (let mask = push_bit (sz * 8 - 1) 1 in (res XOR mask) - mask) else res)
      else if 8 < sz then
        (let fill = (if \<not> issigned \<or> 0 \<le> sint res then CHR 0x00 else CHR 0xFF) in
         if list_all (\<lambda>b. b = fill) (drop 8 bs) then Inr res
         else panic (dec_nat sz @ ''-byte integer does not fit into Lua Integer''))
      else Inr res)"

text \<open>\<open>float\<close>: magnitudes in units of \<open>2 ^ -149\<close>, rounded to 24 bits.\<close>

definition f64_to_f32 :: "f64 \<Rightarrow> u32" where
  "f64_to_f32 w =
     (let sgn = (if f_sign w then 2 ^ 31 else 0) in
      if isnan w then word_of_int (sgn + 0x7FC00000)
      else if isinf w then word_of_int (sgn + 0x7F800000)
      else let m = f_mag w; sh = max 925 (bitlen (nat m) - 24); d = 2 ^ sh; q = m div d; r = m mod d;
               q' = (if 2 * r > d \<or> (2 * r = d \<and> odd q) then q + 1 else q);
               bits = int (sh - 925) * 2 ^ 23 + q'
           in word_of_int (sgn + (if 0x7F800000 \<le> bits then 0x7F800000 else bits)))"

definition f32_to_f64 :: "u32 \<Rightarrow> f64" where
  "f32_to_f64 w =
     (let sgn = bit w 31; e = unat (drop_bit 23 w AND 0xFF); man = uint (w AND 0x7FFFFF) in
      if e = 255 then (if man = 0 then f_inf sgn else f_make sgn 2047 (2 ^ 51))
      else f_round sgn ((if e = 0 then man else (2 ^ 23 + man) * 2 ^ (e - 1)) * 2 ^ 925) 1)"

section \<open>Packing\<close>

datatype pval = PVInt u64 | PVNum f64 | PVStr string

fun pack_bytes :: "pack_header \<Rightarrow> pack_opt \<Rightarrow> nat \<Rightarrow> pval \<Rightarrow> string result" where
  "pack_bytes h PInt sz (PVInt n) =
     (if sz < 8 \<and> (sint n < - (2 ^ (sz * 8 - 1)) \<or> 2 ^ (sz * 8 - 1) \<le> sint n) then panic ''integer overflow''
      else Inr (packint n (ph_islittle h) sz (sint n < 0)))"
| "pack_bytes h PUInt sz (PVInt n) =
     (if sz < 8 \<and> push_bit (sz * 8) 1 - 1 < n then panic ''unsigned overflow''
      else Inr (packint n (ph_islittle h) sz False))"
| "pack_bytes h PFloat sz (PVNum d) =
     Inr (copy_endian (if sz = 4 then packint (ucast (f64_to_f32 d)) native_little 4 False
                       else packint d native_little 8 False) (ph_islittle h))"
| "pack_bytes h PChar sz (PVStr s) =
     (if sz < length s then panic ''string longer than given size''
      else Inr (s @ replicate (sz - length s) (CHR 0x00)))"
| "pack_bytes h PString sz (PVStr s) =
     (if sz < 8 \<and> 2 ^ (sz * 8) \<le> length s then panic ''string length does not fit in given size''
      else Inr (packint (of_nat (length s)) (ph_islittle h) sz False @ s))"
| "pack_bytes h PZStr sz (PVStr s) =
     (if CHR 0x00 \<in> set s then panic ''string contains zeros'' else Inr (s @ [CHR 0x00]))"
| "pack_bytes h _ sz _ = Inr []"

definition has_value :: "pack_opt \<Rightarrow> bool" where
  "has_value opt \<longleftrightarrow> opt \<notin> {PPadding, PPadAlign, PNop}"

text \<open>\<open>val opt i\<close> is the argument \<open>i\<close> as the option checks it.\<close>

function pack_run :: "(pack_opt \<Rightarrow> nat \<Rightarrow> pval result) \<Rightarrow> pack_header \<Rightarrow> string \<Rightarrow> nat \<Rightarrow> nat \<Rightarrow> string \<Rightarrow> string result" where
  "pack_run val h [] totalsize arg out = Inr out"
| "pack_run val h (c # cs) totalsize arg out =
     (case getdetails h totalsize c cs of
        Inl e \<Rightarrow> Inl e
      | Inr (opt, sz, ntoalign, h', fmt') \<Rightarrow>
          (let out1 = out @ replicate ntoalign (CHR 0x00) in
           if has_value opt then
             (case rbind (val opt (arg + 1)) (pack_bytes h' opt sz) of
                Inl e \<Rightarrow> Inl e
              | Inr bs \<Rightarrow>
                  pack_run val h' fmt'
                    (totalsize + (ntoalign + sz) + (if opt = PString \<or> opt = PZStr then length bs - sz else 0))
                    (arg + 1) (out1 @ bs))
           else
             pack_run val h' fmt' (totalsize + (ntoalign + sz)) arg
               (out1 @ (if opt = PPadding then [CHR 0x00] else []))))"
  by pat_completeness auto
termination
  by (relation "measure (\<lambda>(_, _, fmt, _). length fmt)") (auto dest!: getdetails_suffix)

declare pack_run.simps(2) [simp del]

definition header0 :: pack_header where
  "header0 = \<lparr>ph_islittle = native_little, ph_maxalign = Suc 0\<rparr>"

definition pack_arg :: "lib_env \<Rightarrow> args \<Rightarrow> pack_opt \<Rightarrow> nat \<Rightarrow> pval result" where
  "pack_arg L as opt i =
     (if opt = PInt \<or> opt = PUInt then rbind (check_int L as i) (\<lambda>n. Inr (PVInt n))
      else if opt = PFloat then rbind (check_number L as i) (\<lambda>d. Inr (PVNum d))
      else rbind (check_string L as i) (\<lambda>p. Inr (PVStr (ls_data (le_heap L p)))))"

definition str_pack :: "meta_env \<Rightarrow> naming \<Rightarrow> (gstate, nat) cmd" where
  "str_pack E nm =
     p_bind (c_check_string E nm 1) (\<lambda>fmt.
     p_bind (on_args (\<lambda>g as. pack_run (pack_arg (lenv E nm g) as) header0 (cstr fmt) 0 1 [])) (return_string E))"

function packsize_run :: "pack_header \<Rightarrow> string \<Rightarrow> nat \<Rightarrow> nat result" where
  "packsize_run h [] totalsize = Inr totalsize"
| "packsize_run h (c # cs) totalsize =
     (case getdetails h totalsize c cs of
        Inl e \<Rightarrow> Inl e
      | Inr (opt, size0, ntoalign, h', fmt') \<Rightarrow>
          (let sz = size0 + ntoalign in
           if kMaxSize < sz \<or> kMaxSize - sz < totalsize then panic ''format result too large''
           else if opt = PString \<or> opt = PZStr then panic ''variable-length format''
           else packsize_run h' fmt' (totalsize + sz)))"
  by pat_completeness auto
termination
  by (relation "measure (\<lambda>(_, fmt, _). length fmt)") (auto dest!: getdetails_suffix)

declare packsize_run.simps(2) [simp del]

definition str_packsize :: "meta_env \<Rightarrow> naming \<Rightarrow> (gstate, nat) cmd" where
  "str_packsize E nm =
     p_bind (c_check_string E nm 1) (\<lambda>fmt.
     p_bind (p_res (packsize_run header0 (cstr fmt) 0)) (\<lambda>n. return_value (VInt (of_nat n))))"

section \<open>Unpacking\<close>

text \<open>Sums of \<open>size_t\<close>.\<close>

definition size_add :: "nat \<Rightarrow> nat \<Rightarrow> nat" where
  "size_add a b = (a + b) mod 2 ^ 64"

text \<open>The value at \<open>pos\<close>, and how far \<open>pos\<close> moves beyond \<open>size\<close>.\<close>

fun unpack_value :: "pack_header \<Rightarrow> pack_opt \<Rightarrow> nat \<Rightarrow> string \<Rightarrow> nat \<Rightarrow> (pval \<times> nat) result" where
  "unpack_value h PFloat sz data pos =
     (let bs = copy_endian (take sz (drop pos data)) (ph_islittle h) in
      Inr (PVNum (if sz = 4 then f32_to_f64 (ucast (gather bs 4)) else gather bs 8), 0))"
| "unpack_value h PChar sz data pos = Inr (PVStr (take sz (drop pos data)), 0)"
| "unpack_value h PString sz data pos =
     rbind (unpackint (take sz (drop pos data)) (ph_islittle h) False) (\<lambda>n.
       let len = unat n in
       if length data < size_add (pos + sz) len then panic ''data string too short''
       else Inr (PVStr (take len (drop (pos + sz) data)), len))"
| "unpack_value h PZStr sz data pos =
     (let len = length (cstr (drop pos data)) in Inr (PVStr (take len (drop pos data)), len + 1))"
| "unpack_value h opt sz data pos =
     rbind (unpackint (take sz (drop pos data)) (ph_islittle h) (opt = PInt)) (\<lambda>n. Inr (PVInt n, 0))"

function unpack_run :: "pack_header \<Rightarrow> string \<Rightarrow> string \<Rightarrow> nat \<Rightarrow> pval list \<Rightarrow> (pval list \<times> nat) result" where
  "unpack_run h [] data pos acc = Inr (acc, pos)"
| "unpack_run h (c # cs) data pos acc =
     (case getdetails h pos c cs of
        Inl e \<Rightarrow> Inl e
      | Inr (opt, sz, ntoalign, h', fmt') \<Rightarrow>
          (let pos1 = size_add pos ntoalign in
           if length data < size_add pos1 sz then panic ''data string too short''
           else if has_value opt then
             (case unpack_value h' opt sz data pos1 of
                Inl e \<Rightarrow> Inl e
              | Inr (v, extra) \<Rightarrow> unpack_run h' fmt' data (size_add (size_add pos1 extra) sz) (acc @ [v]))
           else unpack_run h' fmt' data (size_add pos1 sz) acc))"
  by pat_completeness auto
termination
  by (relation "measure (\<lambda>(_, fmt, _). length fmt)") (auto dest!: getdetails_suffix)

declare unpack_run.simps(2) [simp del]

primrec push_pvals :: "meta_env \<Rightarrow> pval list \<Rightarrow> (gstate, unit) cmd" where
  "push_pvals E [] = p_ret ()"
| "push_pvals E (v # vs) =
     p_bind (case v of PVInt n \<Rightarrow> c_push (VInt n) | PVNum d \<Rightarrow> c_push (VFloat d) | PVStr s \<Rightarrow> c_push_string E s) (\<lambda>_. push_pvals E vs)"

definition unpack_start :: "string \<Rightarrow> u64 \<Rightarrow> u64" where
  "unpack_start data ipos =
     (if sint ipos < 0 then (if of_nat (length data) < - ipos then 0 else of_nat (length data) + ipos + 1) else ipos) - 1"

definition str_unpack :: "meta_env \<Rightarrow> naming \<Rightarrow> (gstate, nat) cmd" where
  "str_unpack E nm =
     p_bind (c_check_string E nm 1) (\<lambda>fmt.
     p_bind (c_check_string E nm 2) (\<lambda>data.
     p_bind (int_arg E nm 3 1) (\<lambda>ipos.
       let pos = unat (unpack_start data ipos) in
       if length data < pos then p_panic ''initial position out of string''
       else
         p_bind (c_settop 0) (\<lambda>_.
         p_bind (p_res (unpack_run header0 (cstr fmt) data pos [])) (\<lambda>(vs, pos').
         p_bind (push_pvals E vs) (\<lambda>_.
         p_bind (c_push (VInt (of_nat (pos' + 1)))) (\<lambda>_. p_ret (length vs + 1))))))))"

section \<open>What is packed is unpacked\<close>

lemma code_byte_of: "(of_nat (code (byte_of n i)) :: u64) = take_bit 8 (drop_bit (8 * i) n)"
proof -
  have "drop_bit (8 * i) n AND 0xFF = take_bit 8 (drop_bit (8 * i) n)" by (simp add: take_bit_eq_mask mask_eq_exp_minus_1)
  moreover have "unat (take_bit 8 (drop_bit (8 * i) n)) < 256"
    using take_bit_nat_less_exp [of 8 "unat (drop_bit (8 * i) n)"] by (simp add: unsigned_take_bit_eq)
  ultimately show ?thesis by (simp add: byte_of_def of_char_of)
qed

lemma gather_bytes: "k \<le> 8 \<Longrightarrow> gather (map (byte_of n) [0..<k] @ xs) k = take_bit (8 * k) n"
proof (induction k arbitrary: n)
  case (Suc k)
  have m: "map (byte_of n) [0..<Suc k] = byte_of n 0 # map (byte_of (drop_bit 8 n)) [0..<k]"
    by (rule nth_equalityI) (auto simp: byte_of_def nth_Cons nth_append drop_bit_drop_bit ac_simps split: nat.splits simp del: upt_Suc)
  have "gather (map (byte_of n) [0..<Suc k] @ xs) (Suc k) = push_bit 8 (take_bit (8 * k) (drop_bit 8 n)) OR take_bit 8 n"
    using Suc.IH [of "drop_bit 8 n"] Suc.prems code_byte_of [of n 0] unfolding m by (simp add: push_bit_eq_mult)
  also have "\<dots> = take_bit (8 * Suc k) n"
    by (rule bit_word_eqI) (auto simp: bit_simps)
  finally show ?case .
qed simp

lemma xor_single: "((x :: u64) XOR push_bit k 1) - push_bit k 1 = (if bit x k then x - 2 ^ Suc k else x)" if "k < 64"
proof -
  have "x XOR push_bit k 1 = flip_bit k x" by (simp add: flip_bit_eq_xor)
  moreover have "flip_bit k x = (if bit x k then x - 2 ^ k else x + 2 ^ k)"
    by (simp add: flip_bit_eq_if set_bit_eq unset_bit_eq)
  ultimately show ?thesis by (simp add: push_bit_eq_mult)
qed

lemma sign_extend:
  assumes "k < 64" "- (2 ^ k) \<le> sint n" "sint n < 2 ^ k"
  shows "(take_bit (Suc k) (n :: u64) XOR push_bit k 1) - push_bit k 1 = n"
proof -
  have i: "signed_take_bit k (sint n) = sint n" using assms(2,3) by (simp add: signed_take_bit_int_eq_self_iff)
  have "bit n (min k j) = bit n j" if "j < 64" for j
  proof -
    have "bit (sint n) (min k j) = bit (sint n) j" using arg_cong [OF i, of "\<lambda>x. bit x j"] by (simp add: bit_signed_take_bit_iff min.commute)
    then show ?thesis using that assms(1) by (simp add: bit_sint_iff)
  qed
  then have "signed_take_bit k n = n"
    by (intro bit_word_eqI) (simp add: bit_signed_take_bit_iff min.commute)
  then show ?thesis unfolding xor_single [OF assms(1)] using assms(1)
    by (cases "bit n k") (simp_all add: signed_take_bit_eq_take_bit_minus bit_take_bit_iff)
qed

text \<open>The integer that an option of \<open>sz\<close> bytes can hold.\<close>

definition fits :: "bool \<Rightarrow> nat \<Rightarrow> u64 \<Rightarrow> bool" where
  "fits issigned sz n \<longleftrightarrow>
     8 \<le> sz \<or> (if issigned then - (2 ^ (sz * 8 - 1)) \<le> sint n \<and> sint n < 2 ^ (sz * 8 - 1) else n \<le> push_bit (sz * 8) 1 - 1)"

lemma unat_mask: "k \<le> 64 \<Longrightarrow> unat (mask k :: u64) = mask k"
proof -
  assume "k \<le> 64"
  have "unat (mask k :: u64) = unat (take_bit k (- 1) :: u64)" by (simp only: mask_eq_take_bit_minus_one)
  also have "\<dots> = mask k" using \<open>k \<le> 64\<close> unfolding unsigned_take_bit_eq unsigned_minus_1_eq_mask take_bit_of_mask by (simp add: min_def)
  finally show ?thesis .
qed

lemma length_packint [simp]: "length (packint n l sz neg) = sz"
  by (simp add: packint_def Let_def)

lemma unpackint_packint:
  assumes sz: "0 < sz" and f: "fits issigned sz n" and neg: "neg \<longleftrightarrow> issigned \<and> sint n < 0"
  shows "unpackint (packint n l sz neg) l issigned = Inr n"
proof -
  let ?f = "\<lambda>i. if neg \<and> 8 \<le> i then CHR 0xFF else byte_of n i"
  have bs: "(if l then packint n l sz neg else rev (packint n l sz neg)) = map ?f [0..<sz]" by (simp add: packint_def Let_def)
  have split: "map ?f [0..<sz] = map (byte_of n) [0..<min sz 8] @ map ?f [min sz 8..<sz]"
  proof -
    have "[0..<sz] = [0..<min sz 8] @ [min sz 8..<sz]" using upt_add_eq_append [of 0 "min sz 8" "sz - min sz 8"] by simp
    from arg_cong [OF this, of "map ?f"] have "map ?f [0..<sz] = map ?f [0..<min sz 8] @ map ?f [min sz 8..<sz]" by (simp only: map_append)
    also have "map ?f [0..<min sz 8] = map (byte_of n) [0..<min sz 8]" by (rule map_cong) auto
    finally show ?thesis .
  qed
  have g: "gather (map ?f [0..<sz]) (min sz 8) = take_bit (8 * min sz 8) n" unfolding split by (rule gather_bytes) simp
  have full: "take_bit 64 n = n" by (simp add: take_bit_word_eq_self)
  consider "sz < 8" | "sz = 8" | "8 < sz" by linarith
  then show ?thesis
  proof cases
    case 1
    then have res: "gather (map ?f [0..<sz]) (min sz 8) = take_bit (sz * 8) n" using g by (simp add: mult.commute)
    show ?thesis
    proof (cases issigned)
      case True
      have k: "sz * 8 - 1 < 64" "Suc (sz * 8 - 1) = sz * 8" using 1 sz by auto
      have "(take_bit (sz * 8) n XOR push_bit (sz * 8 - 1) 1) - push_bit (sz * 8 - 1) 1 = n"
        using sign_extend [OF k(1), of n] f 1 True unfolding k(2) fits_def by auto
      then show ?thesis using 1 True res unfolding unpackint_def length_packint bs by (simp add: Let_def)
    next
      case False
      have "n \<le> mask (sz * 8)" using f 1 False by (auto simp: fits_def mask_eq_exp_minus_1 push_bit_eq_mult)
      then have "unat n \<le> mask (sz * 8)" using 1 unat_mask [of "sz * 8"] by (simp add: word_le_nat_alt)
      then have "unat n < 2 ^ (sz * 8)" by (simp only: Suc_mask_eq_exp [symmetric] less_Suc_eq_le)
      then have "unat (take_bit (sz * 8) n) = unat n" by (simp add: unsigned_take_bit_eq take_bit_nat_eq_self)
      then have "take_bit (sz * 8) n = n" by (simp only: word_unat_eq_iff)
      then show ?thesis using 1 False res unfolding unpackint_def length_packint bs by (simp add: Let_def)
    qed
  next
    case 2
    then show ?thesis using g full unfolding unpackint_def length_packint bs by (simp add: Let_def)
  next
    case 3
    have m: "min sz 8 = 8" using 3 by simp
    have res: "gather (map ?f [0..<sz]) (min sz 8) = n" using g full 3 by simp
    have d: "drop 8 (map ?f [0..<sz]) = map ?f [8..<sz]" using split 3 by simp
    have z: "byte_of n i = CHR 0x00" if "8 \<le> i" for i
    proof -
      have "drop_bit (8 * i) n = 0" using that by (intro bit_word_eqI) (auto simp: bit_simps dest: bit_imp_le_length)
      then show ?thesis by (simp add: byte_of_def char_of_def)
    qed
    have "list_all (\<lambda>b. b = (if \<not> issigned \<or> 0 \<le> sint n then CHR 0x00 else CHR 0xFF)) (map ?f [8..<sz])"
      using neg z by (auto simp: list_all_iff)
    then show ?thesis using 3 res d unfolding unpackint_def length_packint bs by (simp add: Let_def)
  qed
qed

text \<open>What an option gives back: a fixed-size string is padded, a \<open>float\<close> is rounded.\<close>

fun stored :: "pack_opt \<Rightarrow> nat \<Rightarrow> pval \<Rightarrow> pval" where
  "stored PChar sz (PVStr s) = PVStr (s @ replicate (sz - length s) (CHR 0x00))"
| "stored PFloat sz (PVNum d) = PVNum (if sz = 4 then f32_to_f64 (f64_to_f32 d) else d)"
| "stored opt sz v = v"

fun typed :: "pack_opt \<Rightarrow> pval \<Rightarrow> bool" where
  "typed PInt v = (\<exists>n. v = PVInt n)"
| "typed PUInt v = (\<exists>n. v = PVInt n)"
| "typed PFloat v = (\<exists>d. v = PVNum d)"
| "typed _ v = (\<exists>s. v = PVStr s)"

text \<open>The sizes that \<open>getdetails\<close> gives the options.\<close>

fun size_ok :: "pack_opt \<Rightarrow> nat \<Rightarrow> bool" where
  "size_ok PInt sz = (0 < sz)"
| "size_ok PUInt sz = (0 < sz)"
| "size_ok PString sz = (0 < sz)"
| "size_ok PFloat sz = (sz = 4 \<or> sz = 8)"
| "size_ok PZStr sz = (sz = 0)"
| "size_ok PPadding sz = (sz = 1)"
| "size_ok PPadAlign sz = (sz = 0)"
| "size_ok PNop sz = (sz = 0)"
| "size_ok PChar sz = True"

lemma fixed_options_sizes: "map_of fixed_options c = Some (opt, sz) \<Longrightarrow> size_ok opt sz"
  by (auto simp: fixed_options_def split: if_splits)

lemma getoption_size: "getoption h c fmt = Inr (opt, sz, h', left) \<Longrightarrow> size_ok opt sz"
  by (auto simp: getoption_def sized_option_def rbind_eq_Inr split: option.splits if_splits prod.splits
      dest!: getnumlimit_suffix fixed_options_sizes)

lemma getdetails_size: "getdetails h n c fmt = Inr (opt, sz, nta, h', left) \<Longrightarrow> size_ok opt sz"
  by (auto simp: getdetails_def rbind_eq_Inr split: if_splits dest!: getoption_size)

lemma unpackint_length:
  assumes "pack_bytes h PString sz (PVStr s) = Inr bs" "0 < sz" "length s < 2 ^ 63"
  shows "unpackint (packint (of_nat (length s)) l sz False) l False = Inr (of_nat (length s))"
proof (rule unpackint_packint [OF assms(2)])
  have u: "unat (of_nat (length s) :: u64) = length s" using assms(3) by (simp add: unat_of_nat)
  have "of_nat (length s) \<le> (mask (sz * 8) :: u64)" if "sz < 8"
  proof -
    have "length s < 2 ^ (sz * 8)" using assms(1) that by (simp split: if_splits)
    then have "length s \<le> mask (sz * 8)" by (simp only: Suc_mask_eq_exp [symmetric] less_Suc_eq_le)
    then show ?thesis using that u unat_mask [of "sz * 8"] by (simp add: word_le_nat_alt)
  qed
  then show "fits False sz (of_nat (length s))"
    by (cases "sz < 8") (simp_all add: fits_def mask_eq_exp_minus_1 push_bit_eq_mult)
qed simp

lemma take_middle: "take (length bs) (drop (length pre) (pre @ bs @ post)) = bs"
  by simp

lemma gather_float: "gather (packint n True k False) k = take_bit (8 * k) n" if "k \<le> 8"
  using gather_bytes [OF that, of n "[]"] by (simp add: packint_def)

text \<open>Reading back what one option has written.\<close>

lemma unpack_value_pack:
  assumes b: "pack_bytes h opt sz v = Inr bs" and t: "has_value opt" "typed opt v" "size_ok opt sz"
    and l: "length (pre @ bs @ post) < 2 ^ 63"
  shows "\<exists>extra. unpack_value h opt sz (pre @ bs @ post) (length pre) = Inr (stored opt sz v, extra) \<and> length bs = sz + extra \<and>
    extra = (if opt = PString \<or> opt = PZStr then length bs - sz else 0)"
proof (cases opt)
  case PInt
  then obtain n where v: "v = PVInt n" using t by auto
  have "bs = packint n (ph_islittle h) sz (sint n < 0)" "fits True sz n"
    using b by (auto simp: PInt v fits_def split: if_splits)
  then show ?thesis using unpackint_packint [of sz True n] t by (simp add: PInt v)
next
  case PUInt
  then obtain n where v: "v = PVInt n" using t by auto
  have "bs = packint n (ph_islittle h) sz False" "fits False sz n"
    using b by (auto simp: PUInt v fits_def split: if_splits)
  then show ?thesis using unpackint_packint [of sz False n False] t by (simp add: PUInt v)
next
  case PFloat
  then obtain d where v: "v = PVNum d" using t by auto
  let ?raw = "if sz = 4 then packint (ucast (f64_to_f32 d)) True 4 False else packint d True 8 False"
  have bs: "bs = copy_endian ?raw (ph_islittle h)" using b by (auto simp: PFloat v native_little_def split: if_splits)
  have sz: "sz = 4 \<or> sz = 8" using t by (simp add: PFloat)
  have "length bs = sz" "copy_endian bs (ph_islittle h) = ?raw" using sz by (auto simp: bs copy_endian_def)
  moreover have "(ucast (take_bit 32 (ucast (f64_to_f32 d) :: u64)) :: u32) = f64_to_f32 d"
    by (rule bit_word_eqI) (auto simp: bit_simps)
  moreover have "take_bit 64 d = d" by (simp add: take_bit_word_eq_self)
  ultimately show ?thesis using sz gather_float [of 4 "ucast (f64_to_f32 d)"] gather_float [of 8 d]
    by (auto simp: PFloat v Let_def)
next
  case PChar
  then obtain s where v: "v = PVStr s" using t by auto
  then have "bs = s @ replicate (sz - length s) (CHR 0x00)" "length s \<le> sz" using b PChar by (auto split: if_splits)
  then show ?thesis by (simp add: PChar v)
next
  case PString
  then obtain s where v: "v = PVStr s" using t by auto
  have sz: "0 < sz" using t by (simp add: PString)
  have bs: "bs = packint (of_nat (length s)) (ph_islittle h) sz False @ s" using b by (auto simp: PString v split: if_splits)
  have ls: "length s < 2 ^ 63" "length pre + sz + length s < 2 ^ 63" using l bs by auto
  have u: "unat (of_nat (length s) :: u64) = length s" using ls by (simp add: unat_of_nat)
  have "unpackint (packint (of_nat (length s)) (ph_islittle h) sz False) (ph_islittle h) False = Inr (of_nat (length s))"
    using b unfolding PString v by (rule unpackint_length [OF _ sz ls(1)])
  moreover have "size_add (length pre + sz) (length s) = length pre + sz + length s" using ls by (simp add: size_add_def)
  ultimately show ?thesis using u by (simp add: PString v bs Let_def)
next
  case PZStr
  then obtain s where v: "v = PVStr s" using t by auto
  have bs: "bs = s @ [CHR 0x00]" "CHR 0x00 \<notin> set s" using b by (auto simp: PZStr v split: if_splits)
  have "cstr (s @ CHR 0x00 # post) = s" unfolding cstr_def using bs(2) by (subst takeWhile_append2) auto
  then show ?thesis using t by (simp add: PZStr v bs Let_def)
qed (use t in \<open>auto simp: has_value_def\<close>)

lemma pack_run_extends: "pack_run val h fmt n arg out = Inr res \<Longrightarrow> \<exists>ys. res = out @ ys"
proof (induction val h fmt n arg out rule: pack_run.induct)
  case (2 val h c cs n arg out)
  obtain opt sz nta h' fmt' where d: "getdetails h n c cs = Inr (opt, sz, nta, h', fmt')"
    using "2.prems" by (cases "getdetails h n c cs") (auto simp: pack_run.simps)
  show ?case
  proof (cases "has_value opt")
    case True
    then obtain bs where b: "rbind (val opt (arg + 1)) (pack_bytes h' opt sz) = Inr bs"
      using "2.prems" d by (cases "rbind (val opt (arg + 1)) (pack_bytes h' opt sz)") (auto simp: pack_run.simps(2))
    then show ?thesis using "2.IH"(1) [OF d refl refl refl refl refl True b] "2.prems" d True by (auto simp: pack_run.simps(2))
  next
    case False
    then show ?thesis using "2.IH"(2) [OF d refl refl refl refl refl False] "2.prems" d by (auto simp: pack_run.simps(2))
  qed
qed simp

text \<open>Unpacking from where the packed prefix ends gives the packed values, in order.\<close>

lemma unpack_run_pack:
  assumes "\<And>opt i v. val opt i = Inr v \<Longrightarrow> typed opt v"
  shows "pack_run val h fmt n arg out = Inr res \<Longrightarrow> n = length out \<Longrightarrow> length res < 2 ^ 63 \<Longrightarrow>
    \<exists>items. unpack_run h fmt res n acc = Inr (acc @ map (\<lambda>(opt, sz, v). stored opt sz v) items, length res) \<and>
      (\<forall>i < length items. case items ! i of (opt, sz, v) \<Rightarrow> val opt (arg + 1 + i) = Inr v)"
  using assms
proof (induction val h fmt n arg out arbitrary: acc rule: pack_run.induct)
  case (2 val h c cs n arg out)
  obtain opt sz nta h' fmt' where d: "getdetails h n c cs = Inr (opt, sz, nta, h', fmt')"
    using "2.prems"(1) by (cases "getdetails h n c cs") (auto simp: pack_run.simps)
  let ?pre = "out @ replicate nta (CHR 0x00)"
  have so: "size_ok opt sz" using getdetails_size [OF d] .
  show ?case
  proof (cases "has_value opt")
    case True
    then obtain bs where b: "rbind (val opt (arg + 1)) (pack_bytes h' opt sz) = Inr bs"
      using "2.prems"(1) d by (cases "rbind (val opt (arg + 1)) (pack_bytes h' opt sz)") (auto simp: pack_run.simps(2))
    then obtain v where v: "val opt (arg + 1) = Inr v" "pack_bytes h' opt sz v = Inr bs" by (auto simp: rbind_eq_Inr)
    let ?n = "n + (nta + sz) + (if opt = PString \<or> opt = PZStr then length bs - sz else 0)"
    have r: "pack_run val h' fmt' ?n (arg + 1) (?pre @ bs) = Inr res"
      using "2.prems"(1) d True b by (simp add: pack_run.simps(2) Let_def)
    obtain post where post: "res = ?pre @ bs @ post" using pack_run_extends [OF r] by auto
    obtain extra where u: "unpack_value h' opt sz res (length ?pre) = Inr (stored opt sz v, extra)" "length bs = sz + extra"
        "extra = (if opt = PString \<or> opt = PZStr then length bs - sz else 0)"
      using unpack_value_pack [OF v(2) True "2.prems"(4) [OF v(1)] so, of ?pre post] "2.prems"(3) post by auto
    have n: "?n = length (?pre @ bs)" using "2.prems"(2) u(2,3) by simp
    have small: "length ?pre + sz + extra < 2 ^ 63" "length ?pre + sz + extra \<le> length res" using "2.prems"(3) post u(2) by auto
    have pos: "size_add n nta = length ?pre" "size_add (length ?pre) sz = length ?pre + sz"
        "size_add (size_add (length ?pre) extra) sz = ?n"
      using "2.prems"(2) small n u(2) by (simp_all add: size_add_def)
    obtain items where i: "unpack_run h' fmt' res ?n (acc @ [stored opt sz v]) =
          Inr ((acc @ [stored opt sz v]) @ map (\<lambda>(opt, sz, v). stored opt sz v) items, length res)"
        "\<forall>i < length items. case items ! i of (opt, sz, v) \<Rightarrow> val opt (arg + 1 + 1 + i) = Inr v"
      using "2.IH"(1) [OF d refl refl refl refl refl True b, of "acc @ [stored opt sz v]", OF r n "2.prems"(3)] "2.prems"(4) by blast
    have "unpack_run h (c # cs) res n acc =
        Inr (acc @ map (\<lambda>(opt, sz, v). stored opt sz v) ((opt, sz, v) # items), length res)"
      using d True u(1) pos small(2) i(1) by (simp add: unpack_run.simps(2) Let_def)
    moreover have "\<forall>i < length ((opt, sz, v) # items). case ((opt, sz, v) # items) ! i of (opt, sz, v) \<Rightarrow> val opt (arg + 1 + i) = Inr v"
      using i(2) v(1) by (auto simp: nth_Cons split: nat.splits)
    ultimately show ?thesis by blast
  next
    case False
    let ?bs = "if opt = PPadding then [CHR 0x00] else []"
    have lb: "length ?bs = sz" using so False by (cases opt) (auto simp: has_value_def)
    have r: "pack_run val h' fmt' (n + (nta + sz)) arg (?pre @ ?bs) = Inr res"
      using "2.prems"(1) d False by (simp add: pack_run.simps(2) Let_def)
    have n: "n + (nta + sz) = length (?pre @ ?bs)" using "2.prems"(2) lb by simp
    have small: "length (?pre @ ?bs) \<le> length res" using pack_run_extends [OF r] by auto
    have pos: "size_add n nta = n + nta" "size_add (n + nta) sz = n + (nta + sz)"
      using "2.prems"(2,3) small lb by (simp_all add: size_add_def)
    have "unpack_run h (c # cs) res n acc = unpack_run h' fmt' res (n + (nta + sz)) acc"
      using d False pos small n [symmetric] by (simp add: unpack_run.simps(2) Let_def)
    then show ?thesis using "2.IH"(2) [OF d refl refl refl refl refl False, of acc, OF r n "2.prems"(3)] "2.prems"(4) by simp
  qed
qed simp

lemma pack_arg_typed: "pack_arg L as opt i = Inr v \<Longrightarrow> typed opt v"
  by (cases opt) (auto simp: pack_arg_def rbind_eq_Inr)


text \<open>A negative 3-byte integer in big-endian order, then an aligned 2-byte one.\<close>

lemma demo_details:
  "getdetails header0 0 (CHR ''>'') ''i3!2<h'' = Inr (PNop, 0, 0, \<lparr>ph_islittle = False, ph_maxalign = Suc 0\<rparr>, ''i3!2<h'')"
  "getdetails \<lparr>ph_islittle = False, ph_maxalign = Suc 0\<rparr> 0 (CHR ''i'') ''3!2<h'' =
     Inr (PInt, 3, 0, \<lparr>ph_islittle = False, ph_maxalign = Suc 0\<rparr>, ''!2<h'')"
  "getdetails \<lparr>ph_islittle = False, ph_maxalign = Suc 0\<rparr> 3 (CHR ''!'') ''2<h'' =
     Inr (PNop, 0, 0, \<lparr>ph_islittle = False, ph_maxalign = 2\<rparr>, ''<h'')"
  "getdetails \<lparr>ph_islittle = False, ph_maxalign = 2\<rparr> 3 (CHR ''<'') ''h'' =
     Inr (PNop, 0, 0, \<lparr>ph_islittle = True, ph_maxalign = 2\<rparr>, ''h'')"
  "getdetails \<lparr>ph_islittle = True, ph_maxalign = 2\<rparr> 3 (CHR ''h'') [] =
     Inr (PInt, 2, 1, \<lparr>ph_islittle = True, ph_maxalign = 2\<rparr>, [])"
  by (simp_all add: getdetails_def getoption_def sized_option_def fixed_options_def header0_def align_bytes_def
      getnumlimit_def getnum_def kMaxIntSize_def native_little_def
      isspace_def isdigit_def pack_maxalign_def)

lemma demo_bytes:
  "packint (- 2) False 3 True = [CHR 0xFF, CHR 0xFF, CHR 0xFE]" "packint 5 True 2 False = [CHR 0x05, CHR 0x00]"
  by (simp_all add: packint_def byte_of_def upt_rec char_of_def bit_0)

lemma demo_pack: "pack_run (pack_arg E0 [VNil, VInt (- 2), VInt 5]) header0 ''>i3!2<h'' 0 1 [] =
    Inr [CHR 0xFF, CHR 0xFF, CHR 0xFE, CHR 0x00, CHR 0x05, CHR 0x00]"
  by (simp add: pack_run.simps demo_details demo_bytes has_value_def pack_arg_def check_int_def
      check_any_def at_arg_def)


end
