(* ===== verification/Lt_Vm.thy ===== *)
theory Lt_Vm
  imports Lt_Arith Lt_GcCycle
begin

text \<open>
  The interpreter loop of \<open>src/vm/interpreter.cpp\<close>: frames, calls, metamethods that run as frames of
  their own, and one definition per instruction. A \<open>CallFrame\<close> is split in two: what the collector
  reads is in the heap of \<open>Lt_Heap\<close>, the rest (\<open>frame_ctl\<close>) is in a list beside it, in the same order.
  \<open>vm_step\<close> is one turn of the loop. \<open>vm_env\<close> holds what the loop takes from outside: C functions,
  debug hooks when one is set, the name of a called function, the nested loop that a C call starts, the
  call of a finalizer, and the sizes of objects. Hotness counting is compiled out, as by default.
\<close>

section \<open>State\<close>

datatype frame_kind = InterpLua | BaselineJit | OptJit | CApi | ContinueFrame | Protected

datatype cont_kind = ContNone | PCall | XPCall | DoFile

record frame_ctl =
  fc_pc :: int
  fc_results :: int
  fc_kind :: frame_kind
  fc_tailcall :: bool
  fc_invoked :: string
  fc_cont :: cont_kind
  fc_cont_ctx :: tvalue
  fc_cont_base :: int
  fc_pending :: bool
  fc_le_invert :: bool
  fc_meta_base :: int
  fc_concat_pos :: int
  fc_concat_last :: int
  fc_concat_dest :: int

definition ctl0 :: frame_ctl where
  "ctl0 = \<lparr>fc_pc = 0, fc_results = 0, fc_kind = InterpLua, fc_tailcall = False, fc_invoked = [], fc_cont = ContNone,
     fc_cont_ctx = VNil, fc_cont_base = 0, fc_pending = False, fc_le_invert = False, fc_meta_base = 0, fc_concat_pos = 0,
     fc_concat_last = 0, fc_concat_dest = 0\<rparr>"

record vm =
  v_g :: gstate
  v_ctl :: "frame_ctl list"
  v_ccalls :: int
  v_nny :: int
  v_yield_pending :: bool
  v_yield_continue :: bool
  v_yield_cont :: cont_kind
  v_yield_ctx :: tvalue
  v_yield_res :: int
  v_yield_vals :: "tvalue list"
  v_yield_func :: int
  v_yield_nresults :: int

datatype hook_event = HookCall | HookTailCall | HookReturn | HookTrace

record vm_env =
  ve_meta :: meta_env
  ve_cfunc :: "ptr \<Rightarrow> vm \<Rightarrow> (int \<times> vm) result"
  ve_hook :: "hook_event \<Rightarrow> vm \<Rightarrow> vm result"
  ve_nested :: "vm \<Rightarrow> (int \<times> vm) result"
  ve_name :: "vm \<Rightarrow> string"
  ve_gc_call :: call_fn
  ve_table_bytes :: int
  ve_closure_bytes :: int
  ve_upval_bytes :: int

definition LUA_OK :: int where "LUA_OK = 0"
definition LUA_YIELD :: int where "LUA_YIELD = 1"
definition MM_PUSHED :: int where "MM_PUSHED = 2"
definition LUA_MULTRET :: int where "LUA_MULTRET = -1"

text \<open>The loop goes on, or it returns a status.\<close>

datatype turn = Next vm | Ret int vm

section \<open>Access\<close>

definition no_thread :: thread where
  "no_thread = \<lparr>th_stack = [], th_frames = [], th_hook = None, th_open = [], th_top = 0, th_version = 0, th_base = 0, th_err_set = False\<rparr>"

definition cur_th :: "gstate \<Rightarrow> thread" where
  "cur_th g = (case g_current g of Some p \<Rightarrow> (case thread_at g p of Some th \<Rightarrow> th | None \<Rightarrow> no_thread) | None \<Rightarrow> no_thread)"

definition on_th :: "(thread \<Rightarrow> thread) \<Rightarrow> vm \<Rightarrow> vm" where
  "on_th f v = v\<lparr>v_g := on_current f (v_g v)\<rparr>"

definition on_g :: "(gstate \<Rightarrow> gstate) \<Rightarrow> vm \<Rightarrow> vm" where
  "on_g f v = v\<lparr>v_g := f (v_g v)\<rparr>"

abbreviation v_th :: "vm \<Rightarrow> thread" where
  "v_th v \<equiv> cur_th (v_g v)"

definition no_proto :: proto where
  "no_proto = \<lparr>p_code = [], p_constants = [], p_protos = [], p_upvalues = [], p_lineinfo = [], p_locvars = [], p_source = [],
     p_linedefined = 0, p_lastlinedefined = 0, p_maxstack = 0, p_numparams = 0, p_is_vararg = False\<rparr>"

definition proto_at :: "gstate \<Rightarrow> ptr \<Rightarrow> proto" where
  "proto_at g p = (case obj_at g p of Some (OProto pr) \<Rightarrow> pr | _ \<Rightarrow> no_proto)"

definition no_closure :: closure where
  "no_closure = \<lparr>cl_is_c = True, cl_proto = None, cl_cfunc = 0, cl_upvals = []\<rparr>"

definition closure_at :: "gstate \<Rightarrow> ptr \<Rightarrow> closure" where
  "closure_at g p = (case obj_at g p of Some (OClosure cl) \<Rightarrow> cl | _ \<Rightarrow> no_closure)"

definition cur_frame :: "vm \<Rightarrow> call_frame" where
  "cur_frame v = last (th_frames (v_th v))"

definition cur_ctl :: "vm \<Rightarrow> frame_ctl" where
  "cur_ctl v = last (v_ctl v)"

definition upd_ctl :: "(frame_ctl \<Rightarrow> frame_ctl) \<Rightarrow> vm \<Rightarrow> vm" where
  "upd_ctl f v = v\<lparr>v_ctl := butlast (v_ctl v) @ [f (last (v_ctl v))]\<rparr>"

definition cur_proto :: "vm \<Rightarrow> proto" where
  "cur_proto v = (case fr_proto (cur_frame v) of Some p \<Rightarrow> proto_at (v_g v) p | None \<Rightarrow> no_proto)"

definition cur_cl :: "vm \<Rightarrow> closure" where
  "cur_cl v = (case fr_cl (cur_frame v) of Some p \<Rightarrow> closure_at (v_g v) p | None \<Rightarrow> no_closure)"

definition fbase :: "vm \<Rightarrow> int" where
  "fbase v = fr_base (cur_frame v)"

definition slot :: "vm \<Rightarrow> int \<Rightarrow> tvalue" where
  "slot v i = th_stack (v_th v) ! nat i"

definition reg :: "vm \<Rightarrow> int \<Rightarrow> tvalue" where
  "reg v r = slot v (fbase v + r)"

definition set_slot :: "int \<Rightarrow> tvalue \<Rightarrow> vm \<Rightarrow> vm" where
  "set_slot i x = on_th (\<lambda>th. th\<lparr>th_stack := (th_stack th)[nat i := x]\<rparr>)"

definition set_reg :: "int \<Rightarrow> tvalue \<Rightarrow> vm \<Rightarrow> vm" where
  "set_reg r x v = set_slot (fbase v + r) x v"

definition put_slots :: "int \<Rightarrow> tvalue list \<Rightarrow> vm \<Rightarrow> vm" where
  "put_slots i xs = on_th (\<lambda>th. th\<lparr>th_stack := put_list (nat i) xs (th_stack th)\<rparr>)"

definition slots :: "vm \<Rightarrow> int \<Rightarrow> int \<Rightarrow> tvalue list" where
  "slots v i n = take (nat n) (drop (nat i) (th_stack (v_th v)))"

text \<open>\<open>for (i = from; i < until; ++i) stack[i] = nil\<close>\<close>

definition nil_slots :: "int \<Rightarrow> int \<Rightarrow> vm \<Rightarrow> vm" where
  "nil_slots a b = on_th (\<lambda>th. th\<lparr>th_stack := nil_range (nat a) (nat b) (th_stack th)\<rparr>)"

definition set_top :: "int \<Rightarrow> vm \<Rightarrow> vm" where
  "set_top n = on_th (\<lambda>th. th\<lparr>th_top := n\<rparr>)"

definition need :: "int \<Rightarrow> vm \<Rightarrow> vm" where
  "need n = on_th (ensure_stack n)"

definition add_pc :: "int \<Rightarrow> vm \<Rightarrow> vm" where
  "add_pc d = upd_ctl (\<lambda>c. c\<lparr>fc_pc := fc_pc c + d\<rparr>)"

definition push_frame :: "call_frame \<Rightarrow> frame_ctl \<Rightarrow> vm \<Rightarrow> vm" where
  "push_frame fr c v = (on_th (\<lambda>th. th\<lparr>th_frames := th_frames th @ [fr]\<rparr>) v)\<lparr>v_ctl := v_ctl v @ [c]\<rparr>"

definition pop_frame :: "vm \<Rightarrow> vm" where
  "pop_frame v = (on_th (\<lambda>th. th\<lparr>th_frames := butlast (th_frames th)\<rparr>) v)\<lparr>v_ctl := butlast (v_ctl v)\<rparr>"

definition nframes :: "vm \<Rightarrow> int" where
  "nframes v = int (length (th_frames (v_th v)))"

text \<open>A hook runs only when one is set.\<close>

definition hook :: "vm_env \<Rightarrow> hook_event \<Rightarrow> vm \<Rightarrow> vm result" where
  "hook E ev v = (if th_hook (v_th v) = None then Inr v else ve_hook E ev v)"

definition reload :: "vm \<Rightarrow> vm" where
  "reload v = need (fbase v + p_maxstack (cur_proto v) + int (length (fr_varargs (cur_frame v))) + 8) v"

definition collect :: "vm_env \<Rightarrow> vm \<Rightarrow> vm result" where
  "collect E v =
     (if \<not> g_stress (v_g v) \<and> g_debt (v_g v) < g_threshold (v_g v) then Inr v
      else case safepoint (ve_gc_call E) (v_g v) of
        (Some msg, _) \<Rightarrow> panic msg
      | (None, g) \<Rightarrow> Inr (reload (v\<lparr>v_g := g\<rparr>)))"

section \<open>Calls\<close>

definition incr_Ccalls :: "vm \<Rightarrow> vm result" where
  "incr_Ccalls v =
     (let n = v_ccalls v + 1 in
      if LUAI_MAXCCALLS \<le> n \<and> n = LUAI_MAXCCALLS then panic ''C stack overflow''
      else if LUAI_MAXCCALLS + LUAI_MAXCCALLS div 8 \<le> n then panic ''error in error handling''
      else Inr (v\<lparr>v_ccalls := n\<rparr>))"

definition decr_Ccalls :: "vm \<Rightarrow> vm" where
  "decr_Ccalls v = (if 0 < v_ccalls v then v\<lparr>v_ccalls := v_ccalls v - 1\<rparr> else v)"

definition push_lua_frame :: "vm_env \<Rightarrow> ptr \<Rightarrow> int \<Rightarrow> int \<Rightarrow> int \<Rightarrow> bool \<Rightarrow> vm \<Rightarrow> vm result" where
  "push_lua_frame E cl func_idx nargs nresults is_tailcall v =
     (if 100000 < nframes v then panic ''stack overflow''
      else
        let pp = cl_proto (closure_at (v_g v) cl);
            p = (case pp of Some q \<Rightarrow> proto_at (v_g v) q | None \<Rightarrow> no_proto);
            nfixed = p_numparams p;
            nvar = (if p_is_vararg p \<and> nfixed < nargs then nargs - nfixed else 0);
            varargs = slots v (func_idx + 1 + nfixed) nvar;
            params = map (\<lambda>i. if int i < nargs then slot v (func_idx + 1 + int i) else VNil) [0..<nat nfixed];
            want = max (p_maxstack p) nfixed;
            v1 = nil_slots (func_idx + nfixed) (func_idx + want) (need (func_idx + want + 8) (put_slots func_idx params v));
            fr = \<lparr>fr_cl = Some cl, fr_proto = pp, fr_base = func_idx, fr_varargs = varargs, fr_finalizer = False\<rparr>
        in hook E (if is_tailcall then HookTailCall else HookCall)
             (push_frame fr (ctl0\<lparr>fc_results := nresults, fc_tailcall := is_tailcall\<rparr>) (set_top (func_idx + want) v1)))"

text \<open>The values a C function returned go to the call slot; what it left above is cleared.\<close>

definition place_c_results :: "int \<Rightarrow> int \<Rightarrow> int \<Rightarrow> int \<Rightarrow> int \<Rightarrow> int \<Rightarrow> vm \<Rightarrow> vm" where
  "place_c_results func_idx nargs nresults nret res_abs prev_top v =
     (let want = max 0 (if nresults = LUA_MULTRET then nret else nresults);
          v1 = need (func_idx + want + 8) v;
          v2 = (if 0 < nret \<and> res_abs \<noteq> func_idx then put_slots func_idx (slots v1 res_abs nret) v1 else v1);
          v3 = nil_slots (func_idx + nret) (func_idx + want) v2;
          v4 = nil_slots (func_idx + want) (max prev_top (func_idx + 1 + nargs)) v3
      in set_top (func_idx + want) v4)"

text \<open>A yield across a C frame: the frame stays, as a continuation when the function asked for one.\<close>

definition own_frame :: "ptr \<Rightarrow> int \<Rightarrow> call_frame \<times> frame_ctl \<Rightarrow> bool" where
  "own_frame cl func_idx frc \<longleftrightarrow> fr_cl (fst frc) = Some cl \<and> fc_kind (snd frc) = CApi \<and> fr_base (fst frc) = func_idx"

definition yield_continuation :: "ptr \<Rightarrow> int \<Rightarrow> int \<Rightarrow> vm \<Rightarrow> (int \<times> vm) result" where
  "yield_continuation cl func_idx nresults v =
     (case find (\<lambda>i. own_frame cl func_idx (th_frames (v_th v) ! i, v_ctl v ! i)) (rev [0..<length (th_frames (v_th v))]) of
        None \<Rightarrow> panic ''yieldable C: missing frame''
      | Some i \<Rightarrow>
          Inr (LUA_YIELD,
            v\<lparr>v_ctl := (v_ctl v)[i := (v_ctl v ! i)\<lparr>fc_kind := ContinueFrame, fc_cont := v_yield_cont v,
                  fc_cont_ctx := v_yield_ctx v, fc_cont_base := v_yield_res v, fc_results := nresults\<rparr>],
              v_yield_continue := False, v_yield_cont := ContNone, v_yield_ctx := VNil, v_yield_res := 0,
              v_yield_pending := False\<rparr>))"

definition yield_values :: "int \<Rightarrow> int \<Rightarrow> int \<Rightarrow> int \<Rightarrow> vm \<Rightarrow> vm" where
  "yield_values func_idx nresults nret res_abs v =
     (let v1 = v\<lparr>v_yield_vals := slots v res_abs nret, v_yield_func := func_idx, v_yield_nresults := nresults\<rparr>
      in (set_top func_idx (need (func_idx + 8) v1))\<lparr>v_yield_pending := False, v_nny := v_nny v - 1\<rparr>)"

definition after_c_call :: "vm_env \<Rightarrow> ptr \<Rightarrow> int \<Rightarrow> int \<Rightarrow> int \<Rightarrow> int \<Rightarrow> int \<Rightarrow> int \<Rightarrow> vm \<Rightarrow> (int \<times> vm) result" where
  "after_c_call E cl func_idx nargs nresults prev_base prev_top nret0 v =
     (let ctop = gettop (v_th v);
          nret = min (max 0 nret0) ctop;
          res_abs = th_base (v_th v) + (ctop - nret);
          back = on_th (\<lambda>th. th\<lparr>th_base := prev_base\<rparr>)
      in if v_yield_pending v then
           (if v_yield_continue v then yield_continuation cl func_idx nresults (back v)
            else Inr (LUA_YIELD, yield_values func_idx nresults nret res_abs (back v)))
         else
           rbind (hook E HookReturn (v\<lparr>v_nny := v_nny v - 1\<rparr>)) (\<lambda>v1.
             Inr (LUA_OK, place_c_results func_idx nargs nresults nret res_abs prev_top (back (pop_frame v1)))))"

definition run_c_call :: "vm_env \<Rightarrow> ptr \<Rightarrow> int \<Rightarrow> int \<Rightarrow> int \<Rightarrow> bool \<Rightarrow> string \<Rightarrow> vm \<Rightarrow> (int \<times> vm) result" where
  "run_c_call E cl func_idx nargs nresults is_tailcall invoked v =
     (if func_idx < 0 \<or> nargs < 0 then panic ''run_c_call: bad func_idx/nargs''
      else if int (length (th_stack (v_th v))) < func_idx + 1 + nargs then panic ''run_c_call: stack underflow''
      else
        rbind (incr_Ccalls v) (\<lambda>v1.
        let fr = \<lparr>fr_cl = Some cl, fr_proto = None, fr_base = func_idx, fr_varargs = [], fr_finalizer = False\<rparr>;
            c = ctl0\<lparr>fc_kind := CApi, fc_tailcall := is_tailcall, fc_invoked := invoked\<rparr>
        in rbind (hook E (if is_tailcall then HookTailCall else HookCall) (push_frame fr c v1)) (\<lambda>v2.
           let prev_base = th_base (v_th v2); prev_top = th_top (v_th v2);
               v3 = (on_th (\<lambda>th. th\<lparr>th_base := func_idx + 1, th_top := func_idx + 1 + nargs\<rparr>) v2)
                      \<lparr>v_yield_pending := False, v_nny := v_nny v2 + 1\<rparr>
           in rbind (ve_cfunc E (cl_cfunc (closure_at (v_g v3) cl)) v3) (\<lambda>(nret, v4).
              rbind (after_c_call E cl func_idx nargs nresults prev_base prev_top nret v4) (\<lambda>(st, v5).
                Inr (st, decr_Ccalls v5))))))"

text \<open>\<open>call_closure\<close>: the nested loop of a Lua function is the parameter \<open>ve_nested\<close>.\<close>

definition call_closure :: "vm_env \<Rightarrow> ptr \<Rightarrow> int \<Rightarrow> int \<Rightarrow> vm \<Rightarrow> (int \<times> vm) result" where
  "call_closure E cl nargs nresults v =
     (let func_idx = th_top (v_th v) - nargs - 1 in
      if func_idx < 0 then panic ''call_closure stack underflow''
      else if cl_is_c (closure_at (v_g v) cl) then run_c_call E cl func_idx nargs nresults False [] v
      else
        rbind (incr_Ccalls v) (\<lambda>v1.
        rbind (push_lua_frame E cl func_idx nargs nresults False v1) (\<lambda>v2.
        rbind (ve_nested E v2) (\<lambda>(st, v3). Inr (st, decr_Ccalls v3)))))"

text \<open>A metamethod called from an instruction: a C function is run, a Lua function gets a frame and the
  instruction is finished when it returns.\<close>

definition invoke_mm :: "vm_env \<Rightarrow> ptr \<Rightarrow> tvalue list \<Rightarrow> int \<Rightarrow> vm \<Rightarrow> (int \<times> vm) result" where
  "invoke_mm E mm as nout v =
     (let nargs = int (length as);
          call_base = live_stack_top (obj_at (v_g v)) (v_th v);
          v1 = set_top (call_base + 1 + nargs)
                 (put_slots call_base (VFunction mm # as) (need (call_base + 1 + nargs + nout + 8) v));
          v2 = upd_ctl (\<lambda>c. c\<lparr>fc_pending := True, fc_meta_base := call_base\<rparr>) v1
      in if cl_is_c (closure_at (v_g v2) mm) then run_c_call E mm call_base nargs nout False [] v2
         else rbind (push_lua_frame E mm call_base nargs nout False v2) (\<lambda>v3. Inr (MM_PUSHED, v3)))"
section \<open>Finishing an instruction after its metamethod\<close>

definition metamethod :: "tvalue \<Rightarrow> nat \<Rightarrow> vm \<Rightarrow> tvalue \<times> vm" where
  "metamethod x e v = (let (mm, g) = get_metamethod (v_g v) x e in (mm, v\<lparr>v_g := g\<rparr>))"

definition metamethod2 :: "tvalue \<Rightarrow> tvalue \<Rightarrow> nat \<Rightarrow> vm \<Rightarrow> tvalue \<times> vm" where
  "metamethod2 x y e v = (let (mm, g) = binary_mm (v_g v) x y e in (mm, v\<lparr>v_g := g\<rparr>))"

definition concat_error :: "vm_env \<Rightarrow> tvalue \<Rightarrow> tvalue \<Rightarrow> int \<Rightarrow> vm \<Rightarrow> 'a result" where
  "concat_error E acc rhs pos v =
     runerror (ve_meta E) (v_g v)
       (''attempt to concatenate a '' @ me_type_name (ve_meta E) (v_g v) (if \<not> stringish acc then acc else rhs) @ '' value'' @
        me_varinfo (ve_meta E) (v_g v) pos)"

text \<open>The \<open>n\<close> registers from \<open>pos\<close> on are appended to \<open>acc\<close>, and the result goes to \<open>dest\<close>.\<close>

fun concat_fold :: "vm_env \<Rightarrow> nat \<Rightarrow> int \<Rightarrow> int \<Rightarrow> int \<Rightarrow> tvalue \<Rightarrow> vm \<Rightarrow> (int \<times> vm) result" where
  "concat_fold E 0 pos last_reg dest acc v = Inr (LUA_OK, set_reg dest acc v)"
| "concat_fold E (Suc n) pos last_reg dest acc v =
     (let rhs = reg v pos in
      if stringish acc \<and> stringish rhs then
        (let (p, g) = intern (ve_meta E) (to_text (ve_meta E) (v_g v) acc @ to_text (ve_meta E) (v_g v) rhs) (v_g v)
         in concat_fold E n (pos + 1) last_reg dest (VString p) (v\<lparr>v_g := g\<rparr>))
      else
        let (mm, v1) = metamethod2 acc rhs TM_CONCAT v in
        case mm of
          VFunction fn \<Rightarrow>
            rbind (invoke_mm E fn [acc, rhs] 1
                (upd_ctl (\<lambda>c. c\<lparr>fc_concat_pos := pos, fc_concat_last := last_reg, fc_concat_dest := dest\<rparr>) v1)) (\<lambda>(st, v2).
              if st = LUA_OK then
                concat_fold E n (pos + 1) last_reg dest (slot v2 (fc_meta_base (cur_ctl v2))) (upd_ctl (\<lambda>c. c\<lparr>fc_pending := False\<rparr>) v2)
              else Inr (if st = LUA_YIELD then LUA_YIELD else LUA_OK, v2))
        | _ \<Rightarrow> concat_error E acc rhs pos v1)"

definition cond_skip :: "int \<Rightarrow> bool \<Rightarrow> vm \<Rightarrow> vm" where
  "cond_skip a r v = (if r \<noteq> (a \<noteq> 0) then add_pc 1 v else v)"

definition writes_result :: "opcode \<Rightarrow> bool" where
  "writes_result op \<longleftrightarrow> arith_mt op \<noteq> None \<or>
     op \<in> {OP_UNM, OP_BNOT, OP_LEN, OP_GETTABLE, OP_GETI, OP_GETFIELD, OP_GETTABUP, OP_SELF}"

definition finish_interrupted_op :: "vm_env \<Rightarrow> vm \<Rightarrow> (int \<times> vm) result" where
  "finish_interrupted_op E v =
     (let ct = cur_ctl v; code = p_code (cur_proto v); opc = fc_pc ct - 1; v1 = upd_ctl (\<lambda>c. c\<lparr>fc_pending := False\<rparr>) v in
      if \<not> fc_pending ct \<or> fr_proto (cur_frame v) = None then Inr (LUA_OK, v)
      else if opc < 0 \<or> int (length code) \<le> opc then panic ''finish_interrupted_op: bad pc''
      else
        let ins = code ! nat opc; a = uint (op_a ins); res = slot v (fc_meta_base ct) in
        case opcode_of (op_get ins) of
          None \<Rightarrow> panic ''finish_interrupted_op: unexpected opcode''
        | Some op \<Rightarrow>
            if op \<in> {OP_EQ, OP_LT, OP_LE} then
              Inr (LUA_OK, cond_skip a (is_truthy res \<noteq> fc_le_invert ct) (upd_ctl (\<lambda>c. c\<lparr>fc_le_invert := False\<rparr>) v1))
            else if writes_result op then Inr (LUA_OK, set_reg a res v1)
            else if op \<in> {OP_SETTABLE, OP_SETI, OP_SETFIELD, OP_SETTABUP} then Inr (LUA_OK, v1)
            else if op = OP_CONCAT then
              concat_fold E (nat (fc_concat_last ct - fc_concat_pos ct)) (fc_concat_pos ct + 1) (fc_concat_last ct) (fc_concat_dest ct) res v1
            else panic ''finish_interrupted_op: unexpected opcode'')"

definition finish_now :: "vm_env \<Rightarrow> vm \<Rightarrow> turn result" where
  "finish_now E v = rbind (finish_interrupted_op E v) (\<lambda>(st, v1). Inr (if st = LUA_YIELD then Ret LUA_YIELD v1 else Next v1))"

definition after_mm :: "vm_env \<Rightarrow> int \<times> vm \<Rightarrow> turn result" where
  "after_mm E sv =
     (let (st, v) = sv in
      if st = LUA_YIELD then Inr (Ret LUA_YIELD v) else if st = MM_PUSHED then Inr (Next v) else finish_now E v)"

section \<open>Tables\<close>

fun index_yieldable :: "vm_env \<Rightarrow> nat \<Rightarrow> tvalue \<Rightarrow> tvalue \<Rightarrow> vm \<Rightarrow> (int \<times> tvalue \<times> vm) result" where
  "index_yieldable E 0 t key v = panic ([CHR 0x27] @ ''__index'' @ [CHR 0x27] @ '' chain too long; possible loop'')"
| "index_yieldable E (Suc n) t key v =
     (if is_table t \<and> \<not> is_nil (raw_index (v_g v) t key) then Inr (LUA_OK, raw_index (v_g v) t key, v)
      else let (mm, v1) = metamethod t TM_INDEX v in
        if is_nil mm then (if is_table t then Inr (LUA_OK, VNil, v1) else typeerror (ve_meta E) (v_g v1) t (- 1) ''index'')
        else case mm of
          VFunction fn \<Rightarrow> rbind (invoke_mm E fn [t, key] 1 v1) (\<lambda>(st, v2). Inr (st, VNil, v2))
        | _ \<Rightarrow> index_yieldable E n mm key v1)"

definition vm_store :: "tvalue \<Rightarrow> tvalue \<Rightarrow> tvalue \<Rightarrow> vm \<Rightarrow> vm result" where
  "vm_store t key x v = rbind (store_at t key x (v_g v)) (\<lambda>g. Inr (v\<lparr>v_g := g\<rparr>))"

fun newindex_yieldable :: "vm_env \<Rightarrow> nat \<Rightarrow> tvalue \<Rightarrow> tvalue \<Rightarrow> tvalue \<Rightarrow> vm \<Rightarrow> (int \<times> vm) result" where
  "newindex_yieldable E 0 t key x v = panic ([CHR 0x27] @ ''__newindex'' @ [CHR 0x27] @ '' chain too long; possible loop'')"
| "newindex_yieldable E (Suc n) t key x v =
     (if is_table t \<and> \<not> is_nil (raw_index (v_g v) t key) then rbind (vm_store t key x v) (\<lambda>v1. Inr (LUA_OK, v1))
      else let (mm, v1) = metamethod t TM_NEWINDEX v in
        if is_nil mm then
          (if is_table t then rbind (vm_store t key x v1) (\<lambda>v2. Inr (LUA_OK, v2)) else typeerror (ve_meta E) (v_g v1) t (- 1) ''index'')
        else case mm of
          VFunction fn \<Rightarrow> invoke_mm E fn [t, key, x] 0 v1
        | _ \<Rightarrow> newindex_yieldable E n mm key x v1)"

text \<open>\<open>Table::get_int\<close> and \<open>Table::set_int\<close> on a table object.\<close>

definition raw_index_int :: "gstate \<Rightarrow> tvalue \<Rightarrow> u64 \<Rightarrow> tvalue" where
  "raw_index_int g t i =
     (case t of VTable p \<Rightarrow> (case table_at g p of Some tb \<Rightarrow> table_get_int (g_strs g) tb i | None \<Rightarrow> VNil) | _ \<Rightarrow> VNil)"

definition store_int :: "tvalue \<Rightarrow> u64 \<Rightarrow> tvalue \<Rightarrow> vm \<Rightarrow> vm result" where
  "store_int t i x v =
     (case t of
        VTable p \<Rightarrow>
          (case table_at (v_g v) p of
             None \<Rightarrow> Inr v
           | Some tb \<Rightarrow>
               rbind (table_set_int (g_strs (v_g v)) tb i x) (\<lambda>(tb', bs).
                 Inr (v\<lparr>v_g := foldl (\<lambda>g b. barrier p b g) (set_obj p (OTable tb') (v_g v)) bs\<rparr>)))
      | _ \<Rightarrow> Inr v)"

text \<open>Reading: a value that is there, or none and no metamethod, needs no more.\<close>

definition finish_get :: "vm_env \<Rightarrow> int \<Rightarrow> int \<times> tvalue \<times> vm \<Rightarrow> turn result" where
  "finish_get E a r =
     (let (st, out, v) = r in
      if st = LUA_YIELD then Inr (Ret LUA_YIELD v)
      else if st = MM_PUSHED then Inr (Next v)
      else if fc_pending (cur_ctl v) then finish_now E v
      else Inr (Next (set_reg a out (reload v))))"

definition get_op :: "vm_env \<Rightarrow> int \<Rightarrow> tvalue \<Rightarrow> tvalue \<Rightarrow> tvalue \<Rightarrow> vm \<Rightarrow> turn result" where
  "get_op E a t found key v =
     (if is_table t \<and> \<not> is_nil found then Inr (Next (set_reg a found v))
      else if is_table t \<and> is_nil (fst (metamethod t TM_INDEX v)) then Inr (Next (set_reg a VNil (snd (metamethod t TM_INDEX v))))
      else rbind (index_yieldable E kMaxTagLoop t key (if is_table t then snd (metamethod t TM_INDEX v) else v)) (finish_get E a))"

definition set_op :: "vm_env \<Rightarrow> tvalue \<Rightarrow> tvalue \<Rightarrow> tvalue \<Rightarrow> tvalue \<Rightarrow> (vm \<Rightarrow> vm result) \<Rightarrow> vm \<Rightarrow> turn result" where
  "set_op E t found key x store v =
     (if is_table t \<and> \<not> is_nil found then rbind (store v) (\<lambda>v1. Inr (Next v1))
      else if is_table t \<and> is_nil (fst (metamethod t TM_NEWINDEX v)) then
        rbind (store (snd (metamethod t TM_NEWINDEX v))) (\<lambda>v1. Inr (Next v1))
      else rbind (newindex_yieldable E kMaxTagLoop t key x (if is_table t then snd (metamethod t TM_NEWINDEX v) else v)) (\<lambda>(st, v1).
        if st = LUA_YIELD then Inr (Ret LUA_YIELD v1)
        else if st = MM_PUSHED then Inr (Next v1)
        else if fc_pending (cur_ctl v1) then finish_now E v1
        else Inr (Next (reload v1))))"

text \<open>The value of upvalue \<open>i\<close> of the running closure, when there is one.\<close>

definition upvalue :: "int \<Rightarrow> vm \<Rightarrow> tvalue option" where
  "upvalue i v =
     (let us = cl_upvals (cur_cl v) in
      if int (length us) \<le> i then None
      else case us ! nat i of
        None \<Rightarrow> None
      | Some u \<Rightarrow> (case upval_at (v_g v) u of Some uv \<Rightarrow> Some (uv_get (obj_at (v_g v)) uv) | None \<Rightarrow> None))"

definition const_at :: "int \<Rightarrow> vm \<Rightarrow> tvalue" where
  "const_at i v = p_constants (cur_proto v) ! nat i"

definition op_getupval :: "int \<Rightarrow> int \<Rightarrow> vm \<Rightarrow> turn result" where
  "op_getupval a b v = (case upvalue b v of None \<Rightarrow> panic ''GETUPVAL: bad upvalue'' | Some x \<Rightarrow> Inr (Next (set_reg a x v)))"

definition op_setupval :: "int \<Rightarrow> int \<Rightarrow> vm \<Rightarrow> turn result" where
  "op_setupval a b v =
     (let us = cl_upvals (cur_cl v) in
      if int (length us) \<le> b then panic ''SETUPVAL: bad upvalue''
      else case us ! nat b of
        None \<Rightarrow> panic ''SETUPVAL: bad upvalue''
      | Some u \<Rightarrow> Inr (Next (on_g (uv_set u (reg v a)) v)))"

definition op_gettabup :: "vm_env \<Rightarrow> int \<Rightarrow> int \<Rightarrow> int \<Rightarrow> vm \<Rightarrow> turn result" where
  "op_gettabup E a b c v =
     (case upvalue b v of
        None \<Rightarrow> panic ''GETTABUP: bad upvalue''
      | Some t \<Rightarrow>
          if int (length (p_constants (cur_proto v))) \<le> c then panic ''GETTABUP: bad constant''
          else get_op E a t (raw_index (v_g v) t (const_at c v)) (const_at c v) v)"

text \<open>\<open>SETTABUP\<close> does not check its operands; a missing upvalue is undefined there.\<close>

definition op_settabup :: "vm_env \<Rightarrow> int \<Rightarrow> int \<Rightarrow> int \<Rightarrow> vm \<Rightarrow> turn result" where
  "op_settabup E a b c v =
     (let t = (case upvalue a v of Some x \<Rightarrow> x | None \<Rightarrow> VNil); key = const_at b v
      in set_op E t (raw_index (v_g v) t key) key (reg v c) (vm_store t key (reg v c)) v)"

definition op_gettable :: "vm_env \<Rightarrow> int \<Rightarrow> tvalue \<Rightarrow> tvalue \<Rightarrow> vm \<Rightarrow> turn result" where
  "op_gettable E a t key v = get_op E a t (raw_index (v_g v) t key) key v"

definition op_settable :: "vm_env \<Rightarrow> tvalue \<Rightarrow> tvalue \<Rightarrow> tvalue \<Rightarrow> vm \<Rightarrow> turn result" where
  "op_settable E t key x v = set_op E t (raw_index (v_g v) t key) key x (vm_store t key x) v"

definition op_geti :: "vm_env \<Rightarrow> int \<Rightarrow> int \<Rightarrow> int \<Rightarrow> vm \<Rightarrow> turn result" where
  "op_geti E a b c v = get_op E a (reg v b) (raw_index_int (v_g v) (reg v b) (word_of_int c)) (VInt (word_of_int c)) v"

definition op_seti :: "vm_env \<Rightarrow> int \<Rightarrow> int \<Rightarrow> int \<Rightarrow> vm \<Rightarrow> turn result" where
  "op_seti E a b c v =
     set_op E (reg v a) (raw_index_int (v_g v) (reg v a) (word_of_int b)) (VInt (word_of_int b)) (reg v c)
       (store_int (reg v a) (word_of_int b) (reg v c)) v"

definition op_newtable :: "vm_env \<Rightarrow> int \<Rightarrow> int \<Rightarrow> int \<Rightarrow> vm \<Rightarrow> turn result" where
  "op_newtable E a b c v =
     (let p = me_alloc (ve_meta E) (v_g v);
          t = table_new (if b \<noteq> 0 then 2 ^ nat b else 0) (if c \<noteq> 0 then 2 ^ nat c else 0);
          v1 = on_g (gc_link p (OTable t) (ve_table_bytes E)) v
      in rbind (collect E (set_reg a (VTable p) v1)) (\<lambda>v2. Inr (Next v2)))"

definition op_self :: "vm_env \<Rightarrow> int \<Rightarrow> int \<Rightarrow> int \<Rightarrow> vm \<Rightarrow> turn result" where
  "op_self E a b c v =
     (let t = reg v b; key = reg v c in
      rbind (index_yieldable E kMaxTagLoop t key (set_reg (a + 1) t v)) (\<lambda>(st, m, v1).
        if st = LUA_YIELD then Inr (Ret LUA_YIELD v1)
        else if st = MM_PUSHED then Inr (Next v1)
        else if fc_pending (cur_ctl v1) then
          rbind (finish_interrupted_op E v1) (\<lambda>(st2, v2).
            Inr (if st2 = LUA_YIELD then Ret LUA_YIELD v2 else Next (set_reg (a + 1) t (reload v2))))
        else Inr (Next (set_reg a m (set_reg (a + 1) t (reload v1))))))"
section \<open>Operators\<close>

definition op_arith :: "vm_env \<Rightarrow> opcode \<Rightarrow> int \<Rightarrow> int \<Rightarrow> int \<Rightarrow> vm \<Rightarrow> turn result" where
  "op_arith E op a b c v =
     (let M = ve_meta E; g = v_g v; lhs = reg v b; rhs = reg v c in
      rbind (try_arith_numbers M g op lhs rhs) (\<lambda>out.
        case out of
          Some x \<Rightarrow> Inr (Next (set_reg a x v))
        | None \<Rightarrow>
            if is_number lhs \<and> is_number rhs then rbind (arith_raw M g op lhs rhs b c) (\<lambda>x. Inr (Next (set_reg a x v)))
            else case (as_number M g lhs, as_number M g rhs) of
              (Some na, Some nb) \<Rightarrow> rbind (arith_raw M g op na nb b c) (\<lambda>x. Inr (Next (set_reg a x v)))
            | _ \<Rightarrow>
                let (mm, v1) = (case arith_mt op of Some e \<Rightarrow> metamethod2 lhs rhs e v | None \<Rightarrow> (VNil, v)) in
                case mm of
                  VFunction fn \<Rightarrow> rbind (invoke_mm E fn [lhs, rhs] 1 v1) (after_mm E)
                | _ \<Rightarrow> rbind (do_arith M op lhs rhs b c (v_g v1)) (\<lambda>(_, g1). Inr (Next (v1\<lparr>v_g := g1\<rparr>)))))"

definition TM_UNM :: nat where "TM_UNM = 18"
definition TM_BNOT :: nat where "TM_BNOT = 19"

definition op_unm :: "vm_env \<Rightarrow> int \<Rightarrow> int \<Rightarrow> vm \<Rightarrow> turn result" where
  "op_unm E a b v =
     (let M = ve_meta E; vb = reg v b;
          neg = (\<lambda>x. case x of VInt n \<Rightarrow> VInt (intop_unm n) | VFloat d \<Rightarrow> VFloat (f_neg d) | _ \<Rightarrow> x) in
      if is_number vb then Inr (Next (set_reg a (neg vb) v))
      else case as_number M (v_g v) vb of
        Some nb \<Rightarrow> Inr (Next (set_reg a (neg nb) v))
      | None \<Rightarrow>
          let (mm, v1) = metamethod vb TM_UNM v in
          case mm of
            VFunction fn \<Rightarrow> rbind (invoke_mm E fn [vb] 1 v1) (after_mm E)
          | _ \<Rightarrow> opinterror M (v_g v1) vb b ''attempt to perform arithmetic on a '')"

definition op_bnot :: "vm_env \<Rightarrow> int \<Rightarrow> int \<Rightarrow> vm \<Rightarrow> turn result" where
  "op_bnot E a b v =
     (let M = ve_meta E; vb = reg v b in
      case to_integer vb of
        Some x \<Rightarrow> Inr (Next (set_reg a (VInt (NOT x)) v))
      | None \<Rightarrow>
          let (mm, v1) = metamethod vb TM_BNOT v in
          case mm of
            VFunction fn \<Rightarrow> rbind (invoke_mm E fn [vb] 1 v1) (after_mm E)
          | _ \<Rightarrow>
              if \<not> is_number vb then opinterror M (v_g v1) vb b ''attempt to perform bitwise operation on a ''
              else tointerror M (v_g v1) b)"

definition op_len :: "vm_env \<Rightarrow> int \<Rightarrow> int \<Rightarrow> vm \<Rightarrow> turn result" where
  "op_len E a b v =
     (let M = ve_meta E; vb = reg v b;
          general = (\<lambda>v1. rbind (meta_len M vb (v_g v1)) (\<lambda>(out, g). Inr (Next (set_reg a out (reload (v1\<lparr>v_g := g\<rparr>)))))) in
      case vb of
        VString p \<Rightarrow> Inr (Next (set_reg a (VInt (of_nat (length (str_of (v_g v) vb)))) v))
      | VTable p \<Rightarrow>
          (let (mm, v1) = metamethod vb TM_LEN v in
           case mm of
             VNil \<Rightarrow>
               (case table_at (v_g v1) p of
                  Some t \<Rightarrow> Inr (Next (set_reg a (VInt (of_nat (table_length (g_strs (v_g v1)) t))) v1))
                | None \<Rightarrow> Inr (Next (set_reg a (VInt 0) v1)))
           | VFunction fn \<Rightarrow> rbind (invoke_mm E fn [vb] 1 v1) (after_mm E)
           | _ \<Rightarrow> general v1)
      | _ \<Rightarrow> general v)"

definition op_concat :: "vm_env \<Rightarrow> int \<Rightarrow> int \<Rightarrow> int \<Rightarrow> vm \<Rightarrow> turn result" where
  "op_concat E a b c v =
     (let M = ve_meta E; v0 = upd_ctl (\<lambda>ct. ct\<lparr>fc_concat_pos := b, fc_concat_last := c, fc_concat_dest := a\<rparr>) v;
          vals = map (\<lambda>i. reg v0 (b + int i)) [0..<nat (c + 1 - b)] in
      if list_all stringish vals then
        (let (p, g) = intern M (concat (map (to_text M (v_g v0)) vals)) (v_g v0) in Inr (Next (set_reg a (VString p) (v0\<lparr>v_g := g\<rparr>))))
      else rbind (concat_fold E (nat (c - b)) (b + 1) c a (reg v0 b) v0) (\<lambda>(st, v1).
        Inr (if st = LUA_YIELD then Ret LUA_YIELD v1 else Next v1)))"

definition op_eq :: "vm_env \<Rightarrow> int \<Rightarrow> int \<Rightarrow> int \<Rightarrow> vm \<Rightarrow> turn result" where
  "op_eq E a b c v =
     (let rb = reg v b; rc = reg v c in
      if tag_of rb \<noteq> tag_of rc \<and> \<not> (is_number rb \<and> is_number rc) then Inr (Next (cond_skip a False v))
      else if has_eq_mm rb then
        (if payload_of rb = payload_of rc then Inr (Next (cond_skip a True v))
         else let (mm, v1) = metamethod2 rb rc TM_EQ v in
           case mm of
             VFunction fn \<Rightarrow> rbind (invoke_mm E fn [rb, rc] 1 v1) (after_mm E)
           | _ \<Rightarrow> Inr (Next (cond_skip a False v1)))
      else Inr (Next (cond_skip a (values_equal rb rc) v)))"

definition op_lt :: "vm_env \<Rightarrow> int \<Rightarrow> int \<Rightarrow> int \<Rightarrow> vm \<Rightarrow> turn result" where
  "op_lt E a b c v =
     (let M = ve_meta E; rb = reg v b; rc = reg v c in
      if is_number rb \<and> is_number rc then Inr (Next (cond_skip a (number_lt rb rc) v))
      else if is_string rb \<and> is_string rc then
        rbind (meta_lt M rb rc (v_g v)) (\<lambda>(lt, g). Inr (Next (cond_skip a lt (v\<lparr>v_g := g\<rparr>))))
      else let (mm, v1) = metamethod2 rb rc TM_LT v in
        case mm of
          VFunction fn \<Rightarrow> rbind (invoke_mm E fn [rb, rc] 1 (upd_ctl (\<lambda>ct. ct\<lparr>fc_le_invert := False\<rparr>) v1)) (after_mm E)
        | _ \<Rightarrow> compareerror M (v_g v1) rb rc)"

definition op_le :: "vm_env \<Rightarrow> int \<Rightarrow> int \<Rightarrow> int \<Rightarrow> vm \<Rightarrow> turn result" where
  "op_le E a b c v =
     (let M = ve_meta E; rb = reg v b; rc = reg v c in
      if is_number rb \<and> is_number rc then Inr (Next (cond_skip a (number_le rb rc) v))
      else if is_string rb \<and> is_string rc then
        rbind (meta_le M rb rc (v_g v)) (\<lambda>(le, g). Inr (Next (cond_skip a le (v\<lparr>v_g := g\<rparr>))))
      else let (mm, v1) = metamethod2 rb rc TM_LE v in
        case mm of
          VFunction fn \<Rightarrow> rbind (invoke_mm E fn [rb, rc] 1 (upd_ctl (\<lambda>ct. ct\<lparr>fc_le_invert := False\<rparr>) v1)) (after_mm E)
        | _ \<Rightarrow>
            let (mm2, v2) = metamethod2 rc rb TM_LT v1 in
            case mm2 of
              VFunction fn \<Rightarrow> rbind (invoke_mm E fn [rc, rb] 1 (upd_ctl (\<lambda>ct. ct\<lparr>fc_le_invert := True\<rparr>) v2)) (after_mm E)
            | _ \<Rightarrow> compareerror M (v_g v2) rb rc)"

section \<open>Jumps and loops\<close>

definition op_jmp :: "vm_env \<Rightarrow> int \<Rightarrow> int \<Rightarrow> vm \<Rightarrow> turn result" where
  "op_jmp E a sbx v =
     (let v1 = (if a \<noteq> 0 then (case g_current (v_g v) of Some tp \<Rightarrow> on_g (close_upvals tp (fbase v + (a - 1))) v | None \<Rightarrow> v) else v)
      in rbind (collect E (add_pc sbx v1)) (\<lambda>v2. Inr (Next v2)))"

definition f_ceil :: "f64 \<Rightarrow> f64" where
  "f_ceil d = f_neg (f_floor (f_neg d))"

text \<open>The bound of a loop as an integer: rounded down (mode 1), up (mode 2) or exact (mode 0). The test
  against \<open>(double)INT64_MAX\<close>, which is 2 to the 63, lets that value through to the conversion.\<close>

definition tointeger_mode :: "meta_env \<Rightarrow> gstate \<Rightarrow> tvalue \<Rightarrow> nat \<Rightarrow> u64 option" where
  "tointeger_mode M g obj mode =
     (case as_number M g obj of
        None \<Rightarrow> None
      | Some n \<Rightarrow>
          (case n of
             VInt i \<Rightarrow> if mode \<noteq> 0 then Some i else (let j = f64_to_i64 (num_of n) in if f_eq (i64_to_f64 j) (num_of n) then Some j else None)
           | _ \<Rightarrow>
               (let d = (if mode = 1 then f_floor (num_of n) else if mode = 2 then f_ceil (num_of n) else num_of n) in
                if isnan d \<or> f_lt d kMin \<or> f_lt kSup d then None
                else if mode = 0 \<and> \<not> f_eq (i64_to_f64 (f64_to_i64 d)) d then None
                else Some (f64_to_i64 d))))"

definition forlimit :: "meta_env \<Rightarrow> gstate \<Rightarrow> tvalue \<Rightarrow> u64 \<Rightarrow> (u64 \<times> bool) option" where
  "forlimit M g obj step =
     (case tointeger_mode M g obj (if step <s 0 then 2 else 1) of
        Some p \<Rightarrow> Some (p, False)
      | None \<Rightarrow>
          (case as_number M g obj of
             None \<Rightarrow> None
           | Some n \<Rightarrow>
               if f_lt 0 (num_of n) then Some (0x7FFFFFFFFFFFFFFF, step <s 0) else Some (0x8000000000000000, 0 \<le>s step)))"

definition for_float :: "vm_env \<Rightarrow> int \<Rightarrow> int \<Rightarrow> vm \<Rightarrow> turn result" where
  "for_float E a sbx v =
     (let M = ve_meta E; g = v_g v; quoted = (\<lambda>what. [CHR 0x27] @ ''for'' @ [CHR 0x27] @ what @ '' must be a number'') in
      case as_number M g (reg v (a + 1)) of
        None \<Rightarrow> runerror M g (quoted '' limit'')
      | Some nlimit \<Rightarrow>
          (case as_number M g (reg v (a + 2)) of
             None \<Rightarrow> runerror M g (quoted '' step'')
           | Some nstep \<Rightarrow>
               (case as_number M g (reg v a) of
                  None \<Rightarrow> runerror M g (quoted '' initial value'')
                | Some ninit \<Rightarrow>
                    Inr (Next (add_pc sbx (set_reg a (VFloat (f_sub (num_of ninit) (num_of nstep)))
                      (set_reg (a + 2) (VFloat (num_of nstep)) (set_reg (a + 1) (VFloat (num_of nlimit)) v))))))))"

definition op_forprep :: "vm_env \<Rightarrow> int \<Rightarrow> int \<Rightarrow> vm \<Rightarrow> turn result" where
  "op_forprep E a sbx v =
     (case (reg v a, reg v (a + 2)) of
        (VInt init, VInt step) \<Rightarrow>
          (case forlimit (ve_meta E) (v_g v) (reg v (a + 1)) step of
             Some (ilimit, stopnow) \<Rightarrow>
               Inr (Next (add_pc sbx (set_reg a (VInt (intop_sub (if stopnow then 0 else init) step))
                 (set_reg (a + 1) (VInt ilimit) v))))
           | None \<Rightarrow> for_float E a sbx v)
      | _ \<Rightarrow> for_float E a sbx v)"

definition loop_again :: "vm_env \<Rightarrow> int \<Rightarrow> int \<Rightarrow> tvalue \<Rightarrow> vm \<Rightarrow> turn result" where
  "loop_again E a sbx idx v = rbind (collect E (set_reg (a + 3) idx (set_reg a idx (add_pc sbx v)))) (\<lambda>v1. Inr (Next v1))"

definition op_forloop :: "vm_env \<Rightarrow> int \<Rightarrow> int \<Rightarrow> vm \<Rightarrow> turn result" where
  "op_forloop E a sbx v =
     (case (reg v a, reg v (a + 1), reg v (a + 2)) of
        (VInt i, VInt limit, VInt step) \<Rightarrow>
          (let idx = intop_add i step in
           if (if 0 <s step then idx \<le>s limit else limit \<le>s idx) then loop_again E a sbx (VInt idx) v else Inr (Next v))
      | (i, limit, step) \<Rightarrow>
          (let st = num_of step; idx = f_add (num_of i) st in
           if (if f_lt 0 st then f_le idx (num_of limit) else f_le (num_of limit) idx)
           then loop_again E a sbx (VFloat idx) v else Inr (Next v)))"

definition op_tforcall :: "vm_env \<Rightarrow> int \<Rightarrow> int \<Rightarrow> vm \<Rightarrow> turn result" where
  "op_tforcall E a c v =
     (let cb = fbase v + a + 3; f = reg v a;
          v1 = set_top (cb + 3) (put_slots cb [f, reg v (a + 1), reg v (a + 2)] (need (cb + 3 + c) v)) in
      case f of
        VFunction cl \<Rightarrow>
          rbind (call_closure E cl 2 c v1) (\<lambda>(st, v2). Inr (if st = LUA_YIELD then Ret LUA_YIELD v2 else Next (reload v2)))
      | _ \<Rightarrow> rbind (meta_call (ve_meta E) cb 2 c (v_g v1)) (\<lambda>(_, g). Inr (Next (reload (v1\<lparr>v_g := g\<rparr>)))))"

definition op_tforloop :: "vm_env \<Rightarrow> int \<Rightarrow> int \<Rightarrow> vm \<Rightarrow> turn result" where
  "op_tforloop E a sbx v =
     (if is_nil (reg v (a + 1)) then Inr (Next v)
      else rbind (collect E (add_pc sbx (set_reg a (reg v (a + 1)) v))) (\<lambda>v1. Inr (Next v1)))"

primrec set_items :: "tvalue \<Rightarrow> int \<Rightarrow> tvalue list \<Rightarrow> vm \<Rightarrow> vm result" where
  "set_items t i [] v = Inr v"
| "set_items t i (x # xs) v = rbind (store_int t (word_of_int i) x v) (set_items t (i + 1) xs)"

definition op_setlist :: "int \<Rightarrow> int \<Rightarrow> int \<Rightarrow> vm \<Rightarrow> turn result" where
  "op_setlist a b c v =
     (let n = (if b = 0 then th_top (v_th v) - (fbase v + a) - 1 else b); t = reg v a in
      if \<not> is_table t then panic ''SETLIST on non-table''
      else rbind (set_items t ((c - 1) * 50 + 1) (slots v (fbase v + a + 1) n) v) (\<lambda>v1. Inr (Next v1)))"

section \<open>Closures\<close>

definition upval_matches :: "vm \<Rightarrow> upval_desc \<times> ptr option \<Rightarrow> bool" where
  "upval_matches v du =
     (case snd du of
        None \<Rightarrow> False
      | Some u \<Rightarrow>
          if ud_instack (fst du) then
            (case upval_at (v_g v) u of
               Some uv \<Rightarrow> uv_open uv \<and> uv_thread uv = g_current (v_g v) \<and> uv_index uv = fbase v + uint (ud_idx (fst du))
             | None \<Rightarrow> False)
          else unat (ud_idx (fst du)) < length (cl_upvals (cur_cl v)) \<and> cl_upvals (cur_cl v) ! unat (ud_idx (fst du)) = Some u)"

definition reusable :: "vm \<Rightarrow> proto \<Rightarrow> ptr \<Rightarrow> bool" where
  "reusable v np c \<longleftrightarrow>
     (let us = cl_upvals (closure_at (v_g v) c) in
      length us = length (p_upvalues np) \<and> list_all (upval_matches v) (zip (p_upvalues np) us))"

primrec bind_upvals :: "vm_env \<Rightarrow> upval_desc list \<Rightarrow> vm \<Rightarrow> (ptr option list \<times> vm) result" where
  "bind_upvals E [] v = Inr ([], v)"
| "bind_upvals E (d # ds) v =
     rbind
       (if ud_instack d then
          (case g_current (v_g v) of
             None \<Rightarrow> Inr (None, v)
           | Some tp \<Rightarrow>
               (let (u, g) = find_upval (me_alloc (ve_meta E) (v_g v)) (ve_upval_bytes E) tp (fbase v + uint (ud_idx d)) (v_g v)
                in Inr (Some u, v\<lparr>v_g := g\<rparr>)))
        else if length (cl_upvals (cur_cl v)) \<le> unat (ud_idx d) \<or> cl_upvals (cur_cl v) ! unat (ud_idx d) = None
        then panic ''CLOSURE: bad parent upvalue''
        else Inr (cl_upvals (cur_cl v) ! unat (ud_idx d), v))
       (\<lambda>(u, v1). rbind (bind_upvals E ds v1) (\<lambda>(us, v2). Inr (u # us, v2)))"

definition new_closure :: "vm_env \<Rightarrow> int \<Rightarrow> ptr \<Rightarrow> proto \<Rightarrow> vm \<Rightarrow> turn result" where
  "new_closure E a npp np v =
     (let ncl = me_alloc (ve_meta E) (v_g v);
          v1 = on_g (closure_new_lua ncl (ve_closure_bytes E) npp) v
      in rbind (bind_upvals E (p_upvalues np) v1) (\<lambda>(us, v2).
         let v3 = on_g (\<lambda>g. upd_cell npp (\<lambda>ce. ce\<lparr>c_cache := Some ncl\<rparr>)
                    (set_obj ncl (OClosure ((closure_at g ncl)\<lparr>cl_upvals := us\<rparr>)) g)) v2
         in rbind (collect E (set_reg a (VFunction ncl) (reload v3))) (\<lambda>v4. Inr (Next v4))))"

definition op_closure :: "vm_env \<Rightarrow> int \<Rightarrow> nat \<Rightarrow> vm \<Rightarrow> turn result" where
  "op_closure E a bx v =
     (if length (p_protos (cur_proto v)) \<le> bx then panic ''CLOSURE: bad proto index''
      else
        let npp = p_protos (cur_proto v) ! bx; np = proto_at (v_g v) npp;
            cached = (case cell_at (v_g v) npp of Some ce \<Rightarrow> c_cache ce | None \<Rightarrow> None) in
        case cached of
          Some c \<Rightarrow> if reusable v np c then Inr (Next (set_reg a (VFunction c) (reload v))) else new_closure E a npp np v
        | None \<Rightarrow> new_closure E a npp np v)"
section \<open>Varargs, calls and returns\<close>

definition op_vararg :: "int \<Rightarrow> int \<Rightarrow> vm \<Rightarrow> turn result" where
  "op_vararg a b v =
     (let vs = fr_varargs (cur_frame v);
          nwant = (if b = 0 then int (length vs) else b - 1);
          v1 = reload (need (fbase v + a + nwant + 8) v);
          v2 = put_slots (fbase v + a) (map (\<lambda>i. if i < length vs then vs ! i else VNil) [0..<nat nwant]) v1
      in Inr (Next (if b = 0 then set_top (fbase v + a + nwant) v2 else v2)))"

definition arg_count :: "int \<Rightarrow> int \<Rightarrow> vm \<Rightarrow> int" where
  "arg_count a b v = max 0 (if b = 0 then th_top (v_th v) - (fbase v + a) - 1 else b - 1)"

definition op_call :: "vm_env \<Rightarrow> int \<Rightarrow> int \<Rightarrow> int \<Rightarrow> vm \<Rightarrow> turn result" where
  "op_call E a b c v0 =
     rbind (collect E v0) (\<lambda>v.
     let nargs = arg_count a b v; nret = (if c = 0 then LUA_MULTRET else c - 1); call_base = fbase v + a;
         v1 = reload (set_top (call_base + 1 + nargs) (need (call_base + 1 + nargs + 8) v))
     in case reg v1 a of
          VFunction f \<Rightarrow>
            if cl_is_c (closure_at (v_g v1) f) then
              rbind (run_c_call E f call_base nargs nret False [] v1) (\<lambda>(st, v2). Inr (if st = LUA_YIELD then Ret LUA_YIELD v2 else Next v2))
            else rbind (push_lua_frame E f call_base nargs nret False v1) (\<lambda>v2. Inr (Next v2))
        | _ \<Rightarrow>
            rbind (meta_call (ve_meta E) call_base nargs (if nret = LUA_MULTRET then 1 else nret) (v_g v1)) (\<lambda>(_, g).
              Inr (Next (v1\<lparr>v_g := g\<rparr>))))"

definition leaves :: "int \<Rightarrow> vm \<Rightarrow> turn" where
  "leaves entry_depth v = (if nframes v < entry_depth then Ret LUA_OK v else Next v)"

definition op_tailcall :: "vm_env \<Rightarrow> int \<Rightarrow> int \<Rightarrow> int \<Rightarrow> vm \<Rightarrow> turn result" where
  "op_tailcall E entry_depth a b v0 =
     rbind (collect E v0) (\<lambda>v.
     let nargs = arg_count a b v; nresults = fc_results (cur_ctl v); dest = fbase v;
         tmp = live_stack_top (obj_at (v_g v)) (v_th v);
         v1 = need (tmp + nargs + 1 + 8) v;
         v2 = put_slots tmp (slots v1 (dest + a) (nargs + 1)) v1;
         callee = slot v2 tmp;
         name = ve_name E v2;
         v3 = (case g_current (v_g v2) of Some tp \<Rightarrow> on_g (close_upvals tp dest) v2 | None \<Rightarrow> v2);
         v4 = need (dest + 1 + nargs + 8) v3;
         v5 = pop_frame (set_top (dest + 1 + nargs) (put_slots dest (slots v4 tmp (nargs + 1)) v4))
     in case callee of
          VFunction f \<Rightarrow>
            if cl_is_c (closure_at (v_g v5) f) then
              rbind (run_c_call E f dest nargs nresults True name v5) (\<lambda>(st, v6).
                Inr (if st = LUA_YIELD then Ret LUA_YIELD v6 else leaves entry_depth v6))
            else rbind (push_lua_frame E f dest nargs nresults True v5) (\<lambda>v6. Inr (Next v6))
        | _ \<Rightarrow>
            rbind (meta_call (ve_meta E) dest nargs (if nresults = LUA_MULTRET then 1 else nresults) (v_g v5)) (\<lambda>(_, g).
              Inr (leaves entry_depth (v5\<lparr>v_g := g\<rparr>))))"

definition op_return :: "vm_env \<Rightarrow> int \<Rightarrow> int \<Rightarrow> int \<Rightarrow> vm \<Rightarrow> turn result" where
  "op_return E entry_depth a b v0 =
     rbind (collect E v0) (\<lambda>v.
     let dest = fbase v; src = dest + a;
         nret = max 0 (if b = 0 then th_top (v_th v) - src else b - 1);
         want = fc_results (cur_ctl v);
         placed = max 0 (if want = LUA_MULTRET then nret else want);
         v1 = (case g_current (v_g v) of Some tp \<Rightarrow> on_g (close_upvals tp dest) v | None \<Rightarrow> v);
         v2 = need (max (src + nret) (dest + placed) + 8) v1
     in rbind (hook E HookReturn v2) (\<lambda>v3.
        let v4 = pop_frame v3;
            v5 = (if 0 < nret \<and> src \<noteq> dest then put_slots dest (slots v4 src nret) v4 else v4);
            v6 = set_top (dest + placed) (nil_slots (dest + nret) (dest + placed) v5)
        in Inr (leaves entry_depth v6)))"

section \<open>The loop\<close>

definition exec :: "vm_env \<Rightarrow> int \<Rightarrow> instruction \<Rightarrow> vm \<Rightarrow> turn result" where
  "exec E entry_depth ins v =
     (let a = uint (op_a ins); b = uint (op_b ins); c = uint (op_c ins); sbx = op_sbx ins in
      case opcode_of (op_get ins) of
        None \<Rightarrow> panic ''unimplemented opcode''
      | Some op \<Rightarrow>
          (case op of
             OP_MOVE \<Rightarrow> Inr (Next (set_reg a (reg v b) v))
           | OP_LOADNIL \<Rightarrow> Inr (Next (nil_slots (fbase v + a) (fbase v + a + b + 1) v))
           | OP_LOADBOOL \<Rightarrow> Inr (Next (let v1 = set_reg a (VBool (b \<noteq> 0)) v in if c \<noteq> 0 then add_pc 1 v1 else v1))
           | OP_LOADINT \<Rightarrow> Inr (Next (set_reg a (VInt (word_of_int sbx)) v))
           | OP_LOADK \<Rightarrow> Inr (Next (set_reg a (const_at (uint (op_bx ins)) v) v))
           | OP_LOADFLOAT \<Rightarrow> Inr (Next (set_reg a (const_at (uint (op_bx ins)) v) v))
           | OP_GETUPVAL \<Rightarrow> op_getupval a b v
           | OP_SETUPVAL \<Rightarrow> op_setupval a b v
           | OP_GETTABUP \<Rightarrow> op_gettabup E a b c v
           | OP_SETTABUP \<Rightarrow> op_settabup E a b c v
           | OP_GETTABLE \<Rightarrow> op_gettable E a (reg v b) (reg v c) v
           | OP_SETTABLE \<Rightarrow> op_settable E (reg v a) (reg v b) (reg v c) v
           | OP_GETI \<Rightarrow> op_geti E a b c v
           | OP_SETI \<Rightarrow> op_seti E a b c v
           | OP_GETFIELD \<Rightarrow> op_gettable E a (reg v b) (const_at c v) v
           | OP_SETFIELD \<Rightarrow> op_settable E (reg v a) (const_at b v) (reg v c) v
           | OP_NEWTABLE \<Rightarrow> op_newtable E a b c v
           | OP_SELF \<Rightarrow> op_self E a b c v
           | OP_UNM \<Rightarrow> op_unm E a b v
           | OP_BNOT \<Rightarrow> op_bnot E a b v
           | OP_NOT \<Rightarrow> Inr (Next (set_reg a (VBool (\<not> is_truthy (reg v b))) v))
           | OP_LEN \<Rightarrow> op_len E a b v
           | OP_CONCAT \<Rightarrow> op_concat E a b c v
           | OP_EQ \<Rightarrow> op_eq E a b c v
           | OP_LT \<Rightarrow> op_lt E a b c v
           | OP_LE \<Rightarrow> op_le E a b c v
           | OP_TEST \<Rightarrow> Inr (Next (cond_skip c (is_truthy (reg v a)) v))
           | OP_TESTSET \<Rightarrow>
               Inr (Next (if is_truthy (reg v b) \<noteq> (c \<noteq> 0) then add_pc 1 v else set_reg a (reg v b) v))
           | OP_JMP \<Rightarrow> op_jmp E a sbx v
           | OP_FORPREP \<Rightarrow> op_forprep E a sbx v
           | OP_FORLOOP \<Rightarrow> op_forloop E a sbx v
           | OP_TFORCALL \<Rightarrow> op_tforcall E a c v
           | OP_TFORLOOP \<Rightarrow> op_tforloop E a sbx v
           | OP_SETLIST \<Rightarrow> op_setlist a b c v
           | OP_CLOSURE \<Rightarrow> op_closure E a (unat (op_bx ins)) v
           | OP_VARARG \<Rightarrow> op_vararg a b v
           | OP_CALL \<Rightarrow> op_call E a b c v
           | OP_TAILCALL \<Rightarrow> op_tailcall E entry_depth a b v
           | OP_RETURN \<Rightarrow> op_return E entry_depth a b v
           | OP_CHECKGC \<Rightarrow> rbind (collect E v) (\<lambda>v1. Inr (Next v1))
           | OP_SAFEPOINT \<Rightarrow> rbind (collect E v) (\<lambda>v1. Inr (Next v1))
           | _ \<Rightarrow> if arith_mt op \<noteq> None then op_arith E op a b c v else panic (''unimplemented opcode '' @ opcode_name op)))"

text \<open>One turn: leave, finish an instruction, return from a function without a \<open>RETURN\<close>, or fetch and execute.\<close>

definition vm_step :: "vm_env \<Rightarrow> int \<Rightarrow> vm \<Rightarrow> turn result" where
  "vm_step E entry_depth v =
     (if nframes v < entry_depth \<or> nframes v = 0 then Inr (Ret LUA_OK v)
      else if fc_kind (cur_ctl v) = ContinueFrame \<or> fc_kind (cur_ctl v) = CApi \<or> fr_proto (cur_frame v) = None then Inr (Ret LUA_OK v)
      else if fc_pending (cur_ctl v) then finish_now E v
      else
        let pc = fc_pc (cur_ctl v); code = p_code (cur_proto v) in
        if int (length code) \<le> pc then rbind (hook E HookReturn v) (\<lambda>v1. Inr (leaves entry_depth (pop_frame v1)))
        else
          rbind (hook E HookTrace (add_pc 1 v)) (\<lambda>v1.
          let v2 = reload v1 in
          rbind (if g_stress (v_g v2) then collect E v2 else Inr v2) (exec E entry_depth (code ! nat pc))))"

text \<open>The loop with its entry depth: \<open>None\<close> when the loop has not returned after \<open>n\<close> turns.\<close>

fun vm_run :: "vm_env \<Rightarrow> int \<Rightarrow> nat \<Rightarrow> vm \<Rightarrow> (int \<times> vm) result option" where
  "vm_run E entry_depth 0 v = None"
| "vm_run E entry_depth (Suc n) v =
     (case vm_step E entry_depth v of
        Inl e \<Rightarrow> Some (Inl e)
      | Inr (Ret st v1) \<Rightarrow> Some (Inr (st, v1))
      | Inr (Next v1) \<Rightarrow> vm_run E entry_depth n v1)"

definition interpret_loop :: "vm_env \<Rightarrow> nat \<Rightarrow> int \<Rightarrow> vm \<Rightarrow> (int \<times> vm) result option" where
  "interpret_loop E n min_frames v = vm_run E (if min_frames < 0 then nframes v else min_frames) n v"

end
