(* ===== verification/Lt_VmLoop.thy ===== *)
theory Lt_VmLoop
  imports Lt_Vm
begin

text \<open>
  The instructions of a numeric \<open>for\<close> loop. With integer operands, the loop visits exactly the terms of the
  arithmetic progression from the initial value to the limit, unless stepping past the limit overflows.
\<close>

section \<open>Registers\<close>

definition has_thread :: "gstate \<Rightarrow> bool" where
  "has_thread g \<longleftrightarrow> (\<exists>tp th. g_current g = Some tp \<and> thread_at g tp = Some th)"

lemma thread_at_set_obj [simp]:
  "thread_at (set_obj p (OThread th) g) q = (if q = p \<and> obj_at g p \<noteq> None then Some th else if q = p then None else thread_at g q)"
  by (auto simp: thread_at_def obj_at_set_obj split: option.splits)

lemma g_fields_set_obj [simp]:
  "g_current (set_obj p ob g) = g_current g" "g_stress (set_obj p ob g) = g_stress g" "g_debt (set_obj p ob g) = g_debt g"
  "g_threshold (set_obj p ob g) = g_threshold g" "g_isrunning (set_obj p ob g) = g_isrunning g" "g_strs (set_obj p ob g) = g_strs g"
  by (simp_all add: set_obj_def upd_cell_def)

lemma g_fields_on_current [simp]:
  "g_current (on_current f g) = g_current g" "g_stress (on_current f g) = g_stress g" "g_debt (on_current f g) = g_debt g"
  "g_threshold (on_current f g) = g_threshold g" "g_isrunning (on_current f g) = g_isrunning g" "g_strs (on_current f g) = g_strs g"
  by (simp_all add: on_current_def upd_thread_def split: option.split)

lemma on_current_thread:
  assumes "has_thread g"
  shows "cur_th (on_current f g) = f (cur_th g)" "has_thread (on_current f g)"
proof -
  obtain tp th where t: "g_current g = Some tp" "thread_at g tp = Some th" using assms by (auto simp: has_thread_def)
  then have "obj_at g tp \<noteq> None" by (auto simp: thread_at_def split: option.splits)
  then show "cur_th (on_current f g) = f (cur_th g)" "has_thread (on_current f g)"
    using t by (simp_all add: cur_th_def on_current_def upd_thread_def has_thread_def)
qed

lemma vm_fields_set_slot [simp]: "v_ctl (set_slot i x v) = v_ctl v" "cur_ctl (set_slot i x v) = cur_ctl v"
  "v_ctl (set_reg i x v) = v_ctl v" "cur_ctl (set_reg i x v) = cur_ctl v"
  by (simp_all add: set_slot_def set_reg_def on_th_def cur_ctl_def)

lemma vm_fields_add_pc [simp]: "v_g (add_pc d v) = v_g v" "cur_frame (add_pc d v) = cur_frame v" "fbase (add_pc d v) = fbase v"
  "reg (add_pc d v) r = reg v r" "slot (add_pc d v) i = slot v i"
  by (simp_all add: add_pc_def upd_ctl_def cur_frame_def fbase_def reg_def slot_def)

lemma pc_add_pc [simp]: "fc_pc (cur_ctl (add_pc d v)) = fc_pc (cur_ctl v) + d"
  by (simp add: add_pc_def upd_ctl_def cur_ctl_def)

text \<open>The registers up to \<open>r\<close> of the running frame are on the stack, and no collection is due.\<close>

definition room :: "int \<Rightarrow> vm \<Rightarrow> bool" where
  "room r v \<longleftrightarrow> has_thread (v_g v) \<and> 0 \<le> fbase v \<and> fbase v + r < int (length (th_stack (v_th v)))"

definition gc_idle :: "vm \<Rightarrow> bool" where
  "gc_idle v \<longleftrightarrow> \<not> g_stress (v_g v) \<and> g_debt (v_g v) < g_threshold (v_g v)"

lemma collect_idle: "gc_idle v \<Longrightarrow> collect E v = Inr v"
  by (simp add: gc_idle_def collect_def)

lemma set_reg_frame:
  assumes "has_thread (v_g v)"
  shows "cur_frame (set_reg r x v) = cur_frame v" "fbase (set_reg r x v) = fbase v" "has_thread (v_g (set_reg r x v))"
    "th_stack (v_th (set_reg r x v)) = (th_stack (v_th v))[nat (fbase v + r) := x]"
  using on_current_thread [OF assms] by (simp_all add: set_reg_def set_slot_def on_th_def cur_frame_def fbase_def)

lemma room_set_reg [simp]: "room r (set_reg s x v) = room r v"
proof (cases "has_thread (v_g v)")
  case True
  then show ?thesis by (simp add: room_def set_reg_frame)
next
  case False
  then have "v_g (set_reg s x v) = v_g v"
    by (auto simp: set_reg_def set_slot_def on_th_def on_current_def upd_thread_def has_thread_def split: option.splits)
  then show ?thesis using False by (simp add: room_def)
qed

lemma room_add_pc [simp]: "room r (add_pc d v) = room r v" "gc_idle (add_pc d v) = gc_idle v" "gc_idle (set_reg s x v) = gc_idle v"
  by (simp_all add: room_def gc_idle_def set_reg_def set_slot_def on_th_def)

lemma reg_set_reg:
  assumes "room m v" "0 \<le> r" "r \<le> m" "0 \<le> s" "s \<le> m"
  shows "reg (set_reg r x v) s = (if r = s then x else reg v s)"
proof -
  have "nat (fbase v + r) < length (th_stack (v_th v))" "nat (fbase v + r) = nat (fbase v + s) \<longleftrightarrow> r = s"
    using assms by (auto simp: room_def)
  then show ?thesis using assms(1) by (simp add: reg_def slot_def set_reg_frame room_def nth_list_update)
qed

section \<open>The loop\<close>

text \<open>The values the control variable gets when \<open>FORLOOP\<close> is executed until it does not jump back; \<open>None\<close> when
  that takes more than \<open>n\<close> executions. The body of the loop is empty.\<close>

fun for_trace :: "vm_env \<Rightarrow> int \<Rightarrow> int \<Rightarrow> nat \<Rightarrow> vm \<Rightarrow> tvalue list option" where
  "for_trace E a sbx 0 v = None"
| "for_trace E a sbx (Suc n) v =
     (case op_forloop E a sbx v of
        Inr (Next v1) \<Rightarrow>
          if fc_pc (cur_ctl v1) = fc_pc (cur_ctl v) then Some []
          else map_option (Cons (reg v1 (a + 3))) (for_trace E a sbx n v1)
      | _ \<Rightarrow> None)"

definition loop_regs :: "int \<Rightarrow> u64 \<Rightarrow> u64 \<Rightarrow> u64 \<Rightarrow> vm \<Rightarrow> bool" where
  "loop_regs a i limit step v \<longleftrightarrow>
     room (a + 3) v \<and> gc_idle v \<and> reg v a = VInt i \<and> reg v (a + 1) = VInt limit \<and> reg v (a + 2) = VInt step"

text \<open>The number of terms from \<open>y\<close> to \<open>l\<close> by steps of \<open>s\<close>.\<close>

definition terms :: "int \<Rightarrow> int \<Rightarrow> int \<Rightarrow> nat" where
  "terms y l s = nat ((l - y) div s + 1)"

lemma terms_step: "s \<noteq> 0 \<Longrightarrow> (if 0 < s then y \<le> l else l \<le> y) \<Longrightarrow> terms y l s = Suc (terms (y + s) l s)"
proof -
  assume s: "s \<noteq> 0" "if 0 < s then y \<le> l else l \<le> y"
  have "(l - (y + s) + s) div s = (l - (y + s)) div s + 1" by (rule div_add_self2 [OF s(1)])
  moreover have "l - (y + s) + s = l - y" by simp
  ultimately have "(l - y) div s = (l - (y + s)) div s + 1" by simp
  moreover have "0 \<le> (l - y) div s" using s by (auto simp: pos_imp_zdiv_nonneg_iff neg_imp_zdiv_nonneg_iff split: if_splits)
  ultimately show ?thesis by (simp add: terms_def)
qed

lemma terms_end: "s \<noteq> 0 \<Longrightarrow> \<not> (if 0 < s then y \<le> l else l \<le> y) \<Longrightarrow> terms y l s = 0"
proof -
  assume s: "s \<noteq> 0" "\<not> (if 0 < s then y \<le> l else l \<le> y)"
  then have "(l - y) div s < 0" by (cases "0 < s") (simp_all add: pos_imp_zdiv_neg_iff neg_imp_zdiv_neg_iff)
  then show ?thesis by (simp add: terms_def)
qed

definition in64 :: "int \<Rightarrow> bool" where
  "in64 x \<longleftrightarrow> - (2 ^ 63) \<le> x \<and> x < 2 ^ 63"

lemma sint_in64 [simp]: "in64 (sint (w :: u64))" "in64 x \<Longrightarrow> sint (word_of_int x :: u64) = x"
  using sint_range_size [of w] by (auto simp: in64_def word_size sint_of_int_64)

lemma forloop_step:
  assumes r: "loop_regs a (word_of_int (y - sint step)) limit step v" "0 \<le> a" "in64 y"
  shows "op_forloop E a sbx v =
     (if (if 0 < sint step then y \<le> sint limit else sint limit \<le> y)
      then Inr (Next (set_reg (a + 3) (VInt (word_of_int y)) (set_reg a (VInt (word_of_int y)) (add_pc sbx v)))) else Inr (Next v))"
proof -
  have "(word_of_int (y - sint step) + step :: u64) = word_of_int y" by (simp add: of_int_diff)
  then show ?thesis using r sint_in64(2) [OF assms(3)]
    by (simp add: op_forloop_def loop_regs_def Let_def intop_add_def loop_again_def collect_idle word_sless_alt word_sle_eq)
qed

lemma for_trace_terms:
  assumes "loop_regs a (word_of_int (y - sint step)) limit step v" "0 \<le> a" "sbx \<noteq> 0" "step \<noteq> 0" "in64 y" "in64 (sint limit + sint step)"
  shows "for_trace E a sbx (Suc (terms y (sint limit) (sint step))) v =
     Some (map (\<lambda>k. VInt (word_of_int (y + int k * sint step))) [0..<terms y (sint limit) (sint step)])"
  using assms
proof (induction "terms y (sint limit) (sint step)" arbitrary: y v)
  case 0
  have s0: "sint step \<noteq> 0" using 0(5) by (simp add: signed_eq_0_iff)
  have "\<not> (if 0 < sint step then y \<le> sint limit else sint limit \<le> y)" using terms_step [OF s0, of y "sint limit"] 0(1) by auto
  then show ?case using forloop_step [OF 0(2,3,6), of E sbx] 0(1) by simp
next
  case (Suc n)
  have s0: "sint step \<noteq> 0" using Suc.prems(4) by (simp add: signed_eq_0_iff)
  have c: "if 0 < sint step then y \<le> sint limit else sint limit \<le> y" using terms_end [OF s0] Suc.hyps(2) by fastforce
  have n: "n = terms (y + sint step) (sint limit) (sint step)" using terms_step [OF s0 c] Suc.hyps(2) by simp
  let ?v = "set_reg (a + 3) (VInt (word_of_int y)) (set_reg a (VInt (word_of_int y)) (add_pc sbx v))"
  have regs: "loop_regs a (word_of_int (y + sint step - sint step)) limit step ?v"
    using Suc.prems(1,2) by (auto simp: loop_regs_def reg_set_reg [where m = "a + 3"])
  have val: "reg ?v (a + 3) = VInt (word_of_int y)"
    using Suc.prems(1,2) by (auto simp: loop_regs_def reg_set_reg [where m = "a + 3"])
  have y: "in64 (y + sint step)" using c Suc.prems(5,6) s0 by (auto simp: in64_def split: if_splits)
  have IH: "for_trace E a sbx (Suc n) ?v = Some (map (\<lambda>k. VInt (word_of_int (y + sint step + int k * sint step))) [0..<n])"
    using Suc.hyps(1) [OF n regs Suc.prems(2-4) y Suc.prems(6)] n by simp
  have "op_forloop E a sbx v = Inr (Next ?v)" using forloop_step [OF Suc.prems(1,2,5), of E sbx] c by simp
  then have "for_trace E a sbx (Suc (Suc n)) v = Some (VInt (word_of_int y) # map (\<lambda>k. VInt (word_of_int (y + sint step + int k * sint step))) [0..<n])"
    using Suc.prems(3) val IH by simp
  moreover have "[0..<Suc n] = 0 # map Suc [0..<n]" by (simp add: map_Suc_upt upt_conv_Cons)
  ultimately show ?case using Suc.hyps(2) [symmetric] by (simp add: algebra_simps comp_def)
qed

text \<open>An integer limit is taken as it is.\<close>

lemma forlimit_int: "forlimit M g (VInt n) step = Some (n, False)"
  by (simp add: forlimit_def tointeger_mode_def as_number_def)

text \<open>C38: A numeric \<open>for\<close> over integers visits exactly the terms of its progression: \<open>FORPREP\<close> followed by \<open>FORLOOP\<close> until it
  falls through gives the control variable the values \<open>init\<close>, \<open>init + step\<close>, ... up to the last one that does not pass the
  limit, none when the initial value is past it, for either sign of the step. It ends after that many turns. The limit is
  such that one more step does not overflow.\<close>

theorem for_loop_visits:
  assumes "loop_regs a init limit step v" "0 \<le> a" "sbx \<noteq> 0" "step \<noteq> 0" "in64 (sint limit + sint step)"
  shows "\<exists>v1. op_forprep E a d v = Inr (Next v1) \<and> fc_pc (cur_ctl v1) = fc_pc (cur_ctl v) + d \<and>
    for_trace E a sbx (Suc (terms (sint init) (sint limit) (sint step))) v1 =
      Some (map (\<lambda>k. VInt (word_of_int (sint init + int k * sint step))) [0..<terms (sint init) (sint limit) (sint step)])"
proof -
  let ?v = "add_pc d (set_reg a (VInt (init - step)) (set_reg (a + 1) (VInt limit) v))"
  have "op_forprep E a d v = Inr (Next ?v)"
    using assms(1) by (simp add: op_forprep_def loop_regs_def forlimit_int intop_sub_def)
  moreover have "loop_regs a (word_of_int (sint init - sint step)) limit step ?v"
    using assms(1,2) by (auto simp: loop_regs_def reg_set_reg [where m = "a + 3"])
  ultimately show ?thesis using for_trace_terms [OF _ assms(2-4) _ assms(5), of "sint init" ?v E] by simp
qed

definition loop_vm :: vm where
  "loop_vm =
     \<lparr>v_g = (heap_of [(7, OThread (no_thread\<lparr>th_stack := [VInt 1, VInt 6, VInt 2, VNil],
        th_frames := [\<lparr>fr_cl = None, fr_proto = None, fr_base = 0, fr_varargs = [], fr_finalizer = False\<rparr>]\<rparr>))])
        \<lparr>g_current := Some 7, g_stress := False, g_debt := 0, g_threshold := 1\<rparr>,
      v_ctl = [ctl0], v_ccalls = 0, v_nny = 0, v_yield_pending = False, v_yield_continue = False, v_yield_cont = ContNone,
      v_yield_ctx = VNil, v_yield_res = 0, v_yield_vals = [], v_yield_func = 0, v_yield_nresults = 0\<rparr>"

lemma loop_vm_regs: "loop_regs 0 1 6 2 loop_vm"
proof -
  have "obj_at (v_g loop_vm) 7 = Some (OThread (no_thread\<lparr>th_stack := [VInt 1, VInt 6, VInt 2, VNil],
      th_frames := [\<lparr>fr_cl = None, fr_proto = None, fr_base = 0, fr_varargs = [], fr_finalizer = False\<rparr>]\<rparr>))"
    by (simp add: loop_vm_def heap_of_def white_cell_def obj_at_def cell_at_def)
  then show ?thesis
    by (simp add: loop_regs_def room_def gc_idle_def has_thread_def thread_at_def cur_th_def fbase_def cur_frame_def reg_def slot_def
        loop_vm_def)
qed

theorem for_loop_visits_witness:
  "\<forall>E. \<exists>v1. op_forprep E 0 3 loop_vm = Inr (Next v1) \<and> for_trace E 0 (- 2) 4 v1 = Some [VInt 1, VInt 3, VInt 5]"
proof
  fix E
  show "\<exists>v1. op_forprep E 0 3 loop_vm = Inr (Next v1) \<and> for_trace E 0 (- 2) 4 v1 = Some [VInt 1, VInt 3, VInt 5]"
    using for_loop_visits [OF loop_vm_regs, of "- 2" E 3] by (auto simp: in64_def terms_def numeral_eq_Suc)
qed

lemma kSup_to_int: "f_floor kSup = kSup" "f64_to_i64 kSup = 0x8000000000000000"
proof -
  have "f_one dvd f_num kSup" by (simp add: kSup_num f_lim_def)
  then show "f_floor kSup = kSup" by (simp add: f_floor_def)
  have "f_trunc kSup * f_one = 2 ^ 63 * f_one" using f_trunc_num [OF \<open>f_one dvd f_num kSup\<close>] by (simp add: kSup_num f_lim_def)
  then have "f_trunc kSup = 2 ^ 63" by simp
  then show "f64_to_i64 kSup = 0x8000000000000000" by (simp add: f64_to_i64_def)
qed

lemma forlimit_kSup: "forlimit M g (VFloat kSup) 1 = Some (0x8000000000000000, False)"
proof -
  have "\<not> f_lim < - f_lim" using f_lim_pos by linarith
  then have "tointeger_mode M g (VFloat kSup) 1 = Some 0x8000000000000000"
    by (simp add: tointeger_mode_def as_number_def kSup_to_int kSup_num f_lt_def kMin_num)
  moreover have "\<not> (1 :: u64) <s 0" by (simp add: word_sless_alt)
  ultimately show ?thesis by (simp add: forlimit_def)
qed

text \<open>C39: The limit 2 to the 63, as a float, passes the range test of \<open>tointeger_mode\<close>, whose bound is \<open>INT64_MAX\<close> rounded up to
  that same float, and its conversion is out of range: the limit becomes the smallest integer, so that \<open>for i = n, 2^63\<close> with
  step 1 never runs its body, for any initial value above that integer.\<close>

theorem for_limit_two_to_63:
  assumes "room (a + 3) v" "gc_idle v" "0 \<le> a" "reg v a = VInt init" "reg v (a + 1) = VFloat kSup" "reg v (a + 2) = VInt 1"
    "init \<noteq> 0x8000000000000000"
  shows "\<exists>v1. op_forprep E a d v = Inr (Next v1) \<and> op_forloop E a sbx v1 = Inr (Next v1)"
proof -
  let ?v = "add_pc d (set_reg a (VInt (init - 1)) (set_reg (a + 1) (VInt 0x8000000000000000) v))"
  have prep: "op_forprep E a d v = Inr (Next ?v)" using assms(4-6) by (simp add: op_forprep_def forlimit_kSup intop_sub_def)
  have "loop_regs a (word_of_int (sint init - sint (1 :: u64))) 0x8000000000000000 1 ?v"
    using assms(1-6) by (auto simp: loop_regs_def reg_set_reg [where m = "a + 3"])
  from forloop_step [OF this assms(3) sint_in64(1), of E sbx]
  have "op_forloop E a sbx ?v = Inr (Next ?v)"
    using assms(7) sint_bounds_64(1) [of init] sint_inject_64 [of init "0x8000000000000000"] by simp
  with prep show ?thesis by blast
qed

definition limit_vm :: vm where
  "limit_vm = set_reg 1 (VFloat kSup) (set_reg 2 (VInt 1) loop_vm)"

theorem for_limit_two_to_63_witness:
  "\<forall>E. \<exists>v1. op_forprep E 0 3 limit_vm = Inr (Next v1) \<and> op_forloop E 0 (- 2) v1 = Inr (Next v1)"
proof
  fix E
  have "room 3 limit_vm" "gc_idle limit_vm" "reg limit_vm 0 = VInt 1" "reg limit_vm 1 = VFloat kSup" "reg limit_vm 2 = VInt 1"
    using loop_vm_regs by (auto simp: limit_vm_def loop_regs_def reg_set_reg [where m = 3])
  then show "\<exists>v1. op_forprep E 0 3 limit_vm = Inr (Next v1) \<and> op_forloop E 0 (- 2) v1 = Inr (Next v1)"
    using for_limit_two_to_63 [of 0 limit_vm 1 E 3 "- 2"] by simp
qed

end
