(* ===== verification/Lt_Lower.thy ===== *)
theory Lt_Lower
  imports Lt_Ast Lt_Dump
begin

text \<open>
  Lowering to bytecode: \<open>src/frontend/lowering.cpp\<close>. \<open>FuncState\<close> is the record \<open>func_state\<close>; its \<open>prev\<close>
  chain is the list of the states of the enclosing functions, which name resolution also changes.
  The prototype under construction is a field of the state, and finished nested prototypes are trees
  beside it, as in \<open>Lt_Dump\<close>. The functions \<open>expr\<close>, \<open>statement\<close> and \<open>block\<close> recurse on the syntax tree
  (\<open>lower_expr\<close>, \<open>lower_stmt\<close>, \<open>lower_block\<close>): one definition per kind of node takes the commands of the
  children. Registers and positions are \<open>int\<close>; they are cut to the width of their field where an
  instruction is encoded. Stacks (\<open>break_list\<close>, \<open>loop_break_level\<close>, \<open>block_entry_nactvar\<close>) have their back
  at the head of the list.
\<close>

definition MAXSTACK :: int where "MAXSTACK = 250"
definition MAXUPVAL :: int where "MAXUPVAL = 255"

record local_var =
  lc_name :: string
  lc_reg :: int
  lc_startpc :: int
  lc_active :: bool
  lc_captured :: bool

record label_info =
  li_pc :: int
  li_nactvar :: int

record low_goto =
  gt_name :: string
  gt_jmp_pc :: int
  gt_nactvar :: int

record func_state =
  fs_proto :: proto
  fs_protos :: "ptree list"
  fs_locals :: "local_var list"
  fs_nactvar :: int
  fs_freereg :: int
  fs_maxstack :: int
  fs_reg_hwm :: int
  fs_break_list :: "int list"
  fs_loop_break_level :: "int list"
  fs_labels :: "string \<rightharpoonup> label_info"
  fs_pending_gotos :: "low_goto list"
  fs_block_entry_nactvar :: "int list"
  fs_vararg :: bool
  fs_lastline :: int

text \<open>\<open>lw_alloc\<close> is the address \<open>L->intern\<close> gives to a new string.\<close>

record lowering =
  lw_fs :: func_state
  lw_prev :: "func_state list"
  lw_strs :: strs
  lw_alloc :: "strs \<Rightarrow> ptr"

section \<open>Commands\<close>

type_synonym 'a low = "lowering \<Rightarrow> ('a \<times> lowering) result"

definition l_ret :: "'a \<Rightarrow> 'a low" where
  "l_ret x s = Inr (x, s)"

definition l_bind :: "'a low \<Rightarrow> ('a \<Rightarrow> 'b low) \<Rightarrow> 'b low" where
  "l_bind m f s = rbind (m s) (\<lambda>(x, s'). f x s')"

definition l_then :: "'a low \<Rightarrow> 'b low \<Rightarrow> 'b low" where
  "l_then m n = l_bind m (\<lambda>_. n)"

definition l_panic :: "string \<Rightarrow> 'a low" where
  "l_panic msg s = panic msg"

definition l_get :: "(func_state \<Rightarrow> 'a) \<Rightarrow> 'a low" where
  "l_get f s = Inr (f (lw_fs s), s)"

definition l_upd :: "(func_state \<Rightarrow> func_state) \<Rightarrow> unit low" where
  "l_upd f s = Inr ((), s\<lparr>lw_fs := f (lw_fs s)\<rparr>)"

definition l_when :: "bool \<Rightarrow> unit low \<Rightarrow> unit low" where
  "l_when b m = (if b then m else l_ret ())"

primrec l_all :: "unit low list \<Rightarrow> unit low" where
  "l_all [] = l_ret ()"
| "l_all (m # ms) = l_then m (l_all ms)"

section \<open>FuncState\<close>

definition goto_close_a :: "int \<Rightarrow> int \<Rightarrow> int" where
  "goto_close_a goto_nactvar label_nactvar = (if label_nactvar < goto_nactvar then label_nactvar + 1 else 0)"

definition pc_of :: "func_state \<Rightarrow> int" where
  "pc_of fs = int (length (p_code (fs_proto fs)))"

definition upd_proto :: "(proto \<Rightarrow> proto) \<Rightarrow> func_state \<Rightarrow> func_state" where
  "upd_proto f fs = fs\<lparr>fs_proto := f (fs_proto fs)\<rparr>"

definition emit :: "instruction \<Rightarrow> int \<Rightarrow> func_state \<Rightarrow> func_state" where
  "emit i line fs =
     upd_proto (\<lambda>p. p\<lparr>p_code := p_code p @ [i], p_lineinfo := p_lineinfo p @ [if line < 0 then fs_lastline fs else line]\<rparr>) fs"

definition code_abc_at :: "int \<Rightarrow> opcode \<Rightarrow> int \<Rightarrow> int \<Rightarrow> int \<Rightarrow> unit low" where
  "code_abc_at line op a b c = l_upd (emit (encode_abc op (word_of_int a) (word_of_int b) (word_of_int c)) line)"

definition code_abc :: "opcode \<Rightarrow> int \<Rightarrow> int \<Rightarrow> int \<Rightarrow> unit low" where
  "code_abc = code_abc_at (- 1)"

definition code_abx_at :: "int \<Rightarrow> opcode \<Rightarrow> int \<Rightarrow> int \<Rightarrow> unit low" where
  "code_abx_at line op a bx = l_upd (emit (encode_abx op (word_of_int a) (word_of_int bx)) line)"

definition code_abx :: "opcode \<Rightarrow> int \<Rightarrow> int \<Rightarrow> unit low" where
  "code_abx = code_abx_at (- 1)"

definition code_asbx :: "opcode \<Rightarrow> int \<Rightarrow> int \<Rightarrow> int low" where
  "code_asbx op a sbx = l_then (l_upd (emit (encode_asbx op (word_of_int a) sbx) (- 1))) (l_get (\<lambda>fs. pc_of fs - 1))"

definition set_code :: "int \<Rightarrow> instruction \<Rightarrow> func_state \<Rightarrow> func_state" where
  "set_code pc i = upd_proto (\<lambda>p. p\<lparr>p_code := (p_code p)[nat pc := i]\<rparr>)"

text \<open>The opcode byte is kept; code holds encoded opcodes only.\<close>

definition retarget :: "instruction \<Rightarrow> int \<Rightarrow> instruction" where
  "retarget i sbx = (case opcode_of (op_get i) of Some op \<Rightarrow> encode_asbx op (op_a i) sbx | None \<Rightarrow> i)"

definition fix_sbx :: "int \<Rightarrow> int \<Rightarrow> unit low" where
  "fix_sbx pc dest = l_upd (\<lambda>fs. set_code pc (retarget (p_code (fs_proto fs) ! nat pc) (dest - (pc + 1))) fs)"

text \<open>\<open>fix_sbx (pc, fs.pc ())\<close>\<close>

definition fix_here :: "int \<Rightarrow> unit low" where
  "fix_here pc = l_bind (l_get pc_of) (fix_sbx pc)"

definition error_limit :: "func_state \<Rightarrow> int \<Rightarrow> string \<Rightarrow> 'a result" where
  "error_limit fs limit what =
     panic (''too many '' @ what @ '' (limit is '' @ dec_int limit @ '') in '' @
       (if p_linedefined (fs_proto fs) = 0 then ''main function'' else ''function at line '' @ dec_int (p_linedefined (fs_proto fs))))"

definition check_limit :: "int \<Rightarrow> int \<Rightarrow> string \<Rightarrow> unit low" where
  "check_limit v limit what s = (if limit < v then error_limit (lw_fs s) limit what else Inr ((), s))"

definition set_freereg :: "int \<Rightarrow> unit low" where
  "set_freereg r = l_upd (\<lambda>fs. fs\<lparr>fs_freereg := r\<rparr>)"

definition free_to_nactvar :: "unit low" where
  "free_to_nactvar = l_upd (\<lambda>fs. fs\<lparr>fs_freereg := fs_nactvar fs\<rparr>)"

definition raise_maxstack :: "int \<Rightarrow> unit low" where
  "raise_maxstack n = l_upd (\<lambda>fs. fs\<lparr>fs_maxstack := max (fs_maxstack fs) n\<rparr>)"

definition set_lastline :: "int \<Rightarrow> unit low" where
  "set_lastline line = l_upd (\<lambda>fs. fs\<lparr>fs_lastline := line\<rparr>)"

text \<open>\<open>if (line > 0) fs.lastline = line;\<close>\<close>

definition line_mark :: "int \<Rightarrow> unit low" where
  "line_mark line = l_when (0 < line) (set_lastline line)"

definition reserve :: "int \<Rightarrow> unit low" where
  "reserve n =
     l_then (l_upd (\<lambda>fs. let r = fs_freereg fs + n in
       fs\<lparr>fs_freereg := r, fs_reg_hwm := max (fs_reg_hwm fs) r, fs_maxstack := max (fs_maxstack fs) r\<rparr>))
     (l_bind (l_get fs_freereg) (\<lambda>r. check_limit r (MAXSTACK - 1) ''registers''))"

definition new_reg :: "int low" where
  "new_reg = l_bind (l_get fs_freereg) (\<lambda>r. l_then (reserve 1) (l_ret r))"

definition free_reg :: "int \<Rightarrow> unit low" where
  "free_reg r = l_upd (\<lambda>fs. if fs_nactvar fs \<le> r then fs\<lparr>fs_freereg := r\<rparr> else fs)"

text \<open>Two values are the same bits exactly when they are the same value of the model.\<close>

definition const_index :: "tvalue \<Rightarrow> func_state \<Rightarrow> int \<times> func_state" where
  "const_index v fs =
     (let ks = p_constants (fs_proto fs) in
      case find (\<lambda>i. ks ! i = v) [0..<length ks] of
        Some i \<Rightarrow> (int i, fs)
      | None \<Rightarrow> (int (length ks), upd_proto (\<lambda>p. p\<lparr>p_constants := ks @ [v]\<rparr>) fs))"

definition l_const :: "tvalue \<Rightarrow> int low" where
  "l_const v s = (let (i, fs) = const_index v (lw_fs s) in Inr (i, s\<lparr>lw_fs := fs\<rparr>))"

definition l_intern :: "string \<Rightarrow> tvalue low" where
  "l_intern str s = (let (p, HS) = st_intern (lw_alloc s (lw_strs s)) str (lw_strs s) in Inr (VString p, s\<lparr>lw_strs := HS\<rparr>))"

definition string_k :: "string \<Rightarrow> int low" where
  "string_k str = l_bind (l_intern str) l_const"

definition push_local :: "string \<Rightarrow> int \<Rightarrow> unit low" where
  "push_local name reg =
     l_then (l_bind (l_get fs_nactvar) (\<lambda>n. check_limit (n + 1) MAXVARS ''local variables''))
     (l_upd (\<lambda>fs. let n = max (fs_nactvar fs) (reg + 1) in
        fs\<lparr>fs_locals := fs_locals fs @ [\<lparr>lc_name = name, lc_reg = reg, lc_startpc = pc_of fs, lc_active = True, lc_captured = False\<rparr>],
           fs_nactvar := n, fs_freereg := max (fs_freereg fs) n\<rparr>))"

definition closed_var :: "func_state \<Rightarrow> local_var \<Rightarrow> loc_var" where
  "closed_var fs l = \<lparr>lv_name = lc_name l, lv_reg = lc_reg l, lv_startpc = lc_startpc l, lv_endpc = pc_of fs\<rparr>"

text \<open>The locals from \<open>n\<close> on leave the scope, and are recorded in the order of their declaration.\<close>

definition close_locals :: "nat \<Rightarrow> func_state \<Rightarrow> func_state" where
  "close_locals n fs =
     upd_proto (\<lambda>p. p\<lparr>p_locvars := p_locvars p @ map (closed_var fs) (drop n (fs_locals fs))\<rparr>) (fs\<lparr>fs_locals := take n (fs_locals fs)\<rparr>)"

definition top_reg :: "local_var list \<Rightarrow> int" where
  "top_reg ls = foldl (\<lambda>m l. max m (lc_reg l + 1)) 0 ls"

definition flush_locvars_to :: "nat \<Rightarrow> unit low" where
  "flush_locvars_to n = l_upd (\<lambda>fs. let fs' = close_locals n fs in fs'\<lparr>fs_nactvar := top_reg (fs_locals fs')\<rparr>)"

definition lowest :: "int list \<Rightarrow> int" where
  "lowest rs = foldl (\<lambda>m r. if m < 0 \<or> r < m then r else m) (- 1) rs"

definition highest :: "int list \<Rightarrow> int" where
  "highest rs = foldl (\<lambda>m r. if m < 0 \<or> m < r then r else m) (- 1) rs"

definition captured_close_level :: "func_state \<Rightarrow> int" where
  "captured_close_level fs = lowest (map lc_reg (filter (\<lambda>l. lc_active l \<and> lc_captured l) (fs_locals fs)))"

text \<open>The last instruction does not fall through.\<close>

definition terminal :: "func_state \<Rightarrow> bool" where
  "terminal fs \<longleftrightarrow>
     p_code (fs_proto fs) \<noteq> [] \<and>
     (let op = op_get (last (p_code (fs_proto fs))) in op = opcode_num OP_RETURN \<or> op = opcode_num OP_TAILCALL)"

definition leave_block :: "nat \<Rightarrow> bool \<Rightarrow> unit low" where
  "leave_block n clear_dead =
     l_bind (l_get (\<lambda>fs. rev (drop n (fs_locals fs)))) (\<lambda>dead.
       let close_level = lowest (map lc_reg (filter lc_captured dead));
           plain = map lc_reg (filter (\<lambda>l. \<not> lc_captured l) dead);
           nil_from = lowest plain; nil_to = highest plain in
       l_then (l_upd (close_locals n))
       (l_then (l_bind (l_get fs_reg_hwm) (\<lambda>hwm.
          let clear_to = max nil_to (hwm - 1) in
          l_when (clear_dead \<and> 0 \<le> nil_from \<and> close_level < 0 \<and> nil_from \<le> clear_to)
            (code_abc OP_LOADNIL nil_from (clear_to - nil_from) 0)))
       (l_then (l_upd (\<lambda>fs. fs\<lparr>fs_nactvar := top_reg (filter lc_active (fs_locals fs))\<rparr>))
       (l_then (l_bind (l_get terminal) (\<lambda>t.
          if 0 \<le> close_level \<and> \<not> t
          then l_then (code_asbx OP_JMP (close_level + 1) 0)
                 (l_upd (\<lambda>fs. fs\<lparr>fs_freereg := max (fs_reg_hwm fs) (fs_nactvar fs)\<rparr>))
          else free_to_nactvar))
       (l_upd (\<lambda>fs. fs\<lparr>fs_reg_hwm := max (fs_reg_hwm fs) (fs_freereg fs)\<rparr>))))))"

definition find_local :: "string \<Rightarrow> func_state \<Rightarrow> int" where
  "find_local name fs =
     (case find (\<lambda>l. lc_active l \<and> lc_name l = name) (rev (fs_locals fs)) of Some l \<Rightarrow> lc_reg l | None \<Rightarrow> - 1)"

section \<open>Names\<close>

datatype exp_kind = KVoid | KRelocable | KNonrelocable | KConstant | KLocal | KUpval | KGlobal | KIndexed | KCall

datatype index_key = KeyReg | KeyIntImm | KeyConstStr

record expdesc =
  ed_kind :: exp_kind
  ed_info :: int
  ed_reg :: int
  ed_k :: tvalue
  ed_table :: int
  ed_key :: int
  ed_index_key :: index_key

definition exp0 :: expdesc where
  "exp0 = \<lparr>ed_kind = KVoid, ed_info = 0, ed_reg = - 1, ed_k = VNil, ed_table = - 1, ed_key = - 1, ed_index_key = KeyReg\<rparr>"

definition exp_in :: "int \<Rightarrow> expdesc" where
  "exp_in r = exp0\<lparr>ed_kind := KNonrelocable, ed_reg := r\<rparr>"

definition expr_const :: "tvalue \<Rightarrow> expdesc" where
  "expr_const v = exp0\<lparr>ed_kind := KConstant, ed_k := v\<rparr>"

definition mark_local_captured :: "int \<Rightarrow> func_state \<Rightarrow> func_state" where
  "mark_local_captured reg fs =
     fs\<lparr>fs_locals := map (\<lambda>l. if lc_active l \<and> lc_reg l = reg then l\<lparr>lc_captured := True\<rparr> else l) (fs_locals fs)\<rparr>"

definition upval_index :: "(upval_desc \<Rightarrow> bool) \<Rightarrow> func_state \<Rightarrow> nat option" where
  "upval_index P fs = (let us = p_upvalues (fs_proto fs) in find (\<lambda>i. P (us ! i)) [0..<length us])"

text \<open>The functions on names get the state of a function and those of the enclosing functions.\<close>

definition add_upval :: "string \<Rightarrow> bool \<Rightarrow> int \<Rightarrow> func_state \<Rightarrow> func_state list \<Rightarrow> (int \<times> func_state \<times> func_state list) result" where
  "add_upval name instack idx fs prev =
     (case upval_index (\<lambda>u. ud_instack u = instack \<and> ud_idx u = word_of_int idx) fs of
        Some i \<Rightarrow> Inr (int i, fs, prev)
      | None \<Rightarrow>
          (let us = p_upvalues (fs_proto fs) in
           if MAXUPVAL < int (length us) + 1 then error_limit fs MAXUPVAL ''upvalues''
           else Inr (int (length us),
             upd_proto (\<lambda>p. p\<lparr>p_upvalues := us @ [\<lparr>ud_instack = instack, ud_idx = word_of_int idx, ud_name = name\<rparr>]\<rparr>) fs,
             case prev of [] \<Rightarrow> [] | q # qs \<Rightarrow> (if instack then mark_local_captured idx q else q) # qs)))"

fun ensure_env_upval :: "func_state \<Rightarrow> func_state list \<Rightarrow> (int \<times> func_state \<times> func_state list) result" where
  "ensure_env_upval fs [] =
     (case upval_index (\<lambda>u. ud_name u = ''_ENV'') fs of
        Some i \<Rightarrow> Inr (int i, fs, [])
      | None \<Rightarrow> panic ''_ENV upvalue missing in main chunk'')"
| "ensure_env_upval fs (q # qs) =
     (case upval_index (\<lambda>u. ud_name u = ''_ENV'') fs of
        Some i \<Rightarrow> Inr (int i, fs, q # qs)
      | None \<Rightarrow>
          (if 0 \<le> find_local ''_ENV'' q then add_upval ''_ENV'' True (find_local ''_ENV'' q) fs (q # qs)
           else case upval_index (\<lambda>u. ud_name u = ''_ENV'') q of
             Some i \<Rightarrow> add_upval ''_ENV'' False (int i) fs (q # qs)
           | None \<Rightarrow> rbind (ensure_env_upval q qs) (\<lambda>(parent, q', qs'). add_upval ''_ENV'' False parent fs (q' # qs'))))"

type_synonym names = "func_state \<times> func_state list \<times> strs"

text \<open>A global: \<open>_ENV[name]\<close>, with \<open>_ENV\<close> a local of this function (\<open>key\<close> is -2) or an upvalue.\<close>

definition global_var :: "(strs \<Rightarrow> ptr) \<Rightarrow> string \<Rightarrow> names \<Rightarrow> (expdesc \<times> names) result" where
  "global_var al name nm =
     (let (fs, prev, HS) = nm; env = find_local ''_ENV'' fs in
      rbind (if 0 \<le> env then Inr (0, fs, prev) else ensure_env_upval fs prev) (\<lambda>(_, fs1, prev1).
        let (p, HS') = st_intern (al HS) name HS; (k, fs2) = const_index (VString p) fs1;
            e = exp0\<lparr>ed_kind := KGlobal, ed_info := k\<rparr>
        in Inr (if 0 \<le> env then e\<lparr>ed_table := env, ed_key := - 2\<rparr> else e, fs2, prev1, HS')))"

text \<open>A local or an upvalue of this function.\<close>

definition own_var :: "string \<Rightarrow> func_state \<Rightarrow> expdesc option" where
  "own_var name fs =
     (if 0 \<le> find_local name fs then Some (exp0\<lparr>ed_kind := KLocal, ed_info := find_local name fs\<rparr>)
      else map_option (\<lambda>i. exp0\<lparr>ed_kind := KUpval, ed_info := int i\<rparr>) (upval_index (\<lambda>u. ud_name u = name) fs))"

fun search_var :: "(strs \<Rightarrow> ptr) \<Rightarrow> string \<Rightarrow> func_state \<Rightarrow> func_state list \<Rightarrow> strs \<Rightarrow> (expdesc \<times> names) result" where
  "search_var al name fs [] HS =
     (case own_var name fs of Some e \<Rightarrow> Inr (e, fs, [], HS) | None \<Rightarrow> global_var al name (fs, [], HS))"
| "search_var al name fs (q # qs) HS =
     (case own_var name fs of
        Some e \<Rightarrow> Inr (e, fs, q # qs, HS)
      | None \<Rightarrow>
          rbind (search_var al name q qs HS) (\<lambda>(pe, q', qs', HS').
            if ed_kind pe = KLocal \<or> ed_kind pe = KUpval
            then rbind (add_upval name (ed_kind pe = KLocal) (ed_info pe) fs (q' # qs')) (\<lambda>(idx, fs', prev').
                   Inr (exp0\<lparr>ed_kind := KUpval, ed_info := idx\<rparr>, fs', prev', HS'))
            else global_var al name (fs, q' # qs', HS')))"

definition l_search_var :: "string \<Rightarrow> expdesc low" where
  "l_search_var name s =
     rbind (search_var (lw_alloc s) name (lw_fs s) (lw_prev s) (lw_strs s)) (\<lambda>(e, fs, prev, HS).
       Inr (e, s\<lparr>lw_fs := fs, lw_prev := prev, lw_strs := HS\<rparr>))"

definition l_env_upval :: "int low" where
  "l_env_upval s =
     rbind (ensure_env_upval (lw_fs s) (lw_prev s)) (\<lambda>(i, fs, prev). Inr (i, s\<lparr>lw_fs := fs, lw_prev := prev\<rparr>))"

section \<open>Discharging expressions\<close>

definition const_uint8_index :: "tvalue \<Rightarrow> int option" where
  "const_uint8_index v =
     (case v of
        VInt n \<Rightarrow> if sint n < 0 \<or> 255 < sint n then None else Some (sint n)
      | VFloat d \<Rightarrow>
          if isnan d \<or> \<not> f_eq d (f_floor d) then None
          else if f_lt d (f_of_int 0) \<or> f_lt (f_of_int 255) d then None
          else let i = sint (f64_to_i64 d) in if i < 0 \<or> 255 < i then None else Some i
      | _ \<Rightarrow> None)"

definition emit_get_index :: "int \<Rightarrow> expdesc \<Rightarrow> unit low" where
  "emit_get_index dest idx =
     code_abc (case ed_index_key idx of KeyIntImm \<Rightarrow> OP_GETI | KeyConstStr \<Rightarrow> OP_GETFIELD | KeyReg \<Rightarrow> OP_GETTABLE)
       dest (ed_table idx) (ed_key idx)"

definition emit_set_index :: "expdesc \<Rightarrow> int \<Rightarrow> unit low" where
  "emit_set_index idx val_reg =
     code_abc (case ed_index_key idx of KeyIntImm \<Rightarrow> OP_SETI | KeyConstStr \<Rightarrow> OP_SETFIELD | KeyReg \<Rightarrow> OP_SETTABLE)
       (ed_table idx) (ed_key idx) val_reg"

definition move_to :: "int \<Rightarrow> int \<Rightarrow> unit low" where
  "move_to dest r = l_when (r \<noteq> dest) (code_abc OP_MOVE dest r 0)"

definition last_call :: "instruction list \<Rightarrow> nat option" where
  "last_call is = find (\<lambda>i. op_get (is ! i) = opcode_num OP_CALL) (rev [0..<length is])"

definition patch_last_call_to_tailcall :: "bool low" where
  "patch_last_call_to_tailcall =
     l_bind (l_get (\<lambda>fs. p_code (fs_proto fs))) (\<lambda>is.
       case last_call is of
         None \<Rightarrow> l_ret False
       | Some i \<Rightarrow> l_then (l_upd (set_code (int i) (encode_abc OP_TAILCALL (op_a (is ! i)) (op_b (is ! i)) 0))) (l_ret True))"

text \<open>The register of the last call, whose field of results is set.\<close>

definition set_call_results :: "u8 \<Rightarrow> int low" where
  "set_call_results c =
     l_bind (l_get (\<lambda>fs. p_code (fs_proto fs))) (\<lambda>is.
       case last_call is of
         None \<Rightarrow> l_ret 0
       | Some i \<Rightarrow>
           l_then (l_upd (set_code (int i) (encode_abc OP_CALL (op_a (is ! i)) (op_b (is ! i)) c))) (l_ret (uint (op_a (is ! i)))))"

definition patch_last_call_results :: "int \<Rightarrow> int low" where
  "patch_last_call_results nresults = set_call_results (if nresults < 0 then 0 else word_of_int (nresults + 1))"

text \<open>\<open>LOADK\<close> into a new register.\<close>

definition load_k :: "int \<Rightarrow> int low" where
  "load_k k = l_bind new_reg (\<lambda>r. l_then (code_abx OP_LOADK r k) (l_ret r))"

definition discharge_global :: "expdesc \<Rightarrow> int low" where
  "discharge_global e =
     l_bind new_reg (\<lambda>r.
       l_then
         (if ed_key e = - 2 then
            (if ed_info e \<le> 255 then code_abc OP_GETFIELD r (ed_table e) (ed_info e)
             else l_bind (load_k (ed_info e)) (\<lambda>kreg.
                    l_then (code_abc OP_GETTABLE r (ed_table e) kreg) (set_freereg (r + 1))))
          else l_bind l_env_upval (\<lambda>env.
            if ed_info e \<le> 255 then code_abc OP_GETTABUP r env (ed_info e)
            else l_then (code_abc OP_GETUPVAL r env 0)
                   (l_bind (load_k (ed_info e)) (\<lambda>kreg.
                      l_then (code_abc OP_GETTABLE r r kreg) (set_freereg (r + 1))))))
         (l_ret r))"

definition discharge_const :: "tvalue \<Rightarrow> int low" where
  "discharge_const v =
     l_bind new_reg (\<lambda>r.
       l_then
         (case v of
            VNil \<Rightarrow> code_abc OP_LOADNIL r 0 0
          | VBool b \<Rightarrow> code_abc OP_LOADBOOL r (if b then 1 else 0) 0
          | VInt n \<Rightarrow>
              if - 32768 \<le> sint n \<and> sint n \<le> 32767 then l_then (code_asbx OP_LOADINT r (sint n)) (l_ret ())
              else l_bind (l_const v) (code_abx OP_LOADK r)
          | _ \<Rightarrow> l_bind (l_const v) (code_abx OP_LOADK r))
         (l_ret r))"

text \<open>\<open>exp2reg\<close>: the register that holds the value after \<open>discharge\<close>.\<close>

definition exp2reg :: "expdesc \<Rightarrow> int low" where
  "exp2reg e =
     (case ed_kind e of
        KLocal \<Rightarrow> l_ret (ed_info e)
      | KUpval \<Rightarrow> l_bind new_reg (\<lambda>r. l_then (code_abc OP_GETUPVAL r (ed_info e) 0) (l_ret r))
      | KGlobal \<Rightarrow> discharge_global e
      | KConstant \<Rightarrow> discharge_const (ed_k e)
      | KIndexed \<Rightarrow> l_bind new_reg (\<lambda>r. l_then (emit_get_index r e) (l_then (set_freereg (r + 1)) (l_ret r)))
      | KCall \<Rightarrow> l_ret (ed_info e)
      | KRelocable \<Rightarrow> new_reg
      | _ \<Rightarrow> l_ret (ed_reg e))"

text \<open>The value of a command in a register, and moved to \<open>dest\<close>.\<close>

definition reg_of :: "expdesc low \<Rightarrow> int low" where
  "reg_of m = l_bind m exp2reg"

definition into_reg :: "int \<Rightarrow> expdesc low \<Rightarrow> unit low" where
  "into_reg dest m = l_bind (reg_of m) (move_to dest)"

section \<open>Expressions\<close>

definition bin_arith_op :: "bin_op \<Rightarrow> opcode option" where
  "bin_arith_op op =
     (case op of
        Add \<Rightarrow> Some OP_ADD | Sub \<Rightarrow> Some OP_SUB | Mul \<Rightarrow> Some OP_MUL | Div \<Rightarrow> Some OP_DIV | IDiv \<Rightarrow> Some OP_IDIV
      | Mod \<Rightarrow> Some OP_MOD | Pow \<Rightarrow> Some OP_POW | Band \<Rightarrow> Some OP_BAND | Bor \<Rightarrow> Some OP_BOR | Bxor \<Rightarrow> Some OP_BXOR
      | Shl \<Rightarrow> Some OP_SHL | Shr \<Rightarrow> Some OP_SHR | _ \<Rightarrow> None)"

definition vararg_expr :: "expdesc low" where
  "vararg_expr = l_bind new_reg (\<lambda>r. l_then (code_abc OP_VARARG r 2 0) (l_ret (exp_in r)))"

definition paren_expr :: "expdesc low \<Rightarrow> expdesc low" where
  "paren_expr m =
     l_bind m (\<lambda>e. l_ret (if ed_kind e = KCall then e\<lparr>ed_reg := ed_info e, ed_kind := KNonrelocable\<rparr> else e))"

text \<open>The minus of a constant is a constant.\<close>

definition fold_neg :: "un_op \<Rightarrow> expdesc \<Rightarrow> tvalue option" where
  "fold_neg op o1 =
     (if op = Neg \<and> ed_kind o1 = KConstant
      then (case ed_k o1 of VInt n \<Rightarrow> Some (VInt (0 - n)) | VFloat d \<Rightarrow> Some (VFloat (f_neg d)) | _ \<Rightarrow> None)
      else None)"

definition un_opcode :: "un_op \<Rightarrow> opcode" where
  "un_opcode op = (case op of Neg \<Rightarrow> OP_UNM | Not \<Rightarrow> OP_NOT | Len \<Rightarrow> OP_LEN | Bnot \<Rightarrow> OP_BNOT)"

definition un_expr :: "int \<Rightarrow> un_op \<Rightarrow> expdesc low \<Rightarrow> expdesc low" where
  "un_expr line op m =
     l_bind m (\<lambda>o1.
       case fold_neg op o1 of
         Some v \<Rightarrow> l_ret (expr_const v)
       | None \<Rightarrow>
           l_bind (exp2reg o1) (\<lambda>r.
           l_bind new_reg (\<lambda>dest.
           l_then (code_abc_at (if 0 < line then line else - 1) (un_opcode op) dest r 0)
           (l_then (line_mark line)
           (l_then (free_reg r) (l_ret (exp_in dest)))))))"

definition is_rel :: "bin_op \<Rightarrow> bool" where
  "is_rel op \<longleftrightarrow> op \<in> {OpEq, OpNe, OpLt, OpLe, OpGt, OpGe}"

text \<open>The comparison of an operator, and whether its operands are exchanged.\<close>

definition rel_code :: "bin_op \<Rightarrow> opcode \<times> bool" where
  "rel_code op =
     (case op of
        OpLt \<Rightarrow> (OP_LT, False) | OpGt \<Rightarrow> (OP_LT, True) | OpLe \<Rightarrow> (OP_LE, False) | OpGe \<Rightarrow> (OP_LE, True) | _ \<Rightarrow> (OP_EQ, False))"

definition compare_regs :: "bin_op \<Rightarrow> int \<Rightarrow> int \<Rightarrow> int \<Rightarrow> unit low" where
  "compare_regs op acond rb rc =
     (let (cmp, swap) = rel_code op in code_abc cmp acond (if swap then rc else rb) (if swap then rb else rc))"

definition jmp0 :: "int low" where
  "jmp0 = code_asbx OP_JMP 0 0"

definition emit_rel_failjmp :: "int \<Rightarrow> bin_op \<Rightarrow> expdesc low \<Rightarrow> expdesc low \<Rightarrow> int low" where
  "emit_rel_failjmp free_floor op ml mr =
     l_then (l_upd (\<lambda>fs. fs\<lparr>fs_freereg := max (fs_freereg fs) free_floor\<rparr>))
     (l_bind (reg_of ml) (\<lambda>rb.
      l_bind (reg_of mr) (\<lambda>rc.
      l_then (compare_regs op (if op = OpNe then 1 else 0) rb rc)
      (l_bind jmp0 (\<lambda>j. l_then (set_freereg free_floor) (l_ret j))))))"

definition and_rel_expr :: "bin_op \<Rightarrow> expdesc low \<Rightarrow> expdesc low \<Rightarrow> bin_op \<Rightarrow> expdesc low \<Rightarrow> expdesc low \<Rightarrow> expdesc low" where
  "and_rel_expr op1 a1 b1 op2 a2 b2 =
     l_bind (l_get fs_freereg) (\<lambda>free_floor.
     l_bind (emit_rel_failjmp free_floor op1 a1 b1) (\<lambda>j1.
     l_bind (emit_rel_failjmp free_floor op2 a2 b2) (\<lambda>j2.
     l_then (set_freereg free_floor)
     (l_bind new_reg (\<lambda>dest.
      l_then (code_abc OP_LOADBOOL dest 1 0)
      (l_bind jmp0 (\<lambda>jend.
      l_then (fix_here j1)
      (l_then (fix_here j2)
      (l_then (code_abc OP_LOADBOOL dest 0 0)
      (l_then (fix_here jend)
      (l_then (set_freereg (dest + 1)) (l_ret (exp_in dest)))))))))))))"

definition and_or_expr :: "bool \<Rightarrow> expdesc low \<Rightarrow> expdesc low \<Rightarrow> expdesc low" where
  "and_or_expr is_and ml mr =
     l_bind (reg_of ml) (\<lambda>lr.
     l_bind new_reg (\<lambda>dest.
     l_then (code_abc OP_MOVE dest lr 0)
     (l_then (code_abc OP_TEST dest 0 (if is_and then 0 else 1))
     (l_bind jmp0 (\<lambda>jend.
      l_then (set_freereg (dest + 1))
      (l_then (into_reg dest mr)
      (l_then (fix_here jend)
      (l_then (set_freereg (dest + 1)) (l_ret (exp_in dest))))))))))"

definition concat_expr :: "expdesc low \<Rightarrow> expdesc low \<Rightarrow> expdesc low" where
  "concat_expr ml mr =
     l_bind (reg_of ml) (\<lambda>lr.
     l_bind (reg_of mr) (\<lambda>rr.
     l_bind new_reg (\<lambda>a.
     l_then (l_bind (l_get fs_freereg) (\<lambda>f. l_when (f < a + 2) (reserve (a + 2 - f))))
     (l_then (move_to a lr)
     (l_then (move_to (a + 1) rr)
     (l_then (code_abc OP_CONCAT a a (a + 1))
     (l_then (set_freereg (a + 1)) (l_ret (exp_in a)))))))))"

definition rel_expr :: "bin_op \<Rightarrow> expdesc low \<Rightarrow> expdesc low \<Rightarrow> expdesc low" where
  "rel_expr op ml mr =
     l_bind (reg_of ml) (\<lambda>rb.
     l_bind (reg_of mr) (\<lambda>rc.
     l_bind new_reg (\<lambda>dest.
     l_then (compare_regs op (if op = OpNe then 0 else 1) rb rc)
     (l_then (code_asbx OP_JMP 0 1)
     (l_then (code_abc OP_LOADBOOL dest 0 1)
     (l_then (code_abc OP_LOADBOOL dest 1 0) (l_ret (exp_in dest))))))))"

definition arith_expr :: "int \<Rightarrow> opcode \<Rightarrow> expdesc low \<Rightarrow> expdesc low \<Rightarrow> expdesc low" where
  "arith_expr line op ml mr =
     l_bind (reg_of ml) (\<lambda>rb.
     l_bind (reg_of mr) (\<lambda>rc.
     l_bind (l_get fs_nactvar) (\<lambda>n.
     l_bind (if n \<le> rb then l_ret rb else if n \<le> rc then l_ret rc else new_reg) (\<lambda>dest.
     l_bind (l_get (\<lambda>fs. if 0 < line then line else fs_lastline fs)) (\<lambda>op_line.
     l_then (code_abc_at op_line op dest rb rc)
     (l_then (set_lastline op_line)
     (l_then (set_freereg (dest + 1)) (l_ret (exp_in dest)))))))))"

definition index_expr :: "expdesc low \<Rightarrow> expdesc low \<Rightarrow> expdesc low" where
  "index_expr mt mk =
     l_bind (reg_of mt) (\<lambda>rt.
     l_bind mk (\<lambda>k.
       let e = exp0\<lparr>ed_kind := KIndexed, ed_table := rt\<rparr>;
           by_reg = l_bind (exp2reg k) (\<lambda>r. l_ret (e\<lparr>ed_key := r\<rparr>)) in
       if ed_kind k = KConstant \<and> const_uint8_index (ed_k k) \<noteq> None
       then l_ret (e\<lparr>ed_index_key := KeyIntImm, ed_key := the (const_uint8_index (ed_k k))\<rparr>)
       else if ed_kind k = KConstant \<and> is_string (ed_k k)
       then l_bind (l_const (ed_k k)) (\<lambda>ki.
              if ki \<le> 255 then l_ret (e\<lparr>ed_index_key := KeyConstStr, ed_key := ki\<rparr>) else by_reg)
       else by_reg))"

definition field_expr :: "expdesc low \<Rightarrow> string \<Rightarrow> expdesc low" where
  "field_expr mt field =
     l_bind (reg_of mt) (\<lambda>rt.
     l_bind (string_k field) (\<lambda>ki.
       let e = exp0\<lparr>ed_kind := KIndexed, ed_table := rt\<rparr> in
       if ki \<le> 255 then l_ret (e\<lparr>ed_index_key := KeyConstStr, ed_key := ki\<rparr>)
       else l_bind (load_k ki) (\<lambda>rk. l_ret (e\<lparr>ed_key := rk\<rparr>))))"

fun is_vararg_expr :: "expr \<Rightarrow> bool" where
  "is_vararg_expr (ExprVararg _) = True"
| "is_vararg_expr _ = False"

fun is_call_expr :: "expr \<Rightarrow> bool" where
  "is_call_expr (ExprCall _ _ _ _ _) = True"
| "is_call_expr _ = False"

text \<open>The arguments from \<open>freereg\<close> on; whether the last one stands for any number of values.\<close>

fun call_args :: "(expr \<times> expdesc low) list \<Rightarrow> bool low" where
  "call_args [] = l_ret False"
| "call_args ((arg, m) # args) =
     l_bind (l_get fs_freereg) (\<lambda>dest.
       if args = [] \<and> is_vararg_expr arg then
         l_then (set_freereg dest) (l_then (reserve 1) (l_then (code_abc OP_VARARG dest 0 0) (l_ret True)))
       else if args = [] \<and> is_call_expr arg then
         l_then (set_freereg dest) (l_then m (l_then (patch_last_call_results (- 1)) (l_ret True)))
       else
         l_then (set_freereg (dest + 1))
         (l_then (raise_maxstack (dest + 1))
         (l_then (into_reg dest m)
         (l_then (set_freereg (dest + 1)) (call_args args)))))"

definition call_callee :: "int \<Rightarrow> expdesc low \<Rightarrow> unit low" where
  "call_callee base m =
     l_bind m (\<lambda>c. if ed_kind c = KIndexed then emit_get_index base c else l_bind (exp2reg c) (move_to base))"

definition call_self :: "int \<Rightarrow> string \<Rightarrow> unit low" where
  "call_self base meth =
     l_bind new_reg (\<lambda>key.
     l_bind (string_k meth) (\<lambda>k.
     l_then (code_abx OP_LOADK key k)
     (l_then (code_abc OP_SELF base base key) (set_freereg (base + 2)))))"

definition call_expr :: "int \<Rightarrow> expdesc low \<Rightarrow> (expr \<times> expdesc low) list \<Rightarrow> bool \<Rightarrow> string \<Rightarrow> expdesc low" where
  "call_expr line mc args is_method meth =
     l_then (l_upd (\<lambda>fs. if fs_freereg fs < fs_nactvar fs then fs\<lparr>fs_freereg := fs_nactvar fs\<rparr> else fs))
     (l_bind (l_get fs_freereg) (\<lambda>base0.
      l_then (reserve 1)
      (l_then (call_callee base0 mc)
      (l_bind (l_get fs_nactvar) (\<lambda>n.
       l_bind (if base0 < n then l_bind new_reg (\<lambda>nb. l_then (code_abc OP_MOVE nb base0 0) (l_ret nb)) else l_ret base0) (\<lambda>base.
       l_then (set_freereg (base + 1))
       (l_then (l_when is_method (call_self base meth))
       (l_bind (call_args args) (\<lambda>open_end.
        l_bind (l_get fs_freereg) (\<lambda>top.
        l_then (code_abc_at (if 0 < line then line else - 1) OP_CALL base (if open_end then 0 else top - base) 2)
        (l_then (line_mark line)
        (l_then (set_freereg (base + 1))
        (l_ret (exp0\<lparr>ed_kind := KCall, ed_info := base, ed_reg := base\<rparr>))))))))))))))"

text \<open>A field of a constructor: its name, the command of its key, its value and the command of it.\<close>

type_synonym low_field = "string \<times> expdesc low option \<times> expr \<times> expdesc low"

definition named_field :: "int \<Rightarrow> string \<Rightarrow> expdesc low \<Rightarrow> unit low" where
  "named_field r name mv =
     l_bind (string_k name) (\<lambda>ki.
     l_bind (reg_of mv) (\<lambda>rv.
       if ki \<le> 255 then code_abc OP_SETFIELD r ki rv
       else l_bind (load_k ki) (\<lambda>k. code_abc OP_SETTABLE r k rv)))"

definition keyed_field :: "int \<Rightarrow> expdesc low \<Rightarrow> expdesc low \<Rightarrow> unit low" where
  "keyed_field r mk mv =
     l_bind mk (\<lambda>k.
     l_bind (reg_of mv) (\<lambda>rv.
       let by_reg = l_bind (exp2reg k) (\<lambda>rk. code_abc OP_SETTABLE r rk rv) in
       if ed_kind k = KConstant \<and> const_uint8_index (ed_k k) \<noteq> None
       then code_abc OP_SETI r (the (const_uint8_index (ed_k k))) rv
       else if ed_kind k = KConstant \<and> is_string (ed_k k)
       then l_bind (l_const (ed_k k)) (\<lambda>ki. if ki \<le> 255 then code_abc OP_SETFIELD r ki rv else by_reg)
       else by_reg))"

definition array_item :: "low_field \<Rightarrow> bool" where
  "array_item f \<longleftrightarrow> (case f of (name, key, _) \<Rightarrow> name = [] \<and> key = None)"

text \<open>\<open>na\<close> array elements so far, \<open>tostore\<close> of them not flushed; the result says whether the last one
  stands for any number of values.\<close>

fun table_fields :: "int \<Rightarrow> int \<Rightarrow> int \<Rightarrow> low_field list \<Rightarrow> (int \<times> int \<times> bool) low" where
  "table_fields r na tostore [] = l_ret (na, tostore, False)"
| "table_fields r na tostore ((name, key, v, mv) # fds) =
     (if name \<noteq> [] then
        l_then (named_field r name mv) (l_then (set_freereg (r + 1 + tostore)) (table_fields r na tostore fds))
      else case key of
        Some mk \<Rightarrow> l_then (keyed_field r mk mv) (l_then (set_freereg (r + 1 + tostore)) (table_fields r na tostore fds))
      | None \<Rightarrow>
          (let last_array = \<not> list_ex array_item fds; dest = r + 1 + tostore in
           l_then (set_freereg dest)
           (if last_array \<and> is_vararg_expr v then
              l_then (reserve 1) (l_then (code_abc OP_VARARG dest 0 0) (l_ret (na, tostore, True)))
            else if last_array \<and> is_call_expr v then
              l_then mv (l_then (patch_last_call_results (- 1)) (l_ret (na, tostore, True)))
            else
              l_then (into_reg dest mv)
              (l_then (set_freereg (dest + 1))
              (if tostore + 1 = 50 then
                 l_then (code_abc OP_SETLIST r 50 ((na + 1 - 1) div 50 + 1))
                 (l_then (set_freereg (r + 1)) (table_fields r (na + 1) 0 fds))
               else table_fields r (na + 1) (tostore + 1) fds)))))"

definition table_expr :: "low_field list \<Rightarrow> expdesc low" where
  "table_expr fds =
     l_bind new_reg (\<lambda>r.
     l_then (code_abc OP_NEWTABLE r 0 0)
     (l_bind (table_fields r 0 0 fds) (\<lambda>(na, tostore, arr_multret).
      l_then (l_when (0 < tostore \<or> arr_multret)
        (code_abc OP_SETLIST r (if arr_multret then 0 else tostore) (if na = 0 then 1 else (na - 1) div 50 + 1)))
      (l_then (set_freereg (r + 1)) (l_ret (exp_in r))))))"

section \<open>Functions\<close>

definition proto0 :: proto where
  "proto0 = \<lparr>p_code = [], p_constants = [], p_protos = [], p_upvalues = [], p_lineinfo = [], p_locvars = [], p_source = [],
     p_linedefined = 0, p_lastlinedefined = 0, p_maxstack = 0, p_numparams = 0, p_is_vararg = False\<rparr>"

definition func0 :: "proto \<Rightarrow> bool \<Rightarrow> int \<Rightarrow> func_state" where
  "func0 p vararg line =
     \<lparr>fs_proto = p, fs_protos = [], fs_locals = [], fs_nactvar = 0, fs_freereg = 0, fs_maxstack = 0, fs_reg_hwm = 0,
      fs_break_list = [], fs_loop_break_level = [], fs_labels = Map.empty, fs_pending_gotos = [], fs_block_entry_nactvar = [],
      fs_vararg = vararg, fs_lastline = line\<rparr>"

definition enter_function :: "int \<Rightarrow> string list \<Rightarrow> bool \<Rightarrow> unit low" where
  "enter_function line params is_vararg s =
     (let p = proto0\<lparr>p_is_vararg := is_vararg, p_numparams := int (length params), p_source := p_source (fs_proto (lw_fs s)),
                     p_linedefined := line\<rparr>
      in Inr ((), s\<lparr>lw_fs := func0 p is_vararg line, lw_prev := lw_fs s # lw_prev s\<rparr>))"

definition declare_params :: "string list \<Rightarrow> unit low" where
  "declare_params params = l_all (map (\<lambda>n. l_bind new_reg (push_local n)) params)"

definition set_jump :: "int \<Rightarrow> int \<Rightarrow> int \<Rightarrow> unit low" where
  "set_jump pc a sbx = l_upd (set_code pc (encode_asbx OP_JMP (word_of_int a) sbx))"

definition patch_goto :: "low_goto \<Rightarrow> label_info \<Rightarrow> unit low" where
  "patch_goto g info =
     set_jump (gt_jmp_pc g) (goto_close_a (gt_nactvar g) (li_nactvar info)) (li_pc info - (gt_jmp_pc g + 1))"

definition resolve_gotos :: "unit low" where
  "resolve_gotos =
     l_bind (l_get fs_pending_gotos) (\<lambda>gs. l_all (map (\<lambda>g.
       l_bind (l_get (\<lambda>fs. fs_labels fs (gt_name g))) (\<lambda>info.
         case info of
           None \<Rightarrow> l_panic (''no visible label for goto: '' @ gt_name g)
         | Some i \<Rightarrow> patch_goto g i)) gs))"

text \<open>The largest line of a function is at least that of its last instruction.\<close>

definition last_line_defined :: "int \<Rightarrow> int list \<Rightarrow> int" where
  "last_line_defined l lines = foldl (\<lambda>m li. if m < li then li else m) l lines"

text \<open>The finished prototype becomes a child of the enclosing function.\<close>

definition leave_function :: "unit low" where
  "leave_function s =
     (case lw_prev s of
        [] \<Rightarrow> Inr ((), s)
      | q # qs \<Rightarrow> Inr ((), s\<lparr>lw_fs := q\<lparr>fs_protos := fs_protos q @ [PTree (fs_proto (lw_fs s)) (fs_protos (lw_fs s))]\<rparr>, lw_prev := qs\<rparr>))"

definition function_inner :: "int \<Rightarrow> string list \<Rightarrow> unit low \<Rightarrow> int \<Rightarrow> unit low" where
  "function_inner line params body lastline =
     l_then (declare_params params)
     (l_then body
     (l_then resolve_gotos
     (l_then (line_mark lastline)
     (l_then (l_bind (l_get fs_lastline) (\<lambda>l. code_abc_at l OP_RETURN 0 1 0))
     (l_then (flush_locvars_to 0)
     (l_upd (\<lambda>fs. upd_proto (\<lambda>p. p\<lparr>p_lastlinedefined := last_line_defined (if 0 < lastline then lastline else line) (p_lineinfo p),
                                       p_maxstack := max (fs_maxstack fs) 2\<rparr>) fs)))))))"

definition function_expr :: "int \<Rightarrow> string list \<Rightarrow> bool \<Rightarrow> unit low \<Rightarrow> int \<Rightarrow> expdesc low" where
  "function_expr line params is_vararg body lastline =
     l_then (enter_function line params is_vararg)
     (l_then (function_inner line params body lastline)
     (l_then leave_function
     (l_bind new_reg (\<lambda>dest.
      l_then (line_mark lastline)
      (l_then (l_bind (l_get (\<lambda>fs. int (length (fs_protos fs)) - 1)) (code_abx OP_CLOSURE dest)) (l_ret (exp_in dest)))))))"

section \<open>Statements\<close>

definition storevar :: "expdesc \<Rightarrow> int \<Rightarrow> unit low" where
  "storevar var expr_reg =
     (case ed_kind var of
        KLocal \<Rightarrow> code_abc OP_MOVE (ed_info var) expr_reg 0
      | KUpval \<Rightarrow> code_abc OP_SETUPVAL expr_reg (ed_info var) 0
      | KGlobal \<Rightarrow>
          if ed_key var = - 2 then
            (if ed_info var \<le> 255 then code_abc OP_SETFIELD (ed_table var) (ed_info var) expr_reg
             else l_bind (load_k (ed_info var)) (\<lambda>kreg. code_abc OP_SETTABLE (ed_table var) kreg expr_reg))
          else l_bind l_env_upval (\<lambda>env.
            if ed_info var \<le> 255 then code_abc OP_SETTABUP env (ed_info var) expr_reg
            else l_bind new_reg (\<lambda>treg.
                   l_then (code_abc OP_GETUPVAL treg env 0)
                   (l_bind (load_k (ed_info var)) (\<lambda>kreg. code_abc OP_SETTABLE treg kreg expr_reg))))
      | KIndexed \<Rightarrow> emit_set_index var expr_reg
      | _ \<Rightarrow> l_panic ''invalid assignment target'')"

definition label_names :: "stmt list \<Rightarrow> string list" where
  "label_names ss = concat (map (\<lambda>st. case st of LabelStmt _ n \<Rightarrow> [n] | _ \<Rightarrow> []) ss)"

fun is_label_stmt :: "stmt \<Rightarrow> bool" where
  "is_label_stmt (LabelStmt _ _) = True"
| "is_label_stmt _ = False"

text \<open>The labels defined by a block so far, and what they hide.\<close>

type_synonym block_labels = "string list \<times> (string \<rightharpoonup> label_info)"

definition block_label :: "string \<Rightarrow> bool \<Rightarrow> block_labels \<Rightarrow> block_labels low" where
  "block_label name is_last bl =
     (if name \<in> set (fst bl) then l_panic (''label already defined: '' @ name)
      else l_bind (l_get id) (\<lambda>fs.
        let nv = (if is_last then hd (fs_block_entry_nactvar fs) else fs_nactvar fs);
            shadowed = (case fs_labels fs name of Some i \<Rightarrow> (snd bl)(name \<mapsto> i) | None \<Rightarrow> snd bl) in
        l_then (l_upd (\<lambda>fs. fs\<lparr>fs_labels := (fs_labels fs)(name \<mapsto> \<lparr>li_pc = pc_of fs, li_nactvar = nv\<rparr>)\<rparr>))
          (l_ret (name # fst bl, shadowed))))"

text \<open>A jump back to a known label, or one to be patched.\<close>

definition jump_back :: "label_info \<Rightarrow> unit low" where
  "jump_back info =
     l_bind (l_get id) (\<lambda>fs.
       l_then (code_asbx OP_JMP (goto_close_a (fs_nactvar fs) (li_nactvar info)) (li_pc info - (pc_of fs + 1))) (l_ret ()))"

definition jump_later :: "string \<Rightarrow> unit low" where
  "jump_later label =
     l_bind jmp0 (\<lambda>j. l_upd (\<lambda>fs.
       fs\<lparr>fs_pending_gotos := fs_pending_gotos fs @ [\<lparr>gt_name = label, gt_jmp_pc = j, gt_nactvar = fs_nactvar fs\<rparr>]\<rparr>))"

definition goto_known :: "string \<Rightarrow> unit low" where
  "goto_known label =
     l_bind (l_get (\<lambda>fs. fs_labels fs label)) (\<lambda>i. case i of Some info \<Rightarrow> jump_back info | None \<Rightarrow> jump_later label)"

definition block_goto :: "string \<Rightarrow> string list \<Rightarrow> block_labels \<Rightarrow> unit low" where
  "block_goto label names_here bl =
     (if label \<in> set names_here \<and> label \<notin> set (fst bl) then jump_later label else goto_known label)"

fun block_stmts :: "string list \<Rightarrow> bool \<Rightarrow> (stmt \<times> unit low) list \<Rightarrow> block_labels \<Rightarrow> block_labels low" where
  "block_stmts names_here allow_last_label [] bl = l_ret bl"
| "block_stmts names_here allow_last_label ((st, m) # sts) bl =
     (case st of
        LabelStmt _ name \<Rightarrow>
          l_bind (block_label name (allow_last_label \<and> list_all is_label_stmt (map fst sts)) bl)
            (block_stmts names_here allow_last_label sts)
      | GotoStmt _ label \<Rightarrow>
          l_then (block_goto label names_here bl) (block_stmts names_here allow_last_label sts bl)
      | _ \<Rightarrow> l_then m (block_stmts names_here allow_last_label sts bl))"

text \<open>Only gotos opened in this block that name one of its labels are patched.\<close>

definition patch_block_gotos :: "nat \<Rightarrow> string list \<Rightarrow> unit low" where
  "patch_block_gotos pending_before defined_here =
     l_bind (l_get fs_pending_gotos) (\<lambda>gs.
       let here = (\<lambda>g. gt_name g \<in> set defined_here) in
       l_then (l_all (map (\<lambda>g. l_bind (l_get (\<lambda>fs. fs_labels fs (gt_name g))) (\<lambda>i.
           case i of Some info \<Rightarrow> patch_goto g info | None \<Rightarrow> l_ret ())) (filter here (drop pending_before gs))))
         (l_upd (\<lambda>fs. fs\<lparr>fs_pending_gotos := take pending_before gs @ filter (\<lambda>g. \<not> here g) (drop pending_before gs)\<rparr>)))"

definition drop_labels :: "block_labels \<Rightarrow> func_state \<Rightarrow> func_state" where
  "drop_labels bl fs = fs\<lparr>fs_labels := (\<lambda>n. if n \<in> set (fst bl) then snd bl n else fs_labels fs n)\<rparr>"

definition block_cmd :: "bool \<Rightarrow> bool \<Rightarrow> (stmt \<times> unit low) list \<Rightarrow> unit low" where
  "block_cmd allow_last_label close sts =
     l_bind (l_get id) (\<lambda>fs0.
     l_then (l_upd (\<lambda>fs. fs\<lparr>fs_block_entry_nactvar := fs_nactvar fs # fs_block_entry_nactvar fs\<rparr>))
     (l_bind (block_stmts (label_names (map fst sts)) allow_last_label sts ([], Map.empty)) (\<lambda>bl.
      l_then (patch_block_gotos (length (fs_pending_gotos fs0)) (fst bl))
      (l_then (l_upd (drop_labels bl))
      (l_then (l_upd (\<lambda>fs. fs\<lparr>fs_block_entry_nactvar := tl (fs_block_entry_nactvar fs)\<rparr>))
      (l_when close (leave_block (length (fs_locals fs0)) True)))))))"

text \<open>A list of values for \<open>n\<close> registers from \<open>base\<close> on, of which \<open>i\<close> are done; how many registers are set.\<close>

definition move_results :: "int \<Rightarrow> int \<Rightarrow> int \<Rightarrow> unit low" where
  "move_results dest ca need = l_all (map (\<lambda>j. move_to (dest + int j) (ca + int j)) [0..<nat need])"

definition last_call_values :: "int \<Rightarrow> int \<Rightarrow> expdesc low \<Rightarrow> unit low" where
  "last_call_values dest need m =
     l_then (set_freereg dest) (l_then m (l_bind (patch_last_call_results need) (\<lambda>ca. move_results dest ca need)))"

fun value_list :: "int \<Rightarrow> int \<Rightarrow> int \<Rightarrow> (expr \<times> expdesc low) list \<Rightarrow> int low" where
  "value_list base n i [] = l_ret i"
| "value_list base n i ((v, m) # vs) =
     (let dest = base + i; need = n - i in
      if vs = [] \<and> is_vararg_expr v then
        l_then (set_freereg dest)
        (l_then (code_abc OP_VARARG dest (need + 1) 0) (l_then (set_freereg (base + n)) (l_ret (i + need))))
      else if vs = [] \<and> is_call_expr v then
        l_then (last_call_values dest need m) (l_then (set_freereg (base + n)) (l_ret (i + need)))
      else
        l_then (set_freereg dest)
        (l_then (into_reg dest m)
        (l_then (set_freereg (dest + 1)) (value_list base n (i + 1) vs))))"

text \<open>\<open>for (i = filled; i < n; ++i) LOADNIL\<close>\<close>

definition nil_fill :: "int \<Rightarrow> int \<Rightarrow> int \<Rightarrow> unit low" where
  "nil_fill base filled n = l_all (map (\<lambda>j. code_abc OP_LOADNIL (base + filled + int j) 0 0) [0..<nat (n - filled)])"

definition local_stmt :: "string list \<Rightarrow> (expr \<times> expdesc low) list \<Rightarrow> unit low" where
  "local_stmt names values =
     l_then free_to_nactvar
     (l_bind (l_get fs_freereg) (\<lambda>base.
      let n = int (length names) in
      l_then (raise_maxstack (base + n))
      (l_bind (value_list base n 0 values) (\<lambda>filled.
       l_then (nil_fill base filled n)
       (l_then (l_all (map (\<lambda>i. push_local (names ! i) (base + int i)) [0..<length names])) free_to_nactvar)))))"

text \<open>Tables and keys are copied, so that the stores of the statement do not change them.\<close>

definition snapshot :: "expdesc \<Rightarrow> expdesc low" where
  "snapshot e =
     (if ed_kind e \<noteq> KIndexed then l_ret e
      else l_bind new_reg (\<lambda>t.
        l_then (code_abc OP_MOVE t (ed_table e) 0)
        (if ed_index_key e = KeyReg
         then l_bind new_reg (\<lambda>k. l_then (code_abc OP_MOVE k (ed_key e) 0) (l_ret (e\<lparr>ed_table := t, ed_key := k\<rparr>)))
         else l_ret (e\<lparr>ed_table := t\<rparr>))))"

primrec assign_vars :: "expdesc low list \<Rightarrow> expdesc list low" where
  "assign_vars [] = l_ret []"
| "assign_vars (m # ms) = l_bind (l_bind m snapshot) (\<lambda>e. l_bind (assign_vars ms) (\<lambda>es. l_ret (e # es)))"

definition assign_stmt :: "expdesc low list \<Rightarrow> (expr \<times> expdesc low) list \<Rightarrow> unit low" where
  "assign_stmt vars values =
     l_then free_to_nactvar
     (l_bind (assign_vars vars) (\<lambda>es.
      l_bind (l_get fs_freereg) (\<lambda>base.
      let n = int (length es) in
      l_then (raise_maxstack (base + n))
      (l_bind (value_list base n 0 values) (\<lambda>filled.
       l_then (nil_fill base filled n)
       (l_then (l_all (map (\<lambda>i. storevar (es ! i) (base + int i)) [0..<length es])) free_to_nactvar))))))"

definition call_stmt :: "expdesc low \<Rightarrow> unit low" where
  "call_stmt m = l_bind m (\<lambda>e. l_when (0 \<le> ed_reg e) free_to_nactvar)"

definition insert_code :: "nat \<Rightarrow> instruction \<Rightarrow> func_state \<Rightarrow> func_state" where
  "insert_code i ins =
     upd_proto (\<lambda>p. p\<lparr>p_code := take i (p_code p) @ ins # drop i (p_code p),
                      p_lineinfo := take i (p_lineinfo p) @ p_lineinfo p ! i # drop i (p_lineinfo p)\<rparr>)"

text \<open>\<open>return f(...)\<close>: captured locals are closed since the call.\<close>

definition tail_return :: "expdesc low \<Rightarrow> unit low" where
  "tail_return m =
     l_then free_to_nactvar
     (l_bind m (\<lambda>e.
      l_bind (l_get id) (\<lambda>fs.
        case last_call (p_code (fs_proto fs)) of
          None \<Rightarrow>
            l_then (patch_last_call_results (- 1))
              (code_abc OP_RETURN (if 0 \<le> ed_info e then ed_info e else fs_nactvar fs) 0 0)
        | Some i \<Rightarrow>
            (let ins = p_code (fs_proto fs) ! i; level = captured_close_level fs in
             l_then (l_when (0 \<le> level) (l_upd (insert_code i (encode_asbx OP_JMP (word_of_int (level + 1)) 0))))
               (l_upd (set_code (int i + (if 0 \<le> level then 1 else 0)) (encode_abc OP_TAILCALL (op_a ins) (op_b ins) 0)))))))"

fun return_values :: "int \<Rightarrow> int \<Rightarrow> (expr \<times> expdesc low) list \<Rightarrow> bool low" where
  "return_values base i [] = l_ret False"
| "return_values base i ((v, m) # vs) =
     (let dest = base + i in
      l_then (set_freereg dest)
      (if vs = [] \<and> is_vararg_expr v then
         l_then (reserve 1) (l_then (code_abc OP_VARARG dest 0 0) (l_ret True))
       else if vs = [] \<and> is_call_expr v then
         l_then m (l_then (patch_last_call_results (- 1)) (l_ret True))
       else
         l_then (into_reg dest m)
         (l_then (l_upd (\<lambda>fs. fs\<lparr>fs_freereg := max (fs_freereg fs) (dest + 1)\<rparr>)) (return_values base (i + 1) vs))))"

definition return_stmt :: "(expr \<times> expdesc low) list \<Rightarrow> unit low" where
  "return_stmt values =
     (case values of
        [] \<Rightarrow> code_abc OP_RETURN 0 1 0
      | (v, m) # vs \<Rightarrow>
          if vs = [] \<and> is_call_expr v then tail_return m
          else l_then free_to_nactvar
            (l_bind (l_get fs_freereg) (\<lambda>base.
             l_bind (return_values base 0 values) (\<lambda>multret.
               code_abc OP_RETURN base (if multret then 0 else int (length values) + 1) 0))))"

fun if_branches :: "int \<Rightarrow> (expdesc low \<times> unit low \<times> int) list \<Rightarrow> int list low" where
  "if_branches end_line [] = l_ret []"
| "if_branches end_line ((cond, body, then_line) # brs) =
     l_bind (reg_of cond) (\<lambda>cr.
     l_then (line_mark then_line)
     (l_then (code_abc OP_TEST cr 0 0)
     (l_bind jmp0 (\<lambda>jf.
      l_then free_to_nactvar
      (l_then body
      (l_then (line_mark end_line)
      (l_bind jmp0 (\<lambda>je.
       l_then (fix_here jf)
       (l_bind (if_branches end_line brs) (\<lambda>js. l_ret (je # js)))))))))))"

definition if_stmt :: "(expdesc low \<times> unit low \<times> int) list \<Rightarrow> unit low option \<Rightarrow> int \<Rightarrow> int \<Rightarrow> unit low" where
  "if_stmt brs els else_line end_line =
     l_bind (if_branches end_line brs) (\<lambda>escape.
     l_then (case els of Some body \<Rightarrow> l_then (line_mark else_line) body | None \<Rightarrow> l_ret ())
     (l_then (l_all (map fix_here escape)) (line_mark end_line)))"

definition push_loop :: "int \<Rightarrow> unit low" where
  "push_loop level = l_upd (\<lambda>fs. fs\<lparr>fs_loop_break_level := level # fs_loop_break_level fs\<rparr>)"

definition pop_loop :: "unit low" where
  "pop_loop = l_upd (\<lambda>fs. fs\<lparr>fs_loop_break_level := tl (fs_loop_break_level fs)\<rparr>)"

text \<open>The breaks opened since \<open>since\<close> go to the current position.\<close>

definition fix_breaks :: "nat \<Rightarrow> unit low" where
  "fix_breaks since =
     l_bind (l_get fs_break_list) (\<lambda>bs.
       let opened = take (length bs - since) bs in
       l_then (l_all (map fix_here opened)) (l_upd (\<lambda>fs. fs\<lparr>fs_break_list := drop (length opened) bs\<rparr>)))"

definition jump_to :: "int \<Rightarrow> int \<Rightarrow> unit low" where
  "jump_to a dest = l_bind (l_get pc_of) (\<lambda>pc. l_then (code_asbx OP_JMP a (dest - (pc + 1))) (l_ret ()))"

definition while_stmt :: "expdesc low \<Rightarrow> unit low \<Rightarrow> int \<Rightarrow> unit low" where
  "while_stmt cond body end_line =
     l_bind (l_get pc_of) (\<lambda>loop.
     l_bind (reg_of cond) (\<lambda>cr.
     l_then (code_abc OP_TEST cr 0 0)
     (l_bind jmp0 (\<lambda>jf.
      l_then free_to_nactvar
      (l_bind (l_get (\<lambda>fs. length (fs_break_list fs))) (\<lambda>breaks_before.
       l_then (l_bind (l_get fs_nactvar) push_loop)
       (l_then body
       (l_then pop_loop
       (l_then (jump_to 0 loop)
       (l_bind (l_get pc_of) (\<lambda>end_marker_pc.
        l_then (l_when (0 < end_line)
          (l_then (set_lastline end_line) (l_bind new_reg (\<lambda>r. l_then (code_abc OP_LOADNIL r 0 0) free_to_nactvar))))
        (l_bind (l_get pc_of) (\<lambda>after_while.
         l_then (fix_sbx jf (if 0 < end_line then end_marker_pc else after_while)) (fix_breaks breaks_before))))))))))))))"

definition repeat_stmt :: "unit low \<Rightarrow> expdesc low \<Rightarrow> unit low" where
  "repeat_stmt body cond =
     l_bind (l_get (\<lambda>fs. length (fs_locals fs))) (\<lambda>saved.
     l_bind (l_get pc_of) (\<lambda>loop.
     l_bind (l_get (\<lambda>fs. length (fs_break_list fs))) (\<lambda>breaks_before.
     l_then (l_bind (l_get fs_nactvar) push_loop)
     (l_then body
     (l_bind (reg_of cond) (\<lambda>cr.
      l_then (code_abc OP_TEST cr 0 1)
      (l_bind jmp0 (\<lambda>exit_jmp.
       l_bind (l_get (\<lambda>fs. lowest (map lc_reg (filter (\<lambda>l. lc_active l \<and> lc_captured l) (drop saved (fs_locals fs)))))) (\<lambda>close_level.
       l_then (jump_to (if 0 \<le> close_level then close_level + 1 else 0) loop)
       (l_then (fix_here exit_jmp)
       (l_then pop_loop
       (l_then (leave_block saved True) (fix_breaks breaks_before)))))))))))))"

definition break_stmt :: "unit low" where
  "break_stmt =
     l_bind (l_get (\<lambda>fs.
       case fs_loop_break_level fs of
         [] \<Rightarrow> 0
       | min_reg # _ \<Rightarrow>
           (let close_level = lowest (map lc_reg (filter (\<lambda>l. lc_active l \<and> lc_captured l \<and> min_reg \<le> lc_reg l) (fs_locals fs)))
            in if 0 \<le> close_level then close_level + 1 else 0))) (\<lambda>a.
     l_bind (code_asbx OP_JMP a 0) (\<lambda>j. l_upd (\<lambda>fs. fs\<lparr>fs_break_list := j # fs_break_list fs\<rparr>)))"

text \<open>The body of a \<open>for\<close> loop, with the scope of its variables.\<close>

definition for_body :: "nat \<Rightarrow> int \<Rightarrow> unit low \<Rightarrow> unit low" where
  "for_body since level body =
     l_then (push_loop level) (l_then body (l_then pop_loop (leave_block since False)))"

definition for_num_stmt :: "int \<Rightarrow> string \<Rightarrow> expdesc low \<Rightarrow> expdesc low \<Rightarrow> expdesc low option \<Rightarrow> unit low \<Rightarrow> int \<Rightarrow> unit low" where
  "for_num_stmt line name m1 m2 m3 body end_line =
     l_bind (l_get fs_freereg) (\<lambda>base.
     l_then (into_reg base m1)
     (l_then (set_freereg (base + 1))
     (l_then (into_reg (base + 1) m2)
     (l_then (set_freereg (base + 2))
     (l_then (case m3 of Some m \<Rightarrow> into_reg (base + 2) m | None \<Rightarrow> l_then (code_asbx OP_LOADINT (base + 2) 1) (l_ret ()))
     (l_then (set_freereg (base + 3))
     (l_then (set_lastline line)
     (l_bind (code_asbx OP_FORPREP base 0) (\<lambda>prep.
      l_bind (l_get pc_of) (\<lambda>loop.
      l_bind (l_get (\<lambda>fs. length (fs_locals fs))) (\<lambda>before_i.
      l_then (l_bind new_reg (push_local name))
      (l_then (l_upd (\<lambda>fs. fs\<lparr>fs_locals := butlast (fs_locals fs) @ [(last (fs_locals fs))\<lparr>lc_reg := base + 3\<rparr>],
                               fs_nactvar := base + 4, fs_freereg := base + 4\<rparr>))
      (l_bind (l_get (\<lambda>fs. length (fs_break_list fs))) (\<lambda>breaks_before.
       l_then (for_body before_i (base + 3) body)
       (l_then (set_lastline line)
       (l_bind (l_get pc_of) (\<lambda>forloop_pc.
        l_then (code_asbx OP_FORLOOP base (loop - (forloop_pc + 1)))
        (l_then (fix_sbx prep forloop_pc)
        (l_then (line_mark end_line)
        (l_then (fix_breaks breaks_before) (set_freereg base)))))))))))))))))))))"

definition local_function_stmt :: "string \<Rightarrow> expdesc low \<Rightarrow> unit low" where
  "local_function_stmt name m =
     l_bind new_reg (\<lambda>r. l_then (push_local name r) (l_then (into_reg r m) free_to_nactvar))"

text \<open>\<open>a.b.c = fn\<close>: the table that gets the last name.\<close>

fun path_table :: "int \<Rightarrow> int \<Rightarrow> string list \<Rightarrow> int low" where
  "path_table fline reg [] = l_ret reg"
| "path_table fline reg (n # ns) =
     (if ns = [] then l_ret reg
      else l_bind (string_k n) (\<lambda>ki.
        l_bind new_reg (\<lambda>d.
        l_then (if ki \<le> 255 then code_abc_at fline OP_GETFIELD d reg ki
                else l_bind new_reg (\<lambda>k. l_then (code_abx_at fline OP_LOADK k ki) (code_abc_at fline OP_GETTABLE d reg k)))
          (path_table fline d ns))))"

definition function_stmt :: "int \<Rightarrow> string list \<Rightarrow> expdesc low \<Rightarrow> unit low" where
  "function_stmt line path m =
     l_bind (l_get (\<lambda>fs. if 0 < line then line else fs_lastline fs)) (\<lambda>fline.
     l_then (line_mark line)
     (l_bind (reg_of m) (\<lambda>er.
      l_then
        (if length path = 1 then l_bind (l_search_var (hd path)) (\<lambda>var. storevar var er)
         else l_bind (reg_of (l_search_var (hd path))) (\<lambda>reg0.
              l_bind (path_table fline reg0 (tl path)) (\<lambda>reg.
              l_bind (string_k (last path)) (\<lambda>ki.
                if ki \<le> 255 then code_abc_at fline OP_SETFIELD reg ki er
                else l_bind new_reg (\<lambda>k. l_then (code_abx_at fline OP_LOADK k ki) (code_abc_at fline OP_SETTABLE reg k er))))))
        free_to_nactvar)))"

text \<open>The generator, the state and the control of a generic \<open>for\<close>.\<close>

fun iter_list :: "int \<Rightarrow> int \<Rightarrow> int \<Rightarrow> expdesc low list \<Rightarrow> int low" where
  "iter_list base i filled [] = l_ret filled"
| "iter_list base i filled (m # ms) =
     (let dest = base + i in
      l_then (l_upd (\<lambda>fs. fs\<lparr>fs_freereg := max (fs_freereg fs) (dest + 1)\<rparr>))
      (l_bind m (\<lambda>e.
        if ms = [] \<and> ed_kind e = KCall then
          l_bind (set_call_results (word_of_int (3 - i + 1))) (\<lambda>ca.
          l_then (move_results dest ca (3 - i))
          (l_then (set_freereg (base + 3)) (l_ret (i + (3 - i)))))
        else
          l_bind (exp2reg e) (\<lambda>r.
          l_then (move_to dest r)
          (l_then (set_freereg (dest + 1)) (iter_list base (i + 1) (i + 1) ms))))))"

definition for_in_stmt :: "int \<Rightarrow> string list \<Rightarrow> (expr \<times> expdesc low) list \<Rightarrow> unit low \<Rightarrow> int \<Rightarrow> unit low" where
  "for_in_stmt line names iters body end_line =
     l_bind (l_get fs_freereg) (\<lambda>base.
     l_then (reserve 3)
     (l_bind (iter_list base 0 0 (map snd iters)) (\<lambda>filled.
      l_then (nil_fill base filled 3)
      (let nvars = int (length names) in
       l_then (set_freereg (base + 3 + nvars))
       (l_then (raise_maxstack (base + 3 + nvars))
       (l_bind jmp0 (\<lambda>jprep.
        l_bind (l_get pc_of) (\<lambda>loopbody.
        l_bind (l_get (\<lambda>fs. length (fs_locals fs))) (\<lambda>nlocals_before.
        l_then (l_all (map (\<lambda>i. push_local (names ! i) (base + 3 + int i)) [0..<length names]))
        (l_then (l_upd (\<lambda>fs. fs\<lparr>fs_nactvar := base + 3 + nvars, fs_freereg := base + 3 + nvars\<rparr>))
        (l_bind (l_get (\<lambda>fs. length (fs_break_list fs))) (\<lambda>breaks_before.
         l_then (for_body nlocals_before (base + 3) body)
         (let call_line = (if iters \<noteq> [] \<and> 0 < expr_line (fst (last iters)) then expr_line (fst (last iters)) else line) in
          l_then (set_lastline call_line)
          (l_then (fix_here jprep)
          (l_then (code_abc_at call_line OP_TFORCALL base 0 nvars)
          (l_bind (code_asbx OP_TFORLOOP (base + 2) 0) (\<lambda>tforloop.
           l_then (fix_sbx tforloop loopbody)
           (l_then (line_mark end_line)
           (l_then (fix_breaks breaks_before) (set_freereg base))))))))))))))))))))"

section \<open>The recursion on the tree\<close>

text \<open>\<open>cmp and cmp\<close> looks into its operands.\<close>

definition rel_parts :: "expr \<Rightarrow> (bin_op \<times> expr \<times> expr) option" where
  "rel_parts e = (case e of ExprBin _ op a b \<Rightarrow> if is_rel op then Some (op, a, b) else None | _ \<Rightarrow> None)"

lemma rel_parts_size [termination_simp]:
  "rel_parts e = Some (op, a, b) \<Longrightarrow> size a < size e \<and> size b < size e"
  by (auto simp: rel_parts_def split: expr.splits if_splits)

definition l_panic_expr :: "expdesc low" where
  "l_panic_expr = l_panic ''not arith''"

fun lower_expr :: "expr \<Rightarrow> expdesc low"
  and lower_func :: "func \<Rightarrow> expdesc low"
  and lower_stmt :: "stmt \<Rightarrow> unit low"
  and lower_block :: "block \<Rightarrow> bool \<Rightarrow> bool \<Rightarrow> unit low" where
  "lower_expr (ExprNil l) = l_then (line_mark l) (l_ret (expr_const VNil))"
| "lower_expr (ExprBool l b) = l_then (line_mark l) (l_ret (expr_const (VBool b)))"
| "lower_expr (ExprInt l n) = l_then (line_mark l) (l_ret (expr_const (VInt n)))"
| "lower_expr (ExprFloat l d) = l_then (line_mark l) (l_ret (expr_const (VFloat d)))"
| "lower_expr (ExprString l str) = l_then (line_mark l) (l_bind (l_intern str) (\<lambda>v. l_ret (expr_const v)))"
| "lower_expr (ExprName l n) = l_then (line_mark l) (l_search_var n)"
| "lower_expr (ExprVararg l) = l_then (line_mark l) vararg_expr"
| "lower_expr (ExprParen l e) = l_then (line_mark l) (paren_expr (lower_expr e))"
| "lower_expr (ExprUn l op e) = l_then (line_mark l) (un_expr l op (lower_expr e))"
| "lower_expr (ExprBin l op a b) = l_then (line_mark l)
     (if op = And \<or> op = Or then
        (case rel_parts a of
           Some (op1, a1, b1) \<Rightarrow>
             (case rel_parts b of
                Some (op2, a2, b2) \<Rightarrow>
                  if op = And then and_rel_expr op1 (lower_expr a1) (lower_expr b1) op2 (lower_expr a2) (lower_expr b2)
                  else and_or_expr False (lower_expr a) (lower_expr b)
              | None \<Rightarrow> and_or_expr (op = And) (lower_expr a) (lower_expr b))
         | None \<Rightarrow> and_or_expr (op = And) (lower_expr a) (lower_expr b))
      else if op = Concat then concat_expr (lower_expr a) (lower_expr b)
      else if is_rel op then rel_expr op (lower_expr a) (lower_expr b)
      else case bin_arith_op op of
        Some code_op \<Rightarrow> arith_expr l code_op (lower_expr a) (lower_expr b)
      | None \<Rightarrow> l_panic_expr)"
| "lower_expr (ExprIndex l t k) = l_then (line_mark l) (index_expr (lower_expr t) (lower_expr k))"
| "lower_expr (ExprField l t f) = l_then (line_mark l) (field_expr (lower_expr t) f)"
| "lower_expr (ExprCall l c as is_method meth) =
     l_then (line_mark l) (call_expr l (lower_expr c) (map (\<lambda>a. (a, lower_expr a)) as) is_method meth)"
| "lower_expr (ExprTable l fds) =
     l_then (line_mark l) (table_expr (map (\<lambda>f. case f of Field k v n \<Rightarrow> (n, map_option lower_expr k, v, lower_expr v)) fds))"
| "lower_expr (ExprFunction f) = lower_func f"
| "lower_func (Func l ps va body ll) = l_then (line_mark l) (function_expr l ps va (lower_block body True True) ll)"
| "lower_stmt (LocalDecl l ns vs) = l_then (set_lastline l) (local_stmt ns (map (\<lambda>v. (v, lower_expr v)) vs))"
| "lower_stmt (Assign l vars vs) =
     l_then (set_lastline l) (assign_stmt (map lower_expr vars) (map (\<lambda>v. (v, lower_expr v)) vs))"
| "lower_stmt (CallStmt l e) = l_then (set_lastline l) (call_stmt (lower_expr e))"
| "lower_stmt (ReturnStmt l vs) = l_then (set_lastline l) (return_stmt (map (\<lambda>v. (v, lower_expr v)) vs))"
| "lower_stmt (IfStmt l brs els else_line end_line) =
     l_then (set_lastline l)
       (if_stmt (map (\<lambda>b. case b of Branch c body ln \<Rightarrow> (lower_expr c, lower_block body True True, ln)) brs)
         (map_option (\<lambda>b. lower_block b True True) els) else_line end_line)"
| "lower_stmt (WhileStmt l c body end_line) =
     l_then (set_lastline l) (while_stmt (lower_expr c) (lower_block body True True) end_line)"
| "lower_stmt (RepeatStmt l body c) =
     l_then (set_lastline l) (repeat_stmt (lower_block body False False) (lower_expr c))"
| "lower_stmt (BreakStmt l) = l_then (set_lastline l) break_stmt"
| "lower_stmt (ForNum l n a b c body end_line) =
     l_then (set_lastline l)
       (for_num_stmt l n (lower_expr a) (lower_expr b) (map_option lower_expr c) (lower_block body True True) end_line)"
| "lower_stmt (LocalFunction l n f) = l_then (set_lastline l) (local_function_stmt n (lower_func f))"
| "lower_stmt (FunctionDecl l path is_method f) = l_then (set_lastline l) (function_stmt l path (lower_func f))"
| "lower_stmt (DoBlock l body) = l_then (set_lastline l) (lower_block body True True)"
| "lower_stmt (LabelStmt l n) = set_lastline l"
| "lower_stmt (GotoStmt l label) = l_then (set_lastline l) (goto_known label)"
| "lower_stmt (ForIn l ns iters body end_line) =
     l_then (set_lastline l)
       (for_in_stmt l ns (map (\<lambda>e. (e, lower_expr e)) iters) (lower_block body True True) end_line)"
| "lower_block (Block sts) allow_last_label close = block_cmd allow_last_label close (map (\<lambda>st. (st, lower_stmt st)) sts)"

text \<open>The main function: variadic, with \<open>_ENV\<close> as its first upvalue.\<close>

definition main_func :: "string \<Rightarrow> func_state" where
  "main_func source_name =
     func0 (proto0\<lparr>p_source := source_name, p_is_vararg := True,
       p_upvalues := [\<lparr>ud_instack = False, ud_idx = 0, ud_name = ''_ENV''\<rparr>]\<rparr>) False 1"

definition lower_main :: "block \<Rightarrow> unit low" where
  "lower_main body =
     l_then (lower_block body True True)
     (l_then resolve_gotos
     (l_then (code_abc OP_RETURN 0 1 0)
     (l_then (flush_locvars_to 0)
     (l_upd (\<lambda>fs. upd_proto (\<lambda>p. p\<lparr>p_maxstack := max (fs_maxstack fs) 2\<rparr>) fs)))))"

definition lower_chunk :: "(strs \<Rightarrow> ptr) \<Rightarrow> block \<Rightarrow> string \<Rightarrow> strs \<Rightarrow> (ptree \<times> strs) result" where
  "lower_chunk al body source_name HS =
     rbind (lower_main body \<lparr>lw_fs = main_func source_name, lw_prev = [], lw_strs = HS, lw_alloc = al\<rparr>) (\<lambda>(_, s).
       Inr (PTree (fs_proto (lw_fs s)) (fs_protos (lw_fs s)), lw_strs s))"

end
