(* ===== verification/Lt_LowerProps.thy ===== *)
theory Lt_LowerProps
  imports Lt_Lower
begin

text \<open>
  What the code of a lowered function looks like: operands index the constants, upvalues and nested
  prototypes that exist, every jump and every skip stays in the code, and control never runs off
  its end. The commands of \<open>Lt_Lower\<close> keep an invariant on the function under construction
  and on the enclosing ones; assertions are about lower bounds of a state that only grows, so they
  are stable and every step carries them on.
\<close>

section \<open>The invariant\<close>

definition opcode_at :: "instruction \<Rightarrow> opcode option" where
  "opcode_at i = opcode_of (op_get i)"

lemma opcode_at_encode [simp]:
  "opcode_at (encode_abc op a b c) = Some op" "opcode_at (encode_abx op a bx) = Some op" "opcode_at (encode_asbx op a sbx) = Some op"
  by (simp_all add: opcode_at_def encode_asbx_def encode_abc_fields encode_abx_fields opcode_of_num)

definition jump_op :: "opcode \<Rightarrow> bool" where
  "jump_op op \<longleftrightarrow> op \<in> {OP_JMP, OP_FORPREP, OP_FORLOOP, OP_TFORLOOP}"

text \<open>Indices into \<open>K\<close> constants, \<open>U\<close> upvalues and \<open>P\<close> prototypes, before the 16-bit fields are cut.\<close>

definition ins_ok :: "nat \<Rightarrow> nat \<Rightarrow> nat \<Rightarrow> instruction \<Rightarrow> bool" where
  "ins_ok K U P i \<longleftrightarrow>
     (case opcode_at i of
        None \<Rightarrow> False
      | Some op \<Rightarrow>
          (case op of
             OP_LOADK \<Rightarrow> \<exists>k < K. op_bx i = of_nat k
           | OP_LOADFLOAT \<Rightarrow> \<exists>k < K. op_bx i = of_nat k
           | OP_GETFIELD \<Rightarrow> unat (op_c i) < K
           | OP_SETFIELD \<Rightarrow> unat (op_b i) < K
           | OP_GETTABUP \<Rightarrow> unat (op_b i) < U \<and> unat (op_c i) < K
           | OP_SETTABUP \<Rightarrow> unat (op_a i) < U \<and> unat (op_b i) < K
           | OP_GETUPVAL \<Rightarrow> unat (op_b i) < U
           | OP_SETUPVAL \<Rightarrow> unat (op_b i) < U
           | OP_CLOSURE \<Rightarrow> \<exists>k < P. op_bx i = of_nat k
           | _ \<Rightarrow> True))"

definition jump_ok :: "nat \<Rightarrow> nat \<Rightarrow> instruction \<Rightarrow> bool" where
  "jump_ok n pc i \<longleftrightarrow>
     (\<forall>op. opcode_at i = Some op \<and> jump_op op \<longrightarrow>
        (\<exists>d. 0 \<le> d \<and> d \<le> int n \<and> op_bx i = word_of_int (d - (int pc + 1) + 32768)))"

definition skips :: "instruction \<Rightarrow> bool" where
  "skips i \<longleftrightarrow>
     opcode_at i \<in> {Some OP_TEST, Some OP_TESTSET, Some OP_EQ, Some OP_LT, Some OP_LE} \<or> (opcode_at i = Some OP_LOADBOOL \<and> op_c i \<noteq> 0)"

definition skip_ok :: "nat \<Rightarrow> nat \<Rightarrow> instruction \<Rightarrow> bool" where
  "skip_ok m pc i \<longleftrightarrow> (skips i \<longrightarrow> pc + 2 \<le> m)"

abbreviation fs_code :: "func_state \<Rightarrow> instruction list" where
  "fs_code fs \<equiv> p_code (fs_proto fs)"

definition jmp_at :: "int \<Rightarrow> func_state \<Rightarrow> bool" where
  "jmp_at j fs \<longleftrightarrow> 0 \<le> j \<and> j < int (length (fs_code fs)) \<and> (\<exists>op. opcode_at (fs_code fs ! nat j) = Some op \<and> jump_op op)"

definition goto_at :: "int \<Rightarrow> func_state \<Rightarrow> bool" where
  "goto_at j fs \<longleftrightarrow> 0 \<le> j \<and> j < int (length (fs_code fs)) \<and> opcode_at (fs_code fs ! nat j) = Some OP_JMP"

lemma goto_jmp [simp]: "goto_at j fs \<Longrightarrow> jmp_at j fs"
  by (simp add: goto_at_def jmp_at_def jump_op_def)

definition pc_le :: "int \<Rightarrow> func_state \<Rightarrow> bool" where
  "pc_le d fs \<longleftrightarrow> 0 \<le> d \<and> d \<le> int (length (fs_code fs))"

text \<open>A finished function: what \<open>K\<close>, \<open>U\<close>, \<open>P\<close> bound, targets before the end, and a \<open>RETURN\<close> last.\<close>

definition fin :: "proto \<Rightarrow> nat \<Rightarrow> bool" where
  "fin p P \<longleftrightarrow>
     length (p_lineinfo p) = length (p_code p) \<and> p_code p \<noteq> [] \<and> opcode_at (last (p_code p)) = Some OP_RETURN \<and>
     length (p_upvalues p) \<le> 255 \<and>
     (\<forall>pc < length (p_code p).
        ins_ok (length (p_constants p)) (length (p_upvalues p)) P (p_code p ! pc) \<and>
        jump_ok (length (p_code p) - 1) pc (p_code p ! pc) \<and> skip_ok (length (p_code p) - 1) pc (p_code p ! pc))"

fun fin_tree :: "ptree \<Rightarrow> bool" where
  "fin_tree (PTree p ts) \<longleftrightarrow> fin p (length ts) \<and> list_all fin_tree ts"

definition fwf :: "func_state \<Rightarrow> bool" where
  "fwf fs \<longleftrightarrow>
     length (p_lineinfo (fs_proto fs)) = length (fs_code fs) \<and> length (p_upvalues (fs_proto fs)) \<le> 255 \<and>
     (\<forall>pc < length (fs_code fs).
        ins_ok (length (p_constants (fs_proto fs))) (length (p_upvalues (fs_proto fs))) (length (fs_protos fs)) (fs_code fs ! pc) \<and>
        jump_ok (length (fs_code fs)) pc (fs_code fs ! pc) \<and> skip_ok (length (fs_code fs)) pc (fs_code fs ! pc)) \<and>
     (\<forall>j \<in> set (fs_break_list fs). jmp_at j fs) \<and> (\<forall>g \<in> set (fs_pending_gotos fs). goto_at (gt_jmp_pc g) fs) \<and>
     (\<forall>n info. fs_labels fs n = Some info \<longrightarrow> pc_le (li_pc info) fs) \<and> list_all fin_tree (fs_protos fs)"

text \<open>States only grow: jumps keep their opcode.\<close>

definition grows :: "func_state \<Rightarrow> func_state \<Rightarrow> bool" where
  "grows fs fs' \<longleftrightarrow>
     length (fs_code fs) \<le> length (fs_code fs') \<and>
     length (p_constants (fs_proto fs)) \<le> length (p_constants (fs_proto fs')) \<and>
     length (p_upvalues (fs_proto fs)) \<le> length (p_upvalues (fs_proto fs')) \<and>
     length (fs_protos fs) \<le> length (fs_protos fs') \<and>
     (\<forall>pc < length (fs_code fs). \<forall>op. opcode_at (fs_code fs ! pc) = Some op \<and> jump_op op \<longrightarrow> opcode_at (fs_code fs' ! pc) = Some op)"

lemma grows_refl [simp]: "grows fs fs"
  by (simp add: grows_def)

lemma grows_trans [trans]: "grows a b \<Longrightarrow> grows b c \<Longrightarrow> grows a c"
  by (fastforce simp: grows_def)

definition wfs :: "lowering \<Rightarrow> bool" where
  "wfs s \<longleftrightarrow> fwf (lw_fs s) \<and> list_all fwf (lw_prev s)"

definition sgrows :: "lowering \<Rightarrow> lowering \<Rightarrow> bool" where
  "sgrows s s' \<longleftrightarrow> grows (lw_fs s) (lw_fs s') \<and> list_all2 grows (lw_prev s) (lw_prev s')"

lemma sgrows_refl [simp]: "sgrows s s"
  by (simp add: sgrows_def list.rel_refl)

lemma sgrows_trans [trans]: "sgrows a b \<Longrightarrow> sgrows b c \<Longrightarrow> sgrows a c"
  using list_all2_trans [of grows grows grows] by (auto simp: sgrows_def intro: grows_trans)

section \<open>Triples\<close>

definition stable :: "(func_state \<Rightarrow> bool) \<Rightarrow> bool" where
  "stable P \<longleftrightarrow> (\<forall>fs fs'. P fs \<and> grows fs fs' \<longrightarrow> P fs')"

named_theorems stable_rules
named_theorems low_rules

lemma stable_conj [stable_rules]: "stable P \<Longrightarrow> stable Q \<Longrightarrow> stable (\<lambda>fs. P fs \<and> Q fs)"
  by (auto simp: stable_def)

lemma stable_const [stable_rules, simp]: "stable (\<lambda>fs. b)"
  by (simp add: stable_def)

lemma stable_imp [stable_rules]: "stable P \<Longrightarrow> stable (\<lambda>fs. b \<longrightarrow> P fs)"
  by (auto simp: stable_def)

lemma stable_all [stable_rules]: "(\<And>x. stable (P x)) \<Longrightarrow> stable (\<lambda>fs. \<forall>x. P x fs)"
  by (auto simp: stable_def)

lemma stable_ball [stable_rules]: "(\<And>x. stable (P x)) \<Longrightarrow> stable (\<lambda>fs. \<forall>x \<in> A. P x fs)"
  by (auto simp: stable_def)

lemma stable_jmp_at [stable_rules]: "stable (jmp_at j)"
  unfolding stable_def jmp_at_def grows_def by (auto; metis nat_less_iff)

lemma stable_goto_at [stable_rules]: "stable (goto_at j)"
  unfolding stable_def goto_at_def grows_def jump_op_def by (auto; metis insertCI nat_less_iff)

lemma stable_pc_le [stable_rules]: "stable (pc_le d)"
  by (auto simp: stable_def pc_le_def grows_def)

definition k_ok :: "int \<Rightarrow> func_state \<Rightarrow> bool" where
  "k_ok k fs \<longleftrightarrow> 0 \<le> k \<and> k < int (length (p_constants (fs_proto fs)))"

definition up_ok :: "int \<Rightarrow> func_state \<Rightarrow> bool" where
  "up_ok i fs \<longleftrightarrow> 0 \<le> i \<and> i < int (length (p_upvalues (fs_proto fs)))"

lemma stable_k_ok [stable_rules]: "stable (k_ok k)"
  by (auto simp: stable_def k_ok_def grows_def)

lemma stable_up_ok [stable_rules]: "stable (up_ok i)"
  by (auto simp: stable_def up_ok_def grows_def)

text \<open>What an expression refers to exists.\<close>

definition exp_ok :: "expdesc \<Rightarrow> func_state \<Rightarrow> bool" where
  "exp_ok e fs \<longleftrightarrow>
     (ed_kind e = KUpval \<longrightarrow> up_ok (ed_info e) fs) \<and> (ed_kind e = KGlobal \<longrightarrow> k_ok (ed_info e) fs) \<and>
     (ed_kind e = KIndexed \<longrightarrow> ed_index_key e = KeyConstStr \<longrightarrow> k_ok (ed_key e) fs \<and> ed_key e \<le> 255)"

lemma stable_exp_ok [stable_rules]: "stable (exp_ok e)"
  unfolding exp_ok_def by (intro stable_rules)

definition holds :: "(func_state \<Rightarrow> bool) \<Rightarrow> 'a low \<Rightarrow> ('a \<Rightarrow> func_state \<Rightarrow> bool) \<Rightarrow> bool" where
  "holds P m Q \<longleftrightarrow> (\<forall>s x s'. wfs s \<and> P (lw_fs s) \<and> m s = Inr (x, s') \<longrightarrow> wfs s' \<and> sgrows s s' \<and> Q x (lw_fs s'))"

lemma holdsI:
  "(\<And>s x s'. wfs s \<Longrightarrow> P (lw_fs s) \<Longrightarrow> m s = Inr (x, s') \<Longrightarrow> wfs s' \<and> sgrows s s' \<and> Q x (lw_fs s')) \<Longrightarrow> holds P m Q"
  by (auto simp: holds_def)

lemma holdsD:
  "holds P m Q \<Longrightarrow> wfs s \<Longrightarrow> P (lw_fs s) \<Longrightarrow> m s = Inr (x, s') \<Longrightarrow> wfs s' \<and> sgrows s s' \<and> Q x (lw_fs s')"
  by (auto simp: holds_def)

lemma holds_ret [low_rules]: "(\<And>fs. P fs \<Longrightarrow> Q x fs) \<Longrightarrow> holds P (l_ret x) Q"
  by (auto simp: holds_def l_ret_def)

lemma holds_panic [low_rules]: "holds P (l_panic msg) Q"
  by (simp add: holds_def l_panic_def)

lemma holds_bind:
  assumes "holds P0 m Q" "\<And>fs. P fs \<Longrightarrow> P0 fs" "stable P" "\<And>x. holds (\<lambda>fs. P fs \<and> Q x fs) (f x) R"
  shows "holds P (l_bind m f) R"
proof (rule holdsI)
  fix s y s' assume s: "wfs s" "P (lw_fs s)" "l_bind m f s = Inr (y, s')"
  then obtain x s1 where m: "m s = Inr (x, s1)" and f: "f x s1 = Inr (y, s')" by (auto simp: l_bind_def rbind_eq_Inr)
  have "wfs s1" and g: "sgrows s s1" and "Q x (lw_fs s1)" using holdsD [OF assms(1) s(1) _ m] assms(2) s(2) by auto
  moreover from g have "P (lw_fs s1)" using assms(3) s(2) by (auto simp: sgrows_def stable_def)
  ultimately show "wfs s' \<and> sgrows s s' \<and> R y (lw_fs s')"
    using holdsD [OF assms(4) _ _ f] sgrows_trans [OF g] by blast
qed

lemma holds_then:
  "holds P0 m Q \<Longrightarrow> (\<And>fs. P fs \<Longrightarrow> P0 fs) \<Longrightarrow> stable P \<Longrightarrow> (\<And>x. holds (\<lambda>fs. P fs \<and> Q x fs) n R) \<Longrightarrow> holds P (l_then m n) R"
  unfolding l_then_def by (rule holds_bind)

lemma holds_last:
  assumes "holds P0 m Q0" "\<And>fs. P fs \<Longrightarrow> P0 fs" "stable P" "\<And>x fs. P fs \<Longrightarrow> Q0 x fs \<Longrightarrow> Q x fs"
  shows "holds P m Q"
proof -
  have "holds P (l_bind m l_ret) Q" using assms by (intro holds_bind [OF assms(1)] holds_ret) auto
  then show ?thesis by (simp add: holds_def l_bind_def l_ret_def rbind_eq_Inr)
qed

text \<open>Reading a register number or a size says nothing.\<close>

lemma holds_get [low_rules]: "(\<And>x. holds P (f x) R) \<Longrightarrow> holds P (l_bind (l_get g) f) R"
  unfolding holds_def by (auto simp: l_bind_def l_get_def)

lemma neutral_get: "holds P (l_get g) (\<lambda>_ _. True)"
  by (simp add: holds_def l_get_def)

lemma holds_if [low_rules]: "(b \<Longrightarrow> holds P m Q) \<Longrightarrow> (\<not> b \<Longrightarrow> holds P n Q) \<Longrightarrow> holds P (if b then m else n) Q"
  by simp

lemma holds_assoc [low_rules]: "holds P (l_bind m (\<lambda>x. l_bind (f x) h)) R \<Longrightarrow> holds P (l_bind (l_bind m f) h) R"
  unfolding holds_def l_bind_def by (simp add: rbind_assoc split_def)

lemma holds_assoc_then [low_rules]:
  "holds P (l_bind m (\<lambda>x. l_then (f x) n)) R \<Longrightarrow> holds P (l_then (l_bind m f) n) R"
  "holds P (l_then m (l_then n' n)) R \<Longrightarrow> holds P (l_then (l_then m n') n) R"
  "holds P (l_then m (l_bind n' h)) R \<Longrightarrow> holds P (l_bind (l_then m n') h) R"
  unfolding l_then_def by (rule holds_assoc, assumption)+

text \<open>A test in the middle of a sequence.\<close>

lemma holds_when_then [low_rules]:
  "(b \<Longrightarrow> holds P (l_then m n) R) \<Longrightarrow> (\<not> b \<Longrightarrow> holds P n R) \<Longrightarrow> holds P (l_then (l_when b m) n) R"
  by (cases b) (simp_all add: l_when_def l_then_def l_bind_def l_ret_def holds_def)

lemma holds_if_then [low_rules]:
  "(b \<Longrightarrow> holds P (l_then m n) R) \<Longrightarrow> (\<not> b \<Longrightarrow> holds P (l_then m' n) R) \<Longrightarrow> holds P (l_then (if b then m else m') n) R"
  "(b \<Longrightarrow> holds P (l_bind m1 f) R) \<Longrightarrow> (\<not> b \<Longrightarrow> holds P (l_bind m1' f) R) \<Longrightarrow> holds P (l_bind (if b then m1 else m1') f) R"
  by simp_all

lemma holds_ret_bind [low_rules]: "holds P (f x) R \<Longrightarrow> holds P (l_bind (l_ret x) f) R" "holds P n R \<Longrightarrow> holds P (l_then (l_ret x) n) R"
  by (simp_all add: l_then_def l_bind_def l_ret_def holds_def)

lemma holds_when [low_rules]: "(b \<Longrightarrow> holds P m (\<lambda>_. Q)) \<Longrightarrow> (\<And>fs. P fs \<Longrightarrow> Q fs) \<Longrightarrow> holds P (l_when b m) (\<lambda>_. Q)"
  by (simp add: l_when_def holds_ret)

section \<open>Primitive steps\<close>

lemma holds_upd:
  assumes "\<And>fs. fwf fs \<Longrightarrow> P fs \<Longrightarrow> fwf (f fs) \<and> grows fs (f fs) \<and> Q (f fs)"
  shows "holds P (l_upd f) (\<lambda>_. Q)"
  using assms by (auto simp: holds_def l_upd_def wfs_def sgrows_def list.rel_refl)

lemma wf_fields [simp]:
  "fwf (fs\<lparr>fs_freereg := r\<rparr>) = fwf fs" "fwf (fs\<lparr>fs_maxstack := r\<rparr>) = fwf fs" "fwf (fs\<lparr>fs_reg_hwm := r\<rparr>) = fwf fs"
  "fwf (fs\<lparr>fs_nactvar := r\<rparr>) = fwf fs" "fwf (fs\<lparr>fs_lastline := r\<rparr>) = fwf fs" "fwf (fs\<lparr>fs_locals := ls\<rparr>) = fwf fs"
  "fwf (fs\<lparr>fs_loop_break_level := bs\<rparr>) = fwf fs" "fwf (fs\<lparr>fs_block_entry_nactvar := bs\<rparr>) = fwf fs"
  by (simp_all add: fwf_def jmp_at_def goto_at_def pc_le_def)

lemma grows_fields [simp]:
  "grows a (fs\<lparr>fs_freereg := r\<rparr>) = grows a fs" "grows a (fs\<lparr>fs_maxstack := r\<rparr>) = grows a fs" "grows a (fs\<lparr>fs_reg_hwm := r\<rparr>) = grows a fs"
  "grows a (fs\<lparr>fs_nactvar := r\<rparr>) = grows a fs" "grows a (fs\<lparr>fs_lastline := r\<rparr>) = grows a fs" "grows a (fs\<lparr>fs_locals := ls\<rparr>) = grows a fs"
  "grows a (fs\<lparr>fs_loop_break_level := bs\<rparr>) = grows a fs" "grows a (fs\<lparr>fs_block_entry_nactvar := bs\<rparr>) = grows a fs"
  "grows a (fs\<lparr>fs_break_list := bs\<rparr>) = grows a fs" "grows a (fs\<lparr>fs_pending_gotos := gs\<rparr>) = grows a fs" "grows a (fs\<lparr>fs_labels := lb\<rparr>) = grows a fs"
  by (simp_all add: grows_def)

text \<open>A step that changes registers, lines or the scope only.\<close>

abbreviation neutral :: "'a low \<Rightarrow> bool" where
  "neutral m \<equiv> holds (\<lambda>_. True) m (\<lambda>_ _. True)"

lemma neutral_steps:
  "neutral (set_freereg r)" "neutral free_to_nactvar" "neutral (raise_maxstack r)" "neutral (set_lastline l)" "neutral (push_loop r)"
  "neutral pop_loop" "neutral (free_reg r)" "neutral (line_mark l)"
  by (auto simp: set_freereg_def free_to_nactvar_def raise_maxstack_def set_lastline_def push_loop_def pop_loop_def free_reg_def
      line_mark_def intro!: holds_upd holds_when)

lemma neutral_check_limit: "neutral (check_limit v limit what)"
  by (auto simp: holds_def check_limit_def error_limit_def)

lemma neutral_reserve: "neutral (reserve n)"
  unfolding reserve_def
  by (intro holds_then [OF holds_upd [where P = "\<lambda>_. True" and Q = "\<lambda>_. True"]] stable_rules holds_get neutral_check_limit [THEN holds_last])
    (auto simp: Let_def)

lemma neutral_new_reg: "neutral new_reg"
  unfolding new_reg_def by (intro holds_get holds_then [OF neutral_reserve] stable_rules holds_ret) auto

lemma neutral_push_local: "neutral (push_local name reg)"
  unfolding push_local_def
  by (intro holds_assoc_then holds_get holds_then [OF neutral_check_limit] stable_rules holds_upd) (auto simp: Let_def)

lemmas neutral_rules [low_rules] =
  neutral_steps [THEN holds_bind] neutral_steps [THEN holds_then] neutral_steps [THEN holds_last]
  neutral_reserve [THEN holds_then] neutral_reserve [THEN holds_last]
  neutral_new_reg [THEN holds_bind] neutral_new_reg [THEN holds_last]
  neutral_push_local [THEN holds_bind] neutral_push_local [THEN holds_then] neutral_push_local [THEN holds_last]

section \<open>Emitting code\<close>

definition append_code :: "instruction list \<Rightarrow> int list \<Rightarrow> func_state \<Rightarrow> func_state" where
  "append_code is ls = upd_proto (\<lambda>p. p\<lparr>p_code := p_code p @ is, p_lineinfo := p_lineinfo p @ ls\<rparr>)"

lemma emit_append: "emit i line fs = append_code [i] [if line < 0 then fs_lastline fs else line] fs"
  by (simp add: emit_def append_code_def upd_proto_def)

lemma append_code_fields [simp]:
  "fs_code (append_code is ls fs) = fs_code fs @ is" "p_lineinfo (fs_proto (append_code is ls fs)) = p_lineinfo (fs_proto fs) @ ls"
  "p_constants (fs_proto (append_code is ls fs)) = p_constants (fs_proto fs)"
  "p_upvalues (fs_proto (append_code is ls fs)) = p_upvalues (fs_proto fs)" "fs_protos (append_code is ls fs) = fs_protos fs"
  "fs_break_list (append_code is ls fs) = fs_break_list fs" "fs_pending_gotos (append_code is ls fs) = fs_pending_gotos fs"
  "fs_labels (append_code is ls fs) = fs_labels fs" "fs_lastline (append_code is ls fs) = fs_lastline fs"
  by (simp_all add: append_code_def upd_proto_def)

lemma jump_ok_mono: "jump_ok n pc i \<Longrightarrow> n \<le> m \<Longrightarrow> jump_ok m pc i"
  unfolding jump_ok_def by (metis (no_types, opaque_lifting) order.trans zle_int)

lemma skip_ok_mono: "skip_ok n pc i \<Longrightarrow> n \<le> m \<Longrightarrow> skip_ok m pc i"
  by (auto simp: skip_ok_def)

lemma ins_ok_mono: "ins_ok K U P i \<Longrightarrow> K \<le> K' \<Longrightarrow> U \<le> U' \<Longrightarrow> P \<le> P' \<Longrightarrow> ins_ok K' U' P' i"
  unfolding ins_ok_def by (auto split: option.splits opcode.splits intro: less_le_trans)

lemma grows_stable: "stable P \<Longrightarrow> P fs \<Longrightarrow> grows fs fs' \<Longrightarrow> P fs'"
  by (auto simp: stable_def)

lemmas jmp_at_grows = grows_stable [OF stable_jmp_at]
lemmas goto_at_grows = grows_stable [OF stable_goto_at]
lemmas pc_le_grows = grows_stable [OF stable_pc_le]

text \<open>The size of the three tables an instruction refers to.\<close>

abbreviation ins_in :: "func_state \<Rightarrow> instruction \<Rightarrow> bool" where
  "ins_in fs \<equiv> ins_ok (length (p_constants (fs_proto fs))) (length (p_upvalues (fs_proto fs))) (length (fs_protos fs))"

lemma grows_append: "grows fs (append_code is ls fs)"
  by (simp add: grows_def nth_append)

lemma wf_append:
  assumes "fwf fs" "length ls = length is"
    and new: "\<And>j. j < length is \<Longrightarrow> ins_in fs (is ! j) \<and> jump_ok (length (fs_code fs) + length is) (length (fs_code fs) + j) (is ! j) \<and>
      skip_ok (length (fs_code fs) + length is) (length (fs_code fs) + j) (is ! j)"
  shows "fwf (append_code is ls fs)"
proof -
  let ?n = "length (fs_code fs)" and ?fs = "append_code is ls fs"
  have "ins_in fs ((fs_code fs @ is) ! pc) \<and> jump_ok (?n + length is) pc ((fs_code fs @ is) ! pc) \<and>
      skip_ok (?n + length is) pc ((fs_code fs @ is) ! pc)" if "pc < ?n + length is" for pc
  proof (cases "pc < ?n")
    case True
    then show ?thesis using assms(1) jump_ok_mono [of ?n] skip_ok_mono [of ?n] by (auto simp: fwf_def nth_append)
  next
    case False
    then show ?thesis using new [of "pc - ?n"] that by (simp add: nth_append)
  qed
  moreover have "jmp_at j ?fs" if "jmp_at j fs" for j using jmp_at_grows [OF that grows_append] .
  moreover have "goto_at j ?fs" if "goto_at j fs" for j using goto_at_grows [OF that grows_append] .
  moreover have "pc_le d ?fs" if "pc_le d fs" for d using pc_le_grows [OF that grows_append] .
  ultimately show ?thesis using assms(1,2) by (auto simp: fwf_def)
qed

lemma holds_emit:
  "holds (\<lambda>fs. ins_in fs i \<and> jump_ok (length (fs_code fs) + 1) (length (fs_code fs)) i \<and> \<not> skips i) (l_upd (emit i line)) (\<lambda>_ _. True)"
  by (rule holds_upd) (auto simp: emit_append grows_append skip_ok_def intro!: wf_append)

text \<open>What an instruction with three operands needs.\<close>

definition abc_pre :: "opcode \<Rightarrow> int \<Rightarrow> int \<Rightarrow> int \<Rightarrow> func_state \<Rightarrow> bool" where
  "abc_pre op a b c fs \<longleftrightarrow>
     (case op of
        OP_GETFIELD \<Rightarrow> k_ok c fs \<and> c \<le> 255
      | OP_SETFIELD \<Rightarrow> k_ok b fs \<and> b \<le> 255
      | OP_GETTABUP \<Rightarrow> up_ok b fs \<and> k_ok c fs \<and> c \<le> 255
      | OP_SETTABUP \<Rightarrow> up_ok a fs \<and> k_ok b fs \<and> b \<le> 255
      | OP_GETUPVAL \<Rightarrow> up_ok b fs
      | OP_SETUPVAL \<Rightarrow> up_ok b fs
      | OP_LOADBOOL \<Rightarrow> c = 0
      | _ \<Rightarrow> op \<notin> {OP_LOADK, OP_LOADFLOAT, OP_CLOSURE, OP_TEST, OP_TESTSET, OP_EQ, OP_LT, OP_LE} \<and> \<not> jump_op op)"

lemma unat_small: "0 \<le> x \<Longrightarrow> x \<le> 255 \<Longrightarrow> unat (word_of_int x :: u8) = nat x"
  by (simp add: unat_eq_nat_uint uint_word_of_int)

lemma abc_ins_ok:
  assumes "fwf fs" "abc_pre op a b c fs"
  shows "ins_in fs (encode_abc op (word_of_int a) (word_of_int b) (word_of_int c))"
proof -
  have "length (p_upvalues (fs_proto fs)) \<le> 255" using assms(1) by (simp add: fwf_def)
  then show ?thesis using assms(2)
    by (cases op) (auto simp: abc_pre_def ins_ok_def encode_abc_fields k_ok_def up_ok_def jump_op_def unat_small)
qed

lemma abc_plain: "abc_pre op a b c fs \<Longrightarrow> jump_ok n pc (encode_abc op x y z)"
  by (cases op) (auto simp: abc_pre_def jump_ok_def jump_op_def)

lemma abc_no_skip: "abc_pre op a b c fs \<Longrightarrow> \<not> skips (encode_abc op x y (word_of_int c))"
  by (cases op) (auto simp: abc_pre_def skips_def encode_abc_fields)

lemma holds_abc: "holds (abc_pre op a b c) (code_abc_at line op a b c) (\<lambda>_ _. True)"
  unfolding code_abc_at_def
proof (rule holds_upd)
  fix fs assume "fwf fs" "abc_pre op a b c fs"
  then show "fwf (emit (encode_abc op (word_of_int a) (word_of_int b) (word_of_int c)) line fs) \<and>
      grows fs (emit (encode_abc op (word_of_int a) (word_of_int b) (word_of_int c)) line fs) \<and> True"
    by (auto simp: emit_append grows_append skip_ok_def dest: abc_no_skip intro!: wf_append abc_ins_ok abc_plain)
qed

lemma holds_abx:
  "op = OP_LOADK \<Longrightarrow> holds (k_ok bx) (code_abx_at line op a bx) (\<lambda>_ _. True)"
  "op = OP_CLOSURE \<Longrightarrow> holds (\<lambda>fs. 0 \<le> bx \<and> bx < int (length (fs_protos fs))) (code_abx_at line op a bx) (\<lambda>_ _. True)"
proof -
  show "op = OP_LOADK \<Longrightarrow> holds (k_ok bx) (code_abx_at line op a bx) (\<lambda>_ _. True)"
    unfolding code_abx_at_def
    by (rule holds_upd) (auto simp: emit_append grows_append skip_ok_def skips_def ins_ok_def jump_ok_def jump_op_def encode_abx_fields k_ok_def
        intro!: wf_append exI [of _ "nat bx"])
  show "op = OP_CLOSURE \<Longrightarrow> holds (\<lambda>fs. 0 \<le> bx \<and> bx < int (length (fs_protos fs))) (code_abx_at line op a bx) (\<lambda>_ _. True)"
    unfolding code_abx_at_def
    by (rule holds_upd) (auto simp: emit_append grows_append skip_ok_def skips_def ins_ok_def jump_ok_def jump_op_def encode_abx_fields
        intro!: wf_append exI [of _ "nat bx"])
qed

text \<open>A jump: its offset counts from the next instruction.\<close>

lemma holds_jump:
  assumes "jump_op op"
  shows "holds (\<lambda>fs. pc_le (sbx + pc_of fs + 1) fs \<or> sbx = 0) (code_asbx op a sbx) (\<lambda>j fs. jmp_at j fs \<and> (op = OP_JMP \<longrightarrow> goto_at j fs))"
proof (rule holdsI)
  fix s j s' assume s: "wfs s" and p: "pc_le (sbx + pc_of (lw_fs s) + 1) (lw_fs s) \<or> sbx = 0" and r: "code_asbx op a sbx s = Inr (j, s')"
  let ?fs = "lw_fs s" and ?i = "encode_asbx op (word_of_int a) sbx"
  have fs': "lw_fs s' = emit ?i (- 1) ?fs" "lw_prev s' = lw_prev s" "j = int (length (fs_code ?fs))"
    using r by (auto simp: code_asbx_def l_then_def l_bind_def l_upd_def l_get_def pc_of_def emit_append)
  have "jump_ok (length (fs_code ?fs) + 1) (length (fs_code ?fs)) ?i"
    unfolding jump_ok_def
    by (intro allI impI exI [of _ "sbx + pc_of ?fs + 1"]) (use p in \<open>auto simp: encode_asbx_def encode_abx_fields pc_le_def pc_of_def add.commute\<close>)
  moreover have "ins_in ?fs ?i" using assms by (auto simp: ins_ok_def jump_op_def)
  moreover have "\<not> skips ?i" using assms by (auto simp: skips_def jump_op_def)
  ultimately have "fwf (lw_fs s')" using s by (auto simp: fs' emit_append skip_ok_def wfs_def intro!: wf_append)
  then show "wfs s' \<and> sgrows s s' \<and> jmp_at j (lw_fs s') \<and> (op = OP_JMP \<longrightarrow> goto_at j (lw_fs s'))"
    using s assms by (auto simp: wfs_def sgrows_def fs' emit_append grows_append list.rel_refl jmp_at_def goto_at_def)
qed

lemma holds_loadint: "holds (\<lambda>_. True) (code_asbx OP_LOADINT a sbx) (\<lambda>_ _. True)"
  unfolding code_asbx_def
  by (intro holds_then [OF holds_emit] stable_rules neutral_get)
    (auto simp: ins_ok_def jump_ok_def jump_op_def skips_def)

lemma holds_jmp0: "holds (\<lambda>_. True) (code_asbx OP_JMP a 0) (\<lambda>j fs. jmp_at j fs \<and> goto_at j fs)"
  using holds_jump [of OP_JMP 0 a] by (simp add: jump_op_def)

lemma holds_jump_to: "holds (pc_le d) (jump_to a d) (\<lambda>_ _. True)"
proof (rule holdsI)
  fix s x s' assume s: "wfs s" "pc_le d (lw_fs s)" and r: "jump_to a d s = Inr (x, s')"
  then obtain j where "code_asbx OP_JMP a (d - (pc_of (lw_fs s) + 1)) s = Inr (j, s')"
    by (auto simp: jump_to_def l_bind_def l_then_def l_get_def l_ret_def rbind_eq_Inr)
  from holdsD [OF holds_jump s(1) _ this] s(2) show "wfs s' \<and> sgrows s s' \<and> True" by (simp add: jump_op_def)
qed

lemma holds_jump_back: "holds (pc_le (li_pc info)) (jump_back info) (\<lambda>_ _. True)"
proof (rule holdsI)
  fix s x s' assume s: "wfs s" "pc_le (li_pc info) (lw_fs s)" and r: "jump_back info s = Inr (x, s')"
  then obtain a j where "code_asbx OP_JMP a (li_pc info - (pc_of (lw_fs s) + 1)) s = Inr (j, s')"
    by (auto simp: jump_back_def l_bind_def l_then_def l_get_def l_ret_def rbind_eq_Inr)
  from holdsD [OF holds_jump s(1) _ this] s(2) show "wfs s' \<and> sgrows s s' \<and> True" by (simp add: jump_op_def)
qed

lemma emit_pair:
  "l_then (l_upd (emit i l)) (l_then (l_upd (emit j l')) m) =
   l_then (l_upd (\<lambda>fs. append_code [i, j] [if l < 0 then fs_lastline fs else l, if l' < 0 then fs_lastline fs else l'] fs)) m"
  by (rule ext) (simp add: l_then_def l_bind_def l_upd_def emit_append append_code_def upd_proto_def)

text \<open>A conditional skip comes with the instruction it skips.\<close>

lemma holds_skip_jmp:
  assumes "op \<in> {OP_TEST, OP_EQ, OP_LT, OP_LE}" "stable P" "\<And>j. holds (\<lambda>fs. P fs \<and> jmp_at j fs) (f j) R"
  shows "holds P (l_then (code_abc op a b c) (l_bind (code_asbx OP_JMP 0 0) f)) R"
proof -
  let ?i = "encode_abc op (word_of_int a) (word_of_int b) (word_of_int c)" and ?j = "encode_asbx OP_JMP 0 0"
  have "holds (\<lambda>_. True) (l_then (code_abc op a b c) (code_asbx OP_JMP 0 0)) (\<lambda>j fs. jmp_at j fs)"
  proof (rule holdsI)
    fix s j s' assume s: "wfs s" and r: "l_then (code_abc op a b c) (code_asbx OP_JMP 0 0) s = Inr (j, s')"
    let ?fs = "lw_fs s"
    have s': "lw_fs s' = append_code [?i, ?j] [fs_lastline ?fs, fs_lastline ?fs] ?fs" "lw_prev s' = lw_prev s"
        "j = int (length (fs_code ?fs)) + 1"
      using r by (auto simp: code_abc_def code_abc_at_def code_asbx_def emit_pair)
        (auto simp: l_then_def l_bind_def l_upd_def l_get_def pc_of_def)
    have "jump_ok (length (fs_code ?fs) + 2) (length (fs_code ?fs) + 1) ?j"
      by (auto simp: jump_ok_def encode_asbx_def encode_abx_fields intro: exI [of _ "int (length (fs_code ?fs)) + 2"])
    moreover have "jump_ok n m ?i" for n m using assms(1) by (auto simp: jump_ok_def jump_op_def)
    moreover have "ins_in ?fs ?i" "ins_in ?fs ?j" using assms(1) by (auto simp: ins_ok_def)
    moreover have "\<not> skips ?j" by (simp add: skips_def)
    ultimately have "fwf (lw_fs s')" using s by (auto simp: s' wfs_def skip_ok_def less_Suc_eq numeral_2_eq_2 intro!: wf_append)
    then show "wfs s' \<and> sgrows s s' \<and> jmp_at j (lw_fs s')"
      using s by (auto simp: wfs_def sgrows_def s' grows_append list.rel_refl jmp_at_def jump_op_def nat_add_distrib nth_append)
  qed
  from holds_bind [OF this _ assms(2,3)] show ?thesis by (simp add: l_then_def l_bind_def rbind_assoc split_def fun_eq_iff holds_def)
qed

text \<open>The value of a comparison: \<open>cmp\<close>, a jump over one of two loads, and the loads.\<close>

definition rel_value :: "opcode \<Rightarrow> int \<Rightarrow> int \<Rightarrow> int \<Rightarrow> int \<Rightarrow> instruction list" where
  "rel_value op a b c dest =
     [encode_abc op (word_of_int a) (word_of_int b) (word_of_int c), encode_asbx OP_JMP 0 1,
      encode_abc OP_LOADBOOL (word_of_int dest) 0 1, encode_abc OP_LOADBOOL (word_of_int dest) 1 0]"

lemma holds_rel_value:
  assumes "op \<in> {OP_EQ, OP_LT, OP_LE}" "stable P" "holds P n R"
  shows "holds P (l_then (code_abc op a b c) (l_then (code_asbx OP_JMP 0 1) (l_then (code_abc OP_LOADBOOL dest 0 1) (l_then (code_abc OP_LOADBOOL dest 1 0) n)))) R"
proof -
  let ?is = "rel_value op a b c dest"
  have seq: "l_then (code_abc op a b c) (l_then (code_asbx OP_JMP 0 1) (l_then (code_abc OP_LOADBOOL dest 0 1) (l_then (code_abc OP_LOADBOOL dest 1 0) n)))
      = l_then (l_upd (\<lambda>fs. append_code ?is (replicate 4 (fs_lastline fs)) fs)) n"
    by (rule ext) (simp add: code_abc_def code_abc_at_def code_asbx_def l_then_def l_bind_def l_upd_def l_get_def emit_append append_code_def
        upd_proto_def rel_value_def numeral_eq_Suc)
  have ok: "ins_in fs i" if "i \<in> set ?is" for fs i using that assms(1) by (auto simp: rel_value_def ins_ok_def)
  have jump: "jump_ok (len + 4) (len + j) (?is ! j)" if "j < 4" for len j
  proof -
    have "jump_ok (len + 4) (len + 1) (encode_asbx OP_JMP 0 1)"
      by (auto simp: jump_ok_def encode_asbx_def encode_abx_fields intro: exI [of _ "int len + 3"])
    moreover have "j = 0 \<or> j = 1 \<or> j = 2 \<or> j = 3" using that by auto
    ultimately show ?thesis using assms(1) by (auto simp: rel_value_def numeral_eq_Suc) (auto simp: jump_ok_def jump_op_def)
  qed
  have skip: "skip_ok (len + 4) (len + j) (?is ! j)" if "j < 4" for len j
  proof -
    have "j = 3 \<or> j \<le> 2" using that by auto
    then show ?thesis by (auto simp: skip_ok_def rel_value_def skips_def encode_abc_fields numeral_eq_Suc)
  qed
  have "holds (\<lambda>_. True) (l_upd (\<lambda>fs. append_code ?is (replicate 4 (fs_lastline fs)) fs)) (\<lambda>_ _. True)"
  proof (rule holds_upd)
    fix fs assume "fwf fs"
    moreover have "length ?is = 4" by (simp add: rel_value_def)
    ultimately have "fwf (append_code ?is (replicate 4 (fs_lastline fs)) fs)"
      using ok jump skip by (intro wf_append) (auto simp: nth_mem)
    then show "fwf (append_code ?is (replicate 4 (fs_lastline fs)) fs) \<and> grows fs (append_code ?is (replicate 4 (fs_lastline fs)) fs) \<and> True"
      using grows_append by simp
  qed
  then show ?thesis unfolding seq using assms(2,3) by (intro holds_then) auto
qed

section \<open>Patching code\<close>

lemma wf_set_code:
  assumes "fwf fs" "0 \<le> j" "j < int (length (fs_code fs))" "ins_in fs i" "jump_ok (length (fs_code fs)) (nat j) i" "\<not> skips i"
    and op: "\<And>op. opcode_at (fs_code fs ! nat j) = Some op \<Longrightarrow> jump_op op \<Longrightarrow> opcode_at i = Some op"
  shows "fwf (set_code j i fs) \<and> grows fs (set_code j i fs)"
proof -
  have g: "grows fs (set_code j i fs)"
    using assms(2,3) op by (auto simp: grows_def set_code_def upd_proto_def nth_list_update)
  have "jmp_at l (set_code j i fs)" if "jmp_at l fs" for l using jmp_at_grows [OF that g] .
  moreover have "goto_at l (set_code j i fs)" if "goto_at l fs" for l using goto_at_grows [OF that g] .
  moreover have "pc_le d (set_code j i fs)" if "pc_le d fs" for d using pc_le_grows [OF that g] .
  ultimately have "fwf (set_code j i fs)"
    using assms by (auto simp: fwf_def set_code_def upd_proto_def nth_list_update skip_ok_def)
  then show ?thesis using g by simp
qed

lemma holds_fix_sbx: "holds (\<lambda>fs. jmp_at j fs \<and> pc_le d fs) (fix_sbx j d) (\<lambda>_ _. True)"
  unfolding fix_sbx_def
proof (rule holds_upd)
  fix fs assume "fwf fs" and p: "jmp_at j fs \<and> pc_le d fs"
  then obtain op where op: "opcode_at (fs_code fs ! nat j) = Some op" "jump_op op" "0 \<le> j" "j < int (length (fs_code fs))"
    by (auto simp: jmp_at_def)
  let ?i = "encode_asbx op (op_a (fs_code fs ! nat j)) (d - (j + 1))"
  have "retarget (fs_code fs ! nat j) (d - (j + 1)) = ?i" using op(1) by (simp add: retarget_def opcode_at_def)
  moreover have "jump_ok (length (fs_code fs)) (nat j) ?i"
    using p op by (auto simp: jump_ok_def encode_asbx_def encode_abx_fields pc_le_def intro: exI [of _ d])
  moreover have "ins_in fs ?i" "\<not> skips ?i" using op(2) by (auto simp: ins_ok_def skips_def jump_op_def)
  ultimately show "fwf (set_code j (retarget (fs_code fs ! nat j) (d - (j + 1))) fs) \<and>
      grows fs (set_code j (retarget (fs_code fs ! nat j) (d - (j + 1))) fs) \<and> True"
    using wf_set_code [OF \<open>fwf fs\<close> op(3,4), of ?i] op(1) by simp
qed

lemma holds_get_pc: "stable P \<Longrightarrow> (\<And>d. holds (\<lambda>fs. P fs \<and> pc_le d fs) (f d) R) \<Longrightarrow> holds P (l_bind (l_get pc_of) f) R"
proof -
  assume "stable P" "\<And>d. holds (\<lambda>fs. P fs \<and> pc_le d fs) (f d) R"
  moreover have "holds (\<lambda>_. True) (l_get pc_of) pc_le" by (auto simp: holds_def l_get_def pc_le_def pc_of_def)
  ultimately show ?thesis by (intro holds_bind) auto
qed

lemma holds_fix_here: "holds (jmp_at j) (fix_here j) (\<lambda>_ _. True)"
  unfolding fix_here_def by (intro holds_get_pc stable_rules holds_last [OF holds_fix_sbx]) auto

lemma find_rev_last: "find Q (rev [0..<n]) = Some i \<Longrightarrow> i < n \<and> Q i"
  by (auto simp: find_Some_iff rev_nth)

lemma last_call_at: "last_call is = Some i \<Longrightarrow> i < length is \<and> opcode_at (is ! i) = Some OP_CALL"
  by (auto simp: last_call_def opcode_at_def opcode_of_num dest!: find_rev_last)

lemma holds_set_call_results: "holds (\<lambda>_. True) (set_call_results c) (\<lambda>_ _. True)"
proof (rule holdsI)
  fix s x s' assume s: "wfs s" and r: "set_call_results c s = Inr (x, s')"
  show "wfs s' \<and> sgrows s s' \<and> True"
  proof (cases "last_call (fs_code (lw_fs s))")
    case None
    then show ?thesis using r s by (simp add: set_call_results_def l_bind_def l_get_def l_ret_def)
  next
    case (Some i)
    let ?i = "encode_abc OP_CALL (op_a (fs_code (lw_fs s) ! i)) (op_b (fs_code (lw_fs s) ! i)) c"
    have s': "s' = s\<lparr>lw_fs := set_code (int i) ?i (lw_fs s)\<rparr>"
      using r Some by (simp add: set_call_results_def l_bind_def l_then_def l_get_def l_ret_def l_upd_def)
    have "fwf (lw_fs s') \<and> grows (lw_fs s) (lw_fs s')"
      using wf_set_code [of "lw_fs s" "int i" ?i] s last_call_at [OF Some]
      by (auto simp: s' wfs_def ins_ok_def jump_ok_def jump_op_def skips_def)
    then show ?thesis using s by (simp add: wfs_def sgrows_def s' list.rel_refl)
  qed
qed

section \<open>Constants and names\<close>

lemma wf_tables:
  assumes "fwf fs" "length (p_constants (fs_proto fs)) \<le> length ks" "length (p_upvalues (fs_proto fs)) \<le> length us" "length us \<le> 255"
  shows "fwf (upd_proto (\<lambda>p. p\<lparr>p_constants := ks, p_upvalues := us\<rparr>) fs) \<and>
    grows fs (upd_proto (\<lambda>p. p\<lparr>p_constants := ks, p_upvalues := us\<rparr>) fs)"
  using assms unfolding fwf_def grows_def by (auto simp: upd_proto_def jmp_at_def goto_at_def pc_le_def intro: ins_ok_mono)

lemma wf_constants:
  "fwf fs \<Longrightarrow> fwf (upd_proto (\<lambda>p. p\<lparr>p_constants := p_constants (fs_proto fs) @ vs\<rparr>) fs) \<and>
    grows fs (upd_proto (\<lambda>p. p\<lparr>p_constants := p_constants (fs_proto fs) @ vs\<rparr>) fs)"
  using wf_tables [of fs "p_constants (fs_proto fs) @ vs" "p_upvalues (fs_proto fs)"] by (simp add: upd_proto_def fwf_def)

lemma wf_upvalue:
  assumes "fwf fs" "int (length (p_upvalues (fs_proto fs))) + 1 \<le> MAXUPVAL"
  shows "fwf (upd_proto (\<lambda>p. p\<lparr>p_upvalues := p_upvalues (fs_proto fs) @ [u]\<rparr>) fs) \<and>
    grows fs (upd_proto (\<lambda>p. p\<lparr>p_upvalues := p_upvalues (fs_proto fs) @ [u]\<rparr>) fs)"
  using wf_tables [of fs "p_constants (fs_proto fs)" "p_upvalues (fs_proto fs) @ [u]"] assms by (simp add: upd_proto_def MAXUPVAL_def)

lemma find_upt: "find Q [0..<n] = Some i \<Longrightarrow> i < n \<and> Q i"
  by (auto simp: find_Some_iff)

lemma const_index_ok:
  assumes "const_index v fs = (k, fs')" "fwf fs"
  shows "fwf fs' \<and> grows fs fs' \<and> k_ok k fs'"
proof (cases "find (\<lambda>i. p_constants (fs_proto fs) ! i = v) [0..<length (p_constants (fs_proto fs))]")
  case None
  then show ?thesis using assms wf_constants [OF assms(2), of "[v]"] by (auto simp: const_index_def Let_def k_ok_def upd_proto_def)
next
  case (Some i)
  then show ?thesis using assms find_upt [OF Some] by (auto simp: const_index_def Let_def k_ok_def)
qed

lemma holds_l_const: "holds (\<lambda>_. True) (l_const v) (\<lambda>k fs. k_ok k fs)"
  by (rule holdsI) (auto simp: l_const_def wfs_def sgrows_def list.rel_refl split: prod.splits dest!: const_index_ok)

lemma holds_l_intern: "holds (\<lambda>_. True) (l_intern str) (\<lambda>v _. is_string v)"
  by (rule holdsI) (auto simp: l_intern_def wfs_def sgrows_def list.rel_refl split: prod.splits)

lemma holds_string_k: "holds (\<lambda>_. True) (string_k str) (\<lambda>k fs. k_ok k fs)"
  unfolding string_k_def by (intro holds_bind [OF holds_l_intern] stable_rules holds_last [OF holds_l_const]) auto

lemma upval_index_ok: "upval_index Q fs = Some i \<Longrightarrow> up_ok (int i) fs"
  by (auto simp: upval_index_def up_ok_def Let_def dest: find_upt)

lemma wf_mark_captured [simp]: "fwf (mark_local_captured r fs) = fwf fs" "grows a (mark_local_captured r fs) = grows a fs"
  by (simp_all add: mark_local_captured_def)

lemma add_upval_ok:
  assumes "add_upval name instack idx fs prev = Inr (i, fs', prev')" "fwf fs" "list_all fwf prev"
  shows "fwf fs' \<and> list_all fwf prev' \<and> grows fs fs' \<and> list_all2 grows prev prev' \<and> up_ok i fs'"
proof (cases "upval_index (\<lambda>u. ud_instack u = instack \<and> ud_idx u = word_of_int idx) fs")
  case None
  let ?u = "\<lparr>ud_instack = instack, ud_idx = word_of_int idx, ud_name = name\<rparr>"
  have r: "int (length (p_upvalues (fs_proto fs))) + 1 \<le> MAXUPVAL" "i = int (length (p_upvalues (fs_proto fs)))"
      "fs' = upd_proto (\<lambda>p. p\<lparr>p_upvalues := p_upvalues (fs_proto fs) @ [?u]\<rparr>) fs"
      "prev' = (case prev of [] \<Rightarrow> [] | q # qs \<Rightarrow> (if instack then mark_local_captured idx q else q) # qs)"
    using assms(1) None by (auto simp: add_upval_def Let_def error_limit_def split: if_splits)
  then show ?thesis using wf_upvalue [OF assms(2) r(1), of ?u] assms(3)
    by (cases prev) (auto simp: up_ok_def upd_proto_def list.rel_refl)
next
  case (Some j)
  then show ?thesis using assms upval_index_ok [OF Some] by (auto simp: add_upval_def list.rel_refl)
qed

lemma ensure_env_upval_ok:
  "ensure_env_upval fs prev = Inr (i, fs', prev') \<Longrightarrow> fwf fs \<Longrightarrow> list_all fwf prev \<Longrightarrow>
    fwf fs' \<and> list_all fwf prev' \<and> grows fs fs' \<and> list_all2 grows prev prev' \<and> up_ok i fs'"
proof (induction fs prev arbitrary: i fs' prev' rule: ensure_env_upval.induct)
  case (1 fs)
  then show ?case by (auto split: option.splits dest: upval_index_ok)
next
  case (2 fs q qs)
  show ?case
  proof (cases "upval_index (\<lambda>u. ud_name u = ''_ENV'') fs")
    case (Some j)
    then show ?thesis using "2.prems" upval_index_ok [OF Some] by (auto simp: list.rel_refl)
  next
    case None
    consider (direct) b j where "add_upval ''_ENV'' b j fs (q # qs) = Inr (i, fs', prev')"
      | (parent) p q' qs' where "\<not> 0 \<le> find_local ''_ENV'' q" "upval_index (\<lambda>u. ud_name u = ''_ENV'') q = None"
          "ensure_env_upval q qs = Inr (p, q', qs')" "add_upval ''_ENV'' False p fs (q' # qs') = Inr (i, fs', prev')"
      using "2.prems"(1) None by (auto simp: rbind_eq_Inr split: if_splits option.splits)
    then show ?thesis
    proof cases
      case direct
      from add_upval_ok [OF this "2.prems"(2,3)] show ?thesis by simp
    next
      case parent
      then have "fwf q' \<and> list_all fwf qs' \<and> grows q q' \<and> list_all2 grows qs qs'"
        using "2.IH" [OF None parent(1,2,3)] "2.prems"(3) by simp
      moreover from this have "fwf fs' \<and> list_all fwf prev' \<and> grows fs fs' \<and> list_all2 grows (q' # qs') prev' \<and> up_ok i fs'"
        using add_upval_ok [OF parent(4) "2.prems"(2)] by simp
      ultimately show ?thesis using list_all2_trans [of grows grows grows "q # qs" "q' # qs'" prev'] grows_trans by auto
    qed
  qed
qed

lemma global_var_ok:
  assumes "global_var al name (fs, prev, HS) = Inr (e, fs', prev', HS')" "fwf fs" "list_all fwf prev"
  shows "fwf fs' \<and> list_all fwf prev' \<and> grows fs fs' \<and> list_all2 grows prev prev' \<and> exp_ok e fs'"
proof -
  obtain p HS1 where p: "st_intern (al HS) name HS = (p, HS1)" by (cases "st_intern (al HS) name HS")
  obtain i fs1 prev1 where i: "(if 0 \<le> find_local ''_ENV'' fs then Inr (0, fs, prev) else ensure_env_upval fs prev) = Inr (i, fs1, prev1)"
    using assms(1) by (auto simp: global_var_def Let_def rbind_eq_Inr)
  obtain k fs2 where k: "const_index (VString p) fs1 = (k, fs2)" by (cases "const_index (VString p) fs1")
  have e: "(if 0 \<le> find_local ''_ENV'' fs then Inr (0, fs, prev) else ensure_env_upval fs prev) = Inr (i, fs1, prev')"
      "const_index (VString p) fs1 = (k, fs')" "ed_kind e = KGlobal" "ed_info e = k"
    using assms(1) i p k by (auto simp: global_var_def Let_def)
  have "fwf fs1 \<and> list_all fwf prev' \<and> grows fs fs1 \<and> list_all2 grows prev prev'"
    using e(1) assms(2,3) ensure_env_upval_ok by (auto simp: list.rel_refl split: if_splits)
  moreover from this have "fwf fs' \<and> grows fs1 fs' \<and> k_ok k fs'" using const_index_ok [OF e(2)] by simp
  ultimately show ?thesis using grows_trans e(3,4) by (auto simp: exp_ok_def)
qed

lemma own_var_ok: "own_var name fs = Some e \<Longrightarrow> exp_ok e fs"
  by (auto simp: own_var_def exp_ok_def dest: upval_index_ok split: if_splits)

lemma search_var_ok:
  "search_var al name fs prev HS = Inr (e, fs', prev', HS') \<Longrightarrow> fwf fs \<Longrightarrow> list_all fwf prev \<Longrightarrow>
    fwf fs' \<and> list_all fwf prev' \<and> grows fs fs' \<and> list_all2 grows prev prev' \<and> exp_ok e fs'"
proof (induction al name fs prev HS arbitrary: e fs' prev' HS' rule: search_var.induct)
  case (1 al name fs HS)
  show ?case
  proof (cases "own_var name fs")
    case None
    then have "global_var al name (fs, [], HS) = Inr (e, fs', prev', HS')" using "1.prems"(1) by simp
    from global_var_ok [OF this "1.prems"(2,3)] show ?thesis .
  next
    case (Some e')
    then show ?thesis using "1.prems" own_var_ok [OF Some] by auto
  qed
next
  case (2 al name fs q qs HS)
  show ?case
  proof (cases "own_var name fs")
    case (Some e')
    then show ?thesis using "2.prems" own_var_ok [OF Some] by (auto simp: list.rel_refl)
  next
    case None
    obtain pe q' qs' HS1 where r: "search_var al name q qs HS = Inr (pe, q', qs', HS1)"
      using "2.prems"(1) None by (auto simp: rbind_eq_Inr)
    have q: "fwf q' \<and> list_all fwf qs' \<and> grows q q' \<and> list_all2 grows qs qs'" using "2.IH" [OF None r] "2.prems"(3) by simp
    have "fwf fs' \<and> list_all fwf prev' \<and> grows fs fs' \<and> list_all2 grows (q' # qs') prev' \<and> exp_ok e fs'"
    proof (cases "ed_kind pe = KLocal \<or> ed_kind pe = KUpval")
      case True
      then obtain i where a: "add_upval name (ed_kind pe = KLocal) (ed_info pe) fs (q' # qs') = Inr (i, fs', prev')"
          "e = exp0\<lparr>ed_kind := KUpval, ed_info := i\<rparr>"
        using "2.prems"(1) None r by (auto simp: rbind_eq_Inr)
      then show ?thesis using add_upval_ok [OF a(1) "2.prems"(2)] q by (simp add: exp_ok_def)
    next
      case False
      then have "global_var al name (fs, q' # qs', HS1) = Inr (e, fs', prev', HS')" using "2.prems"(1) None r by simp
      then show ?thesis using global_var_ok "2.prems"(2) q by fastforce
    qed
    then show ?thesis using q list_all2_trans [of grows grows grows "q # qs" "q' # qs'" prev'] grows_trans by auto
  qed
qed

lemma holds_search_var: "holds (\<lambda>_. True) (l_search_var name) (\<lambda>e fs. exp_ok e fs)"
  by (rule holdsI) (auto simp: l_search_var_def wfs_def sgrows_def rbind_eq_Inr dest!: search_var_ok)

lemma holds_env_upval: "holds (\<lambda>_. True) l_env_upval (\<lambda>i fs. up_ok i fs)"
  by (rule holdsI) (auto simp: l_env_upval_def wfs_def sgrows_def rbind_eq_Inr dest!: ensure_env_upval_ok)

section \<open>Rules for sequences\<close>

lemma holds_abc0: "holds (abc_pre op a b c) (code_abc op a b c) (\<lambda>_ _. True)"
  by (simp add: code_abc_def holds_abc)

lemma holds_loadk: "holds (k_ok bx) (code_abx OP_LOADK a bx) (\<lambda>_ _. True)" "holds (k_ok bx) (code_abx_at line OP_LOADK a bx) (\<lambda>_ _. True)"
  by (simp_all add: code_abx_def holds_abx)

lemma holds_patch: "holds (\<lambda>_. True) (patch_last_call_results n) (\<lambda>_ _. True)"
  by (simp add: patch_last_call_results_def holds_set_call_results)

lemma holds_jump0: "holds (\<lambda>_. True) jmp0 (\<lambda>j fs. jmp_at j fs \<and> goto_at j fs)"
  by (simp add: jmp0_def holds_jmp0)

lemma holds_prep: "holds (\<lambda>_. True) (code_asbx OP_FORPREP a 0) (\<lambda>j fs. jmp_at j fs)" "holds (\<lambda>_. True) (code_asbx OP_TFORLOOP a 0) (\<lambda>j fs. jmp_at j fs)"
  using holds_jump [of OP_FORPREP 0 a] holds_jump [of OP_TFORLOOP 0 a] by (simp_all add: jump_op_def)

lemmas step_rules =
  holds_abc holds_abc0 holds_loadk holds_patch holds_set_call_results holds_jump0 holds_jmp0 holds_prep holds_loadint holds_jump_to holds_fix_sbx holds_fix_here
  holds_l_const holds_l_intern holds_string_k holds_search_var holds_env_upval

lemmas step_seq_rules [low_rules] = step_rules [THEN holds_bind] step_rules [THEN holds_then] step_rules [THEN holds_last]

lemma holds_load_k: "holds (k_ok k) (load_k k) (\<lambda>_ _. True)"
  unfolding load_k_def by (intro low_rules stable_rules) auto

lemmas load_k_rules [low_rules] = holds_load_k [THEN holds_bind] holds_load_k [THEN holds_then] holds_load_k [THEN holds_last]

section \<open>Expressions\<close>

lemmas pre_defs = abc_pre_def jump_op_def exp_ok_def k_ok_def up_ok_def

lemma holds_discharge_global: "ed_kind e = KGlobal \<Longrightarrow> holds (exp_ok e) (discharge_global e) (\<lambda>_ _. True)"
  unfolding discharge_global_def by (intro low_rules stable_rules) (auto simp: pre_defs)

lemma neutral_const: "holds (\<lambda>_. True) (l_bind (l_const v) (code_abx OP_LOADK r)) (\<lambda>_ _. True)"
  by (intro low_rules stable_rules) auto

lemma holds_discharge_const: "holds (\<lambda>_. True) (discharge_const v) (\<lambda>_ _. True)"
proof -
  have "neutral (case v of
      VNil \<Rightarrow> code_abc OP_LOADNIL r 0 0
    | VBool b \<Rightarrow> code_abc OP_LOADBOOL r (if b then 1 else 0) 0
    | VInt n \<Rightarrow>
        if - 32768 \<le> sint n \<and> sint n \<le> 32767 then l_then (code_asbx OP_LOADINT r (sint n)) (l_ret ())
        else l_bind (l_const v) (code_abx OP_LOADK r)
    | _ \<Rightarrow> l_bind (l_const v) (code_abx OP_LOADK r))" for r
    by (cases v) (auto simp: pre_defs intro!: low_rules stable_rules neutral_const)
  then show ?thesis unfolding discharge_const_def
    by (intro neutral_new_reg [THEN holds_bind] holds_then [where Q = "\<lambda>_ _. True"] stable_rules holds_ret) (auto elim: holds_last intro: stable_rules)
qed

lemma holds_get_index: "ed_kind e = KIndexed \<Longrightarrow> holds (exp_ok e) (emit_get_index r e) (\<lambda>_ _. True)"
  unfolding emit_get_index_def by (intro low_rules stable_rules) (auto simp: pre_defs split: index_key.splits)

lemma holds_set_index: "ed_kind e = KIndexed \<Longrightarrow> holds (exp_ok e) (emit_set_index e r) (\<lambda>_ _. True)"
  unfolding emit_set_index_def by (intro low_rules stable_rules) (auto simp: pre_defs split: index_key.splits)

lemma holds_exp2reg: "holds (exp_ok e) (exp2reg e) (\<lambda>_ _. True)"
proof (cases "ed_kind e")
  case KIndexed
  then show ?thesis unfolding exp2reg_def
    by (simp, intro low_rules holds_get_index [THEN holds_then] stable_rules) (auto simp: pre_defs)
next
  case KGlobal
  then show ?thesis using holds_discharge_global by (simp add: exp2reg_def)
next
  case KConstant
  then show ?thesis unfolding exp2reg_def by (simp, intro holds_discharge_const [THEN holds_last] stable_rules) auto
next
  case KUpval
  then show ?thesis unfolding exp2reg_def by (simp, intro low_rules stable_rules) (auto simp: pre_defs)
qed (unfold exp2reg_def, simp_all, (intro low_rules stable_rules; simp)+)

lemma holds_move_to: "neutral (move_to dest r)"
  unfolding move_to_def by (intro low_rules stable_rules) (auto simp: pre_defs)

text \<open>The command of an expression and that of a statement or block.\<close>

abbreviation good :: "expdesc low \<Rightarrow> bool" where
  "good m \<equiv> holds (\<lambda>_. True) m (\<lambda>e fs. exp_ok e fs)"

lemma holds_reg_of:
  assumes "good m"
  shows "neutral (reg_of m)"
  unfolding reg_of_def by (intro assms [THEN holds_bind] holds_exp2reg [THEN holds_last] stable_rules) auto

lemma holds_into_reg: "good m \<Longrightarrow> neutral (into_reg dest m)"
  unfolding into_reg_def by (intro holds_reg_of [THEN holds_bind] holds_move_to [THEN holds_last] stable_rules) auto

lemmas exp_rules [low_rules] =
  holds_exp2reg [THEN holds_bind] holds_exp2reg [THEN holds_then] holds_exp2reg [THEN holds_last]
  holds_move_to [THEN holds_bind] holds_move_to [THEN holds_then] holds_move_to [THEN holds_last]
  holds_reg_of [THEN holds_bind] holds_reg_of [THEN holds_then] holds_reg_of [THEN holds_last]
  holds_into_reg [THEN holds_bind] holds_into_reg [THEN holds_then] holds_into_reg [THEN holds_last]

lemma exp_ok_simps [simp]: "exp_ok (exp_in r) fs" "exp_ok (expr_const v) fs"
  by (simp_all add: exp_ok_def exp_in_def expr_const_def)

lemma good_vararg: "good vararg_expr"
  unfolding vararg_expr_def by (intro low_rules stable_rules) (auto simp: abc_pre_def jump_op_def)

lemma good_paren:
  assumes "good m"
  shows "good (paren_expr m)"
proof -
  have "exp_ok (if ed_kind e = KCall then e\<lparr>ed_reg := ed_info e, ed_kind := KNonrelocable\<rparr> else e) fs" if "exp_ok e fs" for e fs
    using that by (simp add: exp_ok_def)
  then show ?thesis unfolding paren_expr_def by (intro assms [THEN holds_bind] low_rules stable_rules) auto
qed

lemma un_opcode_pre: "abc_pre (un_opcode op) a b c fs"
  by (cases op) (simp_all add: un_opcode_def abc_pre_def jump_op_def)

lemma good_un:
  assumes "good m"
  shows "good (un_expr l op m)"
  unfolding un_expr_def
  by (intro assms [THEN holds_bind] stable_rules)
    (auto simp: un_opcode_pre split: option.splits intro!: low_rules stable_rules)

lemma rel_code_ops: "fst (rel_code op) \<in> {OP_EQ, OP_LT, OP_LE}"
  by (cases op) (auto simp: rel_code_def)

lemma holds_compare_jmp [low_rules]:
  assumes "stable P" "\<And>j. holds (\<lambda>fs. P fs \<and> jmp_at j fs) (f j) R"
  shows "holds P (l_then (compare_regs op acond rb rc) (l_bind jmp0 f)) R"
proof -
  obtain cmp swap where c: "rel_code op = (cmp, swap)" by (cases "rel_code op")
  then have "cmp \<in> {OP_TEST, OP_EQ, OP_LT, OP_LE}" using rel_code_ops [of op] by auto
  from holds_skip_jmp [OF this assms] show ?thesis by (simp add: compare_regs_def c jmp0_def)
qed

lemma holds_test_jmp:
  assumes "stable P" "\<And>j. holds (\<lambda>fs. P fs \<and> jmp_at j fs) (f j) R"
  shows "holds P (l_then (code_abc OP_TEST a b c) (l_bind jmp0 f)) R"
  using holds_skip_jmp [OF _ assms, of OP_TEST] by (simp add: jmp0_def)

lemma neutral_upd: "(\<And>fs. fwf (f fs) = fwf fs \<and> grows fs (f fs)) \<Longrightarrow> neutral (l_upd f)"
  by (rule holds_upd) simp

lemmas neutral_upd_rules [low_rules] = neutral_upd [THEN holds_bind] neutral_upd [THEN holds_then] neutral_upd [THEN holds_last]

lemma holds_failjmp: "good ml \<Longrightarrow> good mr \<Longrightarrow> holds (\<lambda>_. True) (emit_rel_failjmp floor op ml mr) (\<lambda>j fs. jmp_at j fs)"
  unfolding emit_rel_failjmp_def by (intro low_rules stable_rules) auto

lemma good_and_rel:
  assumes "good a1" "good b1" "good a2" "good b2"
  shows "good (and_rel_expr op1 a1 b1 op2 a2 b2)"
  unfolding and_rel_expr_def
  by (rule holds_get, rule holds_failjmp [OF assms(1,2), THEN holds_bind], simp, intro stable_rules,
      rule holds_failjmp [OF assms(3,4), THEN holds_bind], simp, intro stable_rules, intro low_rules stable_rules) (simp_all add: abc_pre_def)

lemma good_and_or: "good ml \<Longrightarrow> good mr \<Longrightarrow> good (and_or_expr b ml mr)"
  unfolding and_or_expr_def by (intro holds_test_jmp low_rules stable_rules) (simp_all add: abc_pre_def jump_op_def)

lemma good_concat: "good ml \<Longrightarrow> good mr \<Longrightarrow> good (concat_expr ml mr)"
  unfolding concat_expr_def by (intro low_rules stable_rules) (simp_all add: abc_pre_def jump_op_def)

lemma good_rel:
  assumes "good ml" "good mr"
  shows "good (rel_expr op ml mr)"
proof -
  obtain cmp swap where c: "rel_code op = (cmp, swap)" by (cases "rel_code op")
  have cmp: "cmp \<in> {OP_EQ, OP_LT, OP_LE}" using rel_code_ops [of op] c by simp
  show ?thesis unfolding rel_expr_def compare_regs_def c Let_def prod.case
    by (intro holds_reg_of [OF assms(1), THEN holds_bind] holds_reg_of [OF assms(2), THEN holds_bind] neutral_new_reg [THEN holds_bind]
        holds_rel_value cmp stable_rules holds_ret) simp_all
qed

lemma good_arith: "good ml \<Longrightarrow> good mr \<Longrightarrow> bin_arith_op op = Some cop \<Longrightarrow> good (arith_expr l cop ml mr)"
  unfolding arith_expr_def
  by (intro low_rules stable_rules) (auto simp: abc_pre_def jump_op_def bin_arith_op_def split: bin_op.splits)

lemma good_index:
  assumes "good mt" "good mk"
  shows "good (index_expr mt mk)"
  unfolding index_expr_def Let_def
  by (intro low_rules assms(1) assms(2) [THEN holds_bind] stable_rules) (auto simp: exp_ok_def exp0_def)

lemma good_field: "good mt \<Longrightarrow> good (field_expr mt f)"
  unfolding field_expr_def Let_def by (intro low_rules stable_rules) (auto simp: exp_ok_def exp0_def)

lemma neutral_call_args: "(\<And>a m. (a, m) \<in> set args \<Longrightarrow> good m) \<Longrightarrow> neutral (call_args args)"
proof (induction args)
  case (Cons am args)
  obtain arg m where am: "am = (arg, m)" by (cases am)
  have m: "good m" and rest: "neutral (call_args args)" using Cons am by auto
  show ?case unfolding am call_args.simps
    by (intro low_rules m [THEN holds_then] m rest [THEN holds_last] stable_rules) (simp_all add: abc_pre_def jump_op_def)
qed (simp add: holds_ret)

lemma neutral_callee:
  assumes "good m"
  shows "neutral (call_callee base m)"
  unfolding call_callee_def
  by (intro assms [THEN holds_bind] holds_if holds_get_index [THEN holds_last] holds_exp2reg [THEN holds_bind] holds_move_to [THEN holds_last] stable_rules) simp_all

lemma neutral_self: "neutral (call_self base meth)"
  unfolding call_self_def by (intro low_rules stable_rules) (simp_all add: abc_pre_def jump_op_def)

lemma good_call:
  assumes "good mc" "\<And>a m. (a, m) \<in> set args \<Longrightarrow> good m"
  shows "good (call_expr l mc args is_method meth)"
  unfolding call_expr_def
  by (intro low_rules neutral_callee [OF assms(1), THEN holds_then] neutral_self [THEN holds_then] neutral_call_args [OF assms(2), THEN holds_bind]
      stable_rules) (simp_all add: abc_pre_def jump_op_def exp_ok_def)

text \<open>A call ends with its instruction.\<close>

definition ends_call :: "func_state \<Rightarrow> bool" where
  "ends_call fs \<longleftrightarrow> fs_code fs \<noteq> [] \<and> opcode_at (last (fs_code fs)) = Some OP_CALL"

definition ends :: "'a low \<Rightarrow> bool" where
  "ends m \<longleftrightarrow> (\<forall>s x s'. m s = Inr (x, s') \<longrightarrow> ends_call (lw_fs s'))"

lemma ends_bind: "(\<And>x. ends (f x)) \<Longrightarrow> ends (l_bind m f)"
  by (auto simp: ends_def l_bind_def rbind_eq_Inr)

lemma ends_then: "ends n \<Longrightarrow> ends (l_then m n)"
  by (simp add: l_then_def ends_bind)

lemma ends_tail: "ends (l_then (code_abc_at l' OP_CALL a b c) (l_then (line_mark l) (l_then (set_freereg r) (l_ret e))))"
  by (auto simp: ends_def ends_call_def l_then_def l_bind_def l_upd_def l_ret_def code_abc_at_def line_mark_def l_when_def
      set_lastline_def set_freereg_def emit_append)

lemma ends_call_expr: "ends (call_expr l mc args is_method meth)"
  unfolding call_expr_def by (intro ends_tail ends_bind ends_then)

section \<open>Constructors\<close>

lemma neutral_named_field: "good mv \<Longrightarrow> neutral (named_field r name mv)"
  unfolding named_field_def by (intro low_rules stable_rules) (simp_all add: abc_pre_def jump_op_def)

lemma neutral_keyed_field:
  assumes "good mk" "good mv"
  shows "neutral (keyed_field r mk mv)"
  unfolding keyed_field_def Let_def
  by (intro assms(1) [THEN holds_bind] low_rules assms(2) stable_rules) (simp_all add: abc_pre_def jump_op_def)

lemma neutral_table_fields:
  "(\<And>n key v mv. (n, key, v, mv) \<in> set fds \<Longrightarrow> good mv \<and> (\<forall>mk. key = Some mk \<longrightarrow> good mk)) \<Longrightarrow> neutral (table_fields r na tostore fds)"
proof (induction r na tostore fds rule: table_fields.induct)
  case (2 r na tostore name key v mv fds)
  have mv: "good mv" using "2.prems" [of name key v mv] by simp
  have key: "good mk" if "key = Some mk" for mk using "2.prems" [of name key v mv] that by simp
  have rest: "good mv' \<and> (\<forall>mk. key' = Some mk \<longrightarrow> good mk)" if "(n, key', v', mv') \<in> set fds" for n key' v' mv'
    using "2.prems" [of n key' v' mv'] that by simp
  consider (named) "name \<noteq> []" | (keyed) mk where "name = []" "key = Some mk" | (item) "name = []" "key = None" by (cases key) auto
  then show ?case
  proof cases
    case named
    have n: "neutral (table_fields r na tostore fds)" using "2.IH"(1) [OF named rest] .
    show ?thesis using named
      by (simp, intro neutral_named_field [OF mv, THEN holds_then] neutral_steps [THEN holds_then] n [THEN holds_last] stable_rules) simp_all
  next
    case (keyed mk)
    have n: "neutral (table_fields r na tostore fds)" using "2.IH"(4) [OF _ keyed(2) rest] keyed by simp
    show ?thesis using keyed
      by (simp, intro neutral_keyed_field [OF key [OF keyed(2)] mv, THEN holds_then] neutral_steps [THEN holds_then] n [THEN holds_last] stable_rules) simp_all
  next
    case item
    have more: "neutral (table_fields r (na + 1) 0 fds)" if "tostore + 1 = 50"
        "\<not> (\<not> list_ex array_item fds \<and> is_vararg_expr v)" "\<not> (\<not> list_ex array_item fds \<and> is_call_expr v)"
      using "2.IH"(2) [OF _ item(2) refl refl that(2,3,1) rest] item by simp
    have next_one: "neutral (table_fields r (na + 1) (tostore + 1) fds)" if "tostore + 1 \<noteq> 50"
        "\<not> (\<not> list_ex array_item fds \<and> is_vararg_expr v)" "\<not> (\<not> list_ex array_item fds \<and> is_call_expr v)"
      using "2.IH"(3) [OF _ item(2) refl refl that(2,3,1) rest] item by simp
    show ?thesis unfolding table_fields.simps Let_def using item
      by (simp only: if_False if_True not_True_eq_False simp_thms option.case,
          intro low_rules mv mv [THEN holds_then] more [THEN holds_last] next_one [THEN holds_last] stable_rules) (simp_all add: abc_pre_def jump_op_def)
  qed
qed (simp add: holds_ret)

lemma good_table:
  assumes "\<And>n key v mv. (n, key, v, mv) \<in> set fds \<Longrightarrow> good mv \<and> (\<forall>mk. key = Some mk \<longrightarrow> good mk)"
  shows "good (table_expr fds)"
  unfolding table_expr_def split_def
  by (intro low_rules neutral_table_fields [OF assms, THEN holds_bind] stable_rules) (simp_all add: abc_pre_def jump_op_def)

section \<open>Blocks\<close>

lemma holds_get_fact:
  assumes "\<And>fs. fwf fs \<Longrightarrow> Q (g fs) fs" "stable P" "\<And>x. holds (\<lambda>fs. P fs \<and> Q x fs) (f x) R"
  shows "holds P (l_bind (l_get g) f) R"
proof -
  have "holds (\<lambda>_. True) (l_get g) Q" using assms(1) by (auto simp: holds_def l_get_def wfs_def)
  then show ?thesis using assms(2,3) by (intro holds_bind) auto
qed

lemma holds_all: "(\<And>x. x \<in> set xs \<Longrightarrow> holds P (f x) (\<lambda>_ _. True)) \<Longrightarrow> stable P \<Longrightarrow> holds P (l_all (map f xs)) (\<lambda>_ _. True)"
proof (induction xs)
  case (Cons x xs)
  then have one: "holds P (f x) (\<lambda>_ _. True)" and more: "holds P (l_all (map f xs)) (\<lambda>_ _. True)" by simp_all
  show ?case using Cons.prems(2) by (simp, intro one [THEN holds_then] more [THEN holds_last]) simp_all
qed (simp add: holds_ret)

lemma fwf_close_locals [simp]: "fwf (close_locals n fs) = fwf fs" "grows a (close_locals n fs) = grows a fs"
  by (simp_all add: close_locals_def upd_proto_def fwf_def grows_def jmp_at_def goto_at_def pc_le_def)

lemma neutral_flush: "neutral (flush_locvars_to n)"
  unfolding flush_locvars_to_def by (rule neutral_upd) (simp add: Let_def)

lemma neutral_leave_block: "neutral (leave_block n clear_dead)"
  unfolding leave_block_def Let_def by (intro low_rules stable_rules) (simp_all add: abc_pre_def jump_op_def)

lemma holds_patch_goto: "holds (\<lambda>fs. goto_at (gt_jmp_pc g) fs \<and> pc_le (li_pc info) fs) (patch_goto g info) (\<lambda>_ _. True)"
  unfolding patch_goto_def set_jump_def
proof (rule holds_upd)
  fix fs assume "fwf fs" and p: "goto_at (gt_jmp_pc g) fs \<and> pc_le (li_pc info) fs"
  let ?i = "encode_asbx OP_JMP (word_of_int (goto_close_a (gt_nactvar g) (li_nactvar info))) (li_pc info - (gt_jmp_pc g + 1))"
  have "jump_ok (length (fs_code fs)) (nat (gt_jmp_pc g)) ?i"
    using p by (auto simp: jump_ok_def encode_asbx_def encode_abx_fields pc_le_def goto_at_def intro: exI [of _ "li_pc info"])
  then show "fwf (set_code (gt_jmp_pc g) ?i fs) \<and> grows fs (set_code (gt_jmp_pc g) ?i fs) \<and> True"
    using wf_set_code [OF \<open>fwf fs\<close>, of "gt_jmp_pc g" ?i] p by (simp add: goto_at_def ins_ok_def skips_def jump_op_def)
qed

lemma holds_get_gotos:
  "stable P \<Longrightarrow> (\<And>gs. holds (\<lambda>fs. P fs \<and> (\<forall>g \<in> set gs. goto_at (gt_jmp_pc g) fs)) (f gs) R) \<Longrightarrow> holds P (l_bind (l_get fs_pending_gotos) f) R"
  by (rule holds_get_fact [where Q = "\<lambda>gs fs. \<forall>g \<in> set gs. goto_at (gt_jmp_pc g) fs"]) (auto simp: fwf_def)

lemma holds_get_label:
  "stable P \<Longrightarrow> (\<And>i. holds (\<lambda>fs. P fs \<and> (\<forall>info. i = Some info \<longrightarrow> pc_le (li_pc info) fs)) (f i) R) \<Longrightarrow>
    holds P (l_bind (l_get (\<lambda>fs. fs_labels fs n)) f) R"
  by (rule holds_get_fact [where Q = "\<lambda>i fs. \<forall>info. i = Some info \<longrightarrow> pc_le (li_pc info) fs"]) (auto simp: fwf_def)

lemma neutral_resolve_gotos: "neutral resolve_gotos"
  unfolding resolve_gotos_def
proof (intro holds_get_gotos stable_rules holds_all holds_get_label)
  fix gs :: "low_goto list" and g i assume g: "g \<in> set gs"
  show "holds (\<lambda>fs. (True \<and> (\<forall>g \<in> set gs. goto_at (gt_jmp_pc g) fs)) \<and> (\<forall>info. i = Some info \<longrightarrow> pc_le (li_pc info) fs))
      (case i of None \<Rightarrow> l_panic (''no visible label for goto: '' @ gt_name g) | Some j \<Rightarrow> patch_goto g j) (\<lambda>_ _. True)"
    using g by (cases i) (auto intro!: holds_panic holds_patch_goto [THEN holds_last] stable_rules)
qed

text \<open>The labels a block hides are in the code.\<close>

definition bl_ok :: "block_labels \<Rightarrow> func_state \<Rightarrow> bool" where
  "bl_ok bl fs \<longleftrightarrow> (\<forall>n info. snd bl n = Some info \<longrightarrow> pc_le (li_pc info) fs)"

lemma stable_bl_ok [stable_rules]: "stable (bl_ok bl)"
  unfolding bl_ok_def by (intro stable_rules)

lemma holds_block_label: "holds (bl_ok bl) (block_label name is_last bl) (\<lambda>bl' fs. bl_ok bl' fs)"
proof (rule holdsI)
  fix s bl' s' assume s: "wfs s" "bl_ok bl (lw_fs s)" and r: "block_label name is_last bl s = Inr (bl', s')"
  let ?fs = "lw_fs s"
  obtain nv where s': "s' = s\<lparr>lw_fs := ?fs\<lparr>fs_labels := (fs_labels ?fs)(name \<mapsto> \<lparr>li_pc = pc_of ?fs, li_nactvar = nv\<rparr>)\<rparr>\<rparr>"
      and bl': "snd bl' = (case fs_labels ?fs name of Some i \<Rightarrow> (snd bl)(name \<mapsto> i) | None \<Rightarrow> snd bl)"
    using r by (auto simp: block_label_def l_panic_def l_bind_def l_then_def l_get_def l_upd_def l_ret_def Let_def split: if_splits)
  have "fwf (lw_fs s')" using s(1) by (auto simp: s' wfs_def fwf_def jmp_at_def goto_at_def pc_le_def pc_of_def)
  moreover have "bl_ok bl' (lw_fs s')"
    using s by (auto simp: bl_ok_def bl' s' wfs_def fwf_def pc_le_def split: option.splits if_splits)
  ultimately show "wfs s' \<and> sgrows s s' \<and> bl_ok bl' (lw_fs s')" using s(1) by (simp add: wfs_def sgrows_def s' list.rel_refl)
qed

lemma neutral_jump_later: "neutral (jump_later label)"
  unfolding jump_later_def
proof (intro holds_jump0 [THEN holds_bind] stable_rules holds_upd)
  fix j fs assume "fwf fs" "True \<and> jmp_at j fs \<and> goto_at j fs"
  then show "fwf (fs\<lparr>fs_pending_gotos := fs_pending_gotos fs @ [\<lparr>gt_name = label, gt_jmp_pc = j, gt_nactvar = fs_nactvar fs\<rparr>]\<rparr>) \<and>
      grows fs (fs\<lparr>fs_pending_gotos := fs_pending_gotos fs @ [\<lparr>gt_name = label, gt_jmp_pc = j, gt_nactvar = fs_nactvar fs\<rparr>]\<rparr>) \<and> True"
    by (auto simp: fwf_def jmp_at_def goto_at_def pc_le_def)
qed simp

lemma neutral_goto_known: "neutral (goto_known label)"
proof -
  have "holds (\<lambda>fs. True \<and> (\<forall>info. i = Some info \<longrightarrow> pc_le (li_pc info) fs))
      (case i of Some info \<Rightarrow> jump_back info | None \<Rightarrow> jump_later label) (\<lambda>_ _. True)" for i
    by (cases i) (auto intro!: neutral_jump_later holds_jump_back)
  then show ?thesis unfolding goto_known_def by (intro holds_get_label stable_rules)
qed

lemma neutral_block_goto: "neutral (block_goto label names_here bl)"
  unfolding block_goto_def by (intro holds_if neutral_jump_later neutral_goto_known)

lemma holds_block_stmts:
  "(\<And>st m. (st, m) \<in> set sts \<Longrightarrow> neutral m) \<Longrightarrow> holds (bl_ok bl) (block_stmts names_here allow sts bl) (\<lambda>bl' fs. bl_ok bl' fs)"
proof (induction sts arbitrary: bl)
  case (Cons x sts)
  obtain st m where x: "x = (st, m)" by (cases x)
  have m: "neutral m" using Cons.prems [of st m] x by simp
  have IH: "holds (bl_ok bl) (block_stmts names_here allow sts bl) (\<lambda>bl' fs. bl_ok bl' fs)" for bl
    using Cons.prems by (intro Cons.IH) auto
  have other: "holds (bl_ok bl) (l_then m' (block_stmts names_here allow sts bl)) (\<lambda>bl' fs. bl_ok bl' fs)" if "neutral m'" for m'
    by (intro that [THEN holds_then] IH [THEN holds_last] stable_rules) simp_all
  have label: "holds (bl_ok bl) (l_bind (block_label name l bl) (block_stmts names_here allow sts)) (\<lambda>bl' fs. bl_ok bl' fs)" for name l
    by (intro holds_block_label [THEN holds_bind] IH [THEN holds_last] stable_rules) simp_all
  show ?case unfolding x using other [OF m] other [OF neutral_block_goto] label by (cases st) simp_all
qed (simp add: holds_ret)

lemma holds_patch_block_gotos: "neutral (patch_block_gotos since names)"
  unfolding patch_block_gotos_def Let_def
proof (intro holds_get_gotos stable_rules holds_all [THEN holds_then] holds_get_label)
  fix gs :: "low_goto list" and g i assume "g \<in> set (filter (\<lambda>g. gt_name g \<in> set names) (drop since gs))"
  then have g: "g \<in> set gs" by (auto dest: in_set_dropD)
  show "holds (\<lambda>fs. (True \<and> (\<forall>g \<in> set gs. goto_at (gt_jmp_pc g) fs)) \<and> (\<forall>info. i = Some info \<longrightarrow> pc_le (li_pc info) fs))
      (case i of Some info \<Rightarrow> patch_goto g info | None \<Rightarrow> l_ret ()) (\<lambda>_ _. True)"
    using g by (cases i) (auto intro!: holds_ret holds_patch_goto [THEN holds_last] stable_rules)
next
  fix gs :: "low_goto list" and x :: unit
  let ?gs = "take since gs @ filter (\<lambda>g. gt_name g \<notin> set names) (drop since gs)"
  show "holds (\<lambda>fs. (True \<and> (\<forall>g \<in> set gs. goto_at (gt_jmp_pc g) fs)) \<and> True) (l_upd (\<lambda>fs. fs\<lparr>fs_pending_gotos := ?gs\<rparr>)) (\<lambda>_ _. True)"
  proof (rule holds_upd)
    fix fs assume "fwf fs" "(True \<and> (\<forall>g \<in> set gs. goto_at (gt_jmp_pc g) fs)) \<and> True"
    moreover have "set ?gs \<subseteq> set gs" by (auto dest: in_set_takeD in_set_dropD)
    ultimately show "fwf (fs\<lparr>fs_pending_gotos := ?gs\<rparr>) \<and> grows fs (fs\<lparr>fs_pending_gotos := ?gs\<rparr>) \<and> True"
      by (auto simp: fwf_def jmp_at_def goto_at_def pc_le_def subset_iff)
  qed
qed (auto intro!: stable_rules)

lemma holds_drop_labels: "holds (bl_ok bl) (l_upd (drop_labels bl)) (\<lambda>_ _. True)"
  by (rule holds_upd) (auto simp: drop_labels_def bl_ok_def fwf_def jmp_at_def goto_at_def pc_le_def split: if_splits)

lemma neutral_block:
  assumes "\<And>st m. (st, m) \<in> set sts \<Longrightarrow> neutral m"
  shows "neutral (block_cmd allow close sts)"
  unfolding block_cmd_def
  by (intro holds_get neutral_upd [THEN holds_then] holds_block_stmts [OF assms, THEN holds_bind] holds_patch_block_gotos [THEN holds_then]
      holds_drop_labels [THEN holds_then] holds_when neutral_leave_block [THEN holds_last] stable_rules) (auto simp: bl_ok_def)

section \<open>Functions\<close>

lemma holds_seq: "holds P m Q \<Longrightarrow> (\<And>x. holds (Q x) n R) \<Longrightarrow> holds P (l_then m n) R"
proof (rule holdsI)
  assume 1: "holds P m Q" and 2: "\<And>x. holds (Q x) n R"
  fix s y s' assume s: "wfs s" "P (lw_fs s)" "l_then m n s = Inr (y, s')"
  then obtain x s1 where m: "m s = Inr (x, s1)" and n: "n s1 = Inr (y, s')" by (auto simp: l_then_def l_bind_def rbind_eq_Inr)
  from holdsD [OF 1 s(1,2) m] have "wfs s1" "sgrows s s1" "Q x (lw_fs s1)" by auto
  then show "wfs s' \<and> sgrows s s' \<and> R y (lw_fs s')" using holdsD [OF 2 _ _ n] sgrows_trans by blast
qed

lemma fin_append:
  assumes "fwf fs"
  shows "fin (fs_proto (append_code [encode_abc OP_RETURN a b c] [l] fs)) (length (fs_protos fs))"
proof -
  let ?n = "length (fs_code fs)" and ?is = "fs_code fs @ [encode_abc OP_RETURN a b c]"
  have "ins_in fs (?is ! pc) \<and> jump_ok ?n pc (?is ! pc) \<and> skip_ok ?n pc (?is ! pc)" if "pc < Suc ?n" for pc
  proof (cases "pc < ?n")
    case True
    then show ?thesis using assms by (simp add: fwf_def nth_append)
  next
    case False
    then have "pc = ?n" using that by simp
    then show ?thesis by (simp add: nth_append ins_ok_def jump_ok_def jump_op_def skip_ok_def skips_def)
  qed
  then show ?thesis using assms by (simp add: fin_def fwf_def)
qed

abbreviation finished :: "func_state \<Rightarrow> bool" where
  "finished fs \<equiv> fin (fs_proto fs) (length (fs_protos fs))"

lemma holds_return_done: "holds (\<lambda>_. True) (code_abc_at l OP_RETURN 0 1 0) (\<lambda>_. finished)"
proof (rule holdsI)
  fix s x s' assume s: "wfs s" and r: "code_abc_at l OP_RETURN 0 1 0 s = Inr (x, s')"
  have "wfs s' \<and> sgrows s s'" using holdsD [OF holds_abc s _ r] by (simp add: abc_pre_def jump_op_def)
  moreover have "finished (lw_fs s')" using r s fin_append by (auto simp: code_abc_at_def l_upd_def emit_append wfs_def)
  ultimately show "wfs s' \<and> sgrows s s' \<and> finished (lw_fs s')" by simp
qed

lemma holds_flush_done: "holds finished (flush_locvars_to n) (\<lambda>_. finished)"
  unfolding flush_locvars_to_def by (rule holds_upd) (auto simp: Let_def close_locals_def upd_proto_def fin_def fwf_def grows_def jmp_at_def goto_at_def pc_le_def)

lemma holds_finish_done:
  "holds finished (l_upd (\<lambda>fs. upd_proto (\<lambda>p. p\<lparr>p_lastlinedefined := g fs p, p_maxstack := h fs\<rparr>) fs)) (\<lambda>_. finished)"
  "holds finished (l_upd (\<lambda>fs. upd_proto (\<lambda>p. p\<lparr>p_maxstack := h fs\<rparr>) fs)) (\<lambda>_. finished)"
  by (rule holds_upd, auto simp: upd_proto_def fin_def fwf_def grows_def jmp_at_def goto_at_def pc_le_def)+

lemma neutral_params: "neutral (declare_params ps)"
  unfolding declare_params_def by (intro holds_all low_rules stable_rules) simp_all

lemma holds_function_inner:
  assumes "neutral body"
  shows "holds (\<lambda>_. True) (function_inner line params body lastline) (\<lambda>_. finished)"
proof -
  have ret: "holds (\<lambda>_. True) (l_bind (l_get fs_lastline) (\<lambda>l. code_abc_at l OP_RETURN 0 1 0)) (\<lambda>_. finished)"
    by (intro holds_get holds_return_done)
  show ?thesis unfolding function_inner_def
    by (intro holds_seq [OF neutral_params] holds_seq [OF assms] holds_seq [OF neutral_resolve_gotos] holds_seq [OF neutral_steps(8)] holds_seq [OF ret]
        holds_seq [OF holds_flush_done] holds_finish_done)
qed

lemma fwf_func0: "p_code p = [] \<Longrightarrow> p_lineinfo p = [] \<Longrightarrow> length (p_upvalues p) \<le> 255 \<Longrightarrow> fwf (func0 p v l)"
  by (simp add: fwf_def func0_def)

lemma fwf_child:
  assumes "fwf q" "fin_tree t"
  shows "fwf (q\<lparr>fs_protos := fs_protos q @ [t]\<rparr>) \<and> grows q (q\<lparr>fs_protos := fs_protos q @ [t]\<rparr>)"
  using assms by (auto simp: fwf_def grows_def jmp_at_def goto_at_def pc_le_def intro: ins_ok_mono)

lemma stable_has_child [stable_rules]: "stable (\<lambda>fs. fs_protos fs \<noteq> [])"
  by (auto simp: stable_def grows_def)

lemma holds_closure:
  "holds (\<lambda>fs. fs_protos fs \<noteq> []) (l_bind (l_get (\<lambda>fs. int (length (fs_protos fs)) - 1)) (code_abx OP_CLOSURE dest)) (\<lambda>_ _. True)"
proof (rule holdsI)
  fix s x s' assume s: "wfs s" "fs_protos (lw_fs s) \<noteq> []"
    and r: "l_bind (l_get (\<lambda>fs. int (length (fs_protos fs)) - 1)) (code_abx OP_CLOSURE dest) s = Inr (x, s')"
  have "code_abx_at (- 1) OP_CLOSURE dest (int (length (fs_protos (lw_fs s))) - 1) s = Inr (x, s')"
    using r by (simp add: l_bind_def l_get_def code_abx_def)
  from holdsD [OF holds_abx(2) s(1) _ this] s(2) show "wfs s' \<and> sgrows s s' \<and> True" by (cases "fs_protos (lw_fs s)") auto
qed

lemma good_function:
  assumes "neutral body"
  shows "good (function_expr line params va body lastline)"
proof (rule holdsI)
  let ?tail = "l_bind new_reg (\<lambda>dest. l_then (line_mark lastline)
    (l_then (l_bind (l_get (\<lambda>fs. int (length (fs_protos fs)) - 1)) (code_abx OP_CLOSURE dest)) (l_ret (exp_in dest))))"
  fix s e s' assume s: "wfs s" and r: "function_expr line params va body lastline s = Inr (e, s')"
  obtain x1 s1 x2 s2 x3 s3 where 1: "enter_function line params va s = Inr (x1, s1)"
      and 2: "function_inner line params body lastline s1 = Inr (x2, s2)" and 3: "leave_function s2 = Inr (x3, s3)" and 4: "?tail s3 = Inr (e, s')"
    using r unfolding function_expr_def l_then_def l_bind_def [of "enter_function line params va"] l_bind_def [of "function_inner line params body lastline"]
      l_bind_def [of leave_function] by (auto simp: rbind_eq_Inr)
  have s1: "lw_prev s1 = lw_fs s # lw_prev s" "wfs s1"
    using 1 s by (auto simp: enter_function_def Let_def wfs_def proto0_def intro!: fwf_func0)
  have d: "wfs s2" "sgrows s1 s2" "finished (lw_fs s2)" using holdsD [OF holds_function_inner [OF assms] s1(2) _ 2] by auto
  then obtain q qs where q: "lw_prev s2 = q # qs" "grows (lw_fs s) q" "list_all2 grows (lw_prev s) qs" "fwf q" "list_all fwf qs"
    using s1(1) by (auto simp: sgrows_def wfs_def list_all2_Cons1)
  let ?t = "PTree (fs_proto (lw_fs s2)) (fs_protos (lw_fs s2))"
  have s3: "s3 = s2\<lparr>lw_fs := q\<lparr>fs_protos := fs_protos q @ [?t]\<rparr>, lw_prev := qs\<rparr>" using 3 q(1) by (simp add: leave_function_def)
  have "fin_tree ?t" using d(1,3) by (simp add: wfs_def fwf_def)
  from fwf_child [OF q(4) this] have wf3: "wfs s3" and "sgrows s s3"
    using q grows_trans [OF q(2)] by (auto simp: s3 wfs_def sgrows_def)
  have t: "holds (\<lambda>fs. fs_protos fs \<noteq> []) ?tail (\<lambda>e fs. exp_ok e fs)"
    by (intro neutral_new_reg [THEN holds_bind] neutral_steps [THEN holds_then] holds_closure [THEN holds_then] holds_ret stable_rules) simp_all
  have "fs_protos (lw_fs s3) \<noteq> []" by (simp add: s3)
  from holdsD [OF t wf3 this 4] show "wfs s' \<and> sgrows s s' \<and> exp_ok e (lw_fs s')"
    using sgrows_trans [OF \<open>sgrows s s3\<close>] by simp
qed

end
