(* ===== verification/Lt_LowerSafe.thy ===== *)
theory Lt_LowerSafe
  imports Lt_LowerProps
begin

text \<open>
  The statements keep the invariant of \<open>Lt_LowerProps\<close>, and so does the recursion on the tree: what
  \<open>lower_chunk\<close> returns is well-formed code for every program.
\<close>

section \<open>Statements\<close>

lemma neutral_move_results: "neutral (move_results dest ca need)"
  unfolding move_results_def by (intro holds_all holds_move_to stable_rules)

lemma neutral_last_call_values:
  assumes "good m"
  shows "neutral (last_call_values dest need m)"
  unfolding last_call_values_def
  by (intro low_rules assms [THEN holds_then] neutral_move_results [THEN holds_last] stable_rules) simp_all

lemma neutral_value_list: "(\<And>v m. (v, m) \<in> set vs \<Longrightarrow> good m) \<Longrightarrow> neutral (value_list base n i vs)"
proof (induction vs arbitrary: i)
  case (Cons x vs)
  obtain v m where x: "x = (v, m)" by (cases x)
  have m: "good m" using Cons.prems x by auto
  have rest: "neutral (value_list base n (i + 1) vs)" using Cons.prems by (intro Cons.IH) auto
  show ?case unfolding x value_list.simps Let_def
    by (intro low_rules neutral_last_call_values [OF m, THEN holds_then] m rest [THEN holds_last] stable_rules) (simp_all add: abc_pre_def jump_op_def)
qed (simp add: holds_ret)

lemma neutral_nil_fill: "neutral (nil_fill base filled n)"
  unfolding nil_fill_def by (intro holds_all low_rules stable_rules) (simp_all add: abc_pre_def jump_op_def)

lemma neutral_local_stmt:
  assumes "\<And>v m. (v, m) \<in> set vs \<Longrightarrow> good m"
  shows "neutral (local_stmt ns vs)"
  unfolding local_stmt_def Let_def
  by (intro low_rules neutral_value_list [OF assms, THEN holds_bind] neutral_nil_fill [THEN holds_then] holds_all [THEN holds_then] stable_rules) simp_all

lemma good_snapshot: "holds (exp_ok e) (snapshot e) (\<lambda>e' fs. exp_ok e' fs)"
  unfolding snapshot_def by (intro low_rules stable_rules) (simp_all add: abc_pre_def jump_op_def exp_ok_def)

lemma holds_assign_vars:
  "(\<And>m. m \<in> set ms \<Longrightarrow> good m) \<Longrightarrow> holds (\<lambda>_. True) (assign_vars ms) (\<lambda>es fs. \<forall>e \<in> set es. exp_ok e fs)"
proof (induction ms)
  case (Cons m ms)
  have m: "good m" and rest: "holds (\<lambda>_. True) (assign_vars ms) (\<lambda>es fs. \<forall>e \<in> set es. exp_ok e fs)" using Cons by simp_all
  show ?case unfolding assign_vars.simps
    by (intro holds_assoc m [THEN holds_bind] good_snapshot [THEN holds_bind] rest [THEN holds_bind] holds_ret stable_rules) simp_all
qed (simp add: holds_ret)

lemma holds_storevar: "holds (exp_ok e) (storevar e r) (\<lambda>_ _. True)"
proof (cases "ed_kind e")
  case KIndexed
  then show ?thesis using holds_set_index by (simp add: storevar_def)
next
  case KGlobal
  show ?thesis unfolding storevar_def KGlobal exp_kind.case
    by (intro low_rules stable_rules) (simp_all add: abc_pre_def jump_op_def exp_ok_def KGlobal)
qed (unfold storevar_def, simp_all, (intro low_rules stable_rules; simp add: abc_pre_def jump_op_def exp_ok_def)+)

lemma holds_store_all:
  "holds (\<lambda>fs. \<forall>e \<in> set es. exp_ok e fs) (l_all (map (\<lambda>i. storevar (es ! i) (base + int i)) [0..<length es])) (\<lambda>_ _. True)"
  by (intro holds_all holds_storevar [THEN holds_last] stable_rules) simp_all

lemma neutral_assign_stmt:
  assumes "\<And>m. m \<in> set ms \<Longrightarrow> good m" "\<And>v m. (v, m) \<in> set vs \<Longrightarrow> good m"
  shows "neutral (assign_stmt ms vs)"
  unfolding assign_stmt_def Let_def
  by (intro low_rules holds_assign_vars [OF assms(1), THEN holds_bind] neutral_value_list [OF assms(2), THEN holds_bind]
      neutral_nil_fill [THEN holds_then] holds_store_all [THEN holds_then] stable_rules) simp_all

lemma neutral_call_stmt:
  assumes "good m"
  shows "neutral (call_stmt m)"
  unfolding call_stmt_def by (intro assms [THEN holds_bind] low_rules stable_rules) simp_all

text \<open>Replacing the call at the end of the code.\<close>

definition recode :: "instruction list \<Rightarrow> int list \<Rightarrow> func_state \<Rightarrow> func_state" where
  "recode is ls = upd_proto (\<lambda>p. p\<lparr>p_code := is, p_lineinfo := ls\<rparr>)"

lemma fwf_recode:
  assumes f: "fwf fs" and c: "fs_code fs = xs @ [c]" "opcode_at c = Some OP_CALL" and nonempty: "is \<noteq> []" "length ls = length xs + length is"
    and new: "\<And>j. j < length is \<Longrightarrow> ins_in fs (is ! j) \<and> jump_ok (length xs + length is) (length xs + j) (is ! j) \<and> \<not> skips (is ! j)"
  shows "fwf (recode (xs @ is) ls fs) \<and> grows fs (recode (xs @ is) ls fs)"
proof -
  let ?fs = "recode (xs @ is) ls fs" and ?n = "length xs + length is"
  have le: "Suc (length xs) \<le> ?n" using nonempty(1) by (cases "is") simp_all
  have fields: "fs_code ?fs = xs @ is" "p_lineinfo (fs_proto ?fs) = ls" "p_constants (fs_proto ?fs) = p_constants (fs_proto fs)"
    "p_upvalues (fs_proto ?fs) = p_upvalues (fs_proto fs)" "fs_protos ?fs = fs_protos fs" "fs_break_list ?fs = fs_break_list fs"
    "fs_pending_gotos ?fs = fs_pending_gotos fs" "fs_labels ?fs = fs_labels fs" by (simp_all add: recode_def upd_proto_def)
  have old: "ins_in fs (xs ! pc) \<and> jump_ok (Suc (length xs)) pc (xs ! pc) \<and> skip_ok (Suc (length xs)) pc (xs ! pc)" if "pc < length xs" for pc
  proof -
    have "pc < length (fs_code fs)" "fs_code fs ! pc = xs ! pc" using that c(1) by (simp_all add: nth_append)
    then have "ins_in fs (xs ! pc) \<and> jump_ok (length (fs_code fs)) pc (xs ! pc) \<and> skip_ok (length (fs_code fs)) pc (xs ! pc)"
      using f unfolding fwf_def by metis
    then show ?thesis by (simp add: c(1))
  qed
  have all: "ins_in fs ((xs @ is) ! pc) \<and> jump_ok ?n pc ((xs @ is) ! pc) \<and> skip_ok ?n pc ((xs @ is) ! pc)" if "pc < ?n" for pc
  proof (cases "pc < length xs")
    case True
    then show ?thesis using old [OF True] jump_ok_mono [OF _ le] skip_ok_mono [OF _ le] by (simp add: nth_append)
  next
    case False
    then show ?thesis using new [of "pc - length xs"] that by (simp add: nth_append skip_ok_def)
  qed
  have g: "grows fs ?fs" using le c by (auto simp: grows_def fields nth_append jump_op_def less_Suc_eq)
  have "jmp_at j ?fs" if "jmp_at j fs" for j using jmp_at_grows [OF that g] .
  moreover have "goto_at j ?fs" if "goto_at j fs" for j using goto_at_grows [OF that g] .
  moreover have "pc_le d ?fs" if "pc_le d fs" for d using pc_le_grows [OF that g] .
  ultimately have "fwf ?fs" using f nonempty(2) all by (auto simp: fwf_def fields)
  then show ?thesis using g by simp
qed

lemma opcode_at_eq: "opcode_at i = Some op \<longleftrightarrow> op_get i = opcode_num op"
proof
  assume "opcode_at i = Some op"
  then have "opcode_num op = op_get i"
    using opcode_of_num [of op] opcodes_props(1)
    by (auto simp: opcode_at_def opcode_of_def nth_eq_iff_index_eq word_unat_eq_iff split: if_splits)
  then show "op_get i = opcode_num op" by simp
qed (simp add: opcode_at_def opcode_of_num)

lemma last_call_last: "ends_call fs \<Longrightarrow> last_call (fs_code fs) = Some (length (fs_code fs) - 1)"
proof -
  assume e: "ends_call fs"
  then obtain xs c where c: "fs_code fs = xs @ [c]" by (cases "fs_code fs" rule: rev_cases) (auto simp: ends_call_def)
  have "opcode_at c = Some OP_CALL" using e c by (simp add: ends_call_def)
  then have "op_get c = opcode_num OP_CALL" by (simp add: opcode_at_eq)
  then show ?thesis by (simp add: last_call_def c nth_append)
qed

lemma neutral_tail_return:
  assumes "good m" "ends m"
  shows "neutral (tail_return m)"
proof (rule holdsI)
  fix s x s' assume s: "wfs s" and r: "tail_return m s = Inr (x, s')"
  obtain u s0 e s1 where 1: "free_to_nactvar s = Inr (u, s0)" "m s0 = Inr (e, s1)"
    using r by (auto simp: tail_return_def l_then_def l_bind_def rbind_eq_Inr)
  have w: "wfs s1" "sgrows s s1"
    using holdsD [OF neutral_steps(2) s _ 1(1)] holdsD [OF assms(1) _ _ 1(2)] sgrows_trans by auto
  let ?fs = "lw_fs s1"
  have e: "ends_call ?fs" using assms(2) 1(2) by (auto simp: ends_def)
  then obtain xs c where c: "fs_code ?fs = xs @ [c]" "opcode_at c = Some OP_CALL"
    by (cases "fs_code ?fs" rule: rev_cases) (auto simp: ends_call_def)
  have lines: "length (p_lineinfo (fs_proto ?fs)) = Suc (length xs)" using w(1) c(1) by (simp add: wfs_def fwf_def)
  let ?t = "encode_abc OP_TAILCALL (op_a c) (op_b c) 0" and ?j = "encode_asbx OP_JMP (word_of_int (captured_close_level ?fs + 1)) 0"
  let ?is = "if 0 \<le> captured_close_level ?fs then [?j, ?t] else [?t]"
  let ?ls = "if 0 \<le> captured_close_level ?fs
    then take (length xs) (p_lineinfo (fs_proto ?fs)) @ p_lineinfo (fs_proto ?fs) ! length xs # drop (length xs) (p_lineinfo (fs_proto ?fs))
    else p_lineinfo (fs_proto ?fs)"
  have s': "s' = s1\<lparr>lw_fs := recode (xs @ ?is) ?ls ?fs\<rparr>"
    using r 1 last_call_last [OF e] c(1)
    by (auto simp: tail_return_def l_then_def l_bind_def l_get_def l_when_def l_upd_def l_ret_def Let_def insert_code_def set_code_def
        recode_def upd_proto_def nat_add_distrib list_update_append split: if_splits)
  have "fwf (recode (xs @ ?is) ?ls ?fs) \<and> grows ?fs (recode (xs @ ?is) ?ls ?fs)"
  proof (rule fwf_recode [OF _ c])
    fix k assume "k < length ?is"
    then show "ins_in ?fs (?is ! k) \<and> jump_ok (length xs + length ?is) (length xs + k) (?is ! k) \<and> \<not> skips (?is ! k)"
      by (auto simp: less_Suc_eq ins_ok_def skips_def jump_ok_def jump_op_def encode_asbx_def encode_abx_fields
          intro: exI [of _ "int (length xs) + 1"] split: if_splits)
  qed (use w(1) lines in \<open>auto simp: wfs_def\<close>)
  then show "wfs s' \<and> sgrows s s' \<and> True"
    using w sgrows_trans [OF w(2), of s'] by (simp add: s' wfs_def sgrows_def list.rel_refl)
qed

lemma neutral_return_values: "(\<And>v m. (v, m) \<in> set vs \<Longrightarrow> good m) \<Longrightarrow> neutral (return_values base i vs)"
proof (induction vs arbitrary: i)
  case (Cons x vs)
  obtain v m where x: "x = (v, m)" by (cases x)
  have m: "good m" using Cons.prems x by auto
  have rest: "neutral (return_values base (i + 1) vs)" using Cons.prems by (intro Cons.IH) auto
  show ?case unfolding x return_values.simps Let_def
    by (intro low_rules m m [THEN holds_then] rest [THEN holds_last] stable_rules) (simp_all add: abc_pre_def jump_op_def)
qed (simp add: holds_ret)

lemma neutral_return_stmt:
  assumes "\<And>v m. (v, m) \<in> set vs \<Longrightarrow> good m \<and> (is_call_expr v \<longrightarrow> ends m)"
  shows "neutral (return_stmt vs)"
proof (cases vs)
  case Nil
  show ?thesis unfolding return_stmt_def Nil list.case by (intro low_rules stable_rules) (simp_all add: abc_pre_def jump_op_def)
next
  case (Cons x ws)
  obtain v m where x: "x = (v, m)" by (cases x)
  have vals: "neutral (return_values base 0 vs)" for base using assms by (intro neutral_return_values) blast
  have "good m" "is_call_expr v \<Longrightarrow> ends m" using assms [of v m] Cons x by auto
  then have tail: "neutral (tail_return m)" if "is_call_expr v" using that by (intro neutral_tail_return)
  show ?thesis unfolding return_stmt_def
    by (simp only: Cons x list.case prod.case, intro holds_if low_rules vals [unfolded Cons x, THEN holds_bind] stable_rules)
      (simp_all add: abc_pre_def jump_op_def tail)
qed

lemma holds_if_branches:
  "(\<And>c b l. (c, b, l) \<in> set brs \<Longrightarrow> good c \<and> neutral b) \<Longrightarrow>
    holds (\<lambda>_. True) (if_branches end_line brs) (\<lambda>js fs. \<forall>j \<in> set js. jmp_at j fs)"
proof (induction brs)
  case (Cons x brs)
  obtain c b l where x: "x = (c, b, l)" by (cases x)
  have cb: "good c" "neutral b" using Cons.prems [of c b l] x by auto
  have rest: "holds (\<lambda>_. True) (if_branches end_line brs) (\<lambda>js fs. \<forall>j \<in> set js. jmp_at j fs)"
    using Cons.prems by (intro Cons.IH) auto
  show ?case unfolding x if_branches.simps
    by (intro holds_test_jmp low_rules cb(1) cb(2) [THEN holds_then] rest [THEN holds_bind] stable_rules) simp_all
qed (simp add: holds_ret)

lemma holds_fix_all: "holds (\<lambda>fs. \<forall>j \<in> set js. jmp_at j fs) (l_all (map fix_here js)) (\<lambda>_ _. True)"
  by (intro holds_all holds_fix_here [THEN holds_last] stable_rules) simp_all

lemma neutral_if_stmt:
  assumes "\<And>c b l. (c, b, l) \<in> set brs \<Longrightarrow> good c \<and> neutral b" "\<And>b. els = Some b \<Longrightarrow> neutral b"
  shows "neutral (if_stmt brs els else_line end_line)"
proof -
  have "neutral (case els of Some body \<Rightarrow> l_then (line_mark else_line) body | None \<Rightarrow> l_ret ())"
  proof (cases els)
    case (Some b)
    show ?thesis unfolding Some option.case
      by (intro neutral_steps [THEN holds_then] assms(2) [OF Some, THEN holds_last] stable_rules) simp_all
  qed (simp add: holds_ret)
  then show ?thesis unfolding if_stmt_def
    by (intro holds_if_branches [OF assms(1), THEN holds_bind] holds_fix_all [THEN holds_then] neutral_steps [THEN holds_last] stable_rules)
      (auto intro!: stable_rules elim!: holds_then intro: holds_fix_all [THEN holds_then] neutral_steps [THEN holds_last])
qed
section \<open>Loops\<close>

lemma holds_get_breaks:
  "stable P \<Longrightarrow> (\<And>bs. holds (\<lambda>fs. P fs \<and> (\<forall>j \<in> set bs. jmp_at j fs)) (f bs) R) \<Longrightarrow> holds P (l_bind (l_get fs_break_list) f) R"
  by (rule holds_get_fact [where Q = "\<lambda>bs fs. \<forall>j \<in> set bs. jmp_at j fs"]) (auto simp: fwf_def)

lemma holds_set_breaks: "holds (\<lambda>fs. \<forall>j \<in> set bs. jmp_at j fs) (l_upd (\<lambda>fs. fs\<lparr>fs_break_list := bs\<rparr>)) (\<lambda>_ _. True)"
  by (rule holds_upd) (auto simp: fwf_def jmp_at_def goto_at_def pc_le_def)

lemma neutral_fix_breaks: "neutral (fix_breaks since)"
  unfolding fix_breaks_def Let_def
  by (intro holds_get_breaks holds_fix_all [THEN holds_then] holds_set_breaks [THEN holds_last] stable_rules)
    (auto dest: in_set_takeD in_set_dropD)

lemma neutral_break_stmt: "neutral break_stmt"
  unfolding break_stmt_def
proof (intro holds_get holds_jmp0 [THEN holds_bind] stable_rules holds_upd)
  fix j fs assume "fwf fs" "True \<and> jmp_at j fs \<and> goto_at j fs"
  then show "fwf (fs\<lparr>fs_break_list := j # fs_break_list fs\<rparr>) \<and> grows fs (fs\<lparr>fs_break_list := j # fs_break_list fs\<rparr>) \<and> True"
    by (auto simp: fwf_def jmp_at_def goto_at_def pc_le_def)
qed simp

lemma neutral_for_body: "neutral body \<Longrightarrow> neutral (for_body since level body)"
  unfolding for_body_def by (rule holds_then [OF neutral_steps(5)], simp, simp, rule holds_then, assumption, simp, simp,
    intro neutral_steps [THEN holds_then] neutral_leave_block [THEN holds_last] stable_rules) simp_all

lemmas loop_rules =
  holds_get_pc holds_test_jmp holds_jump_to [THEN holds_then] holds_jump_to [THEN holds_last] holds_fix_sbx [THEN holds_then] holds_fix_here [THEN holds_then]
  neutral_fix_breaks [THEN holds_then] neutral_fix_breaks [THEN holds_last] neutral_leave_block [THEN holds_then]

lemma neutral_while_stmt:
  assumes "good c" "neutral body"
  shows "neutral (while_stmt c body end_line)"
  unfolding while_stmt_def
  by (intro loop_rules low_rules assms(1) assms(2) [THEN holds_then] stable_rules) (simp_all add: abc_pre_def jump_op_def)

lemma neutral_repeat_stmt:
  assumes "good c" "neutral body"
  shows "neutral (repeat_stmt body c)"
  unfolding repeat_stmt_def
  by (intro loop_rules low_rules assms(1) assms(2) [THEN holds_then] stable_rules) (simp_all add: abc_pre_def jump_op_def)
text \<open>The jump at the end of a numeric loop counts from its own position.\<close>

lemma holds_for_loop:
  assumes "\<And>fs. P fs \<Longrightarrow> pc_le d fs" "stable P" "\<And>pc. holds (\<lambda>fs. P fs \<and> pc_le pc fs) (n pc) R"
  shows "holds P (l_bind (l_get pc_of) (\<lambda>pc. l_then (code_asbx OP_FORLOOP a (d - (pc + 1))) (n pc))) R"
proof (rule holdsI)
  fix s x s' assume s: "wfs s" "P (lw_fs s)"
    and r: "l_bind (l_get pc_of) (\<lambda>pc. l_then (code_asbx OP_FORLOOP a (d - (pc + 1))) (n pc)) s = Inr (x, s')"
  let ?pc = "pc_of (lw_fs s)"
  obtain j s1 where 1: "code_asbx OP_FORLOOP a (d - (?pc + 1)) s = Inr (j, s1)" and 2: "n ?pc s1 = Inr (x, s')"
    using r by (auto simp: l_bind_def l_then_def l_get_def rbind_eq_Inr)
  have w: "wfs s1" "sgrows s s1" using holdsD [OF holds_jump s(1) _ 1] assms(1) [OF s(2)] by (simp_all add: jump_op_def)
  have g: "grows (lw_fs s) (lw_fs s1)" using w(2) by (simp add: sgrows_def)
  have "pc_le ?pc (lw_fs s1)" using g by (simp add: pc_le_def pc_of_def grows_def)
  then show "wfs s' \<and> sgrows s s' \<and> R x (lw_fs s')"
    using holdsD [OF assms(3) w(1) _ 2] grows_stable [OF assms(2) s(2) g] sgrows_trans [OF w(2)] by blast
qed

lemma neutral_for_num_stmt:
  assumes "good m1" "good m2" "\<And>m. m3 = Some m \<Longrightarrow> good m" "neutral body"
  shows "neutral (for_num_stmt line name m1 m2 m3 body end_line)"
proof -
  have step: "neutral (case m3 of Some m \<Rightarrow> into_reg r m | None \<Rightarrow> l_then (code_asbx OP_LOADINT r 1) (l_ret ()))" for r
  proof (cases m3)
    case (Some m)
    then show ?thesis using holds_into_reg [OF assms(3)] by simp
  next
    case None
    show ?thesis unfolding None option.case by (intro low_rules stable_rules) simp_all
  qed
  show ?thesis unfolding for_num_stmt_def
    by (intro holds_for_loop loop_rules low_rules assms(1,2) step [THEN holds_then] neutral_for_body [OF assms(4), THEN holds_then] stable_rules)
      simp_all
qed

lemma neutral_local_function_stmt:
  assumes "good m"
  shows "neutral (local_function_stmt name m)"
  unfolding local_function_stmt_def by (intro low_rules assms stable_rules) simp_all

lemma neutral_path_table: "neutral (path_table fline r ns)"
proof (induction ns arbitrary: r)
  case (Cons n ns)
  show ?case unfolding path_table.simps
    by (intro low_rules Cons.IH [THEN holds_last] stable_rules) (simp_all add: abc_pre_def jump_op_def)
qed (simp add: holds_ret)

lemma neutral_function_stmt:
  assumes "good m"
  shows "neutral (function_stmt line path m)"
  unfolding function_stmt_def
  by (intro low_rules assms holds_search_var neutral_path_table [THEN holds_bind] holds_storevar [THEN holds_then] stable_rules)
    (simp_all add: abc_pre_def jump_op_def)

lemma neutral_iter_list: "(\<And>m. m \<in> set ms \<Longrightarrow> good m) \<Longrightarrow> neutral (iter_list base i filled ms)"
proof (induction ms arbitrary: i filled)
  case (Cons m ms)
  have m: "good m" and rest: "neutral (iter_list base i' filled' ms)" for i' filled' using Cons by simp_all
  show ?case unfolding iter_list.simps Let_def
    by (intro low_rules m [THEN holds_bind] neutral_move_results [THEN holds_then] rest [THEN holds_last] stable_rules) simp_all
qed (simp add: holds_ret)

lemma neutral_for_in_stmt:
  assumes "\<And>v m. (v, m) \<in> set iters \<Longrightarrow> good m" "neutral body"
  shows "neutral (for_in_stmt line names iters body end_line)"
proof -
  have iters: "neutral (iter_list base 0 0 (map snd iters))" for base using assms(1) by (intro neutral_iter_list) force
  show ?thesis unfolding for_in_stmt_def Let_def
    by (intro loop_rules low_rules iters [THEN holds_bind] neutral_nil_fill [THEN holds_then] holds_all [THEN holds_then]
        neutral_for_body [OF assms(2), THEN holds_then] stable_rules) (simp_all add: abc_pre_def jump_op_def)
qed
section \<open>The recursion\<close>

lemma good_line: "good m \<Longrightarrow> good (l_then (line_mark l) m)"
  by (intro neutral_steps(8) [THEN holds_seq])

lemma neutral_line: "neutral m \<Longrightarrow> neutral (l_then (set_lastline l) m)"
  by (intro neutral_steps(4) [THEN holds_seq])

lemma good_ret_const: "good (l_ret (expr_const v))"
  by (simp add: holds_ret)

lemma good_string: "good (l_bind (l_intern str) (\<lambda>v. l_ret (expr_const v)))"
  by (intro low_rules stable_rules) simp_all

lemma good_logic:
  assumes "\<And>e. e \<in> {a, b} \<Longrightarrow> \<not> (op = And \<and> rel_parts a \<noteq> None \<and> rel_parts b \<noteq> None) \<Longrightarrow> good (g e)"
    and "\<And>op1 a1 b1 op2 a2 b2 e. op = And \<Longrightarrow> rel_parts a = Some (op1, a1, b1) \<Longrightarrow> rel_parts b = Some (op2, a2, b2) \<Longrightarrow>
      e \<in> {a1, b1, a2, b2} \<Longrightarrow> good (g e)"
  shows "good (case rel_parts a of
      Some (op1, a1, b1) \<Rightarrow>
        (case rel_parts b of
           Some (op2, a2, b2) \<Rightarrow>
             if op = And then and_rel_expr op1 (g a1) (g b1) op2 (g a2) (g b2) else and_or_expr False (g a) (g b)
         | None \<Rightarrow> and_or_expr (op = And) (g a) (g b))
    | None \<Rightarrow> and_or_expr (op = And) (g a) (g b))"
proof -
  have plain: "good (and_or_expr c (g a) (g b))" if "\<not> (op = And \<and> rel_parts a \<noteq> None \<and> rel_parts b \<noteq> None)" for c
    using assms(1) [of a] assms(1) [of b] that by (intro good_and_or) auto
  have "good (and_rel_expr op1 (g a1) (g b1) op2 (g a2) (g b2))"
    if "op = And" "rel_parts a = Some (op1, a1, b1)" "rel_parts b = Some (op2, a2, b2)" for op1 a1 b1 op2 a2 b2
    using assms(2) [OF that] by (intro good_and_rel) auto
  then show ?thesis using plain by (auto split: option.split)
qed

lemma lower_wf:
  "good (lower_expr e) \<and> (is_call_expr e \<longrightarrow> ends (lower_expr e))"
  "good (lower_func f)"
  "neutral (lower_stmt st)"
  "neutral (lower_block b al cl)"
proof (induction e and f and st and b al cl rule: lower_expr_lower_func_lower_stmt_lower_block.induct)
  case (10 l op a b)
  consider (logic) "op = And \<or> op = Or" | (concat) "op = Concat" | (rel) "\<not> (op = And \<or> op = Or)" "op \<noteq> Concat" "is_rel op"
    | (arith) "\<not> (op = And \<or> op = Or)" "op \<noteq> Concat" "\<not> is_rel op" by blast
  then show ?case
  proof cases
    case logic
    have "good (lower_expr e)" if "e \<in> {a, b}" "\<not> (op = And \<and> rel_parts a \<noteq> None \<and> rel_parts b \<noteq> None)" for e
      using that 10(1,2) [OF logic] 10(3,4,9,10) [OF logic _ refl refl] by (cases "rel_parts a"; cases "rel_parts b") auto
    moreover have "good (lower_expr e)" if "op = And" "rel_parts a = Some (op1, a1, b1)" "rel_parts b = Some (op2, a2, b2)"
        "e \<in> {a1, b1, a2, b2}" for op1 a1 b1 op2 a2 b2 e
      using 10(5-8) [OF logic that(2) refl refl that(3) refl refl that(1)] that(4) by auto
    ultimately show ?thesis using logic good_line [OF good_logic [of a b op lower_expr]] by simp
  next
    case concat
    then show ?thesis using 10(11,12) by (simp add: good_line good_concat)
  next
    case rel
    then show ?thesis using 10(13,14) [OF rel] by (simp add: good_line good_rel)
  next
    case arith
    then show ?thesis using 10(15,16) [OF arith]
      by (cases "bin_arith_op op") (simp_all add: good_line good_arith l_panic_expr_def holds_panic)
  qed
next
  case (13 l c as is_method meth)
  have "good (call_expr l (lower_expr c) (map (\<lambda>a. (a, lower_expr a)) as) is_method meth)"
    using 13 by (intro good_call) auto
  then show ?case by (simp add: good_line ends_then ends_call_expr)
next
  case (14 l fds)
  have "good (table_expr (map (\<lambda>f. case f of Field k v n \<Rightarrow> (n, map_option lower_expr k, v, lower_expr v)) fds))"
    using 14(1) [OF _ refl refl] 14(2) [OF _ refl]
    by (intro good_table) (force simp: map_option_case split: field.splits option.splits)
  then show ?case by (simp add: good_line)
next
  case (20 l vs)
  have "neutral (return_stmt (map (\<lambda>v. (v, lower_expr v)) vs))" using 20 by (intro neutral_return_stmt) auto
  then show ?case by (simp add: neutral_line)
next
  case (21 l brs els else_line end_line)
  have "neutral (if_stmt (map (\<lambda>b. case b of Branch c body ln \<Rightarrow> (lower_expr c, lower_block body True True, ln)) brs)
      (map_option (\<lambda>b. lower_block b True True) els) else_line end_line)"
    using 21(1,2) [OF _ refl] 21(3) by (intro neutral_if_stmt) (auto split: branch.splits)
  then show ?case by (simp add: neutral_line)
next
  case (31 l ns iters body end_line)
  have "neutral (for_in_stmt l ns (map (\<lambda>e. (e, lower_expr e)) iters) (lower_block body True True) end_line)"
    using 31 by (intro neutral_for_in_stmt) auto
  then show ?case by (simp add: neutral_line)
qed (auto simp: holds_search_var intro!: good_line neutral_line good_ret_const good_string good_vararg good_paren good_un good_index good_field good_function
    neutral_local_stmt neutral_assign_stmt neutral_call_stmt neutral_while_stmt neutral_repeat_stmt neutral_break_stmt neutral_for_num_stmt
    neutral_local_function_stmt neutral_function_stmt neutral_goto_known neutral_steps neutral_block)
section \<open>Lowered chunks\<close>

lemma holds_lower_main: "holds (\<lambda>_. True) (lower_main body) (\<lambda>_. finished)"
  unfolding lower_main_def code_abc_def
  by (intro holds_seq [OF lower_wf(4)] holds_seq [OF neutral_resolve_gotos] holds_seq [OF holds_return_done] holds_seq [OF holds_flush_done] holds_finish_done)

lemma lower_chunk_fin:
  assumes "lower_chunk al body source_name HS = Inr (t, HS')"
  shows "fin_tree t"
proof -
  let ?s = "\<lparr>lw_fs = main_func source_name, lw_prev = [], lw_strs = HS, lw_alloc = al\<rparr>"
  obtain s' where r: "lower_main body ?s = Inr ((), s')" and t: "t = PTree (fs_proto (lw_fs s')) (fs_protos (lw_fs s'))"
    using assms by (auto simp: lower_chunk_def rbind_eq_Inr)
  have "wfs ?s" by (simp add: wfs_def main_func_def fwf_func0 proto0_def)
  from holdsD [OF holds_lower_main this _ r] have "wfs s'" "finished (lw_fs s')" by simp_all
  then show ?thesis by (simp add: t wfs_def fwf_def)
qed

text \<open>
  What the interpreter relies on when it runs a prototype: the next instruction exists on every path,
  and what an instruction names is there. The 16-bit fields hold the operands of a function of at most
  32768 instructions, 65536 constants and 65536 nested functions.
\<close>

definition next_pcs :: "nat \<Rightarrow> instruction \<Rightarrow> int list" where
  "next_pcs pc i =
     (if opcode_at i = Some OP_RETURN then []
      else [int pc + 1] @ (if skips i then [int pc + 2] else []) @
        (case opcode_at i of Some op \<Rightarrow> if jump_op op then [int pc + 1 + op_sbx i] else [] | None \<Rightarrow> []))"

definition operands_in :: "proto \<Rightarrow> nat \<Rightarrow> instruction \<Rightarrow> bool" where
  "operands_in p nprotos i \<longleftrightarrow>
     (case opcode_at i of
        None \<Rightarrow> False
      | Some op \<Rightarrow>
          (case op of
             OP_LOADK \<Rightarrow> unat (op_bx i) < length (p_constants p)
           | OP_LOADFLOAT \<Rightarrow> unat (op_bx i) < length (p_constants p)
           | OP_GETFIELD \<Rightarrow> unat (op_c i) < length (p_constants p)
           | OP_SETFIELD \<Rightarrow> unat (op_b i) < length (p_constants p)
           | OP_GETTABUP \<Rightarrow> unat (op_b i) < length (p_upvalues p) \<and> unat (op_c i) < length (p_constants p)
           | OP_SETTABUP \<Rightarrow> unat (op_a i) < length (p_upvalues p) \<and> unat (op_b i) < length (p_constants p)
           | OP_GETUPVAL \<Rightarrow> unat (op_b i) < length (p_upvalues p)
           | OP_SETUPVAL \<Rightarrow> unat (op_b i) < length (p_upvalues p)
           | OP_CLOSURE \<Rightarrow> unat (op_bx i) < nprotos
           | _ \<Rightarrow> True))"

definition code_safe :: "proto \<Rightarrow> nat \<Rightarrow> bool" where
  "code_safe p nprotos \<longleftrightarrow>
     p_code p \<noteq> [] \<and> length (p_lineinfo p) = length (p_code p) \<and> length (p_upvalues p) \<le> 255 \<and>
     list_all (\<lambda>pc. operands_in p nprotos (p_code p ! pc) \<and>
         list_all (\<lambda>d. 0 \<le> d \<and> d < int (length (p_code p))) (next_pcs pc (p_code p ! pc))) [0..<length (p_code p)]"

definition fits_fields :: "proto \<Rightarrow> nat \<Rightarrow> bool" where
  "fits_fields p nprotos \<longleftrightarrow> length (p_code p) \<le> 32768 \<and> length (p_constants p) \<le> 65536 \<and> nprotos \<le> 65536"

fun tree_safe :: "ptree \<Rightarrow> bool" where
  "tree_safe (PTree p ts) \<longleftrightarrow> (fits_fields p (length ts) \<longrightarrow> code_safe p (length ts)) \<and> list_all tree_safe ts"

lemma jump_in:
  assumes "jump_ok n pc i" "opcode_at i = Some op" "jump_op op" "pc \<le> n" "n < 32768"
  shows "0 \<le> int pc + 1 + op_sbx i \<and> int pc + 1 + op_sbx i \<le> int n"
proof -
  obtain d where d: "0 \<le> d" "d \<le> int n" "op_bx i = word_of_int (d - (int pc + 1) + 32768)" using assms unfolding jump_ok_def by blast
  then have "uint (op_bx i) = d - (int pc + 1) + 32768" unfolding d(3) uint_word_of_int using assms(4,5) by simp
  then show ?thesis using d by (simp add: op_sbx_def)
qed

lemma fits_operands: "ins_ok (length (p_constants p)) (length (p_upvalues p)) n i \<Longrightarrow> fits_fields p n \<Longrightarrow> operands_in p n i"
  by (auto simp: ins_ok_def operands_in_def fits_fields_def unat_of_nat split: option.splits opcode.splits intro: le_less_trans [OF mod_less_eq_dividend])

lemma fin_code_safe:
  assumes "fin p n" "fits_fields p n"
  shows "code_safe p n"
proof -
  let ?n = "length (p_code p) - 1"
  have ne: "p_code p \<noteq> []" and ret: "opcode_at (p_code p ! ?n) = Some OP_RETURN" using assms(1) by (auto simp: fin_def last_conv_nth)
  have small: "?n < 32768" using assms(2) ne by (cases "p_code p") (auto simp: fits_fields_def)
  have "operands_in p n (p_code p ! pc) \<and> list_all (\<lambda>d. 0 \<le> d \<and> d < int (length (p_code p))) (next_pcs pc (p_code p ! pc))"
    if pc: "pc < length (p_code p)" for pc
  proof -
    let ?i = "p_code p ! pc"
    have i: "ins_ok (length (p_constants p)) (length (p_upvalues p)) n ?i" "jump_ok ?n pc ?i" "skip_ok ?n pc ?i"
      using assms(1) pc by (simp_all add: fin_def)
    have before_end: "pc < ?n" if "opcode_at ?i \<noteq> Some OP_RETURN" using that ret pc ne by (cases "pc = ?n") auto
    have len: "int (length (p_code p)) = int ?n + 1" using ne by (cases "p_code p") simp_all
    have "0 \<le> d \<and> d < int (length (p_code p))" if d: "d \<in> set (next_pcs pc ?i)" for d
    proof -
      have op: "opcode_at ?i \<noteq> Some OP_RETURN" using d by (auto simp: next_pcs_def)
      consider "d = int pc + 1" | "d = int pc + 2" "skips ?i" | op where "opcode_at ?i = Some op" "jump_op op" "d = int pc + 1 + op_sbx ?i"
        using d by (cases "opcode_at ?i") (auto simp: next_pcs_def split: if_splits)
      then show ?thesis
      proof cases
        case 1
        then show ?thesis using before_end [OF op] len by simp
      next
        case 2
        then show ?thesis using i(3) len by (simp add: skip_ok_def)
      next
        case 3
        show ?thesis using jump_in [OF i(2) 3(1,2) less_imp_le [OF before_end [OF op]] small] 3(3) len by linarith
      qed
    qed
    then show ?thesis using fits_operands [OF i(1) assms(2)] by (simp add: list_all_iff)
  qed
  then show ?thesis using assms(1) by (auto simp: code_safe_def fin_def list_all_iff)
qed

lemma fin_tree_safe: "fin_tree t \<Longrightarrow> tree_safe t"
  by (induction t) (auto simp: list_all_iff fin_code_safe)

text \<open>C36: Every chunk the lowering pass accepts becomes safe code, in the main function and in every nested one that
  fits the 16-bit operands: there is a line for each instruction; from every instruction but a \<open>RETURN\<close> control goes to an
  instruction of the same function (the next one, the one after a skip, the target of a jump, of a loop or of a patched
  \<open>break\<close> or \<open>goto\<close>), and every constant, upvalue and nested prototype an instruction names exists.\<close>

theorem lower_chunk_safe:
  assumes "lower_chunk al body source_name HS = Inr (t, HS')"
  shows "tree_safe t"
  using lower_chunk_fin [OF assms] by (rule fin_tree_safe)
definition loop_chunk :: block where
  "loop_chunk = Block [WhileStmt 1 (ExprBool 1 True) (Block [BreakStmt 1]) 1]"

lemma loop_chunk_lowered: "case lower_chunk (\<lambda>_. 1) loop_chunk [] (H0, no_strings) of Inr (PTree p ts, _) \<Rightarrow>
     length (p_code p) = 7 \<and> p_constants p = [] \<and> ts = [] | Inl _ \<Rightarrow> False"
  by code_simp

theorem lower_chunk_safe_witness:
  "\<exists>p ts HS'. lower_chunk (\<lambda>_. 1) loop_chunk [] (H0, no_strings) = Inr (PTree p ts, HS') \<and> code_safe p (length ts)"
proof -
  obtain p ts HS' where r: "lower_chunk (\<lambda>_. 1) loop_chunk [] (H0, no_strings) = Inr (PTree p ts, HS')" "fits_fields p (length ts)"
    using loop_chunk_lowered by (auto simp: fits_fields_def split: sum.splits ptree.splits)
  then show ?thesis using lower_chunk_safe [OF r(1)] by auto
qed


end
