(* ===== verification/Lt_VmSafe.thy ===== *)
theory Lt_VmSafe
  imports Lt_VmLoop Lt_LowerSafe
begin

text \<open>
  Control flow of the interpreter: how one turn of the loop moves the program counters of the frames. \<open>goes\<close> is proved
  for each instruction, over all it may call; with the safety of lowered code, no turn leads out of a function's code.
\<close>

section \<open>Steps that leave the frames alone\<close>

lemma ctl_state [simp]:
  "v_ctl (on_th f v) = v_ctl v" "v_ctl (on_g h v) = v_ctl v" "v_ctl (set_slot i x v) = v_ctl v" "v_ctl (put_slots i xs v) = v_ctl v"
  "v_ctl (nil_slots i j v) = v_ctl v" "v_ctl (set_top n v) = v_ctl v" "v_ctl (need n v) = v_ctl v" "v_ctl (reload v) = v_ctl v"
  by (simp_all add: on_th_def on_g_def set_slot_def put_slots_def nil_slots_def set_top_def need_def reload_def)

lemma ctl_collect: "collect E v = Inr v' \<Longrightarrow> v_ctl v' = v_ctl v"
  by (auto simp: collect_def split: if_splits prod.splits option.splits)

lemma ctl_metamethod: "metamethod x e v = (mm, v') \<Longrightarrow> v_ctl v' = v_ctl v" "metamethod2 x y e v = (mm, v') \<Longrightarrow> v_ctl v' = v_ctl v"
  by (auto simp: metamethod_def metamethod2_def split: prod.splits)

lemma ctl_store: "vm_store t key x v = Inr v' \<Longrightarrow> v_ctl v' = v_ctl v" "store_int t i x v = Inr v' \<Longrightarrow> v_ctl v' = v_ctl v"
  by (auto simp: vm_store_def store_int_def rbind_eq_Inr split: tvalue.splits option.splits)

lemma ctl_set_items: "set_items t i xs v = Inr v' \<Longrightarrow> v_ctl v' = v_ctl v"
  by (induction xs arbitrary: i v) (auto simp: rbind_eq_Inr dest: ctl_store)

lemma ctl_bind_upvals: "bind_upvals E ds v = Inr (us, v') \<Longrightarrow> v_ctl v' = v_ctl v"
  by (induction ds arbitrary: v us) (fastforce simp: rbind_eq_Inr split: if_splits option.splits prod.splits)+

lemma ctl_ccalls: "incr_Ccalls v = Inr v' \<Longrightarrow> v_ctl v' = v_ctl v" "v_ctl (decr_Ccalls v) = v_ctl v"
  by (auto simp: incr_Ccalls_def decr_Ccalls_def Let_def split: if_splits)

section \<open>Calls\<close>

text \<open>The code of the function of each frame.\<close>

definition frame_code :: "gstate \<Rightarrow> call_frame \<Rightarrow> instruction list" where
  "frame_code g fr = (case fr_proto fr of Some p \<Rightarrow> p_code (proto_at g p) | None \<Rightarrow> [])"

definition codes :: "vm \<Rightarrow> instruction list list" where
  "codes v = map (frame_code (v_g v)) (th_frames (v_th v))"

lemma code_of_cur: "codes v \<noteq> [] \<Longrightarrow> p_code (cur_proto v) = last (codes v)"
  by (simp add: codes_def cur_proto_def cur_frame_def frame_code_def last_map no_proto_def split: option.split)

lemma proto_at_set_obj:
  assumes "\<And>pr. obj_at g p \<noteq> Some (OProto pr)" "\<And>pr. ob \<noteq> OProto pr"
  shows "proto_at (set_obj p ob g) q = proto_at g q"
  using assms by (auto simp: proto_at_def obj_at_set_obj split: option.splits gc_obj.splits)

lemma proto_at_on_current: "proto_at (on_current f g) q = proto_at g q"
proof -
  have "proto_at (set_obj p (OThread th') g) q = proto_at g q" if "thread_at g p = Some th" for p th th'
    by (rule proto_at_set_obj) (use that in \<open>auto simp: thread_at_def split: option.splits gc_obj.splits\<close>)
  then show ?thesis by (simp add: on_current_def upd_thread_def split: option.split)
qed

lemma codes_on_th:
  "codes (on_th f v) = (if has_thread (v_g v) then map (frame_code (v_g v)) (th_frames (f (v_th v))) else codes v)"
proof (cases "has_thread (v_g v)")
  case True
  then show ?thesis by (simp add: codes_def on_th_def on_current_thread frame_code_def proto_at_on_current cong: option.case_cong)
next
  case False
  then have "on_current f (v_g v) = v_g v"
    by (auto simp: on_current_def upd_thread_def has_thread_def split: option.splits)
  then show ?thesis using False by (simp add: on_th_def)
qed

lemma codes_no_thread: "\<not> has_thread (v_g v) \<Longrightarrow> codes v = []"
  by (auto simp: codes_def cur_th_def has_thread_def no_thread_def split: option.splits)

lemma codes_state [simp]:
  "codes (set_slot i x v) = codes v" "codes (put_slots i xs v) = codes v" "codes (nil_slots i j v) = codes v" "codes (set_top n v) = codes v"
  "codes (need n v) = codes v" "codes (reload v) = codes v" "codes (set_reg i x v) = codes v" "codes (upd_ctl h v) = codes v"
  by (simp_all add: set_slot_def set_reg_def put_slots_def nil_slots_def set_top_def need_def reload_def codes_on_th ensure_stack_def)
    (simp_all add: codes_def upd_ctl_def)

lemma codes_frames: "codes (pop_frame v) = butlast (codes v)" "has_thread (v_g v) \<Longrightarrow> codes (push_frame fr c v) = codes v @ [frame_code (v_g v) fr]"
proof -
  have upd: "codes (v\<lparr>v_ctl := x\<rparr>) = codes v" for v x by (simp add: codes_def)
  show "codes (pop_frame v) = butlast (codes v)"
    using codes_no_thread [of v] by (cases "has_thread (v_g v)") (simp_all add: pop_frame_def upd codes_on_th, simp add: codes_def map_butlast)
  show "has_thread (v_g v) \<Longrightarrow> codes (push_frame fr c v) = codes v @ [frame_code (v_g v) fr]"
    by (simp add: push_frame_def upd codes_on_th) (simp add: codes_def)
qed

text \<open>What the loop relies on from outside: hooks, and C functions that do not yield, leave the frames as they found them, with
  the same code; a hook does not switch the stress mode; a nested loop returns without the frame it was started for.\<close>

definition host_ok :: "vm_env \<Rightarrow> bool" where
  "host_ok E \<longleftrightarrow>
     (\<forall>ev v v'. ve_hook E ev v = Inr v' \<longrightarrow> v_ctl v' = v_ctl v \<and> codes v' = codes v \<and> g_stress (v_g v') = g_stress (v_g v)) \<and>
     (\<forall>f v n v'. ve_cfunc E f v = Inr (n, v') \<longrightarrow> v_yield_pending v' \<or> (v_ctl v' = v_ctl v \<and> codes v' = codes v)) \<and>
     (\<forall>v st v'. ve_nested E v = Inr (st, v') \<longrightarrow> st = LUA_YIELD \<or> v_ctl v' = butlast (v_ctl v))"

lemma ctl_hook: "host_ok E \<Longrightarrow> hook E ev v = Inr v' \<Longrightarrow> v_ctl v' = v_ctl v \<and> codes v' = codes v \<and> g_stress (v_g v') = g_stress (v_g v)"
  by (auto simp: hook_def host_ok_def split: if_splits)

definition fresh_ctl :: "frame_ctl \<Rightarrow> bool" where
  "fresh_ctl c \<longleftrightarrow> fc_pc c = 0 \<and> \<not> fc_pending c"

lemma ctl_push_lua:
  assumes "host_ok E" "push_lua_frame E cl f n r tail v = Inr v'"
  shows "\<exists>c. v_ctl v' = v_ctl v @ [c] \<and> fresh_ctl c"
proof -
  have small: "\<not> 100000 < nframes v" using assms(2) by (auto simp: push_lua_frame_def)
  from ctl_hook [OF assms(1) assms(2) [unfolded push_lua_frame_def Let_def if_not_P [OF small]]]
  show ?thesis by (simp add: push_frame_def fresh_ctl_def ctl0_def)
qed

lemma codes_vm_fields [simp]:
  "codes (v\<lparr>v_ctl := x\<rparr>) = codes v" "codes (v\<lparr>v_nny := n\<rparr>) = codes v" "codes (v\<lparr>v_ccalls := n\<rparr>) = codes v"
  "codes (v\<lparr>v_yield_pending := b\<rparr>) = codes v"
  by (simp_all add: codes_def)

lemma codes_base [simp]: "codes (on_th (\<lambda>th. th\<lparr>th_base := b, th_top := t\<rparr>) v) = codes v" "codes (on_th (\<lambda>th. th\<lparr>th_base := b\<rparr>) v) = codes v"
  by (simp_all add: codes_on_th) (simp_all add: codes_def)

lemma codes_ccalls: "incr_Ccalls v = Inr v' \<Longrightarrow> codes v' = codes v \<and> v_g v' = v_g v" "codes (decr_Ccalls v) = codes v"
  by (auto simp: incr_Ccalls_def decr_Ccalls_def Let_def split: if_splits)

lemma codes_push: "butlast (codes (push_frame fr c v)) = codes v"
proof (cases "has_thread (v_g v)")
  case False
  then show ?thesis by (simp add: push_frame_def codes_on_th codes_no_thread)
qed (simp add: codes_frames)

lemma place_results [simp]:
  "v_ctl (place_c_results f n r nret ra pt v) = v_ctl v" "codes (place_c_results f n r nret ra pt v) = codes v"
  by (simp_all add: place_c_results_def Let_def)

lemma after_no_yield:
  assumes "\<not> v_yield_pending v" "after_c_call E cl f n r pb pt nret v = Inr (st, v')"
  shows "\<exists>w. hook E HookReturn (v\<lparr>v_nny := v_nny v - 1\<rparr>) = Inr w \<and> st = LUA_OK \<and> v_ctl v' = butlast (v_ctl w) \<and> codes v' = butlast (codes w)"
proof -
  have "v_ctl (pop_frame w) = butlast (v_ctl w)" for w by (simp add: pop_frame_def)
  then show ?thesis using assms by (auto simp: after_c_call_def Let_def rbind_eq_Inr codes_frames)
qed

lemma ctl_run_c:
  assumes "host_ok E" "run_c_call E cl f n r tail name v = Inr (st, v')"
  shows "st = LUA_YIELD \<or> (st = LUA_OK \<and> v_ctl v' = v_ctl v \<and> codes v' = codes v)"
proof -
  let ?ev = "if tail then HookTailCall else HookCall"
    and ?enter = "\<lambda>v2. (on_th (\<lambda>th. th\<lparr>th_base := f + 1, th_top := f + 1 + n\<rparr>) v2)\<lparr>v_yield_pending := False, v_nny := v_nny v2 + 1\<rparr>"
  obtain v1 fr c v2 fn nret v4 pb pt v5 where 1: "incr_Ccalls v = Inr v1" "hook E ?ev (push_frame fr c v1) = Inr v2"
      "ve_cfunc E fn (?enter v2) = Inr (nret, v4)" "after_c_call E cl f n r pb pt nret v4 = Inr (st, v5)" "v' = decr_Ccalls v5"
    using assms(2) unfolding run_c_call_def rbind_eq_Inr Let_def by (auto simp: rbind_eq_Inr split: if_splits)
  have "v_ctl v2 = v_ctl v @ [c]" "butlast (codes v2) = codes v"
    using ctl_hook [OF assms(1) 1(2)] ctl_ccalls(1) [OF 1(1)] codes_ccalls(1) [OF 1(1)] codes_push [of fr c v1] by (simp_all add: push_frame_def)
  moreover have "v_yield_pending v4 \<or> v_ctl v4 = v_ctl (?enter v2) \<and> codes v4 = codes (?enter v2)" using 1(3) assms(1) unfolding host_ok_def by blast
  ultimately have c4: "v_yield_pending v4 \<or> v_ctl v4 = v_ctl v @ [c] \<and> butlast (codes v4) = codes v" by auto
  show ?thesis
  proof (cases "v_yield_pending v4")
    case True
    then show ?thesis using 1(4) by (auto simp: after_c_call_def Let_def yield_continuation_def split: if_splits option.splits)
  next
    case False
    from after_no_yield [OF this 1(4)] obtain v6 where h: "hook E HookReturn (v4\<lparr>v_nny := v_nny v4 - 1\<rparr>) = Inr v6" "st = LUA_OK"
      and v5: "v_ctl v5 = butlast (v_ctl v6)" "codes v5 = butlast (codes v6)" by blast
    show ?thesis using c4 False ctl_hook [OF assms(1) h(1)] h(2) v5 1(5) ctl_ccalls(2) codes_ccalls(2) by simp
  qed
qed

lemma ctl_call_closure:
  assumes "host_ok E" "call_closure E cl n r v = Inr (st, v')"
  shows "st = LUA_YIELD \<or> v_ctl v' = v_ctl v"
proof (cases "cl_is_c (closure_at (v_g v) cl)")
  case True
  then show ?thesis using assms ctl_run_c [OF assms(1)] by (fastforce simp: call_closure_def Let_def split: if_splits)
next
  case False
  then obtain v1 f v2 v3 where 1: "incr_Ccalls v = Inr v1" "push_lua_frame E cl f n r False v1 = Inr v2" "ve_nested E v2 = Inr (st, v3)"
      "v' = decr_Ccalls v3"
    using assms(2) by (auto simp: call_closure_def Let_def rbind_eq_Inr split: if_splits)
  then show ?thesis using ctl_push_lua [OF assms(1) 1(2)] ctl_ccalls assms(1) unfolding host_ok_def by fastforce
qed

section \<open>Where a turn leads\<close>

text \<open>The frames above \<open>rest\<close> after a turn: the running one with its counter in \<open>S\<close>, and a new one when a function
  was called. A frame that waits for a metamethod is past its first instruction.\<close>

definition moved :: "frame_ctl list \<Rightarrow> int set \<Rightarrow> frame_ctl list \<Rightarrow> bool" where
  "moved rest S cs \<longleftrightarrow>
     (\<exists>c fs. cs = rest @ c # fs \<and> fc_pc c \<in> S \<and> (fc_pending c \<longrightarrow> 1 \<le> fc_pc c) \<and> (fs = [] \<or> (\<exists>f. fs = [f] \<and> fresh_ctl f)))"

definition goes :: "frame_ctl list \<Rightarrow> int set \<Rightarrow> turn result \<Rightarrow> bool" where
  "goes rest S r \<longleftrightarrow> (\<forall>v. r = Inr (Next v) \<longrightarrow> moved rest S (v_ctl v))"

lemma moved_simps [simp]:
  "moved rest S (rest @ [c]) \<longleftrightarrow> fc_pc c \<in> S \<and> (fc_pending c \<longrightarrow> 1 \<le> fc_pc c)"
  "moved rest S (rest @ [c, f]) \<longleftrightarrow> fc_pc c \<in> S \<and> (fc_pending c \<longrightarrow> 1 \<le> fc_pc c) \<and> fresh_ctl f"
  by (auto simp: moved_def)

lemma goes_simps [simp]:
  "goes rest S (Inl e)" "goes rest S (Inr (Ret st v))" "goes rest S (Inr (Next v)) \<longleftrightarrow> moved rest S (v_ctl v)" "goes rest S (panic msg)"
  by (simp_all add: goes_def panic_def)

lemma goes_errors [simp]:
  "goes rest S (runerror M g msg)" "goes rest S (typeerror M g x i msg)" "goes rest S (opinterror M g x i msg)"
  "goes rest S (compareerror M g x y)" "goes rest S (tointerror M g i)"
  by (simp_all add: runerror_def typeerror_def opinterror_def compareerror_def tointerror_def Let_def)

lemma goes_bind: "(\<And>y. x = Inr y \<Longrightarrow> goes rest S (f y)) \<Longrightarrow> goes rest S (rbind x f)"
  by (cases x) simp_all

lemma upd_ctl_snoc [simp]: "v_ctl v = rest @ [c] \<Longrightarrow> v_ctl (upd_ctl h v) = rest @ [h c]" "v_ctl v = rest @ [c] \<Longrightarrow> cur_ctl v = c"
    "v_ctl v = rest @ [c] \<Longrightarrow> v_ctl (add_pc d v) = rest @ [c\<lparr>fc_pc := fc_pc c + d\<rparr>]"
  by (simp_all add: upd_ctl_def cur_ctl_def add_pc_def)

section \<open>Instructions that call metamethods\<close>

definition compares :: "instruction \<Rightarrow> bool" where
  "compares i \<longleftrightarrow> opcode_at i \<in> {Some OP_EQ, Some OP_LT, Some OP_LE}"

text \<open>The running frame \<open>c\<close> executes the instruction before its counter; it goes on there, or one further after a comparison.\<close>

definition runs :: "vm_env \<Rightarrow> frame_ctl list \<Rightarrow> frame_ctl \<Rightarrow> int set \<Rightarrow> vm \<Rightarrow> bool" where
  "runs E rest c S v \<longleftrightarrow>
     host_ok E \<and> v_ctl v = rest @ [c] \<and> codes v \<noteq> [] \<and> 1 \<le> fc_pc c \<and> fc_pc c \<in> S \<and>
     (compares (last (codes v) ! nat (fc_pc c - 1)) \<longrightarrow> fc_pc c + 1 \<in> S)"

lemma runsD: "runs E rest c S v \<Longrightarrow> host_ok E \<and> v_ctl v = rest @ [c] \<and> fc_pc c \<in> S \<and> 1 \<le> fc_pc c"
  by (simp add: runs_def)

lemma runs_same: "runs E rest c S v \<Longrightarrow> v_ctl w = v_ctl v \<Longrightarrow> codes w = codes v \<Longrightarrow> runs E rest c S w"
  by (simp add: runs_def)

lemma runs_upd: "runs E rest c S v \<Longrightarrow> fc_pc (h c) = fc_pc c \<Longrightarrow> runs E rest (h c) S (upd_ctl h v)"
  by (simp add: runs_def)

lemma codes_get_metamethod:
  assumes "get_metamethod (v_g v) x e = (mm, g)"
  shows "codes (v\<lparr>v_g := g\<rparr>) = codes v"
proof -
  have "proto_at g q = proto_at (v_g v) q \<and> thread_at g q = thread_at (v_g v) q \<and> g_current g = g_current (v_g v)" for q
    using assms
    by (auto simp: get_metamethod_def get_tm_def table_at_def proto_at_def thread_at_def obj_at_set_obj
        split: option.splits gc_obj.splits prod.splits if_splits)
  then show ?thesis by (simp add: codes_def cur_th_def frame_code_def cong: option.case_cong)
qed

lemma codes_metamethod: "metamethod x e v = (mm, v') \<Longrightarrow> codes v' = codes v" "metamethod2 x y e v = (mm, v') \<Longrightarrow> codes v' = codes v"
proof -
  show "metamethod x e v = (mm, v') \<Longrightarrow> codes v' = codes v"
    by (auto simp: metamethod_def codes_get_metamethod split: prod.splits)
  show "codes v' = codes v" if m: "metamethod2 x y e v = (mm, v')"
  proof -
    obtain mm1 g1 where 1: "get_metamethod (v_g v) x e = (mm1, g1)" by fastforce
    obtain mm2 g2 where 2: "get_metamethod g1 y e = (mm2, g2)" by fastforce
    have "codes (v\<lparr>v_g := g2\<rparr>) = codes v"
      using codes_get_metamethod [OF 1] codes_get_metamethod [of "v\<lparr>v_g := g1\<rparr>" y e] 2 by simp
    then show ?thesis using m 1 2 codes_get_metamethod [OF 1] by (auto simp: metamethod2_def binary_mm_def split: if_splits)
  qed
qed

lemma runs_metamethod: "runs E rest c S v \<Longrightarrow> metamethod x e v = (mm, v') \<Longrightarrow> runs E rest c S v'"
    "runs E rest c S v \<Longrightarrow> metamethod2 x y e v = (mm, v') \<Longrightarrow> runs E rest c S v'"
  by (auto elim!: runs_same dest: codes_metamethod ctl_metamethod)

definition waits :: "frame_ctl \<Rightarrow> frame_ctl \<Rightarrow> bool" where
  "waits c d \<longleftrightarrow> fc_pending d \<and> fc_pc d = fc_pc c \<and> fc_le_invert d = fc_le_invert c"

lemma invoke_cases:
  assumes "host_ok E" "v_ctl v = rest @ [c]" "invoke_mm E mm as n v = Inr (st, v')"
  shows "st = LUA_YIELD \<or>
    (\<exists>d. waits c d \<and> (st = LUA_OK \<and> v_ctl v' = rest @ [d] \<and> codes v' = codes v \<or>
       (\<exists>f. st = MM_PUSHED \<and> v_ctl v' = rest @ [d, f] \<and> fresh_ctl f)))"
proof -
  let ?b = "live_stack_top (obj_at (v_g v)) (v_th v)"
  let ?v = "upd_ctl (\<lambda>c. c\<lparr>fc_pending := True, fc_meta_base := ?b\<rparr>)
       (set_top (?b + 1 + int (length as)) (put_slots ?b (VFunction mm # as) (need (?b + 1 + int (length as) + n + 8) v)))"
  let ?d = "c\<lparr>fc_pending := True, fc_meta_base := ?b\<rparr>"
  have r: "v_ctl ?v = rest @ [?d]" "codes ?v = codes v" using assms(2) by simp_all
  have w: "waits c ?d" by (simp add: waits_def)
  show ?thesis
  proof (cases "cl_is_c (closure_at (v_g ?v) mm)")
    case True
    then have "run_c_call E mm ?b (int (length as)) n False [] ?v = Inr (st, v')" using assms(3) by (simp add: invoke_mm_def Let_def)
    from ctl_run_c [OF assms(1) this] r w show ?thesis by auto
  next
    case False
    then obtain v1 where "push_lua_frame E mm ?b (int (length as)) n False ?v = Inr v1" "st = MM_PUSHED" "v' = v1"
      using assms(3) by (auto simp: invoke_mm_def Let_def rbind_eq_Inr)
    then show ?thesis using ctl_push_lua [OF assms(1)] w r by fastforce
  qed
qed

lemma status_codes [simp]: "LUA_OK \<noteq> LUA_YIELD" "MM_PUSHED \<noteq> LUA_OK" "MM_PUSHED \<noteq> LUA_YIELD" "LUA_YIELD \<noteq> LUA_OK" "LUA_OK \<noteq> MM_PUSHED" "LUA_YIELD \<noteq> MM_PUSHED"
  by (simp_all add: LUA_OK_def LUA_YIELD_def MM_PUSHED_def)

lemma concat_fold_moves:
  assumes "host_ok E" "concat_fold E n pos last_reg dest acc v = Inr (st, v')" "v_ctl v = rest @ [c]" "1 \<le> fc_pc c" "\<not> fc_pending c"
  shows "st = LUA_YIELD \<or> moved rest {fc_pc c} (v_ctl v')"
  using assms
proof (induction E n pos last_reg dest acc v arbitrary: c rule: concat_fold.induct)
  case (2 E n pos last_reg dest acc v)
  show ?case
  proof (cases "stringish acc \<and> stringish (reg v pos)")
    case True
    obtain p g where i: "intern (ve_meta E) (to_text (ve_meta E) (v_g v) acc @ to_text (ve_meta E) (v_g v) (reg v pos)) (v_g v) = (p, g)"
      by fastforce
    show ?thesis using "2.IH"(1) [OF refl True i [symmetric]] "2.prems" True i by (simp add: Let_def)
  next
    case False
    obtain mm v1 where m: "metamethod2 acc (reg v pos) TM_CONCAT v = (mm, v1)" by fastforce
    let ?c = "c\<lparr>fc_concat_pos := pos, fc_concat_last := last_reg, fc_concat_dest := dest\<rparr>"
    let ?w = "upd_ctl (\<lambda>c. c\<lparr>fc_concat_pos := pos, fc_concat_last := last_reg, fc_concat_dest := dest\<rparr>) v1"
    obtain fn st2 v2 where fn: "mm = VFunction fn" and i: "invoke_mm E fn [acc, reg v pos] 1 ?w = Inr (st2, v2)"
        and r: "(if st2 = LUA_OK then concat_fold E n (pos + 1) last_reg dest (slot v2 (fc_meta_base (cur_ctl v2)))
                    (upd_ctl (\<lambda>c. c\<lparr>fc_pending := False\<rparr>) v2)
                  else Inr (if st2 = LUA_YIELD then LUA_YIELD else LUA_OK, v2)) = Inr (st, v')"
      using "2.prems"(2) False m by (auto simp: Let_def rbind_eq_Inr concat_error_def runerror_def split: tvalue.splits)
    have w: "v_ctl ?w = rest @ [?c]" using ctl_metamethod(2) [OF m] "2.prems"(3) by simp
    from invoke_cases [OF "2.prems"(1) w i] consider "st2 = LUA_YIELD"
      | d where "waits ?c d" "st2 = LUA_OK" "v_ctl v2 = rest @ [d]" | d f where "waits ?c d" "st2 = MM_PUSHED" "v_ctl v2 = rest @ [d, f]" "fresh_ctl f"
      by blast
    then show ?thesis
    proof cases
      case 2
      have "v_ctl (upd_ctl (\<lambda>c. c\<lparr>fc_pending := False\<rparr>) v2) = rest @ [d\<lparr>fc_pending := False\<rparr>]" using 2 by simp
      from "2.IH"(2) [OF refl False m [symmetric] refl fn refl "2.prems"(1) _ this] 2 r "2.prems"(4) show ?thesis
        by (simp add: waits_def)
    qed (use r "2.prems"(4) in \<open>auto simp: waits_def\<close>)
  qed
qed auto

lemma moved_mono: "moved rest S cs \<Longrightarrow> S \<subseteq> T \<Longrightarrow> moved rest T cs"
  by (auto simp: moved_def)

lemma finish_moves:
  assumes "runs E rest c S v" "fc_pending c" "finish_interrupted_op E v = Inr (st, v')"
  shows "st = LUA_YIELD \<or> moved rest S (v_ctl v')"
proof (cases "fr_proto (cur_frame v) = None")
  case True
  then show ?thesis using assms(3) runsD [OF assms(1)] by (auto simp: finish_interrupted_op_def Let_def)
next
  case False
  let ?i = "last (codes v) ! nat (fc_pc c - 1)" and ?v = "upd_ctl (\<lambda>c. c\<lparr>fc_pending := False\<rparr>) v"
  have r: "host_ok E" "v_ctl v = rest @ [c]" "cur_ctl v = c" "fc_pc c \<in> S" "1 \<le> fc_pc c" "p_code (cur_proto v) = last (codes v)"
    using assms(1) code_of_cur [of v] by (simp_all add: runs_def)
  obtain op where op: "opcode_at ?i = Some op" and
    res: "(if op \<in> {OP_EQ, OP_LT, OP_LE} then
             Inr (LUA_OK, cond_skip (uint (op_a ?i)) (is_truthy (slot v (fc_meta_base c)) \<noteq> fc_le_invert c) (upd_ctl (\<lambda>c. c\<lparr>fc_le_invert := False\<rparr>) ?v))
           else if writes_result op then Inr (LUA_OK, set_reg (uint (op_a ?i)) (slot v (fc_meta_base c)) ?v)
           else if op \<in> {OP_SETTABLE, OP_SETI, OP_SETFIELD, OP_SETTABUP} then Inr (LUA_OK, ?v)
           else if op = OP_CONCAT then
             concat_fold E (nat (fc_concat_last c - fc_concat_pos c)) (fc_concat_pos c + 1) (fc_concat_last c) (fc_concat_dest c)
               (slot v (fc_meta_base c)) ?v
           else panic ''finish_interrupted_op: unexpected opcode'') = Inr (st, v')"
    using assms(3) False r assms(2) by (auto simp: finish_interrupted_op_def Let_def opcode_at_def split: if_splits option.splits)
  have v: "v_ctl ?v = rest @ [c\<lparr>fc_pending := False\<rparr>]" using r by simp
  show ?thesis
  proof (cases "op \<in> {OP_EQ, OP_LT, OP_LE}")
    case True
    then have "fc_pc c + 1 \<in> S" using assms(1) op by (auto simp: runs_def compares_def)
    then show ?thesis using res True v r(4) by (auto simp: cond_skip_def)
  next
    case False
    have "moved rest S (v_ctl v')" if "writes_result op \<or> op \<in> {OP_SETTABLE, OP_SETI, OP_SETFIELD, OP_SETTABUP}"
      using that res False v r(4) by (cases "writes_result op") auto
    moreover have ?thesis if "op = OP_CONCAT" "\<not> writes_result op"
    proof -
      have "concat_fold E (nat (fc_concat_last c - fc_concat_pos c)) (fc_concat_pos c + 1) (fc_concat_last c) (fc_concat_dest c)
               (slot v (fc_meta_base c)) ?v = Inr (st, v')"
        using res that by simp
      from concat_fold_moves [OF r(1) this v] r(4,5) moved_mono [of rest "{fc_pc c}" "v_ctl v'" S] show ?thesis by auto
    qed
    ultimately show ?thesis using res False by (auto split: if_splits)
  qed
qed

lemma goes_finish:
  assumes "runs E rest c S v" "fc_pending c"
  shows "goes rest S (finish_now E v)"
  unfolding finish_now_def using finish_moves [OF assms] by (auto intro!: goes_bind)

lemma invoke_runs:
  assumes "runs E rest c S v" "invoke_mm E mm as n v = Inr (st, v')"
  shows "st = LUA_YIELD \<or>
    (\<exists>d. fc_pending d \<and> (st = LUA_OK \<and> runs E rest d S v' \<or> (st = MM_PUSHED \<and> moved rest S (v_ctl v'))))"
  using assms(1) invoke_cases [OF _ _ assms(2), of rest c] by (fastforce simp: runs_def waits_def)

lemma goes_invoke:
  assumes "runs E rest c S v"
  shows "goes rest S (rbind (invoke_mm E mm as n v) (after_mm E))"
  using invoke_runs [OF assms] goes_finish by (fastforce intro!: goes_bind simp: after_mm_def)

lemma index_runs:
  assumes "runs E rest c S v" "\<not> fc_pending c" "index_yieldable E n t key v = Inr (st, out, v')"
  shows "st = LUA_YIELD \<or> (st = MM_PUSHED \<and> moved rest S (v_ctl v')) \<or> (\<exists>d. st = LUA_OK \<and> runs E rest d S v')"
  using assms
proof (induction E n t key v rule: index_yieldable.induct)
  case (2 E n t key v)
  obtain mm v1 where m: "metamethod t TM_INDEX v = (mm, v1)" by fastforce
  note r1 = runs_metamethod(1) [OF "2.prems"(1) m]
  show ?case
  proof (cases "is_table t \<and> \<not> is_nil (raw_index (v_g v) t key)")
    case False
    show ?thesis
    proof (cases "\<exists>fn. mm = VFunction fn")
      case True
      then show ?thesis using "2.prems" False m r1 by (auto simp: Let_def rbind_eq_Inr is_nil_def dest!: invoke_runs [OF r1])
    next
      case nofun: False
      then show ?thesis using "2.prems" "2.IH" [OF False m [symmetric] refl] False m r1
        by (auto simp: Let_def typeerror_def runerror_def split: tvalue.splits if_splits)
    qed
  qed (use 2 in auto)
qed simp

lemma newindex_runs:
  assumes "runs E rest c S v" "\<not> fc_pending c" "newindex_yieldable E n t key x v = Inr (st, v')"
  shows "st = LUA_YIELD \<or> (st = MM_PUSHED \<and> moved rest S (v_ctl v')) \<or>
    (st = LUA_OK \<and> v_ctl v' = rest @ [c]) \<or> (\<exists>d. st = LUA_OK \<and> runs E rest d S v')"
  using assms
proof (induction E n t key x v rule: newindex_yieldable.induct)
  case (2 E n t key x v)
  obtain mm v1 where m: "metamethod t TM_NEWINDEX v = (mm, v1)" by fastforce
  note r1 = runs_metamethod(1) [OF "2.prems"(1) m]
  show ?case
  proof (cases "is_table t \<and> \<not> is_nil (raw_index (v_g v) t key)")
    case False
    show ?thesis
    proof (cases "\<exists>fn. mm = VFunction fn")
      case True
      then show ?thesis using "2.prems" False m r1 by (auto simp: Let_def is_nil_def dest!: invoke_runs [OF r1])
    next
      case nofun: False
      then show ?thesis using "2.prems" "2.IH" [OF False m [symmetric] refl] False m r1 runsD [OF r1]
        by (auto simp: Let_def typeerror_def runerror_def rbind_eq_Inr dest!: ctl_store(1) split: tvalue.splits if_splits)
    qed
  qed (use 2 in \<open>auto simp: rbind_eq_Inr runs_def dest!: ctl_store(1)\<close>)
qed simp

lemma metamethod_runs: "runs E rest c S v \<Longrightarrow> runs E rest c S (snd (metamethod t e v))"
  using runs_metamethod(1) [of E rest c S v t e] by (metis prod.collapse)

lemma goes_get:
  assumes "runs E rest c S v" "\<not> fc_pending c"
  shows "goes rest S (get_op E a t found key v)"
proof -
  have index: "goes rest S (rbind (index_yieldable E n t key w) (finish_get E a))" if w: "runs E rest c S w" for n w
  proof (rule goes_bind)
    fix y assume y: "index_yieldable E n t key w = Inr y"
    obtain st out u where [simp]: "y = (st, out, u)" by (cases y)
    from index_runs [OF w assms(2) y [simplified]] consider "st = LUA_YIELD" | "st = MM_PUSHED" "moved rest S (v_ctl u)"
      | d where "st = LUA_OK" "runs E rest d S u" by blast
    then show "goes rest S (finish_get E a y)"
    proof cases
      case 3
      then show ?thesis using goes_finish [OF 3(2)] runsD [OF 3(2)] by (cases "fc_pending d") (simp_all add: finish_get_def)
    qed (simp_all add: finish_get_def)
  qed
  have m: "runs E rest c S (snd (metamethod t TM_INDEX v))" by (rule metamethod_runs [OF assms(1)])
  have "moved rest S (v_ctl (set_reg a y v))" "moved rest S (v_ctl (set_reg a y (snd (metamethod t TM_INDEX v))))" for y
    using assms(2) runsD [OF assms(1)] runsD [OF m] by simp_all
  then show ?thesis using index [OF m] index [OF assms(1)] by (simp add: get_op_def)
qed

lemma goes_set:
  assumes "runs E rest c S v" "\<not> fc_pending c" "\<And>w w'. store w = Inr w' \<Longrightarrow> v_ctl w' = v_ctl w"
  shows "goes rest S (set_op E t found key x store v)"
proof -
  let ?f = "\<lambda>(st, v1). if st = LUA_YIELD then Inr (Ret LUA_YIELD v1) else if st = MM_PUSHED then Inr (Next v1)
        else if fc_pending (cur_ctl v1) then finish_now E v1 else Inr (Next (reload v1))"
  have newindex: "goes rest S (rbind (newindex_yieldable E n t key x w) ?f)" if w: "runs E rest c S w" for n w
  proof (rule goes_bind)
    fix y assume y: "newindex_yieldable E n t key x w = Inr y"
    obtain st u where [simp]: "y = (st, u)" by (cases y)
    from newindex_runs [OF w assms(2) y [simplified]] consider "st = LUA_YIELD" | "st = MM_PUSHED" "moved rest S (v_ctl u)"
      | "st = LUA_OK" "v_ctl u = rest @ [c]" | d where "st = LUA_OK" "runs E rest d S u" by blast
    then show "goes rest S (?f y)"
    proof cases
      case 3
      then show ?thesis using assms(2) runsD [OF w] by simp
    next
      case 4
      then show ?thesis using goes_finish [OF 4(2)] runsD [OF 4(2)] by (cases "fc_pending d") simp_all
    qed simp_all
  qed
  have stores: "goes rest S (rbind (store w) (\<lambda>v1. Inr (Next v1)))" if "runs E rest c S w" for w
  proof (rule goes_bind)
    fix y assume "store w = Inr y"
    then have "v_ctl y = v_ctl w" by (rule assms(3))
    then show "goes rest S (Inr (Next y))" using runsD [OF that] assms(2) by simp
  qed
  show ?thesis
    using newindex [OF assms(1)] newindex [OF metamethod_runs [OF assms(1)]] stores [OF assms(1)] stores [OF metamethod_runs [OF assms(1)]]
    unfolding set_op_def by simp
qed

lemma goes_self:
  assumes "runs E rest c S v" "\<not> fc_pending c"
  shows "goes rest S (op_self E a b k v)"
proof -
  have r: "runs E rest c S (set_reg (a + 1) (reg v b) v)" by (rule runs_same [OF assms(1)]) simp_all
  have "goes rest S (let (st, m, v1) = y in
        if st = LUA_YIELD then Inr (Ret LUA_YIELD v1)
        else if st = MM_PUSHED then Inr (Next v1)
        else if fc_pending (cur_ctl v1) then
          rbind (finish_interrupted_op E v1) (\<lambda>(st2, v2).
            Inr (if st2 = LUA_YIELD then Ret LUA_YIELD v2 else Next (set_reg (a + 1) (reg v b) (reload v2))))
        else Inr (Next (set_reg a m (set_reg (a + 1) (reg v b) (reload v1)))))"
    if y: "index_yieldable E kMaxTagLoop (reg v b) (reg v k) (set_reg (a + 1) (reg v b) v) = Inr y" for y
  proof -
    obtain st m u where [simp]: "y = (st, m, u)" by (cases y)
    from index_runs [OF r assms(2) y [simplified]] consider "st = LUA_YIELD" | "st = MM_PUSHED" "moved rest S (v_ctl u)"
      | d where "st = LUA_OK" "runs E rest d S u" by blast
    then show ?thesis
    proof cases
      case 3
      then have u: "v_ctl u = rest @ [d]" "cur_ctl u = d" "fc_pc d \<in> S" "1 \<le> fc_pc d" using runsD [OF 3(2)] by simp_all
      show ?thesis
      proof (cases "fc_pending d")
        case True
        then have "goes rest S (rbind (finish_interrupted_op E u) (\<lambda>(st2, v2).
            Inr (if st2 = LUA_YIELD then Ret LUA_YIELD v2 else Next (set_reg (a + 1) (reg v b) (reload v2)))))"
          using finish_moves [OF 3(2) True] by (auto intro!: goes_bind)
        then show ?thesis using 3(1) u True by simp
      qed (use 3(1) u in simp)
    qed simp_all
  qed
  then show ?thesis unfolding op_self_def Let_def by (rule goes_bind)
qed

section \<open>Operators\<close>

lemma goes_case_fn:
  assumes "\<And>fn. goes rest S (f fn)" "goes rest S r"
  shows "goes rest S (case mm of VFunction fn \<Rightarrow> f fn | _ \<Rightarrow> r)"
  using assms by (simp split: tvalue.split)

lemma goes_set_reg: "runs E rest c S v \<Longrightarrow> \<not> fc_pending c \<Longrightarrow> goes rest S (Inr (Next (set_reg a x v)))"
  using runsD [of E rest c S v] by simp

lemma goes_skip: "runs E rest c S v \<Longrightarrow> \<not> fc_pending c \<Longrightarrow> fc_pc c + 1 \<in> S \<Longrightarrow> goes rest S (Inr (Next (cond_skip a r v)))"
  using runsD [of E rest c S v] by (simp add: cond_skip_def)

lemma goes_unm:
  assumes "runs E rest c S v" "\<not> fc_pending c"
  shows "goes rest S (op_unm E a b v)"
proof -
  obtain mm v1 where m: "metamethod (reg v b) TM_UNM v = (mm, v1)" by fastforce
  note r = runs_metamethod(1) [OF assms(1) m]
  show ?thesis unfolding op_unm_def Let_def m prod.case
    by (auto intro!: goes_set_reg [OF assms] goes_case_fn goes_invoke [OF r] simp del: goes_simps(3) split: option.split)
qed

lemma goes_bnot:
  assumes "runs E rest c S v" "\<not> fc_pending c"
  shows "goes rest S (op_bnot E a b v)"
proof -
  obtain mm v1 where m: "metamethod (reg v b) TM_BNOT v = (mm, v1)" by fastforce
  note r = runs_metamethod(1) [OF assms(1) m]
  show ?thesis unfolding op_bnot_def Let_def m prod.case
    by (auto intro!: goes_set_reg [OF assms] goes_case_fn goes_invoke [OF r] simp del: goes_simps(3) split: option.split)
qed

lemma goes_len:
  assumes "runs E rest c S v" "\<not> fc_pending c"
  shows "goes rest S (op_len E a b v)"
proof -
  obtain mm v1 where m: "metamethod (reg v b) TM_LEN v = (mm, v1)" by fastforce
  note r = runs_metamethod(1) [OF assms(1) m]
  have general: "goes rest S (rbind x (\<lambda>(out, g). Inr (Next (set_reg a out (reload (w\<lparr>v_g := g\<rparr>))))))" if "v_ctl w = v_ctl v" for x w
    using that runsD [OF assms(1)] assms(2) by (auto intro!: goes_bind)
  show ?thesis unfolding op_len_def Let_def m prod.case
    by (auto intro!: goes_set_reg [OF assms] goes_set_reg [OF r assms(2)] goes_invoke [OF r] general ctl_metamethod(1) [OF m]
        simp del: goes_simps(3) split: option.split tvalue.split)
qed

lemma goes_arith:
  assumes "runs E rest c S v" "\<not> fc_pending c"
  shows "goes rest S (op_arith E op a b k v)"
proof -
  obtain mm v1 where m: "(case arith_mt op of Some e \<Rightarrow> metamethod2 (reg v b) (reg v k) e v | None \<Rightarrow> (VNil, v)) = (mm, v1)" by fastforce
  have r: "runs E rest c S v1" using m assms(1) runs_metamethod(2) [OF assms(1)] by (auto split: option.splits)
  have last: "goes rest S (rbind x (\<lambda>(_, g). Inr (Next (v1\<lparr>v_g := g\<rparr>))))" for x :: "(tvalue \<times> gstate) result"
    using runsD [OF r] assms(2) by (auto intro!: goes_bind)
  show ?thesis unfolding op_arith_def Let_def m prod.case
    by (rule goes_bind) (auto intro!: goes_bind goes_set_reg [OF assms] goes_case_fn goes_invoke [OF r] last simp del: goes_simps(3) split: option.split)
qed

lemma goes_concat:
  assumes "runs E rest c S v" "\<not> fc_pending c"
  shows "goes rest S (op_concat E a b k v)"
proof -
  let ?v = "upd_ctl (\<lambda>ct. ct\<lparr>fc_concat_pos := b, fc_concat_last := k, fc_concat_dest := a\<rparr>) v"
  note rd = runsD [OF assms(1)]
  have v: "v_ctl ?v = rest @ [c\<lparr>fc_concat_pos := b, fc_concat_last := k, fc_concat_dest := a\<rparr>]" using rd by simp
  have "goes rest S (rbind (concat_fold E n p l d x ?v) (\<lambda>(st, v1). Inr (if st = LUA_YIELD then Ret LUA_YIELD v1 else Next v1)))" for n p l d x
  proof (rule goes_bind)
    fix y assume y: "concat_fold E n p l d x ?v = Inr y"
    obtain st u where [simp]: "y = (st, u)" by (cases y)
    from concat_fold_moves [OF _ y [simplified] v] rd assms(2) moved_mono [of rest "{fc_pc c}" "v_ctl u" S]
    show "goes rest S (case y of (st, v1) \<Rightarrow> Inr (if st = LUA_YIELD then Ret LUA_YIELD v1 else Next v1))" by auto
  qed
  then show ?thesis using v assms(2) rd by (simp add: op_concat_def Let_def split: prod.split)
qed

lemma goes_eq:
  assumes "runs E rest c S v" "\<not> fc_pending c" "fc_pc c + 1 \<in> S"
  shows "goes rest S (op_eq E a b k v)"
proof -
  obtain mm v1 where m: "metamethod2 (reg v b) (reg v k) TM_EQ v = (mm, v1)" by fastforce
  note r = runs_metamethod(2) [OF assms(1) m]
  show ?thesis unfolding op_eq_def Let_def m prod.case
    by (auto intro!: goes_skip [OF assms] goes_skip [OF r assms(2,3)] goes_case_fn goes_invoke [OF r] simp del: goes_simps(3))
qed

lemma goes_compared:
  assumes "runs E rest c S v" "\<not> fc_pending c" "fc_pc c + 1 \<in> S"
  shows "goes rest S (rbind x (\<lambda>(t, g). Inr (Next (cond_skip a t (v\<lparr>v_g := g\<rparr>)))))"
  using runsD [OF assms(1)] assms(2,3) by (auto intro!: goes_bind simp: cond_skip_def)

lemma goes_lt:
  assumes "runs E rest c S v" "\<not> fc_pending c" "fc_pc c + 1 \<in> S"
  shows "goes rest S (op_lt E a b k v)"
proof -
  obtain mm v1 where m: "metamethod2 (reg v b) (reg v k) TM_LT v = (mm, v1)" by fastforce
  have r: "runs E rest (c\<lparr>fc_le_invert := False\<rparr>) S (upd_ctl (\<lambda>ct. ct\<lparr>fc_le_invert := False\<rparr>) v1)"
    by (rule runs_upd [OF runs_metamethod(2) [OF assms(1) m]]) simp
  show ?thesis unfolding op_lt_def Let_def m prod.case
    by (auto intro!: goes_skip [OF assms] goes_compared [OF assms] goes_case_fn goes_invoke [OF r] simp del: goes_simps(3))
qed

lemma goes_le:
  assumes "runs E rest c S v" "\<not> fc_pending c" "fc_pc c + 1 \<in> S"
  shows "goes rest S (op_le E a b k v)"
proof -
  obtain mm v1 where m: "metamethod2 (reg v b) (reg v k) TM_LE v = (mm, v1)" by fastforce
  obtain mm2 v2 where m2: "metamethod2 (reg v k) (reg v b) TM_LT v1 = (mm2, v2)" by fastforce
  note r1 = runs_metamethod(2) [OF assms(1) m]
  have r: "runs E rest (c\<lparr>fc_le_invert := False\<rparr>) S (upd_ctl (\<lambda>ct. ct\<lparr>fc_le_invert := False\<rparr>) v1)"
    by (rule runs_upd [OF r1]) simp
  have r2: "runs E rest (c\<lparr>fc_le_invert := True\<rparr>) S (upd_ctl (\<lambda>ct. ct\<lparr>fc_le_invert := True\<rparr>) v2)"
    by (rule runs_upd [OF runs_metamethod(2) [OF r1 m2]]) simp
  show ?thesis unfolding op_le_def Let_def m m2 prod.case
    by (auto intro!: goes_skip [OF assms] goes_compared [OF assms] goes_case_fn goes_invoke [OF r] goes_invoke [OF r2] simp del: goes_simps(3))
qed

section \<open>The other instructions\<close>

text \<open>Instructions that only read and write the state of the running frame and may start a collection.\<close>

lemma goes_collect:
  assumes "\<not> fc_pending c" "fc_pc c \<in> S" "v_ctl w = rest @ [c]"
  shows "goes rest S (rbind (collect E w) (\<lambda>v1. Inr (Next v1)))"
  using assms by (auto intro!: goes_bind dest: ctl_collect)

lemma goes_newtable:
  assumes "\<not> fc_pending c" "fc_pc c \<in> S" "v_ctl v = rest @ [c]"
  shows "goes rest S (op_newtable E a b k v)"
  unfolding op_newtable_def Let_def by (rule goes_collect [OF assms(1,2)]) (simp add: assms(3))

lemma goes_upvalues:
  assumes "\<not> fc_pending c" "fc_pc c \<in> S" "v_ctl v = rest @ [c]"
  shows "goes rest S (op_getupval a b v)" "goes rest S (op_setupval a b v)"
  using assms by (auto simp: op_getupval_def op_setupval_def Let_def split: option.split)

lemma goes_setlist:
  assumes "\<not> fc_pending c" "fc_pc c \<in> S" "v_ctl v = rest @ [c]"
  shows "goes rest S (op_setlist a b k v)"
  using assms by (auto simp: op_setlist_def Let_def intro!: goes_bind dest: ctl_set_items)

lemma goes_closure:
  assumes "\<not> fc_pending c" "fc_pc c \<in> S" "v_ctl v = rest @ [c]"
  shows "goes rest S (op_closure E a b v)"
proof -
  have "goes rest S (new_closure E a npp np v)" for npp np
    unfolding new_closure_def Let_def
  proof (rule goes_bind)
    fix y
    let ?n = "me_alloc (ve_meta E) (v_g v)"
    assume y: "bind_upvals E (p_upvalues np) (on_g (closure_new_lua ?n (ve_closure_bytes E) npp) v) = Inr y"
    obtain us w where [simp]: "y = (us, w)" by (cases y)
    have "v_ctl w = rest @ [c]" using ctl_bind_upvals [OF y [simplified]] assms(3) by simp
    then have "goes rest S (rbind (collect E (set_reg a (VFunction ?n) (reload (on_g h w)))) (\<lambda>v4. Inr (Next v4)))" for h
      by (intro goes_collect [OF assms(1,2)]) simp
    then show "goes rest S (case y of (us, v2) \<Rightarrow> rbind (collect E (set_reg a (VFunction ?n) (reload
          (on_g (\<lambda>g. upd_cell npp (\<lambda>ce. ce\<lparr>c_cache := Some ?n\<rparr>) (set_obj ?n (OClosure ((closure_at g ?n)\<lparr>cl_upvals := us\<rparr>)) g)) v2))))
        (\<lambda>v4. Inr (Next v4)))"
      by simp
  qed
  then show ?thesis using assms by (simp add: op_closure_def Let_def split: option.split)
qed

lemma goes_vararg:
  assumes "\<not> fc_pending c" "fc_pc c \<in> S" "v_ctl v = rest @ [c]"
  shows "goes rest S (op_vararg a b v)"
  using assms by (simp add: op_vararg_def Let_def)

section \<open>Jumps\<close>

lemma goes_jmp:
  assumes "\<not> fc_pending c" "fc_pc c + sbx \<in> S" "v_ctl v = rest @ [c]"
  shows "goes rest S (op_jmp E a sbx v)"
  unfolding op_jmp_def Let_def
  by (rule goes_collect [of "c\<lparr>fc_pc := fc_pc c + sbx\<rparr>"]) (use assms in \<open>auto split: option.split\<close>)

lemma goes_forprep:
  assumes "\<not> fc_pending c" "fc_pc c + sbx \<in> S" "v_ctl v = rest @ [c]"
  shows "goes rest S (op_forprep E a sbx v)"
proof -
  have "goes rest S (for_float E a sbx v)"
    using assms by (simp add: for_float_def Let_def split: option.split)
  then show ?thesis using assms unfolding op_forprep_def by (simp split: option.split tvalue.split prod.split)
qed

lemma goes_forloop:
  assumes "\<not> fc_pending c" "fc_pc c + sbx \<in> S" "fc_pc c \<in> S" "v_ctl v = rest @ [c]"
  shows "goes rest S (op_forloop E a sbx v)"
proof -
  have "goes rest S (loop_again E a sbx x v)" for x
    unfolding loop_again_def by (rule goes_collect [of "c\<lparr>fc_pc := fc_pc c + sbx\<rparr>"]) (use assms in simp_all)
  then show ?thesis using assms unfolding op_forloop_def Let_def by (simp split: tvalue.split)
qed

lemma goes_tforloop:
  assumes "\<not> fc_pending c" "fc_pc c + sbx \<in> S" "fc_pc c \<in> S" "v_ctl v = rest @ [c]"
  shows "goes rest S (op_tforloop E a sbx v)"
proof -
  have "goes rest S (rbind (collect E (add_pc sbx (set_reg a x v))) (\<lambda>v1. Inr (Next v1)))" for x
    by (rule goes_collect [of "c\<lparr>fc_pc := fc_pc c + sbx\<rparr>"]) (use assms in simp_all)
  then show ?thesis using assms unfolding op_tforloop_def by simp
qed

section \<open>Calls and returns\<close>

lemma goes_tforcall:
  assumes "host_ok E" "\<not> fc_pending c" "fc_pc c \<in> S" "v_ctl v = rest @ [c]"
  shows "goes rest S (op_tforcall E a k v)"
  using assms unfolding op_tforcall_def Let_def
  by (auto intro!: goes_bind dest: ctl_call_closure [OF assms(1)] split: tvalue.split)

lemma goes_call:
  assumes "host_ok E" "\<not> fc_pending c" "fc_pc c \<in> S" "v_ctl v = rest @ [c]"
  shows "goes rest S (op_call E a b k v)"
  unfolding op_call_def Let_def
proof (rule goes_bind)
  fix w assume "collect E v = Inr w"
  then have w: "v_ctl w = rest @ [c]" using ctl_collect assms(4) by simp
  let ?n = "arg_count a b w" and ?r = "if k = 0 then LUA_MULTRET else k - 1"
  let ?w = "reload (set_top (fbase w + a + 1 + ?n) (need (fbase w + a + 1 + ?n + 8) w))"
  have c: "goes rest S (rbind (run_c_call E f cb n r tail nm ?w) (\<lambda>(st, v2). Inr (if st = LUA_YIELD then Ret LUA_YIELD v2 else Next v2)))" for f cb n r tail nm
    using ctl_run_c [OF assms(1), of f cb n r tail nm ?w] w assms(2,3) by (fastforce intro!: goes_bind)
  have l: "goes rest S (rbind (push_lua_frame E f cb n r tail ?w) (\<lambda>v2. Inr (Next v2)))" for f cb n r tail
    using ctl_push_lua [OF assms(1), of f cb n r tail ?w] w assms(2,3) by (fastforce intro!: goes_bind)
  have m: "goes rest S (rbind x (\<lambda>(_, g). Inr (Next (?w\<lparr>v_g := g\<rparr>))))" for x :: "(int \<times> gstate) result"
    using w assms(2,3) by (auto intro!: goes_bind)
  show "goes rest S (case reg ?w a of
      VFunction f \<Rightarrow>
        if cl_is_c (closure_at (v_g ?w) f) then rbind (run_c_call E f (fbase w + a) ?n ?r False [] ?w) (\<lambda>(st, v2). Inr (if st = LUA_YIELD then Ret LUA_YIELD v2 else Next v2))
        else rbind (push_lua_frame E f (fbase w + a) ?n ?r False ?w) (\<lambda>v2. Inr (Next v2))
    | _ \<Rightarrow> rbind (meta_call (ve_meta E) (fbase w + a) ?n (if ?r = LUA_MULTRET then 1 else ?r) (v_g ?w)) (\<lambda>(_, g). Inr (Next (?w\<lparr>v_g := g\<rparr>))))"
    by (rule goes_case_fn) (simp_all only: c l m if_split simp_thms)
qed

text \<open>The running frame is gone, or the one of a tail call is in its place.\<close>

definition replaced :: "frame_ctl list \<Rightarrow> frame_ctl list \<Rightarrow> bool" where
  "replaced rest cs \<longleftrightarrow> cs = rest \<or> (\<exists>f. cs = rest @ [f] \<and> fresh_ctl f)"

definition exits :: "frame_ctl list \<Rightarrow> turn result \<Rightarrow> bool" where
  "exits rest r \<longleftrightarrow> (\<forall>v. r = Inr (Next v) \<longrightarrow> replaced rest (v_ctl v))"

lemma exits_simps [simp]:
  "exits rest (Inl e)" "exits rest (Inr (Ret st v))" "exits rest (Inr (Next v)) \<longleftrightarrow> replaced rest (v_ctl v)"
  "exits rest (Inr (leaves d v)) \<longleftrightarrow> nframes v < d \<or> replaced rest (v_ctl v)"
  by (auto simp: exits_def leaves_def)

lemma exits_bind: "(\<And>y. x = Inr y \<Longrightarrow> exits rest (f y)) \<Longrightarrow> exits rest (rbind x f)"
  by (cases x) simp_all

lemma ctl_pop [simp]: "v_ctl (pop_frame v) = butlast (v_ctl v)"
  by (simp add: pop_frame_def)

lemma return_exits:
  assumes "host_ok E" "v_ctl v = rest @ [c]"
  shows "exits rest (op_return E d a b v)"
  unfolding op_return_def Let_def
proof (intro exits_bind)
  fix w u and r :: int
  assume w: "collect E v = Inr w"
    and u: "hook E HookReturn (need r (case g_current (v_g w) of Some tp \<Rightarrow> on_g (close_upvals tp (fbase w)) w | None \<Rightarrow> w)) = Inr u"
  have "v_ctl w = rest @ [c]" using ctl_collect [OF w] assms(2) by simp
  then have "v_ctl u = rest @ [c]" using ctl_hook [OF assms(1) u] by (simp split: option.splits)
  then show "exits rest (Inr (leaves d (set_top i (nil_slots j k (if P then put_slots q (slots (pop_frame u) m l) (pop_frame u) else pop_frame u)))))" for i j k P q m l
    by (simp add: replaced_def)
qed

lemma exits_calls:
  assumes "host_ok E" "v_ctl u = rest"
  shows "exits rest (rbind (run_c_call E f cb n r tail nm u) (\<lambda>(st, w). Inr (if st = LUA_YIELD then Ret LUA_YIELD w else leaves d w)))"
    and "exits rest (rbind (push_lua_frame E f cb n r tail u) (\<lambda>w. Inr (Next w)))"
    and "exits rest (rbind x (\<lambda>(_, g). Inr (leaves d (u\<lparr>v_g := g\<rparr>))))"
proof -
  show "exits rest (rbind (run_c_call E f cb n r tail nm u) (\<lambda>(st, w). Inr (if st = LUA_YIELD then Ret LUA_YIELD w else leaves d w)))"
    using ctl_run_c [OF assms(1), of f cb n r tail nm u] assms(2) by (fastforce intro!: exits_bind simp: replaced_def)
  show "exits rest (rbind (push_lua_frame E f cb n r tail u) (\<lambda>w. Inr (Next w)))"
    using ctl_push_lua [OF assms(1), of f cb n r tail u] assms(2) by (fastforce intro!: exits_bind simp: replaced_def)
  show "exits rest (rbind x (\<lambda>(_, g). Inr (leaves d (u\<lparr>v_g := g\<rparr>))))"
    using assms(2) by (auto intro!: exits_bind simp: replaced_def)
qed

lemma tailcall_exits:
  assumes "host_ok E" "v_ctl v = rest @ [c]"
  shows "exits rest (op_tailcall E d a b v)"
  unfolding op_tailcall_def
proof (rule exits_bind)
  fix w assume "collect E v = Inr w"
  then have w: "v_ctl w = rest @ [c]" using ctl_collect assms(2) by simp
  note calls = exits_calls [OF assms(1)]
  show "exits rest (let nargs = arg_count a b w; nresults = fc_results (cur_ctl w); dest = fbase w;
         tmp = live_stack_top (obj_at (v_g w)) (v_th w);
         v1 = need (tmp + nargs + 1 + 8) w;
         v2 = put_slots tmp (slots v1 (dest + a) (nargs + 1)) v1;
         callee = slot v2 tmp;
         name = ve_name E v2;
         v3 = (case g_current (v_g v2) of Some tp \<Rightarrow> on_g (close_upvals tp dest) v2 | None \<Rightarrow> v2);
         v4 = need (dest + 1 + nargs + 8) v3;
         v5 = pop_frame (set_top (dest + 1 + nargs) (put_slots dest (slots v4 tmp (nargs + 1)) v4))
     in case callee of
          VFunction f \<Rightarrow>
            if cl_is_c (closure_at (v_g v5) f) then
              rbind (run_c_call E f dest nargs nresults True name v5) (\<lambda>(st, v6).
                Inr (if st = LUA_YIELD then Ret LUA_YIELD v6 else leaves d v6))
            else rbind (push_lua_frame E f dest nargs nresults True v5) (\<lambda>v6. Inr (Next v6))
        | _ \<Rightarrow>
            rbind (meta_call (ve_meta E) dest nargs (if nresults = LUA_MULTRET then 1 else nresults) (v_g v5)) (\<lambda>(_, g).
              Inr (leaves d (v5\<lparr>v_g := g\<rparr>))))"
    unfolding Let_def using w by (auto intro!: calls split: option.split tvalue.split)
qed

section \<open>The loop\<close>

lemma skip_pc: "skips i \<Longrightarrow> int n + 2 \<in> set (next_pcs n i)"
  by (auto simp: next_pcs_def skips_def)

lemma jump_pc: "opcode_at i = Some op \<Longrightarrow> jump_op op \<Longrightarrow> int n + 1 + op_sbx i \<in> set (next_pcs n i)"
  by (auto simp: next_pcs_def jump_op_def)

lemma follow_pc: "opcode_at i \<noteq> Some OP_RETURN \<Longrightarrow> int n + 1 \<in> set (next_pcs n i)"
  by (simp add: next_pcs_def)

text \<open>An instruction leads to one of its successors, except that a return or a tail call ends the frame.\<close>

lemma exec_moves:
  assumes "host_ok E" "v_ctl v = rest @ [c]" "codes v \<noteq> []" "fc_pc c = int n + 1" "\<not> fc_pending c" "last (codes v) ! n = i"
    "opcode_at i \<noteq> Some OP_RETURN" "opcode_at i \<noteq> Some OP_TAILCALL"
  shows "goes rest (set (next_pcs n i)) (exec E d i v)"
proof (cases "opcode_at i")
  case None
  then show ?thesis by (simp add: exec_def Let_def opcode_at_def)
next
  case (Some op)
  let ?S = "set (next_pcs n i)"
  have pc: "fc_pc c \<in> ?S" using follow_pc [OF assms(7)] assms(4) by simp
  have skip: "skips i \<Longrightarrow> fc_pc c + 1 \<in> ?S" using skip_pc [of i n] assms(4) by (simp add: algebra_simps)
  have jump: "jump_op op \<Longrightarrow> fc_pc c + op_sbx i \<in> ?S" using jump_pc [OF Some, of n] assms(4) by simp
  have r: "runs E rest c ?S v" using assms(1-6) pc skip by (auto simp: runs_def compares_def skips_def)
  note plain = assms(5) pc assms(2) and ready = r assms(5)
  note ops = goes_get [OF ready] goes_set [OF ready] goes_self [OF ready] goes_unm [OF ready] goes_bnot [OF ready] goes_len [OF ready]
    goes_arith [OF ready] goes_concat [OF ready] goes_collect [OF plain] goes_newtable [OF plain] goes_upvalues [OF plain]
    goes_setlist [OF plain] goes_closure [OF plain] goes_vararg [OF plain] goes_tforcall [OF assms(1) plain] goes_call [OF assms(1) plain]
    goes_eq [OF ready skip] goes_lt [OF ready skip] goes_le [OF ready skip] goes_jmp [OF assms(5) jump assms(2)]
    goes_forprep [OF assms(5) jump assms(2)] goes_forloop [OF assms(5) jump pc assms(2)] goes_tforloop [OF assms(5) jump pc assms(2)]
  have tables: "goes rest ?S (op_gettabup E a b k v)" "goes rest ?S (op_settabup E a b k v)" "goes rest ?S (op_gettable E a t key v)"
      "goes rest ?S (op_settable E t key x v)" "goes rest ?S (op_geti E a b k v)" "goes rest ?S (op_seti E a b k v)" for a b k t key x
    using goes_get [OF ready] goes_set [OF ready ctl_store(1)] goes_set [OF ready ctl_store(2)]
    by (simp_all add: op_gettabup_def op_settabup_def op_gettable_def op_settable_def op_geti_def op_seti_def Let_def split: option.split)
  have bool: "op = OP_LOADBOOL \<Longrightarrow> uint (op_c i) \<noteq> 0 \<Longrightarrow> fc_pc c + 1 \<in> ?S"
    using Some by (intro skip) (auto simp: skips_def)
  have op: "opcode_of (op_get i) = Some op" using Some by (simp add: opcode_at_def)
  show ?thesis
    unfolding exec_def Let_def op option.case using Some assms(7,8) plain skip bool
    by (cases op; simp only: opcode.case)
      (simp_all add: ops tables skips_def jump_op_def cond_skip_def)
qed

text \<open>The counter of a frame in the code of its function; one that waits is past its first instruction.\<close>

definition in_code :: "proto \<Rightarrow> frame_ctl \<Rightarrow> bool" where
  "in_code p c \<longleftrightarrow> (if fc_pending c then 1 else 0) \<le> fc_pc c \<and> fc_pc c < int (length (p_code p))"

text \<open>The instruction a turn of the loop fetches.\<close>

definition fetched :: "vm \<Rightarrow> opcode option" where
  "fetched v = (if fc_pending (cur_ctl v) then None else opcode_at (p_code (cur_proto v) ! nat (fc_pc (cur_ctl v))))"

lemma next_in_code:
  assumes "code_safe p m" "n < length (p_code p)" "d \<in> set (next_pcs n (p_code p ! n))"
  shows "0 \<le> d \<and> d < int (length (p_code p))"
  using assms by (auto simp: code_safe_def list_all_iff)

lemma finish_in_code:
  assumes "host_ok E" "v_ctl v = rest @ [c]" "codes v \<noteq> []" "code_safe (cur_proto v) m" "in_code (cur_proto v) c" "fc_pending c"
  shows "goes rest {0..<int (length (p_code (cur_proto v)))} (finish_now E v)"
proof (rule goes_finish)
  let ?code = "p_code (cur_proto v)" and ?n = "nat (fc_pc c - 1)"
  have n: "?n < length ?code" "fc_pc c + 1 = int ?n + 2" using assms(5,6) by (auto simp: in_code_def)
  have "fc_pc c + 1 \<in> set (next_pcs ?n (?code ! ?n))" if "compares (?code ! ?n)"
    unfolding n(2) using that by (intro skip_pc) (auto simp: compares_def skips_def)
  then show "runs E rest c {0..<int (length ?code)} v"
    using assms(1-3,5,6) next_in_code [OF assms(4) n(1)] code_of_cur [OF assms(3)] by (auto simp: runs_def in_code_def)
qed (rule assms(6))

lemma exec_in_code:
  assumes "host_ok E" "v_ctl v = rest @ [c]" "codes v \<noteq> []" "fc_pc c = int n + 1" "\<not> fc_pending c" "last (codes v) = p_code p"
    "code_safe p m" "n < length (p_code p)" "opcode_at (p_code p ! n) \<notin> {Some OP_RETURN, Some OP_TAILCALL}"
  shows "goes rest {0..<int (length (p_code p))} (exec E d (p_code p ! n) v)"
proof -
  have "goes rest (set (next_pcs n (p_code p ! n))) (exec E d (p_code p ! n) v)"
    using assms by (intro exec_moves [where c = c]) auto
  then show ?thesis using next_in_code [OF assms(7,8)] by (auto simp: goes_def elim!: moved_mono)
qed

lemma exec_exits:
  assumes "host_ok E" "v_ctl v = rest @ [c]" "opcode_at i \<in> {Some OP_RETURN, Some OP_TAILCALL}"
  shows "exits rest (exec E d i v)"
  using assms(3) return_exits [OF assms(1,2)] tailcall_exits [OF assms(1,2)] by (auto simp: exec_def Let_def opcode_at_def)

lemma stress_state: "g_stress (v_g (reload v)) = g_stress (v_g v)" "g_stress (v_g (add_pc d v)) = g_stress (v_g v)"
  by (simp_all add: reload_def need_def on_th_def add_pc_def upd_ctl_def)

text \<open>C40: The loop never leaves the code of a function. When the running frame is inside safe code, as every function that the
  lowering pass builds is, a turn that goes on leaves the frame inside that code, also when it finishes an instruction after its
  metamethod, with nothing above it but the first instruction of a called function; only a \<open>RETURN\<close> or a tail call removes the
  frame or replaces it. So the test for running off the end of the code is never needed. Outside the stress mode of the
  collector, for hooks and C functions that leave the frames as they found them.\<close>

theorem turn_stays_in_code:
  assumes "host_ok E" "v_ctl v \<noteq> []" "code_safe (cur_proto v) m" "in_code (cur_proto v) (cur_ctl v)" "\<not> g_stress (v_g v)"
    "vm_step E d v = Inr (Next v')"
  shows "if fetched v \<in> {Some OP_RETURN, Some OP_TAILCALL} then replaced (butlast (v_ctl v)) (v_ctl v')
    else \<exists>c fs. v_ctl v' = butlast (v_ctl v) @ c # fs \<and> in_code (cur_proto v) c \<and> (fs = [] \<or> (\<exists>f. fs = [f] \<and> fresh_ctl f))"
proof -
  let ?p = "cur_proto v"
  obtain rest c where v: "v_ctl v = rest @ [c]" using assms(2) by (cases "v_ctl v" rule: rev_cases) auto
  then have cur: "cur_ctl v = c" "butlast (v_ctl v) = rest" by simp_all
  let ?pc = "fc_pc c"
  have c: "in_code ?p c" using assms(4) cur by simp
  have ne: "codes v \<noteq> []" using assms(6) by (auto simp: vm_step_def codes_def nframes_def)
  have moved: "\<exists>c fs. v_ctl v' = rest @ c # fs \<and> in_code ?p c \<and> (fs = [] \<or> (\<exists>f. fs = [f] \<and> fresh_ctl f))"
    if "goes rest {0..<int (length (p_code ?p))} (Inr (Next v'))"
    using that by (fastforce simp: moved_def in_code_def)
  show ?thesis
  proof (cases "fc_pending c")
    case True
    then have "finish_now E v = Inr (Next v')" using assms(6) by (simp add: vm_step_def Let_def cur split: if_splits)
    then show ?thesis using moved finish_in_code [OF assms(1) v ne assms(3) c True] True cur by (simp add: fetched_def)
  next
    case False
    then have pc: "nat ?pc < length (p_code ?p)" "0 \<le> ?pc" using c by (auto simp: in_code_def)
    then have "\<not> int (length (p_code ?p)) \<le> ?pc" by linarith
    then obtain w where h: "hook E HookTrace (add_pc 1 v) = Inr w"
      and x: "rbind (if g_stress (v_g (reload w)) then collect E (reload w) else Inr (reload w)) (exec E d (p_code ?p ! nat ?pc)) = Inr (Next v')"
      using assms(6) False by (auto simp: vm_step_def Let_def rbind_eq_Inr cur split: if_splits)
    let ?w = "reload w" and ?d = "c\<lparr>fc_pc := ?pc + 1\<rparr>"
    have w: "v_ctl ?w = rest @ [?d]" "codes ?w = codes v" "g_stress (v_g ?w) = g_stress (v_g v)"
      using ctl_hook [OF assms(1) h] v by (simp_all add: stress_state) (simp_all add: add_pc_def)
    then have x: "exec E d (p_code ?p ! nat ?pc) ?w = Inr (Next v')" using x assms(5) by simp
    show ?thesis
    proof (cases "opcode_at (p_code ?p ! nat ?pc) \<in> {Some OP_RETURN, Some OP_TAILCALL}")
      case True
      then show ?thesis using exec_exits [OF assms(1) w(1) True, of d] x False cur by (simp add: fetched_def)
    next
      case other: False
      have "goes rest {0..<int (length (p_code ?p))} (Inr (Next v'))"
        using exec_in_code [OF assms(1) w(1), of "nat ?pc" ?p m d] w(2) ne False pc other assms(3) code_of_cur [OF ne] x by simp
      then show ?thesis using moved other False cur by (simp add: fetched_def)
    qed
  qed
qed

definition quiet_env :: "meta_env \<Rightarrow> call_fn \<Rightarrow> vm_env" where
  "quiet_env M fz =
     \<lparr>ve_meta = M, ve_cfunc = (\<lambda>f v. Inr (0, v)), ve_hook = (\<lambda>ev v. Inr v),
      ve_nested = (\<lambda>v. Inr (LUA_OK, v\<lparr>v_ctl := butlast (v_ctl v)\<rparr>)), ve_name = (\<lambda>v. []), ve_gc_call = fz,
      ve_table_bytes = 64, ve_closure_bytes = 64, ve_upval_bytes = 48\<rparr>"

lemma quiet_env_ok: "host_ok (quiet_env M fz)"
  by (simp add: host_ok_def quiet_env_def)

text \<open>The value of a comparison that held: the first load skips the second one.\<close>

definition skip_proto :: proto where
  "skip_proto = no_proto\<lparr>p_code := [encode_abc OP_LOADBOOL 0 1 1, encode_abc OP_LOADBOOL 0 0 0, encode_abc OP_RETURN 0 2 0],
     p_lineinfo := [1, 1, 1], p_maxstack := 1\<rparr>"

definition skip_vm :: vm where
  "skip_vm = loop_vm\<lparr>v_g := (heap_of
       [(7, OThread (no_thread\<lparr>th_stack := [VNil, VNil],
          th_frames := [\<lparr>fr_cl = None, fr_proto = Some 9, fr_base = 0, fr_varargs = [], fr_finalizer = False\<rparr>]\<rparr>)),
        (9, OProto skip_proto)])
      \<lparr>g_current := Some 7, g_stress := False, g_debt := 0, g_threshold := 1\<rparr>\<rparr>"

lemma skip_vm_state:
  "v_ctl skip_vm = [ctl0]" "cur_ctl skip_vm = ctl0" "cur_proto skip_vm = skip_proto" "\<not> g_stress (v_g skip_vm)" "nframes skip_vm = 1"
  "fr_proto (cur_frame skip_vm) = Some 9" "th_hook (v_th skip_vm) = None"
proof -
  have o: "obj_at (v_g skip_vm) 7 = Some (OThread (no_thread\<lparr>th_stack := [VNil, VNil],
      th_frames := [\<lparr>fr_cl = None, fr_proto = Some 9, fr_base = 0, fr_varargs = [], fr_finalizer = False\<rparr>]\<rparr>))"
    "obj_at (v_g skip_vm) 9 = Some (OProto skip_proto)" "g_current (v_g skip_vm) = Some 7"
    by (simp_all add: skip_vm_def heap_of_def white_cell_def obj_at_def cell_at_def)
  then have t: "v_th skip_vm = no_thread\<lparr>th_stack := [VNil, VNil],
      th_frames := [\<lparr>fr_cl = None, fr_proto = Some 9, fr_base = 0, fr_varargs = [], fr_finalizer = False\<rparr>]\<rparr>"
    by (simp add: cur_th_def thread_at_def)
  show "v_ctl skip_vm = [ctl0]" "cur_ctl skip_vm = ctl0" "\<not> g_stress (v_g skip_vm)" by (simp_all add: skip_vm_def loop_vm_def cur_ctl_def)
  show "nframes skip_vm = 1" "fr_proto (cur_frame skip_vm) = Some 9" "th_hook (v_th skip_vm) = None"
    by (simp_all add: nframes_def cur_frame_def t no_thread_def)
  show "cur_proto skip_vm = skip_proto" by (simp add: cur_proto_def cur_frame_def t proto_at_def o)
qed

lemma skip_proto_safe: "code_safe skip_proto 0"
  by code_simp

lemma skip_vm_step: "\<exists>v'. vm_step (quiet_env M fz) 1 skip_vm = Inr (Next v') \<and> fetched skip_vm = Some OP_LOADBOOL"
proof -
  have ins: "opcode_of (op_get (p_code skip_proto ! 0)) = Some OP_LOADBOOL" "length (p_code skip_proto) = 3"
    by (simp_all add: skip_proto_def encode_abc_fields opcode_of_num)
  have "hook (quiet_env M fz) ev (add_pc 1 skip_vm) = Inr (add_pc 1 skip_vm)" for ev by (simp add: hook_def skip_vm_state)
  moreover have "\<not> g_stress (v_g (reload (add_pc 1 skip_vm)))" by (simp add: stress_state skip_vm_state)
  ultimately show ?thesis
    by (simp add: vm_step_def Let_def skip_vm_state ctl0_def ins exec_def fetched_def opcode_at_def)
qed

theorem turn_stays_in_code_witness:
  "\<forall>M fz. \<exists>v'. vm_step (quiet_env M fz) 1 skip_vm = Inr (Next v') \<and>
     (\<exists>c fs. v_ctl v' = [] @ c # fs \<and> in_code skip_proto c \<and> (fs = [] \<or> (\<exists>f. fs = [f] \<and> fresh_ctl f)))"
proof (intro allI)
  fix M fz
  obtain v' where v': "vm_step (quiet_env M fz) 1 skip_vm = Inr (Next v')" "fetched skip_vm = Some OP_LOADBOOL"
    using skip_vm_step by blast
  have "in_code skip_proto ctl0" by (simp add: in_code_def ctl0_def skip_proto_def)
  then show "\<exists>v'. vm_step (quiet_env M fz) 1 skip_vm = Inr (Next v') \<and>
     (\<exists>c fs. v_ctl v' = [] @ c # fs \<and> in_code skip_proto c \<and> (fs = [] \<or> (\<exists>f. fs = [f] \<and> fresh_ctl f)))"
    using turn_stays_in_code [OF quiet_env_ok _ _ _ _ v'(1), of 0] v' skip_proto_safe by (auto simp: skip_vm_state)
qed

end
