(* ===== verification/Spec2Isabelle.thy ===== *)
theory Spec2Isabelle
  imports Lt_Intern Lt_Jit Lt_Utf8 Lt_GcCycle Lt_Arith Lt_Quote Lt_Dump Lt_SemaProps Lt_ParserProps Lt_Tablib Lt_Pack Lt_VmSafe
begin

text \<open>
  LuaTier, a Lua 5.3 runtime in C++ (\<open>src/src\<close>): a verification library for its core. File names
  below are relative to \<open>src/src\<close>.

  \<^bold>\<open>The program.\<close> A source goes through the lexer, the recursive-descent parser and a semantic pass
  (\<open>frontend\<close>), is lowered to register bytecode (\<open>vm/bytecode.hpp\<close>), or comes ready-made from a binary
  chunk (\<open>lib/ldump.cpp\<close>), and is run by the interpreter (\<open>vm/interpreter.cpp\<close>) over tagged values
  (\<open>runtime/value.hpp\<close>), tables, interned strings, closures with upvalues and coroutines. Operators and
  table accesses that the raw operations cannot do go through metamethods (\<open>vm/meta.cpp\<close>). All objects
  are owned by a mark-sweep collector with weak tables, ephemerons and finalizers (\<open>gc\<close>). Functions of the
  standard library (\<open>lib\<close>) see their arguments as a window of the value stack (\<open>vm/state.cpp\<close>). Hotness
  counters and inline caches decide which functions are handed to the compilers (\<open>jit\<close>).

  \<^bold>\<open>Foundations.\<close>
  \<^item> \<open>Lt_Prelude\<close>: machine types, errors as values (\<open>result\<close>, \<open>panic\<close> of \<open>common/common.hpp\<close>), the
    character classes of the \<open>C\<close> locale, decimal printing, facts on lists and words.
  \<^item> \<open>Lt_Float\<close>: \<open>double\<close> as its 64-bit pattern, with exact comparisons, rounding, floor and conversions.
  \<^item> \<open>Lt_Monad\<close>: state, errors and bounded loops for the code that threads a state through many calls.

  \<^bold>\<open>Values, strings and tables.\<close>
  \<^item> \<open>Lt_Value\<close> (\<open>runtime/value\<close>): comparison and raw equality of numbers are those of their exact values.
  \<^item> \<open>Lt_Convert\<close> (\<open>runtime/value.cpp\<close>): numerals to numbers and back; printing an integer and reading it
    gives it back.
  \<^item> \<open>Lt_Table\<close>, \<open>Lt_TableInv\<close>, \<open>Lt_TableSpec\<close> (\<open>runtime/table\<close>): array part, open-addressing hash part with
    tombstones, rehash, length, weak modes. The locale \<open>lua_map\<close> is the contract of a table (an update of
    a map of normalised keys); the interpretation \<open>tbl\<close> discharges it for the code. Rehashing loses
    nothing, errors are exactly nil and NaN keys, the length is a border, and clearing a weak table
    drops exactly the dead entries.
  \<^item> \<open>Lt_Intern\<close> (\<open>runtime/string.cpp\<close>): the locale \<open>interner\<close> with an interpretation on the chained string
    table: equal bytes give the same object across any calls and resizes.

  \<^bold>\<open>Heap and collector.\<close>
  \<^item> \<open>Lt_Heap\<close> (\<open>runtime\<close>, \<open>vm/state.hpp\<close>, \<open>gc/gc.hpp\<close>): the objects, the state of the collector, metatables
    and the cache of absent metamethods, which is shown coherent.
  \<^item> \<open>Lt_Stack\<close> (\<open>vm/state.cpp\<close>): the value stack; the locale \<open>lifo\<close> and its interpretation.
  \<^item> \<open>Lt_Gc\<close>, \<open>Lt_GcInv\<close>, \<open>Lt_GcSweep\<close>, \<open>Lt_GcSafe\<close>, \<open>Lt_GcCycle\<close> (\<open>gc/gc.cpp\<close>): marking, ephemerons, weak
    tables, finalizers, sweeping and the driver. Marking blackens exactly what is reachable; a collection
    frees nothing reachable, leaves no dangling reference under the stated condition on weak-key tables,
    frees all garbage, and a full collection ends in the pause state.
  \<^item> \<open>Lt_Upval\<close> (\<open>runtime/upvalue.cpp\<close>, \<open>closure.cpp\<close>, \<open>userdata.cpp\<close>, \<open>State::close_upvals\<close>): closing
    upvalues keeps the value each of them reads.

  \<^bold>\<open>Operators.\<close>
  \<^item> \<open>Lt_Meta\<close> (\<open>vm/meta.cpp\<close>): indexing through metamethod chains, calls, equality, order, concatenation,
    length. String comparison is the order of bytes.
  \<^item> \<open>Lt_Arith\<close> (\<open>vm/interpreter.cpp\<close>, the arithmetic part): floor division and modulus, shifts, and the
    types of results.
  \<^item> \<open>Lt_Vm\<close> (\<open>vm/interpreter.cpp\<close>): the dispatch loop. One turn leaves, finishes an instruction after its metamethod, or
    fetches and executes; there is a definition per instruction and one each for calling Lua functions, C
    functions and metamethods. \<open>Lt_VmLoop\<close>: a numeric \<open>for\<close> visits exactly its progression.
    \<open>Lt_VmSafe\<close>: where each instruction leads; a turn of the loop keeps a function inside its code when that
    code is safe, as \<open>Lt_LowerSafe\<close> shows of what the lowering pass builds.
  \<^item> \<open>Lt_Bytecode\<close> (\<open>vm/bytecode\<close>), \<open>Lt_Jit\<close> (\<open>jit\<close>): instruction encoding, inline caches, hotness.

  \<^bold>\<open>Front end.\<close>
  \<^item> \<open>Lt_Lexer\<close>, \<open>Lt_LexerProps\<close> (\<open>frontend/lexer\<close>): every token moves forward; a source of n bytes has at
    most n + 1 tokens.
  \<^item> \<open>Lt_Quote\<close> (\<open>format_quote\<close> of \<open>lib/lstrlib.cpp\<close>): \<open>%q\<close> text is lexed back to the same bytes.
  \<^item> \<open>Lt_Ast\<close> (\<open>frontend/ast.hpp\<close>), \<open>Lt_Parser\<close>, \<open>Lt_ParserProps\<close> (\<open>frontend/parser\<close>): the whole grammar with
    the limits on nesting and local variables. The locales \<open>entry_points\<close> and \<open>balanced_entries\<close> state what
    the recursive calls promise; their interpretations \<open>lua\<close> and \<open>lua_bal\<close> give that the parser returns on
    every source, and that a block leaves the nesting as it found it.
  \<^item> \<open>Lt_Sema\<close>, \<open>Lt_SemaProps\<close> (\<open>frontend/sema.cpp\<close>): labels, \<open>goto\<close> and \<open>break\<close>, against the rules of the
    language.
  \<^item> \<open>Lt_Lower\<close> (\<open>frontend/lowering.cpp\<close>): the whole pass from the tree to bytecode, as commands on a function under
    construction and the stack of the enclosing ones. \<open>Lt_LowerProps\<close>, \<open>Lt_LowerSafe\<close>: triples over an
    invariant of the code, one rule per command, show that the code of every accepted chunk keeps control
    inside each function and names only what exists.
  \<^item> \<open>Lt_Dump\<close> (\<open>lib/ldump.cpp\<close>): the locale \<open>codec\<close> (a reader inverts a writer and reports every proper
    prefix as truncated) with interpretations for each kind of field; undumping a dump gives the function
    back.

  \<^bold>\<open>Libraries.\<close>
  \<^item> \<open>Lt_Lib\<close> (\<open>lib/lib_util.hpp\<close>): argument checks. \<open>Lt_Utf8\<close> (\<open>lib/lutf8lib.cpp\<close>): decoder and encoder
    invert each other.
  \<^item> \<open>Lt_Sort\<close>, \<open>Lt_Tablib\<close> (\<open>lib/ltablib.cpp\<close>): the table library over stack, heap and metamethods. The
    locale \<open>sort_array\<close> states what the quicksort needs of the array it exchanges; it is interpreted on
    a table in the collected heap, and \<open>table.sort\<close> is shown to sort.
  \<^item> \<open>Lt_Window\<close> (\<open>vm/state.cpp\<close>, \<open>lib/lib_util.hpp\<close>): a library function's window of the stack.
  \<^item> \<open>Lt_Match\<close>, \<open>Lt_MatchProps\<close> (\<open>lib/lstrlib.cpp\<close>): the pattern engine with its depth budget, against an
    inductive meaning of patterns: the leftmost match is found, and it lies within the subject.
  \<^item> \<open>Lt_Strlib\<close>, \<open>Lt_Pack\<close> (\<open>lib/lstrlib.cpp\<close>): the string functions over that engine; a replacement of every
    match by itself changes nothing, and unpacking inverts packing.

  \<^bold>\<open>Parameters.\<close> What the code takes from outside is an argument: \<open>strtod\<close> and the printing of floats,
  \<open>strcoll\<close>, \<open>pow\<close>, the allocator's next address, the clock, the call of a closure from a C function or a
  nested loop (\<open>me_call\<close>, \<open>vm_env\<close>), C functions, debug hooks and the variable and position information
  added to error messages. \<open>Lt_VmSafe\<close> assumes of hooks and C functions that they leave the frames as they
  found them (\<open>host_ok\<close>). Undefined behaviour of C++ (signed
  overflow, out-of-range casts) is modelled by wrap-around and listed with the findings.

  \<^bold>\<open>Bounds.\<close> Loops recurse on the data or on a measure; where the number of rounds is not structural it
  is bounded by a number that is proved to be enough: the collector by the number of white objects, the
  parser by the length of the source (three rounds per byte), the sort by the number of
  elements, \<open>gsub\<close> by twice the length of the subject; the pattern engine recurses on its own budget of
  200 nested calls.

  \<^bold>\<open>Not modelled.\<close> Resuming coroutines and protected calls across a yield
  (\<open>resume_after_yield\<close> of \<open>vm/interpreter.cpp\<close>), what a C++ exception unwinds, debug hooks, the C API,
  string formatting, the base, math, coroutine, I/O, OS, package and debug libraries, the command line and the
  tools: they need the state that an error leaves behind, which the model's errors do not carry, or are glue
  over the loop, text output or operations of the host system.
\<close>

end
